(* ===== verification/Prelude.thy ===== *)
theory Prelude
  imports Main "HOL-Library.Word" "HOL-Library.Monad_Syntax"
begin

unbundle bit_operations_syntax

text \<open>
  Shared vocabulary of the development: names for the machine integer types
  the compiler uses, its result type, and the generic facts on bits, division
  and lists that several components need.

  Rust's \<open>u128\<close>/\<open>u64\<close> scalars that only take part in exact arithmetic are
  natural numbers here (with the bounds that make the arithmetic exact proved
  where they matter); machine words that are assembled from bit fields are
  \<open>32 word\<close> and friends.
\<close>

type_synonym u8 = "8 word"
type_synonym u32 = "32 word"
type_synonym u64 = "64 word"

text \<open>\<open>CrabbitResult\<close>: an input error carries a message.\<close>

type_synonym 'a crabbit_result = "string + 'a"

named_theorems word_field \<open>extracting bit fields of assembled machine words\<close>
named_theorems width_simps \<open>the integer widths of the strength-reduction pass\<close>

subsection \<open>Two's complement views of unsigned values\<close>

definition i128_of_u128 :: "nat \<Rightarrow> int" where
  "i128_of_u128 n = (if n < 2 ^ 127 then int n else int n - 2 ^ 128)"

definition u128_of_i128 :: "int \<Rightarrow> nat" where
  "u128_of_i128 i = nat (i mod 2 ^ 128)"

definition u128_MAX :: nat where
  "u128_MAX = 2 ^ 128 - 1"

definition u128_not :: "nat \<Rightarrow> nat" where
  "u128_not n = u128_MAX - n"

text \<open>The signed value of the low \<open>w\<close> bits of \<open>n\<close>, and its inverse.\<close>

definition signed_of :: "nat \<Rightarrow> nat \<Rightarrow> int" where
  "signed_of w n = (if n < 2 ^ (w - 1) then int n else int n - 2 ^ w)"

definition unsigned_of :: "nat \<Rightarrow> int \<Rightarrow> nat" where
  "unsigned_of w i = nat (i mod 2 ^ w)"

lemma two_pow_pred: "0 < w \<Longrightarrow> (2::'a::comm_semiring_1) ^ w = 2 * 2 ^ (w - 1)"
  by (cases w) simp_all

lemma unsigned_of_bound [simp]: "unsigned_of w i < 2 ^ w"
  by (simp add: unsigned_of_def nat_less_iff)

lemma int_unsigned_of: "int (unsigned_of w i) = i mod 2 ^ w"
  by (simp add: unsigned_of_def)

lemma signed_of_bounds:
  assumes "0 < w" and "n < 2 ^ w"
  shows "- (2 ^ (w - 1)) \<le> signed_of w n" and "signed_of w n < 2 ^ (w - 1)"
proof -
  have "int n < 2 ^ w"
    using assms(2) by (metis of_nat_less_iff of_nat_numeral of_nat_power)
  moreover have "n < 2 ^ (w - 1) \<longleftrightarrow> int n < 2 ^ (w - 1)"
    by (metis of_nat_less_iff of_nat_numeral of_nat_power)
  ultimately show "- (2 ^ (w - 1)) \<le> signed_of w n" and "signed_of w n < 2 ^ (w - 1)"
    using two_pow_pred [OF assms(1), where 'a = int] by (auto simp: signed_of_def)
qed

lemma signed_of_mod: "signed_of w n mod 2 ^ w = int n mod 2 ^ w"
  by (simp add: signed_of_def)

lemma unsigned_of_int [simp]: "unsigned_of w (int n) = n mod 2 ^ w"
  by (simp add: unsigned_of_def nat_mod_distrib nat_power_eq)

lemma unsigned_signed [simp]: "n < 2 ^ w \<Longrightarrow> unsigned_of w (signed_of w n) = n"
  using unsigned_of_int [of w n] by (simp add: unsigned_of_def signed_of_mod)

lemma signed_unsigned:
  assumes "0 < w" and "- (2 ^ (w - 1)) \<le> i" and "i < 2 ^ (w - 1)"
  shows "signed_of w (unsigned_of w i) = i"
proof (cases "0 \<le> i")
  case True
  have "(2::int) ^ (w - 1) \<le> 2 ^ w" by (rule power_increasing) simp_all
  with assms(3) have "i < 2 ^ w" by linarith
  then have "unsigned_of w i = nat i" using True by (simp add: unsigned_of_def)
  then show ?thesis using True assms(3) by (simp add: signed_of_def nat_less_iff)
next
  case False
  have "i mod 2 ^ w = (i + 2 ^ w) mod 2 ^ w" by simp
  also have "\<dots> = i + 2 ^ w"
    using False assms(2) two_pow_pred [OF assms(1), where 'a = int] by (intro mod_pos_pos_trivial) simp_all
  finally have "int (unsigned_of w i) = i + 2 ^ w" by (simp add: int_unsigned_of)
  moreover have "2 ^ (w - 1) \<le> i + 2 ^ w"
    using assms(2) two_pow_pred [OF assms(1), where 'a = int] by simp
  ultimately show ?thesis
    by (simp add: signed_of_def) (metis not_less of_nat_less_iff of_nat_numeral of_nat_power)
qed

lemma unsigned_of_eqI: "int n mod 2 ^ w = i mod 2 ^ w \<Longrightarrow> n < 2 ^ w \<Longrightarrow> unsigned_of w i = n"
  using unsigned_of_int [of w n] by (simp add: unsigned_of_def)

lemma signed_of_eqI:
  assumes "0 < w" and "int n mod 2 ^ w = i mod 2 ^ w" and "n < 2 ^ w"
    and "- (2 ^ (w - 1)) \<le> i" and "i < 2 ^ (w - 1)"
  shows "signed_of w n = i"
proof -
  have "int n mod 2 ^ w = int n"
    using assms(3) by (metis of_nat_mod mod_less of_nat_numeral of_nat_power)
  then have "n = unsigned_of w i" using assms(2) by (simp add: unsigned_of_def)
  then show ?thesis using signed_unsigned [OF assms(1,4,5)] by simp
qed

end
