(* ===== verification/Apint.thy ===== *)
theory Apint
  imports Prelude
begin

text \<open>
  Integer constants of the mid-end, from
  \<^verbatim>\<open>crates/pliron-ll/src/passes/llvm/simplify.rs\<close>: the width mask and the sign
  extension every integer pass computes its folds with, and the constant
  operand record (bits, width) read off a constant op.  Rust's \<open>u128\<close> is a
  natural number below \<open>2 ^ 128\<close>; \<open>!x\<close> and \<open>as i128\<close> are written out.
\<close>

definition mask_to_width :: "nat \<Rightarrow> nat \<Rightarrow> nat" where
  "mask_to_width bits width =
     (if width \<ge> 128 then bits else bits AND (2 ^ width - 1))"

definition sign_extend :: "nat \<Rightarrow> nat \<Rightarrow> int" where
  "sign_extend bits width =
     (let masked = mask_to_width bits width in
      if width = 0 \<or> width \<ge> 128 then i128_of_u128 masked
      else let sign_bit = 2 ^ (width - 1) in
        if masked AND sign_bit \<noteq> 0
        then i128_of_u128 (masked OR u128_not (2 ^ width - 1))
        else i128_of_u128 masked)"

text \<open>A builtin integer type is its width and its signedness.\<close>

datatype signedness = Signed | Unsigned | Signless

datatype int_ty = IntegerType (it_width: nat) (it_sign: signedness)

record const_operand =
  co_bits :: nat
  co_width :: nat
  co_ty :: int_ty

definition co_masked :: "const_operand \<Rightarrow> nat" where
  "co_masked c = mask_to_width (co_bits c) (co_width c)"

definition co_signed :: "const_operand \<Rightarrow> int" where
  "co_signed c = sign_extend (co_bits c) (co_width c)"

definition co_is_true :: "const_operand \<Rightarrow> bool" where
  "co_is_true c \<longleftrightarrow> co_masked c \<noteq> 0"

subsection \<open>Arithmetic reading of the bit operations\<close>

lemma mask_to_width_mod: "width < 128 \<Longrightarrow> mask_to_width bits width = bits mod 2 ^ width"
  using take_bit_eq_mask [of width bits]
  by (simp add: mask_to_width_def take_bit_eq_mod mask_eq_exp_minus_1)

lemma mask_to_width_mod128: "width \<le> 128 \<Longrightarrow> mask_to_width (n mod 2 ^ 128) width = n mod 2 ^ width"
proof (cases "width < 128")
  case True
  moreover have "(2::nat) ^ width dvd 2 ^ 128" using True by (intro le_imp_power_dvd) simp
  ultimately show ?thesis by (simp add: mask_to_width_mod mod_mod_cancel)
qed (simp add: mask_to_width_def)

lemma mask_to_width_bound: "width < 128 \<Longrightarrow> mask_to_width bits width < 2 ^ width"
  by (simp add: mask_to_width_mod)

lemma mask_to_width_id: "bits < 2 ^ width \<Longrightarrow> mask_to_width bits width = bits"
  by (cases "width < 128") (simp_all add: mask_to_width_mod, simp add: mask_to_width_def)

lemma mask_to_width_idem: "mask_to_width (mask_to_width bits width) width = mask_to_width bits width"
  by (simp add: mask_to_width_def and.assoc)

lemma mask_to_width_ones:
  assumes "width < 128"
  shows "mask_to_width u128_MAX width = 2 ^ width - 1"
proof -
  have eq: "(2 ^ (128 - width) - 1) * 2 ^ width = 2 ^ 128 - (2 ^ width :: nat)"
    using assms by (simp add: diff_mult_distrib flip: power_add)
  have le: "(2::nat) ^ width \<le> 2 ^ 128" using assms by (intro power_increasing) simp_all
  have one: "(1::nat) \<le> 2 ^ width" by simp
  have "(2 ^ 128 - 1 :: nat) = (2 ^ (128 - width) - 1) * 2 ^ width + (2 ^ width - 1)"
    unfolding eq using le one by linarith
  then have "(2 ^ 128 - 1 :: nat) mod 2 ^ width = (2 ^ width - 1) mod 2 ^ width"
    by (metis mod_mult_self3)
  then show ?thesis using assms by (simp add: mask_to_width_mod u128_MAX_def)
qed

lemma and_sign_bit:
  fixes m w :: nat
  assumes "0 < w" and "m < 2 ^ w"
  shows "m AND 2 ^ (w - 1) \<noteq> 0 \<longleftrightarrow> 2 ^ (w - 1) \<le> m"
proof -
  have lt: "m < 2 * 2 ^ (w - 1)" using assms two_pow_pred [of w, where 'a = nat] by simp
  have "m AND 2 ^ (w - 1) \<noteq> 0 \<longleftrightarrow> bit m (w - 1)"
    using bit_iff_and_push_bit_not_eq_0 [of m "w - 1"] by (simp add: push_bit_eq_mult)
  also have "\<dots> \<longleftrightarrow> odd (m div 2 ^ (w - 1))" by (simp add: bit_iff_odd)
  also have "\<dots> \<longleftrightarrow> 2 ^ (w - 1) \<le> m"
  proof (cases "2 ^ (w - 1) \<le> m")
    case True
    then have "m div 2 ^ (w - 1) = 1" using lt by (intro div_nat_eqI) simp_all
    with True show ?thesis by simp
  qed simp
  finally show ?thesis .
qed

lemma or_high_ones:
  fixes m w :: nat
  assumes "w < 128" and "m < 2 ^ w"
  shows "m OR u128_not (2 ^ w - 1) = m + (2 ^ 128 - 2 ^ w)"
proof -
  have eq: "u128_not (2 ^ w - 1) = (2 ^ (128 - w) - 1) * 2 ^ w"
    using assms(1) by (simp add: u128_not_def u128_MAX_def diff_mult_distrib flip: power_add)
  then have "m AND u128_not (2 ^ w - 1) = 0"
  proof -
    have m: "m = take_bit w m" using assms(2) by (simp add: take_bit_nat_eq_self)
    have "take_bit w m AND push_bit w (2 ^ (128 - w) - 1) = 0"
      by (rule bit_eqI) (auto simp: bit_simps)
    then show ?thesis using m eq by (simp add: push_bit_eq_mult)
  qed
  then have "m OR u128_not (2 ^ w - 1) = m + u128_not (2 ^ w - 1)"
    by (simp only: disjunctive_add_eq_or)
  then show ?thesis by (simp add: u128_not_def u128_MAX_def)
qed

lemma sign_extend_signed:
  assumes "0 < width" and "width < 128"
  shows "sign_extend bits width = signed_of width (bits mod 2 ^ width)"
proof -
  let ?m = "bits mod 2 ^ width"
  have m: "?m < 2 ^ width" by simp
  have le: "(2::nat) ^ width \<le> 2 ^ 127" using assms(2) by (intro power_increasing) simp_all
  have split: "i128_of_u128 (?m + (2 ^ 128 - 2 ^ width)) = int ?m - 2 ^ width"
    if "2 ^ (width - 1) \<le> ?m"
  proof -
    have "\<not> ?m + (2 ^ 128 - 2 ^ width) < 2 ^ 127" using le by simp
    moreover have "int (2 ^ 128 - 2 ^ width) = 2 ^ 128 - 2 ^ width"
      using le by (simp add: of_nat_diff)
    ultimately show ?thesis by (simp only: i128_of_u128_def if_False of_nat_add)
  qed
  have small: "i128_of_u128 ?m = int ?m"
    using less_le_trans [OF m le] by (simp add: i128_of_u128_def)
  have "sign_extend bits width
      = (if 2 ^ (width - 1) \<le> ?m then i128_of_u128 (?m + (2 ^ 128 - 2 ^ width)) else i128_of_u128 ?m)"
    using assms and_sign_bit [OF assms(1) m] or_high_ones [OF assms(2) m]
    by (simp add: sign_extend_def mask_to_width_mod Let_def)
  also have "\<dots> = signed_of width ?m" using split small by (simp add: signed_of_def)
  finally show ?thesis .
qed

lemma co_signed_masked:
  assumes "0 < co_width c" and "co_width c < 128"
  shows "co_signed c = signed_of (co_width c) (co_masked c)"
  using assms by (simp add: co_signed_def co_masked_def sign_extend_signed mask_to_width_mod)

lemma mask_unsigned_of [simp]: "mask_to_width (unsigned_of w i) w = unsigned_of w i"
  by (rule mask_to_width_id) simp

lemma mask_u128_of_i128:
  assumes "w < 128"
  shows "mask_to_width (u128_of_i128 i) w = unsigned_of w i"
proof -
  have "(2::int) ^ w dvd 2 ^ 128" using assms by (intro le_imp_power_dvd) simp
  then have "nat (i mod 2 ^ 128) mod 2 ^ w = nat (i mod 2 ^ w)"
    using nat_mod_distrib [of "i mod 2 ^ 128" "2 ^ w"] by (simp add: nat_power_eq mod_mod_cancel)
  then show ?thesis using assms by (simp add: mask_to_width_mod u128_of_i128_def unsigned_of_def)
qed

lemma mask_u128_of_i128_le:
  assumes "w \<le> 128"
  shows "mask_to_width (u128_of_i128 i) w = unsigned_of w i"
proof (cases "w < 128")
  case False
  then have "w = 128" using assms by simp
  then show ?thesis by (simp add: mask_to_width_def u128_of_i128_def unsigned_of_def)
qed (simp add: mask_u128_of_i128)

lemma sign_extend_signed_le:
  assumes "0 < w" "w \<le> 128" "bits < 2 ^ w"
  shows "sign_extend bits w = signed_of w bits"
proof (cases "w < 128")
  case False
  then have "w = 128" using assms by simp
  then show ?thesis by (simp add: sign_extend_def mask_to_width_def i128_of_u128_def signed_of_def)
qed (use assms in \<open>simp add: sign_extend_signed\<close>)

end
