(* ===== verification/Div_Magic.thy ===== *)
theory Div_Magic
  imports Apint "HOL-Library.Signed_Division"
begin

text \<open>
  The magic numbers of division by a constant, from
  \<^verbatim>\<open>crates/pliron-ll/src/passes/llvm/div_strength_reduce.rs\<close>
  (\<^verbatim>\<open>magic_unsigned\<close>, \<^verbatim>\<open>magic_signed\<close>): the two search loops,
  their loop invariants, termination, and the theorem that multiplying by the
  magic and shifting is division.  The loops compute in \<open>u128\<close>; the invariants
  show that no subtraction of the code goes below zero.
\<close>

record unsigned_magic =
  um_multiplier :: nat
  um_shift :: nat
  um_add :: bool

record signed_magic =
  sm_multiplier :: int
  sm_shift :: nat

subsection \<open>The search loops\<close>

record magic_state =
  ms_p :: nat
  ms_q1 :: nat
  ms_r1 :: nat
  ms_q2 :: nat
  ms_r2 :: nat
  ms_add :: bool

text \<open>One pass through the body of \<open>magic_unsigned\<close>'s \<open>loop\<close>, up to the exit test.\<close>

definition magicu_step :: "nat \<Rightarrow> nat \<Rightarrow> nat \<Rightarrow> magic_state \<Rightarrow> magic_state" where
  "magicu_step d nc two_w_m1 s =
     (let p = ms_p s + 1;
          (q1, r1) = (if ms_r1 s \<ge> nc - ms_r1 s
                      then (2 * ms_q1 s + 1, 2 * ms_r1 s - nc)
                      else (2 * ms_q1 s, 2 * ms_r1 s));
          (add, q2, r2) =
            (if ms_r2 s + 1 \<ge> d - ms_r2 s
             then (ms_add s \<or> ms_q2 s \<ge> two_w_m1 - 1, 2 * ms_q2 s + 1, 2 * ms_r2 s + 1 - d)
             else (ms_add s \<or> ms_q2 s \<ge> two_w_m1, 2 * ms_q2 s, 2 * ms_r2 s + 1))
      in \<lparr>ms_p = p, ms_q1 = q1, ms_r1 = r1, ms_q2 = q2, ms_r2 = r2, ms_add = add\<rparr>)"

definition magicu_continue :: "nat \<Rightarrow> nat \<Rightarrow> magic_state \<Rightarrow> bool" where
  "magicu_continue d width s =
     (let delta = d - 1 - ms_r2 s in
      ms_p s < 2 * width \<and> (ms_q1 s < delta \<or> (ms_q1 s = delta \<and> ms_r1 s = 0)))"

function magicu_loop :: "nat \<Rightarrow> nat \<Rightarrow> nat \<Rightarrow> nat \<Rightarrow> magic_state \<Rightarrow> magic_state" where
  "magicu_loop d nc two_w_m1 width s =
     (let s' = magicu_step d nc two_w_m1 s in
      if magicu_continue d width s' then magicu_loop d nc two_w_m1 width s' else s')"
  by pat_completeness auto
termination
  by (relation "measure (\<lambda>(d, nc, t, width, s). 2 * width - ms_p s)")
    (auto simp: magicu_step_def magicu_continue_def Let_def split: prod.splits)

definition magicu_nc :: "nat \<Rightarrow> nat \<Rightarrow> nat" where
  "magicu_nc d width = (let msk = mask_to_width u128_MAX width in msk - (msk - d + 1) mod d)"

definition magicu_init :: "nat \<Rightarrow> nat \<Rightarrow> magic_state" where
  "magicu_init d width =
     (let two_w_m1 = 2 ^ (width - 1);
          nc = magicu_nc d width;
          q1 = two_w_m1 div nc;
          r1 = two_w_m1 - q1 * nc;
          q2 = (two_w_m1 - 1) div d;
          r2 = (two_w_m1 - 1) - q2 * d
      in \<lparr>ms_p = width - 1, ms_q1 = q1, ms_r1 = r1, ms_q2 = q2, ms_r2 = r2, ms_add = False\<rparr>)"

definition magic_unsigned :: "nat \<Rightarrow> nat \<Rightarrow> unsigned_magic" where
  "magic_unsigned d width =
     (let s = magicu_loop d (magicu_nc d width) (2 ^ (width - 1)) width (magicu_init d width)
      in \<lparr>um_multiplier = mask_to_width (ms_q2 s + 1) width,
          um_shift = ms_p s - width, um_add = ms_add s\<rparr>)"

text \<open>
  The signed loop has no bound on \<open>p\<close> in the code, so it is a partial function:
  \<open>None\<close> stands for a loop that does not end, and its totality for the divisors
  the pass uses is a theorem below.
\<close>

definition magic_step :: "nat \<Rightarrow> nat \<Rightarrow> magic_state \<Rightarrow> magic_state" where
  "magic_step ad anc s =
     (let p = ms_p s + 1;
          q1 = 2 * ms_q1 s; r1 = 2 * ms_r1 s;
          (q1, r1) = (if r1 \<ge> anc then (q1 + 1, r1 - anc) else (q1, r1));
          q2 = 2 * ms_q2 s; r2 = 2 * ms_r2 s;
          (q2, r2) = (if r2 \<ge> ad then (q2 + 1, r2 - ad) else (q2, r2))
      in \<lparr>ms_p = p, ms_q1 = q1, ms_r1 = r1, ms_q2 = q2, ms_r2 = r2, ms_add = False\<rparr>)"

definition magic_continue :: "nat \<Rightarrow> magic_state \<Rightarrow> bool" where
  "magic_continue ad s =
     (let delta = ad - ms_r2 s in ms_q1 s < delta \<or> (ms_q1 s = delta \<and> ms_r1 s = 0))"

partial_function (option) magic_loop :: "nat \<Rightarrow> nat \<Rightarrow> magic_state \<Rightarrow> magic_state option" where
  "magic_loop ad anc s =
     (let s' = magic_step ad anc s in
      if magic_continue ad s' then magic_loop ad anc s' else Some s')"

definition magic_ad :: "int \<Rightarrow> nat \<Rightarrow> nat" where
  "magic_ad d width = nat \<bar>d\<bar> AND mask_to_width u128_MAX width"

definition magic_anc :: "int \<Rightarrow> nat \<Rightarrow> nat" where
  "magic_anc d width =
     (let msk = mask_to_width u128_MAX width;
          t = 2 ^ (width - 1) + drop_bit (width - 1) (u128_of_i128 d AND msk)
      in t - 1 - t mod magic_ad d width)"

definition magic_init :: "int \<Rightarrow> nat \<Rightarrow> magic_state" where
  "magic_init d width =
     (let two_w_m1 = 2 ^ (width - 1);
          ad = magic_ad d width; anc = magic_anc d width;
          q1 = two_w_m1 div anc; r1 = two_w_m1 - q1 * anc;
          q2 = two_w_m1 div ad; r2 = two_w_m1 - q2 * ad
      in \<lparr>ms_p = width - 1, ms_q1 = q1, ms_r1 = r1, ms_q2 = q2, ms_r2 = r2, ms_add = False\<rparr>)"

text \<open>\<open>msk.wrapping_sub(m).wrapping_add(1) & msk\<close> in \<open>u128\<close> arithmetic.\<close>

definition u128_neg_masked :: "nat \<Rightarrow> nat \<Rightarrow> nat" where
  "u128_neg_masked msk m = nat ((int msk - int m + 1) mod 2 ^ 128) AND msk"

definition magic_signed :: "int \<Rightarrow> nat \<Rightarrow> signed_magic option" where
  "magic_signed d width =
     (case magic_loop (magic_ad d width) (magic_anc d width) (magic_init d width) of
        None \<Rightarrow> None
      | Some s \<Rightarrow>
          (let msk = mask_to_width u128_MAX width;
               m = (ms_q2 s + 1) AND msk;
               m = (if d < 0 then u128_neg_masked msk m else m)
           in Some \<lparr>sm_multiplier = sign_extend m width, sm_shift = ms_p s - width\<rparr>))"


declare magicu_loop.simps [simp del]

subsection \<open>Why a magic multiplier divides\<close>

text \<open>
  \<open>m * D = 2 ^ p + \<delta>\<close> with \<open>\<delta>\<close> small against the largest dividend \<open>c\<close>
  that is one below a multiple of \<open>D\<close>.
\<close>

lemma magic_margin:
  fixes \<delta> c D P n :: nat
  assumes D: "0 < D" and c: "D dvd c + 1" and close: "\<delta> * c < P" and n: "n < c + D"
  shows "\<delta> * n < (D - n mod D) * P"
proof (cases "n \<le> c")
  case True
  have "1 \<le> D - n mod D" using D by (simp add: Suc_le_eq)
  then have "P \<le> (D - n mod D) * P" by (metis mult_le_mono1 mult_1)
  moreover have "\<delta> * n \<le> \<delta> * c" using True by simp
  ultimately show ?thesis using close by linarith
next
  case False
  define b where "b = n - (c + 1)"
  have nb: "n = (c + 1) + b" and b: "b + 1 < D" using False n by (simp_all add: b_def)
  obtain k where k: "c + 1 = D * k" using c by (auto elim: dvdE)
  have "n mod D = b" using b unfolding nb k by simp
  have "D \<le> c + 1" using c by (rule dvd_imp_le) simp
  then have "\<delta> * (b + 1) \<le> \<delta> * c" using b by (intro mult_le_mono2) linarith
  moreover have "1 * P \<le> (D - b - 1) * P" using b by (intro mult_le_mono1) linarith
  moreover have "(D - b) * P = (D - b - 1) * P + P"
    using b by (metis Suc_diff_Suc Suc_eq_plus1 add_lessD1 diff_Suc_eq_diff_pred diff_commute mult_Suc add.commute)
  moreover have "\<delta> * n = \<delta> * c + \<delta> * (b + 1)" by (simp add: nb algebra_simps)
  ultimately show ?thesis using close unfolding \<open>n mod D = b\<close> by linarith
qed

lemma magic_floor:
  fixes m D P \<delta> n :: nat
  assumes D: "0 < D" and m: "m * D = P + \<delta>" and margin: "\<delta> * n < (D - n mod D) * P"
  shows "m * n div P = n div D"
proof -
  define q b where "q = n div D" and "b = n mod D"
  have n: "n = q * D + b" and b: "b < D" using D by (simp_all add: q_def b_def)
  have mn: "D * (m * n) = P * n + \<delta> * n" using m by (metis distrib_right mult.assoc mult.commute)
  have "D * (P * q) \<le> D * (m * n)" unfolding mn by (simp add: n algebra_simps)
  then have lo: "P * q \<le> m * n" using D by simp
  have "P * n + (D - b) * P = P * (q * D + (b + (D - b)))" by (simp only: n distrib_left distrib_right ac_simps)
  also have "\<dots> = D * (P * Suc q)" using b by (simp add: algebra_simps)
  finally have "D * (m * n) < D * (P * Suc q)" using margin unfolding mn b_def [symmetric] by linarith
  then have "m * n < P * Suc q" by simp
  with lo show ?thesis unfolding q_def [symmetric] by (intro div_nat_eqI) (simp_all add: mult.commute)
qed

lemma magic_ceil:
  fixes m D P \<delta> n :: nat
  assumes D: "0 < D" and m: "m * D = P + \<delta>" and \<delta>: "0 < \<delta>" and n0: "0 < n" and P: "0 < P"
    and margin: "\<delta> * n \<le> (D - n mod D) * P"
  shows "(- int (m * n)) div int P = - int (n div D) - 1"
proof -
  define q b where "q = n div D" and "b = n mod D"
  have n: "n = q * D + b" and b: "b < D" using D by (simp_all add: q_def b_def)
  have mn: "D * (m * n) = P * n + \<delta> * n" using m by (metis distrib_right mult.assoc mult.commute)
  have "D * (P * q) < D * (m * n)" unfolding mn using \<delta> n0 by (simp add: n algebra_simps)
  then have lo: "P * q < m * n" using D by simp
  have "P * n + (D - b) * P = P * (q * D + (b + (D - b)))" by (simp only: n distrib_left distrib_right ac_simps)
  also have "\<dots> = D * (P * Suc q)" using b by (simp add: algebra_simps)
  finally have "D * (m * n) \<le> D * (P * Suc q)" using margin unfolding mn b_def [symmetric] by linarith
  then have hi: "m * n \<le> P * Suc q" using D by simp
  have "int P * int q < int (m * n)" "int (m * n) \<le> int P * (int q + 1)"
    using lo hi by (metis of_nat_less_iff of_nat_mult, metis of_nat_Suc of_nat_le_iff of_nat_mult add.commute)
  then have r: "0 \<le> - int (m * n) - int P * (- int q - 1)" "- int (m * n) - int P * (- int q - 1) < int P"
    by (simp_all add: algebra_simps)
  have "- int (m * n) = int P * (- int q - 1) + (- int (m * n) - int P * (- int q - 1))" by simp
  then have "(- int (m * n)) div int P = - int q - 1"
    using r P by (metis add.commute div_mult_self2 div_pos_pos_trivial add_0 of_nat_0_less_iff less_int_code(1) not_less_iff_gr_or_eq)
  then show ?thesis by (simp add: q_def)
qed

lemma lex_le_iff:
  fixes q1 nc r1 \<delta> :: nat
  assumes "r1 < nc"
  shows "q1 * nc + r1 \<le> nc * \<delta> \<longleftrightarrow> q1 < \<delta> \<or> (q1 = \<delta> \<and> r1 = 0)"
proof (cases "q1 < \<delta>")
  case True
  then have "Suc q1 * nc \<le> \<delta> * nc" by (intro mult_le_mono1) simp
  then show ?thesis using True assms by (simp add: mult.commute)
next
  case False
  then have "\<delta> * nc \<le> q1 * nc" by simp
  moreover have "\<delta> < q1 \<Longrightarrow> \<delta> * nc + nc \<le> q1 * nc"
    by (metis Suc_leI mult_Suc mult_le_mono1 add.commute)
  ultimately show ?thesis using False assms by (auto simp: mult.commute not_less le_less)
qed

subsection \<open>The unsigned loop\<close>

text \<open>
  The loop invariant of \<open>magic_unsigned\<close>: quotients and remainders of \<open>2 ^ p\<close> by
  \<open>nc\<close> and of \<open>2 ^ p - 1\<close> by \<open>d\<close>, and \<open>add\<close> records that the multiplier has
  outgrown the word.
\<close>

definition magicu_inv :: "nat \<Rightarrow> nat \<Rightarrow> nat \<Rightarrow> magic_state \<Rightarrow> bool" where
  "magicu_inv d nc w s \<longleftrightarrow>
     w - 1 \<le> ms_p s \<and>
     2 ^ ms_p s = ms_q1 s * nc + ms_r1 s \<and> ms_r1 s < nc \<and>
     2 ^ ms_p s = ms_q2 s * d + ms_r2 s + 1 \<and> ms_r2 s < d \<and>
     (ms_add s \<longleftrightarrow> 2 ^ w \<le> ms_q2 s + 1)"

text \<open>The exit criterion, in terms of \<open>p\<close> alone.\<close>

definition magicu_crit :: "nat \<Rightarrow> nat \<Rightarrow> nat \<Rightarrow> bool" where
  "magicu_crit d nc p \<longleftrightarrow> nc * (d - 1 - (2 ^ p - 1) mod d) < 2 ^ p"

lemma magicu_inv_r2: "magicu_inv d nc w s \<Longrightarrow> (2 ^ ms_p s - 1) mod d = ms_r2 s"
proof -
  assume "magicu_inv d nc w s"
  then have "2 ^ ms_p s - 1 = ms_q2 s * d + ms_r2 s" "ms_r2 s < d"
    unfolding magicu_inv_def by linarith+
  then show ?thesis by simp
qed

lemma magicu_inv_init:
  assumes w: "0 < w" and nc: "0 < nc" "nc = magicu_nc d w" and d: "2 \<le> d"
  shows "magicu_inv d nc w (magicu_init d w)"
proof -
  have t: "(2::nat) ^ w = 2 * 2 ^ (w - 1)" using two_pow_pred [OF w] .
  have pos: "(1::nat) \<le> 2 ^ (w - 1)" by simp
  obtain A :: nat where A: "2 ^ (w - 1) = A + 1"
    using pos by (metis le_add_diff_inverse2)
  have "\<not> 2 * (A + 1) \<le> q + 1" if "q \<le> A" for q using that by simp
  then have "\<not> 2 ^ w \<le> A div d + 1" unfolding t A using div_le_dividend by blast
  then show ?thesis
    using nc(1) d unfolding magicu_inv_def magicu_init_def Let_def A nc(2) [symmetric]
    using A by (simp add: minus_div_mult_eq_mod)
qed

lemma magicu_inv_step:
  assumes w: "0 < w" and inv: "magicu_inv d nc w s"
  shows "magicu_inv d nc w (magicu_step d nc (2 ^ (w - 1)) s)"
proof -
  have t: "(2::nat) ^ w = 2 * 2 ^ (w - 1)" using two_pow_pred [OF w] .
  have pos: "(1::nat) \<le> 2 ^ (w - 1)" by simp
  note I = inv [unfolded magicu_inv_def]
  have grow: "2 ^ (ms_p s + 1) = 2 * (2 ^ ms_p s :: nat)" by simp
  have c1: "ms_r1 s \<ge> nc - ms_r1 s \<longleftrightarrow> nc \<le> 2 * ms_r1 s" using I by linarith
  have c2: "ms_r2 s + 1 \<ge> d - ms_r2 s \<longleftrightarrow> d \<le> 2 * ms_r2 s + 1" using I by linarith
  define q1 r1 where "q1 = (if nc \<le> 2 * ms_r1 s then 2 * ms_q1 s + 1 else 2 * ms_q1 s)"
    and "r1 = (if nc \<le> 2 * ms_r1 s then 2 * ms_r1 s - nc else 2 * ms_r1 s)"
  define q2 r2 where "q2 = (if d \<le> 2 * ms_r2 s + 1 then 2 * ms_q2 s + 1 else 2 * ms_q2 s)"
    and "r2 = (if d \<le> 2 * ms_r2 s + 1 then 2 * ms_r2 s + 1 - d else 2 * ms_r2 s + 1)"
  define add where "add = (ms_add s \<or>
    (if d \<le> 2 * ms_r2 s + 1 then ms_q2 s \<ge> 2 ^ (w - 1) - 1 else ms_q2 s \<ge> 2 ^ (w - 1)))"
  have step: "magicu_step d nc (2 ^ (w - 1)) s =
      \<lparr>ms_p = ms_p s + 1, ms_q1 = q1, ms_r1 = r1, ms_q2 = q2, ms_r2 = r2, ms_add = add\<rparr>"
    unfolding magicu_step_def c1 c2 q1_def r1_def q2_def r2_def add_def by (simp add: Let_def)
  have "2 * (2 ^ ms_p s :: nat) = q1 * nc + r1" "r1 < nc"
    using I by (auto simp: q1_def r1_def)
  moreover have "2 * (2 ^ ms_p s :: nat) = q2 * d + r2 + 1" "r2 < d"
    using I by (auto simp: q2_def r2_def)
  moreover have "add \<longleftrightarrow> 2 ^ w \<le> q2 + 1"
    using I pos unfolding add_def q2_def t by auto
  ultimately show ?thesis using I unfolding step magicu_inv_def grow by simp
qed

lemma magicu_continue_crit:
  assumes "magicu_inv d nc w s"
  shows "magicu_continue d w s \<longleftrightarrow> ms_p s < 2 * w \<and> \<not> magicu_crit d nc (ms_p s)"
proof -
  note I = assms [unfolded magicu_inv_def]
  have "\<not> magicu_crit d nc (ms_p s)
      \<longleftrightarrow> ms_q1 s * nc + ms_r1 s \<le> nc * (d - 1 - ms_r2 s)"
    using I unfolding magicu_crit_def magicu_inv_r2 [OF assms] not_less by argo
  also have "\<dots> \<longleftrightarrow> ms_q1 s < d - 1 - ms_r2 s \<or> (ms_q1 s = d - 1 - ms_r2 s \<and> ms_r1 s = 0)"
    using I by (intro lex_le_iff) simp
  finally show ?thesis by (simp add: magicu_continue_def Let_def)
qed

lemma magicu_loop_spec:
  assumes "0 < w" and "magicu_inv d nc w s" and "ms_p s < 2 * w"
    and "t = 2 ^ (w - 1)" and "magicu_crit d nc (2 * w)"
  shows "magicu_inv d nc w (magicu_loop d nc t w s)
    \<and> ms_p s < ms_p (magicu_loop d nc t w s)
    \<and> magicu_crit d nc (ms_p (magicu_loop d nc t w s))
    \<and> (\<forall>p'. ms_p s < p' \<and> p' < ms_p (magicu_loop d nc t w s) \<longrightarrow> \<not> magicu_crit d nc p')"
  using assms
proof (induction d nc t w s rule: magicu_loop.induct)
  case (1 d nc t w s)
  let ?s' = "magicu_step d nc t s"
  have inv': "magicu_inv d nc w ?s'" using magicu_inv_step 1 by blast
  have p': "ms_p ?s' = ms_p s + 1" by (simp add: magicu_step_def Let_def split: prod.splits)
  show ?case
  proof (cases "magicu_continue d w ?s'")
    case True
    then have c: "ms_p ?s' < 2 * w" "\<not> magicu_crit d nc (ms_p ?s')"
      using magicu_continue_crit [OF inv'] by simp_all
    have eq: "magicu_loop d nc t w s = magicu_loop d nc t w ?s'"
      using True by (subst magicu_loop.simps) (simp add: Let_def)
    have IH: "magicu_inv d nc w (magicu_loop d nc t w ?s')
      \<and> ms_p ?s' < ms_p (magicu_loop d nc t w ?s')
      \<and> magicu_crit d nc (ms_p (magicu_loop d nc t w ?s'))
      \<and> (\<forall>p'. ms_p ?s' < p' \<and> p' < ms_p (magicu_loop d nc t w ?s') \<longrightarrow> \<not> magicu_crit d nc p')"
      using "1.IH" [OF refl True "1.prems"(1) inv' c(1) "1.prems"(4,5)] .
    have "\<not> magicu_crit d nc q"
      if "ms_p s < q" "q < ms_p (magicu_loop d nc t w ?s')" for q
    proof (cases "q = ms_p ?s'")
      case False
      then have "ms_p ?s' < q" using that(1) p' by linarith
      then show ?thesis using IH that(2) by blast
    qed (use c(2) in simp)
    moreover have "ms_p s < ms_p (magicu_loop d nc t w ?s')" using IH p' by linarith
    ultimately show ?thesis using IH unfolding eq by blast
  next
    case False
    have "magicu_crit d nc (ms_p ?s')"
    proof (cases "ms_p ?s' < 2 * w")
      case True
      then show ?thesis using False magicu_continue_crit [OF inv'] by blast
    next
      case ge: False
      then have "ms_p ?s' = 2 * w" using "1.prems"(3) p' by linarith
      then show ?thesis using "1.prems"(5) by simp
    qed
    moreover have "magicu_loop d nc t w s = ?s'"
      using False by (subst magicu_loop.simps) (simp add: Let_def)
    ultimately show ?thesis using inv' p' by auto
  qed
qed

text \<open>\<open>nc\<close> is the largest word that is one below a multiple of \<open>d\<close>.\<close>

lemma magicu_nc_props:
  assumes w: "0 < w" "w < 128" and d: "2 \<le> d" "d < 2 ^ w"
  shows "d dvd magicu_nc d w + 1" and "magicu_nc d w < 2 ^ w"
    and "2 ^ w \<le> magicu_nc d w + d" and "0 < magicu_nc d w"
proof -
  have "mask_to_width u128_MAX w = 2 ^ w - 1" using w(2) by (rule mask_to_width_ones)
  moreover have "(2 ^ w - 1 - d + 1) mod d = 2 ^ w mod d"
  proof -
    have "2 ^ w - 1 - d + 1 = 2 ^ w - d" using d by linarith
    then show ?thesis using d by (simp add: le_mod_geq less_imp_le)
  qed
  ultimately have nc: "magicu_nc d w = 2 ^ w - 1 - 2 ^ w mod d"
    by (simp only: magicu_nc_def Let_def)
  have m: "2 ^ w mod d < d" using d by simp
  then have nc1: "magicu_nc d w + 1 = 2 ^ w - 2 ^ w mod d" using nc d by linarith
  show "d dvd magicu_nc d w + 1" unfolding nc1 by (rule dvd_minus_mod)
  then have "d \<le> magicu_nc d w + 1" by (rule dvd_imp_le) simp
  then show "0 < magicu_nc d w" using d by linarith
  show "magicu_nc d w < 2 ^ w" using nc1 by linarith
  show "2 ^ w \<le> magicu_nc d w + d" using nc1 m by linarith
qed

text \<open>
  What \<open>magic_unsigned\<close> computes: the least \<open>p \<ge> w\<close> that meets the criterion
  and its multiplier \<open>m\<close>, which needs at most one bit more than the word.
\<close>

lemma magic_unsigned_spec:
  assumes w: "0 < w" "w < 65" and d: "2 \<le> d" "d < 2 ^ w"
  obtains m p \<delta> where "w \<le> p" and "m * d = 2 ^ p + \<delta>" and "magicu_nc d w * \<delta> < 2 ^ p"
    and "m < 2 * 2 ^ w" and "2 ^ w \<le> m \<Longrightarrow> w < p"
    and "magic_unsigned d w = \<lparr>um_multiplier = m mod 2 ^ w, um_shift = p - w, um_add = (2 ^ w \<le> m)\<rparr>"
proof -
  let ?nc = "magicu_nc d w"
  have w128: "w < 128" using w(2) by simp
  note nc = magicu_nc_props [OF w(1) w128 d]
  define s0 where "s0 = magicu_init d w"
  define s where "s = magicu_loop d ?nc (2 ^ (w - 1)) w s0"
  have p0: "ms_p s0 = w - 1" by (simp add: s0_def magicu_init_def Let_def)
  have inv0: "magicu_inv d ?nc w s0"
    unfolding s0_def by (rule magicu_inv_init) (use w(1) nc(4) d(1) in simp_all)
  have c2w: "magicu_crit d ?nc (2 * w)"
  proof -
    have "?nc * (d - 1 - (2 ^ (2 * w) - 1) mod d) \<le> ?nc * 2 ^ w"
      using d by (intro mult_le_mono2) linarith
    also have "\<dots> < 2 ^ w * 2 ^ w" using nc(2) by simp
    finally show ?thesis by (simp add: magicu_crit_def mult_2 power_add)
  qed
  have "magicu_inv d ?nc w s \<and> ms_p s0 < ms_p s \<and> magicu_crit d ?nc (ms_p s)
      \<and> (\<forall>p'. ms_p s0 < p' \<and> p' < ms_p s \<longrightarrow> \<not> magicu_crit d ?nc p')"
    unfolding s_def by (rule magicu_loop_spec) (use w(1) inv0 p0 c2w in simp_all)
  then have inv: "magicu_inv d ?nc w s" and p: "w \<le> ms_p s" and crit: "magicu_crit d ?nc (ms_p s)"
    and least: "\<And>p'. w \<le> p' \<Longrightarrow> p' < ms_p s \<Longrightarrow> \<not> magicu_crit d ?nc p'"
    using w(1) by (simp_all add: p0) linarith
  define m \<delta> where "m = ms_q2 s + 1" and "\<delta> = d - 1 - ms_r2 s"
  note I = inv [unfolded magicu_inv_def]
  have md: "m * d = 2 ^ ms_p s + \<delta>"
    unfolding m_def \<delta>_def distrib_right mult_1 using I by linarith
  have ncd: "?nc * \<delta> < 2 ^ ms_p s"
    using crit magicu_inv_r2 [OF inv] by (simp add: magicu_crit_def \<delta>_def)
  have \<delta>: "\<delta> \<le> d - 1" by (simp add: \<delta>_def)
  have first: "m * d < 2 * 2 ^ w" if "ms_p s = w" using md \<delta> d that by simp
  have m_bound: "m < 2 * 2 ^ w"
  proof (cases "ms_p s = w")
    case True
    have "m * 1 \<le> m * d" using d by (intro mult_le_mono2) simp
    then show ?thesis using first [OF True] by linarith
  next
    case False
    then obtain k where k: "ms_p s = Suc k" "w \<le> k" using p w(1) by (cases "ms_p s") auto
    then have "2 ^ k \<le> ?nc * (d - 1 - (2 ^ k - 1) mod d)"
      using least [of k] by (simp add: magicu_crit_def not_less)
    also have "\<dots> \<le> 2 ^ w * (d - 1)" using nc(2) by (intro mult_le_mono) simp_all
    finally have "m * d \<le> 2 * (2 ^ w * (d - 1)) + (d - 1)" using md \<delta> k by simp
    also have "\<dots> < 2 * 2 ^ w * d"
    proof -
      have "2 ^ w * (d - 1) + 2 ^ w = 2 ^ w * d" using d by (metis Suc_pred' add.commute gr0I mult_Suc_right not_numeral_le_zero)
      then show ?thesis using d by linarith
    qed
    finally show ?thesis by simp
  qed
  have add_p: "w < ms_p s" if "2 ^ w \<le> m"
  proof (rule ccontr)
    assume "\<not> w < ms_p s"
    then have "m * d < 2 * 2 ^ w" using p first by simp
    moreover have "2 ^ w * 2 \<le> m * d" using that d by (intro mult_le_mono)
    ultimately show False by simp
  qed
  have "magic_unsigned d w = \<lparr>um_multiplier = m mod 2 ^ w, um_shift = ms_p s - w, um_add = (2 ^ w \<le> m)\<rparr>"
    using I w128 by (simp add: magic_unsigned_def Let_def s_def s0_def m_def mask_to_width_mod)
  then show thesis using that p md ncd m_bound add_p by blast
qed

theorem magic_unsigned_divides:
  fixes n :: nat
  assumes w: "0 < w" "w < 65" and d: "2 \<le> d" "d < 2 ^ w" and n: "n < 2 ^ w"
    and mg: "mg = magic_unsigned d w"
  shows "(um_multiplier mg + (if um_add mg then 2 ^ w else 0)) * n div 2 ^ (w + um_shift mg) = n div d"
    and "um_multiplier mg < 2 ^ w" and "um_add mg \<Longrightarrow> 0 < um_shift mg"
    and "um_shift mg < w + (if um_add mg then 1 else 0)"
proof -
  obtain m p \<delta> where p: "w \<le> p" and m: "m * d = 2 ^ p + \<delta>" and ncd: "magicu_nc d w * \<delta> < 2 ^ p"
    and mb: "m < 2 * 2 ^ w" and add: "2 ^ w \<le> m \<Longrightarrow> w < p"
    and eq: "mg = \<lparr>um_multiplier = m mod 2 ^ w, um_shift = p - w, um_add = (2 ^ w \<le> m)\<rparr>"
    using magic_unsigned_spec [OF w d] unfolding mg by blast
  have w128: "w < 128" using w(2) by simp
  note nc = magicu_nc_props [OF w(1) w128 d]
  have "\<delta> * n < (d - n mod d) * 2 ^ p"
    by (rule magic_margin [OF _ nc(1)]) (use d ncd nc(3) n in \<open>simp_all add: mult.commute\<close>)
  then have "m * n div 2 ^ p = n div d" using d by (intro magic_floor [OF _ m]) simp_all
  moreover have "m mod 2 ^ w + (if 2 ^ w \<le> m then 2 ^ w else 0) = m"
    using mb by (simp add: le_mod_geq)
  ultimately show "(um_multiplier mg + (if um_add mg then 2 ^ w else 0)) * n div 2 ^ (w + um_shift mg) = n div d"
    using p by (simp add: eq)
  show "um_multiplier mg < 2 ^ w" "um_add mg \<Longrightarrow> 0 < um_shift mg"
    using add by (simp_all add: eq)
  define b where "b = w + (if 2 ^ w \<le> m then 1 else 0)"
  have "m < 2 ^ b" using mb by (simp add: b_def)
  then have "m * d < 2 ^ b * 2 ^ w" using d by (intro mult_strict_mono) simp_all
  then have "(2::nat) ^ p < 2 ^ (b + w)" unfolding m power_add by linarith
  then have "p < b + w" by (rule power_less_imp_less_exp [rotated]) simp
  then show "um_shift mg < w + (if um_add mg then 1 else 0)" using p by (simp add: eq b_def)
qed

subsection \<open>The signed loop\<close>

definition magic_inv :: "nat \<Rightarrow> nat \<Rightarrow> nat \<Rightarrow> magic_state \<Rightarrow> bool" where
  "magic_inv ad anc w s \<longleftrightarrow>
     w - 1 \<le> ms_p s \<and>
     2 ^ ms_p s = ms_q1 s * anc + ms_r1 s \<and> ms_r1 s < anc \<and>
     2 ^ ms_p s = ms_q2 s * ad + ms_r2 s \<and> ms_r2 s < ad"

definition magic_crit :: "nat \<Rightarrow> nat \<Rightarrow> nat \<Rightarrow> bool" where
  "magic_crit ad anc p \<longleftrightarrow> anc * (ad - 2 ^ p mod ad) < 2 ^ p"

lemma magic_inv_r2: "magic_inv ad anc w s \<Longrightarrow> 2 ^ ms_p s mod ad = ms_r2 s"
  by (metis add.commute magic_inv_def mod_less mod_mult_self2 mult.commute)

lemma magic_inv_step:
  assumes inv: "magic_inv ad anc w s"
  shows "magic_inv ad anc w (magic_step ad anc s)"
proof -
  note I = inv [unfolded magic_inv_def]
  have grow: "2 ^ (ms_p s + 1) = 2 * (2 ^ ms_p s :: nat)" by simp
  define q1 r1 where "q1 = (if anc \<le> 2 * ms_r1 s then 2 * ms_q1 s + 1 else 2 * ms_q1 s)"
    and "r1 = (if anc \<le> 2 * ms_r1 s then 2 * ms_r1 s - anc else 2 * ms_r1 s)"
  define q2 r2 where "q2 = (if ad \<le> 2 * ms_r2 s then 2 * ms_q2 s + 1 else 2 * ms_q2 s)"
    and "r2 = (if ad \<le> 2 * ms_r2 s then 2 * ms_r2 s - ad else 2 * ms_r2 s)"
  have step: "magic_step ad anc s =
      \<lparr>ms_p = ms_p s + 1, ms_q1 = q1, ms_r1 = r1, ms_q2 = q2, ms_r2 = r2, ms_add = False\<rparr>"
    unfolding magic_step_def q1_def r1_def q2_def r2_def by (simp add: Let_def)
  have "2 * (2 ^ ms_p s :: nat) = q1 * anc + r1" "r1 < anc"
    using I by (auto simp: q1_def r1_def)
  moreover have "2 * (2 ^ ms_p s :: nat) = q2 * ad + r2" "r2 < ad"
    using I by (auto simp: q2_def r2_def)
  ultimately show ?thesis using I unfolding step magic_inv_def grow by simp
qed

lemma magic_continue_crit:
  assumes "magic_inv ad anc w s"
  shows "magic_continue ad s \<longleftrightarrow> \<not> magic_crit ad anc (ms_p s)"
proof -
  note I = assms [unfolded magic_inv_def]
  have "\<not> magic_crit ad anc (ms_p s) \<longleftrightarrow> ms_q1 s * anc + ms_r1 s \<le> anc * (ad - ms_r2 s)"
    using I unfolding magic_crit_def magic_inv_r2 [OF assms] not_less by argo
  also have "\<dots> \<longleftrightarrow> ms_q1 s < ad - ms_r2 s \<or> (ms_q1 s = ad - ms_r2 s \<and> ms_r1 s = 0)"
    using I by (intro lex_le_iff) simp
  finally show ?thesis by (simp add: magic_continue_def Let_def)
qed

text \<open>The loop ends: the criterion holds at some bound \<open>N\<close>, and \<open>p\<close> grows by one.\<close>

lemma magic_loop_total:
  assumes "magic_inv ad anc w s" and "ms_p s < N" and "magic_crit ad anc N"
  shows "\<exists>s'. magic_loop ad anc s = Some s' \<and> magic_inv ad anc w s' \<and> ms_p s < ms_p s'
    \<and> magic_crit ad anc (ms_p s')
    \<and> (\<forall>p'. ms_p s < p' \<and> p' < ms_p s' \<longrightarrow> \<not> magic_crit ad anc p')"
  using assms
proof (induction "N - ms_p s" arbitrary: s)
  case 0
  then show ?case by simp
next
  case (Suc k)
  let ?s = "magic_step ad anc s"
  have inv: "magic_inv ad anc w ?s" using Suc.prems(1) by (rule magic_inv_step)
  have p: "ms_p ?s = ms_p s + 1" by (simp add: magic_step_def Let_def)
  show ?case
  proof (cases "magic_crit ad anc (ms_p ?s)")
    case True
    then have "magic_loop ad anc s = Some ?s"
      using magic_continue_crit [OF inv] by (subst magic_loop.simps) (simp add: Let_def)
    then show ?thesis using True inv p by auto
  next
    case False
    then have eq: "magic_loop ad anc s = magic_loop ad anc ?s"
      using magic_continue_crit [OF inv] by (subst magic_loop.simps) (simp add: Let_def)
    have "ms_p ?s \<noteq> N" using False Suc.prems(3) by auto
    then have lt: "ms_p ?s < N" using Suc.prems(2) p by linarith
    have k: "k = N - ms_p ?s" using Suc.hyps(2) p by linarith
    obtain s' where s': "magic_loop ad anc ?s = Some s'" "magic_inv ad anc w s'" "ms_p ?s < ms_p s'"
      "magic_crit ad anc (ms_p s')" "\<forall>p'. ms_p ?s < p' \<and> p' < ms_p s' \<longrightarrow> \<not> magic_crit ad anc p'"
      using Suc.hyps(1) [OF k inv lt Suc.prems(3)] by blast
    have "\<not> magic_crit ad anc q" if "ms_p s < q" "q < ms_p s'" for q
    proof (cases "q = ms_p ?s")
      case neq: False
      then have "ms_p ?s < q" using that(1) p by linarith
      then show ?thesis using s'(5) that(2) by blast
    qed (use False in simp)
    moreover have "ms_p s < ms_p s'" using s'(3) p by linarith
    ultimately show ?thesis using s' eq by auto
  qed
qed

text \<open>\<open>is_power_of_two\<close> and \<open>trailing_zeros\<close> of Rust's \<open>u128\<close>.\<close>

fun trailing_zeros :: "nat \<Rightarrow> nat" where
  "trailing_zeros n = (if n = 0 then 128 else if odd n then 0 else Suc (trailing_zeros (n div 2)))"

declare trailing_zeros.simps [simp del]

definition is_power_of_two :: "nat \<Rightarrow> bool" where
  "is_power_of_two n \<longleftrightarrow> n \<noteq> 0 \<and> n = 2 ^ trailing_zeros n"

lemma trailing_zeros_power [simp]: "trailing_zeros (2 ^ k) = k"
proof (induction k)
  case (Suc k)
  then show ?case by (subst trailing_zeros.simps) simp
qed (simp add: trailing_zeros.simps)

lemma is_power_of_two_iff: "is_power_of_two n \<longleftrightarrow> (\<exists>k. n = 2 ^ k)"
  by (auto simp: is_power_of_two_def)

lemma dvd_two_power: "(n::nat) dvd 2 ^ k \<Longrightarrow> is_power_of_two n"
proof (induction k arbitrary: n)
  case 0
  then show ?case by (auto simp: is_power_of_two_iff intro: exI [of _ 0])
next
  case (Suc k)
  show ?case
  proof (cases "even n")
    case True
    then obtain n' where n': "n = 2 * n'" by (rule evenE)
    then have "n' dvd 2 ^ k" using Suc.prems by simp
    then obtain j where "n' = 2 ^ j" using Suc.IH by (auto simp: is_power_of_two_iff)
    then have "n = 2 ^ Suc j" using n' by simp
    then show ?thesis by (auto simp: is_power_of_two_iff intro: exI [of _ "Suc j"])
  next
    case False
    then have "coprime n 2" by simp
    then have "n dvd 2 ^ k" using Suc.prems by (simp add: coprime_dvd_mult_right_iff)
    then show ?thesis by (rule Suc.IH)
  qed
qed

text \<open>The divisors \<open>magic_signed\<close> is called with: not 0, 1, -1, MIN or plus or minus a power of two.\<close>

definition magic_divisor :: "nat \<Rightarrow> int \<Rightarrow> bool" where
  "magic_divisor w d \<longleftrightarrow> 2 \<le> \<bar>d\<bar> \<and> \<bar>d\<bar> < 2 ^ (w - 1) \<and> \<not> is_power_of_two (nat \<bar>d\<bar>)"

lemma and_ones: "w < 128 \<Longrightarrow> n AND mask_to_width u128_MAX w = n mod 2 ^ w"
  using take_bit_eq_mask [of w n]
  by (simp only: mask_to_width_ones) (simp add: take_bit_eq_mod mask_eq_exp_minus_1)

lemma magic_divisor_width: "magic_divisor w d \<Longrightarrow> 2 < w"
proof (rule ccontr)
  assume d: "magic_divisor w d" and "\<not> 2 < w"
  then have "(2::int) ^ (w - 1) \<le> 2 ^ 1" by (intro power_increasing) simp_all
  then show False using d by (simp add: magic_divisor_def)
qed

lemma magic_ad_eq:
  assumes "w < 128" and "magic_divisor w d"
  shows "magic_ad d w = nat \<bar>d\<bar>"
proof -
  have "(2::int) ^ (w - 1) \<le> 2 ^ w" by (rule power_increasing) simp_all
  then have "\<bar>d\<bar> < 2 ^ w" using assms(2) unfolding magic_divisor_def by linarith
  then have "nat \<bar>d\<bar> < 2 ^ w" by (simp add: nat_less_iff)
  then show ?thesis using assms(1) by (simp add: magic_ad_def and_ones)
qed

lemma magic_sign_bit:
  assumes w: "w < 128" and d: "magic_divisor w d"
  shows "drop_bit (w - 1) (u128_of_i128 d AND mask_to_width u128_MAX w) = (if d < 0 then 1 else 0)"
proof -
  have w0: "0 < w" using magic_divisor_width [OF d] by simp
  note t = two_pow_pred [OF w0, where 'a = int]
  have "(2::int) ^ w dvd 2 ^ 128" using w by (intro le_imp_power_dvd) simp
  then have mod: "d mod 2 ^ 128 mod 2 ^ w = d mod 2 ^ w" by (rule mod_mod_cancel)
  have "int (u128_of_i128 d mod 2 ^ w div 2 ^ (w - 1)) = d mod 2 ^ w div 2 ^ (w - 1)"
    using mod by (simp add: u128_of_i128_def of_nat_div of_nat_mod)
  also have "\<dots> = (if d < 0 then 1 else 0)"
  proof (cases "d < 0")
    case True
    have "d mod 2 ^ w = (d + 2 ^ w) mod 2 ^ w" by simp
    also have "\<dots> = d + 2 ^ w"
      using True d t by (intro mod_pos_pos_trivial) (simp_all add: magic_divisor_def)
    finally have "d mod 2 ^ w = 2 ^ (w - 1) + (d + 2 ^ (w - 1))" using t by simp
    moreover have "0 \<le> d + 2 ^ (w - 1)" "d + 2 ^ (w - 1) < 2 ^ (w - 1)"
      using True d by (simp_all add: magic_divisor_def)
    moreover have "(2 ^ (w - 1) + e) div 2 ^ (w - 1) = 1"
      if "0 \<le> e" "e < 2 ^ (w - 1)" for e :: int using that by (simp add: div_add_self1)
    ultimately show ?thesis using True by (simp only: if_True)
  next
    case False
    then have "d < 2 ^ (w - 1)" "0 \<le> d" using d by (simp_all add: magic_divisor_def)
    moreover from this have "d mod 2 ^ w = d" using t by (intro mod_pos_pos_trivial) simp_all
    ultimately show ?thesis using False by (simp add: div_pos_pos_trivial)
  qed
  finally show ?thesis
    using w by (simp add: and_ones drop_bit_eq_div split: if_splits)
qed

lemma magic_anc_props:
  assumes w: "w < 128" and d: "magic_divisor w d" and D: "D = nat \<bar>d\<bar>"
    and t: "t = 2 ^ (w - 1) + (if d < 0 then 1 else 0)"
  shows "magic_anc d w = t - 1 - t mod D" and "D dvd magic_anc d w + 1"
    and "magic_anc d w + 1 = t - t mod D" and "0 < magic_anc d w" and "D \<le> magic_anc d w + 1"
proof -
  have D2: "2 \<le> D" "D < 2 ^ (w - 1)"
    using d D unfolding magic_divisor_def by (simp_all add: nat_less_iff le_nat_iff)
  then have Dt: "D \<le> t" by (simp add: t)
  show eq: "magic_anc d w = t - 1 - t mod D"
    using magic_sign_bit [OF w d] by (simp add: magic_anc_def Let_def magic_ad_eq [OF w d] D t)
  have "t mod D < D" using D2 by simp
  then show eq1: "magic_anc d w + 1 = t - t mod D" using eq Dt D2 by linarith
  show dv: "D dvd magic_anc d w + 1" unfolding eq1 by (rule dvd_minus_mod)
  then show "D \<le> magic_anc d w + 1" by (rule dvd_imp_le) simp
  then show "0 < magic_anc d w" using D2 by linarith
qed

lemma magic_inv_init:
  assumes w: "w < 128" and d: "magic_divisor w d"
  shows "magic_inv (nat \<bar>d\<bar>) (magic_anc d w) w (magic_init d w)"
proof -
  have "0 < magic_anc d w" by (rule magic_anc_props [OF w d refl refl])
  moreover have "0 < nat \<bar>d\<bar>" using d unfolding magic_divisor_def by linarith
  ultimately show ?thesis
    by (simp add: magic_inv_def magic_init_def Let_def magic_ad_eq [OF w d] minus_div_mult_eq_mod
      div_mult_mod_eq)
qed

text \<open>
  The one dividend that the margin lemma does not cover is \<open>2 ^ (w - 1)\<close> itself
  when it is one below a multiple of \<open>D\<close>; there the search stops at once.
\<close>

lemma magic_edge:
  fixes t D :: nat
  assumes "2 ^ w = 2 * t" and "t mod D = D - 1" and "3 \<le> D" and "D \<le> t"
  shows "D - 2 ^ w mod D = 2" and "(t - D) * (D - 2 ^ w mod D) < 2 ^ w"
proof -
  obtain q where t: "t = q * D + (D - 1)" using assms(2) div_mult_mod_eq by metis
  have "2 * t = (2 * q + 1) * D + (D - 2)" using t assms(3) by (simp add: algebra_simps)
  then have "2 ^ w mod D = (D - 2) mod D" using assms(1) by (metis mod_mult_self3)
  then have m: "2 ^ w mod D = D - 2" using assms(3) by simp
  then show "D - 2 ^ w mod D = 2" using assms(3) by simp
  then show "(t - D) * (D - 2 ^ w mod D) < 2 ^ w" using assms by simp
qed

lemma magic_signed_search:
  assumes w: "w < 65" and d: "magic_divisor w d" and D: "D = nat \<bar>d\<bar>"
  obtains s where "magic_loop (magic_ad d w) (magic_anc d w) (magic_init d w) = Some s"
    and "magic_inv D (magic_anc d w) w s" and "w \<le> ms_p s"
    and "magic_crit D (magic_anc d w) (ms_p s)"
    and "\<forall>p. w \<le> p \<and> p < ms_p s \<longrightarrow> \<not> magic_crit D (magic_anc d w) p"
    and "ms_p s < 2 * w"
proof -
  have w128: "w < 128" using w by simp
  have w3: "2 < w" using d by (rule magic_divisor_width)
  define t :: nat where "t = 2 ^ (w - 1) + (if d < 0 then 1 else 0)"
  have D2: "2 \<le> D" "D < 2 ^ (w - 1)"
    using d D unfolding magic_divisor_def by (simp_all add: nat_less_iff le_nat_iff)
  have anc: "magic_anc d w \<le> 2 ^ (w - 1)"
    using magic_anc_props(3) [OF w128 d D t_def] by (simp add: t_def split: if_splits)
  have "magic_crit D (magic_anc d w) (2 * w - 2)"
  proof -
    have "magic_anc d w * (D - 2 ^ (2 * w - 2) mod D) \<le> 2 ^ (w - 1) * D"
      using anc by (intro mult_le_mono) simp_all
    also have "\<dots> < 2 ^ (w - 1) * 2 ^ (w - 1)" using D2 by simp
    also have "\<dots> = 2 ^ (2 * w - 2)" using w3 by (simp add: numeral_2_eq_2 flip: power_add)
    finally show ?thesis by (simp add: magic_crit_def)
  qed
  then have crit: "magic_crit D (magic_anc d w) (2 * w - 2)" .
  have p0: "ms_p (magic_init d w) = w - 1" by (simp add: magic_init_def Let_def)
  have lt: "ms_p (magic_init d w) < 2 * w - 2" using p0 w3 by simp
  obtain s where s: "magic_loop D (magic_anc d w) (magic_init d w) = Some s"
      "magic_inv D (magic_anc d w) w s" "w - 1 < ms_p s" "magic_crit D (magic_anc d w) (ms_p s)"
      "\<forall>p'. w - 1 < p' \<and> p' < ms_p s \<longrightarrow> \<not> magic_crit D (magic_anc d w) p'"
    using magic_loop_total [OF magic_inv_init [OF w128 d] lt crit [unfolded D]] unfolding p0 D by blast
  have "\<forall>p. w \<le> p \<and> p < ms_p s \<longrightarrow> \<not> magic_crit D (magic_anc d w) p"
    using s(5) w3 by auto
  moreover have "ms_p s < 2 * w"
  proof (rule ccontr)
    assume "\<not> ms_p s < 2 * w"
    then have "w - 1 < 2 * w - 2 \<and> 2 * w - 2 < ms_p s" using w3 by linarith
    then show False using s(5) crit by blast
  qed
  ultimately show thesis
    using that [OF _ s(2) _ s(4)] s(1,3) magic_ad_eq [OF w128 d] by (simp add: D)
qed

text \<open>
  What \<open>magic_signed\<close> computes: it returns, its magnitude \<open>m\<close> fits the word, and
  the margin covers every magnitude up to \<open>2 ^ (w - 1)\<close>, strictly so for the
  dividends whose quotient is rounded down.
\<close>

lemma magic_signed_bounds:
  assumes w: "w < 65" and d: "magic_divisor w d" and D: "D = nat \<bar>d\<bar>"
    and s: "magic_inv D (magic_anc d w) w s" "w \<le> ms_p s"
    and least: "\<forall>p. w \<le> p \<and> p < ms_p s \<longrightarrow> \<not> magic_crit D (magic_anc d w) p"
  shows "ms_q2 s + 1 < 2 ^ w" and "(ms_q2 s + 1) * D = 2 ^ ms_p s + (D - ms_r2 s)"
    and "0 < ms_r2 s"
proof -
  have D2: "2 \<le> D" "D < 2 ^ (w - 1)" and npow: "\<not> is_power_of_two D"
    using d D unfolding magic_divisor_def by (simp_all add: nat_less_iff le_nat_iff)
  have w128: "w < 128" using w by simp
  have t: "(2::nat) ^ w = 2 * 2 ^ (w - 1)" using magic_divisor_width [OF d] by (intro two_pow_pred) simp
  have modpos: "0 < 2 ^ k mod D" for k
    using npow dvd_two_power [of D k] by (auto simp: mod_greater_zero_iff_not_dvd)
  note I = s(1) [unfolded magic_inv_def]
  show r2: "0 < ms_r2 s" using modpos [of "ms_p s"] magic_inv_r2 [OF s(1)] by simp
  show md: "(ms_q2 s + 1) * D = 2 ^ ms_p s + (D - ms_r2 s)"
    unfolding distrib_right mult_1 using I by linarith
  have "(ms_q2 s + 1) * D < 2 ^ w * D"
  proof (cases "ms_p s = w")
    case True
    have "2 ^ w * 2 \<le> 2 ^ w * D" using D2 by (intro mult_le_mono2)
    moreover have "D < 2 ^ w" using D2 t by simp
    ultimately show ?thesis using md r2 unfolding True by linarith
  next
    case False
    then obtain k where k: "ms_p s = Suc k" "w \<le> k" using s(2) D2 by (cases "ms_p s") auto
    have "magic_anc d w \<le> 2 ^ (w - 1)"
      using magic_anc_props(3) [OF w128 d D refl] by (simp split: if_splits)
    moreover have "2 ^ k \<le> magic_anc d w * (D - 2 ^ k mod D)"
      using least k by (simp add: magic_crit_def not_less)
    moreover have "D - 2 ^ k mod D \<le> D - 1" using modpos [of k] by simp
    ultimately have "2 ^ k \<le> 2 ^ (w - 1) * (D - 1)" by (meson le_trans mult_le_mono)
    then have "2 ^ ms_p s \<le> 2 ^ w * (D - 1)" using k t by simp
    moreover have "2 ^ w * (D - 1) + 2 ^ w = 2 ^ w * D"
      using D2 by (cases D) simp_all
    moreover have "D < 2 ^ w" using D2 t by simp
    ultimately show ?thesis using md by linarith
  qed
  then show "ms_q2 s + 1 < 2 ^ w" by (simp only: mult_less_cancel2)
qed

lemma magic_signed_margin:
  assumes w: "w < 65" and d: "magic_divisor w d" and D: "D = nat \<bar>d\<bar>"
    and s: "magic_inv D (magic_anc d w) w s" "w \<le> ms_p s" "magic_crit D (magic_anc d w) (ms_p s)"
    and least: "\<forall>p. w \<le> p \<and> p < ms_p s \<longrightarrow> \<not> magic_crit D (magic_anc d w) p"
  shows "k < magic_anc d w + D \<Longrightarrow> (D - ms_r2 s) * k < (D - k mod D) * 2 ^ ms_p s"
    and "k \<le> 2 ^ (w - 1) \<Longrightarrow> (D - ms_r2 s) * k \<le> (D - k mod D) * 2 ^ ms_p s"
    and "k < 2 ^ (w - 1) + (if d < 0 then 1 else 0) \<Longrightarrow> k < magic_anc d w + D"
proof -
  define t :: nat where "t = 2 ^ (w - 1) + (if d < 0 then 1 else 0)"
  have w128: "w < 128" using w by simp
  have D2: "2 \<le> D" "D < 2 ^ (w - 1)" and npow: "\<not> is_power_of_two D"
    using d D unfolding magic_divisor_def by (simp_all add: nat_less_iff le_nat_iff)
  note anc = magic_anc_props [OF w128 d D t_def]
  have tm: "t mod D < D" using D2 by simp
  have tle: "t \<le> magic_anc d w + D" using anc(3) tm by linarith
  then show "k < 2 ^ (w - 1) + (if d < 0 then 1 else 0) \<Longrightarrow> k < magic_anc d w + D"
    unfolding t_def by linarith
  have close: "(D - ms_r2 s) * magic_anc d w < 2 ^ ms_p s"
    using s(3) magic_inv_r2 [OF s(1)] by (simp add: magic_crit_def mult.commute)
  show strict: "(D - ms_r2 s) * k < (D - k mod D) * 2 ^ ms_p s" if "k < magic_anc d w + D" for k
    using D2 anc(2) close that by (intro magic_margin) simp_all
  show "(D - ms_r2 s) * k \<le> (D - k mod D) * 2 ^ ms_p s" if k: "k \<le> 2 ^ (w - 1)"
  proof (cases "k < magic_anc d w + D")
    case True
    then show ?thesis using strict by (simp add: less_imp_le)
  next
    case False
    then have kt: "k = t" and pos: "\<not> d < 0" and eq: "magic_anc d w + D = t"
      using k tle by (auto simp: t_def split: if_splits)
    have "D \<noteq> 2" using npow is_power_of_two_iff [of D] by (metis power_one_right)
    then have D3: "3 \<le> D" using D2 by linarith
    have Dt: "D \<le> t" using eq by simp
    have t2: "2 ^ w = 2 * t"
      using pos two_pow_pred [of w, where 'a = nat] magic_divisor_width [OF d] by (simp add: t_def)
    have tmod: "t mod D = D - 1" using anc(3) eq tm by linarith
    note edge = magic_edge [OF t2 tmod D3 Dt]
    have "magic_anc d w = t - D" using eq by simp
    then have "magic_crit D (magic_anc d w) w" using edge(2) by (simp add: magic_crit_def)
    then have p: "ms_p s = w" using least s(2) by (cases "w < ms_p s") auto
    have "D - ms_r2 s = 2" using edge(1) magic_inv_r2 [OF s(1)] p by simp
    then show ?thesis using tmod D3 t2 by (simp add: kt p)
  qed
qed

text \<open>The true multiplier: the magic as an exact integer, before it is cut to the word.\<close>

definition magic_true :: "nat \<Rightarrow> int \<Rightarrow> int \<Rightarrow> int" where
  "magic_true w d mult =
     (if 0 < d \<and> mult < 0 then mult + 2 ^ w else if d < 0 \<and> 0 < mult then mult - 2 ^ w else mult)"

lemma magic_true_quotient:
  assumes D: "0 < D" and m: "m * D = 2 ^ p + \<delta>" and \<delta>: "0 < \<delta>" and d: "d \<noteq> 0" "D = nat \<bar>d\<bar>"
    and margin: "\<delta> * nat \<bar>a\<bar> \<le> (D - nat \<bar>a\<bar> mod D) * 2 ^ p"
    and strict: "(0 < d \<and> 0 \<le> a) \<or> (d < 0 \<and> a < 0) \<Longrightarrow> \<delta> * nat \<bar>a\<bar> < (D - nat \<bar>a\<bar> mod D) * 2 ^ p"
    and q: "q = sgn d * int m * a div 2 ^ p"
  shows "q + (if q < 0 then 1 else 0) = a sdiv d"
proof (cases "(0 < d \<and> 0 \<le> a) \<or> (d < 0 \<and> a < 0)")
  case True
  have "m * nat \<bar>a\<bar> div 2 ^ p = nat \<bar>a\<bar> div D" by (rule magic_floor [OF D m strict [OF True]])
  then have "int (m * nat \<bar>a\<bar> div 2 ^ p) = int (nat \<bar>a\<bar> div D)" by simp
  then have "int m * \<bar>a\<bar> div 2 ^ p = \<bar>a\<bar> div \<bar>d\<bar>" using d by (simp add: zdiv_int)
  moreover have "sgn d * int m * a = int m * \<bar>a\<bar>" using True by (auto simp: sgn_if)
  ultimately have "q = \<bar>a\<bar> div \<bar>d\<bar>" unfolding q by (simp only:)
  moreover have "0 \<le> \<bar>a\<bar> div \<bar>d\<bar>" using d(1) by (simp add: pos_imp_zdiv_nonneg_iff)
  moreover have "a sdiv d = \<bar>a\<bar> div \<bar>d\<bar>" using True d(1) by (auto simp: signed_divide_int_def sgn_if)
  ultimately show ?thesis by simp
next
  case False
  show ?thesis
  proof (cases "a = 0")
    case True
    then show ?thesis using q by (simp add: signed_divide_int_def)
  next
    case a: False
    have "(- int (m * nat \<bar>a\<bar>)) div int (2 ^ p) = - int (nat \<bar>a\<bar> div D) - 1"
      by (rule magic_ceil [OF D m \<delta> _ _ margin]) (use a in simp_all)
    then have "- (int m * \<bar>a\<bar>) div 2 ^ p = - (\<bar>a\<bar> div \<bar>d\<bar>) - 1"
      using d by (simp add: zdiv_int)
    moreover have "sgn d * int m * a = - (int m * \<bar>a\<bar>)" using False a d(1) by (auto simp: sgn_if)
    ultimately have "q = - (\<bar>a\<bar> div \<bar>d\<bar>) - 1" unfolding q by (simp only:)
    moreover have "0 \<le> \<bar>a\<bar> div \<bar>d\<bar>" using d(1) by (simp add: pos_imp_zdiv_nonneg_iff)
    moreover have "a sdiv d = - (\<bar>a\<bar> div \<bar>d\<bar>)"
      using False a d(1) by (auto simp: signed_divide_int_def sgn_if)
    ultimately show ?thesis by simp
  qed
qed

lemma u128_neg_masked_eq:
  assumes w: "w < 128" and m: "0 < m" "m < 2 ^ w"
  shows "u128_neg_masked (mask_to_width u128_MAX w) m = 2 ^ w - m"
proof -
  have le: "(2::int) ^ w \<le> 2 ^ 127" using w by (intro power_increasing) simp_all
  have m': "int m < 2 ^ w" using m(2) by (metis of_nat_less_iff of_nat_numeral of_nat_power)
  have "int (mask_to_width u128_MAX w) - int m + 1 = int (2 ^ w - m)"
    using m by (simp add: mask_to_width_ones [OF w] of_nat_diff)
  moreover have "int (2 ^ w - m) mod 2 ^ 128 = int (2 ^ w - m)"
    using le m m' by (intro mod_pos_pos_trivial) (simp_all add: of_nat_diff)
  ultimately have "nat ((int (mask_to_width u128_MAX w) - int m + 1) mod 2 ^ 128) = 2 ^ w - m"
    by (simp only: nat_int)
  then show ?thesis using m by (simp add: u128_neg_masked_def and_ones [OF w])
qed

lemma magic_high_bounds:
  fixes M a :: int
  assumes w: "0 < w" and M: "\<bar>M\<bar> < 2 ^ w" and a: "- (2 ^ (w - 1)) \<le> a" "a < 2 ^ (w - 1)"
  shows "- (2 ^ (w - 1)) \<le> M * a div 2 ^ w" and "M * a div 2 ^ w < 2 ^ (w - 1)"
proof -
  have "\<bar>M * a\<bar> \<le> \<bar>M\<bar> * 2 ^ (w - 1)" using a unfolding abs_mult by (intro mult_left_mono) auto
  also have "\<dots> < 2 ^ w * 2 ^ (w - 1)" using M by simp
  finally have b: "\<bar>M * a\<bar> < 2 ^ w * 2 ^ (w - 1)" .
  then have "- (2 ^ (w - 1)) * 2 ^ w \<le> M * a" by (simp add: abs_less_iff mult.commute)
  then show "- (2 ^ (w - 1)) \<le> M * a div 2 ^ w"
    by (metis nonzero_mult_div_cancel_right power_not_zero zdiv_mono1 zero_less_numeral zero_less_power zero_neq_numeral)
  show "M * a div 2 ^ w < 2 ^ (w - 1)"
  proof (rule ccontr)
    assume "\<not> M * a div 2 ^ w < 2 ^ (w - 1)"
    then have "2 ^ (w - 1) * 2 ^ w \<le> M * a div 2 ^ w * 2 ^ w" by (intro mult_right_mono) simp_all
    also have "\<dots> \<le> M * a div 2 ^ w * 2 ^ w + M * a mod 2 ^ w" by simp
    also have "\<dots> = M * a" by (rule div_mult_mod_eq)
    finally show False using b by (simp add: abs_less_iff mult.commute)
  qed
qed

theorem magic_signed_divides:
  fixes a :: int
  assumes w: "w < 65" and d: "magic_divisor w d"
    and a: "- (2 ^ (w - 1)) \<le> a" "a < 2 ^ (w - 1)"
  obtains mg M where "magic_signed d w = Some mg"
    and "- (2 ^ (w - 1)) \<le> sm_multiplier mg" and "sm_multiplier mg < 2 ^ (w - 1)"
    and "M = magic_true w d (sm_multiplier mg)" and "sm_shift mg < w"
    and "- (2 ^ (w - 1)) \<le> M * a div 2 ^ w" and "M * a div 2 ^ w < 2 ^ (w - 1)"
    and "let q = M * a div 2 ^ w div 2 ^ sm_shift mg in q + (if q < 0 then 1 else 0) = a sdiv d"
proof -
  have w0: "0 < w" and w128: "w < 128" using magic_divisor_width [OF d] w by simp_all
  define D where D: "D = nat \<bar>d\<bar>"
  have D2: "2 \<le> D" "D < 2 ^ (w - 1)" and d0: "d \<noteq> 0"
    using d D unfolding magic_divisor_def by (auto simp add: nat_less_iff le_nat_iff)
  obtain s where s: "magic_loop (magic_ad d w) (magic_anc d w) (magic_init d w) = Some s"
    "magic_inv D (magic_anc d w) w s" "w \<le> ms_p s" "magic_crit D (magic_anc d w) (ms_p s)"
    "\<forall>p. w \<le> p \<and> p < ms_p s \<longrightarrow> \<not> magic_crit D (magic_anc d w) p" "ms_p s < 2 * w"
    using magic_signed_search [OF w d D] by blast
  define m where "m = ms_q2 s + 1"
  note b = magic_signed_bounds [OF w d D s(2,3,5)]
  have m: "0 < m" "m < 2 ^ w" using b(1) by (simp_all add: m_def)
  define mw where "mw = (if d < 0 then 2 ^ w - m else m)"
  have mw: "mw < 2 ^ w" using m by (simp add: mw_def)
  define mg where "mg = \<lparr>sm_multiplier = signed_of w mw, sm_shift = ms_p s - w\<rparr>"
  have eq: "magic_signed d w = Some mg"
    using s(1) m mw w128 w0 unfolding magic_signed_def mg_def mw_def m_def
    by (simp add: Let_def and_ones u128_neg_masked_eq sign_extend_signed)
  define M where "M = sgn d * int m"
  have mi: "0 < int m" "int m < 2 ^ w"
    using m by (simp, metis of_nat_less_iff of_nat_numeral of_nat_power)
  have true: "M = magic_true w d (sm_multiplier mg)"
    using m mw mi d0 by (auto simp: M_def magic_true_def mg_def signed_of_def mw_def of_nat_diff)
  have bounds: "- (2 ^ (w - 1)) \<le> M * a div 2 ^ w" "M * a div 2 ^ w < 2 ^ (w - 1)"
    by (rule magic_high_bounds [OF w0 _ a]; use mi in \<open>simp add: M_def abs_mult d0\<close>)+
  have div: "M * a div 2 ^ w div 2 ^ (ms_p s - w) = sgn d * int m * a div 2 ^ ms_p s"
    using s(3) by (simp add: M_def flip: zdiv_zmult2_eq power_add)
  have k: "nat \<bar>a\<bar> \<le> 2 ^ (w - 1)" using a by (simp add: nat_le_iff)
  have k': "nat \<bar>a\<bar> < 2 ^ (w - 1) + (if d < 0 then 1 else 0)"
    if "(0 < d \<and> 0 \<le> a) \<or> (d < 0 \<and> a < 0)"
    using that a by (auto simp: nat_less_iff less_Suc_eq_le nat_le_iff)
  note margin = magic_signed_margin [OF w d D s(2,3,4,5)]
  have r2: "ms_r2 s < D" using s(2) by (simp add: magic_inv_def)
  have "M * a div 2 ^ w div 2 ^ sm_shift mg
      + (if M * a div 2 ^ w div 2 ^ sm_shift mg < 0 then 1 else 0) = a sdiv d"
    by (rule magic_true_quotient [OF _ b(2) [folded m_def] _ d0 D margin(2) [OF k] margin(1) [OF margin(3) [OF k']]])
      (use D2 r2 div in \<open>simp_all add: mg_def\<close>)
  then show thesis
    using that [OF eq _ _ true _ bounds] signed_of_bounds [OF w0 mw] s(3,6) by (simp add: mg_def Let_def)
qed

end
