(* ===== verification/Llvm_Int.thy ===== *)
theory Llvm_Int
  imports Apint "HOL-Library.Signed_Division"
begin

text \<open>
  LLVM's integer operations at a width \<open>w\<close>, on natural numbers below \<open>2 ^ w\<close>: the
  value level of the semantics the mid-end passes are verified against, with
  the lemmas that say when an operation is exact.
\<close>

definition w_add :: "nat \<Rightarrow> nat \<Rightarrow> nat \<Rightarrow> nat" where
  "w_add w m n = (m + n) mod 2 ^ w"

definition w_sub :: "nat \<Rightarrow> nat \<Rightarrow> nat \<Rightarrow> nat" where
  "w_sub w m n = unsigned_of w (int m - int n)"

definition w_mul :: "nat \<Rightarrow> nat \<Rightarrow> nat \<Rightarrow> nat" where
  "w_mul w m n = (m * n) mod 2 ^ w"

definition w_lshr :: "nat \<Rightarrow> nat \<Rightarrow> nat" where
  "w_lshr m k = m div 2 ^ k"

definition w_ashr :: "nat \<Rightarrow> nat \<Rightarrow> nat \<Rightarrow> nat" where
  "w_ashr w m k = unsigned_of w (signed_of w m div 2 ^ k)"

subsection \<open>Exactness of the word operations\<close>

lemma w_bounds [simp]: "w_add w m n < 2 ^ w" "w_sub w m n < 2 ^ w" "w_mul w m n < 2 ^ w"
    "w_ashr w m k < 2 ^ w"
  by (simp_all add: w_add_def w_sub_def w_mul_def w_ashr_def)

lemma w_lshr_bound [simp]: "m < 2 ^ w \<Longrightarrow> w_lshr m k < 2 ^ w"
  unfolding w_lshr_def by (rule le_less_trans [OF div_le_dividend])

lemma w_add_exact: "m + n < 2 ^ w \<Longrightarrow> w_add w m n = m + n"
  by (simp add: w_add_def)

lemma w_mul_exact: "m * n < 2 ^ w \<Longrightarrow> w_mul w m n = m * n"
  by (simp add: w_mul_def)

lemma w_sub_exact: "n \<le> m \<Longrightarrow> m < 2 ^ w \<Longrightarrow> w_sub w m n = m - n"
  by (simp add: w_sub_def flip: of_nat_diff)

lemma w_add_signed:
  assumes "0 < w" "- (2 ^ (w - 1)) \<le> signed_of w m + signed_of w n" "signed_of w m + signed_of w n < 2 ^ (w - 1)"
  shows "signed_of w (w_add w m n) = signed_of w m + signed_of w n"
proof (rule signed_of_eqI [OF assms(1) _ _ assms(2,3)])
  show "int (w_add w m n) mod 2 ^ w = (signed_of w m + signed_of w n) mod 2 ^ w"
    using mod_add_cong [OF signed_of_mod signed_of_mod, of w m n] by (simp add: w_add_def of_nat_mod)
qed simp

lemma w_sub_signed:
  assumes "0 < w" "- (2 ^ (w - 1)) \<le> signed_of w m - signed_of w n" "signed_of w m - signed_of w n < 2 ^ (w - 1)"
  shows "signed_of w (w_sub w m n) = signed_of w m - signed_of w n"
proof (rule signed_of_eqI [OF assms(1) _ _ assms(2,3)])
  show "int (w_sub w m n) mod 2 ^ w = (signed_of w m - signed_of w n) mod 2 ^ w"
    using mod_diff_cong [OF signed_of_mod signed_of_mod, of w m n] by (simp add: w_sub_def int_unsigned_of)
qed simp

lemma w_mul_mod: "int (w_mul w m n) mod 2 ^ w = (signed_of w m * signed_of w n) mod 2 ^ w"
  using mod_mult_cong [OF signed_of_mod signed_of_mod, of w m n] by (simp add: w_mul_def of_nat_mod)

lemma w_mul_signed:
  assumes "0 < w" "- (2 ^ (w - 1)) \<le> signed_of w m * signed_of w n" "signed_of w m * signed_of w n < 2 ^ (w - 1)"
  shows "signed_of w (w_mul w m n) = signed_of w m * signed_of w n"
  by (rule signed_of_eqI [OF assms(1) w_mul_mod _ assms(2,3)]) simp

lemma w_ashr_signed:
  assumes w: "0 < w" and m: "m < 2 ^ w"
  shows "signed_of w (w_ashr w m k) = signed_of w m div 2 ^ k"
proof -
  note b = signed_of_bounds [OF w m]
  have "- (2 ^ (w - 1)) \<le> signed_of w m div 2 ^ k"
  proof (cases "0 \<le> signed_of w m")
    case True
    then have "0 \<le> signed_of w m div 2 ^ k" by (simp add: pos_imp_zdiv_nonneg_iff)
    then show ?thesis by (meson neg_le_0_iff_le order_trans zero_le_numeral zero_le_power)
  next
    case False
    have "signed_of w m * 2 ^ k \<le> signed_of w m * 1"
      using False by (intro mult_left_mono_neg) simp_all
    then have "signed_of w m * 2 ^ k div 2 ^ k \<le> signed_of w m div 2 ^ k"
      by (intro zdiv_mono1) simp_all
    then show ?thesis using b(1) by simp
  qed
  moreover have "signed_of w m div 2 ^ k < 2 ^ (w - 1)"
  proof (cases "0 \<le> signed_of w m")
    case True
    then have "signed_of w m div 2 ^ k \<le> signed_of w m div 1" by (rule zdiv_mono2) simp_all
    then show ?thesis using b(2) by simp
  next
    case False
    then have "signed_of w m div 2 ^ k < 0" by (simp add: pos_imp_zdiv_neg_iff)
    then show ?thesis by (meson less_trans zero_less_numeral zero_less_power)
  qed
  ultimately show ?thesis unfolding w_ashr_def by (intro signed_unsigned w)
qed

lemma mod_two_power_div:
  fixes x :: int
  assumes "k \<le> n"
  shows "x mod 2 ^ n div 2 ^ k = x div 2 ^ k mod 2 ^ (n - k)"
proof -
  have "drop_bit k (take_bit n x) = take_bit (n - k) (drop_bit k x)" by (rule drop_bit_take_bit)
  then show ?thesis by (simp add: drop_bit_eq_div take_bit_eq_mod)
qed

lemma signed_of_small: "n < 2 ^ (w - 1) \<Longrightarrow> signed_of w n = int n"
  by (simp add: signed_of_def)

lemma and_mask32: "n AND 4294967295 = n mod (2 ^ 32 :: nat)"
  using take_bit_eq_mask [of 32 n] by (simp add: take_bit_eq_mod mask_eq_exp_minus_1)

lemma int_and_mask32: "int (n AND 4294967295) = signed_of 64 n mod 2 ^ 32"
proof -
  have "signed_of 64 n mod 2 ^ 64 mod 2 ^ 32 = int n mod 2 ^ 64 mod 2 ^ 32" by (simp only: signed_of_mod)
  then have "signed_of 64 n mod 2 ^ 32 = int n mod 2 ^ 32" by (simp add: mod_mod_cancel)
  then show ?thesis by (simp add: and_mask32 of_nat_mod)
qed

end
