(* ===== verification/Div_Expand.thy ===== *)
theory Div_Expand
  imports Div_Magic Llvm_Int "HOL-Library.State_Monad"
begin

text \<open>
  Strength reduction of division by constants, from
  \<^verbatim>\<open>crates/pliron-ll/src/passes/llvm/div_strength_reduce.rs\<close>: the emission
  helpers, \<^verbatim>\<open>emit_mulh\<close>, \<^verbatim>\<open>expand_udiv\<close>, \<^verbatim>\<open>expand_sdiv\<close>,
  \<^verbatim>\<open>expand\<close> and \<^verbatim>\<open>rewrite_div\<close>, with a semantics of the LLVM-dialect
  ops they emit and the proof that the emitted block computes the division.

  An SSA value is represented by its defining op, whose operands are values
  again; the block under construction is the list of ops in insertion order,
  threaded through a state monad.  A type is its bit width.
\<close>

subsection \<open>Values and the block being built\<close>

datatype bin_op = OpAdd | OpSub | OpMul | OpAnd | OpLShr | OpAShr

datatype cast_op = OpSExt | OpZExt | OpTrunc

datatype ir_value =
    Dividend
  | IntConst nat nat
  | BinOp bin_op ir_value ir_value
  | CastOp cast_op ir_value nat
  | ICmpEq ir_value ir_value

type_synonym 'a builder = "(ir_value list, 'a) state"

text \<open>\<open>insert_before\<close> the divide: the op goes to the end of the block built so far.\<close>

definition emit :: "ir_value \<Rightarrow> ir_value builder" where
  "emit op = State (\<lambda>block. (op, block @ [op]))"

definition emit_const :: "nat \<Rightarrow> nat \<Rightarrow> ir_value builder" where
  "emit_const ty bits = emit (IntConst ty (mask_to_width bits ty))"

definition emit_add :: "ir_value \<Rightarrow> ir_value \<Rightarrow> ir_value builder" where
  "emit_add lhs rhs = emit (BinOp OpAdd lhs rhs)"

definition emit_sub :: "ir_value \<Rightarrow> ir_value \<Rightarrow> ir_value builder" where
  "emit_sub lhs rhs = emit (BinOp OpSub lhs rhs)"

definition emit_mul :: "ir_value \<Rightarrow> ir_value \<Rightarrow> ir_value builder" where
  "emit_mul lhs rhs = emit (BinOp OpMul lhs rhs)"

definition emit_and :: "ir_value \<Rightarrow> ir_value \<Rightarrow> ir_value builder" where
  "emit_and lhs rhs = emit (BinOp OpAnd lhs rhs)"

definition emit_lshr :: "ir_value \<Rightarrow> ir_value \<Rightarrow> ir_value builder" where
  "emit_lshr lhs rhs = emit (BinOp OpLShr lhs rhs)"

definition emit_ashr :: "ir_value \<Rightarrow> ir_value \<Rightarrow> ir_value builder" where
  "emit_ashr lhs rhs = emit (BinOp OpAShr lhs rhs)"

subsection \<open>The expansions\<close>

datatype div_kind = SDiv | UDiv | SRem | URem

definition div_signed :: "div_kind \<Rightarrow> bool" where
  "div_signed k \<longleftrightarrow> k = SDiv \<or> k = SRem"

definition div_rem :: "div_kind \<Rightarrow> bool" where
  "div_rem k \<longleftrightarrow> k = SRem \<or> k = URem"

definition emit_mulh :: "nat \<Rightarrow> ir_value \<Rightarrow> nat \<Rightarrow> bool \<Rightarrow> ir_value builder" where
  "emit_mulh width a m_bits is_signed =
     (if width = 32 then do {
        wide_a \<leftarrow> emit (CastOp (if is_signed then OpSExt else OpZExt) a 64);
        let m_wide = (if is_signed then mask_to_width (u128_of_i128 (sign_extend m_bits 32)) 64 else m_bits);
        m_c \<leftarrow> emit_const 64 m_wide;
        prod \<leftarrow> emit_mul wide_a m_c;
        s32 \<leftarrow> emit_const 64 32;
        hi \<leftarrow> emit_lshr prod s32;
        emit (CastOp OpTrunc hi width)
      } else do {
        let shr = (if is_signed then emit_ashr else emit_lshr);
        mask32 \<leftarrow> emit_const width 0xFFFFFFFF;
        c32 \<leftarrow> emit_const width 32;
        u0 \<leftarrow> emit_and a mask32;
        u1 \<leftarrow> shr a c32;
        let v0_bits = m_bits AND 0xFFFFFFFF;
        let v1_bits = (if is_signed then mask_to_width (u128_of_i128 (sign_extend m_bits 64 div 2 ^ 32)) 64
                       else drop_bit 32 (mask_to_width m_bits 64));
        v0 \<leftarrow> emit_const width v0_bits;
        v1 \<leftarrow> emit_const width v1_bits;
        w0 \<leftarrow> emit_mul u0 v0;
        u1v0 \<leftarrow> emit_mul u1 v0;
        w0_hi \<leftarrow> emit_lshr w0 c32;
        t \<leftarrow> emit_add u1v0 w0_hi;
        w1_lo \<leftarrow> emit_and t mask32;
        w2 \<leftarrow> shr t c32;
        u0v1 \<leftarrow> emit_mul u0 v1;
        w1 \<leftarrow> emit_add u0v1 w1_lo;
        w1_hi \<leftarrow> shr w1 c32;
        u1v1 \<leftarrow> emit_mul u1 v1;
        partial \<leftarrow> emit_add u1v1 w2;
        emit_add partial w1_hi
      })"

definition emit_rem_from_quotient :: "nat \<Rightarrow> ir_value \<Rightarrow> ir_value \<Rightarrow> nat \<Rightarrow> ir_value builder" where
  "emit_rem_from_quotient ty a q d_bits = do {
     d \<leftarrow> emit_const ty d_bits;
     prod \<leftarrow> emit_mul q d;
     emit_sub a prod
   }"

definition expand_udiv :: "nat \<Rightarrow> ir_value \<Rightarrow> nat \<Rightarrow> ir_value builder" where
  "expand_udiv width a d =
     (if is_power_of_two d then do {
        k \<leftarrow> emit_const width (trailing_zeros d);
        emit_lshr a k
      } else do {
        let magic = magic_unsigned d width;
        t \<leftarrow> emit_mulh width a (um_multiplier magic) False;
        if \<not> um_add magic then
          if um_shift magic = 0 then State_Monad.return t
          else do {
            s \<leftarrow> emit_const width (um_shift magic);
            emit_lshr t s
          }
        else do {
          diff \<leftarrow> emit_sub a t;
          one \<leftarrow> emit_const width 1;
          half \<leftarrow> emit_lshr diff one;
          sum \<leftarrow> emit_add half t;
          s \<leftarrow> emit_const width (um_shift magic - 1);
          emit_lshr sum s
        }
      })"

text \<open>The part of \<open>expand_sdiv\<close> after \<open>magic_signed\<close> has returned.\<close>

definition expand_sdiv_magic :: "nat \<Rightarrow> ir_value \<Rightarrow> int \<Rightarrow> signed_magic \<Rightarrow> ir_value builder" where
  "expand_sdiv_magic width a d magic = do {
     let m_bits = mask_to_width (u128_of_i128 (sm_multiplier magic)) width;
     q \<leftarrow> emit_mulh width a m_bits True;
     q \<leftarrow> (if 0 < d \<and> sm_multiplier magic < 0 then emit_add q a
          else if d < 0 \<and> 0 < sm_multiplier magic then emit_sub q a
          else State_Monad.return q);
     q \<leftarrow> (if 0 < sm_shift magic then do {
            s \<leftarrow> emit_const width (sm_shift magic);
            emit_ashr q s
          } else State_Monad.return q);
     w_m1 \<leftarrow> emit_const width (width - 1);
     sign \<leftarrow> emit_lshr q w_m1;
     emit_add q sign
   }"

text \<open>\<open>None\<close>: the search for the magic number does not end.\<close>

definition expand_sdiv :: "nat \<Rightarrow> ir_value \<Rightarrow> nat \<Rightarrow> ir_value builder option" where
  "expand_sdiv width a d_bits =
     (let d = sign_extend d_bits width; min = - (2 ^ (width - 1)); ad = nat \<bar>d\<bar> in
      if d = min then Some (do {
        min_c \<leftarrow> emit_const width d_bits;
        cmp \<leftarrow> emit (ICmpEq a min_c);
        emit (CastOp OpZExt cmp width)
      })
      else if is_power_of_two ad then Some (do {
        let k = trailing_zeros ad;
        w_m1 \<leftarrow> emit_const width (width - 1);
        sgn \<leftarrow> emit_ashr a w_m1;
        w_m_k \<leftarrow> emit_const width (width - k);
        srl \<leftarrow> emit_lshr sgn w_m_k;
        biased \<leftarrow> emit_add a srl;
        k_c \<leftarrow> emit_const width k;
        q \<leftarrow> emit_ashr biased k_c;
        if d < 0 then do {
          zero \<leftarrow> emit_const width 0;
          emit_sub zero q
        } else State_Monad.return q
      })
      else map_option (expand_sdiv_magic width a d) (magic_signed d width))"

definition expand :: "div_kind \<Rightarrow> nat \<Rightarrow> ir_value \<Rightarrow> nat \<Rightarrow> ir_value builder option" where
  "expand kind width a d_bits =
     (case kind of
        UDiv \<Rightarrow> Some (expand_udiv width a d_bits)
      | SDiv \<Rightarrow> expand_sdiv width a d_bits
      | URem \<Rightarrow>
          Some (if is_power_of_two d_bits then do {
                  mask \<leftarrow> emit_const width (d_bits - 1);
                  emit_and a mask
                } else do {
                  q \<leftarrow> expand_udiv width a d_bits;
                  emit_rem_from_quotient width a q d_bits
                })
      | SRem \<Rightarrow>
          map_option (\<lambda>m. do {
            q \<leftarrow> m;
            emit_rem_from_quotient width a q d_bits
          }) (expand_sdiv width a d_bits))"

text \<open>
  What a call of \<open>rewrite_div\<close> does to the function: nothing, or it inserts a
  block of ops before the divide and replaces the divide's result by a value.
\<close>

datatype rewrite =
    Unchanged
  | Replaced (rw_block: "ir_value list") (rw_value: ir_value)

definition replace_with :: "ir_value builder \<Rightarrow> rewrite" where
  "replace_with m = (case run_state m [] of (v, block) \<Rightarrow> Replaced block v)"

definition rewrite_div :: "div_kind option \<Rightarrow> const_operand option \<Rightarrow> rewrite option" where
  "rewrite_div kind_opt divisor_opt =
     (case kind_opt of None \<Rightarrow> Some Unchanged | Some kind \<Rightarrow>
      case divisor_opt of None \<Rightarrow> Some Unchanged | Some divisor \<Rightarrow>
      let width = co_width divisor; d_bits = co_masked divisor in
      if width \<notin> {8, 16, 32, 64} then Some Unchanged
      else if d_bits = 0 then Some Unchanged
      else if d_bits = 1 then
        Some (if div_rem kind then replace_with (emit_const width 0) else Replaced [] Dividend)
      else if div_signed kind \<and> co_signed divisor = -1 then
        Some (if div_rem kind then replace_with (emit_const width 0)
              else replace_with (do {
                zero \<leftarrow> emit_const width 0;
                emit_sub zero Dividend
              }))
      else if width < 32 then do {
        let wide = CastOp (if div_signed kind then OpSExt else OpZExt) Dividend 32;
        let wide_d = (if div_signed kind
          then mask_to_width (u128_of_i128 (co_signed divisor)) 32 else d_bits);
        m \<leftarrow> expand kind 32 wide wide_d;
        Some (replace_with (do {
          wide \<leftarrow> emit wide;
          wide_result \<leftarrow> m;
          emit (CastOp OpTrunc wide_result width)
        }))
      }
      else map_option replace_with (expand kind width Dividend d_bits))"

subsection \<open>Semantics of the emitted ops\<close>

text \<open>
  A runtime integer is its width and its bits.  \<open>None\<close> is an ill-typed op, a
  shift by at least the width (poison), or an operand not computed yet.
\<close>

type_synonym iv = "nat \<times> nat"

fun bin_sem :: "bin_op \<Rightarrow> nat \<Rightarrow> nat \<Rightarrow> nat \<Rightarrow> nat option" where
  "bin_sem OpAdd w m n = Some (w_add w m n)"
| "bin_sem OpSub w m n = Some (w_sub w m n)"
| "bin_sem OpMul w m n = Some (w_mul w m n)"
| "bin_sem OpAnd w m n = Some (m AND n)"
| "bin_sem OpLShr w m n = (if n < w then Some (w_lshr m n) else None)"
| "bin_sem OpAShr w m n = (if n < w then Some (w_ashr w m n) else None)"

fun cast_sem :: "cast_op \<Rightarrow> nat \<Rightarrow> nat \<Rightarrow> nat \<Rightarrow> nat option" where
  "cast_sem OpSExt w m w' = (if w < w' then Some (unsigned_of w' (signed_of w m)) else None)"
| "cast_sem OpZExt w m w' = (if w < w' then Some m else None)"
| "cast_sem OpTrunc w m w' = (if w' < w then Some (m mod 2 ^ w') else None)"

definition bin_iv :: "bin_op \<Rightarrow> iv \<Rightarrow> iv \<Rightarrow> iv option" where
  "bin_iv op x y = (if fst x = fst y then map_option (Pair (fst x)) (bin_sem op (fst x) (snd x) (snd y)) else None)"

definition cast_iv :: "cast_op \<Rightarrow> iv \<Rightarrow> nat \<Rightarrow> iv option" where
  "cast_iv op x w' = map_option (Pair w') (cast_sem op (fst x) (snd x) w')"

definition icmp_eq_iv :: "iv \<Rightarrow> iv \<Rightarrow> iv option" where
  "icmp_eq_iv x y = (if fst x = fst y then Some (1, if snd x = snd y then 1 else 0) else None)"

text \<open>One op in an environment of results computed so far, and a block in order.\<close>

fun eval_op :: "(ir_value \<rightharpoonup> iv) \<Rightarrow> ir_value \<Rightarrow> iv option" where
  "eval_op env Dividend = None"
| "eval_op env (IntConst w bits) = Some (w, bits)"
| "eval_op env (BinOp op x y) = do { a \<leftarrow> env x; b \<leftarrow> env y; bin_iv op a b }"
| "eval_op env (CastOp op x w) = do { a \<leftarrow> env x; cast_iv op a w }"
| "eval_op env (ICmpEq x y) = do { a \<leftarrow> env x; b \<leftarrow> env y; icmp_eq_iv a b }"

fun run_block :: "(ir_value \<rightharpoonup> iv) \<Rightarrow> ir_value list \<Rightarrow> (ir_value \<rightharpoonup> iv) option" where
  "run_block env [] = Some env"
| "run_block env (op # ops) = (case eval_op env op of None \<Rightarrow> None | Some r \<Rightarrow> run_block (env(op \<mapsto> r)) ops)"

definition init_env :: "iv \<Rightarrow> (ir_value \<rightharpoonup> iv)" where
  "init_env a = (\<lambda>v. if v = Dividend then Some a else None)"

text \<open>The denotation of a value, independent of any block.\<close>

fun den :: "iv \<Rightarrow> ir_value \<Rightarrow> iv option" where
  "den a Dividend = Some a"
| "den a (IntConst w bits) = Some (w, bits)"
| "den a (BinOp op x y) = do { x' \<leftarrow> den a x; y' \<leftarrow> den a y; bin_iv op x' y' }"
| "den a (CastOp op x w) = do { x' \<leftarrow> den a x; cast_iv op x' w }"
| "den a (ICmpEq x y) = do { x' \<leftarrow> den a x; y' \<leftarrow> den a y; icmp_eq_iv x' y' }"

fun operands :: "ir_value \<Rightarrow> ir_value list" where
  "operands (BinOp op x y) = [x, y]"
| "operands (CastOp op x w) = [x]"
| "operands (ICmpEq x y) = [x, y]"
| "operands _ = []"

text \<open>
  A block is well formed for a dividend: every op's operands are the dividend or
  earlier ops, no op is the dividend itself, and every op has a value.
\<close>

definition avail :: "ir_value list \<Rightarrow> ir_value \<Rightarrow> bool" where
  "avail block v \<longleftrightarrow> v = Dividend \<or> v \<in> set block"

definition block_ok :: "iv \<Rightarrow> ir_value list \<Rightarrow> bool" where
  "block_ok a block \<longleftrightarrow> (\<forall>i < length block.
     (\<forall>x \<in> set (operands (block ! i)). avail (take i block) x) \<and>
     block ! i \<noteq> Dividend \<and> den a (block ! i) \<noteq> None)"

lemma block_ok_Nil [simp]: "block_ok a []"
  by (simp add: block_ok_def)

lemma block_ok_snoc [simp]:
  "block_ok a (block @ [v]) \<longleftrightarrow>
     block_ok a block \<and> (\<forall>x \<in> set (operands v). avail block x) \<and> v \<noteq> Dividend \<and> den a v \<noteq> None"
  by (auto simp: block_ok_def nth_append less_Suc_eq)

lemma avail_snoc [simp]: "avail (block @ [v]) u \<longleftrightarrow> avail block u \<or> u = v"
  by (auto simp: avail_def)

lemma avail_Dividend [simp]: "avail block Dividend"
  by (simp add: avail_def)

lemma run_block_append:
  "run_block env (xs @ ys) = Option.bind (run_block env xs) (\<lambda>env'. run_block env' ys)"
  by (induction xs arbitrary: env) (auto split: option.splits)

lemma eval_op_den:
  assumes "\<forall>x \<in> set (operands v). env x = den a x" and "v \<noteq> Dividend"
  shows "eval_op env v = den a v"
  using assms by (cases v) auto

text \<open>A well-formed block runs, and every op in it gets its denotation.\<close>

lemma run_block_ok:
  assumes "block_ok a block"
  shows "\<exists>env. run_block (init_env a) block = Some env \<and> (\<forall>v. avail block v \<longrightarrow> env v = den a v)"
  using assms
proof (induction block rule: rev_induct)
  case Nil
  then show ?case by (simp add: avail_def init_env_def)
next
  case (snoc v block)
  then have "block_ok a block" by simp
  then obtain env where env: "run_block (init_env a) block = Some env"
    "\<forall>v. avail block v \<longrightarrow> env v = den a v" using snoc.IH by blast
  obtain r where r: "den a v = Some r" using snoc.prems by auto
  have "eval_op env v = den a v" using snoc.prems env(2) by (intro eval_op_den) auto
  then show ?case using env r by (auto simp: run_block_append)
qed

text \<open>
  \<open>yields a block m x\<close>: run on a well-formed block, the builder \<open>m\<close> extends it to a
  well-formed block in which its result has the value \<open>x\<close>.
\<close>

definition yields :: "iv \<Rightarrow> ir_value list \<Rightarrow> ir_value builder \<Rightarrow> iv \<Rightarrow> bool" where
  "yields a block m x \<longleftrightarrow> (case run_state m block of (v, block') \<Rightarrow>
     block_ok a block' \<and> (\<forall>u. avail block u \<longrightarrow> avail block' u) \<and> avail block' v \<and> den a v = Some x)"

lemma yields_bind:
  assumes "yields a block m x"
    and "\<And>v block'. block_ok a block' \<Longrightarrow> (\<And>u. avail block u \<Longrightarrow> avail block' u) \<Longrightarrow>
      avail block' v \<Longrightarrow> den a v = Some x \<Longrightarrow> yields a block' (k v) y"
  shows "yields a block (State_Monad.bind m k) y"
proof -
  obtain v block' where r: "run_state m block = (v, block')" by fastforce
  have v: "block_ok a block'" "\<forall>u. avail block u \<longrightarrow> avail block' u" "avail block' v" "den a v = Some x"
    using assms(1) r by (simp_all add: yields_def)
  obtain v' block'' where r': "run_state (k v) block' = (v', block'')" by fastforce
  have "yields a block' (k v) y" using v by (intro assms(2)) simp_all
  then show ?thesis using r r' v(2) by (simp add: yields_def)
qed

lemma yields_emit_bind:
  assumes "block_ok a block" "\<forall>x \<in> set (operands v). avail block x" "v \<noteq> Dividend" "den a v \<noteq> None"
    and "yields a (block @ [v]) (k v) y"
  shows "yields a block (State_Monad.bind (emit v) k) y"
  using assms(5) by (simp add: yields_def emit_def split: prod.splits)

lemma yields_return:
  "block_ok a block \<Longrightarrow> avail block v \<Longrightarrow> den a v = Some x \<Longrightarrow> yields a block (State_Monad.return v) x"
  by (simp add: yields_def)

lemma yields_emit:
  "block_ok a block \<Longrightarrow> (\<forall>x \<in> set (operands v). avail block x) \<Longrightarrow> v \<noteq> Dividend \<Longrightarrow>
    den a v = Some x \<Longrightarrow> yields a block (emit v) x"
  by (simp add: yields_def emit_def)

lemma yields_replace:
  assumes "yields a [] m x"
  shows "\<exists>block v env. replace_with m = Replaced block v \<and>
    run_block (init_env a) block = Some env \<and> env v = Some x"
proof -
  obtain v block where r: "run_state m [] = (v, block)" by fastforce
  have v: "block_ok a block" "avail block v" "den a v = Some x"
    using assms r by (simp_all add: yields_def)
  show ?thesis using run_block_ok [OF v(1)] v r by (auto simp: replace_with_def simp del: fun_upd_apply)
qed

lemmas emit_defs = emit_def emit_const_def emit_add_def emit_sub_def emit_mul_def emit_and_def
  emit_lshr_def emit_ashr_def

lemmas iv_defs = bin_iv_def cast_iv_def icmp_eq_iv_def

lemma yields_rem:
  assumes "block_ok x block" "avail block a" "avail block q" "den x a = Some (w, n)" "den x q = Some (w, m)"
  shows "yields x block (emit_rem_from_quotient w a q d)
    (w, w_sub w n (w_mul w m (mask_to_width d w)))"
  using assms
  by (simp add: yields_def emit_rem_from_quotient_def emit_defs iv_defs del: append_assoc)

subsection \<open>The half-word multiply-high\<close>

text \<open>The identity behind the four-multiply decomposition, over the integers.\<close>

lemma half_word_mulh:
  fixes B u0 u1 v0 v1 :: int
  assumes "0 < B" and t: "t = u1 * v0 + u0 * v0 div B" and w1: "w1 = u0 * v1 + t mod B"
  shows "(u1 * B + u0) * (v1 * B + v0) div (B * B) = u1 * v1 + t div B + w1 div B"
proof -
  define a b where "a = u0 * v0 div B" and "b = u0 * v0 mod B"
  have e0: "u0 * v0 = a * B + b" by (simp add: a_def b_def)
  have e1: "u1 * v0 = t div B * B + t mod B - a" by (simp add: t a_def)
  have e2: "u0 * v1 = w1 div B * B + w1 mod B - t mod B" by (simp add: w1)
  have "(u1 * B + u0) * (v1 * B + v0) = u1 * v1 * (B * B) + u1 * v0 * B + u0 * v1 * B + u0 * v0"
    by (simp add: algebra_simps)
  also have "\<dots> = (w1 mod B * B + b) + (u1 * v1 + t div B + w1 div B) * (B * B)"
    unfolding e0 e1 e2 by (simp only: algebra_simps)
  finally have eq: "(u1 * B + u0) * (v1 * B + v0) =
      (w1 mod B * B + u0 * v0 mod B) + (u1 * v1 + t div B + w1 div B) * (B * B)"
    by (simp only: b_def)
  have "w1 mod B \<le> B - 1" "u0 * v0 mod B \<le> B - 1" using assms(1) by simp_all
  then have "w1 mod B * B + u0 * v0 mod B \<le> (B - 1) * B + (B - 1)"
    using assms(1) by (intro add_mono mult_right_mono) simp_all
  also have "\<dots> < B * B" by (simp add: algebra_simps)
  finally have lt: "w1 mod B * B + u0 * v0 mod B < B * B" .
  have "0 \<le> w1 mod B * B + u0 * v0 mod B" using assms(1) by simp
  then have "(w1 mod B * B + u0 * v0 mod B) div (B * B) = 0" using lt by (rule div_pos_pos_trivial)
  then show ?thesis unfolding eq using assms(1) by simp
qed

lemma half_word_mulh_nat:
  fixes B u0 u1 v0 v1 :: nat
  assumes "0 < B" and "t = u1 * v0 + u0 * v0 div B" and "w1 = u0 * v1 + t mod B"
  shows "(u1 * B + u0) * (v1 * B + v0) div (B * B) = u1 * v1 + t div B + w1 div B"
proof -
  have "int ((u1 * B + u0) * (v1 * B + v0) div (B * B)) = int (u1 * v1 + t div B + w1 div B)"
    using half_word_mulh [of "int B" "int t" "int u1" "int v0" "int u0" "int w1" "int v1"] assms
    by (simp only: of_nat_add of_nat_mult of_nat_div of_nat_mod of_nat_0_less_iff)
  then show ?thesis by (simp only: of_nat_eq_iff)
qed

text \<open>The value \<open>emit_mulh\<close> gives a 64-bit operand \<open>n\<close>, step by step.\<close>

definition mulh64_sem :: "bool \<Rightarrow> nat \<Rightarrow> nat \<Rightarrow> nat \<Rightarrow> nat \<Rightarrow> nat" where
  "mulh64_sem sg u0 u1 v0 v1 =
     (let shr = (\<lambda>x. if sg then w_ashr 64 x 32 else w_lshr x 32);
          t = w_add 64 (w_mul 64 u1 v0) (w_lshr (w_mul 64 u0 v0) 32);
          w1 = w_add 64 (w_mul 64 u0 v1) (t AND 4294967295)
      in w_add 64 (w_add 64 (w_mul 64 u1 v1) (shr t)) (shr w1))"

lemma mulh64_unsigned:
  assumes n: "n < 2 ^ 64" and m: "m < 2 ^ 64"
  shows "mulh64_sem False (n mod 2 ^ 32) (n div 2 ^ 32) (m mod 2 ^ 32) (m div 2 ^ 32) = n * m div 2 ^ 64"
proof -
  define B :: nat where "B = 2 ^ 32"
  have BB: "B * B = 2 ^ 64" by (simp add: B_def)
  define u0 u1 v0 v1 where "u0 = n mod B" and "u1 = n div B" and "v0 = m mod B" and "v1 = m div B"
  have lt: "u0 < B" "u1 < B" "v0 < B" "v1 < B"
    using n m by (simp_all add: u0_def u1_def v0_def v1_def B_def less_mult_imp_div_less)
  have prod: "x * y + z < 2 ^ 64" if "x < B" "y < B" "z < B" for x y z
  proof -
    have "x * y \<le> (B - 1) * (B - 1)" using that by (intro mult_le_mono) simp_all
    then have "x * y + z \<le> (B - 1) * (B - 1) + (B - 1)" using that by simp
    also have "\<dots> < 2 ^ 64" by (simp add: B_def)
    finally show ?thesis .
  qed
  have div_lt: "x div B < B" if "x < 2 ^ 64" for x
    using that unfolding BB [symmetric] by (rule less_mult_imp_div_less)
  define t where "t = u1 * v0 + u0 * v0 div B"
  define w1 where "w1 = u0 * v1 + t mod B"
  have w0: "u0 * v0 < 2 ^ 64" using prod [of u0 v0 0] lt by (simp add: B_def)
  have t: "t < 2 ^ 64" unfolding t_def using lt div_lt [OF w0] by (intro prod)
  have w1: "w1 < 2 ^ 64" unfolding w1_def using lt by (intro prod) (simp_all add: B_def)
  have B0: "0 < B" by (simp add: B_def)
  have nm: "n = u1 * B + u0" "m = v1 * B + v0" by (simp_all add: u0_def u1_def v0_def v1_def)
  have res: "n * m div 2 ^ 64 = u1 * v1 + t div B + w1 div B"
    unfolding BB [symmetric] nm by (rule half_word_mulh_nat [OF B0 t_def w1_def])
  have total: "n * m div 2 ^ 64 < 2 ^ 64"
    using n m by (intro less_mult_imp_div_less mult_strict_mono) simp_all
  have "mulh64_sem False u0 u1 v0 v1 = u1 * v1 + t div B + w1 div B"
  proof -
    have "w_mul 64 u0 v0 = u0 * v0" using w0 by (rule w_mul_exact)
    moreover have "w_mul 64 u1 v0 = u1 * v0" using t by (intro w_mul_exact) (simp add: t_def)
    moreover have "w_mul 64 u0 v1 = u0 * v1" using w1 by (intro w_mul_exact) (simp add: w1_def)
    moreover have "w_add 64 (u1 * v0) (u0 * v0 div B) = t" using t by (simp add: t_def w_add_exact)
    moreover have "w_add 64 (u0 * v1) (t mod B) = w1" using w1 by (simp add: w1_def w_add_exact)
    moreover have "w_mul 64 u1 v1 = u1 * v1" using prod [of u1 v1 0] lt by (intro w_mul_exact) (simp add: B_def)
    moreover have "w_add 64 (u1 * v1) (t div B) = u1 * v1 + t div B"
      using res total by (intro w_add_exact) linarith
    moreover have "w_add 64 (u1 * v1 + t div B) (w1 div B) = u1 * v1 + t div B + w1 div B"
      using res total by (intro w_add_exact) linarith
    ultimately show ?thesis
      by (simp only: mulh64_sem_def Let_def w_lshr_def and_mask32 if_False B_def [symmetric])
  qed
  then show ?thesis unfolding res u0_def u1_def v0_def v1_def B_def .
qed

lemma signed_half_bounds:
  fixes x y z B C :: int
  assumes "- C \<le> x" "x < C" "0 \<le> y" "y < B" "0 \<le> z" "z < B" "0 < C"
  shows "- (C * B) \<le> x * y + z" and "x * y + z < C * B"
proof -
  have "- C * y \<le> x * y" using assms by (intro mult_right_mono)
  moreover have "C * y \<le> C * B" using assms by (intro mult_left_mono) simp_all
  ultimately show "- (C * B) \<le> x * y + z" using assms(5) by simp
  have "x * y \<le> (C - 1) * y" using assms by (intro mult_right_mono) simp_all
  also have "\<dots> \<le> (C - 1) * (B - 1)" using assms by (intro mult_left_mono) simp_all
  finally have "x * y + z \<le> (C - 1) * (B - 1) + (B - 1)" using assms(6) by simp
  also have "\<dots> < C * B" using assms by (simp add: algebra_simps)
  finally show "x * y + z < C * B" .
qed

lemma signed_half_step:
  fixes x y z :: nat
  assumes "x < 2 ^ 64" and "- (2 ^ 31) \<le> signed_of 64 x" "signed_of 64 x < 2 ^ 31" and "y < 2 ^ 32" and "z < 2 ^ 32"
  shows "signed_of 64 (w_add 64 (w_mul 64 x y) z) = signed_of 64 x * int y + int z"
    and "signed_of 64 (w_add 64 (w_mul 64 y x) z) = int y * signed_of 64 x + int z"
proof -
  have y: "signed_of 64 y = int y" and z: "signed_of 64 z = int z"
    using assms by (simp_all add: signed_of_small)
  have b: "- (2 ^ 63) \<le> signed_of 64 x * int y + int z" "signed_of 64 x * int y + int z < 2 ^ 63"
    using signed_half_bounds [of "2 ^ 31" "signed_of 64 x" "int y" "2 ^ 32" "int z"] assms by simp_all
  have b0: "- (2 ^ 63) \<le> signed_of 64 x * int y" "signed_of 64 x * int y < 2 ^ 63"
    using signed_half_bounds [of "2 ^ 31" "signed_of 64 x" "int y" "2 ^ 32" 0] assms by simp_all
  have m: "signed_of 64 (w_mul 64 x y) = signed_of 64 x * int y"
    using b0 by (subst w_mul_signed) (simp_all add: y)
  show "signed_of 64 (w_add 64 (w_mul 64 x y) z) = signed_of 64 x * int y + int z"
    using b by (subst w_add_signed) (simp_all add: m z)
  moreover have "w_mul 64 y x = w_mul 64 x y" by (simp add: w_mul_def mult.commute)
  ultimately show "signed_of 64 (w_add 64 (w_mul 64 y x) z) = int y * signed_of 64 x + int z"
    by (simp add: mult.commute)
qed

lemma signed_high_half:
  assumes "n < 2 ^ 64"
  shows "signed_of 64 (w_ashr 64 n 32) = signed_of 64 n div 2 ^ 32"
    and "- (2 ^ 31) \<le> signed_of 64 (w_ashr 64 n 32)" and "signed_of 64 (w_ashr 64 n 32) < 2 ^ 31"
proof -
  show eq: "signed_of 64 (w_ashr 64 n 32) = signed_of 64 n div 2 ^ 32"
    using assms by (intro w_ashr_signed) simp_all
  have b: "- (2 ^ 63) \<le> signed_of 64 n" "signed_of 64 n < 2 ^ 63"
    using signed_of_bounds [of 64 n] assms by simp_all
  have "- (2 ^ 31) \<le> x div 2 ^ 32 \<and> x div 2 ^ 32 < 2 ^ 31"
    if "- (2 ^ 63) \<le> x" "x < 2 ^ 63" for x :: int
    using zdiv_mono1 [OF that(1), of "2 ^ 32"] zdiv_mono1 [of x "2 ^ 63 - 1" "2 ^ 32"] that(2) by simp
  then show "- (2 ^ 31) \<le> signed_of 64 (w_ashr 64 n 32)" "signed_of 64 (w_ashr 64 n 32) < 2 ^ 31"
    unfolding eq using b by blast+
qed

lemma mulh64_signed:
  assumes n: "n < 2 ^ 64" and m: "m < 2 ^ 64"
  shows "mulh64_sem True (n mod 2 ^ 32) (w_ashr 64 n 32) (m mod 2 ^ 32) (w_ashr 64 m 32)
    = unsigned_of 64 (signed_of 64 n * signed_of 64 m div 2 ^ 64)"
proof -
  define B :: int where "B = 2 ^ 32"
  define u0 u1 v0 v1 where "u0 = n mod 2 ^ 32" and "u1 = w_ashr 64 n 32"
    and "v0 = m mod 2 ^ 32" and "v1 = w_ashr 64 m 32"
  define w0h where "w0h = w_lshr (w_mul 64 u0 v0) 32"
  define t where "t = w_add 64 (w_mul 64 u1 v0) w0h"
  define w1 where "w1 = w_add 64 (w_mul 64 u0 v1) (t AND 4294967295)"
  have lt: "u0 < 2 ^ 32" "v0 < 2 ^ 32" "u1 < 2 ^ 64" "v1 < 2 ^ 64"
    by (simp_all add: u0_def v0_def u1_def v1_def del: power_numeral)
  note U1 = signed_high_half [OF n, folded u1_def] and V1 = signed_high_half [OF m, folded v1_def]
  have "u0 * v0 < 2 ^ 64" using mult_strict_mono [OF lt(1,2)] lt by simp
  then have w0h: "w0h = u0 * v0 div 2 ^ 32" "w0h < 2 ^ 32"
    by (simp_all add: w0h_def w_lshr_def w_mul_exact)
  have T: "signed_of 64 t = signed_of 64 u1 * int v0 + int u0 * int v0 div B"
    unfolding t_def using lt U1 w0h by (subst signed_half_step) (simp_all add: zdiv_int B_def)
  have and_lt: "t AND 4294967295 < 2 ^ 32" by (simp add: and_mask32)
  have W1: "signed_of 64 w1 = int u0 * signed_of 64 v1 + signed_of 64 t mod B"
    unfolding w1_def using lt V1 and_lt
    by (subst signed_half_step) (simp_all add: int_and_mask32 B_def)
  have tb: "t < 2 ^ 64" "w1 < 2 ^ 64" by (simp_all add: t_def w1_def del: power_numeral)
  have N: "signed_of 64 n = signed_of 64 u1 * B + int u0" and M: "signed_of 64 m = signed_of 64 v1 * B + int v0"
    using int_and_mask32 [of n] int_and_mask32 [of m]
    by (simp_all add: U1 V1 u0_def v0_def B_def and_mask32)
  have "int (mulh64_sem True u0 u1 v0 v1) mod 2 ^ 64
      = (signed_of 64 u1 * signed_of 64 v1 + signed_of 64 t div B + signed_of 64 w1 div B) mod 2 ^ 64"
  proof -
    have shr: "int (w_ashr 64 x 32) mod 2 ^ 64 = (signed_of 64 x div B) mod 2 ^ 64" for x
      by (simp add: w_ashr_def int_unsigned_of B_def)
    have sem: "mulh64_sem True u0 u1 v0 v1
        = w_add 64 (w_add 64 (w_mul 64 u1 v1) (w_ashr 64 t 32)) (w_ashr 64 w1 32)"
      by (simp add: mulh64_sem_def Let_def t_def w1_def w0h_def)
    have "int (w_add 64 x y) mod 2 ^ 64 = (X + Y) mod 2 ^ 64"
      if "int x mod 2 ^ 64 = X mod 2 ^ 64" "int y mod 2 ^ 64 = Y mod 2 ^ 64" for x y X Y
      using mod_add_cong [OF that] by (simp add: w_add_def of_nat_mod)
    then show ?thesis unfolding sem by (simp only: shr w_mul_mod)
  qed
  also have "\<dots> = (signed_of 64 n * signed_of 64 m div (B * B)) mod 2 ^ 64"
    unfolding N M by (subst half_word_mulh [OF _ T W1]) (simp_all add: B_def)
  also have "B * B = 2 ^ 64" by (simp add: B_def)
  finally have "int (mulh64_sem True u0 u1 v0 v1) mod 2 ^ 64 = signed_of 64 n * signed_of 64 m div 2 ^ 64 mod 2 ^ 64" .
  moreover have "mulh64_sem True u0 u1 v0 v1 < 2 ^ 64" by (simp add: mulh64_sem_def Let_def del: power_numeral)
  ultimately show ?thesis unfolding u0_def u1_def v0_def v1_def by (rule unsigned_of_eqI [symmetric])
qed

subsection \<open>What the emitted blocks compute\<close>

definition mulh_spec :: "bool \<Rightarrow> nat \<Rightarrow> nat \<Rightarrow> nat \<Rightarrow> nat" where
  "mulh_spec sg w n m =
     (if sg then unsigned_of w (signed_of w n * signed_of w m div 2 ^ w) else n * m div 2 ^ w)"

lemma yields_mulh64:
  assumes "block_ok x block" "avail block a" "den x a = Some (64, n)" and n: "n < 2 ^ 64" and m: "m < 2 ^ 64"
  shows "yields x block (emit_mulh 64 a m sg) (64, mulh_spec sg 64 n m)"
proof -
  have v1: "mask_to_width (mask_to_width (u128_of_i128 (sign_extend m 64 div 2 ^ 32)) 64) 64 = w_ashr 64 m 32"
    using m by (simp add: mask_to_width_idem mask_u128_of_i128 sign_extend_signed w_ashr_def)
  have v1u: "mask_to_width (drop_bit 32 (mask_to_width m 64)) 64 = m div 2 ^ 32"
    using m by (simp add: mask_to_width_id drop_bit_eq_div mask_to_width_mod)
  have "m mod 2 ^ 32 < 2 ^ 64" by (rule less_trans [of _ "2 ^ 32"]) simp_all
  then have v0: "mask_to_width (m mod 2 ^ 32) 64 = m mod 2 ^ 32"
    by (rule mask_to_width_id)
  have sem: "mulh64_sem sg (n mod 2 ^ 32) (if sg then w_ashr 64 n 32 else w_lshr n 32) (m mod 2 ^ 32)
      (if sg then w_ashr 64 m 32 else m div 2 ^ 32) = mulh_spec sg 64 n m"
    using mulh64_signed [OF n m] mulh64_unsigned [OF n m] by (simp add: mulh_spec_def w_lshr_def)
  have c: "mask_to_width 4294967295 64 = 4294967295" "mask_to_width 32 64 = 32"
    by (simp_all add: mask_to_width_mod)
  show ?thesis
    using assms(1-3) sem [symmetric]
    by (cases sg; simp add: yields_def emit_mulh_def emit_defs iv_defs Let_def v1 v1u v0 c and_mask32
        mulh64_sem_def del: append_assoc power_numeral)
qed

lemma yields_mulh32:
  assumes "block_ok x block" "avail block a" "den x a = Some (32, n)" and n: "n < 2 ^ 32" and m: "m < 2 ^ 32"
  shows "yields x block (emit_mulh 32 a m sg) (32, mulh_spec sg 32 n m)"
proof (cases sg)
  case False
  have "n * m < 2 ^ 64" using mult_strict_mono [OF n m] by simp
  then have "w_mul 64 n (mask_to_width m 64) = n * m" using m by (simp add: w_mul_exact mask_to_width_mod)
  moreover have "n * m div 2 ^ 32 < 2 ^ 32" using \<open>n * m < 2 ^ 64\<close> by (intro less_mult_imp_div_less) simp
  ultimately show ?thesis
    using assms(1-3) False
    by (simp add: yields_def emit_mulh_def emit_defs iv_defs Let_def mulh_spec_def w_lshr_def
        mask_to_width_id del: append_assoc)
next
  case True
  define P where "P = w_mul 64 (unsigned_of 64 (signed_of 32 n)) (unsigned_of 64 (signed_of 32 m))"
  have c: "mask_to_width (mask_to_width (u128_of_i128 (sign_extend m 32)) 64) 64
      = unsigned_of 64 (signed_of 32 m)" "mask_to_width 32 64 = 32"
    using m by (simp_all add: mask_to_width_idem mask_u128_of_i128 sign_extend_signed mask_to_width_id)
  have "int P = (signed_of 32 n * signed_of 32 m) mod 2 ^ 64"
    unfolding P_def w_mul_def by (simp add: of_nat_mod int_unsigned_of mod_mult_eq del: power_numeral)
  then have "int (P div 2 ^ 32) = (signed_of 32 n * signed_of 32 m) mod 2 ^ 64 div 2 ^ 32"
    by (simp add: zdiv_int)
  also have "\<dots> = (signed_of 32 n * signed_of 32 m) div 2 ^ 32 mod 2 ^ 32"
    using mod_two_power_div [of 32 64 "signed_of 32 n * signed_of 32 m"] by simp
  finally have "P div 2 ^ 32 mod 2 ^ 32 = unsigned_of 32 (signed_of 32 n * signed_of 32 m div 2 ^ 32)"
    by (simp add: unsigned_of_def flip: nat_int)
  then show ?thesis
    using assms(1-3) True
    by (simp add: yields_def emit_mulh_def emit_defs iv_defs Let_def mulh_spec_def w_lshr_def c
        flip: P_def del: append_assoc power_numeral)
qed

lemma mulh_spec_bound: "n < 2 ^ w \<Longrightarrow> m < 2 ^ w \<Longrightarrow> mulh_spec sg w n m < 2 ^ w"
  by (auto simp: mulh_spec_def intro!: less_mult_imp_div_less mult_strict_mono)

lemma yields_mulh:
  assumes "w = 32 \<or> w = 64" and "block_ok x block" "avail block a" "den x a = Some (w, n)"
    and "n < 2 ^ w" and "m < 2 ^ w"
  shows "yields x block (emit_mulh w a m sg) (w, mulh_spec sg w n m)"
  using assms(1)
proof
  assume w: "w = 32"
  show ?thesis using assms(2-) unfolding w by (rule yields_mulh32)
next
  assume w: "w = 64"
  show ?thesis using assms(2-) unfolding w by (rule yields_mulh64)
qed

lemma yields_const:
  assumes "block_ok x block" "bits < 2 ^ w"
  shows "yields x block (emit_const w bits) (w, bits)"
  using assms by (simp add: yields_def emit_defs mask_to_width_id)

lemma udiv_add_fixup:
  fixes n t M s w :: nat
  assumes t: "t = M * n div 2 ^ w" and n: "n < 2 ^ w" and M: "M < 2 ^ w" and s: "0 < s"
  shows "w_lshr (w_add w (w_lshr (w_sub w n t) 1) t) (s - 1) = (M + 2 ^ w) * n div 2 ^ (w + s)"
proof -
  have "M * n \<le> 2 ^ w * n" using M by (intro mult_le_mono1) simp
  then have tn: "t \<le> n" unfolding t using div_le_mono [of "M * n" "2 ^ w * n" "2 ^ w"] by simp
  have half: "(n - t) div 2 + t = (n + t) div 2" using tn by presburger
  then have "(n - t) div 2 + t < 2 ^ w" using tn n by simp
  then have "w_add w (w_lshr (w_sub w n t) 1) t = (n + t) div 2"
    using tn n half by (simp add: w_sub_exact w_lshr_def w_add_exact)
  moreover have "(n + t) div 2 div 2 ^ (s - 1) = (n + t) div 2 ^ s"
    using s two_pow_pred [of s, where 'a = nat] by (simp add: div_mult2_eq)
  moreover have "n + t = (M + 2 ^ w) * n div 2 ^ w" unfolding t by (simp add: algebra_simps)
  ultimately show ?thesis by (simp add: w_lshr_def power_add div_mult2_eq)
qed

lemma yields_udiv:
  assumes w: "w = 32 \<or> w = 64" and ok: "block_ok x block" "avail block a" "den x a = Some (w, n)"
    and n: "n < 2 ^ w" and d: "2 \<le> d" "d < 2 ^ w"
  shows "yields x block (expand_udiv w a d) (w, n div d)"
proof (cases "is_power_of_two d")
  case True
  then have k: "d = 2 ^ trailing_zeros d" by (simp add: is_power_of_two_def)
  have "(2::nat) ^ trailing_zeros d < 2 ^ w" using d(2) k by simp
  then have "trailing_zeros d < w" by (rule power_less_imp_less_exp [rotated]) simp
  moreover from this have "trailing_zeros d < 2 ^ w" using less_exp less_trans by blast
  ultimately show ?thesis
    using ok True k by (simp add: expand_udiv_def yields_def emit_defs iv_defs mask_to_width_id
        w_lshr_def del: append_assoc)
next
  case npow: False
  define mg where "mg = magic_unsigned d w"
  have w65: "0 < w" "w < 65" using w by auto
  note mgd = magic_unsigned_divides [OF w65 d n mg_def]
  have lt: "k < 2 ^ w" if "k \<le> w" for k :: nat using that less_exp [of w] by (rule le_less_trans)
  have w1: "(1::nat) < 2 ^ w" "1 < w" using w by auto
  let ?t = "n * um_multiplier mg div 2 ^ w"
  have mulh: "yields x block (emit_mulh w a (um_multiplier mg) False) (w, ?t)"
    using yields_mulh [OF w ok n mgd(2), of False] by (simp add: mulh_spec_def)
  show ?thesis
  proof (cases "um_add mg")
    case False
    have s: "um_shift mg < w" "um_shift mg < 2 ^ w" using mgd(4) False lt by simp_all
    have q: "w_lshr ?t (um_shift mg) = n div d"
      using mgd(1) False by (simp add: w_lshr_def power_add div_mult2_eq mult.commute)
    show ?thesis
      unfolding expand_udiv_def Let_def mg_def [symmetric] if_not_P [OF npow]
      by (rule yields_bind [OF mulh])
        (use False s q in \<open>auto simp add: yields_def emit_defs iv_defs mask_to_width_id w_lshr_def simp del: append_assoc\<close>)
  next
    case True
    have s: "um_shift mg - 1 < w" "um_shift mg - 1 < 2 ^ w" "0 < um_shift mg"
      using mgd(3,4) True lt [of "um_shift mg - 1"] by simp_all
    have q: "w_lshr (w_add w (w_lshr (w_sub w n ?t) 1) ?t) (um_shift mg - 1) = n div d"
      using mgd(1) True udiv_add_fixup [OF _ n mgd(2) s(3), of ?t] by (simp add: mult.commute)
    show ?thesis
      unfolding expand_udiv_def Let_def mg_def [symmetric] if_not_P [OF npow]
      by (rule yields_bind [OF mulh])
        (use True s q w1 ok in \<open>simp add: yields_def emit_defs iv_defs mask_to_width_id del: append_assoc\<close>)
  qed
qed

text \<open>The signed expansions: the divisor \<open>MIN\<close>, plus or minus a power of two, and the rest.\<close>

definition sdiv_spec :: "nat \<Rightarrow> nat \<Rightarrow> nat \<Rightarrow> nat" where
  "sdiv_spec w n d = unsigned_of w (signed_of w n sdiv signed_of w d)"

lemma sdiv_min:
  assumes w: "1 < w" and n: "n < 2 ^ w" and d: "d < 2 ^ w" and min: "signed_of w d = - (2 ^ (w - 1))"
  shows "sdiv_spec w n d = (if n = d then 1 else 0)"
proof (cases "n = d")
  case True
  have "signed_of w d sdiv signed_of w d = 1" unfolding min signed_divide_int_def by (simp add: sgn_if)
  moreover have "unsigned_of w 1 = 1" using w by (simp add: unsigned_of_def)
  ultimately show ?thesis using True by (simp add: sdiv_spec_def)
next
  case False
  have w0: "0 < w" using w by simp
  have "signed_of w n \<noteq> signed_of w d" using False n d by (metis unsigned_signed)
  then have "\<bar>signed_of w n\<bar> < 2 ^ (w - 1)" using signed_of_bounds [OF w0 n] min by (simp add: abs_less_iff)
  then have "signed_of w n sdiv signed_of w d = 0"
    unfolding min signed_divide_int_def by (simp add: div_pos_pos_trivial)
  then show ?thesis using False by (simp add: sdiv_spec_def unsigned_of_def)
qed

lemma trunc_div_power:
  fixes A :: int
  shows "(A + (2 ^ k - 1)) div 2 ^ k = - ((- A) div 2 ^ k)"
proof -
  obtain q r where A: "- A = 2 ^ k * q + r" "0 \<le> r" "r < 2 ^ k"
    by (metis mult_div_mod_eq pos_mod_bound pos_mod_sign zero_less_numeral zero_less_power)
  have "(A + (2 ^ k - 1)) div 2 ^ k = - q"
    using A by (intro int_div_pos_eq [where r = "2 ^ k - 1 - r"]) simp_all
  moreover have "(- A) div 2 ^ k = q" using A by (intro int_div_pos_eq)
  ultimately show ?thesis by simp
qed

lemma w_ashr_sign:
  assumes w: "0 < w" and n: "n < 2 ^ w"
  shows "w_ashr w n (w - 1) = (if signed_of w n < 0 then 2 ^ w - 1 else 0)"
proof (cases "signed_of w n < 0")
  case True
  have "signed_of w n div 2 ^ (w - 1) = - 1"
    using True signed_of_bounds [OF w n]
    by (intro int_div_pos_eq [where r = "signed_of w n + 2 ^ (w - 1)"]) simp_all
  moreover have "unsigned_of w (- 1) = 2 ^ w - 1"
  proof (rule unsigned_of_eqI)
    have "int (2 ^ w - 1) = 2 ^ w - 1" by (simp add: of_nat_diff)
    then show "int (2 ^ w - 1) mod 2 ^ w = - 1 mod 2 ^ w" by (simp add: zmod_minus1)
  qed simp
  ultimately show ?thesis using True by (simp add: w_ashr_def)
next
  case False
  then have "signed_of w n div 2 ^ (w - 1) = 0"
    using signed_of_bounds [OF w n] by (simp add: div_pos_pos_trivial)
  then show ?thesis using False by (simp add: w_ashr_def unsigned_of_def)
qed

text \<open>The sign-fix sequence for a divisor of magnitude \<open>2 ^ k\<close>.\<close>

lemma sdiv_pow2:
  assumes w: "k < w - 1" and n: "n < 2 ^ w"
  defines "q \<equiv> w_ashr w (w_add w n (w_lshr (w_ashr w n (w - 1)) (w - k))) k"
  shows "signed_of w q = signed_of w n sdiv 2 ^ k"
proof -
  have w0: "0 < w" using w by simp
  note b = signed_of_bounds [OF w0 n]
  have kw: "(2::int) ^ k \<le> 2 ^ (w - 1)" using w by (intro power_increasing) simp_all
  have bias: "w_lshr (w_ashr w n (w - 1)) (w - k) = (if signed_of w n < 0 then 2 ^ k - 1 else 0)"
  proof -
    have "(2 ^ w - 1 :: nat) = (2 ^ k - 1) * 2 ^ (w - k) + (2 ^ (w - k) - 1)"
    proof -
      have "(2::nat) ^ w = 2 ^ k * 2 ^ (w - k)" using w by (simp flip: power_add)
      then show ?thesis by (simp add: diff_mult_distrib)
    qed
    then have "(2 ^ w - 1 :: nat) div 2 ^ (w - k) = ((2 ^ k - 1) * 2 ^ (w - k) + (2 ^ (w - k) - 1)) div 2 ^ (w - k)"
      by (simp only:)
    also have "\<dots> = 2 ^ k - 1"
    proof -
      have "(c * d + (d - 1)) div d = c" if "0 < d" for c d :: nat
        using that by (intro div_nat_eqI) (simp_all add: algebra_simps)
      then show ?thesis by simp
    qed
    finally have "(2 ^ w - 1 :: nat) div 2 ^ (w - k) = 2 ^ k - 1" .
    then show ?thesis unfolding w_ashr_sign [OF w0 n] w_lshr_def by simp
  qed
  have sb: "signed_of w (if signed_of w n < 0 then 2 ^ k - 1 else 0)
      = (if signed_of w n < 0 then 2 ^ k - 1 else 0)"
  proof -
    have "(2::nat) ^ k \<le> 2 ^ (w - 1)" using w by (intro power_increasing) simp_all
    then have "(2 ^ k - 1 :: nat) < 2 ^ (w - 1)"
      using one_le_power [of "2::nat" k] by linarith
    then show ?thesis by (simp add: signed_of_small of_nat_diff)
  qed
  have range: "- (2 ^ (w - 1)) \<le> signed_of w n + (if signed_of w n < 0 then 2 ^ k - 1 else 0)"
    "signed_of w n + (if signed_of w n < 0 then 2 ^ k - 1 else 0) < 2 ^ (w - 1)"
    using b kw one_le_power [of "2::int" k]
    by (cases "signed_of w n < 0"; simp only: if_True if_False; linarith)+
  have "signed_of w (w_add w n (if signed_of w n < 0 then 2 ^ k - 1 else 0))
      = signed_of w n + (if signed_of w n < 0 then 2 ^ k - 1 else 0)"
    using w_add_signed [OF w0, of n, unfolded sb] range by (simp only: sb)
  then have "signed_of w q = (signed_of w n + (if signed_of w n < 0 then 2 ^ k - 1 else 0)) div 2 ^ k"
    unfolding q_def bias by (subst w_ashr_signed [OF w0]) simp_all
  also have "\<dots> = signed_of w n sdiv 2 ^ k"
    using trunc_div_power [of "signed_of w n" k] by (auto simp: signed_divide_int_def sgn_if)
  finally show ?thesis .
qed

lemma sdiv_neg: "x sdiv (- y) = - (x sdiv y)" for x y :: int
  by (auto simp: signed_divide_int_def sgn_if)

lemma unsigned_of_signed_eq: "signed_of w q = i \<Longrightarrow> q < 2 ^ w \<Longrightarrow> q = unsigned_of w i"
  by auto

lemma w_sub_zero: "w_sub w 0 q = unsigned_of w (- signed_of w q)"
proof -
  have "(- signed_of w q) mod 2 ^ w = (- int q) mod 2 ^ w"
    by (metis mod_minus_eq signed_of_mod)
  then show ?thesis by (simp add: w_sub_def unsigned_of_def)
qed

lemma sign_bit_lshr:
  assumes "0 < w" "q < 2 ^ w"
  shows "w_lshr q (w - 1) = (if signed_of w q < 0 then 1 else 0)"
proof -
  have "q < 2 * 2 ^ (w - 1)" using assms two_pow_pred [of w, where 'a = nat] by simp
  then have "q div 2 ^ (w - 1) = 1" if "2 ^ (w - 1) \<le> q" using that by (intro div_nat_eqI) simp_all
  moreover have "signed_of w q < 0 \<longleftrightarrow> 2 ^ (w - 1) \<le> q"
  proof -
    have "int q < 2 ^ w" using assms(2) by (metis of_nat_less_iff of_nat_numeral of_nat_power)
    then show ?thesis by (simp add: signed_of_def not_less)
  qed
  ultimately show ?thesis by (simp add: w_lshr_def not_le)
qed

lemma w_add_unsigned: "w_add w (unsigned_of w i) (unsigned_of w j) = unsigned_of w (i + j)"
  by (rule unsigned_of_eqI [symmetric])
    (simp_all add: w_add_def of_nat_mod int_unsigned_of mod_simps)

lemma w_sub_unsigned: "w_sub w (unsigned_of w i) (unsigned_of w j) = unsigned_of w (i - j)"
  by (simp add: w_sub_def unsigned_of_def mod_simps)

text \<open>\<open>BuildSDIV\<close>'s add or subtract of the dividend restores the true magic.\<close>

lemma magic_high_fix:
  "mult * a div 2 ^ w + (if 0 < d \<and> mult < 0 then a else if d < 0 \<and> 0 < mult then - a else 0)
    = magic_true w d mult * a div 2 ^ w" for a d mult :: int
proof -
  have "(mult + 2 ^ w) * a div 2 ^ w = mult * a div 2 ^ w + a"
    by (simp add: distrib_right)
  moreover have "(mult - 2 ^ w) * a div 2 ^ w = mult * a div 2 ^ w - a"
    using div_mult_self1 [of "2 ^ w" "mult * a" "- a"] by (simp add: algebra_simps)
  ultimately show ?thesis by (simp add: magic_true_def)
qed

lemma yields_sdiv_magic:
  assumes w: "w = 32 \<or> w = 64" and ok: "block_ok x block" "avail block a" "den x a = Some (w, n)"
    and n: "n < 2 ^ w" and d: "magic_divisor w d" and mg: "magic_signed d w = Some mg"
  shows "yields x block (expand_sdiv_magic w a d mg) (w, unsigned_of w (signed_of w n sdiv d))"
proof -
  have w65: "w < 65" and w0: "0 < w" and w1: "w - 1 < w" "w - 1 < 2 ^ w" using w by auto
  let ?a = "signed_of w n" and ?mult = "sm_multiplier mg"
  define M where "M = magic_true w d ?mult"
  obtain mg' M' where all: "magic_signed d w = Some mg'"
    "- (2 ^ (w - 1)) \<le> sm_multiplier mg'" "sm_multiplier mg' < 2 ^ (w - 1)"
    "M' = magic_true w d (sm_multiplier mg')" "sm_shift mg' < w"
    "- (2 ^ (w - 1)) \<le> M' * ?a div 2 ^ w" "M' * ?a div 2 ^ w < 2 ^ (w - 1)"
    "let q = M' * ?a div 2 ^ w div 2 ^ sm_shift mg' in q + (if q < 0 then 1 else 0) = ?a sdiv d"
    using magic_signed_divides [OF w65 d signed_of_bounds [OF w0 n]] by blast
  have "mg' = mg" "M' = M" using all(1,4) mg by (simp_all add: M_def)
  note sm = all(2,3,5) [unfolded this] and b = all(6,7) [unfolded this]
    and quot = all(8) [unfolded this Let_def]
  define q1 where "q1 = unsigned_of w (M * ?a div 2 ^ w)"
  define q2 where "q2 = w_ashr w q1 (sm_shift mg)"
  have q1: "signed_of w q1 = M * ?a div 2 ^ w" unfolding q1_def using w0 b by (rule signed_unsigned)
  have q2: "q2 < 2 ^ w" "signed_of w q2 = M * ?a div 2 ^ w div 2 ^ sm_shift mg"
    unfolding q1 [symmetric] q2_def by (simp, intro w_ashr_signed [OF w0]) (simp add: q1_def)
  define m where "m = mask_to_width (u128_of_i128 ?mult) w"
  have m: "m = unsigned_of w ?mult" using w65 by (simp add: m_def mask_u128_of_i128)
  have h: "mulh_spec True w n m = unsigned_of w (?mult * ?a div 2 ^ w)"
    using sm(1,2) by (simp add: mulh_spec_def m signed_unsigned [OF w0] mult.commute)
  have s: "sm_shift mg < 2 ^ w" using sm(3) less_exp less_trans by blast
  have n': "n = unsigned_of w ?a" using n by simp
  have final: "w_add w q2 (w_lshr q2 (w - 1)) = unsigned_of w (?a sdiv d)"
  proof -
    have "w_lshr q2 (w - 1) = unsigned_of w (if signed_of w q2 < 0 then 1 else 0)"
      unfolding sign_bit_lshr [OF w0 q2(1)] using w by (auto simp: unsigned_of_def)
    moreover have "q2 = unsigned_of w (signed_of w q2)" using q2(1) by simp
    ultimately have "w_add w q2 (w_lshr q2 (w - 1)) = unsigned_of w (signed_of w q2 + (if signed_of w q2 < 0 then 1 else 0))"
      using w_add_unsigned by metis
    then show ?thesis unfolding q2(2) quot .
  qed
  have mulh: "yields x block (emit_mulh w a m True) (w, unsigned_of w (?mult * ?a div 2 ^ w))"
    using yields_mulh [OF w ok n, of m True] by (simp add: h) (simp add: m)
  have fix1: "yields x block' (if 0 < d \<and> ?mult < 0 then emit_add q a
      else if d < 0 \<and> 0 < ?mult then emit_sub q a else State_Monad.return q) (w, q1)"
    if "block_ok x block'" "avail block' a" "avail block' q" "den x q = Some (w, unsigned_of w (?mult * ?a div 2 ^ w))"
    for block' q
  proof -
    have "q1 = unsigned_of w (?mult * ?a div 2 ^ w
        + (if 0 < d \<and> ?mult < 0 then ?a else if d < 0 \<and> 0 < ?mult then - ?a else 0))"
      unfolding q1_def M_def magic_high_fix ..
    then show ?thesis using that ok(3) w_add_unsigned [of w _ ?a] w_sub_unsigned [of w _ ?a] n'
      by (auto simp: yields_def emit_defs iv_defs simp del: append_assoc)
  qed
  have fix2: "yields x block' (if 0 < sm_shift mg then emit_const w (sm_shift mg) \<bind> emit_ashr q
      else State_Monad.return q) (w, q2)"
    if "block_ok x block'" "avail block' q" "den x q = Some (w, q1)" for block' q
    using that sm(3) s by (auto simp: yields_def emit_defs iv_defs mask_to_width_id q2_def w_ashr_def q1
        simp del: append_assoc) (simp add: q1_def)
  have fix3: "yields x block' (emit_const w (w - 1) \<bind> (\<lambda>w_m1. emit_lshr q w_m1 \<bind> emit_add q))
      (w, unsigned_of w (?a sdiv d))"
    if "block_ok x block'" "avail block' q" "den x q = Some (w, q2)" for block' q
    using that w1 final by (simp add: yields_def emit_defs iv_defs mask_to_width_id del: append_assoc)
  show ?thesis
    unfolding expand_sdiv_magic_def Let_def m_def [symmetric]
    apply (rule yields_bind [OF mulh])
    apply (rule yields_bind [OF fix1])
        apply assumption
       apply (simp only: ok(2))
      apply assumption
     apply assumption
    apply (rule yields_bind [OF fix2])
       apply assumption+
    apply (rule fix3)
      apply assumption+
    done
qed

text \<open>Divisors \<open>expand_sdiv\<close> is called with: the pass has folded 0, 1 and -1 before.\<close>

lemma yields_sdiv:
  assumes w: "w = 32 \<or> w = 64" and den: "den x a = Some (w, n)"
    and n: "n < 2 ^ w" and db: "d_bits < 2 ^ w" and d: "2 \<le> \<bar>signed_of w d_bits\<bar>"
  shows "\<exists>m. expand_sdiv w a d_bits = Some m \<and> (\<forall>block. block_ok x block \<longrightarrow> avail block a \<longrightarrow> yields x block m (w, sdiv_spec w n d_bits))"
proof -
  have w0: "0 < w" "1 < w" "w < 128" using w by auto
  let ?d = "signed_of w d_bits"
  have se: "sign_extend d_bits w = ?d" using w0 db by (simp add: sign_extend_signed)
  have lt: "k < 2 ^ w" if "k \<le> w" for k :: nat using that less_exp [of w] by (rule le_less_trans)
  note db' = signed_of_bounds [OF w0(1) db]
  consider (min) "?d = - (2 ^ (w - 1))" | (pow) "?d \<noteq> - (2 ^ (w - 1))" "is_power_of_two (nat \<bar>?d\<bar>)"
    | (magic) "?d \<noteq> - (2 ^ (w - 1))" "\<not> is_power_of_two (nat \<bar>?d\<bar>)" by blast
  then show ?thesis
  proof cases
    case min
    show ?thesis
      using min w0 den sdiv_min [OF w0(2) n db min] db
      by (auto simp: expand_sdiv_def Let_def se yields_def emit_defs iv_defs mask_to_width_id
          simp del: append_assoc)
  next
    case pow
    define k where "k = trailing_zeros (nat \<bar>?d\<bar>)"
    have k: "nat \<bar>?d\<bar> = 2 ^ k" using pow(2) by (simp add: is_power_of_two_def k_def)
    then have ki: "\<bar>?d\<bar> = 2 ^ k" by (metis abs_ge_zero int_nat_eq of_nat_numeral of_nat_power)
    have "(2::int) ^ k < 2 ^ (w - 1)" using db' pow(1) unfolding ki [symmetric] by linarith
    then have kw: "k < w - 1" by (rule power_less_imp_less_exp [rotated]) simp
    have k0: "0 < k" using d ki by (cases k) simp_all
    define q where "q = w_ashr w (w_add w n (w_lshr (w_ashr w n (w - 1)) (w - k))) k"
    have qs: "signed_of w q = signed_of w n sdiv 2 ^ k" unfolding q_def using kw n by (rule sdiv_pow2)
    have q: "q < 2 ^ w" by (simp add: q_def)
    have res: "sdiv_spec w n d_bits = (if ?d < 0 then w_sub w 0 q else q)"
    proof (cases "?d < 0")
      case True
      then have "?d = - (2 ^ k)" using ki by simp
      then show ?thesis using True by (simp add: sdiv_spec_def w_sub_zero qs sdiv_neg)
    next
      case False
      then have "?d = 2 ^ k" using ki by simp
      then show ?thesis using False q by (simp add: sdiv_spec_def flip: qs)
    qed
    have small: "w - Suc 0 < w" "w - k < w" "k < w" "w - Suc 0 < 2 ^ w" "w - k < 2 ^ w" "k < 2 ^ w"
      using kw k0 w0 lt by simp_all
    show ?thesis
      using pow den small
      by (auto simp: expand_sdiv_def Let_def se yields_def emit_defs iv_defs mask_to_width_id res q_def k_def [symmetric]
          simp del: append_assoc)
  next
    case magic
    then have md: "magic_divisor w ?d" using db' d by (auto simp: magic_divisor_def abs_less_iff)
    have w65: "w < 65" using w by auto
    obtain mg where mg: "magic_signed ?d w = Some mg"
      using magic_signed_divides [OF w65 md signed_of_bounds [OF w0(1) n]] by blast
    have "expand_sdiv w a d_bits = Some (expand_sdiv_magic w a ?d mg)"
      using magic mg by (simp add: expand_sdiv_def Let_def se)
    then show ?thesis
      using yields_sdiv_magic [OF w _ _ den n md mg] by (simp add: sdiv_spec_def)
  qed
qed

subsection \<open>The pass\<close>

text \<open>
  LLVM's division at width \<open>w\<close>: truncating for the signed forms, and the
  wrapped result for \<open>MIN / -1\<close>.
\<close>

fun div_spec :: "div_kind \<Rightarrow> nat \<Rightarrow> nat \<Rightarrow> nat \<Rightarrow> nat" where
  "div_spec UDiv w n d = n div d"
| "div_spec URem w n d = n mod d"
| "div_spec SDiv w n d = unsigned_of w (signed_of w n sdiv signed_of w d)"
| "div_spec SRem w n d = unsigned_of w (signed_of w n smod signed_of w d)"

lemma rem_udiv: "n < 2 ^ w \<Longrightarrow> w_sub w n (w_mul w (n div d) d) = n mod d"
proof -
  assume n: "n < 2 ^ w"
  have le: "n div d * d \<le> n" by simp
  then have "w_mul w (n div d) d = n div d * d" using n by (intro w_mul_exact) (rule le_less_trans)
  then show ?thesis using le n by (simp add: w_sub_exact minus_div_mult_eq_mod)
qed

lemma rem_sdiv: "w_sub w n (w_mul w (sdiv_spec w n d) d) = unsigned_of w (signed_of w n smod signed_of w d)"
proof -
  let ?q = "signed_of w n sdiv signed_of w d"
  have "int (w_mul w (sdiv_spec w n d) d) mod 2 ^ w = (?q * signed_of w d) mod 2 ^ w"
  proof -
    have "int (w_mul w (sdiv_spec w n d) d) mod 2 ^ w = (int (sdiv_spec w n d) * int d) mod 2 ^ w"
      by (simp add: w_mul_def of_nat_mod)
    also have "\<dots> = (?q * signed_of w d) mod 2 ^ w"
      by (rule mod_mult_cong) (simp_all add: sdiv_spec_def int_unsigned_of signed_of_mod)
    finally show ?thesis .
  qed
  then have "(int n - int (w_mul w (sdiv_spec w n d) d)) mod 2 ^ w = (signed_of w n - ?q * signed_of w d) mod 2 ^ w"
    using signed_of_mod [of w n] by (metis mod_diff_cong)
  moreover have "signed_of w n - ?q * signed_of w d = signed_of w n smod signed_of w d"
    using sdiv_mult_smod_eq [of "signed_of w n" "signed_of w d"] by (simp add: algebra_simps)
  ultimately show ?thesis by (simp add: w_sub_def unsigned_of_def)
qed

lemma and_pow2: "is_power_of_two d \<Longrightarrow> n AND (d - 1) = n mod (d :: nat)"
  using take_bit_eq_mask [of _ n] by (auto simp: is_power_of_two_iff take_bit_eq_mod mask_eq_exp_minus_1)

lemma expand_correct:
  assumes w: "w = 32 \<or> w = 64" and den: "den x a = Some (w, n)"
    and n: "n < 2 ^ w" and d: "2 \<le> d" "d < 2 ^ w"
    and sd: "div_signed k \<Longrightarrow> 2 \<le> \<bar>signed_of w d\<bar>"
  shows "\<exists>m. expand k w a d = Some m \<and> (\<forall>block. block_ok x block \<longrightarrow> avail block a \<longrightarrow> yields x block m (w, div_spec k w n d))"
proof -
  have mask: "mask_to_width d w = d" using d by (simp add: mask_to_width_id)
  have rem: "yields x block (emit_rem_from_quotient w a q d) (w, r)"
    if "block_ok x block" "avail block a" "avail block q" "den x q = Some (w, m)" "r = w_sub w n (w_mul w m d)"
    for block q m r using yields_rem [OF that(1-3) den that(4), of d] by (simp add: mask that(5))
  show ?thesis
  proof (cases k)
    case UDiv
    then show ?thesis using yields_udiv [OF w _ _ den n d] by (simp add: expand_def)
  next
    case SDiv
    then show ?thesis using yields_sdiv [OF w den n d(2)] sd
      by (simp add: expand_def div_signed_def sdiv_spec_def)
  next
    case URem
    have "yields x block (do { q \<leftarrow> expand_udiv w a d; emit_rem_from_quotient w a q d }) (w, n mod d)"
      if "block_ok x block" "avail block a" for block
      apply (rule yields_bind [OF yields_udiv [OF w that den n d]])
      apply (rule rem [OF _ _ _ _ rem_udiv [OF n, symmetric]])
      using that by simp_all
    moreover have "yields x block (do { mask \<leftarrow> emit_const w (d - 1); emit_and a mask }) (w, n mod d)"
      if "block_ok x block" "avail block a" "is_power_of_two d" for block
      using that den d and_pow2 [OF that(3), of n]
      by (simp add: yields_def emit_defs iv_defs mask_to_width_id del: append_assoc)
    ultimately show ?thesis using URem by (auto simp: expand_def)
  next
    case SRem
    then obtain m where m: "expand_sdiv w a d = Some m"
      "\<And>block. block_ok x block \<Longrightarrow> avail block a \<Longrightarrow> yields x block m (w, sdiv_spec w n d)"
      using yields_sdiv [OF w den n d(2)] sd by (auto simp: div_signed_def)
    have "yields x block (do { q \<leftarrow> m; emit_rem_from_quotient w a q d }) (w, div_spec k w n d)"
      if "block_ok x block" "avail block a" for block
      apply (rule yields_bind [OF m(2) [OF that]])
      apply (simp only: SRem div_spec.simps)
      apply (rule rem [OF _ _ _ _ rem_sdiv [symmetric]])
      using that by simp_all
    then show ?thesis using SRem m(1) by (simp add: expand_def)
  qed
qed

lemma unsigned_of_narrow:
  assumes "w \<le> w'"
  shows "unsigned_of w' i mod 2 ^ w = unsigned_of w i"
proof (rule unsigned_of_eqI [symmetric])
  have "int (unsigned_of w' i) mod 2 ^ w = i mod 2 ^ w' mod 2 ^ w" by (simp add: int_unsigned_of)
  also have "\<dots> = i mod 2 ^ w" using assms by (simp add: mod_mod_cancel le_imp_power_dvd)
  finally show "int (unsigned_of w' i mod 2 ^ w) mod 2 ^ w = i mod 2 ^ w" by (simp add: of_nat_mod)
qed simp

lemma signed_of_widen:
  assumes w: "0 < w" "w < w'" and n: "n < 2 ^ w"
  shows "signed_of w' (unsigned_of w' (signed_of w n)) = signed_of w n"
proof (rule signed_unsigned)
  have le: "(2::int) ^ (w - 1) \<le> 2 ^ (w' - 1)" using w by (intro power_increasing) simp_all
  then show "- (2 ^ (w' - 1)) \<le> signed_of w n" "signed_of w n < 2 ^ (w' - 1)"
    using signed_of_bounds [OF w(1) n] by linarith+
qed (use w in simp)

lemma signed_of_ge2:
  assumes w: "1 < w" and d: "d < 2 ^ w" "d \<noteq> 0" "d \<noteq> 1" "signed_of w d \<noteq> - 1"
  shows "2 \<le> \<bar>signed_of w d\<bar>"
proof -
  have eq: "unsigned_of w (signed_of w d) = d" using d(1) by simp
  have "signed_of w d \<noteq> 0" using eq d(2) by (auto simp: unsigned_of_def)
  moreover have "signed_of w d \<noteq> 1" using eq d(3) w by (auto simp: unsigned_of_def)
  ultimately show ?thesis using d(4) by linarith
qed

text \<open>Dividing the widened operands and truncating is dividing at the narrow width.\<close>

definition widened :: "div_kind \<Rightarrow> nat \<Rightarrow> nat \<Rightarrow> nat" where
  "widened k w n = (if div_signed k then unsigned_of 32 (signed_of w n) else n)"

lemma div_spec_widened:
  assumes w: "0 < w" "w < 32" and n: "n < 2 ^ w" and d: "d < 2 ^ w"
  shows "div_spec k 32 (widened k w n) (widened k w d) mod 2 ^ w = div_spec k w n d"
proof (cases k)
  case UDiv
  have "n div d < 2 ^ w" using n by (rule le_less_trans [OF div_le_dividend])
  then show ?thesis using UDiv by (simp add: widened_def div_signed_def)
next
  case URem
  have "n mod d < 2 ^ w" using n by (rule le_less_trans [OF mod_less_eq_dividend])
  then show ?thesis using URem by (simp add: widened_def div_signed_def)
qed (use w in \<open>simp_all add: widened_def div_signed_def signed_of_widen [OF w(1,2)] n d unsigned_of_narrow\<close>)

lemma unsigned_of_zero [simp]: "unsigned_of w 0 = 0"
  by (simp add: unsigned_of_def)

lemma div_spec_one:
  assumes "1 < w" "n < 2 ^ w"
  shows "div_spec k w n 1 = (if div_rem k then 0 else n)"
  using assms signed_of_small [of 1 w] one_less_power [of "2::nat" "w - 1"]
  by (cases k) (simp_all add: div_rem_def signed_modulo_int_def)

lemma div_spec_minus_one:
  assumes "signed_of w d = - 1" "div_signed k"
  shows "div_spec k w n d = (if div_rem k then 0 else w_sub w 0 n)"
  using assms by (cases k) (simp_all add: div_rem_def div_signed_def sdiv_neg [of _ 1, simplified]
      w_sub_zero signed_modulo_int_def)

lemma rewrite_div_narrow:
  assumes w: "w = 8 \<or> w = 16" and n: "n < 2 ^ w" and d: "2 \<le> d" "d < 2 ^ w"
    and sd: "div_signed k \<Longrightarrow> 2 \<le> \<bar>signed_of w d\<bar>"
  shows "\<exists>m. expand k 32 (CastOp (if div_signed k then OpSExt else OpZExt) Dividend 32) (widened k w d) = Some m \<and>
    yields (w, n) [] (do {
      wide \<leftarrow> emit (CastOp (if div_signed k then OpSExt else OpZExt) Dividend 32);
      wide_result \<leftarrow> m;
      emit (CastOp OpTrunc wide_result w)
    }) (w, div_spec k w n d)"
proof -
  let ?wide = "CastOp (if div_signed k then OpSExt else OpZExt) Dividend 32"
  have w0: "0 < w" "w < 32" "1 < w" using w by auto
  have le: "(2::nat) ^ w \<le> 2 ^ 32" using w0 by (intro power_increasing) simp_all
  have den: "den (w, n) ?wide = Some (32, widened k w n)"
    using w0 by (simp add: iv_defs widened_def)
  have wn: "widened k w m < 2 ^ 32" if "m < 2 ^ w" for m
    using that le unsigned_of_bound [of 32 "signed_of w m"] by (auto simp: widened_def intro: less_le_trans)
  have "signed_of 32 (widened k w d) = signed_of w d" if "div_signed k"
    using that by (simp add: widened_def signed_of_widen [OF w0(1,2) d(2)])
  then have sd': "div_signed k \<Longrightarrow> 2 \<le> \<bar>signed_of 32 (widened k w d)\<bar>" using sd by simp
  have "2 \<le> widened k w d"
  proof (cases "div_signed k")
    case True
    have "widened k w d \<noteq> i" if "i = 0 \<or> i = 1" for i
      using sd' [OF True] that by (auto simp: signed_of_small)
    then have "widened k w d \<noteq> 0" "widened k w d \<noteq> 1" by blast+
    then show ?thesis by linarith
  qed (use d in \<open>simp add: widened_def\<close>)
  then obtain m where m: "expand k 32 ?wide (widened k w d) = Some m"
    "\<And>block. block_ok (w, n) block \<Longrightarrow> avail block ?wide \<Longrightarrow>
      yields (w, n) block m (32, div_spec k 32 (widened k w n) (widened k w d))"
    using expand_correct [OF _ den wn [OF n] _ wn [OF d(2)] sd'] by blast
  have ok: "block_ok (w, n) [?wide]" using den block_ok_snoc [of "(w, n)" "[]" ?wide] by simp
  have av: "avail [?wide] ?wide" by (simp add: avail_def)
  have "yields (w, n) [] (do {
      wide \<leftarrow> emit ?wide;
      wide_result \<leftarrow> m;
      emit (CastOp OpTrunc wide_result w)
    }) (w, div_spec k w n d)"
    using den w0 div_spec_widened [OF w0(1,2) n d(2), of k]
    by (intro yields_emit_bind yields_bind [OF m(2)] yields_emit)
      (use ok av in \<open>simp_all add: iv_defs\<close>)
  then show ?thesis using m(1) by blast
qed

lemma rewrite_div_cases:
  assumes w: "co_width c \<in> {8, 16, 32, 64}" and d: "co_masked c \<noteq> 0" and n: "n < 2 ^ co_width c"
  shows "\<exists>m. rewrite_div (Some k) (Some c) = Some (replace_with m) \<and>
    yields (co_width c, n) [] m (co_width c, div_spec k (co_width c) n (co_masked c)) \<or>
    rewrite_div (Some k) (Some c) = Some (Replaced [] Dividend) \<and>
    div_spec k (co_width c) n (co_masked c) = n"
proof -
  let ?w = "co_width c" and ?d = "co_masked c"
  have w0: "0 < ?w" "1 < ?w" "?w < 128" using w by auto
  have db: "?d < 2 ^ ?w" using w0 by (simp add: co_masked_def mask_to_width_bound)
  have sd: "co_signed c = signed_of ?w ?d" using w0 by (simp add: co_signed_masked)
  have const: "yields (?w, n) [] (emit_const ?w 0) (?w, 0)"
    using w0 by (simp add: yields_def emit_defs mask_to_width_id block_ok_def avail_def)
  consider (one) "?d = 1" | (neg) "?d \<noteq> 1" "div_signed k" "signed_of ?w ?d = - 1"
    | (gen) "2 \<le> ?d" "\<not> (div_signed k \<and> signed_of ?w ?d = - 1)" using d by linarith
  then show ?thesis
  proof cases
    case one
    then show ?thesis using w const div_spec_one [OF w0(2) n, of k]
      by (auto simp: rewrite_div_def Let_def)
  next
    case neg
    have "yields (?w, n) [] (do { zero \<leftarrow> emit_const ?w 0; emit_sub zero Dividend }) (?w, w_sub ?w 0 n)"
      by (rule yields_bind [OF const]) (simp add: yields_def emit_defs iv_defs)
    then show ?thesis using w d neg const div_spec_minus_one [OF neg(3,2), of n]
      by (auto simp: rewrite_div_def Let_def sd)
  next
    case gen
    then have ge: "div_signed k \<Longrightarrow> 2 \<le> \<bar>signed_of ?w ?d\<bar>" using signed_of_ge2 [OF w0(2) db d] by simp
    show ?thesis
    proof (cases "?w < 32")
      case True
      have wd: "widened k ?w ?d = (if div_signed k then mask_to_width (u128_of_i128 (co_signed c)) 32 else ?d)"
        by (simp add: widened_def sd mask_u128_of_i128)
      have w8: "?w = 8 \<or> ?w = 16" using w True by auto
      obtain m where m: "expand k 32 (CastOp (if div_signed k then OpSExt else OpZExt) Dividend 32) (widened k ?w ?d) = Some m"
        "yields (?w, n) [] (do {
            wide \<leftarrow> emit (CastOp (if div_signed k then OpSExt else OpZExt) Dividend 32);
            wide_result \<leftarrow> m;
            emit (CastOp OpTrunc wide_result ?w)
          }) (?w, div_spec k ?w n ?d)"
        using rewrite_div_narrow [OF w8 n gen(1) db ge] by blast
      have "rewrite_div (Some k) (Some c) = Some (replace_with (do {
            wide \<leftarrow> emit (CastOp (if div_signed k then OpSExt else OpZExt) Dividend 32);
            wide_result \<leftarrow> m;
            emit (CastOp OpTrunc wide_result ?w)
          }))"
        using w d True gen m(1) unfolding wd by (auto simp: rewrite_div_def Let_def sd)
      then show ?thesis using m(2) by blast
    next
      case False
      then have w32: "?w = 32 \<or> ?w = 64" using w by auto
      obtain m where m: "expand k ?w Dividend ?d = Some m"
        "yields (?w, n) [] m (?w, div_spec k ?w n ?d)"
        using expand_correct [OF w32 _ n gen(1) db ge, of "(?w, n)" Dividend k]
        by (metis avail_Dividend block_ok_Nil den.simps(1))
      have "rewrite_div (Some k) (Some c) = Some (replace_with m)"
        using w d False gen m(1) by (auto simp: rewrite_div_def Let_def sd)
      then show ?thesis using m(2) by blast
    qed
  qed
qed

text \<open>
  (C1) The division strength reduction is correct: for every one of the four
  division ops, at every integer width the pass handles and every non-zero
  constant divisor, the rewrite ends, the block it inserts runs without poison,
  and the value the divide is replaced by is LLVM's quotient or remainder.
\<close>

theorem rewrite_div_correct:
  assumes "co_width c \<in> {8, 16, 32, 64}" and "co_masked c \<noteq> 0" and "n < 2 ^ co_width c"
  shows "\<exists>block v env. rewrite_div (Some k) (Some c) = Some (Replaced block v) \<and>
    run_block (init_env (co_width c, n)) block = Some env \<and>
    env v = Some (co_width c, div_spec k (co_width c) n (co_masked c))"
  using rewrite_div_cases [OF assms, of k]
proof (elim exE disjE conjE)
  fix m
  assume "rewrite_div (Some k) (Some c) = Some (replace_with m)"
    and "yields (co_width c, n) [] m (co_width c, div_spec k (co_width c) n (co_masked c))"
  then show ?thesis using yields_replace by metis
qed (simp add: init_env_def)

theorem rewrite_div_correct_witness:
  "\<exists>block v env. rewrite_div (Some SDiv) (Some \<lparr>co_bits = 0xF9, co_width = 8, co_ty = IntegerType 8 Signless\<rparr>) = Some (Replaced block v) \<and>
    run_block (init_env (8, 100)) block = Some env \<and> env v = Some (8, 242)"
proof -
  have c: "co_masked \<lparr>co_bits = 0xF9, co_width = 8, co_ty = IntegerType 8 Signless\<rparr> = 0xF9"
    by (simp add: co_masked_def mask_to_width_mod)
  then have "co_masked \<lparr>co_bits = 0xF9, co_width = 8, co_ty = IntegerType 8 Signless\<rparr> \<noteq> 0" by simp
  moreover have "div_spec SDiv 8 100 0xF9 = 242" by (simp add: signed_of_def unsigned_of_def signed_divide_int_def)
  ultimately show ?thesis
    using rewrite_div_correct [of "\<lparr>co_bits = 0xF9, co_width = 8, co_ty = IntegerType 8 Signless\<rparr>" 100 SDiv] by (simp add: c)
qed

text \<open>Exactly which ops the pass leaves in place.\<close>

theorem rewrite_div_unchanged:
  "rewrite_div k d = Some Unchanged \<longleftrightarrow>
    k = None \<or> d = None \<or> (\<exists>c. d = Some c \<and> (co_width c \<notin> {8, 16, 32, 64} \<or> co_masked c = 0))"
proof (cases k; cases d)
  fix kk c assume k: "k = Some kk" and d: "d = Some c"
  have repl: "replace_with m \<noteq> Unchanged" for m
    by (cases "run_state m []") (simp add: replace_with_def)
  have "rewrite_div k d \<noteq> Some Unchanged" if "co_width c \<in> {8, 16, 32, 64}" "co_masked c \<noteq> 0"
    using rewrite_div_cases [OF that, of 0 kk] k d by (auto simp: repl)
  then show ?thesis using k d by (auto simp: rewrite_div_def Let_def)
qed (simp_all add: rewrite_div_def)

theorem rewrite_div_unchanged_witness:
  "rewrite_div (Some SDiv) (Some \<lparr>co_bits = 6, co_width = 24, co_ty = IntegerType 24 Signless\<rparr>) = Some Unchanged"
  by (subst rewrite_div_unchanged) simp

end
