(* ===== verification/Simplify.thy ===== *)
theory Simplify
  imports Llvm_Int Div_Magic "HOL-Library.Monad_Syntax"
begin

unbundle bit_operations_syntax

text \<open>
  The folds of the mid-end simplifier, from
  \<^verbatim>\<open>crates/pliron-ll/src/passes/llvm/simplify.rs\<close>: \<^verbatim>\<open>fold_op\<close> and
  everything it dispatches to.  A value is represented by its defining op, whose
  operands are values again; a fold returns the value the op's result is
  replaced by (or the op with its operands updated in place), and \<open>None\<close> where the
  code returns \<open>false\<close>.  The refinement theorem at the end is that a fold never
  changes the value of an op that has one.
\<close>

subsection \<open>Values\<close>

datatype llty =
    IntT int_ty
  | PtrT
  | AggT "llty list"
  | OpaqueT nat

datatype int_op =
    AddOp | SubOp | MulOp | AndOp | OrOp | XorOp | ShlOp | LShrOp | AShrOp
  | UDivOp | SDivOp | URemOp | SRemOp

datatype icmp_predicate = EQ | NE | ULT | ULE | UGT | UGE | SLT | SLE | SGT | SGE

datatype int_cast = ZExtOp | SExtOp | TruncOp

text \<open>\<open>Intermediate\<close> ops carry their \<open>nuw\<close>/\<open>nsw\<close> flags; an argument its number and type.\<close>

datatype sval =
    Argument nat llty
  | ConstantV nat int_ty
  | IntBin int_op bool bool sval sval
  | ICmp icmp_predicate sval sval
  | IntCast int_cast sval llty
  | Undef llty
  | InsertValue sval sval "nat list"
  | ExtractValue sval "nat list" llty
  | GetElementPtr sval "gep_index list" llty
  | OpaqueOp nat "sval list" llty
and gep_index =
    GepConstant nat
  | GepValue sval

definition i1 :: int_ty where
  "i1 = IntegerType 1 Signless"

definition operand_ty :: "llty \<Rightarrow> nat \<Rightarrow> llty" where
  "operand_ty t i = (case t of AggT ts \<Rightarrow> if i < length ts then ts ! i else OpaqueT 0 | _ \<Rightarrow> OpaqueT 0)"

fun val_ty :: "sval \<Rightarrow> llty" where
  "val_ty (Argument i t) = t"
| "val_ty (ConstantV bits t) = IntT t"
| "val_ty (IntBin op nuw nsw x y) = val_ty x"
| "val_ty (ICmp p x y) = IntT i1"
| "val_ty (IntCast c x t) = t"
| "val_ty (Undef t) = t"
| "val_ty (InsertValue agg x is) = val_ty agg"
| "val_ty (ExtractValue agg is t) = t"
| "val_ty (GetElementPtr b is t) = PtrT"
| "val_ty (OpaqueOp k xs t) = t"

definition as_const_operand :: "sval \<Rightarrow> const_operand option" where
  "as_const_operand v = (case v of
     ConstantV bits ty \<Rightarrow> Some \<lparr>co_bits = bits, co_width = it_width ty, co_ty = ty\<rparr>
   | _ \<Rightarrow> None)"

text \<open>\<open>replace_with_constant\<close>: the bits are masked to the width of the type.\<close>

definition replace_with_constant :: "int_ty \<Rightarrow> nat \<Rightarrow> sval" where
  "replace_with_constant ty bits = ConstantV (mask_to_width bits (it_width ty)) ty"

subsection \<open>The folds\<close>

definition u128_wrapping_add :: "nat \<Rightarrow> nat \<Rightarrow> nat" where
  "u128_wrapping_add l r = (l + r) mod 2 ^ 128"

definition u128_wrapping_sub :: "nat \<Rightarrow> nat \<Rightarrow> nat" where
  "u128_wrapping_sub l r = nat ((int l - int r) mod 2 ^ 128)"

definition u128_wrapping_mul :: "nat \<Rightarrow> nat \<Rightarrow> nat" where
  "u128_wrapping_mul l r = (l * r) mod 2 ^ 128"

definition i128_wrapping_div :: "int \<Rightarrow> int \<Rightarrow> int" where
  "i128_wrapping_div l r = (if l = - (2 ^ 127) \<and> r = - 1 then - (2 ^ 127) else l sdiv r)"

definition i128_wrapping_rem :: "int \<Rightarrow> int \<Rightarrow> int" where
  "i128_wrapping_rem l r = (if l = - (2 ^ 127) \<and> r = - 1 then 0 else l smod r)"

definition fold_icmp :: "icmp_predicate \<Rightarrow> sval \<Rightarrow> sval \<Rightarrow> sval option" where
  "fold_icmp predicate lhs_v rhs_v =
     (case (as_const_operand lhs_v, as_const_operand rhs_v) of
        (Some lhs, Some rhs) \<Rightarrow>
          let result = (case predicate of
              EQ \<Rightarrow> co_masked lhs = co_masked rhs
            | NE \<Rightarrow> co_masked lhs \<noteq> co_masked rhs
            | ULT \<Rightarrow> co_masked lhs < co_masked rhs
            | ULE \<Rightarrow> co_masked lhs \<le> co_masked rhs
            | UGT \<Rightarrow> co_masked lhs > co_masked rhs
            | UGE \<Rightarrow> co_masked lhs \<ge> co_masked rhs
            | SLT \<Rightarrow> co_signed lhs < co_signed rhs
            | SLE \<Rightarrow> co_signed lhs \<le> co_signed rhs
            | SGT \<Rightarrow> co_signed lhs > co_signed rhs
            | SGE \<Rightarrow> co_signed lhs \<ge> co_signed rhs)
          in Some (replace_with_constant i1 (if result then 1 else 0))
      | _ \<Rightarrow> None)"

text \<open>The constant-folding table of \<open>fold_int_binary\<close>; \<open>None\<close> where it bails out.\<close>

definition fold_bits :: "int_op \<Rightarrow> const_operand \<Rightarrow> const_operand \<Rightarrow> nat option" where
  "fold_bits opid lhs rhs =
     (let width = co_width lhs; l = co_masked lhs; r = co_masked rhs in
      case opid of
        AddOp \<Rightarrow> Some (u128_wrapping_add l r)
      | SubOp \<Rightarrow> Some (u128_wrapping_sub l r)
      | MulOp \<Rightarrow> Some (u128_wrapping_mul l r)
      | AndOp \<Rightarrow> Some (l AND r)
      | OrOp \<Rightarrow> Some (l OR r)
      | XorOp \<Rightarrow> Some (l XOR r)
      | ShlOp \<Rightarrow> if r \<ge> width then None else Some (l * 2 ^ r mod 2 ^ 128)
      | LShrOp \<Rightarrow> if r \<ge> width then None else Some (l div 2 ^ r)
      | AShrOp \<Rightarrow> if r \<ge> width then None else Some (u128_of_i128 (sign_extend l width div 2 ^ r))
      | UDivOp \<Rightarrow> if r = 0 then None else Some (l div r)
      | URemOp \<Rightarrow> if r = 0 then None else Some (l mod r)
      | SDivOp \<Rightarrow> if r = 0 then None
                 else Some (u128_of_i128 (i128_wrapping_div (co_signed lhs) (co_signed rhs)))
      | SRemOp \<Rightarrow> if r = 0 then None
                 else Some (u128_of_i128 (i128_wrapping_rem (co_signed lhs) (co_signed rhs))))"

text \<open>
  The inner op of a reassociation: the left operand is the same op with a
  non-constant left and a constant right operand.
\<close>

definition reassociable :: "int_op \<Rightarrow> sval \<Rightarrow> (sval \<times> const_operand) option" where
  "reassociable opid lhs_v = (case lhs_v of
     IntBin opid' nuw nsw inner_lhs inner_rhs \<Rightarrow>
       if opid' = opid \<and> as_const_operand inner_lhs = None
       then map_option (Pair inner_lhs) (as_const_operand inner_rhs) else None
   | _ \<Rightarrow> None)"

definition simplify_partial_const :: "int_op \<Rightarrow> bool \<Rightarrow> bool \<Rightarrow> sval \<Rightarrow> sval \<Rightarrow> sval option" where
  "simplify_partial_const opid nuw nsw lhs_v rhs_v =
     (let is_add = (opid = AddOp); is_mul = (opid = MulOp) in
      if (is_add \<or> is_mul) \<and> as_const_operand lhs_v \<noteq> None \<and> as_const_operand rhs_v = None
      then Some (IntBin opid nuw nsw rhs_v lhs_v)
      else case as_const_operand rhs_v of None \<Rightarrow> None | Some rhs \<Rightarrow>
      if as_const_operand lhs_v \<noteq> None then None
      else let c = co_masked rhs; width = co_width rhs;
               identity = (c = 0 \<and> (is_add \<or> opid = SubOp \<or> opid = OrOp \<or> opid = XorOp \<or> opid = ShlOp
                                    \<or> opid = LShrOp \<or> opid = AShrOp)) \<or> (c = 1 \<and> is_mul) in
      if identity then Some lhs_v
      else if c = 0 \<and> (is_mul \<or> opid = AndOp) then Some (replace_with_constant (co_ty rhs) 0)
      else if \<not> (is_add \<or> is_mul) then None
      else case reassociable opid lhs_v of
        Some (inner_lhs, inner_c) \<Rightarrow>
          let combined = (if is_add then u128_wrapping_add (co_masked inner_c) c
                          else u128_wrapping_mul (co_masked inner_c) c)
          in Some (IntBin opid False False inner_lhs (ConstantV (mask_to_width combined width) (co_ty rhs)))
      | None \<Rightarrow>
          if is_mul \<and> is_power_of_two c
          then Some (IntBin ShlOp False False lhs_v (ConstantV (trailing_zeros c) (co_ty rhs)))
          else None)"

definition fold_int_binary :: "int_op \<Rightarrow> bool \<Rightarrow> bool \<Rightarrow> sval \<Rightarrow> sval \<Rightarrow> sval option" where
  "fold_int_binary opid nuw nsw lhs_v rhs_v =
     (case (as_const_operand lhs_v, as_const_operand rhs_v) of
        (Some lhs, Some rhs) \<Rightarrow> map_option (replace_with_constant (co_ty lhs)) (fold_bits opid lhs rhs)
      | _ \<Rightarrow> simplify_partial_const opid nuw nsw lhs_v rhs_v)"

definition fold_int_cast :: "int_cast \<Rightarrow> sval \<Rightarrow> llty \<Rightarrow> sval option" where
  "fold_int_cast opid input result_ty =
     (let constant = (case as_const_operand input of None \<Rightarrow> None | Some c \<Rightarrow>
        (case result_ty of
           IntT ity \<Rightarrow> Some (replace_with_constant ity
             (if opid = SExtOp then u128_of_i128 (co_signed c) else co_masked c))
         | _ \<Rightarrow> None)) in
      if opid = TruncOp then
        (case input of
           IntCast ZExtOp source t \<Rightarrow> if val_ty source = result_ty then Some source else constant
         | _ \<Rightarrow> constant)
      else constant)"

text \<open>The walk up the chain of \<open>insertvalue\<close> ops.\<close>

definition same_prefix :: "nat list \<Rightarrow> nat list \<Rightarrow> bool" where
  "same_prefix xs ys = (let min_len = min (length xs) (length ys) in take min_len xs = take min_len ys)"

fun extract_chain :: "nat list \<Rightarrow> llty \<Rightarrow> sval \<Rightarrow> sval option" where
  "extract_chain indices result_ty (Undef t) = Some (Undef result_ty)"
| "extract_chain indices result_ty (InsertValue agg x insert_indices) =
     (if insert_indices = indices then Some x
      else if same_prefix indices insert_indices then None
      else extract_chain indices result_ty agg)"
| "extract_chain indices result_ty _ = None"

definition fold_extractvalue :: "sval \<Rightarrow> nat list \<Rightarrow> llty \<Rightarrow> sval option" where
  "fold_extractvalue aggregate indices result_ty = extract_chain indices result_ty aggregate"

fun gep_aggregate_chain :: "sval \<Rightarrow> sval option" where
  "gep_aggregate_chain (InsertValue agg pointer indices) =
     (if indices = [0] then (if val_ty pointer = PtrT then Some pointer else None)
      else if indices \<noteq> [] \<and> hd indices = 0 then None
      else gep_aggregate_chain agg)"
| "gep_aggregate_chain _ = None"

definition fold_gep_aggregate_base :: "sval \<Rightarrow> gep_index list \<Rightarrow> llty \<Rightarrow> sval option" where
  "fold_gep_aggregate_base aggregate indices elem_ty =
     (if val_ty aggregate = PtrT then None
      else map_option (\<lambda>pointer. GetElementPtr pointer indices elem_ty) (gep_aggregate_chain aggregate))"

text \<open>\<open>checked_add\<close> on the \<open>u32\<close> index of \<open>GepIndex::Constant\<close>.\<close>

definition u32_checked_add :: "nat \<Rightarrow> nat \<Rightarrow> nat option" where
  "u32_checked_add a b = (if a + b < 2 ^ 32 then Some (a + b) else None)"

definition flatten_gep_of_gep :: "sval \<Rightarrow> gep_index list \<Rightarrow> llty \<Rightarrow> sval option" where
  "flatten_gep_of_gep base indices elem_ty =
     (case indices of
        [GepConstant outer_index] \<Rightarrow>
          (case base of
             GetElementPtr inner_base inner_indices inner_elem_ty \<Rightarrow>
               if inner_elem_ty \<noteq> elem_ty then None
               else (case inner_indices of
                   [GepConstant inner_index] \<Rightarrow>
                     map_option (\<lambda>sum. GetElementPtr inner_base [GepConstant sum] elem_ty)
                       (u32_checked_add inner_index outer_index)
                 | _ \<Rightarrow> None)
           | _ \<Rightarrow> None)
      | _ \<Rightarrow> None)"

definition fold_op :: "sval \<Rightarrow> sval option" where
  "fold_op v = (case v of
     ICmp p x y \<Rightarrow> fold_icmp p x y
   | IntBin op nuw nsw x y \<Rightarrow> fold_int_binary op nuw nsw x y
   | IntCast c x t \<Rightarrow> fold_int_cast c x t
   | ExtractValue agg is t \<Rightarrow> fold_extractvalue agg is t
   | GetElementPtr b is t \<Rightarrow>
       (case fold_gep_aggregate_base b is t of Some r \<Rightarrow> Some r | None \<Rightarrow> flatten_gep_of_gep b is t)
   | _ \<Rightarrow> None)"

subsection \<open>Semantics\<close>

datatype rv =
    IntR nat nat
  | PtrR nat
  | AggR "rv list"
  | OpaqueR nat
  | UndefR

text \<open>A type's \<open>undef\<close>, and the values of a type.\<close>

fun undef_of :: "llty \<Rightarrow> rv" where
  "undef_of (AggT ts) = AggR (map undef_of ts)"
| "undef_of _ = UndefR"

fun fits :: "rv \<Rightarrow> llty \<Rightarrow> bool" where
  "fits (IntR w b) (IntT t) \<longleftrightarrow> w = it_width t \<and> 0 < w \<and> w \<le> 128 \<and> b < 2 ^ w"
| "fits (PtrR a) PtrT \<longleftrightarrow> a < 2 ^ 64"
| "fits (AggR vs) (AggT ts) \<longleftrightarrow> list_all2 fits vs ts"
| "fits (OpaqueR n) (OpaqueT k) \<longleftrightarrow> True"
| "fits UndefR t \<longleftrightarrow> (\<forall>ts. t \<noteq> AggT ts)"
| "fits _ _ \<longleftrightarrow> False"

definition in_signed :: "nat \<Rightarrow> int \<Rightarrow> bool" where
  "in_signed w i \<longleftrightarrow> - (2 ^ (w - 1)) \<le> i \<and> i < 2 ^ (w - 1)"

definition flag_violated :: "bool \<Rightarrow> bool \<Rightarrow> nat \<Rightarrow> int \<Rightarrow> int \<Rightarrow> bool" where
  "flag_violated nuw nsw w u s \<longleftrightarrow> (nuw \<and> (u < 0 \<or> 2 ^ w \<le> u)) \<or> (nsw \<and> \<not> in_signed w s)"

text \<open>\<open>None\<close>: poison (a violated flag, a shift by the width or more) or undefined behaviour.\<close>

fun int_sem :: "int_op \<Rightarrow> bool \<Rightarrow> bool \<Rightarrow> nat \<Rightarrow> nat \<Rightarrow> nat \<Rightarrow> nat option" where
  "int_sem AddOp nuw nsw w l r =
     (if flag_violated nuw nsw w (int l + int r) (signed_of w l + signed_of w r) then None
      else Some (w_add w l r))"
| "int_sem SubOp nuw nsw w l r =
     (if flag_violated nuw nsw w (int l - int r) (signed_of w l - signed_of w r) then None
      else Some (w_sub w l r))"
| "int_sem MulOp nuw nsw w l r =
     (if flag_violated nuw nsw w (int l * int r) (signed_of w l * signed_of w r) then None
      else Some (w_mul w l r))"
| "int_sem AndOp nuw nsw w l r = Some (l AND r)"
| "int_sem OrOp nuw nsw w l r = Some (l OR r)"
| "int_sem XorOp nuw nsw w l r = Some (l XOR r)"
| "int_sem ShlOp nuw nsw w l r =
     (if w \<le> r \<or> flag_violated nuw nsw w (int l * 2 ^ r) (signed_of w l * 2 ^ r) then None
      else Some (w_mul w l (2 ^ r)))"
| "int_sem LShrOp nuw nsw w l r = (if w \<le> r then None else Some (w_lshr l r))"
| "int_sem AShrOp nuw nsw w l r = (if w \<le> r then None else Some (w_ashr w l r))"
| "int_sem UDivOp nuw nsw w l r = (if r = 0 then None else Some (l div r))"
| "int_sem URemOp nuw nsw w l r = (if r = 0 then None else Some (l mod r))"
| "int_sem SDivOp nuw nsw w l r =
     (if r = 0 \<or> \<not> in_signed w (signed_of w l sdiv signed_of w r) then None
      else Some (unsigned_of w (signed_of w l sdiv signed_of w r)))"
| "int_sem SRemOp nuw nsw w l r =
     (if r = 0 \<or> \<not> in_signed w (signed_of w l sdiv signed_of w r) then None
      else Some (unsigned_of w (signed_of w l smod signed_of w r)))"

fun icmp_sem :: "icmp_predicate \<Rightarrow> nat \<Rightarrow> nat \<Rightarrow> nat \<Rightarrow> bool" where
  "icmp_sem EQ w l r \<longleftrightarrow> l = r"
| "icmp_sem NE w l r \<longleftrightarrow> l \<noteq> r"
| "icmp_sem ULT w l r \<longleftrightarrow> l < r"
| "icmp_sem ULE w l r \<longleftrightarrow> l \<le> r"
| "icmp_sem UGT w l r \<longleftrightarrow> l > r"
| "icmp_sem UGE w l r \<longleftrightarrow> l \<ge> r"
| "icmp_sem SLT w l r \<longleftrightarrow> signed_of w l < signed_of w r"
| "icmp_sem SLE w l r \<longleftrightarrow> signed_of w l \<le> signed_of w r"
| "icmp_sem SGT w l r \<longleftrightarrow> signed_of w l > signed_of w r"
| "icmp_sem SGE w l r \<longleftrightarrow> signed_of w l \<ge> signed_of w r"

fun int_cast_sem :: "int_cast \<Rightarrow> nat \<Rightarrow> nat \<Rightarrow> nat \<Rightarrow> nat option" where
  "int_cast_sem ZExtOp w b w' = (if w < w' then Some b else None)"
| "int_cast_sem SExtOp w b w' = (if w < w' then Some (unsigned_of w' (signed_of w b)) else None)"
| "int_cast_sem TruncOp w b w' = (if w' < w then Some (b mod 2 ^ w') else None)"

fun extract_at :: "nat list \<Rightarrow> rv \<Rightarrow> rv option" where
  "extract_at [] v = Some v"
| "extract_at (i # is) (AggR vs) = (if i < length vs then extract_at is (vs ! i) else None)"
| "extract_at (i # is) _ = None"

fun insert_at :: "nat list \<Rightarrow> rv \<Rightarrow> rv \<Rightarrow> rv option" where
  "insert_at [] x v = Some x"
| "insert_at (i # is) x (AggR vs) =
     (if i < length vs then map_option (\<lambda>y. AggR (vs[i := y])) (insert_at is x (vs ! i)) else None)"
| "insert_at (i # is) x _ = None"

text \<open>
  What the simplifier does not look at is a parameter of the semantics: the
  arguments, the opaque ops, the size of a type and the offset of a path of
  further indices into it.
\<close>

record model =
  arg_val :: "nat \<Rightarrow> rv option"
  opaque_val :: "nat \<Rightarrow> rv list \<Rightarrow> rv option"
  type_size :: "llty \<Rightarrow> nat"
  path_offset :: "llty \<Rightarrow> int list \<Rightarrow> int"

definition checked :: "llty \<Rightarrow> rv option \<Rightarrow> rv option" where
  "checked t r = (case r of Some v \<Rightarrow> if fits v t then Some v else None | None \<Rightarrow> None)"

definition int_bin_rv :: "int_op \<Rightarrow> bool \<Rightarrow> bool \<Rightarrow> rv \<Rightarrow> rv \<Rightarrow> rv option" where
  "int_bin_rv op nuw nsw x y = (case (x, y) of
     (IntR w l, IntR w' r) \<Rightarrow> if w = w' then map_option (IntR w) (int_sem op nuw nsw w l r) else None
   | _ \<Rightarrow> None)"

definition icmp_rv :: "icmp_predicate \<Rightarrow> rv \<Rightarrow> rv \<Rightarrow> rv option" where
  "icmp_rv p x y = (case (x, y) of
     (IntR w l, IntR w' r) \<Rightarrow> if w = w' then Some (IntR 1 (if icmp_sem p w l r then 1 else 0)) else None
   | _ \<Rightarrow> None)"

definition int_cast_rv :: "int_cast \<Rightarrow> llty \<Rightarrow> rv \<Rightarrow> rv option" where
  "int_cast_rv c t x = (case (x, t) of
     (IntR w b, IntT ty) \<Rightarrow> map_option (IntR (it_width ty)) (int_cast_sem c w b (it_width ty))
   | _ \<Rightarrow> None)"

text \<open>A gep on an aggregate addresses through the aggregate's first field.\<close>

fun base_address :: "rv \<Rightarrow> nat option" where
  "base_address (PtrR a) = Some a"
| "base_address (AggR (PtrR a # vs)) = Some a"
| "base_address _ = None"

fun index_value :: "rv \<Rightarrow> int option" where
  "index_value (IntR w b) = Some (signed_of w b)"
| "index_value _ = None"

fun gep_offset :: "model \<Rightarrow> llty \<Rightarrow> int list \<Rightarrow> int" where
  "gep_offset M t [] = 0"
| "gep_offset M t [i] = i * int (type_size M t)"
| "gep_offset M t (i # j # is) = i * int (type_size M t) + path_offset M t (j # is)"

definition gep_rv :: "model \<Rightarrow> llty \<Rightarrow> rv \<Rightarrow> int list \<Rightarrow> rv option" where
  "gep_rv M t b is = map_option (\<lambda>a. PtrR (unsigned_of 64 (int a + gep_offset M t is))) (base_address b)"

fun den :: "model \<Rightarrow> sval \<Rightarrow> rv option" and den_index :: "model \<Rightarrow> gep_index \<Rightarrow> int option" where
  "den M (Argument i t) = checked t (arg_val M i)"
| "den M (ConstantV bits t) = checked (IntT t) (Some (IntR (it_width t) bits))"
| "den M (IntBin op nuw nsw x y) = do { a \<leftarrow> den M x; b \<leftarrow> den M y; int_bin_rv op nuw nsw a b }"
| "den M (ICmp p x y) = do { a \<leftarrow> den M x; b \<leftarrow> den M y; icmp_rv p a b }"
| "den M (IntCast c x t) = Option.bind (den M x) (int_cast_rv c t)"
| "den M (Undef t) = Some (undef_of t)"
| "den M (InsertValue agg x is) = do { a \<leftarrow> den M agg; b \<leftarrow> den M x; insert_at is b a }"
| "den M (ExtractValue agg is t) = Option.bind (den M agg) (extract_at is)"
| "den M (GetElementPtr b is t) = do { a \<leftarrow> den M b; js \<leftarrow> those (map (den_index M) is); gep_rv M t a js }"
| "den M (OpaqueOp k xs t) = checked t (Option.bind (those (map (den M) xs)) (opaque_val M k))"
| "den_index M (GepConstant c) = Some (int c)"
| "den_index M (GepValue v) = Option.bind (den M v) index_value"

text \<open>
  What the IR verifier guarantees of an op's types: operands of one integer
  type, widths that grow or shrink with the cast, paths that exist.
\<close>

fun subty :: "llty \<Rightarrow> nat list \<Rightarrow> llty option" where
  "subty t [] = Some t"
| "subty (AggT ts) (i # is) = (if i < length ts then subty (ts ! i) is else None)"
| "subty _ (i # is) = None"

definition int_typed :: "llty \<Rightarrow> bool" where
  "int_typed t \<longleftrightarrow> (\<exists>ty. t = IntT ty \<and> 0 < it_width ty \<and> it_width ty \<le> 128)"

fun well_typed :: "sval \<Rightarrow> bool" and well_typed_index :: "gep_index \<Rightarrow> bool" where
  "well_typed (Argument i t) \<longleftrightarrow> True"
| "well_typed (ConstantV bits t) \<longleftrightarrow> 0 < it_width t \<and> it_width t \<le> 128 \<and> bits < 2 ^ it_width t"
| "well_typed (IntBin op nuw nsw x y) \<longleftrightarrow>
     well_typed x \<and> well_typed y \<and> val_ty x = val_ty y \<and> int_typed (val_ty x)"
| "well_typed (ICmp p x y) \<longleftrightarrow> well_typed x \<and> well_typed y \<and> val_ty x = val_ty y"
| "well_typed (IntCast c x t) \<longleftrightarrow> well_typed x \<and> int_typed (val_ty x) \<and> int_typed t"
| "well_typed (Undef t) \<longleftrightarrow> True"
| "well_typed (InsertValue agg x is) \<longleftrightarrow>
     well_typed agg \<and> well_typed x \<and> is \<noteq> [] \<and> subty (val_ty agg) is = Some (val_ty x)"
| "well_typed (ExtractValue agg is t) \<longleftrightarrow> well_typed agg \<and> is \<noteq> [] \<and> subty (val_ty agg) is = Some t"
| "well_typed (GetElementPtr b is t) \<longleftrightarrow> well_typed b \<and> is \<noteq> [] \<and> list_all well_typed_index is"
| "well_typed (OpaqueOp k xs t) \<longleftrightarrow> list_all well_typed xs"
| "well_typed_index (GepConstant c) \<longleftrightarrow> c < 2 ^ 32"
| "well_typed_index (GepValue v) \<longleftrightarrow> well_typed v"

subsection \<open>Values fit their types\<close>

lemma fits_undef_of [simp]: "fits (undef_of t) t"
  by (induction t) (auto simp: list_all2_conv_all_nth)

lemma fits_IntT_cases:
  assumes "fits x (IntT ty)"
  obtains b where "x = IntR (it_width ty) b" "0 < it_width ty" "it_width ty \<le> 128" "b < 2 ^ it_width ty"
  | "x = UndefR"
  using assms by (cases x) auto

lemma extract_fits:
  "fits v t \<Longrightarrow> subty t is = Some t' \<Longrightarrow> extract_at is v = Some x \<Longrightarrow> fits x t'"
proof (induction t "is" arbitrary: v rule: subty.induct)
  case (2 ts i "is")
  then show ?case by (cases v) (auto simp: list_all2_conv_all_nth split: if_splits)
qed auto

lemma insert_fits:
  "fits v t \<Longrightarrow> subty t is = Some t' \<Longrightarrow> fits x t' \<Longrightarrow> insert_at is x v = Some y \<Longrightarrow> fits y t"
proof (induction t "is" arbitrary: v y rule: subty.induct)
  case (2 ts i "is")
  then obtain vs z where v: "v = AggR vs" "length vs = length ts" "i < length ts"
      "\<And>j. j < length ts \<Longrightarrow> fits (vs ! j) (ts ! j)"
      "insert_at is x (vs ! i) = Some z" "y = AggR (vs[i := z])"
    by (cases v) (auto simp: list_all2_conv_all_nth split: if_splits)
  have "fits z (ts ! i)" using 2 v(3) by (simp) (metis v(3-5))
  then show ?case using v by (simp add: list_all2_conv_all_nth nth_list_update)
qed auto

lemma bit_op_bound:
  fixes l r :: nat
  assumes "l < 2 ^ w" "r < 2 ^ w"
  shows "l AND r < 2 ^ w" "l OR r < 2 ^ w" "l XOR r < 2 ^ w"
proof -
  have l: "take_bit w l = l" and r: "take_bit w r = r"
    using assms by (simp_all add: take_bit_nat_eq_self_iff)
  have "take_bit w (l AND r) = l AND r" "take_bit w (l OR r) = l OR r" "take_bit w (l XOR r) = l XOR r"
    by (simp_all add: l r)
  then show "l AND r < 2 ^ w" "l OR r < 2 ^ w" "l XOR r < 2 ^ w"
    by (simp_all only: take_bit_nat_eq_self_iff)
qed

lemma int_sem_bound:
  assumes "l < 2 ^ w" "r < 2 ^ w" "int_sem op nuw nsw w l r = Some b"
  shows "b < 2 ^ w"
  using assms
  by (cases op) (auto split: if_splits simp: bit_op_bound
      intro: le_less_trans [OF div_le_dividend] le_less_trans [OF mod_less_eq_dividend])

text \<open>The integer ops only have a value on integers of one width.\<close>

lemma int_bin_rv_Some:
  "int_bin_rv op nuw nsw a b = Some x \<longleftrightarrow>
    (\<exists>w l r y. a = IntR w l \<and> b = IntR w r \<and> int_sem op nuw nsw w l r = Some y \<and> x = IntR w y)"
  by (cases a; cases b) (auto simp: int_bin_rv_def)

lemma icmp_rv_Some:
  "icmp_rv p a b = Some x \<longleftrightarrow>
    (\<exists>w l r. a = IntR w l \<and> b = IntR w r \<and> x = IntR 1 (if icmp_sem p w l r then 1 else 0))"
  by (cases a; cases b) (auto simp: icmp_rv_def)

lemma int_cast_rv_Some:
  "int_cast_rv c t a = Some x \<longleftrightarrow>
    (\<exists>w m ty y. a = IntR w m \<and> t = IntT ty \<and> int_cast_sem c w m (it_width ty) = Some y \<and>
      x = IntR (it_width ty) y)"
  by (cases a; cases t) (auto simp: int_cast_rv_def)

lemma int_bin_fits:
  assumes "fits a (IntT ty)" "fits b (IntT ty)" "int_bin_rv op nuw nsw a b = Some x"
  shows "fits x (IntT ty)"
proof -
  obtain w l r y where e: "a = IntR w l" "b = IntR w r" "int_sem op nuw nsw w l r = Some y" "x = IntR w y"
    using assms(3) by (auto simp: int_bin_rv_Some)
  then show ?thesis using assms(1,2) int_sem_bound [OF _ _ e(3)] by auto
qed

lemma cast_fits:
  assumes "fits a (IntT ty)" "int_typed (IntT ty')" "int_cast_rv c (IntT ty') a = Some x"
  shows "fits x (IntT ty')"
proof -
  have "b < 2 ^ w'" if b: "int_cast_sem c w m w' = Some b" and m: "m < 2 ^ w" for w m w' b
  proof (cases c)
    case ZExtOp
    then have "w < w'" "b = m" using b by (simp_all split: if_splits)
    then show ?thesis using m by (meson less_imp_le_nat less_le_trans one_le_numeral power_increasing)
  qed (use b in \<open>auto split: if_splits\<close>)
  then show ?thesis using assms by (auto simp: int_cast_rv_Some int_typed_def)
qed

lemma den_fits: "well_typed v \<Longrightarrow> den M v = Some x \<Longrightarrow> fits x (val_ty v)"
proof (induction v arbitrary: x rule: well_typed_well_typed_index.induct(1) [where ?Q = "\<lambda>_. True"])
  case (3 op nuw nsw a b)
  then show ?case by (auto simp: int_typed_def Option.bind_eq_Some_conv) (metis int_bin_fits)
next
  case (4 p a b)
  then show ?case
    by (auto simp: Option.bind_eq_Some_conv icmp_rv_Some i1_def)
next
  case (5 c a t)
  then show ?case by (auto simp: int_typed_def Option.bind_eq_Some_conv intro: cast_fits)
next
  case (7 agg a "is")
  then show ?case by (auto simp: Option.bind_eq_Some_conv intro: insert_fits)
next
  case (8 agg "is" t)
  then show ?case by (auto simp: Option.bind_eq_Some_conv intro: extract_fits)
next
  case (9 b "is" t)
  then show ?case by (auto simp: Option.bind_eq_Some_conv gep_rv_def unsigned_of_bound [of 64, simplified])
qed (auto simp: checked_def split: option.splits if_splits)


subsection \<open>Constant folding\<close>

lemma as_const_operand_Some:
  "as_const_operand v = Some c \<longleftrightarrow>
    v = ConstantV (co_bits c) (co_ty c) \<and> co_width c = it_width (co_ty c)"
  by (cases v) (auto simp: as_const_operand_def)

lemma checked_Some [simp]: "checked t (Some v) = Some x \<longleftrightarrow> fits v t \<and> x = v"
  by (auto simp: checked_def)

lemma signed_128: "0 < w \<Longrightarrow> w \<le> 128 \<Longrightarrow> n < 2 ^ w \<Longrightarrow> signed_of w n \<noteq> - (2 ^ 127) \<or> w = 128"
proof -
  assume w: "0 < w" "w \<le> 128" "n < 2 ^ w"
  show ?thesis
  proof (cases "w = 128")
    case False
    then have "(2::int) ^ (w - 1) < 2 ^ 127" using w by (intro power_strict_increasing) simp_all
    then show ?thesis using signed_of_bounds [OF w(1,3)] by linarith
  qed simp
qed

lemma mask_le128: "w \<le> 128 \<Longrightarrow> n < 2 ^ w \<Longrightarrow> mask_to_width n w = n"
  by (rule mask_to_width_id)

lemma fold_bits_sem:
  assumes w: "0 < w" "w \<le> 128" and l: "l < 2 ^ w" and r: "r < 2 ^ w"
    and lhs: "co_width lhs = w" "co_bits lhs = l" and rhs: "co_width rhs = w" "co_bits rhs = r"
    and b: "fold_bits op lhs rhs = Some bits" and s: "int_sem op nuw nsw w l r = Some y"
  shows "mask_to_width bits w = y"
proof -
  have m: "co_masked lhs = l" "co_masked rhs = r"
    using l r lhs rhs by (simp_all add: co_masked_def mask_to_width_id)
  have sg: "co_signed lhs = signed_of w l" "co_signed rhs = signed_of w r" "sign_extend l w = signed_of w l"
    using w l r lhs rhs by (simp_all add: co_signed_def sign_extend_signed_le)
  have bound: "y < 2 ^ w" using l r s by (rule int_sem_bound)
  have i128: "mask_to_width (u128_of_i128 i) w = unsigned_of w i" for i
    using w(2) by (rule mask_u128_of_i128_le)
  have sub: "mask_to_width (nat (i mod 2 ^ 128)) w = unsigned_of w i" for i
    using i128 [of i] by (simp add: u128_of_i128_def)
  have nodiv: "signed_of w l \<noteq> - (2 ^ 127) \<or> signed_of w r \<noteq> - 1"
    if "in_signed w (signed_of w l sdiv signed_of w r)"
  proof (rule ccontr)
    assume "\<not> ?thesis"
    then have e: "signed_of w l = - (2 ^ 127)" "signed_of w r = - 1" by blast+
    then have "w = 128" using signed_128 [OF w l] by blast
    then show False using that e by (simp add: in_signed_def)
  qed
  note defs = fold_bits_def lhs m sg Let_def i128
    and mod128 = mask_to_width_mod128 [OF w(2)]
  show ?thesis
  proof (cases op)
    case SubOp
    then show ?thesis using b s sub [of "int l - int r"]
      by (auto simp: defs u128_wrapping_sub_def w_sub_def split: if_splits)
  next
    case SDivOp
    then show ?thesis using b s nodiv by (auto simp: defs i128_wrapping_div_def split: if_splits)
  next
    case SRemOp
    then show ?thesis using b s nodiv by (auto simp: defs i128_wrapping_rem_def split: if_splits)
  next
    case AShrOp
    then show ?thesis using b s by (auto simp: defs w_ashr_def split: if_splits)
  next
    case AddOp
    then show ?thesis using b s mod128 [of "l + r"] by (auto simp: defs u128_wrapping_add_def w_add_def split: if_splits)
  next
    case MulOp
    then show ?thesis using b s mod128 [of "l * r"] by (auto simp: defs u128_wrapping_mul_def w_mul_def split: if_splits)
  next
    case ShlOp
    then show ?thesis using b s mod128 [of "l * 2 ^ r"] by (auto simp: defs w_mul_def split: if_splits)
  qed (use b s bound in \<open>auto simp: defs mask_to_width_id w_lshr_def split: if_splits\<close>)
qed


subsection \<open>Refinement\<close>

lemma fold_icmp_refines:
  assumes wt: "well_typed (ICmp p lhs_v rhs_v)" and f: "fold_icmp p lhs_v rhs_v = Some v'"
    and d: "den M (ICmp p lhs_v rhs_v) = Some x"
  shows "den M v' = Some x"
proof -
  obtain l r where c: "as_const_operand lhs_v = Some l" "as_const_operand rhs_v = Some r"
    using f by (auto simp: fold_icmp_def split: option.splits)
  note e = c [unfolded as_const_operand_Some]
  have t: "co_ty l = co_ty r" using wt e by (metis llty.inject(1) val_ty.simps(2) well_typed.simps(4))
  have b: "0 < co_width l" "co_width l \<le> 128" "co_bits l < 2 ^ co_width l" "co_bits r < 2 ^ co_width l"
    using wt e t by (metis well_typed.simps(2,4))+
  have w: "co_width r = co_width l" using e t by simp
  have m: "co_masked l = co_bits l" "co_masked r = co_bits r"
    "co_signed l = signed_of (co_width l) (co_bits l)" "co_signed r = signed_of (co_width l) (co_bits r)"
    using b by (simp_all add: co_masked_def co_signed_def w mask_to_width_id sign_extend_signed_le)
  have x: "x = IntR 1 (if icmp_sem p (co_width l) (co_bits l) (co_bits r) then 1 else 0)"
    using d by (auto simp: e(1)[THEN conjunct1] e(2)[THEN conjunct1] Option.bind_eq_Some_conv icmp_rv_Some
        e(1)[THEN conjunct2] t)
  show ?thesis using f unfolding x
    by (cases p) (auto simp: fold_icmp_def c m replace_with_constant_def i1_def mask_to_width_id)
qed

lemma w_add_comm: "w_add w l r = w_add w r l"
  by (simp add: w_add_def add.commute)

lemma w_mul_comm: "w_mul w l r = w_mul w r l"
  by (simp add: w_mul_def mult.commute)

lemma w_add_assoc: "w_add w (w_add w l m) r = w_add w l ((m + r) mod 2 ^ w)"
  by (simp add: w_add_def mod_simps add.assoc)

lemma w_mul_assoc: "w_mul w (w_mul w l m) r = w_mul w l ((m * r) mod 2 ^ w)"
  by (simp add: w_mul_def mod_simps mult.assoc)

lemma int_sem_comm:
  "op = AddOp \<or> op = MulOp \<Longrightarrow> int_sem op nuw nsw w l r = int_sem op nuw nsw w r l"
  by (auto simp: w_add_comm w_mul_comm add.commute mult.commute)

lemma no_flags [simp]: "\<not> flag_violated False False w u s"
  by (simp add: flag_violated_def)

lemma int_sem_identity:
  assumes "int_sem op nuw nsw w l c = Some y" "l < 2 ^ w" "0 < w"
    and "c = 0 \<and> op \<in> {AddOp, SubOp, OrOp, XorOp, ShlOp, LShrOp, AShrOp} \<or> c = 1 \<and> op = MulOp"
  shows "y = l"
  using assms
  by (auto simp: w_add_def w_mul_def w_lshr_def w_ashr_def w_sub_def split: if_splits)

lemma int_sem_annihilator:
  "int_sem op nuw nsw w l 0 = Some y \<Longrightarrow> op = MulOp \<or> op = AndOp \<Longrightarrow> y = 0"
  by (auto simp: w_mul_def split: if_splits)

text \<open>A constant operand of an op of width \<open>w\<close>.\<close>

lemma const_operand_int:
  assumes wt: "well_typed v" and c: "as_const_operand v = Some c"
  shows "v = ConstantV (co_masked c) (co_ty c)" "co_width c = it_width (co_ty c)"
    "0 < co_width c" "co_width c \<le> 128" "co_masked c < 2 ^ co_width c"
    "den M v = Some (IntR (co_width c) (co_masked c))"
proof -
  note e = c [unfolded as_const_operand_Some]
  have b: "0 < co_width c" "co_width c \<le> 128" "co_bits c < 2 ^ co_width c"
    using wt e by (metis well_typed.simps(2))+
  then have m: "co_masked c = co_bits c" by (simp add: co_masked_def mask_to_width_id)
  show "v = ConstantV (co_masked c) (co_ty c)" "co_width c = it_width (co_ty c)"
    "0 < co_width c" "co_width c \<le> 128" "co_masked c < 2 ^ co_width c"
    using e b m by simp_all
  then show "den M v = Some (IntR (co_width c) (co_masked c))" using b e m by simp
qed

lemma den_constant:
  assumes "0 < it_width t" "it_width t \<le> 128" "bits < 2 ^ it_width t"
  shows "den M (ConstantV bits t) = Some (IntR (it_width t) bits)"
  using assms by simp

lemma den_int_bin:
  "den M x = Some (IntR w l) \<Longrightarrow> den M y = Some (IntR w r) \<Longrightarrow> int_sem op nuw nsw w l r = Some z \<Longrightarrow>
    den M (IntBin op nuw nsw x y) = Some (IntR w z)"
  by (simp add: int_bin_rv_def)

lemma simplify_partial_const_refines:
  assumes wt: "well_typed (IntBin op nuw nsw lhs_v rhs_v)"
    and f: "simplify_partial_const op nuw nsw lhs_v rhs_v = Some v'"
    and d: "den M (IntBin op nuw nsw lhs_v rhs_v) = Some x"
  shows "den M v' = Some x"
proof -
  obtain w l r y where dl: "den M lhs_v = Some (IntR w l)" and dr: "den M rhs_v = Some (IntR w r)"
    and s: "int_sem op nuw nsw w l r = Some y" and x: "x = IntR w y"
    using d by (auto simp: Option.bind_eq_Some_conv int_bin_rv_Some)
  have "fits (IntR w l) (val_ty lhs_v)" using wt dl den_fits [of lhs_v M] by simp
  then have l: "l < 2 ^ w" "0 < w" "w \<le> 128" by (cases "val_ty lhs_v"; auto)+
  show ?thesis
  proof (cases "(op = AddOp \<or> op = MulOp) \<and> as_const_operand lhs_v \<noteq> None \<and> as_const_operand rhs_v = None")
    case True
    then have "v' = IntBin op nuw nsw rhs_v lhs_v" using f by (auto simp: simplify_partial_const_def Let_def)
    then show ?thesis using True dl dr s x int_sem_comm [of op nuw nsw w l r]
      by (auto simp: int_bin_rv_def)
  next
    case noswap: False
    then obtain rhs where c: "as_const_operand rhs_v = Some rhs" "as_const_operand lhs_v = None"
      using f by (auto simp: simplify_partial_const_def Let_def split: option.splits if_splits)
    have wtr: "well_typed rhs_v" using wt by simp
    note rhs = const_operand_int [OF wtr c(1)]
    have rw: "co_width rhs = w" "co_masked rhs = r" using rhs(6) [of M] dr by simp_all
    have ity: "it_width (co_ty rhs) = w" using rhs(2) rw(1) by simp
    have r: "r < 2 ^ w" using rhs(5) rw by simp
    have const: "den M (ConstantV b (co_ty rhs)) = Some (IntR w b)" if "b < 2 ^ w" for b
      using that l by (simp add: ity)
    let ?ident = "r = 0 \<and> op \<in> {AddOp, SubOp, OrOp, XorOp, ShlOp, LShrOp, AShrOp} \<or> r = 1 \<and> op = MulOp"
    consider (id) "?ident" | (ann) "\<not> ?ident" "r = 0" "op = MulOp \<or> op = AndOp"
      | (more) "\<not> ?ident" "\<not> (r = 0 \<and> (op = MulOp \<or> op = AndOp))" by blast
    then show ?thesis
    proof cases
      case id
      then have "v' = lhs_v" using f noswap c rw
        by (auto simp: simplify_partial_const_def Let_def split: if_splits)
      then show ?thesis using dl x int_sem_identity [OF s l(1,2)] id by simp
    next
      case ann
      then have "v' = replace_with_constant (co_ty rhs) 0" using f noswap c rw
        by (auto simp: simplify_partial_const_def Let_def split: if_splits)
      then show ?thesis
        using const [of 0] x int_sem_annihilator [of op nuw nsw w l y] s ann
        by (simp add: replace_with_constant_def mask_to_width_id)
    next
      case more
      then have op: "op = AddOp \<or> op = MulOp" using f noswap c rw
        by (cases op) (simp_all add: simplify_partial_const_def Let_def)
      show ?thesis
      proof (cases "reassociable op lhs_v")
        case None
        then have mul: "op = MulOp" "is_power_of_two r"
          and v': "v' = IntBin ShlOp False False lhs_v (ConstantV (trailing_zeros r) (co_ty rhs))"
          using f noswap c rw more op
          by (auto simp: simplify_partial_const_def Let_def split: if_splits)
        define k where "k = trailing_zeros r"
        have rk: "r = 2 ^ k" using mul(2) by (simp add: is_power_of_two_def k_def)
        have kw: "k < w" using r rk by simp
        then have "k < 2 ^ w" using less_exp less_trans by blast
        then have dk: "den M (ConstantV k (co_ty rhs)) = Some (IntR w k)" by (rule const)
        have "y = w_mul w l (2 ^ k)" using s mul(1) unfolding rk by (simp split: if_splits)
        then show ?thesis
          unfolding v' k_def [symmetric] x using kw by (intro den_int_bin [OF dl dk]) simp
      next
        case (Some p)
        then obtain inner_lhs inner_c nuw' nsw' inner_rhs where p: "p = (inner_lhs, inner_c)"
          and lhs: "lhs_v = IntBin op nuw' nsw' inner_lhs inner_rhs"
          and ic: "as_const_operand inner_rhs = Some inner_c"
          by (cases lhs_v) (auto simp: reassociable_def split: if_splits)
        define combined where "combined = (if op = AddOp then u128_wrapping_add (co_masked inner_c) r
          else u128_wrapping_mul (co_masked inner_c) r)"
        have v': "v' = IntBin op False False inner_lhs (ConstantV (mask_to_width combined w) (co_ty rhs))"
          using f noswap c rw more op Some p
          by (auto simp: simplify_partial_const_def Let_def combined_def split: if_splits)
        have wti: "well_typed inner_rhs" using wt lhs by simp
        note inner = const_operand_int [OF wti ic]
        obtain a where a: "den M inner_lhs = Some (IntR w a)"
          "den M inner_rhs = Some (IntR w (co_masked inner_c))"
          "int_sem op nuw' nsw' w a (co_masked inner_c) = Some l"
          using dl lhs inner(6) [of M] by (auto simp: Option.bind_eq_Some_conv int_bin_rv_Some)
        have mc: "mask_to_width combined w = (if op = AddOp then co_masked inner_c + r else co_masked inner_c * r) mod 2 ^ w"
          using l(3) by (simp add: combined_def u128_wrapping_add_def u128_wrapping_mul_def
              mask_to_width_mod128 del: power_numeral)
        have "den M (ConstantV (mask_to_width combined w) (co_ty rhs)) = Some (IntR w (mask_to_width combined w))"
          by (rule const) (simp add: mc)
        moreover have "int_sem op False False w a (mask_to_width combined w) = Some y"
          using op a(3) s by (auto simp: mc w_add_assoc w_mul_assoc split: if_splits)
        ultimately show ?thesis unfolding v' x by (rule den_int_bin [OF a(1)])
      qed
    qed
  qed
qed

lemma fold_int_binary_refines:
  assumes wt: "well_typed (IntBin op nuw nsw lhs_v rhs_v)"
    and f: "fold_int_binary op nuw nsw lhs_v rhs_v = Some v'"
    and d: "den M (IntBin op nuw nsw lhs_v rhs_v) = Some x"
  shows "den M v' = Some x"
proof (cases "as_const_operand lhs_v = None \<or> as_const_operand rhs_v = None")
  case True
  then have "simplify_partial_const op nuw nsw lhs_v rhs_v = Some v'"
    using f by (auto simp: fold_int_binary_def split: option.splits)
  then show ?thesis using simplify_partial_const_refines wt d by blast
next
  case False
  then obtain l r where c: "as_const_operand lhs_v = Some l" "as_const_operand rhs_v = Some r" by auto
  then obtain bits where b: "fold_bits op l r = Some bits" and v': "v' = replace_with_constant (co_ty l) bits"
    using f by (auto simp: fold_int_binary_def)
  have wtl: "well_typed lhs_v" and wtr: "well_typed rhs_v" using wt by simp_all
  note L = const_operand_int [OF wtl c(1)] and R = const_operand_int [OF wtr c(2)]
  have w: "co_width r = co_width l"
    using wt L(1,2) R(1,2) by (metis llty.inject(1) val_ty.simps(2) well_typed.simps(3))
  obtain y where s: "int_sem op nuw nsw (co_width l) (co_masked l) (co_masked r) = Some y"
    and x: "x = IntR (co_width l) y"
    using d L(6) [of M] R(6) [of M] by (auto simp: Option.bind_eq_Some_conv int_bin_rv_Some)
  have bits: "co_bits l = co_masked l" "co_bits r = co_masked r"
    using c L(1) R(1) by (auto simp: as_const_operand_Some)
  have rb: "co_masked r < 2 ^ co_width l" using R(5) w by simp
  have "mask_to_width bits (co_width l) = y"
    by (rule fold_bits_sem [OF L(3,4,5) rb refl bits(1) w bits(2) b s])
  moreover have "y < 2 ^ co_width l" by (rule int_sem_bound [OF L(5) rb s])
  ultimately show ?thesis using L(2,3,4) x by (simp add: v' replace_with_constant_def)
qed


lemma fold_int_cast_refines:
  assumes wt: "well_typed (IntCast opid input result_ty)"
    and f: "fold_int_cast opid input result_ty = Some v'"
    and d: "den M (IntCast opid input result_ty) = Some x"
  shows "den M v' = Some x"
proof -
  have const: "den M v' = Some x"
    if c: "as_const_operand input = Some c" and t: "result_ty = IntT ity"
      and v': "v' = replace_with_constant ity (if opid = SExtOp then u128_of_i128 (co_signed c) else co_masked c)"
    for c ity
  proof -
    have wti: "well_typed input" using wt by simp
    note C = const_operand_int [OF wti c]
    have ity: "0 < it_width ity" "it_width ity \<le> 128" using wt t by (simp_all add: int_typed_def)
    obtain y where y: "int_cast_sem opid (co_width c) (co_masked c) (it_width ity) = Some y"
      "x = IntR (it_width ity) y"
      using d t C(6) [of M] by (auto simp: Option.bind_eq_Some_conv int_cast_rv_Some)
    have bits: "co_bits c = co_masked c" using c C(1) by (auto simp: as_const_operand_Some)
    have sg: "co_signed c = signed_of (co_width c) (co_masked c)"
      using C(3-5) bits by (simp add: co_signed_def sign_extend_signed_le)
    have widen: "co_masked c < 2 ^ it_width ity" if "co_width c < it_width ity"
      using that C(5) by (meson less_imp_le_nat less_le_trans one_le_numeral power_increasing)
    have "mask_to_width (if opid = SExtOp then u128_of_i128 (co_signed c) else co_masked c) (it_width ity) = y"
    proof (cases opid)
      case TruncOp
      then have "it_width ity < co_width c" "y = co_masked c mod 2 ^ it_width ity"
        using y(1) by (simp_all split: if_splits)
      then show ?thesis using TruncOp C(4) by (simp add: mask_to_width_mod)
    qed (use y(1) ity sg widen in \<open>auto simp: mask_u128_of_i128_le mask_to_width_id split: if_splits\<close>)
    moreover have "y < 2 ^ it_width ity"
      using y(1) widen by (cases opid) (auto split: if_splits)
    ultimately show ?thesis using ity y(2) by (simp add: v' replace_with_constant_def)
  qed
  show ?thesis
  proof (cases "\<exists>source t. opid = TruncOp \<and> input = IntCast ZExtOp source t \<and> val_ty source = result_ty")
    case True
    then obtain source t where s: "opid = TruncOp" "input = IntCast ZExtOp source t" "val_ty source = result_ty"
      by blast
    then have v': "v' = source" using f by (simp add: fold_int_cast_def)
    obtain w m ty y where y: "den M source = Some (IntR w m)" "t = IntT ty" "w < it_width ty"
      "x = IntR (it_width y) (m mod 2 ^ it_width y)" "result_ty = IntT y"
      using d s by (auto simp: Option.bind_eq_Some_conv int_cast_rv_Some split: if_splits)
    have "fits (IntR w m) (val_ty source)" using den_fits [of source M] wt s y(1) by simp
    then show ?thesis using y s v' by auto
  next
    case False
    then show ?thesis using f const
      by (auto simp: fold_int_cast_def Let_def split: option.splits llty.splits sval.splits int_cast.splits if_splits)
  qed
qed

subsection \<open>Aggregates\<close>

lemma extract_insert_same: "insert_at is x v = Some y \<Longrightarrow> extract_at is y = Some x"
proof (induction "is" arbitrary: v y)
  case (Cons i "is")
  then show ?case by (cases v) (auto split: if_splits)
qed simp

text \<open>Paths that part ways do not see each other's writes.\<close>

lemma extract_insert_apart:
  assumes "\<not> same_prefix is js" and "insert_at js x v = Some y"
  shows "extract_at is y = extract_at is v"
  using assms
proof (induction "is" arbitrary: js v y)
  case Nil
  then show ?case by (simp add: same_prefix_def)
next
  case (Cons i "is")
  then obtain j js' where js: "js = j # js'" by (cases js) (auto simp: same_prefix_def)
  obtain vs z where v: "v = AggR vs" "j < length vs" "insert_at js' x (vs ! j) = Some z" "y = AggR (vs[j := z])"
    using Cons.prems(2) js by (cases v) (auto split: if_splits)
  show ?case
  proof (cases "i = j")
    case True
    then have "\<not> same_prefix is js'" using Cons.prems(1) js by (simp add: same_prefix_def Let_def)
    then show ?thesis using Cons.IH v True by auto
  next
    case False
    then show ?thesis using v by simp
  qed
qed

lemma extract_undef: "subty t is = Some t' \<Longrightarrow> extract_at is (undef_of t) = Some (undef_of t')"
  by (induction t "is" rule: subty.induct) (auto split: if_splits)

lemma extract_chain_refines:
  assumes "extract_chain is t agg = Some v'" "well_typed agg" "subty (val_ty agg) is = Some t"
    and "den M agg = Some a" "extract_at is a = Some x"
  shows "den M v' = Some x"
  using assms
proof (induction agg arbitrary: a rule: extract_chain.induct)
  case (1 "is" t u)
  then show ?case using extract_undef [of u "is" t] by auto
next
  case (2 "is" t agg y js)
  obtain b c where b: "den M agg = Some b" "den M y = Some c" "insert_at js c b = Some a"
    using 2(5) by (auto simp: Option.bind_eq_Some_conv)
  consider "js = is" | "js \<noteq> is" "\<not> same_prefix is js" using 2(2) by (auto split: if_splits)
  then show ?case
  proof cases
    case 1
    then show ?thesis using 2(2,6) b extract_insert_same [OF b(3)] by simp
  next
    case 2
    then have "extract_at is b = Some x" using extract_insert_apart [OF 2(2) b(3)] \<open>extract_at is a = Some x\<close> by simp
    then show ?thesis using 2 b "2.IH" "2.prems" by simp
  qed
qed simp_all

lemma fold_extractvalue_refines:
  assumes "well_typed (ExtractValue agg is t)" and "fold_extractvalue agg is t = Some v'"
    and "den M (ExtractValue agg is t) = Some x"
  shows "den M v' = Some x"
  using assms extract_chain_refines [of "is" t agg v' M]
  by (auto simp: fold_extractvalue_def Option.bind_eq_Some_conv)

subsection \<open>Address arithmetic\<close>

text \<open>The pointer the chain finds is the base address the aggregate stands for.\<close>

lemma gep_aggregate_chain_base:
  assumes "gep_aggregate_chain agg = Some p" "well_typed agg" "den M agg = Some a" "base_address a = Some n"
    and "val_ty agg \<noteq> PtrT"
  shows "\<exists>b. den M p = Some b \<and> base_address b = Some n"
  using assms
proof (induction agg arbitrary: a rule: gep_aggregate_chain.induct)
  case (1 agg q js)
  obtain b c where b: "den M agg = Some b" "den M q = Some c" "insert_at js c b = Some a"
    using 1(4) by (auto simp: Option.bind_eq_Some_conv)
  obtain j js' where js: "js = j # js'" using 1(3) by (cases js) auto
  obtain vs z where vs: "b = AggR vs" "j < length vs" "insert_at js' c (vs ! j) = Some z" "a = AggR (vs[j := z])"
    using b(3) js by (cases b) (auto split: if_splits)
  show ?case
  proof (cases "js = [0]")
    case True
    then have p: "p = q" "val_ty q = PtrT" using 1(2) by (auto split: if_splits)
    have "fits c PtrT" using den_fits [of q M c] 1(3) b(2) p by simp
    moreover have "a = AggR (vs[0 := c])" "0 < length vs" using vs True js by simp_all
    ultimately show ?thesis using 1(5) b(2) p by (cases vs; cases c) auto
  next
    case False
    then have j: "j \<noteq> 0" "gep_aggregate_chain agg = Some p" using 1(2) js by (auto split: if_splits)
    have "base_address (AggR (vs[j := z])) = base_address (AggR vs)"
      using j(1) by (cases vs; cases j; cases "hd vs") auto
    then have "base_address b = Some n" using 1(5) vs by simp
    then show ?thesis using 1 False j js b by simp
  qed
qed simp_all

lemma den_gep: "den M (GetElementPtr b is t) = Some x \<longleftrightarrow>
    (\<exists>a js n. den M b = Some a \<and> those (map (den_index M) is) = Some js \<and> base_address a = Some n \<and>
      x = PtrR (unsigned_of 64 (int n + gep_offset M t js)))"
  by (auto simp: Option.bind_eq_Some_conv gep_rv_def)

lemma fold_gep_aggregate_base_refines:
  assumes "well_typed (GetElementPtr agg is t)" and "fold_gep_aggregate_base agg is t = Some v'"
    and "den M (GetElementPtr agg is t) = Some x"
  shows "den M v' = Some x"
proof -
  obtain p where p: "gep_aggregate_chain agg = Some p" "v' = GetElementPtr p is t" "val_ty agg \<noteq> PtrT"
    using assms(2) by (auto simp: fold_gep_aggregate_base_def split: if_splits)
  then show ?thesis using assms gep_aggregate_chain_base [of agg p M]
    unfolding p(2) den_gep by (metis well_typed.simps(9))
qed

lemma flatten_gep_of_gep_refines:
  assumes "flatten_gep_of_gep base is t = Some v'" and "den M (GetElementPtr base is t) = Some x"
  shows "den M v' = Some x"
proof -
  obtain outer inner b where e: "is = [GepConstant outer]" "base = GetElementPtr b [GepConstant inner] t"
    "v' = GetElementPtr b [GepConstant (inner + outer)] t"
    using assms(1)
    by (auto simp: flatten_gep_of_gep_def u32_checked_add_def split: list.splits gep_index.splits sval.splits if_splits)
  obtain a n where a: "den M b = Some a" "base_address a = Some n"
    "x = PtrR (unsigned_of 64 (int (unsigned_of 64 (int n + int inner * int (type_size M t))) + int outer * int (type_size M t)))"
    using assms(2) unfolding e den_gep by (auto simp: Option.bind_eq_Some_conv gep_rv_def)
  have "unsigned_of 64 (int (unsigned_of 64 i) + j) = unsigned_of 64 (i + j)" for i j
    by (simp add: unsigned_of_def mod_simps)
  then have "x = PtrR (unsigned_of 64 (int n + int (inner + outer) * int (type_size M t)))"
    unfolding a(3) by (simp add: algebra_simps)
  then show ?thesis using a unfolding e(3) den_gep by simp
qed

text \<open>
  (C24) A fold of the simplifier never changes the value of an op: whenever a
  well-typed op has a value (no poison, no undefined behaviour), the value it
  is replaced by has the same one, whatever the arguments and the opaque ops.
\<close>

theorem fold_op_refines:
  assumes "well_typed v" and "fold_op v = Some v'" and "den M v = Some x"
  shows "den M v' = Some x"
proof (cases v)
  case (IntBin op nuw nsw a b)
  then show ?thesis using assms fold_int_binary_refines by (simp only: fold_op_def sval.case)
next
  case (ICmp p a b)
  then show ?thesis using assms fold_icmp_refines by (simp only: fold_op_def sval.case)
next
  case (IntCast c a t)
  then show ?thesis using assms fold_int_cast_refines by (simp only: fold_op_def sval.case)
next
  case (ExtractValue agg "is" t)
  then show ?thesis using assms fold_extractvalue_refines by (simp only: fold_op_def sval.case)
next
  case (GetElementPtr b "is" t)
  then show ?thesis using assms fold_gep_aggregate_base_refines [of b "is" t v' M x]
      flatten_gep_of_gep_refines [of b "is" t v' M x]
    by (auto simp only: fold_op_def sval.case split: option.splits)
qed (use assms in \<open>simp_all add: fold_op_def\<close>)


theorem fold_op_refines_witness:
  "let i32 = IntegerType 32 Signless;
       v = IntBin MulOp False True (IntBin MulOp False True (Argument 0 (IntT i32)) (ConstantV 3 i32)) (ConstantV 5 i32);
       M = \<lparr>arg_val = (\<lambda>i. Some (IntR 32 7)), opaque_val = (\<lambda>k xs. None),
            type_size = (\<lambda>t. 8), path_offset = (\<lambda>t is. 0)\<rparr>
   in fold_op v = Some (IntBin MulOp False False (Argument 0 (IntT i32)) (ConstantV 15 i32)) \<and>
      den M (IntBin MulOp False False (Argument 0 (IntT i32)) (ConstantV 15 i32)) = Some (IntR 32 105)"
proof -
  define i32 where "i32 = IntegerType 32 Signless"
  define a where "a = Argument 0 (IntT i32)"
  define v where "v = IntBin MulOp False True (IntBin MulOp False True a (ConstantV 3 i32)) (ConstantV 5 i32)"
  define M where "M = \<lparr>arg_val = (\<lambda>i. Some (IntR 32 7)), opaque_val = (\<lambda>k xs :: rv list. None :: rv option),
            type_size = (\<lambda>t :: llty. 8 :: nat), path_offset = (\<lambda>t (is :: int list). 0 :: int)\<rparr>"
  have c: "co_masked \<lparr>co_bits = 5, co_width = 32, co_ty = i32\<rparr> = 5" "co_masked \<lparr>co_bits = 3, co_width = 32, co_ty = i32\<rparr> = 3"
    by (simp_all add: co_masked_def mask_to_width_mod)
  have f: "fold_op v = Some (IntBin MulOp False False a (ConstantV 15 i32))"
    by (simp add: v_def a_def i32_def fold_op_def fold_int_binary_def as_const_operand_def
        simplify_partial_const_def reassociable_def c [unfolded i32_def] u128_wrapping_mul_def mask_to_width_mod)
  have wt: "well_typed v" by (simp add: v_def a_def i32_def int_typed_def)
  have d: "den M v = Some (IntR 32 105)"
    by (simp add: checked_def v_def a_def i32_def M_def int_bin_rv_def flag_violated_def in_signed_def signed_of_def w_mul_def)
  show ?thesis using f fold_op_refines [OF wt f d] by (simp only: v_def a_def i32_def M_def Let_def)
qed

subsection \<open>Progress\<close>

text \<open>
  A weight every fold strictly decreases: the number of ops, counting a
  multiplication for more than the shift it becomes and a misplaced constant
  for more than the canonical order.
\<close>

definition op_weight :: "int_op \<Rightarrow> sval \<Rightarrow> sval \<Rightarrow> nat" where
  "op_weight op x y = (if op = MulOp then 3 else 2) +
     (if (op = AddOp \<or> op = MulOp) \<and> as_const_operand x \<noteq> None \<and> as_const_operand y = None then 1 else 0)"

fun fold_weight :: "sval \<Rightarrow> nat" and index_weight :: "gep_index \<Rightarrow> nat" where
  "fold_weight (Argument i t) = 1"
| "fold_weight (ConstantV bits t) = 1"
| "fold_weight (IntBin op nuw nsw x y) = fold_weight x + fold_weight y + op_weight op x y"
| "fold_weight (ICmp p x y) = fold_weight x + fold_weight y"
| "fold_weight (IntCast c x t) = Suc (fold_weight x)"
| "fold_weight (Undef t) = 1"
| "fold_weight (InsertValue agg x is) = fold_weight agg + fold_weight x"
| "fold_weight (ExtractValue agg is t) = Suc (fold_weight agg)"
| "fold_weight (GetElementPtr b is t) = Suc (fold_weight b + sum_list (map index_weight is))"
| "fold_weight (OpaqueOp k xs t) = Suc (sum_list (map fold_weight xs))"
| "index_weight (GepConstant c) = 0"
| "index_weight (GepValue v) = fold_weight v"

lemma fold_weight_pos: "0 < fold_weight v"
  by (induction v rule: well_typed_well_typed_index.induct(1) [where ?Q = "\<lambda>_. True"]) (simp_all add: op_weight_def)

lemma fold_weight_const [simp]: "fold_weight (replace_with_constant t bits) = 1"
  by (simp add: replace_with_constant_def)

lemma extract_chain_weight: "extract_chain is t agg = Some v \<Longrightarrow> fold_weight v \<le> fold_weight agg"
  by (induction "is" t agg rule: extract_chain.induct) (auto split: if_splits)

lemma gep_chain_weight: "gep_aggregate_chain agg = Some v \<Longrightarrow> fold_weight v < fold_weight agg"
proof (induction agg rule: gep_aggregate_chain.induct)
  case (1 agg p js)
  then show ?case using fold_weight_pos [of agg] by (auto split: if_splits)
qed simp_all

lemma reassociable_Some:
  "reassociable op x = Some (a, c) \<longleftrightarrow>
    (\<exists>nuw nsw r. x = IntBin op nuw nsw a r \<and> as_const_operand a = None \<and> as_const_operand r = Some c)"
  by (cases x) (auto simp: reassociable_def)

lemma reassociate_weight:
  assumes "reassociable op x = Some (a, c)" "op = AddOp \<or> op = MulOp"
  shows "fold_weight (IntBin op nuw nsw a (ConstantV n t)) < fold_weight (IntBin op nuw' nsw' x y)"
proof -
  obtain nuw'' nsw'' r where x: "x = IntBin op nuw'' nsw'' a r" "as_const_operand a = None"
    using assms(1) by (auto simp: reassociable_Some)
  show ?thesis using assms(2) fold_weight_pos [of r] fold_weight_pos [of y] x(2)
    by (auto simp: x(1) op_weight_def)
qed

lemma simplify_partial_const_weight:
  assumes "simplify_partial_const op nuw nsw x y = Some v"
  shows "fold_weight v < fold_weight (IntBin op nuw nsw x y)"
proof (cases "\<exists>p. (op = AddOp \<or> op = MulOp) \<and> reassociable op x = Some p \<and>
    (\<exists>n t. v = IntBin op False False (fst p) (ConstantV n t))")
  case True
  then show ?thesis using reassociate_weight by fastforce
next
  case False
  then show ?thesis using assms fold_weight_pos [of x] fold_weight_pos [of y]
    by (auto simp: simplify_partial_const_def Let_def op_weight_def as_const_operand_Some as_const_operand_def
        split: option.splits if_splits)
qed

lemma fold_int_binary_weight:
  assumes "fold_int_binary op nuw nsw x y = Some v"
  shows "fold_weight v < fold_weight (IntBin op nuw nsw x y)"
proof (cases "as_const_operand x \<noteq> None \<and> as_const_operand y \<noteq> None")
  case True
  then show ?thesis using assms by (auto simp: fold_int_binary_def op_weight_def)
next
  case False
  then have "simplify_partial_const op nuw nsw x y = Some v"
    using assms by (auto simp: fold_int_binary_def split: option.splits)
  then show ?thesis by (rule simplify_partial_const_weight)
qed

lemma fold_icmp_weight: "fold_icmp p x y = Some v \<Longrightarrow> fold_weight v < fold_weight (ICmp p x y)"
  using fold_weight_pos [of x] fold_weight_pos [of y]
  by (auto simp: fold_icmp_def Let_def split: option.splits)

lemma fold_int_cast_weight: "fold_int_cast c x t = Some v \<Longrightarrow> fold_weight v < fold_weight (IntCast c x t)"
  using fold_weight_pos [of x]
  by (auto simp: fold_int_cast_def Let_def split: option.splits sval.splits int_cast.splits llty.splits if_splits)

lemma flatten_gep_weight:
  "flatten_gep_of_gep b is t = Some v \<Longrightarrow> fold_weight v < fold_weight (GetElementPtr b is t)"
  by (auto simp: flatten_gep_of_gep_def split: list.splits gep_index.splits sval.splits if_splits)

lemma gep_aggregate_weight:
  "fold_gep_aggregate_base b is t = Some v \<Longrightarrow> fold_weight v < fold_weight (GetElementPtr b is t)"
  using gep_chain_weight [of b] by (auto simp: fold_gep_aggregate_base_def split: if_splits)

text \<open>
  (C35) Folding terminates: every fold, the operand swap and the reassociations
  included, strictly decreases the weight of the op it is applied to.
\<close>

theorem fold_op_decreases:
  assumes "fold_op v = Some v'"
  shows "fold_weight v' < fold_weight v"
proof (cases v)
  case (ExtractValue agg "is" t)
  then show ?thesis using assms extract_chain_weight [of "is" t agg v']
    by (simp add: fold_op_def fold_extractvalue_def)
next
  case (GetElementPtr b "is" t)
  then show ?thesis using assms flatten_gep_weight [of b "is" t v'] gep_aggregate_weight [of b "is" t v']
    by (simp only: fold_op_def sval.case) (auto split: option.splits)
qed (use assms fold_int_binary_weight fold_icmp_weight fold_int_cast_weight in \<open>simp_all only: fold_op_def sval.case option.distinct\<close>)

theorem fold_op_decreases_witness:
  "let i32 = IntegerType 32 Signless; a = Argument 0 (IntT i32)
   in fold_op (IntBin AddOp False False (ConstantV 3 i32) a) = Some (IntBin AddOp False False a (ConstantV 3 i32)) \<and>
      fold_weight (IntBin AddOp False False a (ConstantV 3 i32)) < fold_weight (IntBin AddOp False False (ConstantV 3 i32) a)"
proof -
  define i32 where "i32 = IntegerType 32 Signless"
  define a where "a = Argument 0 (IntT i32)"
  have f: "fold_op (IntBin AddOp False False (ConstantV 3 i32) a) = Some (IntBin AddOp False False a (ConstantV 3 i32))"
    by (simp add: a_def fold_op_def fold_int_binary_def as_const_operand_def simplify_partial_const_def)
  show ?thesis using f fold_op_decreases [OF f] by (simp only: Let_def a_def i32_def)
qed

end
