(* ===== verification/Text.thy ===== *)
theory Text
  imports Prelude "HOL-Library.Char_ord"
begin

text \<open>
  Text the backend prints and reads back: decimal integers as Rust's
  \<^verbatim>\<open>Display\<close> and \<^verbatim>\<open>FromStr\<close> have them, \<^verbatim>\<open>str::strip_prefix\<close>, and the
  interface of an attribute's spelling (a printer and a parser that undoes it),
  which the register and condition-code attributes provide.
\<close>

subsection \<open>Decimal integers\<close>

definition digit_char :: "nat \<Rightarrow> char" where
  "digit_char d = char_of (48 + d)"

definition to_digit :: "char \<Rightarrow> nat option" where
  "to_digit c = (let n = of_char c in if 48 \<le> n \<and> n \<le> 57 then Some (n - 48) else None)"

text \<open>\<open>Display\<close> of an unsigned integer: its decimal digits, no leading zero.\<close>

fun show_nat :: "nat \<Rightarrow> string" where
  "show_nat n = (if n < 10 then [digit_char n] else show_nat (n div 10) @ [digit_char (n mod 10)])"

declare show_nat.simps [simp del]

text \<open>\<open>FromStr\<close>: an optional \<open>+\<close>, at least one digit, and no overflow of the type's maximum.\<close>

fun parse_digits :: "nat \<Rightarrow> nat \<Rightarrow> string \<Rightarrow> nat option" where
  "parse_digits mx acc [] = Some acc"
| "parse_digits mx acc (c # cs) = (case to_digit c of
     None \<Rightarrow> None
   | Some d \<Rightarrow> if acc * 10 + d \<le> mx then parse_digits mx (acc * 10 + d) cs else None)"

definition parse_uint :: "nat \<Rightarrow> string \<Rightarrow> nat option" where
  "parse_uint mx s =
     (let digits = (if s \<noteq> [] \<and> hd s = CHR ''+'' then tl s else s) in
      if digits = [] then None else parse_digits mx 0 digits)"

definition strip_prefix :: "string \<Rightarrow> string \<Rightarrow> string option" where
  "strip_prefix p s = (if take (length p) s = p then Some (drop (length p) s) else None)"

lemma to_digit_digit_char [simp]: "d < 10 \<Longrightarrow> to_digit (digit_char d) = Some d"
  by (simp add: to_digit_def digit_char_def)

lemma parse_digits_append:
  "parse_digits mx acc (xs @ ys) = Option.bind (parse_digits mx acc xs) (\<lambda>a. parse_digits mx a ys)"
  by (induction mx acc xs rule: parse_digits.induct) (auto split: option.splits)

lemma show_nat_neq_Nil [simp]: "show_nat n \<noteq> []"
  by (subst show_nat.simps) simp

lemma parse_digits_show_nat: "n \<le> mx \<Longrightarrow> parse_digits mx 0 (show_nat n) = Some n"
proof (induction n rule: show_nat.induct)
  case (1 n)
  show ?case
  proof (cases "n < 10")
    case True
    then show ?thesis using 1 by (subst show_nat.simps) simp
  next
    case False
    moreover have "n div 10 \<le> mx" using 1(2) by (meson div_le_dividend le_trans)
    ultimately show ?thesis using 1 by (subst show_nat.simps) (simp add: parse_digits_append)
  qed
qed

lemma parse_digits_bound: "parse_digits mx acc s = Some n \<Longrightarrow> acc \<le> mx \<Longrightarrow> n \<le> mx"
  by (induction mx acc s rule: parse_digits.induct) (auto split: option.splits if_splits)

text \<open>The printed text consists of digits only.\<close>

lemma show_nat_digits: "c \<in> set (show_nat n) \<Longrightarrow> to_digit c \<noteq> None"
proof (induction n rule: show_nat.induct)
  case (1 n)
  then show ?case
    by (cases "n < 10") (auto simp: show_nat.simps [of n])
qed

lemma hd_show_nat_digit: "to_digit (hd (show_nat n)) \<noteq> None"
  by (rule show_nat_digits [OF hd_in_set [OF show_nat_neq_Nil]])

lemma parse_uint_show_nat [simp]: "n \<le> mx \<Longrightarrow> parse_uint mx (show_nat n) = Some n"
proof -
  have "to_digit CHR ''+'' = None" by (simp add: to_digit_def)
  then have "hd (show_nat n) \<noteq> CHR ''+''" using hd_show_nat_digit [of n] by metis
  moreover assume "n \<le> mx"
  ultimately show ?thesis by (simp add: parse_uint_def parse_digits_show_nat)
qed

lemma parse_uint_bound: "parse_uint mx s = Some n \<Longrightarrow> n \<le> mx"
  by (auto simp: parse_uint_def Let_def split: if_splits dest: parse_digits_bound)

lemma strip_prefix_append [simp]: "strip_prefix p (p @ s) = Some s"
  by (simp add: strip_prefix_def)

lemma strip_prefix_single [simp]:
  "strip_prefix [p] (c # s) = (if c = p then Some s else None)" "strip_prefix [p] [] = None"
  by (auto simp: strip_prefix_def)

lemma strip_prefix_pair [simp]:
  "strip_prefix [p, q] (c # d # s) = (if c = p \<and> d = q then Some s else None)"
  "strip_prefix [p, q] [c] = None" "strip_prefix [p, q] [] = None"
  by (auto simp: strip_prefix_def)

subsection \<open>The interface of a spelling\<close>

text \<open>
  \<open>valid\<close> values are the ones the parser can return; printing and parsing back
  gives the same value, so two valid values are never spelled alike.
\<close>

locale spelling =
  fixes display :: "'a \<Rightarrow> string"
    and parse :: "string \<Rightarrow> 'a option"
    and valid :: "'a \<Rightarrow> bool"
  assumes parse_display: "valid x \<Longrightarrow> parse (display x) = Some x"
    and parse_valid: "parse s = Some x \<Longrightarrow> valid x"
begin

lemma display_inj: "valid x \<Longrightarrow> valid y \<Longrightarrow> display x = display y \<longleftrightarrow> x = y"
  using parse_display by (metis option.inject)

text \<open>Reading any accepted spelling and printing it gives the canonical one, once and for all.\<close>

lemma canonical: "parse s = Some x \<Longrightarrow> parse (display x) = Some x"
  by (rule parse_display) (rule parse_valid)

lemma canonical_unique:
  "parse s = Some x \<Longrightarrow> parse t = Some y \<Longrightarrow> display x = display y \<Longrightarrow> x = y"
  using display_inj parse_valid by blast

lemma range_parse: "(\<exists>s. parse s = Some x) \<longleftrightarrow> valid x"
  using parse_display parse_valid by blast

end

end
