(* ===== verification/A64_Registers.thy ===== *)
theory A64_Registers
  imports Text
begin

text \<open>
  AArch64 registers, from \<^verbatim>\<open>crates/pliron-ll/src/aarch64/registers.rs\<close>: the
  register classes, virtual and physical registers, and the spelling
  \<^verbatim>\<open>Register::parse\<close> reads and \<^verbatim>\<open>Display\<close> prints, with the proof that the two
  agree.
\<close>

datatype register_class = Gpr64 | Gpr32 | Fpr64 | Fpr32 | Simd128 | Nzcv

datatype virtual_register = VirtualRegister (vreg_number: nat)

text \<open>The derived \<open>Ord\<close>: by number.\<close>

instantiation virtual_register :: linorder
begin

definition less_eq_virtual_register :: "virtual_register \<Rightarrow> virtual_register \<Rightarrow> bool" where
  "v \<le> w \<longleftrightarrow> vreg_number v \<le> vreg_number w"

definition less_virtual_register :: "virtual_register \<Rightarrow> virtual_register \<Rightarrow> bool" where
  "v < w \<longleftrightarrow> vreg_number v < vreg_number w"

instance
  by intro_classes
    (auto simp: less_eq_virtual_register_def less_virtual_register_def virtual_register.expand)

end

datatype physical_register =
    PGpr64 nat
  | PGpr32 nat
  | PFpr64 nat
  | PFpr32 nat
  | PSimd128 nat
  | PSp
  | PNzcv

fun physical_class :: "physical_register \<Rightarrow> register_class" where
  "physical_class (PGpr64 n) = Gpr64"
| "physical_class PSp = Gpr64"
| "physical_class (PGpr32 n) = Gpr32"
| "physical_class (PFpr64 n) = Fpr64"
| "physical_class (PFpr32 n) = Fpr32"
| "physical_class (PSimd128 n) = Simd128"
| "physical_class PNzcv = Nzcv"

definition is_reserved :: "physical_register \<Rightarrow> bool" where
  "is_reserved r \<longleftrightarrow> r \<in> {PSp, PNzcv, PGpr64 18, PGpr64 29, PGpr64 30}"

datatype register =
    Virtual virtual_register register_class
  | Physical physical_register

definition virtual_gpr :: "nat \<Rightarrow> register" where
  "virtual_gpr i = Virtual (VirtualRegister i) Gpr64"

definition virtual_fpr64 :: "nat \<Rightarrow> register" where
  "virtual_fpr64 i = Virtual (VirtualRegister i) Fpr64"

definition virtual_fpr32 :: "nat \<Rightarrow> register" where
  "virtual_fpr32 i = Virtual (VirtualRegister i) Fpr32"

definition virtual_simd128 :: "nat \<Rightarrow> register" where
  "virtual_simd128 i = Virtual (VirtualRegister i) Simd128"

definition gpr :: "nat \<Rightarrow> register" where
  "gpr n = Physical (PGpr64 n)"

definition fpr64 :: "nat \<Rightarrow> register" where
  "fpr64 n = Physical (PFpr64 n)"

definition fpr32 :: "nat \<Rightarrow> register" where
  "fpr32 n = Physical (PFpr32 n)"

definition simd128 :: "nat \<Rightarrow> register" where
  "simd128 n = Physical (PSimd128 n)"

definition SP :: register where
  "SP = Physical PSp"

definition LR :: register where
  "LR = gpr 30"

definition FP :: register where
  "FP = gpr 29"

fun reg_class :: "register \<Rightarrow> register_class" where
  "reg_class (Virtual i c) = c"
| "reg_class (Physical p) = physical_class p"

definition is_fpr :: "register \<Rightarrow> bool" where
  "is_fpr r \<longleftrightarrow> reg_class r \<in> {Fpr64, Fpr32}"

subsection \<open>Spelling\<close>

fun display_physical :: "physical_register \<Rightarrow> string" where
  "display_physical (PGpr64 n) = ''x'' @ show_nat n"
| "display_physical (PGpr32 n) = ''w'' @ show_nat n"
| "display_physical (PFpr64 n) = ''d'' @ show_nat n"
| "display_physical (PFpr32 n) = ''s'' @ show_nat n"
| "display_physical (PSimd128 n) = ''q'' @ show_nat n"
| "display_physical PSp = ''sp''"
| "display_physical PNzcv = ''nzcv''"

fun display_register :: "register \<Rightarrow> string" where
  "display_register (Virtual (VirtualRegister i) Fpr64) = ''vd'' @ show_nat i"
| "display_register (Virtual (VirtualRegister i) Fpr32) = ''vs'' @ show_nat i"
| "display_register (Virtual (VirtualRegister i) Simd128) = ''vq'' @ show_nat i"
| "display_register (Virtual (VirtualRegister i) c) = ''vr'' @ show_nat i"
| "display_register (Physical p) = display_physical p"

definition u8_max :: nat where
  "u8_max = 255"

definition u32_max :: nat where
  "u32_max = 4294967295"

text \<open>\<open>parse_number\<close>: a \<open>u8\<close> that is at most 31.\<close>

definition parse_number :: "string \<Rightarrow> string \<Rightarrow> nat option" where
  "parse_number prefix text =
     (case Option.bind (strip_prefix prefix text) (parse_uint u8_max) of
        Some n \<Rightarrow> if n \<le> 31 then Some n else None
      | None \<Rightarrow> None)"

definition parse_virtual :: "string \<Rightarrow> register_class \<Rightarrow> register option" where
  "parse_virtual number c = map_option (\<lambda>i. Virtual (VirtualRegister i) c) (parse_uint u32_max number)"

definition or_else :: "'a option \<Rightarrow> 'a option \<Rightarrow> 'a option" where
  "or_else x y = (case x of Some a \<Rightarrow> Some a | None \<Rightarrow> y)"

definition parse_register :: "string \<Rightarrow> register option" where
  "parse_register text =
     (case strip_prefix ''vr'' text of Some number \<Rightarrow> parse_virtual number Gpr64 | None \<Rightarrow>
      case strip_prefix ''vq'' text of Some number \<Rightarrow> parse_virtual number Simd128 | None \<Rightarrow>
      case strip_prefix ''vd'' text of Some number \<Rightarrow> parse_virtual number Fpr64 | None \<Rightarrow>
      case strip_prefix ''vs'' text of Some number \<Rightarrow> parse_virtual number Fpr32 | None \<Rightarrow>
      if text = ''sp'' then Some (Physical PSp)
      else if text = ''nzcv'' then Some (Physical PNzcv)
      else map_option Physical
        (or_else (map_option PGpr64 (parse_number ''x'' text))
        (or_else (map_option PGpr32 (parse_number ''w'' text))
        (or_else (map_option PFpr64 (parse_number ''d'' text))
        (or_else (map_option PFpr32 (parse_number ''s'' text))
        (or_else (map_option PSimd128 (parse_number ''v'' text))
                 (map_option PSimd128 (parse_number ''q'' text))))))))"

subsection \<open>Round trip\<close>

text \<open>Hardware numbers are at most 31, virtual ids fit \<open>u32\<close>, virtual registers have a spelled class.\<close>

fun physical_ok :: "physical_register \<Rightarrow> bool" where
  "physical_ok (PGpr64 n) \<longleftrightarrow> n \<le> 31"
| "physical_ok (PGpr32 n) \<longleftrightarrow> n \<le> 31"
| "physical_ok (PFpr64 n) \<longleftrightarrow> n \<le> 31"
| "physical_ok (PFpr32 n) \<longleftrightarrow> n \<le> 31"
| "physical_ok (PSimd128 n) \<longleftrightarrow> n \<le> 31"
| "physical_ok p \<longleftrightarrow> True"

fun register_ok :: "register \<Rightarrow> bool" where
  "register_ok (Virtual i c) \<longleftrightarrow> vreg_number i \<le> u32_max \<and> c \<in> {Gpr64, Fpr64, Fpr32, Simd128}"
| "register_ok (Physical p) \<longleftrightarrow> physical_ok p"

lemma parse_number_show [simp]:
  "n \<le> 31 \<Longrightarrow> parse_number [p] (p # show_nat n) = Some n"
  by (simp add: parse_number_def u8_max_def)

lemma parse_number_other [simp]: "c \<noteq> p \<Longrightarrow> parse_number [p] (c # s) = None"
  by (simp add: parse_number_def)

lemma parse_number_bound: "parse_number p s = Some n \<Longrightarrow> n \<le> 31"
  by (auto simp: parse_number_def split: option.splits if_splits)

lemma or_else_simps [simp]: "or_else None y = y" "or_else (Some a) y = Some a"
  by (simp_all add: or_else_def)

lemma or_else_Some: "or_else x y = Some a \<longleftrightarrow> x = Some a \<or> x = None \<and> y = Some a"
  by (cases x) auto

lemma strip_prefix_pair_other:
  "c \<noteq> p \<Longrightarrow> strip_prefix [p, q] (c # s) = None"
  by (cases s) auto

lemma show_nat_not_letter: "show_nat n \<noteq> CHR ''p'' # s"
proof
  assume "show_nat n = CHR ''p'' # s"
  then have "to_digit (CHR ''p'') \<noteq> None" using hd_show_nat_digit [of n] by simp
  then show False by (simp add: to_digit_def)
qed

lemma parse_display_physical: "physical_ok p \<Longrightarrow> parse_register (display_physical p) = Some (Physical p)"
  by (cases p) (simp_all add: parse_register_def strip_prefix_pair_other show_nat_not_letter)

lemma parse_display_register: "register_ok r \<Longrightarrow> parse_register (display_register r) = Some r"
proof (cases r)
  case (Virtual i c)
  moreover assume "register_ok r"
  ultimately show ?thesis by (cases i; cases c) (simp_all add: parse_register_def parse_virtual_def)
qed (simp add: parse_display_physical)

lemma parse_register_ok: "parse_register s = Some r \<Longrightarrow> register_ok r"
  by (auto simp: parse_register_def parse_virtual_def or_else_Some split: option.splits if_splits
      dest: parse_uint_bound parse_number_bound)

interpretation reg: spelling display_register parse_register register_ok
  by unfold_locales (simp_all add: parse_display_register parse_register_ok)

text \<open>
  Register spellings round trip: what \<open>Register::parse\<close> accepts is a register
  whose number fits its file, printing it and parsing again gives it back, and
  every such register has a spelling.
\<close>

theorem register_spelling_roundtrip:
  "(\<exists>s. parse_register s = Some r) \<longleftrightarrow> register_ok r \<and> parse_register (display_register r) = Some r"
  using reg.range_parse reg.parse_display by blast

end
