(* ===== verification/A64_Ops.thy ===== *)
theory A64_Ops
  imports A64_Registers
begin

text \<open>
  The AArch64 instruction set of the backend: condition codes from
  \<^verbatim>\<open>crates/pliron-ll/src/aarch64/attributes.rs\<close>, the opcode table of
  \<^verbatim>\<open>define_aarch64_instructions!\<close> in \<^verbatim>\<open>aarch64/ops.rs\<close> (the enum and, per opcode,
  the register operands it declares as uses and definitions), and an
  instruction's attributes.
\<close>

subsection \<open>Condition codes\<close>

datatype condition_code =
    Eq | Ne | Hs | Lo | Mi | Pl | Vs | Vc | Hi | Ls | Ge | Lt | Gt | Le

definition all_conditions :: "condition_code list" where
  "all_conditions = [Eq, Ne, Hs, Lo, Mi, Pl, Vs, Vc, Hi, Ls, Ge, Lt, Gt, Le]"

definition condition_names :: "string list" where
  "condition_names =
     [''eq'', ''ne'', ''hs'', ''lo'', ''mi'', ''pl'', ''vs'', ''vc'', ''hi'', ''ls'', ''ge'', ''lt'', ''gt'', ''le'']"

fun cond_encoding :: "condition_code \<Rightarrow> nat" where
  "cond_encoding Eq = 0x0" | "cond_encoding Ne = 0x1"
| "cond_encoding Hs = 0x2" | "cond_encoding Lo = 0x3"
| "cond_encoding Mi = 0x4" | "cond_encoding Pl = 0x5"
| "cond_encoding Vs = 0x6" | "cond_encoding Vc = 0x7"
| "cond_encoding Hi = 0x8" | "cond_encoding Ls = 0x9"
| "cond_encoding Ge = 0xa" | "cond_encoding Lt = 0xb"
| "cond_encoding Gt = 0xc" | "cond_encoding Le = 0xd"

fun invert :: "condition_code \<Rightarrow> condition_code" where
  "invert Eq = Ne" | "invert Ne = Eq"
| "invert Hs = Lo" | "invert Lo = Hs"
| "invert Mi = Pl" | "invert Pl = Mi"
| "invert Vs = Vc" | "invert Vc = Vs"
| "invert Hi = Ls" | "invert Ls = Hi"
| "invert Ge = Lt" | "invert Lt = Ge"
| "invert Gt = Le" | "invert Le = Gt"

definition cond_name :: "condition_code \<Rightarrow> string" where
  "cond_name c = condition_names ! cond_encoding c"

definition parse_condition :: "string \<Rightarrow> condition_code option" where
  "parse_condition text = find (\<lambda>c. cond_name c = text) all_conditions"

text \<open>The flags, and what the architecture's \<open>ConditionHolds\<close> tests on the 4-bit field.\<close>

record nzcv =
  flag_n :: bool
  flag_z :: bool
  flag_c :: bool
  flag_v :: bool

definition condition_holds :: "nzcv \<Rightarrow> nat \<Rightarrow> bool" where
  "condition_holds f cond =
     (let base = [flag_z f, flag_c f, flag_n f, flag_v f, flag_c f \<and> \<not> flag_z f, flag_n f = flag_v f,
                  flag_n f = flag_v f \<and> \<not> flag_z f, True] ! (cond div 2)
      in if odd cond \<and> cond \<noteq> 15 then \<not> base else base)"

definition cond_holds :: "nzcv \<Rightarrow> condition_code \<Rightarrow> bool" where
  "cond_holds f c = condition_holds f (cond_encoding c)"

lemma invert_invert [simp]: "invert (invert c) = c"
  by (cases c) simp_all

lemma cond_encoding_bound: "cond_encoding c < 14"
  by (cases c) simp_all

lemma cond_holds_invert [simp]: "cond_holds f (invert c) \<longleftrightarrow> \<not> cond_holds f c"
  by (cases c) (simp_all add: cond_holds_def condition_holds_def)

lemma cond_encoding_invert:
  "cond_encoding (invert c) = (if even (cond_encoding c) then cond_encoding c + 1 else cond_encoding c - 1)"
  by (cases c) simp_all

interpretation cond: spelling cond_name parse_condition "\<lambda>_. True"
proof
  show "parse_condition (cond_name c) = Some c" for c
    by (cases c) (simp_all add: parse_condition_def all_conditions_def cond_name_def condition_names_def)
qed simp

text \<open>
  Condition codes: the inverted code holds in exactly the flag states in
  which the original does not, differs from it in the lowest bit of its encoding,
  and every code's name parses back to it.
\<close>

theorem condition_code_correct:
  "(cond_holds f (invert c) \<longleftrightarrow> \<not> cond_holds f c) \<and>
   cond_encoding (invert c) = (if even (cond_encoding c) then cond_encoding c + 1 else cond_encoding c - 1) \<and>
   parse_condition (cond_name c) = Some c"
  by (simp add: cond_encoding_invert cond.parse_display)

subsection \<open>Opcodes\<close>

datatype a64_int_op =
    A_MovImm | A_Movz | A_Movk | A_Mov | A_Add | A_Sub | A_Mul | A_Umulh | A_Sdiv | A_Udiv
    | A_And | A_Or | A_Xor | A_Shl | A_Lsr | A_Asr

datatype a64_fp_op =
    A_FaddD | A_FaddS | A_FsubD | A_FsubS | A_FmulD | A_FmulS | A_FdivD | A_FdivS | A_FnegD
    | A_FnegS | A_FabsD | A_FabsS | A_FsqrtD | A_FsqrtS | A_FrintmD | A_FrintmS | A_FrintpD
    | A_FrintpS | A_FrintzD | A_FrintzS | A_FrintaD | A_FrintaS | A_FrintnD | A_FrintnS
    | A_FminnmD | A_FminnmS | A_FmaxnmD | A_FmaxnmS | A_FminD | A_FminS | A_FmaxD | A_FmaxS
    | A_FcmpD | A_FcmpS

datatype a64_fp_move_op =
    A_FcvtDS | A_FcvtSD | A_ScvtfDX | A_ScvtfSX | A_UcvtfDX | A_UcvtfSX | A_FcvtzsXD
    | A_FcvtzsWD | A_FcvtzsXS | A_FcvtzsWS | A_FcvtzuXD | A_FcvtzuWD | A_FcvtzuXS | A_FcvtzuWS
    | A_FmovXD | A_FmovDX | A_FmovWS | A_FmovSW | A_FmovD | A_FmovS | A_FmovImmD | A_FmovImmS

datatype a64_vec_op =
    A_AddV4s | A_SubV4s | A_MulV4s | A_AddV2d | A_SubV2d | A_FaddV4s | A_FsubV4s | A_FmulV4s
    | A_FdivV4s | A_FaddV2d | A_FsubV2d | A_FmulV2d | A_FdivV2d | A_AndV16b | A_OrrV16b
    | A_EorV16b | A_ShlV4sImm | A_UshrV4sImm | A_SshrV4sImm | A_ShlV2dImm | A_UshrV2dImm
    | A_SshrV2dImm | A_MovV16b | A_DupV4sGpr | A_DupV2dGpr | A_DupV4sFpr | A_DupV2dFpr
    | A_AddvS4s | A_AddpD2d | A_FaddpV4s | A_FaddpS2s | A_FaddpD2d

datatype a64_fp_mem_op =
    A_StrqSpOffset | A_LdrqSpOffset | A_StrqRegOffset | A_LdrqRegOffset | A_StrdSpOffset
    | A_LdrdSpOffset | A_StrsSpOffset | A_LdrsSpOffset | A_StrdRegOffset | A_LdrdRegOffset
    | A_StrsRegOffset | A_LdrsRegOffset

datatype a64_mem_op =
    A_Cmp | A_StrPreSp | A_LdrPostSp | A_SubSpImm | A_AddSpImm | A_AddSpOffset | A_StrSpOffset
    | A_LdrSpOffset | A_StrwSpOffset | A_LdrwSpOffset | A_StrhSpOffset | A_LdrhSpOffset
    | A_StrbSpOffset | A_LdrbSpOffset | A_LdrStackArg | A_StrRegOffset | A_LdrRegOffset
    | A_StrwRegOffset | A_LdrwRegOffset | A_StrhRegOffset | A_LdrhRegOffset | A_StrbRegOffset
    | A_LdrbRegOffset

datatype a64_ctl_op =
    A_AdrLiteral | A_Svc | A_Cset | A_Ret | A_Brk | A_Call | A_B | A_BCond | A_Cbnz
    | A_AdrFunction | A_Blr | A_Adrp | A_AddLo12 | A_MrsTpidr | A_AddTprelHi12
    | A_AddTprelLo12Nc

datatype a64_opcode =
    IntOp a64_int_op | FpOp a64_fp_op | FpMoveOp a64_fp_move_op | VecOp a64_vec_op | FpMemOp a64_fp_mem_op | MemOp a64_mem_op | CtlOp a64_ctl_op

datatype operand_key = Rd | Rn | Rm

datatype operand_kind = Use | Def

type_synonym operand_spec = "(operand_key \<times> operand_kind) list"

primrec int_op_specs :: "a64_int_op \<Rightarrow> operand_spec" where
  "int_op_specs A_MovImm = [(Rd, Def)]"
| "int_op_specs A_Movz = [(Rd, Def)]"
| "int_op_specs A_Movk = [(Rd, Use), (Rd, Def)]"
| "int_op_specs A_Mov = [(Rd, Def), (Rm, Use)]"
| "int_op_specs A_Add = [(Rd, Def), (Rn, Use), (Rm, Use)]"
| "int_op_specs A_Sub = [(Rd, Def), (Rn, Use), (Rm, Use)]"
| "int_op_specs A_Mul = [(Rd, Def), (Rn, Use), (Rm, Use)]"
| "int_op_specs A_Umulh = [(Rd, Def), (Rn, Use), (Rm, Use)]"
| "int_op_specs A_Sdiv = [(Rd, Def), (Rn, Use), (Rm, Use)]"
| "int_op_specs A_Udiv = [(Rd, Def), (Rn, Use), (Rm, Use)]"
| "int_op_specs A_And = [(Rd, Def), (Rn, Use), (Rm, Use)]"
| "int_op_specs A_Or = [(Rd, Def), (Rn, Use), (Rm, Use)]"
| "int_op_specs A_Xor = [(Rd, Def), (Rn, Use), (Rm, Use)]"
| "int_op_specs A_Shl = [(Rd, Def), (Rn, Use), (Rm, Use)]"
| "int_op_specs A_Lsr = [(Rd, Def), (Rn, Use), (Rm, Use)]"
| "int_op_specs A_Asr = [(Rd, Def), (Rn, Use), (Rm, Use)]"

primrec fp_op_specs :: "a64_fp_op \<Rightarrow> operand_spec" where
  "fp_op_specs A_FaddD = [(Rd, Def), (Rn, Use), (Rm, Use)]"
| "fp_op_specs A_FaddS = [(Rd, Def), (Rn, Use), (Rm, Use)]"
| "fp_op_specs A_FsubD = [(Rd, Def), (Rn, Use), (Rm, Use)]"
| "fp_op_specs A_FsubS = [(Rd, Def), (Rn, Use), (Rm, Use)]"
| "fp_op_specs A_FmulD = [(Rd, Def), (Rn, Use), (Rm, Use)]"
| "fp_op_specs A_FmulS = [(Rd, Def), (Rn, Use), (Rm, Use)]"
| "fp_op_specs A_FdivD = [(Rd, Def), (Rn, Use), (Rm, Use)]"
| "fp_op_specs A_FdivS = [(Rd, Def), (Rn, Use), (Rm, Use)]"
| "fp_op_specs A_FnegD = [(Rd, Def), (Rn, Use)]"
| "fp_op_specs A_FnegS = [(Rd, Def), (Rn, Use)]"
| "fp_op_specs A_FabsD = [(Rd, Def), (Rn, Use)]"
| "fp_op_specs A_FabsS = [(Rd, Def), (Rn, Use)]"
| "fp_op_specs A_FsqrtD = [(Rd, Def), (Rn, Use)]"
| "fp_op_specs A_FsqrtS = [(Rd, Def), (Rn, Use)]"
| "fp_op_specs A_FrintmD = [(Rd, Def), (Rn, Use)]"
| "fp_op_specs A_FrintmS = [(Rd, Def), (Rn, Use)]"
| "fp_op_specs A_FrintpD = [(Rd, Def), (Rn, Use)]"
| "fp_op_specs A_FrintpS = [(Rd, Def), (Rn, Use)]"
| "fp_op_specs A_FrintzD = [(Rd, Def), (Rn, Use)]"
| "fp_op_specs A_FrintzS = [(Rd, Def), (Rn, Use)]"
| "fp_op_specs A_FrintaD = [(Rd, Def), (Rn, Use)]"
| "fp_op_specs A_FrintaS = [(Rd, Def), (Rn, Use)]"
| "fp_op_specs A_FrintnD = [(Rd, Def), (Rn, Use)]"
| "fp_op_specs A_FrintnS = [(Rd, Def), (Rn, Use)]"
| "fp_op_specs A_FminnmD = [(Rd, Def), (Rn, Use), (Rm, Use)]"
| "fp_op_specs A_FminnmS = [(Rd, Def), (Rn, Use), (Rm, Use)]"
| "fp_op_specs A_FmaxnmD = [(Rd, Def), (Rn, Use), (Rm, Use)]"
| "fp_op_specs A_FmaxnmS = [(Rd, Def), (Rn, Use), (Rm, Use)]"
| "fp_op_specs A_FminD = [(Rd, Def), (Rn, Use), (Rm, Use)]"
| "fp_op_specs A_FminS = [(Rd, Def), (Rn, Use), (Rm, Use)]"
| "fp_op_specs A_FmaxD = [(Rd, Def), (Rn, Use), (Rm, Use)]"
| "fp_op_specs A_FmaxS = [(Rd, Def), (Rn, Use), (Rm, Use)]"
| "fp_op_specs A_FcmpD = [(Rn, Use), (Rm, Use)]"
| "fp_op_specs A_FcmpS = [(Rn, Use), (Rm, Use)]"

primrec fp_move_op_specs :: "a64_fp_move_op \<Rightarrow> operand_spec" where
  "fp_move_op_specs A_FcvtDS = [(Rd, Def), (Rn, Use)]"
| "fp_move_op_specs A_FcvtSD = [(Rd, Def), (Rn, Use)]"
| "fp_move_op_specs A_ScvtfDX = [(Rd, Def), (Rn, Use)]"
| "fp_move_op_specs A_ScvtfSX = [(Rd, Def), (Rn, Use)]"
| "fp_move_op_specs A_UcvtfDX = [(Rd, Def), (Rn, Use)]"
| "fp_move_op_specs A_UcvtfSX = [(Rd, Def), (Rn, Use)]"
| "fp_move_op_specs A_FcvtzsXD = [(Rd, Def), (Rn, Use)]"
| "fp_move_op_specs A_FcvtzsWD = [(Rd, Def), (Rn, Use)]"
| "fp_move_op_specs A_FcvtzsXS = [(Rd, Def), (Rn, Use)]"
| "fp_move_op_specs A_FcvtzsWS = [(Rd, Def), (Rn, Use)]"
| "fp_move_op_specs A_FcvtzuXD = [(Rd, Def), (Rn, Use)]"
| "fp_move_op_specs A_FcvtzuWD = [(Rd, Def), (Rn, Use)]"
| "fp_move_op_specs A_FcvtzuXS = [(Rd, Def), (Rn, Use)]"
| "fp_move_op_specs A_FcvtzuWS = [(Rd, Def), (Rn, Use)]"
| "fp_move_op_specs A_FmovXD = [(Rd, Def), (Rn, Use)]"
| "fp_move_op_specs A_FmovDX = [(Rd, Def), (Rn, Use)]"
| "fp_move_op_specs A_FmovWS = [(Rd, Def), (Rn, Use)]"
| "fp_move_op_specs A_FmovSW = [(Rd, Def), (Rn, Use)]"
| "fp_move_op_specs A_FmovD = [(Rd, Def), (Rm, Use)]"
| "fp_move_op_specs A_FmovS = [(Rd, Def), (Rm, Use)]"
| "fp_move_op_specs A_FmovImmD = [(Rd, Def)]"
| "fp_move_op_specs A_FmovImmS = [(Rd, Def)]"

primrec vec_op_specs :: "a64_vec_op \<Rightarrow> operand_spec" where
  "vec_op_specs A_AddV4s = [(Rd, Def), (Rn, Use), (Rm, Use)]"
| "vec_op_specs A_SubV4s = [(Rd, Def), (Rn, Use), (Rm, Use)]"
| "vec_op_specs A_MulV4s = [(Rd, Def), (Rn, Use), (Rm, Use)]"
| "vec_op_specs A_AddV2d = [(Rd, Def), (Rn, Use), (Rm, Use)]"
| "vec_op_specs A_SubV2d = [(Rd, Def), (Rn, Use), (Rm, Use)]"
| "vec_op_specs A_FaddV4s = [(Rd, Def), (Rn, Use), (Rm, Use)]"
| "vec_op_specs A_FsubV4s = [(Rd, Def), (Rn, Use), (Rm, Use)]"
| "vec_op_specs A_FmulV4s = [(Rd, Def), (Rn, Use), (Rm, Use)]"
| "vec_op_specs A_FdivV4s = [(Rd, Def), (Rn, Use), (Rm, Use)]"
| "vec_op_specs A_FaddV2d = [(Rd, Def), (Rn, Use), (Rm, Use)]"
| "vec_op_specs A_FsubV2d = [(Rd, Def), (Rn, Use), (Rm, Use)]"
| "vec_op_specs A_FmulV2d = [(Rd, Def), (Rn, Use), (Rm, Use)]"
| "vec_op_specs A_FdivV2d = [(Rd, Def), (Rn, Use), (Rm, Use)]"
| "vec_op_specs A_AndV16b = [(Rd, Def), (Rn, Use), (Rm, Use)]"
| "vec_op_specs A_OrrV16b = [(Rd, Def), (Rn, Use), (Rm, Use)]"
| "vec_op_specs A_EorV16b = [(Rd, Def), (Rn, Use), (Rm, Use)]"
| "vec_op_specs A_ShlV4sImm = [(Rd, Def), (Rn, Use)]"
| "vec_op_specs A_UshrV4sImm = [(Rd, Def), (Rn, Use)]"
| "vec_op_specs A_SshrV4sImm = [(Rd, Def), (Rn, Use)]"
| "vec_op_specs A_ShlV2dImm = [(Rd, Def), (Rn, Use)]"
| "vec_op_specs A_UshrV2dImm = [(Rd, Def), (Rn, Use)]"
| "vec_op_specs A_SshrV2dImm = [(Rd, Def), (Rn, Use)]"
| "vec_op_specs A_MovV16b = [(Rd, Def), (Rm, Use)]"
| "vec_op_specs A_DupV4sGpr = [(Rd, Def), (Rn, Use)]"
| "vec_op_specs A_DupV2dGpr = [(Rd, Def), (Rn, Use)]"
| "vec_op_specs A_DupV4sFpr = [(Rd, Def), (Rn, Use)]"
| "vec_op_specs A_DupV2dFpr = [(Rd, Def), (Rn, Use)]"
| "vec_op_specs A_AddvS4s = [(Rd, Def), (Rn, Use)]"
| "vec_op_specs A_AddpD2d = [(Rd, Def), (Rn, Use)]"
| "vec_op_specs A_FaddpV4s = [(Rd, Def), (Rn, Use), (Rm, Use)]"
| "vec_op_specs A_FaddpS2s = [(Rd, Def), (Rn, Use)]"
| "vec_op_specs A_FaddpD2d = [(Rd, Def), (Rn, Use)]"

primrec fp_mem_op_specs :: "a64_fp_mem_op \<Rightarrow> operand_spec" where
  "fp_mem_op_specs A_StrqSpOffset = [(Rd, Use)]"
| "fp_mem_op_specs A_LdrqSpOffset = [(Rd, Def)]"
| "fp_mem_op_specs A_StrqRegOffset = [(Rd, Use), (Rn, Use)]"
| "fp_mem_op_specs A_LdrqRegOffset = [(Rd, Def), (Rn, Use)]"
| "fp_mem_op_specs A_StrdSpOffset = [(Rd, Use)]"
| "fp_mem_op_specs A_LdrdSpOffset = [(Rd, Def)]"
| "fp_mem_op_specs A_StrsSpOffset = [(Rd, Use)]"
| "fp_mem_op_specs A_LdrsSpOffset = [(Rd, Def)]"
| "fp_mem_op_specs A_StrdRegOffset = [(Rd, Use), (Rn, Use)]"
| "fp_mem_op_specs A_LdrdRegOffset = [(Rd, Def), (Rn, Use)]"
| "fp_mem_op_specs A_StrsRegOffset = [(Rd, Use), (Rn, Use)]"
| "fp_mem_op_specs A_LdrsRegOffset = [(Rd, Def), (Rn, Use)]"

primrec mem_op_specs :: "a64_mem_op \<Rightarrow> operand_spec" where
  "mem_op_specs A_Cmp = [(Rn, Use), (Rm, Use)]"
| "mem_op_specs A_StrPreSp = [(Rd, Use)]"
| "mem_op_specs A_LdrPostSp = [(Rd, Def)]"
| "mem_op_specs A_SubSpImm = []"
| "mem_op_specs A_AddSpImm = []"
| "mem_op_specs A_AddSpOffset = [(Rd, Def)]"
| "mem_op_specs A_StrSpOffset = [(Rd, Use)]"
| "mem_op_specs A_LdrSpOffset = [(Rd, Def)]"
| "mem_op_specs A_StrwSpOffset = [(Rd, Use)]"
| "mem_op_specs A_LdrwSpOffset = [(Rd, Def)]"
| "mem_op_specs A_StrhSpOffset = [(Rd, Use)]"
| "mem_op_specs A_LdrhSpOffset = [(Rd, Def)]"
| "mem_op_specs A_StrbSpOffset = [(Rd, Use)]"
| "mem_op_specs A_LdrbSpOffset = [(Rd, Def)]"
| "mem_op_specs A_LdrStackArg = [(Rd, Def)]"
| "mem_op_specs A_StrRegOffset = [(Rd, Use), (Rn, Use)]"
| "mem_op_specs A_LdrRegOffset = [(Rd, Def), (Rn, Use)]"
| "mem_op_specs A_StrwRegOffset = [(Rd, Use), (Rn, Use)]"
| "mem_op_specs A_LdrwRegOffset = [(Rd, Def), (Rn, Use)]"
| "mem_op_specs A_StrhRegOffset = [(Rd, Use), (Rn, Use)]"
| "mem_op_specs A_LdrhRegOffset = [(Rd, Def), (Rn, Use)]"
| "mem_op_specs A_StrbRegOffset = [(Rd, Use), (Rn, Use)]"
| "mem_op_specs A_LdrbRegOffset = [(Rd, Def), (Rn, Use)]"

primrec ctl_op_specs :: "a64_ctl_op \<Rightarrow> operand_spec" where
  "ctl_op_specs A_AdrLiteral = [(Rd, Def)]"
| "ctl_op_specs A_Svc = []"
| "ctl_op_specs A_Cset = [(Rd, Def)]"
| "ctl_op_specs A_Ret = []"
| "ctl_op_specs A_Brk = []"
| "ctl_op_specs A_Call = []"
| "ctl_op_specs A_B = []"
| "ctl_op_specs A_BCond = []"
| "ctl_op_specs A_Cbnz = [(Rn, Use)]"
| "ctl_op_specs A_AdrFunction = [(Rd, Def)]"
| "ctl_op_specs A_Blr = [(Rn, Use)]"
| "ctl_op_specs A_Adrp = [(Rd, Def)]"
| "ctl_op_specs A_AddLo12 = [(Rd, Def), (Rn, Use)]"
| "ctl_op_specs A_MrsTpidr = [(Rd, Def)]"
| "ctl_op_specs A_AddTprelHi12 = [(Rd, Def), (Rn, Use)]"
| "ctl_op_specs A_AddTprelLo12Nc = [(Rd, Def), (Rn, Use)]"

primrec operand_specs :: "a64_opcode \<Rightarrow> operand_spec" where
  "operand_specs (IntOp x) = int_op_specs x"
| "operand_specs (FpOp x) = fp_op_specs x"
| "operand_specs (FpMoveOp x) = fp_move_op_specs x"
| "operand_specs (VecOp x) = vec_op_specs x"
| "operand_specs (FpMemOp x) = fp_mem_op_specs x"
| "operand_specs (MemOp x) = mem_op_specs x"
| "operand_specs (CtlOp x) = ctl_op_specs x"

text \<open>An instruction's attributes; blocks are named by numbers.\<close>

record a64_inst =
  rd :: "register option"
  rn :: "register option"
  rm :: "register option"
  imm :: "nat option"
  shift :: "nat option"
  cond :: "condition_code option"
  callee :: "string option"
  literal_label :: "string option"
  target :: "nat option"
  not_taken :: "nat option"

fun operand :: "operand_key \<Rightarrow> a64_inst \<Rightarrow> register option" where
  "operand Rd i = rd i"
| "operand Rn i = rn i"
| "operand Rm i = rm i"

text \<open>\<open>register_operands\<close>: the declared operands that are present, in table order.\<close>

definition register_operands :: "a64_opcode \<Rightarrow> a64_inst \<Rightarrow> (operand_key \<times> register \<times> operand_kind) list" where
  "register_operands opcode i =
     concat (map (\<lambda>(key, kind). case operand key i of Some reg \<Rightarrow> [(key, reg, kind)] | None \<Rightarrow> [])
       (operand_specs opcode))"

end
