(* ===== verification/A64_LinearScan.thy ===== *)
theory A64_LinearScan
  imports A64_Registers "HOL-Library.Product_Lexorder" "HOL-Library.Multiset"
begin

unbundle bit_operations_syntax

text \<open>
  The linear scan of the AArch64 register allocator, from
  \<^verbatim>\<open>crates/pliron-ll/src/passes/aarch64/aarch64_register_allocate.rs\<close>: the
  register pools, \<^verbatim>\<open>linear_scan\<close>, its two spill-victim policies and the spill
  slots.  The policies share an interface, which is a locale here; the scan's
  invariant is proved once for every policy that meets it.
\<close>

subsection \<open>Register pools\<close>

definition allocatable_gprs :: "register list" where
  "allocatable_gprs = [gpr 9, gpr 10, gpr 11, gpr 12]"

definition callee_saved_gprs :: "register list" where
  "callee_saved_gprs =
     [gpr 19, gpr 20, gpr 21, gpr 22, gpr 23, gpr 24, gpr 25, gpr 26, gpr 27, gpr 28]"

definition spill_scratch_gprs :: "register list" where
  "spill_scratch_gprs = [gpr 13, gpr 14, gpr 15]"

definition allocatable_fpr_numbers :: "nat list" where
  "allocatable_fpr_numbers = [16, 17, 18, 19, 23, 24, 25, 26, 27, 28, 29, 30, 31]"

definition callee_saved_fpr_numbers :: "nat list" where
  "callee_saved_fpr_numbers = [8, 9, 10, 11, 12, 13, 14, 15]"

definition spill_scratch_fpr_numbers :: "nat list" where
  "spill_scratch_fpr_numbers = [20, 21, 22]"

definition spill_slot_bytes :: nat where
  "spill_slot_bytes = 8"

datatype bank = BankGpr | BankFpr

fun bank_of :: "register_class \<Rightarrow> bank option" where
  "bank_of Gpr64 = Some BankGpr"
| "bank_of Fpr64 = Some BankFpr"
| "bank_of Fpr32 = Some BankFpr"
| "bank_of Simd128 = Some BankFpr"
| "bank_of _ = None"

fun caller_pool_size :: "bank \<Rightarrow> nat" where
  "caller_pool_size BankGpr = length allocatable_gprs"
| "caller_pool_size BankFpr = length allocatable_fpr_numbers"

fun pool_size :: "bank \<Rightarrow> nat" where
  "pool_size BankGpr = length allocatable_gprs + length callee_saved_gprs"
| "pool_size BankFpr = length allocatable_fpr_numbers + length callee_saved_fpr_numbers"

definition is_callee_saved_index :: "bank \<Rightarrow> nat \<Rightarrow> bool" where
  "is_callee_saved_index b phys_index \<longleftrightarrow> phys_index \<ge> caller_pool_size b"

text \<open>The spelling of an FP register number in a class.\<close>

definition fpr_in_class :: "register_class \<Rightarrow> nat \<Rightarrow> register" where
  "fpr_in_class c number = (case c of Fpr32 \<Rightarrow> fpr32 number | Simd128 \<Rightarrow> simd128 number | _ \<Rightarrow> fpr64 number)"

text \<open>An index out of range panics.\<close>

definition array_at :: "'a list \<Rightarrow> nat \<Rightarrow> 'a option" where
  "array_at xs k = (if k < length xs then Some (xs ! k) else None)"

definition pool_register :: "bank \<Rightarrow> nat \<Rightarrow> register_class \<Rightarrow> register option" where
  "pool_register b phys_index c = (case b of
     BankGpr \<Rightarrow> if phys_index < length allocatable_gprs then array_at allocatable_gprs phys_index
                else array_at callee_saved_gprs (phys_index - length allocatable_gprs)
   | BankFpr \<Rightarrow> map_option (fpr_in_class c)
                (if phys_index < length allocatable_fpr_numbers then array_at allocatable_fpr_numbers phys_index
                 else array_at callee_saved_fpr_numbers (phys_index - length allocatable_fpr_numbers)))"

text \<open>The register of an index of the pool.\<close>

definition pool_reg :: "bank \<Rightarrow> nat \<Rightarrow> register_class \<Rightarrow> register" where
  "pool_reg b phys_index c = the (pool_register b phys_index c)"

lemma pool_register_pool:
  "pool_register b p c = (if p < pool_size b then Some (pool_reg b p c) else None)"
  by (cases b) (auto simp: pool_reg_def pool_register_def array_at_def)

definition gpr_number :: "register \<Rightarrow> nat" where
  "gpr_number r = (case r of Physical (PGpr64 n) \<Rightarrow> n | _ \<Rightarrow> 0)"

text \<open>The \<open>saved_regs\<close> bit: bits 0 to 31 are \<open>x0\<close> to \<open>x31\<close>, bits 32 to 63 \<open>d0\<close> to \<open>d31\<close>.\<close>

definition saved_reg_bit :: "bank \<Rightarrow> nat \<Rightarrow> nat" where
  "saved_reg_bit b phys_index = (case b of
     BankGpr \<Rightarrow> gpr_number (callee_saved_gprs ! (phys_index - length allocatable_gprs))
   | BankFpr \<Rightarrow> 32 + callee_saved_fpr_numbers ! (phys_index - length allocatable_fpr_numbers))"

definition saved_reg_mask_bit :: "bank \<Rightarrow> nat \<Rightarrow> nat" where
  "saved_reg_mask_bit b phys_index = push_bit (saved_reg_bit b phys_index) 1"

subsection \<open>Intervals and allocations\<close>

record live_interval =
  li_vreg :: virtual_register
  li_start :: nat
  li_end :: nat

record active_interval =
  ai_interval :: live_interval
  ai_phys :: nat

datatype allocation = Phys nat | Spill nat

record scan_state =
  ss_active :: "bank \<Rightarrow> active_interval list"
  ss_free :: "bank \<Rightarrow> nat list"
  ss_assignments :: "virtual_register \<rightharpoonup> allocation"
  ss_spill_slots :: nat
  ss_saved_mask :: nat

text \<open>Two slots from an even index for a 128-bit value, one slot otherwise: the slot and the new count.\<close>

definition take_spill_slots :: "nat \<Rightarrow> register_class \<Rightarrow> nat \<times> nat" where
  "take_spill_slots spill_slots c =
     (if c = Simd128 then let slot = (spill_slots + 1) div 2 * 2 in (slot, slot + 2)
      else (spill_slots, spill_slots + 1))"

definition expire_old_intervals :: "nat \<Rightarrow> active_interval list \<Rightarrow> nat list \<Rightarrow> active_interval list \<times> nat list" where
  "expire_old_intervals current_start active free =
     (filter (\<lambda>a. \<not> li_end (ai_interval a) < current_start) active,
      free @ map ai_phys (filter (\<lambda>a. li_end (ai_interval a) < current_start) active))"

subsection \<open>Spill-victim policies\<close>

text \<open>
  A policy is given the current interval, the active ones and which of them are
  eligible, and returns the victim, removed from the active ones, or \<open>None\<close> when
  the current interval itself is to be spilled.
\<close>

type_synonym policy =
  "live_interval \<Rightarrow> active_interval list \<Rightarrow> (active_interval \<Rightarrow> bool) \<Rightarrow> (active_interval \<times> active_interval list) option"

text \<open>\<open>Iterator::max_by\<close> keeps the last of equal elements, \<open>min_by\<close> the first.\<close>

fun max_by :: "('a \<Rightarrow> 'k :: linorder) \<Rightarrow> 'a list \<Rightarrow> 'a option" where
  "max_by key [] = None"
| "max_by key (x # xs) = (case max_by key xs of
     None \<Rightarrow> Some x | Some y \<Rightarrow> if key x \<le> key y then Some y else Some x)"

fun min_by :: "('a \<Rightarrow> 'k :: linorder) \<Rightarrow> 'a list \<Rightarrow> 'a option" where
  "min_by key [] = None"
| "min_by key (x # xs) = (case min_by key xs of
     None \<Rightarrow> Some x | Some y \<Rightarrow> if key x \<le> key y then Some x else Some y)"

definition spill_furthest_end :: policy where
  "spill_furthest_end current active eligible =
     (case max_by (\<lambda>a. (li_end (ai_interval a), ai_phys a)) (filter eligible active) of
        None \<Rightarrow> None
      | Some v \<Rightarrow> if li_end (ai_interval v) > li_end current then Some (v, remove1 v active) else None)"

text \<open>
  The weights are \<open>f64\<close>s: \<open>'w\<close> is ordered by \<open>total_cmp\<close>, \<open>lt\<close> is the operator \<open><\<close> and
  \<open>zero\<close> the constant \<open>0.0\<close>.
\<close>

definition weight_of :: "'w \<Rightarrow> (virtual_register \<rightharpoonup> 'w) \<Rightarrow> virtual_register \<Rightarrow> 'w" where
  "weight_of zero weights v = (case weights v of Some w \<Rightarrow> w | None \<Rightarrow> zero)"

definition spill_cheapest_weight ::
    "('w :: linorder \<Rightarrow> 'w \<Rightarrow> bool) \<Rightarrow> 'w \<Rightarrow> (virtual_register \<rightharpoonup> 'w) \<Rightarrow> policy" where
  "spill_cheapest_weight lt zero weights current active eligible =
     (case min_by (\<lambda>a. (weight_of zero weights (li_vreg (ai_interval a)), li_vreg (ai_interval a)))
             (filter eligible active) of
        None \<Rightarrow> None
      | Some v \<Rightarrow> if lt (weight_of zero weights (li_vreg (ai_interval v))) (weight_of zero weights (li_vreg current))
                  then Some (v, remove1 v active) else None)"

subsection \<open>The scan\<close>

text \<open>\<open>position\<close> and \<open>remove\<close> of the first free index that satisfies a predicate.\<close>

definition take_free :: "(nat \<Rightarrow> bool) \<Rightarrow> nat list \<Rightarrow> (nat \<times> nat list) option" where
  "take_free p free = map_option (\<lambda>x. (x, remove1 x free)) (find p free)"

definition admissible :: "bank \<Rightarrow> bool \<Rightarrow> bool \<Rightarrow> nat \<Rightarrow> bool" where
  "admissible b crossing is_q phys_index =
     (if crossing then is_callee_saved_index b phys_index
      else if is_q then \<not> is_callee_saved_index b phys_index
      else True)"

text \<open>Spilling one value: a slot for its class, recorded in the assignments.\<close>

definition spill_vreg :: "virtual_register \<Rightarrow> register_class \<Rightarrow> scan_state \<Rightarrow> scan_state" where
  "spill_vreg v c st = (case take_spill_slots (ss_spill_slots st) c of (slot, n) \<Rightarrow>
     st\<lparr>ss_assignments := (ss_assignments st)(v \<mapsto> Spill slot), ss_spill_slots := n\<rparr>)"

text \<open>The end of an iteration: the interval takes \<open>phys_index\<close>.\<close>

definition occupy :: "bank \<Rightarrow> live_interval \<Rightarrow> nat \<Rightarrow> scan_state \<Rightarrow> scan_state" where
  "occupy b i phys_index st =
     st\<lparr>ss_saved_mask := (if is_callee_saved_index b phys_index
          then ss_saved_mask st OR saved_reg_mask_bit b phys_index else ss_saved_mask st),
        ss_assignments := (ss_assignments st)(li_vreg i \<mapsto> Phys phys_index),
        ss_active := (ss_active st)(b := sort_key (\<lambda>a. (li_end (ai_interval a), ai_phys a))
          (ss_active st b @ [\<lparr>ai_interval = i, ai_phys = phys_index\<rparr>]))\<rparr>"

text \<open>
  The rest of an iteration, once the forced spill is ruled out: a free register, else the
  register of a victim, else a spill of the interval itself.  \<open>None\<close> where the code panics
  (a register without a class).
\<close>

definition assign_interval ::
    "policy \<Rightarrow> (virtual_register \<rightharpoonup> register_class) \<Rightarrow> bank \<Rightarrow> register_class \<Rightarrow> bool \<Rightarrow>
     live_interval \<Rightarrow> scan_state \<Rightarrow> scan_state option" where
  "assign_interval pick classes b c crossing i st =
     (let fits = admissible b crossing (c = Simd128) in
      case take_free fits (ss_free st b) of
        Some (x, free') \<Rightarrow> Some (occupy b i x (st\<lparr>ss_free := (ss_free st)(b := free')\<rparr>))
      | None \<Rightarrow>
          (case pick i (ss_active st b) (\<lambda>a. fits (ai_phys a)) of
             Some (victim, active') \<Rightarrow>
               (case classes (li_vreg (ai_interval victim)) of
                  None \<Rightarrow> None
                | Some victim_class \<Rightarrow>
                    Some (occupy b i (ai_phys victim)
                      (spill_vreg (li_vreg (ai_interval victim)) victim_class
                        (st\<lparr>ss_active := (ss_active st)(b := active')\<rparr>))))
           | None \<Rightarrow> Some (spill_vreg (li_vreg i) c st)))"

definition expire_bank :: "bank \<Rightarrow> nat \<Rightarrow> scan_state \<Rightarrow> scan_state" where
  "expire_bank b current_start st =
     (case expire_old_intervals current_start (ss_active st b) (ss_free st b) of (active, free) \<Rightarrow>
        st\<lparr>ss_active := (ss_active st)(b := active), ss_free := (ss_free st)(b := sort free)\<rparr>)"

definition scan_step ::
    "policy \<Rightarrow> (virtual_register \<rightharpoonup> register_class) \<Rightarrow> virtual_register set \<Rightarrow>
     live_interval \<Rightarrow> scan_state \<Rightarrow> scan_state option" where
  "scan_step pick classes call_crossing i st =
     (case classes (li_vreg i) of None \<Rightarrow> None | Some c \<Rightarrow>
        (case bank_of c of None \<Rightarrow> None | Some b \<Rightarrow>
           (let crossing = li_vreg i \<in> call_crossing in
            if c = Simd128 \<and> crossing then Some (spill_vreg (li_vreg i) c st)
            else assign_interval pick classes b c crossing i (expire_bank b (li_start i) st))))"

definition initial_scan :: scan_state where
  "initial_scan = \<lparr>ss_active = (\<lambda>_. []), ss_free = (\<lambda>b. [0..<pool_size b]), ss_assignments = Map.empty,
     ss_spill_slots = 0, ss_saved_mask = 0\<rparr>"

fun scan_intervals ::
    "policy \<Rightarrow> (virtual_register \<rightharpoonup> register_class) \<Rightarrow> virtual_register set \<Rightarrow>
     live_interval list \<Rightarrow> scan_state \<Rightarrow> scan_state option" where
  "scan_intervals pick classes call_crossing [] st = Some st"
| "scan_intervals pick classes call_crossing (i # ivs) st =
     Option.bind (scan_step pick classes call_crossing i st)
       (scan_intervals pick classes call_crossing ivs)"

definition linear_scan ::
    "('w :: linorder \<Rightarrow> 'w \<Rightarrow> bool) \<Rightarrow> 'w \<Rightarrow> live_interval list \<Rightarrow>
     (virtual_register \<rightharpoonup> register_class) \<Rightarrow> virtual_register set \<Rightarrow>
     (virtual_register \<rightharpoonup> 'w) option \<Rightarrow> scan_state option" where
  "linear_scan lt zero intervals classes call_crossing weights =
     scan_intervals
       (case weights of None \<Rightarrow> spill_furthest_end | Some w \<Rightarrow> spill_cheapest_weight lt zero w)
       classes call_crossing intervals initial_scan"

definition align_to_16 :: "nat \<Rightarrow> nat" where
  "align_to_16 bytes = (bytes + 15) div 16 * 16"

subsection \<open>The scan's invariant\<close>

text \<open>The bank a value competes in.\<close>

definition vbank :: "(virtual_register \<rightharpoonup> register_class) \<Rightarrow> virtual_register \<Rightarrow> bank option" where
  "vbank classes v = Option.bind (classes v) bank_of"

text \<open>
  Each register of a bank is free, held by one active interval, or in \<open>held\<close>: taken and not yet
  given to the interval the iteration places.
\<close>

definition pools_ok :: "(bank \<Rightarrow> nat multiset) \<Rightarrow> scan_state \<Rightarrow> bool" where
  "pools_ok held st \<longleftrightarrow> (\<forall>b. held b + mset (ss_free st b) + image_mset ai_phys (mset (ss_active st b))
     = mset [0..<pool_size b])"

definition active_ok :: "(virtual_register \<rightharpoonup> register_class) \<Rightarrow> live_interval set \<Rightarrow> scan_state \<Rightarrow> bool" where
  "active_ok classes seen st \<longleftrightarrow> (\<forall>b. \<forall>a \<in> set (ss_active st b). ai_interval a \<in> seen \<and>
     vbank classes (li_vreg (ai_interval a)) = Some b \<and>
     ss_assignments st (li_vreg (ai_interval a)) = Some (Phys (ai_phys a)))"

text \<open>What an interval's class and its crossing of a call allow.\<close>

definition allowed :: "(virtual_register \<rightharpoonup> register_class) \<Rightarrow> virtual_register set \<Rightarrow> virtual_register \<Rightarrow> bank \<Rightarrow> nat \<Rightarrow> bool" where
  "allowed classes call_crossing v b p \<longleftrightarrow> p < pool_size b \<and>
     (v \<in> call_crossing \<longrightarrow> is_callee_saved_index b p) \<and>
     (classes v = Some Simd128 \<longrightarrow> \<not> is_callee_saved_index b p \<and> v \<notin> call_crossing)"

definition phys_ok ::
    "(virtual_register \<rightharpoonup> register_class) \<Rightarrow> virtual_register set \<Rightarrow> nat \<Rightarrow> live_interval set \<Rightarrow> scan_state \<Rightarrow> bool" where
  "phys_ok classes call_crossing t seen st \<longleftrightarrow> (\<forall>i \<in> seen. \<forall>b p.
     vbank classes (li_vreg i) = Some b \<longrightarrow> ss_assignments st (li_vreg i) = Some (Phys p) \<longrightarrow>
     allowed classes call_crossing (li_vreg i) b p \<and>
     (is_callee_saved_index b p \<longrightarrow> bit (ss_saved_mask st) (saved_reg_bit b p)) \<and>
     (li_end i < t \<or> (\<exists>a \<in> set (ss_active st b). ai_interval a = i \<and> ai_phys a = p)))"

definition apart :: "live_interval \<Rightarrow> live_interval \<Rightarrow> bool" where
  "apart i j \<longleftrightarrow> li_end i < li_start j \<or> li_end j < li_start i"

definition disjoint_ok :: "(virtual_register \<rightharpoonup> register_class) \<Rightarrow> live_interval set \<Rightarrow> scan_state \<Rightarrow> bool" where
  "disjoint_ok classes seen st \<longleftrightarrow> (\<forall>i \<in> seen. \<forall>j \<in> seen. \<forall>p. i \<noteq> j \<longrightarrow>
     vbank classes (li_vreg i) = vbank classes (li_vreg j) \<longrightarrow>
     ss_assignments st (li_vreg i) = Some (Phys p) \<longrightarrow> ss_assignments st (li_vreg j) = Some (Phys p) \<longrightarrow>
     apart i j)"

definition slot_count :: "register_class option \<Rightarrow> nat" where
  "slot_count c = (if c = Some Simd128 then 2 else 1)"

definition slots_of :: "(virtual_register \<rightharpoonup> register_class) \<Rightarrow> virtual_register \<Rightarrow> nat \<Rightarrow> nat set" where
  "slots_of classes v s = {s ..< s + slot_count (classes v)}"

definition spills_ok :: "(virtual_register \<rightharpoonup> register_class) \<Rightarrow> scan_state \<Rightarrow> bool" where
  "spills_ok classes st \<longleftrightarrow>
     (\<forall>v s. ss_assignments st v = Some (Spill s) \<longrightarrow>
        slots_of classes v s \<subseteq> {..< ss_spill_slots st} \<and> (classes v = Some Simd128 \<longrightarrow> even s)) \<and>
     (\<forall>v w s r. v \<noteq> w \<longrightarrow> ss_assignments st v = Some (Spill s) \<longrightarrow> ss_assignments st w = Some (Spill r) \<longrightarrow>
        slots_of classes v s \<inter> slots_of classes w r = {})"

definition scan_inv ::
    "(virtual_register \<rightharpoonup> register_class) \<Rightarrow> virtual_register set \<Rightarrow> (bank \<Rightarrow> nat multiset) \<Rightarrow>
     nat \<Rightarrow> live_interval set \<Rightarrow> scan_state \<Rightarrow> bool" where
  "scan_inv classes call_crossing held t seen st \<longleftrightarrow>
     pools_ok held st \<and> active_ok classes seen st \<and> phys_ok classes call_crossing t seen st \<and>
     disjoint_ok classes seen st \<and> spills_ok classes st \<and> dom (ss_assignments st) = li_vreg ` seen \<and>
     inj_on li_vreg seen"

abbreviation none_held :: "bank \<Rightarrow> nat multiset" where
  "none_held \<equiv> (\<lambda>_. {#})"

lemma scan_invD:
  assumes "scan_inv classes call_crossing held t seen st"
  shows "pools_ok held st" "active_ok classes seen st" "phys_ok classes call_crossing t seen st"
    "disjoint_ok classes seen st" "spills_ok classes st" "dom (ss_assignments st) = li_vreg ` seen"
    "inj_on li_vreg seen"
  using assms by (simp_all add: scan_inv_def)

lemma initial_scan_inv: "scan_inv classes call_crossing none_held 0 {} initial_scan"
  by (simp add: scan_inv_def initial_scan_def pools_ok_def active_ok_def phys_ok_def disjoint_ok_def spills_ok_def)

text \<open>Expiring keeps it, and moves its time forward.\<close>

lemma expire_bank_inv:
  assumes "scan_inv classes call_crossing held t seen st" "t \<le> t'"
  shows "scan_inv classes call_crossing held t' seen (expire_bank b t' st)"
proof -
  let ?P = "\<lambda>a. li_end (ai_interval a) < t'"
  have part: "image_mset ai_phys (mset (ss_active st b))
      = image_mset ai_phys (filter_mset ?P (mset (ss_active st b)))
      + image_mset ai_phys (filter_mset (\<lambda>a. \<not> ?P a) (mset (ss_active st b)))"
    by (simp flip: image_mset_union)
  have "pools_ok held (expire_bank b t' st)"
    unfolding pools_ok_def
  proof
    fix b'
    have "held b' + mset (ss_free st b') + image_mset ai_phys (mset (ss_active st b')) = mset [0..<pool_size b']"
      for b' using scan_invD(1)[OF assms(1)] by (simp add: pools_ok_def)
    from this[of b'] this[of b, unfolded part]
    show "held b' + mset (ss_free (expire_bank b t' st) b') +
        image_mset ai_phys (mset (ss_active (expire_bank b t' st) b')) = mset [0..<pool_size b']"
      by (simp add: expire_bank_def expire_old_intervals_def ac_simps)
  qed
  moreover have "active_ok classes seen (expire_bank b t' st)"
    using scan_invD(2)[OF assms(1)]
    by (auto simp: active_ok_def expire_bank_def expire_old_intervals_def)
  moreover have "phys_ok classes call_crossing t' seen (expire_bank b t' st)"
    using scan_invD(3)[OF assms(1)] assms(2)
    by (fastforce simp: phys_ok_def expire_bank_def expire_old_intervals_def not_less)
  ultimately show ?thesis
    using scan_invD[OF assms(1)]
    by (simp add: scan_inv_def disjoint_ok_def spills_ok_def expire_bank_def expire_old_intervals_def)
qed

lemma later_inv:
  assumes "scan_inv classes call_crossing held t seen st" "t \<le> t'"
  shows "scan_inv classes call_crossing held t' seen st"
  using assms by (fastforce simp: scan_inv_def phys_ok_def)

text \<open>A spill of a value that holds no register: a new one, or one that has just lost its own.\<close>

lemma take_spill_slots_props:
  assumes "take_spill_slots n c = (s, n')"
  shows "n \<le> s" "s + slot_count (Some c) = n'" "c = Simd128 \<Longrightarrow> even s"
  using assms by (auto simp: take_spill_slots_def slot_count_def Let_def split: if_splits)

lemma spill_vreg_assignments:
  "ss_assignments (spill_vreg v c st) w =
     (if w = v then Some (Spill (fst (take_spill_slots (ss_spill_slots st) c))) else ss_assignments st w)"
  by (simp add: spill_vreg_def split: prod.split)

lemma spill_vreg_simps [simp]:
  "ss_active (spill_vreg v c st) = ss_active st"
  "ss_free (spill_vreg v c st) = ss_free st"
  "ss_saved_mask (spill_vreg v c st) = ss_saved_mask st"
  by (simp_all add: spill_vreg_def split: prod.split)

lemma spills_ok_spill:
  assumes "spills_ok classes st" "classes v = Some c" "\<And>s. ss_assignments st v \<noteq> Some (Spill s)"
  shows "spills_ok classes (spill_vreg v c st)"
proof -
  obtain s n' where t: "take_spill_slots (ss_spill_slots st) c = (s, n')" by fastforce
  note pr = take_spill_slots_props[OF t]
  have new: "slots_of classes v s \<inter> slots_of classes w r = {}" "slots_of classes w r \<inter> slots_of classes v s = {}"
    if "ss_assignments st w = Some (Spill r)" for w r
    using assms(1) that pr(1) by (fastforce simp: spills_ok_def slots_of_def)+
  have "slots_of classes w r \<subseteq> {..<n'}" if "ss_assignments st w = Some (Spill r)" for w r
    using assms(1) that pr by (fastforce simp: spills_ok_def)
  then show ?thesis
    using assms pr new
    by (auto simp: spills_ok_def spill_vreg_def t slots_of_def[of _ v])
qed

lemma spill_new_inv:
  assumes inv: "scan_inv classes call_crossing none_held t seen st" and c: "classes (li_vreg i) = Some c"
    and new: "li_vreg i \<notin> li_vreg ` seen"
  shows "scan_inv classes call_crossing none_held t (insert i seen) (spill_vreg (li_vreg i) c st)"
proof -
  let ?st = "spill_vreg (li_vreg i) c st"
  have fresh: "ss_assignments st (li_vreg i) = None" using scan_invD(6)[OF inv] new by blast
  have other: "li_vreg j \<noteq> li_vreg i" if "j \<in> seen" for j using new that by (metis imageI)
  have "active_ok classes (insert i seen) ?st"
    using scan_invD(2)[OF inv] other by (simp add: active_ok_def spill_vreg_assignments)
  moreover have "phys_ok classes call_crossing t (insert i seen) ?st"
    using scan_invD(3)[OF inv] by (simp add: phys_ok_def spill_vreg_assignments)
  moreover have "disjoint_ok classes (insert i seen) ?st"
    using scan_invD(4)[OF inv] by (simp add: disjoint_ok_def spill_vreg_assignments)
  moreover have "spills_ok classes ?st"
    using scan_invD(5)[OF inv] c fresh by (intro spills_ok_spill) auto
  moreover have "dom (ss_assignments ?st) = li_vreg ` insert i seen"
    using scan_invD(6)[OF inv] by (auto simp: spill_vreg_def split: prod.split)
  ultimately show ?thesis
    using scan_invD(1,7)[OF inv] new by (auto simp: scan_inv_def pools_ok_def)
qed

text \<open>A free register taken from its pool.\<close>

lemma take_free_props:
  assumes "take_free p free = Some (x, free')"
  shows "p x" "x \<in> set free" "free' = remove1 x free"
  using assms by (auto simp: take_free_def find_Some_iff)

lemma take_free_none: "take_free p free = None \<longleftrightarrow> (\<forall>x \<in> set free. \<not> p x)"
  by (auto simp: take_free_def find_None_iff)

lemma take_free_inv:
  assumes inv: "scan_inv classes call_crossing none_held t seen st"
    and tk: "take_free p (ss_free st b) = Some (x, free')"
  shows "scan_inv classes call_crossing (none_held(b := {#x#})) t seen (st\<lparr>ss_free := (ss_free st)(b := free')\<rparr>)"
proof -
  have "pools_ok (none_held(b := {#x#})) (st\<lparr>ss_free := (ss_free st)(b := free')\<rparr>)"
    using scan_invD(1)[OF inv] take_free_props[OF tk] by (simp add: pools_ok_def)
  then show ?thesis
    using scan_invD[OF inv]
    by (simp add: scan_inv_def active_ok_def phys_ok_def disjoint_ok_def spills_ok_def)
qed

text \<open>A register is in one place.\<close>

lemma pools_ok_distinct:
  assumes "pools_ok held st"
  shows "distinct (map ai_phys (ss_active st b))" "q \<in># held b \<Longrightarrow> q \<notin> ai_phys ` set (ss_active st b)"
    "q \<in># held b \<Longrightarrow> q < pool_size b" "q \<in> set (ss_free st b) \<Longrightarrow> q < pool_size b"
    "a \<in> set (ss_active st b) \<Longrightarrow> ai_phys a < pool_size b"
proof -
  let ?A = "mset (map ai_phys (ss_active st b))"
  have eq: "held b + mset (ss_free st b) + ?A = mset [0..<pool_size b]"
    using assms by (simp add: pools_ok_def)
  have one: "count (held b) x + count (mset (ss_free st b)) x + count ?A x \<le> 1" for x
    using arg_cong[OF eq, of "\<lambda>m. count m x"] by (simp add: count_mset_set' del: mset_map split: if_splits)
  show "distinct (map ai_phys (ss_active st b))"
    unfolding distinct_count_atmost_1
  proof
    fix x
    show "count ?A x = (if x \<in> set (map ai_phys (ss_active st b)) then 1 else 0)"
      using one[of x] by (metis add_leE count_mset_0_iff le_neq_implies_less less_one)
  qed
  show "q \<notin> ai_phys ` set (ss_active st b)" if "q \<in># held b"
  proof
    assume "q \<in> ai_phys ` set (ss_active st b)"
    then have "q \<in># ?A" by simp
    then have "1 \<le> count ?A q" "1 \<le> count (held b) q"
      using that by (simp_all add: Suc_le_eq count_greater_zero_iff del: mset_map)
    with one[of q] show False by linarith
  qed
  have mem: "set_mset (held b) \<union> set (ss_free st b) \<union> ai_phys ` set (ss_active st b) = {..<pool_size b}"
    using arg_cong[OF eq, of set_mset] by auto
  show "q < pool_size b" if "q \<in># held b" using mem that by blast
  show "q < pool_size b" if "q \<in> set (ss_free st b)" using mem that by blast
  show "ai_phys a < pool_size b" if "a \<in> set (ss_active st b)" using mem that by blast
qed

text \<open>An interval loses its register.\<close>

lemma evict_inv:
  assumes inv: "scan_inv classes call_crossing none_held t seen st"
    and v: "v \<in> set (ss_active st b)" and c: "classes (li_vreg (ai_interval v)) = Some c"
  shows "scan_inv classes call_crossing (none_held(b := {#ai_phys v#})) t seen
     (spill_vreg (li_vreg (ai_interval v)) c
       (st\<lparr>ss_active := (ss_active st)(b := remove1 v (ss_active st b))\<rparr>))"
proof -
  let ?r = "remove1 v (ss_active st b)"
  let ?s = "st\<lparr>ss_active := (ss_active st)(b := ?r)\<rparr>"
  let ?st = "spill_vreg (li_vreg (ai_interval v)) c ?s"
  note act = scan_invD(2)[OF inv, unfolded active_ok_def, rule_format]
  have ms: "mset (ss_active st b) = add_mset v (mset ?r)" using v by simp
  have pools: "pools_ok (none_held(b := {#ai_phys v#})) ?st"
    unfolding pools_ok_def
  proof
    fix b'
    have "mset (ss_free st b') + image_mset ai_phys (mset (ss_active st b')) = mset [0..<pool_size b']"
      for b' using scan_invD(1)[OF inv] by (simp add: pools_ok_def)
    from this[of b'] this[of b, unfolded ms]
    show "(none_held(b := {#ai_phys v#})) b' + mset (ss_free ?st b') + image_mset ai_phys (mset (ss_active ?st b'))
        = mset [0..<pool_size b']" by simp
  qed
  have dist: "distinct (ss_active st b)"
    using pools_ok_distinct(1)[OF scan_invD(1)[OF inv]] distinct_map by blast
  have gone: "set ?r = set (ss_active st b) - {v}" using dist by simp
  have same: "a = v" if "a \<in> set (ss_active st b)" "li_vreg (ai_interval a) = li_vreg (ai_interval v)" for a
  proof -
    have "ai_interval a = ai_interval v"
      using act[OF that(1)] act[OF v] that(2) scan_invD(7)[OF inv] by (auto simp: inj_on_def)
    moreover have "ai_phys a = ai_phys v" using act[OF that(1)] act[OF v] that(2) by simp
    ultimately show ?thesis by simp
  qed
  have other: "li_vreg (ai_interval a) \<noteq> li_vreg (ai_interval v)" if "a \<in> set (ss_active ?st b')" for a b'
  proof (cases "b' = b")
    case True then show ?thesis using same that gone by auto
  next
    case False then show ?thesis using act[of a b'] act[OF v] that by auto
  qed
  have "active_ok classes seen ?st"
    unfolding active_ok_def
  proof (intro allI ballI)
    fix b' a assume a: "a \<in> set (ss_active ?st b')"
    then have "a \<in> set (ss_active st b')" using gone by (auto split: if_splits)
    then show "ai_interval a \<in> seen \<and> vbank classes (li_vreg (ai_interval a)) = Some b' \<and>
        ss_assignments ?st (li_vreg (ai_interval a)) = Some (Phys (ai_phys a))"
      using act other[OF a] by (simp add: spill_vreg_assignments)
  qed
  moreover have "phys_ok classes call_crossing t seen ?st"
    unfolding phys_ok_def
  proof (intro ballI allI impI)
    fix i b' p
    assume i: "i \<in> seen" "vbank classes (li_vreg i) = Some b'" "ss_assignments ?st (li_vreg i) = Some (Phys p)"
    then have ne: "li_vreg i \<noteq> li_vreg (ai_interval v)" and "ss_assignments st (li_vreg i) = Some (Phys p)"
      by (auto simp: spill_vreg_assignments split: if_splits)
    note old = scan_invD(3)[OF inv, unfolded phys_ok_def, rule_format, OF i(1,2) this(2)]
    have "a \<in> set (ss_active ?st b')" if "a \<in> set (ss_active st b')" "ai_interval a = i" for a
      using that ne gone by auto
    then show "allowed classes call_crossing (li_vreg i) b' p \<and>
        (is_callee_saved_index b' p \<longrightarrow> bit (ss_saved_mask ?st) (saved_reg_bit b' p)) \<and>
        (li_end i < t \<or> (\<exists>a \<in> set (ss_active ?st b'). ai_interval a = i \<and> ai_phys a = p))"
      using old by auto
  qed
  moreover have "disjoint_ok classes seen ?st"
    using scan_invD(4)[OF inv] by (simp add: disjoint_ok_def spill_vreg_assignments)
  moreover have "spills_ok classes ?st"
    using scan_invD(5)[OF inv] c act[OF v] by (intro spills_ok_spill) (auto simp: spills_ok_def)
  moreover have "dom (ss_assignments ?st) = li_vreg ` seen"
    using scan_invD(6)[OF inv] act[OF v] by (auto simp: spill_vreg_assignments dom_def)
  ultimately show ?thesis
    using scan_invD(7)[OF inv] pools by (simp add: scan_inv_def)
qed

text \<open>The interval takes the register held for it.\<close>

lemma occupy_assignments [simp]:
  "ss_assignments (occupy b i p st) = (ss_assignments st)(li_vreg i \<mapsto> Phys p)"
  "ss_spill_slots (occupy b i p st) = ss_spill_slots st"
  by (simp_all add: occupy_def)

lemma occupy_active:
  "set (ss_active (occupy b i p st) b') =
     (if b' = b then insert \<lparr>ai_interval = i, ai_phys = p\<rparr> (set (ss_active st b)) else set (ss_active st b'))"
  by (simp add: occupy_def)

lemma saved_reg_bit_mask: "bit (saved_reg_mask_bit b p) n \<longleftrightarrow> n = saved_reg_bit b p"
  by (auto simp: saved_reg_mask_bit_def bit_simps)

lemma occupy_mask:
  "bit (ss_saved_mask (occupy b i p st)) n \<longleftrightarrow>
     bit (ss_saved_mask st) n \<or> (is_callee_saved_index b p \<and> n = saved_reg_bit b p)"
  by (simp add: occupy_def saved_reg_bit_mask bit_or_iff)

lemma occupy_inv:
  assumes inv: "scan_inv classes call_crossing (none_held(b := {#p#})) t seen st"
    and new: "li_vreg i \<notin> li_vreg ` seen" and bk: "vbank classes (li_vreg i) = Some b"
    and ok: "allowed classes call_crossing (li_vreg i) b p" and t: "t \<le> li_start i"
  shows "scan_inv classes call_crossing none_held t (insert i seen) (occupy b i p st)"
proof -
  let ?st = "occupy b i p st"
  have other: "li_vreg j \<noteq> li_vreg i" if "j \<in> seen" for j using new that by (metis imageI)
  have held: "p \<notin> ai_phys ` set (ss_active st b)"
    using pools_ok_distinct(2)[OF scan_invD(1)[OF inv], of p b] by simp
  have "pools_ok none_held ?st"
    unfolding pools_ok_def
  proof
    fix b'
    have "(none_held(b := {#p#})) b' + mset (ss_free st b') + image_mset ai_phys (mset (ss_active st b'))
        = mset [0..<pool_size b']" using scan_invD(1)[OF inv] unfolding pools_ok_def by blast
    then show "none_held b' + mset (ss_free ?st b') + image_mset ai_phys (mset (ss_active ?st b'))
        = mset [0..<pool_size b']"
      by (cases "b' = b") (simp_all add: occupy_def)
  qed
  moreover have "active_ok classes (insert i seen) ?st"
    using scan_invD(2)[OF inv] other bk by (auto simp: active_ok_def occupy_active split: if_splits)
  moreover have "phys_ok classes call_crossing t (insert i seen) ?st"
    unfolding phys_ok_def
  proof (intro ballI allI impI)
    fix j b' q
    assume j: "j \<in> insert i seen" "vbank classes (li_vreg j) = Some b'" "ss_assignments ?st (li_vreg j) = Some (Phys q)"
    show "allowed classes call_crossing (li_vreg j) b' q \<and>
        (is_callee_saved_index b' q \<longrightarrow> bit (ss_saved_mask ?st) (saved_reg_bit b' q)) \<and>
        (li_end j < t \<or> (\<exists>a \<in> set (ss_active ?st b'). ai_interval a = j \<and> ai_phys a = q))"
    proof (cases "j = i")
      case True
      then show ?thesis using j bk ok by (auto simp: occupy_active occupy_mask)
    next
      case False
      then have "j \<in> seen" "ss_assignments st (li_vreg j) = Some (Phys q)" using j other by auto
      note old = scan_invD(3)[OF inv, unfolded phys_ok_def, rule_format, OF this(1) j(2) this(2)]
      then show ?thesis by (auto simp: occupy_active occupy_mask)
    qed
  qed
  moreover have "disjoint_ok classes (insert i seen) ?st"
  proof -
    have ap: "li_end j < li_start i"
      if "j \<in> seen" "vbank classes (li_vreg j) = Some b" "ss_assignments st (li_vreg j) = Some (Phys p)" for j
      using scan_invD(3)[OF inv, unfolded phys_ok_def, rule_format, OF that] held t by fastforce
    show ?thesis
      using scan_invD(4)[OF inv] ap other bk
      by (auto simp: disjoint_ok_def apart_def)
  qed
  moreover have "spills_ok classes ?st"
    using scan_invD(5)[OF inv] by (simp add: spills_ok_def)
  moreover have "dom (ss_assignments ?st) = li_vreg ` insert i seen"
    using scan_invD(6)[OF inv] by simp
  ultimately show ?thesis
    using scan_invD(7)[OF inv] new by (auto simp: scan_inv_def)
qed

subsection \<open>The policies\<close>

text \<open>What the scan relies on: a victim is an eligible active interval, and it is taken out.\<close>

locale spill_policy =
  fixes pick :: policy
  assumes pick_victim:
    "pick i active eligible = Some (v, rest) \<Longrightarrow> v \<in> set active \<and> eligible v \<and> rest = remove1 v active"
begin

lemma assign_interval_inv:
  assumes inv: "scan_inv classes call_crossing none_held t seen st"
    and new: "li_vreg i \<notin> li_vreg ` seen" and c: "classes (li_vreg i) = Some c" "bank_of c = Some b"
    and t: "t \<le> li_start i" and q: "\<not> (c = Simd128 \<and> li_vreg i \<in> call_crossing)"
    and run: "assign_interval pick classes b c (li_vreg i \<in> call_crossing) i st = Some st'"
  shows "scan_inv classes call_crossing none_held t (insert i seen) st'"
proof -
  let ?fits = "admissible b (li_vreg i \<in> call_crossing) (c = Simd128)"
  have bk: "vbank classes (li_vreg i) = Some b" using c by (simp add: vbank_def)
  have ok: "allowed classes call_crossing (li_vreg i) b p" if "?fits p" "p < pool_size b" for p
    using that c q by (auto simp: allowed_def admissible_def split: if_splits)
  show ?thesis
  proof (cases "take_free ?fits (ss_free st b)")
    case (Some xf)
    then obtain x free' where xf: "take_free ?fits (ss_free st b) = Some (x, free')" by (cases xf) simp
    note pr = take_free_props[OF xf]
    from run xf have "st' = occupy b i x (st\<lparr>ss_free := (ss_free st)(b := free')\<rparr>)"
      by (simp add: assign_interval_def Let_def)
    then show ?thesis
      using occupy_inv[OF take_free_inv[OF inv xf] new bk ok[OF pr(1)] t]
        pools_ok_distinct(4)[OF scan_invD(1)[OF inv] pr(2)] by simp
  next
    case None
    show ?thesis
    proof (cases "pick i (ss_active st b) (\<lambda>a. ?fits (ai_phys a))")
      case Nopick: None
      with run None have "st' = spill_vreg (li_vreg i) c st" by (simp add: assign_interval_def Let_def)
      then show ?thesis using spill_new_inv[OF inv c(1) new] by simp
    next
      case (Some vr)
      then obtain v rest where pk: "pick i (ss_active st b) (\<lambda>a. ?fits (ai_phys a)) = Some (v, rest)"
        by (cases vr) simp
      note vp = pick_victim[OF pk]
      from run None pk obtain vc where vc: "classes (li_vreg (ai_interval v)) = Some vc"
        and st': "st' = occupy b i (ai_phys v) (spill_vreg (li_vreg (ai_interval v)) vc
            (st\<lparr>ss_active := (ss_active st)(b := rest)\<rparr>))"
        by (auto simp: assign_interval_def Let_def split: option.splits)
      have "ai_phys v < pool_size b" using pools_ok_distinct(5)[OF scan_invD(1)[OF inv]] vp by blast
      then show ?thesis
        using occupy_inv[OF evict_inv[OF inv _ vc] new bk ok t] vp st' by blast
    qed
  qed
qed

lemma scan_step_inv:
  assumes inv: "scan_inv classes call_crossing none_held t seen st"
    and new: "li_vreg i \<notin> li_vreg ` seen" and t: "t \<le> li_start i"
    and run: "scan_step pick classes call_crossing i st = Some st'"
  shows "scan_inv classes call_crossing none_held (li_start i) (insert i seen) st'"
proof -
  from run obtain c b where c: "classes (li_vreg i) = Some c" "bank_of c = Some b"
    by (auto simp: scan_step_def split: option.splits)
  show ?thesis
  proof (cases "c = Simd128 \<and> li_vreg i \<in> call_crossing")
    case True
    then have "st' = spill_vreg (li_vreg i) c st" using run c by (simp add: scan_step_def)
    then show ?thesis using later_inv[OF spill_new_inv[OF inv c(1) new] t] by simp
  next
    case False
    then have "assign_interval pick classes b c (li_vreg i \<in> call_crossing) i (expire_bank b (li_start i) st) = Some st'"
      using run c by (auto simp: scan_step_def)
    from assign_interval_inv[OF expire_bank_inv[OF inv t] new c order_refl False this] show ?thesis .
  qed
qed

lemma scan_intervals_inv:
  assumes "scan_inv classes call_crossing none_held t seen st"
    and "\<forall>i \<in> set ivs. li_vreg i \<notin> li_vreg ` seen" "distinct (map li_vreg ivs)"
    and "sorted (map li_start ivs)" "\<forall>i \<in> set ivs. t \<le> li_start i"
    and "scan_intervals pick classes call_crossing ivs st = Some st'"
  shows "\<exists>t'. scan_inv classes call_crossing none_held t' (seen \<union> set ivs) st'"
  using assms
proof (induction ivs arbitrary: st seen t)
  case Nil
  then show ?case by auto
next
  case (Cons i ivs)
  from Cons.prems(6) obtain st1 where st1: "scan_step pick classes call_crossing i st = Some st1"
    "scan_intervals pick classes call_crossing ivs st1 = Some st'"
    by (auto simp: Option.bind_eq_Some_conv)
  have later: "\<forall>j \<in> set ivs. li_vreg j \<notin> li_vreg ` insert i seen" "distinct (map li_vreg ivs)"
    "sorted (map li_start ivs)" "\<forall>j \<in> set ivs. li_start i \<le> li_start j"
    using Cons.prems(2-4) by (auto simp: image_iff)
  have here: "li_vreg i \<notin> li_vreg ` seen" "t \<le> li_start i" using Cons.prems(2,5) by simp_all
  from Cons.IH[OF scan_step_inv[OF Cons.prems(1) here st1(1)] later st1(2)]
  show ?case by (simp add: insert_commute)
qed

text \<open>The whole scan: the code never panics when every interval has an allocatable class.\<close>

lemma scan_step_runs:
  assumes inv: "scan_inv classes call_crossing none_held t seen st"
    and cls: "\<forall>j \<in> insert i seen. vbank classes (li_vreg j) \<noteq> None" and t: "t \<le> li_start i"
  shows "\<exists>st'. scan_step pick classes call_crossing i st = Some st'"
proof -
  from cls obtain c b where c: "classes (li_vreg i) = Some c" "bank_of c = Some b"
    by (auto simp: vbank_def Option.bind_eq_None_conv)
  have "\<exists>st'. assign_interval pick classes b c x i (expire_bank b (li_start i) st) = Some st'" for x
  proof -
    let ?st = "expire_bank b (li_start i) st"
    have "classes (li_vreg (ai_interval v)) \<noteq> None" if "v \<in> set (ss_active ?st b)" for v
    proof -
      have "vbank classes (li_vreg (ai_interval v)) = Some b"
        using scan_invD(2)[OF expire_bank_inv[OF inv t, of b]] that by (simp add: active_ok_def)
      then show ?thesis by (auto simp: vbank_def Option.bind_eq_Some_conv)
    qed
    then show ?thesis
      using pick_victim by (fastforce simp: assign_interval_def Let_def split: option.splits)
  qed
  then show ?thesis using c by (auto simp: scan_step_def Let_def)
qed

lemma scan_intervals_run:
  assumes "scan_inv classes call_crossing none_held t seen st"
    and "\<forall>i \<in> set ivs. li_vreg i \<notin> li_vreg ` seen" "distinct (map li_vreg ivs)"
    and "sorted (map li_start ivs)" "\<forall>i \<in> set ivs. t \<le> li_start i"
    and "\<forall>j \<in> seen \<union> set ivs. vbank classes (li_vreg j) \<noteq> None"
  shows "\<exists>st'. scan_intervals pick classes call_crossing ivs st = Some st'"
  using assms
proof (induction ivs arbitrary: st seen t)
  case Nil
  then show ?case by auto
next
  case (Cons i ivs)
  have later: "\<forall>j \<in> set ivs. li_vreg j \<notin> li_vreg ` insert i seen" "distinct (map li_vreg ivs)"
    "sorted (map li_start ivs)" "\<forall>j \<in> set ivs. li_start i \<le> li_start j"
    using Cons.prems(2-4) by (auto simp: image_iff)
  have here: "li_vreg i \<notin> li_vreg ` seen" "t \<le> li_start i" using Cons.prems(2,5) by simp_all
  have cls: "\<forall>j \<in> insert i seen. vbank classes (li_vreg j) \<noteq> None"
    "\<forall>j \<in> insert i seen \<union> set ivs. vbank classes (li_vreg j) \<noteq> None"
    using Cons.prems(6) by simp_all
  obtain st1 where st1: "scan_step pick classes call_crossing i st = Some st1"
    using scan_step_runs[OF Cons.prems(1) cls(1) here(2)] by blast
  from Cons.IH[OF scan_step_inv[OF Cons.prems(1) here st1] later cls(2)] show ?case
    by (simp add: st1)
qed

end

lemma max_by_in: "max_by key xs = Some v \<Longrightarrow> v \<in> set xs"
  by (induction xs arbitrary: v) (auto split: option.splits if_splits)

lemma min_by_in: "min_by key xs = Some v \<Longrightarrow> v \<in> set xs"
  by (induction xs arbitrary: v) (auto split: option.splits if_splits)

interpretation furthest: spill_policy spill_furthest_end
  by unfold_locales (auto simp: spill_furthest_end_def dest!: max_by_in split: option.splits if_splits)

interpretation cheapest: spill_policy "spill_cheapest_weight lt zero weights" for lt zero weights
  by unfold_locales (auto simp: spill_cheapest_weight_def dest!: min_by_in split: option.splits if_splits)

subsection \<open>The scan as a whole\<close>

text \<open>What \<open>collect_live_intervals\<close> hands over.\<close>

definition scan_input_ok :: "(virtual_register \<rightharpoonup> register_class) \<Rightarrow> live_interval list \<Rightarrow> bool" where
  "scan_input_ok classes ivs \<longleftrightarrow> distinct (map li_vreg ivs) \<and> sorted (map li_start ivs) \<and>
     (\<forall>i \<in> set ivs. vbank classes (li_vreg i) \<noteq> None)"

lemma linear_scan_runs:
  assumes "scan_input_ok classes ivs"
  shows "\<exists>st t. linear_scan lt zero ivs classes call_crossing weights = Some st \<and>
     scan_inv classes call_crossing none_held t (set ivs) st"
proof -
  note f = furthest.scan_intervals_run furthest.scan_intervals_inv
    and c = cheapest.scan_intervals_run cheapest.scan_intervals_inv
  have ok: "\<forall>i \<in> set ivs. li_vreg i \<notin> li_vreg ` {}" "distinct (map li_vreg ivs)" "sorted (map li_start ivs)"
    "\<forall>i \<in> set ivs. 0 \<le> li_start i" "\<forall>j \<in> {} \<union> set ivs. vbank classes (li_vreg j) \<noteq> None"
    using assms by (simp_all add: scan_input_ok_def)
  show ?thesis
  proof (cases weights)
    case None
    obtain st where st: "scan_intervals spill_furthest_end classes call_crossing ivs initial_scan = Some st"
      using f(1)[OF initial_scan_inv ok] by blast
    then show ?thesis using f(2)[OF initial_scan_inv ok(1-4) st] None by (simp add: linear_scan_def)
  next
    case (Some w)
    obtain st where st: "scan_intervals (spill_cheapest_weight lt zero w) classes call_crossing ivs initial_scan = Some st"
      using c(1)[OF initial_scan_inv ok] by blast
    then show ?thesis using c(2)[OF initial_scan_inv ok(1-4) st] Some by (simp add: linear_scan_def)
  qed
qed

lemma linear_scan_inv:
  assumes "scan_input_ok classes ivs" "linear_scan lt zero ivs classes call_crossing weights = Some st"
  shows "\<exists>t. scan_inv classes call_crossing none_held t (set ivs) st"
  using linear_scan_runs[OF assms(1), of lt zero call_crossing weights] assms(2) by auto

text \<open>The hardware register behind a name: \<open>s\<close>, \<open>d\<close> and \<open>q\<close> of one number are one register.\<close>

fun hw_unit :: "register \<Rightarrow> (bank \<times> nat) option" where
  "hw_unit (Physical (PGpr64 n)) = Some (BankGpr, n)"
| "hw_unit (Physical (PGpr32 n)) = Some (BankGpr, n)"
| "hw_unit (Physical (PFpr64 n)) = Some (BankFpr, n)"
| "hw_unit (Physical (PFpr32 n)) = Some (BankFpr, n)"
| "hw_unit (Physical (PSimd128 n)) = Some (BankFpr, n)"
| "hw_unit _ = None"

definition pool_numbers :: "bank \<Rightarrow> nat list" where
  "pool_numbers b = (case b of BankGpr \<Rightarrow> [9, 10, 11, 12] @ [19..<29]
                             | BankFpr \<Rightarrow> [16, 17, 18, 19] @ [23..<32] @ [8..<16])"

lemma pool_numbers_props: "length (pool_numbers b) = pool_size b" "distinct (pool_numbers b)"
  by (cases b; simp add: pool_numbers_def allocatable_gprs_def callee_saved_gprs_def
      allocatable_fpr_numbers_def callee_saved_fpr_numbers_def upt_rec)+

lemma less_14_cases: "p < 14 \<Longrightarrow> p \<in> {0,1,2,3,4,5,6,7,8,9,10,11,12,13::nat}"
  unfolding insert_iff empty_iff by arith

lemma less_21_cases: "p < 21 \<Longrightarrow> p \<in> {0,1,2,3,4,5,6,7,8,9,10,11,12,13,14,15,16,17,18,19,20::nat}"
  unfolding insert_iff empty_iff by arith

lemma hw_unit_pool_register:
  assumes "p < pool_size b" "bank_of c = Some b"
  shows "hw_unit (pool_reg b p c) = Some (b, pool_numbers b ! p)"
proof (cases b)
  case BankGpr
  then have "p \<in> {0,1,2,3,4,5,6,7,8,9,10,11,12,13}"
    using assms(1) by (intro less_14_cases) (simp add: allocatable_gprs_def callee_saved_gprs_def)
  then show ?thesis using BankGpr
    by (auto simp: pool_reg_def pool_register_def array_at_def pool_numbers_def allocatable_gprs_def callee_saved_gprs_def gpr_def upt_rec)
next
  case BankFpr
  then have "p \<in> {0,1,2,3,4,5,6,7,8,9,10,11,12,13,14,15,16,17,18,19,20}"
    using assms(1) by (intro less_21_cases)
      (simp add: allocatable_fpr_numbers_def callee_saved_fpr_numbers_def)
  moreover have "hw_unit (fpr_in_class c n) = Some (BankFpr, n)" for n
    using assms(2) BankFpr by (cases c) (auto simp: fpr_in_class_def fpr32_def fpr64_def simd128_def)
  ultimately show ?thesis using BankFpr
    by (auto simp: pool_reg_def pool_register_def array_at_def pool_numbers_def allocatable_fpr_numbers_def
        callee_saved_fpr_numbers_def upt_rec)
qed

lemma pool_register_class:
  assumes "p < pool_size b" "bank_of c = Some b"
  shows "reg_class (pool_reg b p c) = c"
proof (cases b)
  case BankGpr
  then have "c = Gpr64" using assms(2) by (cases c) simp_all
  moreover have "p \<in> {0,1,2,3,4,5,6,7,8,9,10,11,12,13}"
    using assms(1) BankGpr by (intro less_14_cases) (simp add: allocatable_gprs_def callee_saved_gprs_def)
  ultimately show ?thesis using BankGpr
    by (auto simp: pool_reg_def pool_register_def array_at_def allocatable_gprs_def callee_saved_gprs_def gpr_def)
next
  case BankFpr
  then show ?thesis using assms
    by (cases c) (auto simp: pool_reg_def pool_register_def array_at_def fpr_in_class_def fpr32_def fpr64_def simd128_def)
qed

text \<open>AAPCS64: \<open>x19\<close> to \<open>x28\<close> survive a call, and the low 64 bits of \<open>v8\<close> to \<open>v15\<close>.\<close>

fun survives_calls :: "bank \<times> nat \<Rightarrow> bool" where
  "survives_calls (BankGpr, n) \<longleftrightarrow> 19 \<le> n \<and> n \<le> 28"
| "survives_calls (BankFpr, n) \<longleftrightarrow> 8 \<le> n \<and> n \<le> 15"

text \<open>The bit of the prologue's mask that saves a register: \<open>saved_regs\<close> in the frame lowering.\<close>

fun saved_bit_of_unit :: "bank \<times> nat \<Rightarrow> nat" where
  "saved_bit_of_unit (BankGpr, n) = n"
| "saved_bit_of_unit (BankFpr, n) = 32 + n"

lemma pool_number_saved:
  assumes "p < pool_size b"
  shows "survives_calls (b, pool_numbers b ! p) \<longleftrightarrow> is_callee_saved_index b p"
    "is_callee_saved_index b p \<Longrightarrow> saved_reg_bit b p = saved_bit_of_unit (b, pool_numbers b ! p)"
proof -
  have "(survives_calls (b, pool_numbers b ! p) \<longleftrightarrow> is_callee_saved_index b p) \<and>
      (is_callee_saved_index b p \<longrightarrow> saved_reg_bit b p = saved_bit_of_unit (b, pool_numbers b ! p))"
  proof (cases b)
    case BankGpr
    then have "p \<in> {0,1,2,3,4,5,6,7,8,9,10,11,12,13}"
      using assms by (intro less_14_cases) (simp add: allocatable_gprs_def callee_saved_gprs_def)
    then show ?thesis using BankGpr
      by (auto simp: pool_numbers_def allocatable_gprs_def callee_saved_gprs_def gpr_def gpr_number_def
          upt_rec saved_reg_bit_def is_callee_saved_index_def)
  next
    case BankFpr
    then have "p \<in> {0,1,2,3,4,5,6,7,8,9,10,11,12,13,14,15,16,17,18,19,20}"
      using assms by (intro less_21_cases)
        (simp add: allocatable_fpr_numbers_def callee_saved_fpr_numbers_def)
    then show ?thesis using BankFpr
      by (auto simp: pool_numbers_def allocatable_fpr_numbers_def callee_saved_fpr_numbers_def
          upt_rec saved_reg_bit_def is_callee_saved_index_def)
  qed
  then show "survives_calls (b, pool_numbers b ! p) \<longleftrightarrow> is_callee_saved_index b p"
    "is_callee_saved_index b p \<Longrightarrow> saved_reg_bit b p = saved_bit_of_unit (b, pool_numbers b ! p)" by blast+
qed

text \<open>The register an allocated value is rewritten to.\<close>

definition assigned_register ::
    "(virtual_register \<rightharpoonup> register_class) \<Rightarrow> scan_state \<Rightarrow> virtual_register \<Rightarrow> register option" where
  "assigned_register classes st v = (case (classes v, ss_assignments st v) of
     (Some c, Some (Phys p)) \<Rightarrow> map_option (\<lambda>b. pool_reg b p c) (bank_of c)
   | _ \<Rightarrow> None)"

lemma assigned_register_unit:
  assumes "scan_inv classes call_crossing none_held t seen st" "i \<in> seen"
    and "assigned_register classes st (li_vreg i) = Some r"
  shows "\<exists>b p. vbank classes (li_vreg i) = Some b \<and> ss_assignments st (li_vreg i) = Some (Phys p) \<and>
     allowed classes call_crossing (li_vreg i) b p \<and> p < pool_size b \<and>
     (is_callee_saved_index b p \<longrightarrow> bit (ss_saved_mask st) (saved_reg_bit b p)) \<and>
     hw_unit r = Some (b, pool_numbers b ! p)"
proof -
  from assms(3) obtain c p b where c: "classes (li_vreg i) = Some c" "bank_of c = Some b"
    and p: "ss_assignments st (li_vreg i) = Some (Phys p)" and r: "r = pool_reg b p c"
    by (auto simp: assigned_register_def split: option.splits allocation.splits)
  have bk: "vbank classes (li_vreg i) = Some b" using c by (simp add: vbank_def)
  note ph = scan_invD(3)[OF assms(1), unfolded phys_ok_def, rule_format, OF assms(2) bk p]
  then have "p < pool_size b" by (simp add: allowed_def)
  from hw_unit_pool_register[OF this c(2)] ph bk p this r show ?thesis by auto
qed

text \<open>
  The scan always finishes, with a register of the value's own bank or a spill slot for every
  interval, when the intervals come sorted, one per value, with allocatable classes: the code's
  \<open>expect\<close>s never fire.
\<close>

theorem linear_scan_assigns:
  assumes "scan_input_ok classes ivs"
  shows "\<exists>st. linear_scan lt zero ivs classes call_crossing weights = Some st \<and>
     dom (ss_assignments st) = li_vreg ` set ivs \<and>
     (\<forall>i \<in> set ivs. (\<exists>s. ss_assignments st (li_vreg i) = Some (Spill s)) \<or>
        (\<exists>r b n. assigned_register classes st (li_vreg i) = Some r \<and> vbank classes (li_vreg i) = Some b \<and>
           hw_unit r = Some (b, n)))"
proof -
  obtain st t where st: "linear_scan lt zero ivs classes call_crossing weights = Some st"
    and inv: "scan_inv classes call_crossing none_held t (set ivs) st"
    using linear_scan_runs[OF assms] by blast
  have "(\<exists>s. ss_assignments st (li_vreg i) = Some (Spill s)) \<or>
      (\<exists>r b n. assigned_register classes st (li_vreg i) = Some r \<and> vbank classes (li_vreg i) = Some b \<and>
         hw_unit r = Some (b, n))" if i: "i \<in> set ivs" for i
  proof -
    obtain a where a: "ss_assignments st (li_vreg i) = Some a" using scan_invD(6)[OF inv] i by blast
    obtain c b where c: "classes (li_vreg i) = Some c" "bank_of c = Some b"
      using assms i by (auto simp: scan_input_ok_def vbank_def Option.bind_eq_None_conv)
    show ?thesis
    proof (cases a)
      case (Phys p)
      then have "assigned_register classes st (li_vreg i) = Some (pool_reg b p c)"
        using a c by (simp add: assigned_register_def)
      from assigned_register_unit[OF inv i this] this show ?thesis by blast
    qed (use a in simp)
  qed
  then show ?thesis using st scan_invD(6)[OF inv] by blast
qed

lemma linear_scan_unit_inj:
  assumes ok: "scan_input_ok classes ivs" and run: "linear_scan lt zero ivs classes cc weights = Some st"
    and i: "i \<in> set ivs" "j \<in> set ivs" "li_vreg i \<noteq> li_vreg j"
    and r: "assigned_register classes st (li_vreg i) = Some r" "assigned_register classes st (li_vreg j) = Some s"
    and eq: "hw_unit r = hw_unit s"
  shows "apart i j"
proof -
  obtain t where inv: "scan_inv classes cc none_held t (set ivs) st"
    using linear_scan_inv[OF ok run] by blast
  from assigned_register_unit[OF inv i(1) r(1)] assigned_register_unit[OF inv i(2) r(2)] eq
  obtain b p q where "vbank classes (li_vreg i) = Some b" "vbank classes (li_vreg j) = Some b"
    and pq: "ss_assignments st (li_vreg i) = Some (Phys p)" "ss_assignments st (li_vreg j) = Some (Phys q)"
      "p < pool_size b" "q < pool_size b" "pool_numbers b ! p = pool_numbers b ! q"
    by auto
  moreover from pq have "p = q" using pool_numbers_props[of b] by (simp add: nth_eq_iff_index_eq)
  ultimately show ?thesis
    using scan_invD(4)[OF inv] i unfolding disjoint_ok_def by metis
qed

text \<open>
  (C23)  Two values that are live at a common point never share a hardware register: with different
  values whose intervals overlap, the registers they are rewritten to are different ones, also when
  one is an \<open>s\<close>, a \<open>d\<close> or a \<open>q\<close> view.
\<close>

theorem linear_scan_no_overlap:
  assumes "scan_input_ok classes ivs" "linear_scan lt zero ivs classes call_crossing weights = Some st"
    and "i \<in> set ivs" "j \<in> set ivs" "i \<noteq> j" "\<not> apart i j"
    and "assigned_register classes st (li_vreg i) = Some r" "assigned_register classes st (li_vreg j) = Some s"
  shows "hw_unit r \<noteq> hw_unit s"
proof
  assume "hw_unit r = hw_unit s"
  moreover have "li_vreg i \<noteq> li_vreg j"
    using assms(1,3-5) by (auto simp: scan_input_ok_def distinct_map inj_on_def)
  ultimately show False
    using linear_scan_unit_inj[OF assms(1-4) _ assms(7,8)] assms(6) by blast
qed

text \<open>
  Calls: a value in \<open>call_crossing\<close> sits in a register that survives calls or in a spill slot; a
  128-bit value never sits in a register of which a call preserves only half; and every register the
  function must preserve for its caller is in \<open>saved_regs_mask\<close>.
\<close>

theorem linear_scan_calls:
  assumes "scan_input_ok classes ivs" "linear_scan lt zero ivs classes call_crossing weights = Some st"
    and "i \<in> set ivs" "assigned_register classes st (li_vreg i) = Some r" "hw_unit r = Some u"
  shows "(li_vreg i \<in> call_crossing \<longrightarrow> survives_calls u) \<and>
     (classes (li_vreg i) = Some Simd128 \<longrightarrow> \<not> survives_calls u \<and> li_vreg i \<notin> call_crossing) \<and>
     (survives_calls u \<longrightarrow> bit (ss_saved_mask st) (saved_bit_of_unit u))"
proof -
  obtain t where inv: "scan_inv classes call_crossing none_held t (set ivs) st"
    using linear_scan_inv[OF assms(1,2)] by blast
  from assigned_register_unit[OF inv assms(3,4)] assms(5)
  obtain b p where u: "u = (b, pool_numbers b ! p)" and p: "p < pool_size b"
    and al: "allowed classes call_crossing (li_vreg i) b p"
    and m: "is_callee_saved_index b p \<longrightarrow> bit (ss_saved_mask st) (saved_reg_bit b p)" by auto
  show ?thesis using al m unfolding u pool_number_saved(1)[OF p]
    by (auto simp: allowed_def pool_number_saved(2)[OF p])
qed

text \<open>
  Spill slots: two spilled values never share a slot, every slot lies below \<open>spill_slots\<close>, and a
  128-bit value has two slots from an even index, so that its bytes are 16-aligned.
\<close>

theorem linear_scan_spill_slots:
  assumes "scan_input_ok classes ivs" "linear_scan lt zero ivs classes call_crossing weights = Some st"
    and "ss_assignments st v = Some (Spill s)"
  shows "slots_of classes v s \<subseteq> {..< ss_spill_slots st} \<and>
     (classes v = Some Simd128 \<longrightarrow> 16 dvd s * spill_slot_bytes) \<and>
     (\<forall>w r. ss_assignments st w = Some (Spill r) \<and> w \<noteq> v \<longrightarrow> slots_of classes v s \<inter> slots_of classes w r = {})"
proof -
  obtain t where inv: "scan_inv classes call_crossing none_held t (set ivs) st"
    using linear_scan_inv[OF assms(1,2)] by blast
  have "16 dvd s * spill_slot_bytes" if "even s"
    using that by (auto simp: spill_slot_bytes_def elim!: evenE)
  then show ?thesis using scan_invD(5)[OF inv] assms(3) unfolding spills_ok_def by metis
qed

text \<open>
  The pools: the registers a value may be given are pairwise different hardware registers, none
  of them reserved, an argument or result register, or one of the spill scratch registers.
\<close>

theorem pool_registers_apart:
  assumes "p < pool_size b" "bank_of c = Some b"
  shows "\<exists>n. hw_unit (pool_reg b p c) = Some (b, n) \<and> 8 \<le> n \<and> reg_class (pool_reg b p c) = c \<and>
     Some (b, n) \<notin> hw_unit ` set (spill_scratch_gprs @ map fpr64 spill_scratch_fpr_numbers) \<and>
     (b = BankGpr \<longrightarrow> \<not> is_reserved (PGpr64 n)) \<and>
     (\<forall>q d. q < pool_size b \<and> q \<noteq> p \<and> bank_of d = Some b \<longrightarrow>
        hw_unit (pool_reg b q d) \<noteq> hw_unit (pool_reg b p c))"
proof -
  have n: "hw_unit (pool_reg b p c) = Some (b, pool_numbers b ! p)"
    by (rule hw_unit_pool_register[OF assms])
  have mem: "pool_numbers b ! p \<in> set (pool_numbers b)"
    using assms(1) pool_numbers_props(1)[of b] by simp
  have sep: "8 \<le> pool_numbers b ! p" "b = BankGpr \<Longrightarrow> \<not> is_reserved (PGpr64 (pool_numbers b ! p))"
    "Some (b, pool_numbers b ! p) \<notin> hw_unit ` set (spill_scratch_gprs @ map fpr64 spill_scratch_fpr_numbers)"
    using mem by (cases b; auto simp: pool_numbers_def is_reserved_def spill_scratch_gprs_def
        spill_scratch_fpr_numbers_def gpr_def fpr64_def)+
  have cls: "reg_class (pool_reg b p c) = c" by (rule pool_register_class[OF assms])
  have "hw_unit (pool_reg b q d) \<noteq> hw_unit (pool_reg b p c)"
    if "q < pool_size b" "q \<noteq> p" "bank_of d = Some b" for q d
    using that assms(1) n hw_unit_pool_register[OF that(1,3)] pool_numbers_props[of b]
    by (simp add: nth_eq_iff_index_eq)
  then show ?thesis using n sep cls by blast
qed

subsection \<open>An example run\<close>

text \<open>Four values: two overlapping ones, one live across a call, and a 128-bit one live across it.\<close>

definition example_intervals :: "live_interval list" where
  "example_intervals =
     [\<lparr>li_vreg = VirtualRegister 0, li_start = 0, li_end = 5\<rparr>,
      \<lparr>li_vreg = VirtualRegister 7, li_start = 2, li_end = 4\<rparr>,
      \<lparr>li_vreg = VirtualRegister 3, li_start = 2, li_end = 9\<rparr>,
      \<lparr>li_vreg = VirtualRegister 4, li_start = 3, li_end = 9\<rparr>]"

definition example_classes :: "virtual_register \<Rightarrow> register_class option" where
  "example_classes v = (if vreg_number v < 4 \<or> vreg_number v = 7 then Some Gpr64
     else if vreg_number v = 4 then Some Simd128 else None)"

definition example_crossing :: "virtual_register set" where
  "example_crossing = {VirtualRegister 3, VirtualRegister 4}"

definition example_scan :: "scan_state option" where
  "example_scan = linear_scan (<) (0::nat) example_intervals example_classes example_crossing None"

definition example_result :: "scan_state" where
  "example_result = the example_scan"

lemma example_ok: "scan_input_ok example_classes example_intervals"
  by (simp add: scan_input_ok_def example_intervals_def example_classes_def vbank_def)

lemma example_scan_some: "linear_scan (<) (0::nat) example_intervals example_classes example_crossing None = Some example_result"
  using linear_scan_runs[OF example_ok, of "(<)" "0::nat" example_crossing None]
  by (auto simp: example_result_def example_scan_def)

lemmas scan_eval =
  linear_scan_def scan_step_def assign_interval_def expire_bank_def expire_old_intervals_def Let_def
  take_free_def admissible_def is_callee_saved_index_def spill_vreg_def take_spill_slots_def occupy_def
  initial_scan_def allocatable_gprs_def callee_saved_gprs_def allocatable_fpr_numbers_def
  callee_saved_fpr_numbers_def saved_reg_mask_bit_def saved_reg_bit_def gpr_number_def gpr_def

lemma example_assignments:
  "map (ss_assignments example_result) (map li_vreg example_intervals)
     = [Some (Phys 0), Some (Phys 1), Some (Phys 4), Some (Spill 0)]"
  unfolding example_result_def example_scan_def
  by (simp add: example_intervals_def example_classes_def example_crossing_def scan_eval upt_rec)

lemma example_registers:
  "assigned_register example_classes example_result (VirtualRegister 0) = Some (gpr 9)"
  "assigned_register example_classes example_result (VirtualRegister 7) = Some (gpr 10)"
  "assigned_register example_classes example_result (VirtualRegister 3) = Some (gpr 19)"
  "ss_assignments example_result (VirtualRegister 4) = Some (Spill 0)"
  using example_assignments
  by (simp_all add: example_intervals_def assigned_register_def example_classes_def pool_reg_def pool_register_def array_at_def
      allocatable_gprs_def callee_saved_gprs_def)

theorem linear_scan_assigns_witness:
  "\<exists>st. linear_scan (<) (0::nat) example_intervals example_classes example_crossing None = Some st \<and>
     dom (ss_assignments st) = li_vreg ` set example_intervals"
  using linear_scan_assigns[OF example_ok, of "(<)" "0::nat" example_crossing None] by blast

theorem linear_scan_no_overlap_witness:
  "assigned_register example_classes example_result (VirtualRegister 0) = Some (gpr 9) \<and>
   assigned_register example_classes example_result (VirtualRegister 7) = Some (gpr 10) \<and>
   hw_unit (gpr 9) \<noteq> hw_unit (gpr 10)"
  using linear_scan_no_overlap[OF example_ok example_scan_some,
      of "\<lparr>li_vreg = VirtualRegister 0, li_start = 0, li_end = 5\<rparr>"
         "\<lparr>li_vreg = VirtualRegister 7, li_start = 2, li_end = 4\<rparr>" "gpr 9" "gpr 10"]
    example_registers
  by (simp add: example_intervals_def apart_def)

theorem linear_scan_calls_witness:
  "VirtualRegister 3 \<in> example_crossing \<and> survives_calls (BankGpr, 19) \<and>
   bit (ss_saved_mask example_result) 19"
  using linear_scan_calls[OF example_ok example_scan_some,
      of "\<lparr>li_vreg = VirtualRegister 3, li_start = 2, li_end = 9\<rparr>" "gpr 19" "(BankGpr, 19)"]
    example_registers
  by (simp add: example_intervals_def example_crossing_def gpr_def)

theorem linear_scan_spill_slots_witness:
  "ss_assignments example_result (VirtualRegister 4) = Some (Spill 0) \<and>
   slots_of example_classes (VirtualRegister 4) 0 \<subseteq> {..< ss_spill_slots example_result}"
  using linear_scan_spill_slots[OF example_ok example_scan_some, of "VirtualRegister 4" 0]
    example_registers by blast

theorem pool_registers_apart_witness:
  "\<exists>n. hw_unit (pool_reg BankFpr 15 Simd128) = Some (BankFpr, n) \<and> 8 \<le> n"
  using pool_registers_apart[of 15 BankFpr Simd128]
  by (auto simp: allocatable_fpr_numbers_def callee_saved_fpr_numbers_def)

end
