(* ===== verification/Live_Flow.thy ===== *)
theory Live_Flow
  imports Prelude "HOL-Library.AList" "HOL-Library.While_Combinator"
begin

text \<open>
  What the two register allocators (\<^verbatim>\<open>passes/aarch64/aarch64_register_allocate.rs\<close> and
  \<^verbatim>\<open>passes/x86_64_darwin/x86_64_register_allocate.rs\<close>) have in common: the iteration over the live sets of
  the blocks, which ends at a solution of the dataflow equations, and the map of the positions a value is live at.
\<close>

subsection \<open>Live sets\<close>

record 'v live_sets =
  ls_in :: "'v set list"
  ls_out :: "'v set list"

text \<open>The tables the iteration reads: per block the successors, \<open>block_uses\<close> and \<open>block_defs\<close>.\<close>

type_synonym 'v flow = "(nat list \<times> 'v set \<times> 'v set) list"

fun flow_block :: "'v flow \<Rightarrow> nat \<Rightarrow> 'v live_sets \<times> bool \<Rightarrow> 'v live_sets \<times> bool" where
  "flow_block fl index (ls, changed) =
     (case fl ! index of (successors, uses, defs) \<Rightarrow>
        let new_out = \<Union> (set (map (\<lambda>s. ls_in ls ! s) successors));
            new_in = uses \<union> (new_out - defs)
        in if new_out \<noteq> ls_out ls ! index \<or> new_in \<noteq> ls_in ls ! index
           then (ls\<lparr>ls_out := (ls_out ls)[index := new_out], ls_in := (ls_in ls)[index := new_in]\<rparr>, True)
           else (ls, changed))"

definition flow_sweep :: "'v flow \<Rightarrow> 'v live_sets \<Rightarrow> 'v live_sets \<times> bool" where
  "flow_sweep fl ls = fold (flow_block fl) (rev [0..<length fl]) (ls, False)"

text \<open>The loop, to its fixpoint; \<open>None\<close> if it did not end.\<close>

definition flow_loop :: "'v flow \<Rightarrow> 'v live_sets option" where
  "flow_loop fl = map_option fst (while_option snd (\<lambda>(ls, _). flow_sweep fl ls)
     (\<lparr>ls_in = replicate (length fl) {}, ls_out = replicate (length fl) {}\<rparr>, True))"

subsection \<open>Positions\<close>

text \<open>\<open>points\<close>, a map from values to the first and last position they are live at.\<close>

type_synonym 'v points = "('v \<times> (nat \<times> nat)) list"

definition touch :: "nat \<Rightarrow> 'v \<Rightarrow> 'v points \<Rightarrow> 'v points" where
  "touch index v = AList.map_default v (index, index) (\<lambda>(s, e). (min s index, max e index))"

subsection \<open>The iteration ends at a solution\<close>

definition flow_ok :: "'v flow \<Rightarrow> bool" where
  "flow_ok fl \<longleftrightarrow> (\<forall>(successors, uses, defs) \<in> set fl. set successors \<subseteq> {..<length fl} \<and> finite uses)"

definition flow_vars :: "'v flow \<Rightarrow> 'v set" where
  "flow_vars fl = \<Union> (set (map (fst \<circ> snd) fl))"

text \<open>The right-hand sides of the two equations of a block.\<close>

definition out_of :: "'v flow \<Rightarrow> 'v live_sets \<Rightarrow> nat \<Rightarrow> 'v set" where
  "out_of fl ls b = \<Union> (set (map (\<lambda>s. ls_in ls ! s) (fst (fl ! b))))"

definition in_of :: "'v flow \<Rightarrow> 'v set \<Rightarrow> nat \<Rightarrow> 'v set" where
  "in_of fl new_out b = fst (snd (fl ! b)) \<union> (new_out - snd (snd (fl ! b)))"

text \<open>Below the right-hand sides, and within the values of the function.\<close>

definition flow_inv :: "'v flow \<Rightarrow> 'v live_sets \<Rightarrow> bool" where
  "flow_inv fl ls \<longleftrightarrow> length (ls_in ls) = length fl \<and> length (ls_out ls) = length fl \<and>
     (\<forall>b < length fl. ls_out ls ! b \<subseteq> out_of fl ls b \<and> ls_in ls ! b \<subseteq> in_of fl (ls_out ls ! b) b \<and>
        ls_in ls ! b \<subseteq> flow_vars fl \<and> ls_out ls ! b \<subseteq> flow_vars fl)"

definition solved :: "'v flow \<Rightarrow> 'v live_sets \<Rightarrow> nat \<Rightarrow> bool" where
  "solved fl ls b \<longleftrightarrow> ls_out ls ! b = out_of fl ls b \<and> ls_in ls ! b = in_of fl (ls_out ls ! b) b"

definition room :: "'v flow \<Rightarrow> 'v live_sets \<Rightarrow> nat" where
  "room fl ls = (\<Sum>b < length fl. card (flow_vars fl - ls_in ls ! b) + card (flow_vars fl - ls_out ls ! b))"

lemma finite_flow_vars: "flow_ok fl \<Longrightarrow> finite (flow_vars fl)"
  by (auto simp: flow_ok_def flow_vars_def)

lemma flow_block_eq:
  "flow_block fl b (ls, changed) =
     (let new_out = out_of fl ls b; new_in = in_of fl new_out b in
      if new_out \<noteq> ls_out ls ! b \<or> new_in \<noteq> ls_in ls ! b
      then (ls\<lparr>ls_out := (ls_out ls)[b := new_out], ls_in := (ls_in ls)[b := new_in]\<rparr>, True)
      else (ls, changed))"
  by (simp add: out_of_def in_of_def Let_def split: prod.split)

declare flow_block.simps [simp del]

lemma flow_block_inv:
  assumes ok: "flow_ok fl" and inv: "flow_inv fl ls" and b: "b < length fl"
    and run: "flow_block fl b (ls, c) = (ls', c')"
  shows "flow_inv fl ls'" "(ls' = ls \<and> c' = c \<and> solved fl ls b) \<or> (c' \<and> room fl ls' < room fl ls)"
proof -
  let ?o = "out_of fl ls b" and ?i = "in_of fl (out_of fl ls b) b"
  have len: "length (ls_in ls) = length fl" "length (ls_out ls) = length fl"
    and sub: "ls_out ls ! x \<subseteq> out_of fl ls x" "ls_in ls ! x \<subseteq> in_of fl (ls_out ls ! x) x"
      "ls_in ls ! x \<subseteq> flow_vars fl" "ls_out ls ! x \<subseteq> flow_vars fl" if "x < length fl" for x
    using inv that by (simp_all add: flow_inv_def)
  have len: "length (ls_in ls) = length fl" "length (ls_out ls) = length fl"
    using inv by (simp_all add: flow_inv_def)
  have succ: "s < length fl" if "x < length fl" "s \<in> set (fst (fl ! x))" for s x
    using ok nth_mem[OF that(1)] that(2) by (fastforce simp: flow_ok_def)
  have vars: "fst (snd (fl ! x)) \<subseteq> flow_vars fl" if "x < length fl" for x
    using that by (auto simp: flow_vars_def intro!: bexI[of _ "fl ! x"])
  have o: "ls_out ls ! b \<subseteq> ?o" "?o \<subseteq> flow_vars fl"
    using sub(1)[OF b] sub(3)[OF succ[OF b]] by (fastforce simp: out_of_def)+
  then have i: "ls_in ls ! b \<subseteq> ?i" "?i \<subseteq> flow_vars fl"
    using sub(2)[OF b] vars[OF b] by (auto simp: in_of_def)
  let ?ls = "ls\<lparr>ls_out := (ls_out ls)[b := ?o], ls_in := (ls_in ls)[b := ?i]\<rparr>"
  have grow: "ls_in ls ! x \<subseteq> ls_in ?ls ! x" for x
    using i(1) b len by (cases "x = b") auto
  have grow_out: "out_of fl ls x \<subseteq> out_of fl ?ls x" for x
    using grow by (auto simp: out_of_def)
  have inv': "flow_inv fl ?ls"
    unfolding flow_inv_def
  proof (intro conjI allI impI)
    fix x assume x: "x < length fl"
    show "ls_out ?ls ! x \<subseteq> out_of fl ?ls x"
      using grow_out[of x] sub(1)[OF x] b len by (cases "x = b") auto
    show "ls_in ?ls ! x \<subseteq> in_of fl (ls_out ?ls ! x) x"
      using sub(2)[OF x] b len by (cases "x = b") auto
    show "ls_in ?ls ! x \<subseteq> flow_vars fl"
      using sub(3)[OF x] b len i(2) by (cases "x = b") auto
    show "ls_out ?ls ! x \<subseteq> flow_vars fl"
      using sub(4)[OF x] b len o(2) by (cases "x = b") auto
  qed (simp_all add: len)
  have fin: "finite (flow_vars fl)" by (rule finite_flow_vars[OF ok])
  have less: "room fl ?ls < room fl ls" if "?o \<noteq> ls_out ls ! b \<or> ?i \<noteq> ls_in ls ! b"
    unfolding room_def
  proof (rule sum_strict_mono_ex1)
    have le: "card (flow_vars fl - ?i) \<le> card (flow_vars fl - ls_in ls ! b)"
      "card (flow_vars fl - ?o) \<le> card (flow_vars fl - ls_out ls ! b)"
      using fin i(1) o(1) by (auto intro!: card_mono)
    show "\<forall>x \<in> {..<length fl}. card (flow_vars fl - ls_in ?ls ! x) + card (flow_vars fl - ls_out ?ls ! x)
        \<le> card (flow_vars fl - ls_in ls ! x) + card (flow_vars fl - ls_out ls ! x)"
    proof
      fix x
      show "card (flow_vars fl - ls_in ?ls ! x) + card (flow_vars fl - ls_out ?ls ! x)
          \<le> card (flow_vars fl - ls_in ls ! x) + card (flow_vars fl - ls_out ls ! x)"
        using le b len by (cases "x = b") simp_all
    qed
    have co: "card (flow_vars fl - ?o) < card (flow_vars fl - ls_out ls ! b)" if "?o \<noteq> ls_out ls ! b"
      using fin o that by (intro psubset_card_mono) auto
    have ci: "card (flow_vars fl - ?i) < card (flow_vars fl - ls_in ls ! b)" if "?i \<noteq> ls_in ls ! b"
      using fin i that by (intro psubset_card_mono) auto
    have "card (flow_vars fl - ?i) + card (flow_vars fl - ?o)
        < card (flow_vars fl - ls_in ls ! b) + card (flow_vars fl - ls_out ls ! b)"
      using that by (elim disjE) (use le co ci in linarith)+
    then have "card (flow_vars fl - ls_in ?ls ! b) + card (flow_vars fl - ls_out ?ls ! b)
        < card (flow_vars fl - ls_in ls ! b) + card (flow_vars fl - ls_out ls ! b)"
      using b len by simp
    then show "\<exists>x \<in> {..<length fl}. card (flow_vars fl - ls_in ?ls ! x) + card (flow_vars fl - ls_out ?ls ! x)
        < card (flow_vars fl - ls_in ls ! x) + card (flow_vars fl - ls_out ls ! x)"
      using b by blast
  qed simp
  show "flow_inv fl ls'"
    using run inv inv' by (auto simp: flow_block_eq Let_def split: if_splits)
  show "(ls' = ls \<and> c' = c \<and> solved fl ls b) \<or> (c' \<and> room fl ls' < room fl ls)"
    using run less by (auto simp: flow_block_eq Let_def solved_def split: if_splits)
qed

lemma flow_fold_inv:
  assumes ok: "flow_ok fl"
  shows "flow_inv fl ls \<Longrightarrow> set bs \<subseteq> {..<length fl} \<Longrightarrow> fold (flow_block fl) bs (ls, c) = (ls', c') \<Longrightarrow>
    flow_inv fl ls' \<and> ((ls' = ls \<and> c' = c \<and> (\<forall>b \<in> set bs. solved fl ls b)) \<or> (c' \<and> room fl ls' < room fl ls))"
proof (induction bs arbitrary: ls c)
  case (Cons b bs)
  obtain l1 c1 where r: "flow_block fl b (ls, c) = (l1, c1)" by fastforce
  have b: "b < length fl" using Cons.prems(2) by simp
  note st = flow_block_inv[OF ok Cons.prems(1) b r]
  have "fold (flow_block fl) bs (l1, c1) = (ls', c')" using Cons.prems(3) r by simp
  from Cons.IH[OF st(1) _ this] Cons.prems(2) st(2) show ?case by auto
qed auto

lemma flow_sweep_inv:
  assumes "flow_ok fl" "flow_inv fl ls" "flow_sweep fl ls = (ls', c)"
  shows "flow_inv fl ls'" "(\<not> c \<and> ls' = ls \<and> (\<forall>b < length fl. solved fl ls b)) \<or> (c \<and> room fl ls' < room fl ls)"
proof -
  have "set (rev [0..<length fl]) \<subseteq> {..<length fl}" by auto
  note r = flow_fold_inv[OF assms(1,2) this assms(3)[unfolded flow_sweep_def]]
  show "flow_inv fl ls'" using r by blast
  show "(\<not> c \<and> ls' = ls \<and> (\<forall>b < length fl. solved fl ls b)) \<or> (c \<and> room fl ls' < room fl ls)"
    using r by auto
qed

lemma flow_loop_solution:
  assumes ok: "flow_ok fl"
  shows "\<exists>ls. flow_loop fl = Some ls \<and> flow_inv fl ls \<and> (\<forall>b < length fl. solved fl ls b)"
proof -
  let ?init = "\<lparr>ls_in = replicate (length fl) {}, ls_out = replicate (length fl) {}\<rparr>"
  let ?P = "\<lambda>(ls, c). flow_inv fl ls \<and> (\<not> c \<longrightarrow> (\<forall>b < length fl. solved fl ls b))"
  let ?step = "\<lambda>(ls, _). flow_sweep fl ls"
  have step: "?P (?step st) \<and> (2 * room fl (fst (?step st)) + of_bool (snd (?step st))
      < 2 * room fl (fst st) + (of_bool (snd st) :: nat))" if "?P st" "snd st" for st
  proof -
    obtain ls c where st: "st = (ls, c)" by fastforce
    obtain ls' c' where r: "flow_sweep fl ls = (ls', c')" by fastforce
    have "flow_inv fl ls" using that(1) st by simp
    note sw = flow_sweep_inv[OF ok this r]
    have c: "c" using that(2) st by simp
    show ?thesis
    proof (cases c')
      case True
      then show ?thesis using sw c st r by simp
    next
      case False
      then show ?thesis using sw c st r by simp
    qed
  qed
  have init: "?P (?init, True)" by (simp add: flow_inv_def)
  obtain st where st: "while_option snd ?step (?init, True) = Some st"
    using measure_while_option_Some[of ?P snd ?step "\<lambda>st. 2 * room fl (fst st) + of_bool (snd st)", OF step init]
    by blast
  have keep: "?P (?step st)" if "?P st" "snd st" for st
    by (rule conjunct1[OF step[OF that]])
  have "?P st" by (rule while_option_rule[of ?P snd ?step, OF keep st init])
  moreover have "\<not> snd st" by (rule while_option_stop[OF st])
  ultimately show ?thesis using st by (auto simp: flow_loop_def)
qed

subsection \<open>Ranges of positions\<close>

text \<open>\<open>covers points p v\<close>: the range of \<open>v\<close> contains position \<open>p\<close>.\<close>

definition covers :: "'v points \<Rightarrow> nat \<Rightarrow> 'v \<Rightarrow> bool" where
  "covers points p v \<longleftrightarrow> (\<exists>s e. map_of points v = Some (s, e) \<and> s \<le> p \<and> p \<le> e)"

lemma map_of_touch:
  "map_of (touch p v points) w = (if w = v then Some (case map_of points v of
       None \<Rightarrow> (p, p) | Some (s, e) \<Rightarrow> (min s p, max e p)) else map_of points w)"
  by (auto simp: touch_def map_of_map_default split: option.splits)

lemma covers_touch: "covers points q w \<or> (q = p \<and> w = v) \<Longrightarrow> covers (touch p v points) q w"
  by (auto simp: covers_def map_of_touch split: option.splits prod.splits)

lemma covers_fold_touch:
  "covers points q w \<or> (q = p \<and> w \<in> set vs) \<Longrightarrow> covers (fold (touch p) vs points) q w"
proof (induction vs arbitrary: points)
  case (Cons v vs)
  then have "covers (touch p v points) q w \<or> (q = p \<and> w \<in> set vs)"
    using covers_touch[of points q w p v] by auto
  from Cons.IH[OF this] show ?case by simp
qed simp

lemma dom_touch: "dom (map_of (touch p v points)) = insert v (dom (map_of points))"
  by (auto simp: map_of_touch split: if_splits)

lemma dom_fold_touch: "dom (map_of (fold (touch p) vs points)) = set vs \<union> dom (map_of points)"
  by (induction vs arbitrary: points) (auto simp: dom_touch)

lemma distinct_fold_touch: "distinct (map fst points) \<Longrightarrow> distinct (map fst (fold (touch p) vs points))"
  by (induction vs arbitrary: points) (auto simp: touch_def distinct_map_default)

subsection \<open>The backward walk over the instructions\<close>

text \<open>The values live before the instructions of a block, from those live at its end.\<close>

fun live_before_of :: "('m \<Rightarrow> 'v list) \<Rightarrow> ('m \<Rightarrow> 'v list) \<Rightarrow> 'm list \<Rightarrow> 'v set \<Rightarrow> 'v set" where
  "live_before_of uses defs [] out = out"
| "live_before_of uses defs (m # ms) out = (live_before_of uses defs ms out - set (defs m)) \<union> set (uses m)"

text \<open>What an instruction touches, and what a list of instructions mentions.\<close>

definition busy_of :: "('m \<Rightarrow> 'v list) \<Rightarrow> ('m \<Rightarrow> 'v list) \<Rightarrow> 'm \<Rightarrow> 'v set \<Rightarrow> 'v set" where
  "busy_of uses defs m after = after \<union> set (uses m) \<union> set (defs m)"

definition mentions :: "('m \<Rightarrow> 'v list) \<Rightarrow> ('m \<Rightarrow> 'v list) \<Rightarrow> 'm list \<Rightarrow> 'v set" where
  "mentions uses defs ms = (\<Union>m \<in> set ms. set (uses m) \<union> set (defs m))"

text \<open>The first position of a block.\<close>

definition block_start :: "('m list \<times> 'a) list \<Rightarrow> nat \<Rightarrow> nat" where
  "block_start bs b = sum_list (map (length \<circ> fst) (take b bs))"

lemma mentions_simps [simp]:
  "mentions uses defs [] = {}" "mentions uses defs (m # ms) = set (uses m) \<union> set (defs m) \<union> mentions uses defs ms"
  "mentions uses defs (xs @ ys) = mentions uses defs xs \<union> mentions uses defs ys"
  by (auto simp: mentions_def)

lemma live_before_mentions: "live_before_of uses defs ms out \<subseteq> out \<union> mentions uses defs ms"
  by (induction ms) auto

lemma finite_live_before: "finite out \<Longrightarrow> finite (live_before_of uses defs ms out)"
  by (induction ms) auto

text \<open>
  Liveness along paths: from the point before instruction \<open>k\<close> of body \<open>b\<close> (its end when \<open>k\<close> is its length) some path
  reads \<open>v\<close> before it writes it.  \<open>busy_path\<close>: an instruction reads or writes \<open>v\<close>, or \<open>v\<close> is live after it.
\<close>

inductive live_path :: "('m \<Rightarrow> 'v list) \<Rightarrow> ('m \<Rightarrow> 'v list) \<Rightarrow> nat list list \<Rightarrow> 'm list list \<Rightarrow> nat \<Rightarrow> nat \<Rightarrow> 'v \<Rightarrow> bool"
  for uses defs succs bodies where
  path_use: "b < length bodies \<Longrightarrow> k < length (bodies ! b) \<Longrightarrow> v \<in> set (uses (bodies ! b ! k)) \<Longrightarrow>
    live_path uses defs succs bodies b k v"
| path_step: "b < length bodies \<Longrightarrow> k < length (bodies ! b) \<Longrightarrow> v \<notin> set (defs (bodies ! b ! k)) \<Longrightarrow>
    live_path uses defs succs bodies b (Suc k) v \<Longrightarrow> live_path uses defs succs bodies b k v"
| path_edge: "b < length bodies \<Longrightarrow> k = length (bodies ! b) \<Longrightarrow> s \<in> set (succs ! b) \<Longrightarrow>
    live_path uses defs succs bodies s 0 v \<Longrightarrow> live_path uses defs succs bodies b k v"

definition busy_path :: "('m \<Rightarrow> 'v list) \<Rightarrow> ('m \<Rightarrow> 'v list) \<Rightarrow> nat list list \<Rightarrow> 'm list list \<Rightarrow> nat \<Rightarrow> nat \<Rightarrow> 'v \<Rightarrow> bool" where
  "busy_path uses defs succs bodies b k v \<longleftrightarrow> b < length bodies \<and> k < length (bodies ! b) \<and>
     (v \<in> set (uses (bodies ! b ! k)) \<or> v \<in> set (defs (bodies ! b ! k)) \<or> live_path uses defs succs bodies b (Suc k) v)"

definition body_position :: "'m list list \<Rightarrow> nat \<Rightarrow> nat \<Rightarrow> nat" where
  "body_position bodies b k = sum_list (map length (take b bodies)) + k"

lemma mentions_concat: "mentions uses defs (concat mss) = (\<Union>ms \<in> set mss. mentions uses defs ms)"
  by (induction mss) auto

text \<open>
  An allocator's walk: \<open>note\<close> collects what a block reads and writes, \<open>step\<close> records the positions at one instruction,
  and \<open>collect\<close> does so for all blocks, each from its end.
\<close>

locale backward_walk =
  fixes uses defs :: "'m \<Rightarrow> 'v :: linorder list"
    and note_inst :: "'m \<Rightarrow> 'v set \<times> 'v set \<Rightarrow> 'v set \<times> 'v set"
    and step :: "nat \<times> 'm \<Rightarrow> 'v set \<times> 'v points \<Rightarrow> 'v set \<times> 'v points"
    and collect :: "nat \<Rightarrow> ('m list \<times> 'v set) list \<Rightarrow> 'v points \<Rightarrow> 'v points"
  assumes note_inst: "note_inst m (u, d) = (u \<union> (set (uses m) - d), d \<union> set (defs m))"
    and step: "step (p, m) (live, points) = ((live - set (defs m)) \<union> set (uses m),
      fold (touch p) (sorted_list_of_set live @ uses m @ defs m) points)"
    and collect_Nil: "collect n [] points = points"
    and collect_Cons: "collect n ((ms, out) # bs) points =
      collect (n + length ms) bs (snd (fold step (rev (enumerate n ms)) (out, points)))"
begin

lemma note_fold:
  "fold note_inst ms (u, d) = (u \<union> (fst (fold note_inst ms ({}, {})) - d), d \<union> snd (fold note_inst ms ({}, {})))"
proof (induction ms arbitrary: u d)
  case (Cons m ms)
  show ?case
    unfolding fold_simps note_inst Cons.IH[of "u \<union> (set (uses m) - d)" "d \<union> set (defs m)"] Cons.IH[of "{} \<union> (set (uses m) - {})" "{} \<union> set (defs m)"]
    by auto
qed simp

lemma note_Cons:
  "fst (fold note_inst (m # ms) ({}, {})) = set (uses m) \<union> (fst (fold note_inst ms ({}, {})) - set (defs m))"
  "snd (fold note_inst (m # ms) ({}, {})) = set (defs m) \<union> snd (fold note_inst ms ({}, {}))"
  unfolding fold_simps note_inst note_fold[of ms "{} \<union> (set (uses m) - {})"] by auto

lemma live_before_note:
  "live_before_of uses defs ms out = fst (fold note_inst ms ({}, {})) \<union> (out - snd (fold note_inst ms ({}, {})))"
proof (induction ms)
  case (Cons m ms)
  then show ?case unfolding note_Cons live_before_of.simps by blast
qed simp

lemma finite_note: "finite (fst (fold note_inst ms ({}, {})))"
proof (induction ms)
  case (Cons m ms)
  then show ?case unfolding note_Cons by simp
qed simp

lemma note_mentions: "fst (fold note_inst ms ({}, {})) \<subseteq> mentions uses defs ms"
proof (induction ms)
  case (Cons m ms)
  then show ?case unfolding note_Cons mentions_simps by blast
qed simp

text \<open>The backward walk over a block, stated for its last \<open>length ms\<close> instructions.\<close>

lemma block_walk:
  assumes "finite out"
  shows "fst (fold step (rev (enumerate n ms)) (out, points)) = live_before_of uses defs ms out \<and>
    (covers points q w \<or> (\<exists>k < length ms. q = n + k \<and> w \<in> busy_of uses defs (ms ! k) (live_before_of uses defs (drop (Suc k) ms) out)) \<longrightarrow>
       covers (snd (fold step (rev (enumerate n ms)) (out, points))) q w) \<and>
    (distinct (map fst points) \<longrightarrow> distinct (map fst (snd (fold step (rev (enumerate n ms)) (out, points)))))"
proof (induction ms arbitrary: n)
  case (Cons m ms)
  let ?r = "fold step (rev (enumerate (Suc n) ms)) (out, points)"
  note IH = Cons.IH[of "Suc n"]
  have fin: "finite (live_before_of uses defs ms out)" by (rule finite_live_before[OF assms])
  have r: "fold step (rev (enumerate n (m # ms))) (out, points) = step (n, m) ?r"
    by simp
  obtain live pts where lp: "?r = (live, pts)" by fastforce
  have live: "live = live_before_of uses defs ms out" using IH lp by simp
  have cov: "covers pts q w" if "covers points q w \<or>
      (\<exists>k < length ms. q = Suc n + k \<and> w \<in> busy_of uses defs (ms ! k) (live_before_of uses defs (drop (Suc k) ms) out))"
    using IH that lp by auto
  have "covers (snd (step (n, m) ?r)) q w"
    if h: "covers points q w \<or>
      (\<exists>k < length (m # ms). q = n + k \<and> w \<in> busy_of uses defs ((m # ms) ! k) (live_before_of uses defs (drop (Suc k) (m # ms)) out))"
  proof -
    have "covers pts q w \<or> (q = n \<and> w \<in> busy_of uses defs m (live_before_of uses defs ms out))"
    proof (cases "covers points q w")
      case False
      then obtain k where k: "k < length (m # ms)" "q = n + k"
        "w \<in> busy_of uses defs ((m # ms) ! k) (live_before_of uses defs (drop (Suc k) (m # ms)) out)" using h by blast
      then show ?thesis using cov by (cases k) auto
    qed (use cov in blast)
    then show ?thesis using fin live lp
      by (auto simp: step busy_of_def intro!: covers_fold_touch)
  qed
  moreover have "distinct (map fst points) \<longrightarrow> distinct (map fst (snd (step (n, m) ?r)))"
    using IH lp by (auto simp: step intro!: distinct_fold_touch)
  ultimately show ?case using live lp unfolding r by (simp add: step)
qed simp

lemma walk_covers:
  assumes "finite out"
    and "covers points q w \<or> (\<exists>k < length ms. q = n + k \<and> w \<in> busy_of uses defs (ms ! k) (live_before_of uses defs (drop (Suc k) ms) out))"
  shows "covers (snd (fold step (rev (enumerate n ms)) (out, points))) q w"
  using block_walk[OF assms(1), of n ms points q w] assms(2) by blast

lemma walk_distinct:
  "finite out \<Longrightarrow> distinct (map fst points) \<Longrightarrow> distinct (map fst (snd (fold step (rev (enumerate n ms)) (out, points))))"
  using block_walk[of out n ms points] by blast

lemma collect_covers:
  assumes "\<forall>(ms, out) \<in> set bs. finite out"
    and "covers points q w \<or> (\<exists>b < length bs. \<exists>k < length (fst (bs ! b)). q = n + block_start bs b + k \<and>
      w \<in> busy_of uses defs (fst (bs ! b) ! k) (live_before_of uses defs (drop (Suc k) (fst (bs ! b))) (snd (bs ! b))))"
  shows "covers (collect n bs points) q w"
  using assms
proof (induction bs arbitrary: n points)
  case (Cons x bs)
  obtain ms out where x: "x = (ms, out)" by fastforce
  have fin: "finite out" using Cons.prems(1) x by simp
  have step: "covers (snd (fold step (rev (enumerate n ms)) (out, points))) q w \<or> (\<exists>b < length bs. \<exists>k < length (fst (bs ! b)).
      q = (n + length ms) + block_start bs b + k \<and>
      w \<in> busy_of uses defs (fst (bs ! b) ! k) (live_before_of uses defs (drop (Suc k) (fst (bs ! b))) (snd (bs ! b))))"
  proof (cases "covers points q w")
    case True
    then show ?thesis using walk_covers[OF fin] by blast
  next
    case False
    then obtain b k where b: "b < length (x # bs)" "k < length (fst ((x # bs) ! b))"
      "q = n + block_start (x # bs) b + k"
      "w \<in> busy_of uses defs (fst ((x # bs) ! b) ! k) (live_before_of uses defs (drop (Suc k) (fst ((x # bs) ! b))) (snd ((x # bs) ! b)))"
      using Cons.prems(2) by blast
    show ?thesis
    proof (cases b)
      case 0
      then have "covers (snd (fold step (rev (enumerate n ms)) (out, points))) q w"
        using b x fin by (intro walk_covers) (auto simp: block_start_def)
      then show ?thesis ..
    next
      case (Suc b')
      then have "b' < length bs \<and> (\<exists>k < length (fst (bs ! b')). q = (n + length ms) + block_start bs b' + k \<and>
          w \<in> busy_of uses defs (fst (bs ! b') ! k) (live_before_of uses defs (drop (Suc k) (fst (bs ! b'))) (snd (bs ! b'))))"
        using b x by (auto simp: block_start_def)
      then show ?thesis by blast
    qed
  qed
  have "\<forall>(ms, out) \<in> set bs. finite out" using Cons.prems(1) by simp
  from Cons.IH[OF this step] show ?case by (simp add: x collect_Cons)
qed (simp add: collect_Nil)

lemma collect_distinct:
  "\<forall>(ms, out) \<in> set bs. finite out \<Longrightarrow> distinct (map fst points) \<Longrightarrow> distinct (map fst (collect n bs points))"
  by (induction bs arbitrary: n points) (auto simp: collect_Nil collect_Cons walk_distinct)

lemma walk_dom:
  assumes "finite out"
  shows "dom (map_of (snd (fold step (rev (enumerate n ms)) (out, points)))) \<subseteq>
     dom (map_of points) \<union> out \<union> mentions uses defs ms"
proof (induction ms arbitrary: n)
  case (Cons m ms)
  let ?r = "fold step (rev (enumerate (Suc n) ms)) (out, points)"
  have "fst ?r = live_before_of uses defs ms out" using block_walk[OF assms] by blast
  then have "dom (map_of (snd (step (n, m) ?r))) \<subseteq>
      live_before_of uses defs ms out \<union> set (uses m) \<union> set (defs m) \<union> dom (map_of (snd ?r))"
    by (cases ?r) (auto simp: step dom_fold_touch finite_live_before[OF assms] simp del: fold_append)
  then show ?case using Cons.IH[of "Suc n"] live_before_mentions[of uses defs ms out] by auto
qed simp

lemma collect_dom:
  "\<forall>(ms, out) \<in> set bs. finite out \<and> out \<subseteq> V \<and> mentions uses defs ms \<subseteq> V \<Longrightarrow> dom (map_of points) \<subseteq> V \<Longrightarrow>
    dom (map_of (collect n bs points)) \<subseteq> V"
proof (induction bs arbitrary: n points)
  case (Cons x bs)
  obtain ms out where x: "x = (ms, out)" by fastforce
  have "dom (map_of (snd (fold step (rev (enumerate n ms)) (out, points)))) \<subseteq> V"
  proof -
    have "finite out" "out \<subseteq> V" "mentions uses defs ms \<subseteq> V" using Cons.prems(1) x by simp_all
    then show ?thesis
      using walk_dom Cons.prems(2) by blast
  qed
  moreover have "\<forall>(ms, out) \<in> set bs. finite out \<and> out \<subseteq> V \<and> mentions uses defs ms \<subseteq> V"
    using Cons.prems(1) by simp
  ultimately show ?case using Cons.IH by (simp add: x collect_Cons)
qed (simp add: collect_Nil)

text \<open>The solution of the live sets covers every path, and the collected ranges cover every busy position.\<close>

definition flow_for :: "nat list list \<Rightarrow> 'm list list \<Rightarrow> 'v flow" where
  "flow_for succs bodies = zip succs (map (\<lambda>ms. fold note_inst ms ({}, {})) bodies)"

lemma flow_for_nth:
  "length succs = length bodies \<Longrightarrow> b < length bodies \<Longrightarrow>
    flow_for succs bodies ! b = (succs ! b, fold note_inst (bodies ! b) ({}, {}))"
  by (simp add: flow_for_def)

lemma flow_for_ok:
  assumes "length succs = length bodies" "\<forall>ss \<in> set succs. set ss \<subseteq> {..<length bodies}"
  shows "flow_ok (flow_for succs bodies)"
proof -
  have "set ss \<subseteq> {..<length (flow_for succs bodies)} \<and> finite u" if m: "(ss, u, d) \<in> set (flow_for succs bodies)" for ss u d
  proof -
    have "ss \<in> set succs" using set_zip_leftD[OF m[unfolded flow_for_def]] .
    moreover obtain ms where "(u, d) = fold note_inst ms ({}, {})"
      using set_zip_rightD[OF m[unfolded flow_for_def]] by auto
    then have "finite u" using finite_note[of ms] by (metis fst_conv)
    ultimately show ?thesis using assms by (simp add: flow_for_def)
  qed
  then show ?thesis unfolding flow_ok_def by blast
qed

lemma live_path_solution:
  assumes len: "length succs = length bodies" "\<forall>ss \<in> set succs. set ss \<subseteq> {..<length bodies}"
    and sol: "\<forall>b < length bodies. solved (flow_for succs bodies) ls b" and "live_path uses defs succs bodies b k v"
  shows "v \<in> live_before_of uses defs (drop k (bodies ! b)) (ls_out ls ! b)"
  using assms(4)
proof (induction rule: live_path.induct)
  case (path_edge b k s v)
  have s: "s < length bodies" using path_edge.hyps len nth_mem[of b succs] by fastforce
  have "ls_in ls ! s = live_before_of uses defs (bodies ! s) (ls_out ls ! s)"
    using sol s by (simp add: solved_def in_of_def flow_for_nth len live_before_note)
  then have "v \<in> ls_in ls ! s" using path_edge.IH by simp
  then have "v \<in> out_of (flow_for succs bodies) ls b"
    using path_edge.hyps by (auto simp: out_of_def flow_for_nth len)
  then show ?case using sol path_edge.hyps(1,2) by (simp add: solved_def)
qed (simp_all add: Cons_nth_drop_Suc[symmetric])

lemma out_within:
  assumes len: "length succs = length bodies" "\<forall>ss \<in> set succs. set ss \<subseteq> {..<length bodies}"
    and inv: "flow_inv (flow_for succs bodies) ls" and m: "(ms, out) \<in> set (zip bodies (ls_out ls))"
  shows "finite out \<and> out \<subseteq> mentions uses defs (concat bodies) \<and> mentions uses defs ms \<subseteq> mentions uses defs (concat bodies)"
proof -
  have n: "length (flow_for succs bodies) = length bodies" by (simp add: flow_for_def len)
  obtain b where b: "b < length bodies" "ms = bodies ! b" "out = ls_out ls ! b" using m by (auto simp: in_set_zip)
  have "out \<subseteq> flow_vars (flow_for succs bodies)" using inv b n by (simp add: flow_inv_def)
  moreover have "flow_vars (flow_for succs bodies) \<subseteq> mentions uses defs (concat bodies)"
  proof
    fix v assume "v \<in> flow_vars (flow_for succs bodies)"
    then obtain b where "b < length bodies" "v \<in> fst (fold note_inst (bodies ! b) ({}, {}))"
      using n by (auto simp: flow_vars_def in_set_conv_nth flow_for_nth len)
    then show "v \<in> mentions uses defs (concat bodies)"
      using note_mentions nth_mem unfolding mentions_concat by blast
  qed
  moreover have "mentions uses defs ms \<subseteq> mentions uses defs (concat bodies)"
    unfolding mentions_concat using b nth_mem by blast
  ultimately show ?thesis
    using finite_subset[OF _ finite_flow_vars[OF flow_for_ok[OF len]]] by blast
qed

lemma points_sound:
  assumes len: "length succs = length bodies" "\<forall>ss \<in> set succs. set ss \<subseteq> {..<length bodies}"
  obtains ls :: "'v live_sets" where "flow_loop (flow_for succs bodies) = Some ls"
    "distinct (map fst (collect 0 (zip bodies (ls_out ls)) []))"
    "dom (map_of (collect 0 (zip bodies (ls_out ls)) [])) \<subseteq> mentions uses defs (concat bodies)"
    "\<And>b k v. busy_path uses defs succs bodies b k v \<Longrightarrow>
       covers (collect 0 (zip bodies (ls_out ls)) []) (body_position bodies b k) v"
proof -
  have n: "length (flow_for succs bodies) = length bodies" by (simp add: flow_for_def len)
  obtain ls where ls: "flow_loop (flow_for succs bodies) = Some ls" "flow_inv (flow_for succs bodies) ls"
    "\<forall>b < length bodies. solved (flow_for succs bodies) ls b"
    using flow_loop_solution[OF flow_for_ok[OF len]] n by auto
  note outs = out_within[OF len ls(2)]
  have dist: "distinct (map fst (collect 0 (zip bodies (ls_out ls)) []))"
    by (rule collect_distinct) (use outs in auto)
  have dom: "dom (map_of (collect 0 (zip bodies (ls_out ls)) [])) \<subseteq> mentions uses defs (concat bodies)"
    by (rule collect_dom) (use outs in auto)
  have lo: "length (ls_out ls) = length bodies" using ls(2) n by (simp add: flow_inv_def)
  have "covers (collect 0 (zip bodies (ls_out ls)) []) (body_position bodies b k) v"
    if busy: "busy_path uses defs succs bodies b k v" for b k v
  proof -
    have b: "b < length bodies" "k < length (bodies ! b)" using busy by (simp_all add: busy_path_def)
    have "map fst (take b (zip bodies (ls_out ls))) = take b bodies" by (simp add: lo flip: take_map)
    then have start: "block_start (zip bodies (ls_out ls)) b = sum_list (map length (take b bodies))"
      unfolding block_start_def map_map[symmetric] by simp
    have "v \<in> busy_of uses defs (bodies ! b ! k) (live_before_of uses defs (drop (Suc k) (bodies ! b)) (ls_out ls ! b))"
      using busy live_path_solution[OF len ls(3)] by (auto simp: busy_path_def busy_of_def)
    then have "\<exists>b' < length (zip bodies (ls_out ls)). \<exists>k' < length (fst (zip bodies (ls_out ls) ! b')).
        body_position bodies b k = 0 + block_start (zip bodies (ls_out ls)) b' + k' \<and>
        v \<in> busy_of uses defs (fst (zip bodies (ls_out ls) ! b') ! k')
          (live_before_of uses defs (drop (Suc k') (fst (zip bodies (ls_out ls) ! b'))) (snd (zip bodies (ls_out ls) ! b')))"
      using b lo start by (intro exI[of _ b] conjI exI[of _ k]) (simp_all add: body_position_def)
    then show ?thesis using outs by (intro collect_covers) auto
  qed
  then show ?thesis using that ls(1) dist dom by blast
qed

end

end
