(* ===== verification/Live_Exact.thy ===== *)
theory Live_Exact
  imports Live_Flow
begin

text \<open>
  The converse of \<open>Live_Flow\<close>: the live sets hold no more than what is live along paths, and the range of a value starts and ends
  at positions where it is busy.
\<close>

subsection \<open>The iteration stays below every solution\<close>

definition flow_below :: "'v flow \<Rightarrow> (nat \<Rightarrow> 'v set) \<Rightarrow> (nat \<Rightarrow> 'v set) \<Rightarrow> 'v live_sets \<Rightarrow> bool" where
  "flow_below fl I U ls \<longleftrightarrow> length (ls_in ls) = length fl \<and> length (ls_out ls) = length fl \<and>
     (\<forall>b < length fl. ls_in ls ! b \<subseteq> I b \<and> ls_out ls ! b \<subseteq> U b)"

text \<open>What holds of a solution: everything the equations put into a set is in it.\<close>

definition flow_closed :: "'v flow \<Rightarrow> (nat \<Rightarrow> 'v set) \<Rightarrow> (nat \<Rightarrow> 'v set) \<Rightarrow> bool" where
  "flow_closed fl I U \<longleftrightarrow> (\<forall>b < length fl. (\<forall>s \<in> set (fst (fl ! b)). s < length fl \<and> I s \<subseteq> U b) \<and>
     fst (snd (fl ! b)) \<subseteq> I b \<and> U b - snd (snd (fl ! b)) \<subseteq> I b)"

lemma flow_block_below:
  assumes closed: "flow_closed fl I U" and b: "b < length fl" and below: "flow_below fl I U ls"
  shows "flow_below fl I U (fst (flow_block fl b (ls, c)))"
proof -
  let ?o = "out_of fl ls b" and ?i = "in_of fl (out_of fl ls b) b"
  have o: "?o \<subseteq> U b" using closed b below unfolding flow_closed_def flow_below_def out_of_def by fastforce
  have i: "?i \<subseteq> I b" using closed b o unfolding flow_closed_def in_of_def by blast
  have sub: "ls_in ls ! x \<subseteq> I x" "ls_out ls ! x \<subseteq> U x" if "x < length fl" for x
    using below that by (simp_all add: flow_below_def)
  have len: "length (ls_in ls) = length fl" "length (ls_out ls) = length fl"
    using below by (simp_all add: flow_below_def)
  have upd: "(ls_in ls)[b := ?i] ! x \<subseteq> I x" "(ls_out ls)[b := ?o] ! x \<subseteq> U x" if "x < length fl" for x
    using sub[OF that] o i b len by (cases "x = b"; simp)+
  have "flow_below fl I U (ls\<lparr>ls_out := (ls_out ls)[b := ?o], ls_in := (ls_in ls)[b := ?i]\<rparr>)"
    unfolding flow_below_def using upd len by simp
  then show ?thesis using below by (simp add: flow_block_eq Let_def)
qed

lemma flow_fold_below:
  assumes "flow_closed fl I U"
  shows "set bs \<subseteq> {..<length fl} \<Longrightarrow> flow_below fl I U ls \<Longrightarrow> flow_below fl I U (fst (fold (flow_block fl) bs (ls, c)))"
proof (induction bs arbitrary: ls c)
  case (Cons b bs)
  obtain ls' c' where r: "flow_block fl b (ls, c) = (ls', c')" by fastforce
  have "flow_below fl I U ls'" using flow_block_below[OF assms _ Cons.prems(2), of b c] Cons.prems(1) r by simp
  then show ?case using Cons.IH[of ls' c'] Cons.prems(1) r by simp
qed simp

lemma flow_loop_below:
  assumes closed: "flow_closed fl I U" and run: "flow_loop fl = Some ls"
  shows "flow_below fl I U ls"
proof -
  let ?init = "\<lparr>ls_in = replicate (length fl) {}, ls_out = replicate (length fl) {}\<rparr> :: 'a live_sets"
  let ?step = "\<lambda>(ls, _). flow_sweep fl ls"
  obtain st where st: "while_option snd ?step (?init, True) = Some st" "ls = fst st"
    using run by (auto simp: flow_loop_def)
  have keep: "flow_below fl I U (fst (?step st))" if "flow_below fl I U (fst st)" for st
  proof -
    have "flow_below fl I U (fst (flow_sweep fl (fst st)))"
      unfolding flow_sweep_def by (rule flow_fold_below[OF closed _ that]) auto
    then show ?thesis by (simp add: case_prod_unfold)
  qed
  have "flow_below fl I U (fst st)"
    by (rule while_option_rule[of "\<lambda>st. flow_below fl I U (fst st)" snd ?step, OF keep st(1)]) (simp_all add: flow_below_def)
  then show ?thesis by (simp add: st(2))
qed

subsection \<open>Ranges start and end where they must\<close>

definition tight :: "(nat \<Rightarrow> 'v \<Rightarrow> bool) \<Rightarrow> 'v points \<Rightarrow> bool" where
  "tight T points \<longleftrightarrow> (\<forall>v s e. map_of points v = Some (s, e) \<longrightarrow> T s v \<and> T e v)"

lemma tight_touch: "tight T points \<Longrightarrow> T p v \<Longrightarrow> tight T (touch p v points)"
  by (auto simp: tight_def map_of_touch min_def max_def split: if_splits option.splits)

lemma tight_fold_touch: "tight T points \<Longrightarrow> (\<And>v. v \<in> set vs \<Longrightarrow> T p v) \<Longrightarrow> tight T (fold (touch p) vs points)"
  by (induction vs arbitrary: points) (simp_all add: tight_touch)

context backward_walk begin

lemma walk_tight:
  assumes out: "finite out"
    and T: "\<And>k w. k < length ms \<Longrightarrow> w \<in> busy_of uses defs (ms ! k) (live_before_of uses defs (drop (Suc k) ms) out) \<Longrightarrow> T (n + k) w"
    and points: "tight T points"
  shows "tight T (snd (fold step (rev (enumerate n ms)) (out, points)))"
  using T
proof (induction ms arbitrary: n)
  case (Cons m ms)
  let ?r = "fold step (rev (enumerate (Suc n) ms)) (out, points)"
  obtain live pts where lp: "?r = (live, pts)" by fastforce
  have live: "live = live_before_of uses defs ms out" using block_walk[OF out, of "Suc n" ms points] lp by simp
  have T': "T (Suc n + k) w" if "k < length ms" "w \<in> busy_of uses defs (ms ! k) (live_before_of uses defs (drop (Suc k) ms) out)" for k w
    using Cons.prems[of "Suc k" w] that by simp
  have "tight T pts" using Cons.IH[of "Suc n", OF T'] lp by simp
  moreover have "T n w" if "w \<in> live \<union> set (uses m) \<union> set (defs m)" for w
    using Cons.prems[of 0 w] that live by (auto simp: busy_of_def)
  moreover have "finite live" unfolding live by (rule finite_live_before[OF out])
  ultimately have "tight T (snd (step (n, m) (live, pts)))"
    by (auto simp: step intro!: tight_fold_touch)
  then show ?case using lp by simp
qed (simp add: points)

lemma collect_tight:
  assumes "\<forall>(ms, out) \<in> set bs. finite out" "tight T points"
    and "\<And>b k w. b < length bs \<Longrightarrow> k < length (fst (bs ! b)) \<Longrightarrow>
      w \<in> busy_of uses defs (fst (bs ! b) ! k) (live_before_of uses defs (drop (Suc k) (fst (bs ! b))) (snd (bs ! b))) \<Longrightarrow>
      T (n + block_start bs b + k) w"
  shows "tight T (collect n bs points)"
  using assms
proof (induction bs arbitrary: n points)
  case (Cons x bs)
  obtain ms out where x: "x = (ms, out)" by fastforce
  have "tight T (snd (fold step (rev (enumerate n ms)) (out, points)))"
  proof (rule walk_tight)
    fix k w assume "k < length ms" "w \<in> busy_of uses defs (ms ! k) (live_before_of uses defs (drop (Suc k) ms) out)"
    then show "T (n + k) w" using Cons.prems(3)[of 0 k w] x by (simp add: block_start_def)
  qed (use Cons.prems(1,2) x in simp_all)
  moreover have "T (n + length ms + block_start bs b + k) w"
    if "b < length bs" "k < length (fst (bs ! b))"
      "w \<in> busy_of uses defs (fst (bs ! b) ! k) (live_before_of uses defs (drop (Suc k) (fst (bs ! b))) (snd (bs ! b)))" for b k w
    using Cons.prems(3)[of "Suc b" k w] that x by (simp add: block_start_def add.assoc)
  ultimately show ?case using Cons.IH[of _ "n + length ms"] Cons.prems(1) x by (simp add: collect_Cons)
qed (simp add: collect_Nil)

lemma live_before_path:
  assumes b: "b < length bodies" and out: "out \<subseteq> {v. live_path uses defs succs bodies b (length (bodies ! b)) v}"
    and k: "k \<le> length (bodies ! b)"
  shows "live_before_of uses defs (drop k (bodies ! b)) out \<subseteq> {v. live_path uses defs succs bodies b k v}"
  using k
proof (induction "length (bodies ! b) - k" arbitrary: k)
  case 0
  then show ?case using out by simp
next
  case (Suc d)
  then have k: "k < length (bodies ! b)" by simp
  have IH: "live_before_of uses defs (drop (Suc k) (bodies ! b)) out \<subseteq> {v. live_path uses defs succs bodies b (Suc k) v}"
    using Suc.hyps(1)[of "Suc k"] Suc.hyps(2) k by simp
  have drop: "drop k (bodies ! b) = bodies ! b ! k # drop (Suc k) (bodies ! b)"
    using k by (rule Cons_nth_drop_Suc[symmetric])
  have split: "live_before_of uses defs (drop k (bodies ! b)) out =
      (live_before_of uses defs (drop (Suc k) (bodies ! b)) out - set (defs (bodies ! b ! k))) \<union> set (uses (bodies ! b ! k))"
    by (subst drop) (rule live_before_of.simps(2))
  show ?case
  proof
    fix v assume "v \<in> live_before_of uses defs (drop k (bodies ! b)) out"
    then consider "v \<in> set (uses (bodies ! b ! k))" |
      "v \<notin> set (defs (bodies ! b ! k))" "live_path uses defs succs bodies b (Suc k) v"
      unfolding split using IH by auto
    then show "v \<in> {v. live_path uses defs succs bodies b k v}"
      by cases (simp_all add: path_use[OF b k] path_step[OF b k])
  qed
qed

text \<open>The live sets are those of the paths, from above too.\<close>

lemma live_sets_path:
  assumes len: "length succs = length bodies" "\<forall>ss \<in> set succs. set ss \<subseteq> {..<length bodies}"
    and run: "flow_loop (flow_for succs bodies) = Some ls" and b: "b < length bodies"
  shows "ls_out ls ! b \<subseteq> {v. live_path uses defs succs bodies b (length (bodies ! b)) v}"
proof -
  let ?I = "\<lambda>b. {v. live_path uses defs succs bodies b 0 v}"
  let ?O = "\<lambda>b. {v. live_path uses defs succs bodies b (length (bodies ! b)) v}"
  have n: "length (flow_for succs bodies) = length bodies" by (simp add: flow_for_def len)
  have "flow_closed (flow_for succs bodies) ?I ?O"
    unfolding flow_closed_def n
  proof (intro allI impI conjI ballI)
    fix b assume b: "b < length bodies"
    note nth = flow_for_nth[OF len(1) b]
    have "live_before_of uses defs (bodies ! b) (?O b) \<subseteq> ?I b" using live_before_path[OF b order_refl, of 0] by simp
    then show "fst (snd (flow_for succs bodies ! b)) \<subseteq> ?I b" "?O b - snd (snd (flow_for succs bodies ! b)) \<subseteq> ?I b"
      unfolding live_before_note nth by auto
    fix s assume s: "s \<in> set (fst (flow_for succs bodies ! b))"
    then show "s < length bodies" using len b nth by (fastforce simp: len(1)[symmetric])
    show "?I s \<subseteq> ?O b" using s nth path_edge[OF b refl] by auto
  qed
  from flow_loop_below[OF this run] show ?thesis using b n by (simp add: flow_below_def)
qed

lemma points_tight:
  assumes len: "length succs = length bodies" "\<forall>ss \<in> set succs. set ss \<subseteq> {..<length bodies}"
    and run: "flow_loop (flow_for succs bodies) = Some ls"
  shows "tight (\<lambda>p v. \<exists>b k. busy_path uses defs succs bodies b k v \<and> p = body_position bodies b k)
    (collect 0 (zip bodies (ls_out ls)) [])"
proof -
  obtain ls' where "flow_loop (flow_for succs bodies) = Some ls'" "flow_inv (flow_for succs bodies) ls'"
    using flow_loop_solution[OF flow_for_ok[OF len]] by blast
  then have inv: "flow_inv (flow_for succs bodies) ls" using run by simp
  then have lo: "length (ls_out ls) = length bodies" by (simp add: flow_inv_def flow_for_def len)
  show ?thesis
  proof (rule collect_tight)
    show "\<forall>(ms, out) \<in> set (zip bodies (ls_out ls)). finite out" using out_within[OF len inv] by auto
    fix b k w
    assume b: "b < length (zip bodies (ls_out ls))" "k < length (fst (zip bodies (ls_out ls) ! b))"
      and w: "w \<in> busy_of uses defs (fst (zip bodies (ls_out ls) ! b) ! k)
        (live_before_of uses defs (drop (Suc k) (fst (zip bodies (ls_out ls) ! b))) (snd (zip bodies (ls_out ls) ! b)))"
    have bk: "b < length bodies" "k < length (bodies ! b)" using b lo by simp_all
    have "busy_path uses defs succs bodies b k w"
      using w bk lo live_before_path[OF bk(1) live_sets_path[OF len run bk(1)], of "Suc k"]
      by (auto simp: busy_of_def busy_path_def)
    moreover have "map fst (take b (zip bodies (ls_out ls))) = take b bodies" by (simp add: lo flip: take_map)
    then have "block_start (zip bodies (ls_out ls)) b = sum_list (map length (take b bodies))"
      unfolding block_start_def map_map[symmetric] by simp
    ultimately show "\<exists>b' k'. busy_path uses defs succs bodies b' k' w \<and>
        0 + block_start (zip bodies (ls_out ls)) b + k = body_position bodies b' k'"
      by (intro exI[of _ b] exI[of _ k]) (simp add: body_position_def)
  qed (simp add: tight_def)
qed

end

end
