(* ===== verification/A64_Liveness.thy ===== *)
theory A64_Liveness
  imports A64_Ops A64_LinearScan Live_Exact
begin

text \<open>
  Liveness for the AArch64 register allocator, from
  \<^verbatim>\<open>crates/pliron-ll/src/passes/aarch64/aarch64_register_allocate.rs\<close>:
  \<^verbatim>\<open>collect_live_intervals\<close>, \<^verbatim>\<open>block_successors\<close> and \<^verbatim>\<open>values_live_across_calls\<close>.

  The dataflow solution is related to liveness along paths (\<open>live_at\<close>, an inductive relation), the
  intervals to both, and the linear scan of the intervals to the program: values that are live
  together never share a hardware register.
\<close>

subsection \<open>Machine functions\<close>

text \<open>
  A block's instructions; operations that are no instructions are skipped by every loop of the
  allocator.  Blocks are named, and branches name their targets.
\<close>

type_synonym machine_inst = "a64_opcode \<times> a64_inst"

record machine_block =
  mb_id :: nat
  mb_insts :: "machine_inst list"

fun is_terminator :: "machine_inst \<Rightarrow> bool" where
  "is_terminator (opcode, i) \<longleftrightarrow>
     opcode = CtlOp A_B \<or> opcode = CtlOp A_BCond \<or> opcode = CtlOp A_Cbnz \<or> opcode = CtlOp A_Ret \<or> opcode = CtlOp A_Brk"

text \<open>The CFG successors of an instruction: the target first, then the block not taken.\<close>

fun inst_successors :: "machine_inst \<Rightarrow> nat list" where
  "inst_successors (opcode, i) = (case target i of
     None \<Rightarrow> []
   | Some t \<Rightarrow> t # (case not_taken i of None \<Rightarrow> [] | Some n \<Rightarrow> [n]))"

definition virtual_operands_with_kind ::
    "machine_inst \<Rightarrow> operand_kind \<Rightarrow> (operand_key \<times> virtual_register \<times> register_class) list" where
  "virtual_operands_with_kind m kind =
     List.map_filter (\<lambda>(key, reg, k). case reg of
         Virtual v c \<Rightarrow> if k = kind \<and> bank_of c \<noteq> None then Some (key, v, c) else None
       | Physical p \<Rightarrow> None)
       (register_operands (fst m) (snd m))"

definition virtual_use_operands :: "machine_inst \<Rightarrow> (operand_key \<times> virtual_register \<times> register_class) list" where
  "virtual_use_operands m = virtual_operands_with_kind m Use"

definition virtual_def_operands :: "machine_inst \<Rightarrow> (operand_key \<times> virtual_register \<times> register_class) list" where
  "virtual_def_operands m = virtual_operands_with_kind m Def"

definition virtual_uses :: "machine_inst \<Rightarrow> virtual_register list" where
  "virtual_uses m = map (\<lambda>(key, v, c). v) (virtual_use_operands m)"

definition virtual_defs :: "machine_inst \<Rightarrow> virtual_register list" where
  "virtual_defs m = map (\<lambda>(key, v, c). v) (virtual_def_operands m)"

subsection \<open>Successors\<close>

definition block_index :: "machine_block list \<Rightarrow> nat \<rightharpoonup> nat" where
  "block_index blocks = map_of (rev (zip (map mb_id blocks) [0..<length blocks]))"

text \<open>The successors of one block, as a set: what its instructions name, or the next block.\<close>

definition successor_set :: "(nat \<rightharpoonup> nat) \<Rightarrow> nat \<Rightarrow> nat \<Rightarrow> machine_inst list \<Rightarrow> nat set" where
  "successor_set idx n index insts =
     set (List.map_filter idx (concat (map inst_successors insts))) \<union>
     (if \<not> list_ex is_terminator insts \<and> index + 1 < n then {index + 1} else {})"

definition block_successors :: "machine_block list \<Rightarrow> nat list list" where
  "block_successors blocks =
     map (\<lambda>(index, b). sorted_list_of_set (successor_set (block_index blocks) (length blocks) index (mb_insts b)))
       (zip [0..<length blocks] blocks)"

subsection \<open>Live sets\<close>

text \<open>What a block reads before it writes, and what it writes.\<close>

fun note_inst :: "machine_inst \<Rightarrow> virtual_register set \<times> virtual_register set \<Rightarrow>
    virtual_register set \<times> virtual_register set" where
  "note_inst m (uses, defs) = (uses \<union> (set (virtual_uses m) - defs), defs \<union> set (virtual_defs m))"

definition block_uses_defs :: "machine_inst list \<Rightarrow> virtual_register set \<times> virtual_register set" where
  "block_uses_defs insts = fold note_inst insts ({}, {})"

definition flow_of :: "machine_block list \<Rightarrow> virtual_register flow" where
  "flow_of blocks = zip (block_successors blocks) (map (block_uses_defs \<circ> mb_insts) blocks)"

subsection \<open>Intervals\<close>

fun point_step :: "nat \<times> machine_inst \<Rightarrow> virtual_register set \<times> virtual_register points \<Rightarrow> virtual_register set \<times> virtual_register points" where
  "point_step (index, m) (live, points) =
     ((live - set (virtual_defs m)) \<union> set (virtual_uses m),
      fold (touch index) (sorted_list_of_set live @ virtual_uses m @ virtual_defs m) points)"

definition block_points :: "nat \<Rightarrow> machine_inst list \<Rightarrow> virtual_register set \<Rightarrow> virtual_register points \<Rightarrow> virtual_register points" where
  "block_points next_index insts out points =
     snd (fold point_step (rev (enumerate next_index insts)) (out, points))"

fun collect_points :: "nat \<Rightarrow> (machine_inst list \<times> virtual_register set) list \<Rightarrow> virtual_register points \<Rightarrow> virtual_register points" where
  "collect_points next_index [] points = points"
| "collect_points next_index ((insts, out) # bs) points =
     collect_points (next_index + length insts) bs (block_points next_index insts out points)"

definition intervals_of :: "virtual_register points \<Rightarrow> live_interval list" where
  "intervals_of points = sort_key (\<lambda>i. (li_start i, li_end i, li_vreg i))
     (map (\<lambda>(v, (s, e)). \<lparr>li_vreg = v, li_start = s, li_end = e\<rparr>) points)"

text \<open>The class of each value, from its operands; a later operand overwrites an earlier one.\<close>

definition inst_classes :: "machine_inst \<Rightarrow> (virtual_register \<rightharpoonup> register_class) \<Rightarrow> virtual_register \<rightharpoonup> register_class" where
  "inst_classes m classes =
     fold (\<lambda>(key, v, c) cs. cs(v \<mapsto> c)) (virtual_use_operands m @ virtual_def_operands m) classes"

text \<open>The positions that use a value, and those that define it, in program order.\<close>

definition positions :: "(machine_inst \<Rightarrow> virtual_register list) \<Rightarrow> machine_inst list \<Rightarrow> virtual_register \<Rightarrow> nat list" where
  "positions regs insts v =
     concat (map (\<lambda>(p, m). replicate (count_list (regs m) v) p) (enumerate 0 insts))"

record function_liveness =
  fl_insts :: "machine_inst list"
  fl_intervals :: "live_interval list"
  fl_use_positions :: "virtual_register \<Rightarrow> nat list"
  fl_def_positions :: "virtual_register \<Rightarrow> nat list"
  fl_classes :: "virtual_register \<rightharpoonup> register_class"
  fl_inst_block :: "nat list"
  fl_successors :: "nat list list"

definition collect_live_intervals :: "machine_block list \<Rightarrow> function_liveness option" where
  "collect_live_intervals blocks =
     map_option (\<lambda>ls.
       let insts = concat (map mb_insts blocks) in
       \<lparr>fl_insts = insts,
        fl_intervals = intervals_of (collect_points 0 (zip (map mb_insts blocks) (ls_out ls)) []),
        fl_use_positions = positions virtual_uses insts,
        fl_def_positions = positions virtual_defs insts,
        fl_classes = fold inst_classes insts Map.empty,
        fl_inst_block = concat (map (\<lambda>(index, b). replicate (length (mb_insts b)) index) (enumerate 0 blocks)),
        fl_successors = block_successors blocks\<rparr>)
     (flow_loop (flow_of blocks))"

subsection \<open>Calls\<close>

fun is_call :: "machine_inst \<Rightarrow> bool" where
  "is_call (opcode, i) \<longleftrightarrow> opcode = CtlOp A_Call \<or> opcode = CtlOp A_Blr"

definition call_indexes :: "machine_inst list \<Rightarrow> nat list" where
  "call_indexes insts = map fst (filter (is_call \<circ> snd) (enumerate 0 insts))"

definition values_live_across_calls :: "machine_inst list \<Rightarrow> live_interval list \<Rightarrow> virtual_register set" where
  "values_live_across_calls insts ivs =
     li_vreg ` set (filter (\<lambda>i. list_ex (\<lambda>c. li_start i < c \<and> c < li_end i) (call_indexes insts)) ivs)"

subsection \<open>Liveness along paths\<close>

text \<open>The control flow of the function: block \<open>s\<close> may run after block \<open>b\<close>.\<close>

definition flows_to :: "machine_block list \<Rightarrow> nat \<Rightarrow> nat \<Rightarrow> bool" where
  "flows_to blocks b s \<longleftrightarrow> s \<in> successor_set (block_index blocks) (length blocks) b (mb_insts (blocks ! b))"

text \<open>
  \<open>live_at blocks b k v\<close>: from the point before instruction \<open>k\<close> of block \<open>b\<close> (the block's end when
  \<open>k\<close> is its length) some path reads \<open>v\<close> before it writes it.
\<close>

inductive live_at :: "machine_block list \<Rightarrow> nat \<Rightarrow> nat \<Rightarrow> virtual_register \<Rightarrow> bool" for blocks where
  live_use: "b < length blocks \<Longrightarrow> k < length (mb_insts (blocks ! b)) \<Longrightarrow>
    v \<in> set (virtual_uses (mb_insts (blocks ! b) ! k)) \<Longrightarrow> live_at blocks b k v"
| live_step: "b < length blocks \<Longrightarrow> k < length (mb_insts (blocks ! b)) \<Longrightarrow>
    v \<notin> set (virtual_defs (mb_insts (blocks ! b) ! k)) \<Longrightarrow> live_at blocks b (Suc k) v \<Longrightarrow> live_at blocks b k v"
| live_edge: "b < length blocks \<Longrightarrow> k = length (mb_insts (blocks ! b)) \<Longrightarrow>
    flows_to blocks b s \<Longrightarrow> live_at blocks s 0 v \<Longrightarrow> live_at blocks b k v"

inductive_cases live_atE: "live_at blocks b k v"

lemma block_index_bound: "block_index blocks t = Some s \<Longrightarrow> s < length blocks"
  unfolding block_index_def by (drule map_of_SomeD) (auto simp: set_zip)

lemma successor_set_bound:
  "successor_set (block_index blocks) (length blocks) b ms \<subseteq> {..<length blocks}"
  by (auto simp: successor_set_def map_filter_def dest: block_index_bound)

lemma finite_successor_set: "finite (successor_set (block_index blocks) (length blocks) b ms)"
  using successor_set_bound by (rule finite_subset) simp

interpretation walk: backward_walk virtual_uses virtual_defs note_inst point_step collect_points
  by unfold_locales (simp_all add: block_points_def)

lemma flow_of_for: "flow_of blocks = walk.flow_for (block_successors blocks) (map mb_insts blocks)"
  by (simp add: flow_of_def walk.flow_for_def block_uses_defs_def comp_def)

lemma block_successors_length [simp]: "length (block_successors blocks) = length (map mb_insts blocks)"
  by (simp add: block_successors_def)

lemma block_successors_nth:
  "b < length blocks \<Longrightarrow> set (block_successors blocks ! b) = {s. flows_to blocks b s}"
  by (simp add: block_successors_def flows_to_def finite_successor_set)

lemma block_successors_bound: "\<forall>ss \<in> set (block_successors blocks). set ss \<subseteq> {..<length (map mb_insts blocks)}"
  using successor_set_bound by (auto simp: block_successors_def finite_successor_set set_zip)

lemma live_at_path:
  "live_at blocks b k v \<Longrightarrow> live_path virtual_uses virtual_defs (block_successors blocks) (map mb_insts blocks) b k v"
proof (induction rule: live_at.induct)
  case (live_use b k v)
  then show ?case by (simp add: path_use)
next
  case (live_step b k v)
  then show ?case using path_step[of b "map mb_insts blocks" k] by simp
next
  case (live_edge b k s v)
  then show ?case using path_edge[of b "map mb_insts blocks" k s "block_successors blocks"] by (simp add: block_successors_nth)
qed

lemma path_live_at:
  "live_path virtual_uses virtual_defs (block_successors blocks) (map mb_insts blocks) b k v \<Longrightarrow> live_at blocks b k v"
proof (induction rule: live_path.induct)
  case (path_use b k v)
  then show ?case by (simp add: live_use)
next
  case (path_step b k v)
  then show ?case using live_step[of b blocks k v] by simp
next
  case (path_edge b k s v)
  then show ?case using live_edge[of b blocks k s v] by (simp add: block_successors_nth)
qed

subsection \<open>The intervals are what the scan expects\<close>

lemma set_intervals_of:
  "set (intervals_of points) = (\<lambda>(v, (s, e)). \<lparr>li_vreg = v, li_start = s, li_end = e\<rparr>) ` set points"
  by (simp add: intervals_of_def)

lemma distinct_intervals_of:
  assumes "distinct (map fst points)"
  shows "distinct (map li_vreg (intervals_of points))"
proof -
  have "mset (map li_vreg (intervals_of points)) = mset (map fst points)"
    by (simp add: intervals_of_def case_prod_unfold image_mset.compositionality comp_def)
  then show ?thesis using assms by (metis mset_eq_imp_distinct_iff)
qed

lemma sorted_intervals_of: "sorted (map li_start (intervals_of points))"
proof -
  let ?k = "\<lambda>i. (li_start i, li_end i, li_vreg i)"
  have "sorted (map ?k (intervals_of points))" by (simp add: intervals_of_def)
  then have "sorted (map fst (map ?k (intervals_of points)))"
    unfolding sorted_map sorted_wrt_map by (rule sorted_wrt_mono_rel[rotated]) (auto simp: less_eq_prod_def)
  then show ?thesis by (simp add: comp_def)
qed

lemma inst_operand_bank:
  assumes "(key, v, c) \<in> set (virtual_use_operands m @ virtual_def_operands m)"
  shows "bank_of c \<noteq> None"
  using assms
  by (auto simp: virtual_use_operands_def virtual_def_operands_def virtual_operands_with_kind_def map_filter_def
      split: register.splits if_splits)

lemma fold_classes:
  "(\<forall>v c. cs v = Some c \<longrightarrow> bank_of c \<noteq> None) \<Longrightarrow> (\<forall>(key, v, c) \<in> set ops. bank_of c \<noteq> None) \<Longrightarrow>
    (let r = fold (\<lambda>(key, v, c) cs. cs(v \<mapsto> c)) ops cs in
      (\<forall>v c. r v = Some c \<longrightarrow> bank_of c \<noteq> None) \<and> dom r = dom cs \<union> (\<lambda>(key, v, c). v) ` set ops)"
proof (induction ops arbitrary: cs)
  case (Cons x ops)
  obtain key v c where x: "x = (key, v, c)" by (cases x) auto
  have "\<forall>w d. (cs(v \<mapsto> c)) w = Some d \<longrightarrow> bank_of d \<noteq> None" using Cons.prems x by auto
  moreover have "\<forall>(key, v, c) \<in> set ops. bank_of c \<noteq> None" using Cons.prems(2) by simp
  ultimately show ?case using Cons.IH[of "cs(v \<mapsto> c)"] by (auto simp: x Let_def)
qed simp

lemma inst_classes_props:
  assumes "\<forall>v c. cs v = Some c \<longrightarrow> bank_of c \<noteq> None"
  shows "\<forall>v c. inst_classes m cs v = Some c \<longrightarrow> bank_of c \<noteq> None"
    "dom (inst_classes m cs) = dom cs \<union> set (virtual_uses m) \<union> set (virtual_defs m)"
proof -
  have "\<forall>(key, v, c) \<in> set (virtual_use_operands m @ virtual_def_operands m). bank_of c \<noteq> None"
    using inst_operand_bank by blast
  note r = fold_classes[OF assms this, unfolded Let_def, folded inst_classes_def]
  show "\<forall>v c. inst_classes m cs v = Some c \<longrightarrow> bank_of c \<noteq> None" using r by blast
  show "dom (inst_classes m cs) = dom cs \<union> set (virtual_uses m) \<union> set (virtual_defs m)"
    using conjunct2[OF r] by (simp add: virtual_uses_def virtual_defs_def image_Un Un_assoc)
qed

lemma fold_inst_classes:
  "\<forall>v c. cs v = Some c \<longrightarrow> bank_of c \<noteq> None \<Longrightarrow>
    (\<forall>v c. fold inst_classes ms cs v = Some c \<longrightarrow> bank_of c \<noteq> None) \<and> dom (fold inst_classes ms cs) = dom cs \<union> mentions virtual_uses virtual_defs ms"
proof (induction ms arbitrary: cs)
  case (Cons m ms)
  show ?case using Cons.IH[OF inst_classes_props(1)[OF Cons.prems]] inst_classes_props(2)[OF Cons.prems, of m]
    by auto
qed simp

text \<open>The position of instruction \<open>k\<close> of block \<open>b\<close> in \<open>insts\<close>.\<close>

definition position :: "machine_block list \<Rightarrow> nat \<Rightarrow> nat \<Rightarrow> nat" where
  "position blocks b k = sum_list (map (length \<circ> mb_insts) (take b blocks)) + k"

text \<open>The values an instruction's registers must keep apart: those it reads, writes, and those live after it.\<close>

definition busy_at :: "machine_block list \<Rightarrow> nat \<Rightarrow> nat \<Rightarrow> virtual_register \<Rightarrow> bool" where
  "busy_at blocks b k v \<longleftrightarrow> b < length blocks \<and> k < length (mb_insts (blocks ! b)) \<and>
     (v \<in> set (virtual_uses (mb_insts (blocks ! b) ! k)) \<or> v \<in> set (virtual_defs (mb_insts (blocks ! b) ! k)) \<or>
      live_at blocks b (Suc k) v)"

lemma busy_at_path:
  "busy_at blocks b k v \<Longrightarrow> busy_path virtual_uses virtual_defs (block_successors blocks) (map mb_insts blocks) b k v"
  by (auto simp: busy_at_def busy_path_def intro: live_at_path)

lemma position_body: "b < length blocks \<Longrightarrow> position blocks b k = body_position (map mb_insts blocks) b k"
  by (simp add: position_def body_position_def take_map)

lemma collect_cases:
  obtains points fl where "collect_live_intervals blocks = Some fl"
    "fl_insts fl = concat (map mb_insts blocks)" "fl_classes fl = fold inst_classes (concat (map mb_insts blocks)) Map.empty"
    "fl_intervals fl = intervals_of points" "distinct (map fst points)"
    "dom (map_of points) \<subseteq> mentions virtual_uses virtual_defs (concat (map mb_insts blocks))"
    "\<forall>b k v. busy_at blocks b k v \<longrightarrow> covers points (position blocks b k) v"
proof (rule walk.points_sound[OF block_successors_length block_successors_bound])
  fix ls
  assume ls: "flow_loop (walk.flow_for (block_successors blocks) (map mb_insts blocks)) = Some ls"
    "distinct (map fst (collect_points 0 (zip (map mb_insts blocks) (ls_out ls)) []))"
    "dom (map_of (collect_points 0 (zip (map mb_insts blocks) (ls_out ls)) [])) \<subseteq>
       mentions virtual_uses virtual_defs (concat (map mb_insts blocks))"
    "\<And>b k v. busy_path virtual_uses virtual_defs (block_successors blocks) (map mb_insts blocks) b k v \<Longrightarrow>
       covers (collect_points 0 (zip (map mb_insts blocks) (ls_out ls)) []) (body_position (map mb_insts blocks) b k) v"
  have "covers (collect_points 0 (zip (map mb_insts blocks) (ls_out ls)) []) (position blocks b k) v"
    if busy: "busy_at blocks b k v" for b k v
    using ls(4)[OF busy_at_path[OF busy]] busy by (simp add: position_body busy_at_def)
  then show thesis
    using that[of _ "collect_points 0 (zip (map mb_insts blocks) (ls_out ls)) []"] ls(1-3) by (simp add: collect_live_intervals_def Let_def flow_of_for)
qed

lemma collect_scan_input:
  assumes "collect_live_intervals blocks = Some fl"
  shows "scan_input_ok (fl_classes fl) (fl_intervals fl)"
proof -
  let ?V = "mentions virtual_uses virtual_defs (concat (map mb_insts blocks))"
  obtain points where fl: "fl_classes fl = fold inst_classes (concat (map mb_insts blocks)) Map.empty"
      "fl_intervals fl = intervals_of points"
    and dist: "distinct (map fst points)" and dom: "dom (map_of points) \<subseteq> ?V"
    by (rule collect_cases[of blocks]) (use assms in simp)
  have keys: "li_vreg i \<in> ?V" if "i \<in> set (fl_intervals fl)" for i
    using that dom by (auto simp: fl set_intervals_of dom_map_of_conv_image_fst)
  have "vbank (fl_classes fl) v \<noteq> None" if "v \<in> ?V" for v
  proof -
    have "v \<in> dom (fl_classes fl)" "\<forall>c. fl_classes fl v = Some c \<longrightarrow> bank_of c \<noteq> None"
      using fold_inst_classes[of Map.empty "concat (map mb_insts blocks)"] that by (simp_all add: fl)
    then show ?thesis by (auto simp: vbank_def)
  qed
  then show ?thesis
    using keys distinct_intervals_of[OF dist] sorted_intervals_of by (simp add: scan_input_ok_def fl)
qed

subsection \<open>What the allocator may rely on\<close>

definition interval_covers :: "function_liveness \<Rightarrow> virtual_register \<Rightarrow> nat \<Rightarrow> bool" where
  "interval_covers fl v p \<longleftrightarrow> (\<exists>i \<in> set (fl_intervals fl). li_vreg i = v \<and> li_start i \<le> p \<and> p \<le> li_end i)"

lemma busy_covered:
  assumes fl: "collect_live_intervals blocks = Some fl" and busy: "busy_at blocks b k v"
  shows "interval_covers fl v (position blocks b k)"
proof -
  obtain points where ivs: "fl_intervals fl = intervals_of points" and cov: "covers points (position blocks b k) v"
    by (rule collect_cases[of blocks]) (use fl busy in simp)
  obtain s e where se: "map_of points v = Some (s, e)" "s \<le> position blocks b k" "position blocks b k \<le> e"
    using cov by (auto simp: covers_def)
  then have "\<lparr>li_vreg = v, li_start = s, li_end = e\<rparr> \<in> set (fl_intervals fl)"
    using map_of_SomeD[OF se(1)] by (force simp: ivs set_intervals_of)
  then show ?thesis using se by (force simp: interval_covers_def)
qed

lemma path_busy_at:
  "busy_path virtual_uses virtual_defs (block_successors blocks) (map mb_insts blocks) b k v \<Longrightarrow> busy_at blocks b k v"
  by (auto simp: busy_at_def busy_path_def intro: path_live_at)

text \<open>An interval is no longer than it must be: it starts and ends at instructions its value is busy at.\<close>

lemma interval_ends_busy:
  assumes fl: "collect_live_intervals blocks = Some fl" and i: "i \<in> set (fl_intervals fl)"
  shows "\<exists>b k. busy_at blocks b k (li_vreg i) \<and> position blocks b k = li_start i"
    "\<exists>b k. busy_at blocks b k (li_vreg i) \<and> position blocks b k = li_end i"
proof -
  let ?busy = "busy_path virtual_uses virtual_defs (block_successors blocks) (map mb_insts blocks)"
  obtain ls where ls: "flow_loop (walk.flow_for (block_successors blocks) (map mb_insts blocks)) = Some ls"
    and ivs: "fl_intervals fl = intervals_of (collect_points 0 (zip (map mb_insts blocks) (ls_out ls)) [])"
    using fl by (auto simp: collect_live_intervals_def flow_of_for Let_def)
  let ?points = "collect_points 0 (zip (map mb_insts blocks) (ls_out ls)) []"
  obtain ls' where "flow_loop (walk.flow_for (block_successors blocks) (map mb_insts blocks)) = Some ls'"
      "distinct (map fst (collect_points 0 (zip (map mb_insts blocks) (ls_out ls')) []))"
    by (rule walk.points_sound[OF block_successors_length block_successors_bound])
  then have dist: "distinct (map fst ?points)" using ls by simp
  obtain v s e where vse: "(v, s, e) \<in> set ?points" "i = \<lparr>li_vreg = v, li_start = s, li_end = e\<rparr>"
    using i by (auto simp: ivs set_intervals_of)
  then have "map_of ?points v = Some (s, e)" using dist by simp
  with walk.points_tight[OF block_successors_length block_successors_bound ls]
  have "\<exists>b k. ?busy b k v \<and> s = body_position (map mb_insts blocks) b k"
    and "\<exists>b k. ?busy b k v \<and> e = body_position (map mb_insts blocks) b k"
    unfolding tight_def by blast+
  moreover have "busy_at blocks b k v \<and> position blocks b k = body_position (map mb_insts blocks) b k" if "?busy b k v" for b k
    using that path_busy_at[OF that] by (simp add: position_body busy_path_def)
  ultimately show "\<exists>b k. busy_at blocks b k (li_vreg i) \<and> position blocks b k = li_start i"
    "\<exists>b k. busy_at blocks b k (li_vreg i) \<and> position blocks b k = li_end i"
    unfolding vse(2) by (simp, metis)+
qed

text \<open>
  (C27) Liveness: the fixpoint iteration ends for every function, and every value is inside its interval
  at each instruction that reads it, writes it, or after which some path still reads it.
\<close>

theorem liveness_intervals_cover:
  "\<exists>fl. collect_live_intervals blocks = Some fl \<and> scan_input_ok (fl_classes fl) (fl_intervals fl) \<and>
     (\<forall>b k v. busy_at blocks b k v \<longrightarrow> interval_covers fl v (position blocks b k))"
proof -
  obtain fl where fl: "collect_live_intervals blocks = Some fl"
    by (rule collect_cases[of blocks])
  then show ?thesis using busy_covered[OF fl] collect_scan_input[OF fl] by blast
qed

text \<open>The allocation of a function, up to the rewriting of its operands.\<close>

definition allocate_registers ::
    "('w :: linorder \<Rightarrow> 'w \<Rightarrow> bool) \<Rightarrow> 'w \<Rightarrow> (function_liveness \<Rightarrow> (virtual_register \<rightharpoonup> 'w) option) \<Rightarrow>
     machine_block list \<Rightarrow> (function_liveness \<times> scan_state) option" where
  "allocate_registers lt zero weights blocks =
     Option.bind (collect_live_intervals blocks) (\<lambda>fl.
       map_option (Pair fl)
         (linear_scan lt zero (fl_intervals fl) (fl_classes fl)
           (values_live_across_calls (fl_insts fl) (fl_intervals fl)) (weights fl)))"

lemma allocate_cases:
  assumes "allocate_registers lt zero weights blocks = Some (fl, st)"
  shows "collect_live_intervals blocks = Some fl" "scan_input_ok (fl_classes fl) (fl_intervals fl)"
    "linear_scan lt zero (fl_intervals fl) (fl_classes fl)
       (values_live_across_calls (fl_insts fl) (fl_intervals fl)) (weights fl) = Some st"
proof -
  show fl: "collect_live_intervals blocks = Some fl"
    and "linear_scan lt zero (fl_intervals fl) (fl_classes fl)
       (values_live_across_calls (fl_insts fl) (fl_intervals fl)) (weights fl) = Some st"
    using assms by (auto simp: allocate_registers_def Option.bind_eq_Some_conv)
  show "scan_input_ok (fl_classes fl) (fl_intervals fl)" by (rule collect_scan_input[OF fl])
qed

text \<open>
  (C25) Register allocation is sound for every function and policy: it returns, each value has a register
  or a slot, and two different values that an instruction reads, writes, or that are live after it
  are never in the same hardware register.
\<close>

theorem allocation_interference_free:
  "\<exists>fl st. allocate_registers lt zero weights blocks = Some (fl, st) \<and>
     (\<forall>b k v w r s. busy_at blocks b k v \<and> busy_at blocks b k w \<and> v \<noteq> w \<and>
        assigned_register (fl_classes fl) st v = Some r \<and> assigned_register (fl_classes fl) st w = Some s \<longrightarrow>
        hw_unit r \<noteq> hw_unit s)"
proof -
  obtain fl where fl: "collect_live_intervals blocks = Some fl" by (rule collect_cases[of blocks])
  let ?cc = "values_live_across_calls (fl_insts fl) (fl_intervals fl)"
  note ok = collect_scan_input[OF fl]
  obtain st where st: "linear_scan lt zero (fl_intervals fl) (fl_classes fl) ?cc (weights fl) = Some st"
    using linear_scan_runs[OF ok] by blast
  have "hw_unit r \<noteq> hw_unit s"
    if busy: "busy_at blocks b k v" "busy_at blocks b k w" "v \<noteq> w"
      and r: "assigned_register (fl_classes fl) st v = Some r" "assigned_register (fl_classes fl) st w = Some s"
    for b k v w r s
  proof
    assume eq: "hw_unit r = hw_unit s"
    obtain i j where i: "i \<in> set (fl_intervals fl)" "li_vreg i = v" "li_start i \<le> position blocks b k" "position blocks b k \<le> li_end i"
      and j: "j \<in> set (fl_intervals fl)" "li_vreg j = w" "li_start j \<le> position blocks b k" "position blocks b k \<le> li_end j"
      using busy_covered[OF fl busy(1)] busy_covered[OF fl busy(2)] unfolding interval_covers_def by blast
    have "apart i j" using linear_scan_unit_inj[OF ok st i(1) j(1)] i(2) j(2) that(3) r eq by blast
    then show False using i j by (simp add: apart_def)
  qed
  moreover have "allocate_registers lt zero weights blocks = Some (fl, st)"
    by (simp add: allocate_registers_def fl st)
  ultimately show ?thesis by blast
qed

subsection \<open>Values live across calls\<close>

definition ends_in_terminator :: "machine_block list \<Rightarrow> bool" where
  "ends_in_terminator blocks \<longleftrightarrow> list_all (\<lambda>b. mb_insts b \<noteq> [] \<and> is_terminator (last (mb_insts b))) blocks"

lemma insts_at_position:
  assumes "b < length blocks" "k < length (mb_insts (blocks ! b))"
  shows "position blocks b k < length (concat (map mb_insts blocks))"
    "concat (map mb_insts blocks) ! position blocks b k = mb_insts (blocks ! b) ! k"
proof -
  have split: "concat (map mb_insts blocks) =
      concat (map mb_insts (take b blocks)) @ mb_insts (blocks ! b) @ concat (map mb_insts (drop (Suc b) blocks))"
    by (metis assms(1) concat.simps(2) concat_append id_take_nth_drop list.simps(9) map_append)
  have len: "length (concat (map mb_insts (take b blocks))) = sum_list (map (length \<circ> mb_insts) (take b blocks))"
    by (simp add: length_concat)
  show "position blocks b k < length (concat (map mb_insts blocks))"
    unfolding split using assms(2) len by (simp add: position_def)
  show "concat (map mb_insts blocks) ! position blocks b k = mb_insts (blocks ! b) ! k"
    unfolding split using assms(2) len by (simp add: position_def nth_append)
qed

lemma live_after_next:
  assumes "live_at blocks b (Suc k) v" "Suc k < length (mb_insts (blocks ! b))" "b < length blocks"
  shows "busy_at blocks b (Suc k) v"
  using assms(1) by (rule live_atE) (use assms in \<open>auto simp: busy_at_def\<close>)

lemma call_not_terminator: "is_call m \<Longrightarrow> \<not> is_terminator m"
  by (cases m) auto

lemma collect_insts: "collect_live_intervals blocks = Some fl \<Longrightarrow> fl_insts fl = concat (map mb_insts blocks)"
  by (auto simp: collect_live_intervals_def Let_def)

lemma concat_position:
  "p < length (concat (map mb_insts blocks)) \<Longrightarrow>
    \<exists>b k. b < length blocks \<and> k < length (mb_insts (blocks ! b)) \<and> p = position blocks b k"
proof (induction blocks arbitrary: p)
  case (Cons x blocks)
  show ?case
  proof (cases "p < length (mb_insts x)")
    case True
    then show ?thesis by (intro exI[of _ 0] exI[of _ p]) (simp add: position_def)
  next
    case False
    then have "p - length (mb_insts x) < length (concat (map mb_insts blocks))" using Cons.prems by simp
    from Cons.IH[OF this] obtain b k where "b < length blocks" "k < length (mb_insts (blocks ! b))"
      "p - length (mb_insts x) = position blocks b k" by blast
    then show ?thesis using False by (intro exI[of _ "Suc b"] exI[of _ k]) (simp add: position_def)
  qed
qed simp

text \<open>The positions of the calls are those of the call instructions of the blocks.\<close>

lemma call_positions:
  assumes "collect_live_intervals blocks = Some fl"
  shows "c \<in> set (call_indexes (fl_insts fl)) \<longleftrightarrow>
    (\<exists>b k. b < length blocks \<and> k < length (mb_insts (blocks ! b)) \<and> is_call (mb_insts (blocks ! b) ! k) \<and> c = position blocks b k)"
proof -
  let ?is = "concat (map mb_insts blocks)"
  have "c \<in> set (call_indexes (fl_insts fl)) \<longleftrightarrow> c < length ?is \<and> is_call (?is ! c)"
    by (force simp: call_indexes_def collect_insts[OF assms] in_set_enumerate_eq image_iff)
  also have "\<dots> \<longleftrightarrow> (\<exists>b k. b < length blocks \<and> k < length (mb_insts (blocks ! b)) \<and>
      is_call (mb_insts (blocks ! b) ! k) \<and> c = position blocks b k)"
    using concat_position[of c blocks] insts_at_position[of _ blocks] by metis
  finally show ?thesis .
qed

lemma busy_between_crosses:
  assumes fl: "collect_live_intervals blocks = Some fl"
    and call: "b < length blocks" "k < length (mb_insts (blocks ! b))" "is_call (mb_insts (blocks ! b) ! k)"
    and before: "busy_at blocks b1 k1 v" "position blocks b1 k1 < position blocks b k"
    and behind: "busy_at blocks b2 k2 v" "position blocks b k < position blocks b2 k2"
  shows "v \<in> values_live_across_calls (fl_insts fl) (fl_intervals fl)"
proof -
  obtain i where i: "i \<in> set (fl_intervals fl)" "li_vreg i = v" "position blocks b2 k2 \<le> li_end i"
    using busy_covered[OF fl behind(1)] by (auto simp: interval_covers_def)
  obtain j where j: "j \<in> set (fl_intervals fl)" "li_vreg j = v" "li_start j \<le> position blocks b1 k1"
    using busy_covered[OF fl before(1)] by (auto simp: interval_covers_def)
  have "j = i"
    using i j collect_scan_input[OF fl] by (auto simp: scan_input_ok_def distinct_map inj_on_def)
  then have se: "li_start i < position blocks b k" "position blocks b k < li_end i"
    using i j before(2) behind(2) by simp_all
  have "position blocks b k \<in> set (call_indexes (fl_insts fl))"
    using call by (auto simp: call_positions[OF fl])
  then show ?thesis
    using i se by (auto simp: values_live_across_calls_def list_ex_iff image_iff intro!: bexI[of _ i])
qed

lemma crossing_complete:
  assumes fl: "collect_live_intervals blocks = Some fl" and wf: "ends_in_terminator blocks"
    and b: "b < length blocks" "k < length (mb_insts (blocks ! b))" and call: "is_call (mb_insts (blocks ! b) ! k)"
    and live: "live_at blocks b (Suc k) v"
    and before: "busy_at blocks b' k' v" "position blocks b' k' < position blocks b k"
  shows "v \<in> values_live_across_calls (fl_insts fl) (fl_intervals fl)"
proof -
  have "is_terminator (last (mb_insts (blocks ! b)))" "mb_insts (blocks ! b) \<noteq> []"
    using wf b(1) by (auto simp: ends_in_terminator_def list_all_length)
  then have nxt: "Suc k < length (mb_insts (blocks ! b))"
    using call b(2) call_not_terminator by (metis Suc_lessI diff_Suc_1 last_conv_nth)
  show ?thesis
    by (rule busy_between_crosses[OF fl b call before live_after_next[OF live nxt b(1)]]) (simp add: position_def)
qed

text \<open>
  (C26) A value that is live across a call, and was live at some earlier instruction of the layout, sits
  in a register that calls preserve, or in a slot.
\<close>

theorem allocation_survives_calls:
  assumes "allocate_registers lt zero weights blocks = Some (fl, st)" and "ends_in_terminator blocks"
    and "b < length blocks" "k < length (mb_insts (blocks ! b))" "is_call (mb_insts (blocks ! b) ! k)"
    and "live_at blocks b (Suc k) v" "busy_at blocks b' k' v" "position blocks b' k' < position blocks b k"
    and "assigned_register (fl_classes fl) st v = Some r"
  shows "\<exists>u. hw_unit r = Some u \<and> survives_calls u"
proof -
  let ?cc = "values_live_across_calls (fl_insts fl) (fl_intervals fl)"
  note run = allocate_cases[OF assms(1)]
  have cross: "v \<in> ?cc" by (rule crossing_complete[OF run(1) assms(2-8)])
  obtain i where i: "i \<in> set (fl_intervals fl)" "li_vreg i = v"
    using busy_covered[OF run(1) assms(7)] by (auto simp: interval_covers_def)
  obtain t where inv: "scan_inv (fl_classes fl) ?cc none_held t (set (fl_intervals fl)) st"
    using linear_scan_inv[OF run(2,3)] by blast
  from assigned_register_unit[OF inv i(1)] assms(9) i(2) obtain bk p where
    u: "hw_unit r = Some (bk, pool_numbers bk ! p)" "p < pool_size bk" "allowed (fl_classes fl) ?cc v bk p" by auto
  then show ?thesis using cross pool_number_saved(1)[OF u(2)] by (simp add: allowed_def)
qed

subsection \<open>Example functions\<close>

definition blank_inst :: a64_inst where
  "blank_inst = \<lparr>rd = None, rn = None, rm = None, imm = None, shift = None, cond = None, callee = None,
     literal_label = None, target = None, not_taken = None\<rparr>"

text \<open>
  A loop in the layout order: \<open>v1\<close> is set, a call is made, and the block is left or repeated depending
  on \<open>v1\<close>.
\<close>

definition loop_blocks :: "machine_block list" where
  "loop_blocks =
     [\<lparr>mb_id = 10, mb_insts = [(IntOp A_MovImm, blank_inst\<lparr>rd := Some (virtual_gpr 7), imm := Some 5\<rparr>),
                               (CtlOp A_B, blank_inst\<lparr>target := Some 11\<rparr>)]\<rparr>,
      \<lparr>mb_id = 11, mb_insts = [(CtlOp A_Call, blank_inst\<lparr>callee := Some ''f''\<rparr>),
                               (CtlOp A_Cbnz, blank_inst\<lparr>rn := Some (virtual_gpr 7), target := Some 11, not_taken := Some 12\<rparr>)]\<rparr>,
      \<lparr>mb_id = 12, mb_insts = [(CtlOp A_Ret, blank_inst)]\<rparr>]"

text \<open>
  The same with the block that sets the value behind the one that calls: a layout the allocator
  accepts, since blocks need not be ordered by dominance.
\<close>

definition back_blocks :: "machine_block list" where
  "back_blocks =
     [\<lparr>mb_id = 10, mb_insts = [(CtlOp A_B, blank_inst\<lparr>target := Some 12\<rparr>)]\<rparr>,
      \<lparr>mb_id = 11, mb_insts = [(CtlOp A_Call, blank_inst\<lparr>callee := Some ''f''\<rparr>),
                               (CtlOp A_Cbnz, blank_inst\<lparr>rn := Some (virtual_gpr 7), target := Some 13, not_taken := Some 13\<rparr>)]\<rparr>,
      \<lparr>mb_id = 12, mb_insts = [(IntOp A_MovImm, blank_inst\<lparr>rd := Some (virtual_gpr 7), imm := Some 5\<rparr>),
                               (CtlOp A_B, blank_inst\<lparr>target := Some 11\<rparr>)]\<rparr>,
      \<lparr>mb_id = 13, mb_insts = [(CtlOp A_Ret, blank_inst)]\<rparr>]"

definition allocate_plain :: "machine_block list \<Rightarrow> (function_liveness \<times> scan_state) option" where
  "allocate_plain = allocate_registers (<) (0::nat) (\<lambda>_. None)"

definition pair_blocks :: "machine_block list" where
  "pair_blocks =
     [\<lparr>mb_id = 10, mb_insts = [(IntOp A_MovImm, blank_inst\<lparr>rd := Some (virtual_gpr 7), imm := Some 5\<rparr>),
                               (IntOp A_MovImm, blank_inst\<lparr>rd := Some (virtual_gpr 8), imm := Some 6\<rparr>),
                               (MemOp A_Cmp, blank_inst\<lparr>rn := Some (virtual_gpr 7), rm := Some (virtual_gpr 8)\<rparr>),
                               (CtlOp A_Ret, blank_inst)]\<rparr>]"

definition register_in :: "machine_block list \<Rightarrow> virtual_register \<Rightarrow> register option" where
  "register_in blocks v = Option.bind (allocate_plain blocks) (\<lambda>(fl, st). assigned_register (fl_classes fl) st v)"

lemma register_inD:
  "allocate_registers (<) (0::nat) (\<lambda>_. None) blocks = Some (fl, st) \<Longrightarrow>
    assigned_register (fl_classes fl) st v = register_in blocks v"
  by (simp add: register_in_def allocate_plain_def)

lemma loop_intervals:
  "map_option (\<lambda>fl. (fl_intervals fl, fl_classes fl (VirtualRegister 7), call_indexes (fl_insts fl)))
     (collect_live_intervals loop_blocks) =
     Some ([\<lparr>li_vreg = VirtualRegister 7, li_start = 0, li_end = 3\<rparr>], Some Gpr64, [2])"
  by code_simp

lemma example_registers_in:
  "register_in pair_blocks (VirtualRegister 7) = Some (gpr 9)"
  "register_in pair_blocks (VirtualRegister 8) = Some (gpr 10)"
  "register_in back_blocks (VirtualRegister 7) = Some (gpr 9)"
  by code_simp+

lemma loop_register: "register_in loop_blocks (VirtualRegister 7) = Some (gpr 19)"
proof -
  obtain fl where fl: "collect_live_intervals loop_blocks = Some fl"
    "fl_intervals fl = [\<lparr>li_vreg = VirtualRegister 7, li_start = 0, li_end = 3\<rparr>]"
    "fl_classes fl (VirtualRegister 7) = Some Gpr64" "call_indexes (fl_insts fl) = [2]"
    using loop_intervals by auto
  then have "values_live_across_calls (fl_insts fl) (fl_intervals fl) = {VirtualRegister 7}"
    by (simp add: values_live_across_calls_def)
  then show ?thesis
    using fl by (simp add: register_in_def allocate_plain_def allocate_registers_def scan_eval upt_rec
      assigned_register_def pool_reg_def pool_register_def array_at_def)
qed

lemmas example_defs = pair_blocks_def loop_blocks_def back_blocks_def virtual_gpr_def blank_inst_def
  virtual_uses_def virtual_defs_def virtual_use_operands_def virtual_def_operands_def
  virtual_operands_with_kind_def map_filter_def register_operands_def

theorem liveness_intervals_cover_witness:
  "\<exists>fl. collect_live_intervals loop_blocks = Some fl \<and> interval_covers fl (VirtualRegister 7) (position loop_blocks 1 1)"
proof -
  have "busy_at loop_blocks 1 1 (VirtualRegister 7)" by (simp add: busy_at_def example_defs)
  then show ?thesis using liveness_intervals_cover[of loop_blocks] by blast
qed

theorem allocation_interference_free_witness:
  "\<exists>r s. register_in pair_blocks (VirtualRegister 7) = Some r \<and> register_in pair_blocks (VirtualRegister 8) = Some s \<and>
     hw_unit r \<noteq> hw_unit s"
proof -
  have "busy_at pair_blocks 0 2 (VirtualRegister 7)" "busy_at pair_blocks 0 2 (VirtualRegister 8)"
    by (simp_all add: busy_at_def example_defs)
  moreover obtain fl st where a: "allocate_registers (<) (0::nat) (\<lambda>_. None) pair_blocks = Some (fl, st)"
    and free: "\<forall>b k v w r s. busy_at pair_blocks b k v \<and> busy_at pair_blocks b k w \<and> v \<noteq> w \<and>
        assigned_register (fl_classes fl) st v = Some r \<and> assigned_register (fl_classes fl) st w = Some s \<longrightarrow>
        hw_unit r \<noteq> hw_unit s"
    using allocation_interference_free[of "(<)" "0::nat" "\<lambda>_. None" pair_blocks] by blast
  moreover have "VirtualRegister 7 \<noteq> VirtualRegister 8" by simp
  ultimately have "hw_unit (gpr 9) \<noteq> hw_unit (gpr 10)"
    unfolding register_inD[OF a] using example_registers_in by blast
  then show ?thesis using example_registers_in by blast
qed

lemma loop_allocated: "\<exists>fl st. allocate_registers (<) (0::nat) (\<lambda>_. None) loop_blocks = Some (fl, st)"
  using loop_register by (auto simp: register_in_def allocate_plain_def Option.bind_eq_Some_conv)

theorem allocation_survives_calls_witness:
  "\<exists>r u. register_in loop_blocks (VirtualRegister 7) = Some r \<and> hw_unit r = Some u \<and> survives_calls u"
proof -
  obtain fl st where a: "allocate_registers (<) (0::nat) (\<lambda>_. None) loop_blocks = Some (fl, st)"
    using loop_allocated by blast
  have "live_at loop_blocks 1 (Suc 0) (VirtualRegister 7)"
    by (rule live_use) (simp_all add: example_defs)
  moreover have "busy_at loop_blocks 0 0 (VirtualRegister 7)" by (simp add: busy_at_def example_defs)
  moreover have "ends_in_terminator loop_blocks" by (simp add: ends_in_terminator_def example_defs)
  moreover have "assigned_register (fl_classes fl) st (VirtualRegister 7) = Some (gpr 19)"
    using register_inD[OF a] loop_register by simp
  ultimately show ?thesis
    using allocation_survives_calls[OF a, of 1 0 "VirtualRegister 7" 0 0 "gpr 19"] loop_register
    by (simp add: loop_blocks_def position_def)
qed

text \<open>The only call of \<open>back_blocks\<close>, and that the value is not busy before it.\<close>

lemma back_call_first:
  assumes "b < length back_blocks" "k < length (mb_insts (back_blocks ! b))" "is_call (mb_insts (back_blocks ! b) ! k)"
    and "busy_at back_blocks b1 k1 (VirtualRegister 7)"
  shows "\<not> position back_blocks b1 k1 < position back_blocks b k"
proof -
  have "b = 1 \<and> k = 0" using assms(1-3) by (auto simp: example_defs less_Suc_eq nth_Cons')
  moreover have "b1 \<noteq> 0"
  proof
    assume "b1 = 0"
    then have "k1 = 0" "live_at back_blocks 0 1 (VirtualRegister 7)"
      using assms(4) by (auto simp: busy_at_def example_defs)
    from this(2) have "live_at back_blocks (Suc (Suc 0)) 0 (VirtualRegister 7)"
      by (rule live_atE) (auto simp: flows_to_def successor_set_def block_index_def example_defs)
    then show False by (rule live_atE) (simp_all add: example_defs)
  qed
  ultimately show ?thesis using assms(4)
    by (cases b1) (auto simp: position_def busy_at_def back_blocks_def)
qed

text \<open>
  (C37) The calls a value is kept safe from, exactly: for every layout the allocator takes a value to be live across
  calls precisely when some call lies, in the order of the layout, strictly between two instructions the value is busy
  at.  That order need not be the order of execution.
\<close>

theorem live_across_calls_exact:
  assumes fl: "collect_live_intervals blocks = Some fl"
  shows "v \<in> values_live_across_calls (fl_insts fl) (fl_intervals fl) \<longleftrightarrow>
    (\<exists>b k. b < length blocks \<and> k < length (mb_insts (blocks ! b)) \<and> is_call (mb_insts (blocks ! b) ! k) \<and>
      (\<exists>b1 k1. busy_at blocks b1 k1 v \<and> position blocks b1 k1 < position blocks b k) \<and>
      (\<exists>b2 k2. busy_at blocks b2 k2 v \<and> position blocks b k < position blocks b2 k2))" (is "_ \<longleftrightarrow> ?between")
proof
  assume "v \<in> values_live_across_calls (fl_insts fl) (fl_intervals fl)"
  then obtain i c where i: "i \<in> set (fl_intervals fl)" "li_vreg i = v" "li_start i < c" "c < li_end i"
    and c: "c \<in> set (call_indexes (fl_insts fl))"
    by (auto simp: values_live_across_calls_def list_ex_iff)
  then show ?between using interval_ends_busy[OF fl i(1)] c unfolding call_positions[OF fl] i(2) by metis
next
  assume ?between
  then show "v \<in> values_live_across_calls (fl_insts fl) (fl_intervals fl)"
    using busy_between_crosses[OF fl] by blast
qed

text \<open>
  In \<open>back_blocks\<close> the value is live across the call, and it is not busy before it in the layout: it is not
  in the set, and it is kept in \<open>x9\<close>, which calls clobber.
\<close>

theorem live_across_calls_exact_witness:
  "\<exists>fl. collect_live_intervals back_blocks = Some fl \<and>
     VirtualRegister 7 \<notin> values_live_across_calls (fl_insts fl) (fl_intervals fl) \<and>
     is_call (mb_insts (back_blocks ! 1) ! 0) \<and> live_at back_blocks 1 0 (VirtualRegister 7) \<and>
     live_at back_blocks 1 1 (VirtualRegister 7) \<and>
     register_in back_blocks (VirtualRegister 7) = Some (gpr 9) \<and> \<not> survives_calls (BankGpr, 9)"
proof -
  obtain fl where fl: "collect_live_intervals back_blocks = Some fl" by (rule collect_cases[of back_blocks])
  have l: "live_at back_blocks 1 1 (VirtualRegister 7)"
    by (rule live_use) (simp_all add: example_defs)
  moreover have "live_at back_blocks 1 0 (VirtualRegister 7)"
    by (rule live_step) (use l in \<open>simp_all add: example_defs\<close>)
  moreover have "VirtualRegister 7 \<notin> values_live_across_calls (fl_insts fl) (fl_intervals fl)"
    unfolding live_across_calls_exact[OF fl] using back_call_first by blast
  moreover have "is_call (mb_insts (back_blocks ! 1) ! 0)" by (simp add: example_defs)
  ultimately show ?thesis using fl example_registers_in(3) by simp
qed

end
