(* ===== verification/A64_Rewrite.thy ===== *)
theory A64_Rewrite
  imports A64_Liveness
begin

text \<open>
  The last part of the AArch64 register allocator, from
  \<^verbatim>\<open>crates/pliron-ll/src/passes/aarch64/aarch64_register_allocate.rs\<close>:
  \<^verbatim>\<open>rewrite_allocated_registers\<close>, the spill scratch registers, rematerialisation and
  \<^verbatim>\<open>allocate_function\<close>.

  Rewriting never runs out of scratch registers, and it panics exactly if an index is outside a bank's registers;
  \<open>A64_Rewrite_Correct\<close> relates runs of the code before and after.
\<close>

unbundle bit_operations_syntax

subsection \<open>Outcomes\<close>

text \<open>An \<open>expect\<close> that fires, or an input error that is returned.\<close>

datatype failure = Panic | InputError string

fun try_fold :: "('a \<Rightarrow> 's \<Rightarrow> failure + 's) \<Rightarrow> 'a list \<Rightarrow> 's \<Rightarrow> failure + 's" where
  "try_fold f [] s = Inr s"
| "try_fold f (x # xs) s = (case f x s of Inl e \<Rightarrow> Inl e | Inr s' \<Rightarrow> try_fold f xs s')"

fun try_map :: "('a \<Rightarrow> failure + 'b) \<Rightarrow> 'a list \<Rightarrow> failure + 'b list" where
  "try_map f [] = Inr []"
| "try_map f (x # xs) = (case f x of Inl e \<Rightarrow> Inl e | Inr y \<Rightarrow> map_sum id (Cons y) (try_map f xs))"

subsection \<open>Instruction builders\<close>

definition mov_imm :: "register \<Rightarrow> nat \<Rightarrow> machine_inst" where
  "mov_imm dst v = (IntOp A_MovImm, blank_inst\<lparr>rd := Some dst, imm := Some v\<rparr>)"

definition str_sp_offset_sized :: "a64_opcode \<Rightarrow> register \<Rightarrow> nat \<Rightarrow> machine_inst" where
  "str_sp_offset_sized opcode rt offset = (opcode, blank_inst\<lparr>rd := Some rt, imm := Some offset\<rparr>)"

definition ldr_sp_offset_sized :: "a64_opcode \<Rightarrow> register \<Rightarrow> nat \<Rightarrow> machine_inst" where
  "ldr_sp_offset_sized opcode rt offset = (opcode, blank_inst\<lparr>rd := Some rt, imm := Some offset\<rparr>)"

text \<open>\<open>rewrite_register_operand\<close>: the attribute of a key is replaced.\<close>

fun set_operand :: "operand_key \<Rightarrow> register \<Rightarrow> a64_inst \<Rightarrow> a64_inst" where
  "set_operand Rd r i = i\<lparr>rd := Some r\<rparr>"
| "set_operand Rn r i = i\<lparr>rn := Some r\<rparr>"
| "set_operand Rm r i = i\<lparr>rm := Some r\<rparr>"

subsection \<open>Spill scratch registers\<close>

text \<open>The next one of the class's bank; each bank has its own counter.\<close>

fun next_spill_scratch :: "nat \<times> nat \<Rightarrow> register_class \<Rightarrow> failure + (register \<times> (nat \<times> nat))" where
  "next_spill_scratch (g, f) c = (case bank_of c of
     None \<Rightarrow> Inl Panic
   | Some BankGpr \<Rightarrow>
       if g < length spill_scratch_gprs then Inr (spill_scratch_gprs ! g, (g + 1, f))
       else Inl (InputError ''needs more spill scratch registers than are reserved'')
   | Some BankFpr \<Rightarrow>
       if f < length spill_scratch_fpr_numbers
       then Inr (fpr_in_class c (spill_scratch_fpr_numbers ! f), (g, f + 1))
       else Inl (InputError ''needs more spill scratch registers than are reserved''))"

text \<open>The spill store and reload of a class.\<close>

definition spill_opcodes :: "register_class \<Rightarrow> a64_opcode \<times> a64_opcode" where
  "spill_opcodes c = (case c of
     Simd128 \<Rightarrow> (FpMemOp A_StrqSpOffset, FpMemOp A_LdrqSpOffset)
   | Fpr64 \<Rightarrow> (FpMemOp A_StrdSpOffset, FpMemOp A_LdrdSpOffset)
   | Fpr32 \<Rightarrow> (FpMemOp A_StrsSpOffset, FpMemOp A_LdrsSpOffset)
   | _ \<Rightarrow> (MemOp A_StrSpOffset, MemOp A_LdrSpOffset))"

subsection \<open>Rewriting an instruction\<close>

text \<open>The parameters of the pass over a function.\<close>

record rewrite_env =
  re_assignments :: "virtual_register \<rightharpoonup> allocation"
  re_base :: nat
  re_remat :: "virtual_register \<rightharpoonup> nat"

text \<open>The locals while one instruction is rewritten, with what is inserted before and after it.\<close>

record rewrite_state =
  rw_index :: "nat \<times> nat"
  rw_scratch :: "operand_key \<times> virtual_register \<rightharpoonup> register"
  rw_inst :: a64_inst
  rw_before :: "machine_inst list"
  rw_after :: "machine_inst list"

definition spill_offset :: "rewrite_env \<Rightarrow> nat \<Rightarrow> nat" where
  "spill_offset re slot = re_base re + slot * spill_slot_bytes"

fun rewrite_use :: "rewrite_env \<Rightarrow> operand_key \<times> virtual_register \<times> register_class \<Rightarrow> rewrite_state \<Rightarrow>
    failure + rewrite_state" where
  "rewrite_use re (key, v, c) st = (case bank_of c of None \<Rightarrow> Inl Panic | Some b \<Rightarrow>
     (case re_assignments re v of
        None \<Rightarrow> Inr st
      | Some (Phys p) \<Rightarrow>
          (case pool_register b p c of
             None \<Rightarrow> Inl Panic
           | Some r \<Rightarrow> Inr (st\<lparr>rw_inst := set_operand key r (rw_inst st)\<rparr>))
      | Some (Spill slot) \<Rightarrow>
          (case next_spill_scratch (rw_index st) c of
             Inl e \<Rightarrow> Inl e
           | Inr (scratch, index) \<Rightarrow>
               let restore = (case re_remat re v of
                     Some n \<Rightarrow> mov_imm scratch n
                   | None \<Rightarrow> ldr_sp_offset_sized (snd (spill_opcodes c)) scratch (spill_offset re slot))
               in Inr (st\<lparr>rw_index := index, rw_before := rw_before st @ [restore],
                    rw_inst := set_operand key scratch (rw_inst st),
                    rw_scratch := (rw_scratch st)((key, v) \<mapsto> scratch)\<rparr>))))"

fun rewrite_def :: "rewrite_env \<Rightarrow> operand_key \<times> virtual_register \<times> register_class \<Rightarrow> rewrite_state \<Rightarrow>
    failure + rewrite_state" where
  "rewrite_def re (key, v, c) st = (case bank_of c of None \<Rightarrow> Inl Panic | Some b \<Rightarrow>
     (case re_assignments re v of
        None \<Rightarrow> Inr st
      | Some (Phys p) \<Rightarrow>
          (case pool_register b p c of
             None \<Rightarrow> Inl Panic
           | Some r \<Rightarrow> Inr (st\<lparr>rw_inst := set_operand key r (rw_inst st)\<rparr>))
      | Some (Spill slot) \<Rightarrow>
          (case (case rw_scratch st (key, v) of
                   Some scratch \<Rightarrow> Inr (scratch, rw_index st)
                 | None \<Rightarrow> next_spill_scratch (rw_index st) c) of
             Inl e \<Rightarrow> Inl e
           | Inr (scratch, index) \<Rightarrow>
               Inr (st\<lparr>rw_index := index, rw_inst := set_operand key scratch (rw_inst st),
                 rw_after := str_sp_offset_sized (fst (spill_opcodes c)) scratch (spill_offset re slot) # rw_after st\<rparr>))))"

definition rewrite_inst :: "rewrite_env \<Rightarrow> machine_inst \<Rightarrow> failure + machine_inst list" where
  "rewrite_inst re m =
     (case try_fold (rewrite_use re) (virtual_use_operands m)
        \<lparr>rw_index = (0, 0), rw_scratch = Map.empty, rw_inst = snd m, rw_before = [], rw_after = []\<rparr> of
        Inl e \<Rightarrow> Inl e
      | Inr st \<Rightarrow>
          (case try_fold (rewrite_def re) (virtual_def_operands m) st of
             Inl e \<Rightarrow> Inl e
           | Inr st' \<Rightarrow> Inr (rw_before st' @ [(fst m, rw_inst st')] @ rw_after st')))"

definition rewrite_block :: "rewrite_env \<Rightarrow> machine_block \<Rightarrow> failure + machine_block" where
  "rewrite_block re b = map_sum id (\<lambda>ms. b\<lparr>mb_insts := concat ms\<rparr>) (try_map (rewrite_inst re) (mb_insts b))"

definition rewrite_allocated_registers :: "rewrite_env \<Rightarrow> machine_block list \<Rightarrow> failure + machine_block list" where
  "rewrite_allocated_registers re blocks = try_map (rewrite_block re) blocks"

subsection \<open>A whole function\<close>

text \<open>Values with one definition, a \<open>mov_imm\<close>, when rematerialisation is selected.\<close>

definition rematerializable_imms :: "bool \<Rightarrow> function_liveness \<Rightarrow> virtual_register \<rightharpoonup> nat" where
  "rematerializable_imms trivial_remat fl v =
     (if \<not> trivial_remat then None
      else case fl_def_positions fl v of
        [d] \<Rightarrow> if fst (fl_insts fl ! d) = IntOp A_MovImm then imm (snd (fl_insts fl ! d)) else None
      | _ \<Rightarrow> None)"

record machine_func =
  mf_blocks :: "machine_block list"
  mf_stack_size :: nat
  mf_saved_regs :: nat

definition allocate_function ::
    "('w :: linorder \<Rightarrow> 'w \<Rightarrow> bool) \<Rightarrow> 'w \<Rightarrow> (function_liveness \<Rightarrow> (virtual_register \<rightharpoonup> 'w) option) \<Rightarrow>
     bool \<Rightarrow> machine_func \<Rightarrow> failure + machine_func" where
  "allocate_function lt zero weights trivial_remat func =
     (case allocate_registers lt zero weights (mf_blocks func) of
        None \<Rightarrow> Inl Panic
      | Some (fl, st) \<Rightarrow>
          map_sum id (\<lambda>blocks.
            func\<lparr>mf_blocks := blocks,
                 mf_stack_size := align_to_16 (mf_stack_size func + ss_spill_slots st * spill_slot_bytes),
                 mf_saved_regs := (if ss_saved_mask st \<noteq> 0 then ss_saved_mask st else mf_saved_regs func)\<rparr>)
            (rewrite_allocated_registers
               \<lparr>re_assignments = ss_assignments st, re_base = mf_stack_size func,
                re_remat = rematerializable_imms trivial_remat fl\<rparr> (mf_blocks func)))"

subsection \<open>The pass never fails\<close>

lemma operand_specs_table:
  "length (operand_specs opcode) \<le> 3" "distinct (operand_specs opcode)"
  "(key, Def) \<in> set (operand_specs opcode) \<Longrightarrow> key = Rd"
  by (cases opcode; rename_tac x; case_tac x; simp)+

lemma map_filter_simps [simp]:
  "List.map_filter f [] = []"
  "List.map_filter f (x # xs) = (case f x of None \<Rightarrow> List.map_filter f xs | Some y \<Rightarrow> y # List.map_filter f xs)"
  by (simp_all add: map_filter_def split: option.split)

text \<open>The operands the pass visits, from the operand table.\<close>

fun visited :: "a64_inst \<Rightarrow> operand_kind \<Rightarrow> operand_key \<times> operand_kind \<Rightarrow>
    (operand_key \<times> virtual_register \<times> register_class) option" where
  "visited i kind (key, k) = (case operand key i of
     Some (Virtual v c) \<Rightarrow> if k = kind \<and> bank_of c \<noteq> None then Some (key, v, c) else None
   | _ \<Rightarrow> None)"

lemma virtual_operands_table:
  "virtual_operands_with_kind m kind = List.map_filter (visited (snd m) kind) (operand_specs (fst m))"
proof -
  have "List.map_filter f (concat (map (\<lambda>(key, kd). case operand key i of Some reg \<Rightarrow> [(key, reg, kd)] | None \<Rightarrow> []) specs))
      = List.map_filter (visited i kind) specs"
    if "f = (\<lambda>(key, reg, k). case reg of
         Virtual v c \<Rightarrow> if k = kind \<and> bank_of c \<noteq> None then Some (key, v, c) else None
       | Physical p \<Rightarrow> None)" for f i specs
    using that by (induction specs) (auto split: option.splits register.splits)
  then show ?thesis by (simp add: virtual_operands_with_kind_def register_operands_def)
qed

lemma virtual_operands_mem:
  "(key, v, c) \<in> set (virtual_operands_with_kind m kind) \<longleftrightarrow>
     (key, kind) \<in> set (operand_specs (fst m)) \<and> operand key (snd m) = Some (Virtual v c) \<and> bank_of c \<noteq> None"
proof -
  have "(key, v, c) \<in> set (List.map_filter (visited i kind) specs) \<longleftrightarrow>
      (key, kind) \<in> set specs \<and> operand key i = Some (Virtual v c) \<and> bank_of c \<noteq> None" for i specs
    by (induction specs) (auto split: option.splits register.splits if_splits)
  then show ?thesis by (simp add: virtual_operands_table)
qed

lemma virtual_operands_keys: "distinct (map fst (virtual_operands_with_kind m kind))"
proof -
  have "distinct (map fst (List.map_filter (visited i kind) specs))" if "distinct specs" for i specs
    using that
  proof (induction specs)
    case (Cons x specs)
    have "key \<notin> fst ` set (List.map_filter (visited i kind) specs)"
      if "visited i kind x = Some (key, v, c)" for key v c
    proof
      assume "key \<in> fst ` set (List.map_filter (visited i kind) specs)"
      then obtain y where "y \<in> set specs" "\<exists>w d. visited i kind y = Some (key, w, d)"
        by (fastforce simp: map_filter_def)
      with that have "x = y" by (cases x; cases y) (auto split: option.splits register.splits if_splits)
      with \<open>y \<in> set specs\<close> Cons.prems show False by simp
    qed
    then show ?case using Cons by (fastforce split: option.splits)
  qed simp
  then show ?thesis by (simp add: virtual_operands_table operand_specs_table)
qed

lemma virtual_operands_count:
  "length (virtual_use_operands m) + length (virtual_def_operands m) \<le> 3"
proof -
  have "length (List.map_filter (visited i Use) specs) + length (List.map_filter (visited i Def) specs) \<le> length specs"
    for i specs
  proof (induction specs)
    case (Cons x specs)
    have "visited i Use x = None \<or> visited i Def x = None"
      by (cases x) (auto split: option.splits register.splits if_splits)
    then show ?case using Cons by (auto split: option.split)
  qed simp
  from this[of "snd m" "operand_specs (fst m)"] operand_specs_table(1)[of "fst m"]
  show ?thesis by (simp add: virtual_use_operands_def virtual_def_operands_def virtual_operands_table)
qed

text \<open>Each operand takes at most one scratch register.\<close>

definition index_bound :: "nat \<Rightarrow> rewrite_state \<Rightarrow> bool" where
  "index_bound n st \<longleftrightarrow> fst (rw_index st) \<le> n \<and> snd (rw_index st) \<le> n"

lemma scratch_lengths: "length spill_scratch_gprs = 3" "length spill_scratch_fpr_numbers = 3"
  by (simp_all add: spill_scratch_gprs_def spill_scratch_fpr_numbers_def)

lemma next_spill_scratch_ok:
  assumes "bank_of c \<noteq> None" "g < 3" "f < 3"
  shows "\<exists>r idx. next_spill_scratch (g, f) c = Inr (r, idx) \<and> fst idx \<le> Suc g \<and> snd idx \<le> Suc f"
  using assms by (auto simp: scratch_lengths split: bank.splits)

text \<open>An operand whose register index exists.\<close>

fun operand_in_pool :: "rewrite_env \<Rightarrow> operand_key \<times> virtual_register \<times> register_class \<Rightarrow> bool" where
  "operand_in_pool re (key, v, c) \<longleftrightarrow> (case re_assignments re v of
     Some (Phys p) \<Rightarrow> (case bank_of c of None \<Rightarrow> True | Some b \<Rightarrow> p < pool_size b) | _ \<Rightarrow> True)"

definition inst_in_pool :: "rewrite_env \<Rightarrow> machine_inst \<Rightarrow> bool" where
  "inst_in_pool re m \<longleftrightarrow> list_all (operand_in_pool re) (virtual_use_operands m @ virtual_def_operands m)"

definition indices_in_pool :: "rewrite_env \<Rightarrow> machine_block list \<Rightarrow> bool" where
  "indices_in_pool re blocks \<longleftrightarrow> list_all (\<lambda>b. list_all (inst_in_pool re) (mb_insts b)) blocks"

text \<open>A step succeeds if \<open>good\<close>, and panics otherwise.\<close>

definition outcome :: "bool \<Rightarrow> failure + 'a \<Rightarrow> bool" where
  "outcome good r \<longleftrightarrow> (if good then \<exists>x. r = Inr x else r = Inl Panic)"

lemma rewrite_use_ok:
  assumes "index_bound n st" "n < 3" "bank_of c \<noteq> None"
  shows "outcome (operand_in_pool re (key, v, c)) (rewrite_use re (key, v, c) st) \<and>
    (\<forall>st'. rewrite_use re (key, v, c) st = Inr st' \<longrightarrow> index_bound (Suc n) st')"
proof -
  obtain g f where gf: "rw_index st = (g, f)" by fastforce
  then have "g < 3" "f < 3" "g \<le> n" "f \<le> n" using assms by (simp_all add: index_bound_def)
  then obtain r idx where "next_spill_scratch (g, f) c = Inr (r, idx)" "fst idx \<le> Suc g" "snd idx \<le> Suc f"
    using next_spill_scratch_ok assms(3) by blast
  then show ?thesis
    using assms gf \<open>g \<le> n\<close> \<open>f \<le> n\<close>
    by (auto simp: outcome_def pool_register_pool index_bound_def Let_def simp del: next_spill_scratch.simps split: option.split allocation.split)
qed

lemma rewrite_def_ok:
  assumes "index_bound n st" "n < 3" "bank_of c \<noteq> None"
  shows "outcome (operand_in_pool re (key, v, c)) (rewrite_def re (key, v, c) st) \<and>
    (\<forall>st'. rewrite_def re (key, v, c) st = Inr st' \<longrightarrow> index_bound (Suc n) st')"
proof -
  obtain g f where gf: "rw_index st = (g, f)" by fastforce
  then have "g < 3" "f < 3" "g \<le> n" "f \<le> n" using assms by (simp_all add: index_bound_def)
  then obtain r idx where "next_spill_scratch (g, f) c = Inr (r, idx)" "fst idx \<le> Suc g" "snd idx \<le> Suc f"
    using next_spill_scratch_ok assms(3) by blast
  then show ?thesis
    using assms gf \<open>g \<le> n\<close> \<open>f \<le> n\<close>
    by (auto simp: outcome_def pool_register_pool index_bound_def simp del: next_spill_scratch.simps split: option.split allocation.split)
qed

lemma try_fold_outcome:
  assumes "\<And>x n st. x \<in> set xs \<Longrightarrow> index_bound n st \<Longrightarrow> n < 3 \<Longrightarrow>
      outcome (good x) (f x st) \<and> (\<forall>st'. f x st = Inr st' \<longrightarrow> index_bound (Suc n) st')"
    and "index_bound n st" "n + length xs \<le> 3"
  shows "outcome (list_all good xs) (try_fold f xs st) \<and> (\<forall>st'. try_fold f xs st = Inr st' \<longrightarrow> index_bound (n + length xs) st')"
  using assms
proof (induction xs arbitrary: n st)
  case (Cons x xs)
  have x: "outcome (good x) (f x st)" "\<forall>st'. f x st = Inr st' \<longrightarrow> index_bound (Suc n) st'"
    using Cons.prems(1)[of x n st] Cons.prems(2,3) by simp_all
  have rest: "outcome (list_all good xs) (try_fold f xs st1) \<and>
      (\<forall>st'. try_fold f xs st1 = Inr st' \<longrightarrow> index_bound (Suc n + length xs) st')" if "f x st = Inr st1" for st1
    using x(2) that Cons.prems by (intro Cons.IH) auto
  show ?case
  proof (cases "f x st")
    case (Inl e)
    then show ?thesis using x(1) by (simp add: outcome_def split: if_splits)
  next
    case (Inr st1)
    then show ?thesis using x(1) rest[OF Inr] by (auto simp: outcome_def split: if_splits)
  qed
qed (simp add: outcome_def)

lemma rewrite_inst_outcome: "outcome (inst_in_pool re m) (rewrite_inst re m)"
proof -
  let ?init = "\<lparr>rw_index = (0, 0), rw_scratch = Map.empty, rw_inst = snd m, rw_before = [], rw_after = []\<rparr>"
  let ?u = "virtual_use_operands m" and ?d = "virtual_def_operands m"
  have "index_bound 0 ?init" by (simp add: index_bound_def)
  moreover have bank: "bank_of c \<noteq> None" if "(key, v, c) \<in> set ?u \<union> set ?d" for key v c
    using inst_operand_bank[of key v c m] that by auto
  ultimately have u: "outcome (list_all (operand_in_pool re) ?u) (try_fold (rewrite_use re) ?u ?init)"
    "\<forall>st. try_fold (rewrite_use re) ?u ?init = Inr st \<longrightarrow> index_bound (length ?u) st"
    using try_fold_outcome[of ?u "operand_in_pool re" "rewrite_use re" 0 ?init] rewrite_use_ok virtual_operands_count[of m]
    by (force simp del: rewrite_use.simps operand_in_pool.simps)+
  have d: "outcome (list_all (operand_in_pool re) ?d) (try_fold (rewrite_def re) ?d st)" if "index_bound (length ?u) st" for st
    using try_fold_outcome[of ?d "operand_in_pool re" "rewrite_def re", OF _ that virtual_operands_count] bank rewrite_def_ok
    by (force simp del: rewrite_def.simps operand_in_pool.simps)
  show ?thesis
  proof (cases "try_fold (rewrite_use re) ?u ?init")
    case (Inl e)
    then show ?thesis using u(1) by (auto simp: outcome_def rewrite_inst_def inst_in_pool_def split: if_splits)
  next
    case (Inr st)
    then show ?thesis using u d[of st] by (auto simp: outcome_def rewrite_inst_def inst_in_pool_def split: if_splits sum.split)
  qed
qed

lemma try_map_outcome: "(\<And>x. x \<in> set xs \<Longrightarrow> outcome (good x) (f x)) \<Longrightarrow> outcome (list_all good xs) (try_map f xs)"
proof (induction xs)
  case (Cons x xs)
  have "outcome (good x) (f x)" "outcome (list_all good xs) (try_map f xs)" using Cons by simp_all
  then show ?case by (auto simp: outcome_def split: if_splits sum.split)
qed (simp add: outcome_def)

lemma rewrite_block_outcome: "outcome (list_all (inst_in_pool re) (mb_insts b)) (rewrite_block re b)"
  using try_map_outcome[of "mb_insts b" "inst_in_pool re" "rewrite_inst re", OF rewrite_inst_outcome]
  by (auto simp: outcome_def rewrite_block_def split: if_splits)

lemma rewrite_outcome: "outcome (indices_in_pool re blocks) (rewrite_allocated_registers re blocks)"
  unfolding indices_in_pool_def rewrite_allocated_registers_def by (rule try_map_outcome) (rule rewrite_block_outcome)

lemma try_map_nth: "try_map f xs = Inr ys \<Longrightarrow> length ys = length xs \<and> (\<forall>k < length xs. f (xs ! k) = Inr (ys ! k))"
proof (induction xs arbitrary: ys)
  case (Cons x xs)
  obtain y zs where y: "f x = Inr y" "try_map f xs = Inr zs" "ys = y # zs"
    using Cons.prems by (cases "f x"; cases "try_map f xs") auto
  have "f ((x # xs) ! k) = Inr (ys ! k)" if "k < length (x # xs)" for k
    using that y Cons.IH[OF y(2)] by (cases k) auto
  then show ?case using Cons.IH[OF y(2)] y(3) by simp
qed simp

text \<open>
  (C28) Three scratch registers per bank are enough: whatever the opcodes, operands and the assignment, rewriting a function
  never runs out of them, and it panics exactly if some operand's value has been given a register index that the operand's
  bank does not have.
\<close>

theorem rewrite_allocated_registers_succeeds:
  "((\<exists>blocks'. rewrite_allocated_registers re blocks = Inr blocks') = indices_in_pool re blocks) \<and>
   (\<nexists>msg. rewrite_allocated_registers re blocks = Inl (InputError msg))"
  using rewrite_outcome[of re blocks] by (auto simp: outcome_def split: if_splits)

lemma rewrite_block_cases:
  assumes "rewrite_block re b = Inr b'"
  shows "\<exists>mss. try_map (rewrite_inst re) (mb_insts b) = Inr mss \<and> b' = b\<lparr>mb_insts := concat mss\<rparr>"
  using assms by (cases "try_map (rewrite_inst re) (mb_insts b)") (simp_all add: rewrite_block_def)

text \<open>The frame the function asks for: the old one, room for every slot, rounded to 16 bytes.\<close>

lemma align_to_16_props: "16 dvd align_to_16 n" "n \<le> align_to_16 n" "align_to_16 n < n + 16"
  unfolding align_to_16_def by (simp, presburger, presburger)

text \<open>The virtual operands of a function, and that no value has operands in both register files.\<close>

definition function_operands :: "machine_block list \<Rightarrow> (operand_key \<times> virtual_register \<times> register_class) list" where
  "function_operands blocks = concat (map (\<lambda>m. virtual_use_operands m @ virtual_def_operands m) (concat (map mb_insts blocks)))"

definition one_bank :: "machine_block list \<Rightarrow> bool" where
  "one_bank blocks \<longleftrightarrow> list_all (\<lambda>(key, v, c). list_all (\<lambda>(key', v', c'). v \<noteq> v' \<or> bank_of c = bank_of c') (function_operands blocks))
     (function_operands blocks)"

lemma fold_inst_classes_operand:
  "fold inst_classes ms cs v = Some c \<Longrightarrow>
    cs v = Some c \<or> (\<exists>key. (key, v, c) \<in> set (concat (map (\<lambda>m. virtual_use_operands m @ virtual_def_operands m) ms)))"
proof (induction ms arbitrary: cs)
  case (Cons m ms)
  have ops: "fold (\<lambda>(key, v, c) cs. cs(v \<mapsto> c)) xs f v = Some c \<Longrightarrow> f v = Some c \<or> (\<exists>key. (key, v, c) \<in> set xs)" for xs f
    by (induction xs arbitrary: f) (fastforce split: if_splits)+
  have "inst_classes m cs v = Some c \<or>
      (\<exists>key. (key, v, c) \<in> set (concat (map (\<lambda>m. virtual_use_operands m @ virtual_def_operands m) ms)))"
    using Cons.IH[of "inst_classes m cs"] Cons.prems by simp
  then show ?case using ops[of "virtual_use_operands m @ virtual_def_operands m" cs] unfolding inst_classes_def by auto
qed simp

text \<open>With one bank per value the allocator's own indices exist.\<close>

lemma allocation_in_pool:
  assumes a: "allocate_registers lt zero weights blocks = Some (fl, st)" and one: "one_bank blocks"
    and re: "re_assignments re = ss_assignments st"
  shows "indices_in_pool re blocks"
proof -
  note run = allocate_cases[OF a]
  obtain t where inv: "scan_inv (fl_classes fl) (values_live_across_calls (fl_insts fl) (fl_intervals fl)) none_held t (set (fl_intervals fl)) st"
    using linear_scan_inv[OF run(2,3)] by blast
  have cls: "fl_classes fl = fold inst_classes (concat (map mb_insts blocks)) Map.empty" by (rule collect_cases[of blocks]) (use run(1) in simp)
  have "operand_in_pool re (key, v, c)"
    if m: "b < length blocks" "k < length (mb_insts (blocks ! b))" "m = mb_insts (blocks ! b) ! k"
      and x: "(key, v, c) \<in> set (virtual_use_operands m @ virtual_def_operands m)" for b k m key v c
  proof (cases "re_assignments re v")
    case (Some al)
    show ?thesis
    proof (cases al)
      case (Phys p)
      obtain bk where bk: "bank_of c = Some bk" using inst_operand_bank[OF x] by blast
      have "m \<in> set (concat (map mb_insts blocks))" using m nth_mem by fastforce
      then have op: "(key, v, c) \<in> set (function_operands blocks)" using x unfolding function_operands_def by fastforce
      have "v \<in> set (virtual_uses m) \<or> v \<in> set (virtual_defs m)" using x by (force simp: virtual_uses_def virtual_defs_def)
      then have busy: "busy_at blocks b k v" using m by (auto simp: busy_at_def)
      obtain i where i: "i \<in> set (fl_intervals fl)" "li_vreg i = v"
        using busy_covered[OF run(1) busy] by (auto simp: interval_covers_def)
      obtain c' where c': "fl_classes fl v = Some c'" "bank_of c' \<noteq> None"
        using run(2) i by (auto simp: scan_input_ok_def vbank_def Option.bind_eq_None_conv)
      then obtain key' where "(key', v, c') \<in> set (function_operands blocks)"
        using fold_inst_classes_operand[of "concat (map mb_insts blocks)" Map.empty v c'] unfolding cls function_operands_def by auto
      then have "bank_of c' = Some bk" using one op bk unfolding one_bank_def list_all_iff by fastforce
      then have "vbank (fl_classes fl) (li_vreg i) = Some bk" using c'(1) i(2) by (simp add: vbank_def)
      then have "allowed (fl_classes fl) (values_live_across_calls (fl_insts fl) (fl_intervals fl)) v bk p"
        using scan_invD(3)[OF inv, unfolded phys_ok_def, rule_format, OF i(1), of bk p] i(2) Some Phys re by simp
      then show ?thesis using Some Phys bk by (simp add: allowed_def)
    qed (use Some in simp)
  qed simp
  then show ?thesis
    unfolding indices_in_pool_def inst_in_pool_def list_all_length[of _ blocks] list_all_length[of _ "mb_insts _"]
    by (fastforce simp: list_all_iff)
qed

text \<open>
  (C31) The allocator returns for every function whose values each stay in one register file, and where one does not it returns or
  panics: the blocks keep their names, the stack frame is 16-byte aligned and holds every spill slot above the old one, and each
  callee-saved register the function uses is marked to be saved.
\<close>

theorem allocate_function_returns:
  "\<exists>fl st. allocate_registers lt zero weights (mf_blocks func) = Some (fl, st) \<and>
    (allocate_function lt zero weights remat func = Inl Panic \<and> \<not> one_bank (mf_blocks func) \<or>
     (\<exists>func'. allocate_function lt zero weights remat func = Inr func' \<and>
       map mb_id (mf_blocks func') = map mb_id (mf_blocks func) \<and>
       16 dvd mf_stack_size func' \<and> mf_stack_size func + ss_spill_slots st * spill_slot_bytes \<le> mf_stack_size func' \<and>
       (ss_saved_mask st \<noteq> 0 \<longrightarrow> mf_saved_regs func' = ss_saved_mask st)))"
proof -
  obtain fl where fl: "collect_live_intervals (mf_blocks func) = Some fl" by (rule collect_cases)
  obtain st where a: "allocate_registers lt zero weights (mf_blocks func) = Some (fl, st)"
    using linear_scan_runs[OF collect_scan_input[OF fl], of lt zero
        "values_live_across_calls (fl_insts fl) (fl_intervals fl)" "weights fl"]
    by (auto simp: allocate_registers_def fl)
  let ?re = "\<lparr>re_assignments = ss_assignments st, re_base = mf_stack_size func,
    re_remat = rematerializable_imms remat fl\<rparr>"
  have out: "outcome (indices_in_pool ?re (mf_blocks func)) (rewrite_allocated_registers ?re (mf_blocks func))"
    by (rule rewrite_outcome)
  show ?thesis
  proof (cases "indices_in_pool ?re (mf_blocks func)")
    case False
    then have "\<not> one_bank (mf_blocks func)" using allocation_in_pool[OF a, of ?re] by auto
    then show ?thesis using a out False by (auto simp: outcome_def allocate_function_def)
  next
    case True
    then obtain blocks where b: "rewrite_allocated_registers ?re (mf_blocks func) = Inr blocks" using out by (auto simp: outcome_def)
    have "mb_id (blocks ! k) = mb_id (mf_blocks func ! k)" if "k < length (mf_blocks func)" for k
    proof -
      have "rewrite_block ?re (mf_blocks func ! k) = Inr (blocks ! k)"
        using try_map_nth[OF b[unfolded rewrite_allocated_registers_def]] that by blast
      from rewrite_block_cases[OF this] show ?thesis by fastforce
    qed
    then have "map mb_id blocks = map mb_id (mf_blocks func)"
      using try_map_nth[OF b[unfolded rewrite_allocated_registers_def]] by (auto intro!: nth_equalityI)
    then show ?thesis
      using a b align_to_16_props by (auto simp: allocate_function_def)
  qed
qed

lemma loop_one_bank: "one_bank loop_blocks"
  by (simp add: one_bank_def function_operands_def example_defs)

text \<open>The loop of \<open>loop_blocks\<close> as a function: one value across a call, in \<open>x19\<close>.\<close>

theorem allocate_function_returns_witness:
  "\<exists>func' fl st. allocate_function (<) (0::nat) (\<lambda>_. None) False
       \<lparr>mf_blocks = loop_blocks, mf_stack_size = 20, mf_saved_regs = 0\<rparr> = Inr func' \<and>
     map mb_id (mf_blocks func') = [10, 11, 12] \<and> 16 dvd mf_stack_size func' \<and> 20 \<le> mf_stack_size func' \<and>
     allocate_registers (<) (0::nat) (\<lambda>_. None) loop_blocks = Some (fl, st) \<and>
     (ss_saved_mask st = 0 \<or> mf_saved_regs func' = ss_saved_mask st)"
proof -
  let ?func = "\<lparr>mf_blocks = loop_blocks, mf_stack_size = 20, mf_saved_regs = 0\<rparr>"
  have ids: "map mb_id (mf_blocks ?func) = [10, 11, 12]" by (simp add: loop_blocks_def)
  have one: "one_bank (mf_blocks ?func)" using loop_one_bank by simp
  obtain fl st where r: "allocate_registers (<) (0::nat) (\<lambda>_. None) (mf_blocks ?func) = Some (fl, st)"
      "allocate_function (<) (0::nat) (\<lambda>_. None) False ?func = Inl Panic \<and> \<not> one_bank (mf_blocks ?func) \<or>
       (\<exists>func'. allocate_function (<) (0::nat) (\<lambda>_. None) False ?func = Inr func' \<and>
         map mb_id (mf_blocks func') = map mb_id (mf_blocks ?func) \<and>
         16 dvd mf_stack_size func' \<and> mf_stack_size ?func + ss_spill_slots st * spill_slot_bytes \<le> mf_stack_size func' \<and>
         (ss_saved_mask st \<noteq> 0 \<longrightarrow> mf_saved_regs func' = ss_saved_mask st))"
    using allocate_function_returns[of "(<)" "0::nat" "\<lambda>_. None" ?func False] by (elim exE conjE) (rule that)
  then obtain func' where f: "allocate_function (<) (0::nat) (\<lambda>_. None) False ?func = Inr func'"
      "map mb_id (mf_blocks func') = map mb_id (mf_blocks ?func)" "16 dvd mf_stack_size func'"
      "mf_stack_size ?func + ss_spill_slots st * spill_slot_bytes \<le> mf_stack_size func'"
      "ss_saved_mask st \<noteq> 0 \<longrightarrow> mf_saved_regs func' = ss_saved_mask st"
    using one by blast
  have size: "20 \<le> mf_stack_size func'" using f(4) unfolding machine_func.simps by linarith
  have regs: "allocate_registers (<) (0::nat) (\<lambda>_. None) loop_blocks = Some (fl, st)"
    using r(1) unfolding machine_func.simps .
  have saved: "ss_saved_mask st = 0 \<or> mf_saved_regs func' = ss_saved_mask st" using f(5) by blast
  show ?thesis
    by (intro exI conjI) (rule f(1), rule f(2)[unfolded ids], rule f(3), rule size, rule regs, rule saved)
qed

end
