(* ===== verification/A64_Encode.thy ===== *)
theory A64_Encode
  imports A64_Ops
begin

unbundle bit_operations_syntax

text \<open>
  The fixed-length A64 encodings, from
  \<^verbatim>\<open>crates/pliron-ll/src/aarch64/encoding.rs\<close>: \<^verbatim>\<open>encode_fixed_inst\<close>, the
  field encoders it dispatches to, and the FMOV immediates.  The dispatch is a
  table from opcodes to forms, one form per encoder function with the arguments
  the table gives it; an encoder returns the machine word, \<open>Some None\<close> where the
  code returns \<open>None\<close> (not encodable), and \<open>None\<close> where it panics (an operand is
  missing or is not a physical register of the expected file).
\<close>

datatype reg_file = XReg | FReg | QReg

datatype form =
    MovImmForm
  | WideMoveForm u32
  | MovForm
  | ThreeRegForm u32 reg_file
  | TwoRegForm u32 reg_file reg_file
  | FcmpForm u32
  | FmovRRForm u32
  | FmovImmForm u32
  | VShiftForm u32 nat bool
  | MovVecForm
  | MemForm u32 nat bool reg_file
  | CmpForm
  | StrPreForm
  | LdrPostForm
  | SpImmForm u32
  | AddSpOffsetForm
  | SpOffsetForm u32
  | SvcForm
  | MrsForm
  | BlrForm
  | CsetForm
  | FixedForm u32

subsection \<open>Register numbers\<close>

fun xreg :: "register \<Rightarrow> u32 option" where
  "xreg (Physical (PGpr64 n)) = Some (of_nat n)"
| "xreg _ = None"

fun freg :: "register \<Rightarrow> u32 option" where
  "freg (Physical (PFpr64 n)) = Some (of_nat n)"
| "freg (Physical (PFpr32 n)) = Some (of_nat n)"
| "freg _ = None"

fun qreg :: "register \<Rightarrow> u32 option" where
  "qreg (Physical (PSimd128 n)) = Some (of_nat n)"
| "qreg _ = None"

fun file_number :: "reg_file \<Rightarrow> register \<Rightarrow> u32 option" where
  "file_number XReg r = xreg r"
| "file_number FReg r = freg r"
| "file_number QReg r = qreg r"

text \<open>\<open>ops::reg(\<dots>).unwrap()\<close> followed by the file's number.\<close>

definition num :: "reg_file \<Rightarrow> operand_key \<Rightarrow> a64_inst \<Rightarrow> u32 option" where
  "num file key i = Option.bind (operand key i) (file_number file)"

subsection \<open>The field encoders\<close>

definition imm32 :: "nat \<Rightarrow> u32" where
  "imm32 n = of_nat n"

definition encode_wide_move :: "a64_inst \<Rightarrow> u32 \<Rightarrow> u32 option option" where
  "encode_wide_move i base =
     (case shift i of None \<Rightarrow> Some None | Some sh \<Rightarrow>
      if sh > 48 \<or> sh mod 16 \<noteq> 0 then Some None
      else case imm i of None \<Rightarrow> Some None | Some v \<Rightarrow>
      do { d \<leftarrow> num XReg Rd i;
           Some (Some (base OR push_bit 21 (imm32 (sh div 16)) OR push_bit 5 (imm32 v AND 0xffff) OR d)) })"

definition encode_three :: "reg_file \<Rightarrow> a64_inst \<Rightarrow> u32 \<Rightarrow> u32 option option" where
  "encode_three file i base = do {
     m \<leftarrow> num file Rm i; n \<leftarrow> num file Rn i; d \<leftarrow> num file Rd i;
     Some (Some (base OR push_bit 16 m OR push_bit 5 n OR d)) }"

definition encode_two_reg :: "a64_inst \<Rightarrow> u32 \<Rightarrow> reg_file \<Rightarrow> reg_file \<Rightarrow> u32 option option" where
  "encode_two_reg i base rd_number rn_number = do {
     n \<leftarrow> num rn_number Rn i; d \<leftarrow> num rd_number Rd i;
     Some (Some (base OR push_bit 5 n OR d)) }"

definition encode_fcmp :: "a64_inst \<Rightarrow> u32 \<Rightarrow> u32 option option" where
  "encode_fcmp i base = do {
     m \<leftarrow> num FReg Rm i; n \<leftarrow> num FReg Rn i;
     Some (Some (base OR push_bit 16 m OR push_bit 5 n)) }"

definition encode_fmov_rr :: "a64_inst \<Rightarrow> u32 \<Rightarrow> u32 option option" where
  "encode_fmov_rr i base = do {
     m \<leftarrow> num FReg Rm i; d \<leftarrow> num FReg Rd i;
     Some (Some (base OR push_bit 5 m OR d)) }"

definition encode_fmov_imm :: "a64_inst \<Rightarrow> u32 \<Rightarrow> u32 option option" where
  "encode_fmov_imm i base =
     (case imm i of None \<Rightarrow> Some None | Some imm8 \<Rightarrow>
      if imm8 > 0xff then Some None
      else do { d \<leftarrow> num FReg Rd i; Some (Some (base OR push_bit 13 (imm32 imm8) OR d)) })"

definition encode_vshift_imm :: "a64_inst \<Rightarrow> u32 \<Rightarrow> nat \<Rightarrow> bool \<Rightarrow> u32 option option" where
  "encode_vshift_imm i base lanebits right =
     (case imm i of None \<Rightarrow> Some None | Some sh \<Rightarrow>
      let field = (if right then (if sh = 0 \<or> sh > lanebits then None else Some (2 * lanebits - sh))
                   else (if sh \<ge> lanebits then None else Some (lanebits + sh)))
      in case field of None \<Rightarrow> Some None | Some field \<Rightarrow>
      do { n \<leftarrow> num QReg Rn i; d \<leftarrow> num QReg Rd i;
           Some (Some (base OR push_bit 16 (imm32 field) OR push_bit 5 n OR d)) })"

definition encode_mov_vec :: "a64_inst \<Rightarrow> u32 option option" where
  "encode_mov_vec i = do {
     m \<leftarrow> num QReg Rm i; d \<leftarrow> num QReg Rd i;
     Some (Some (0x4ea01c00 OR push_bit 16 m OR push_bit 5 m OR d)) }"

text \<open>\<open>checked_sub\<close> of the bit that selects the unsigned-offset form.\<close>

definition unscaled_base :: "u32 \<Rightarrow> u32 option" where
  "unscaled_base base = (if 0x01000000 \<le> base then Some (base - 0x01000000) else None)"

definition encode_mem_offset_with ::
    "a64_inst \<Rightarrow> u32 \<Rightarrow> nat \<Rightarrow> bool \<Rightarrow> reg_file \<Rightarrow> u32 option option" where
  "encode_mem_offset_with i base scale fixed_sp data =
     (case imm i of None \<Rightarrow> Some None | Some bytes \<Rightarrow>
      do { n \<leftarrow> (if fixed_sp then Some 31 else num XReg Rn i);
           if bytes \<le> 4095 * scale \<and> bytes mod scale = 0 then
             do { d \<leftarrow> num data Rd i;
                  Some (Some (base OR push_bit 10 (imm32 (bytes div scale)) OR push_bit 5 n OR d)) }
           else if bytes > 255 then Some None
           else (case unscaled_base base of None \<Rightarrow> Some None | Some ub \<Rightarrow>
             do { d \<leftarrow> num data Rd i;
                  Some (Some (ub OR push_bit 12 (imm32 bytes) OR push_bit 5 n OR d)) }) })"

definition encode_cmp :: "a64_inst \<Rightarrow> u32 option option" where
  "encode_cmp i = do {
     m \<leftarrow> num XReg Rm i; n \<leftarrow> num XReg Rn i;
     Some (Some (0xeb00001f OR push_bit 16 m OR push_bit 5 n)) }"

definition encode_str_pre_sp :: "a64_inst \<Rightarrow> u32 option option" where
  "encode_str_pre_sp i =
     (case imm i of None \<Rightarrow> Some None | Some bytes \<Rightarrow>
      if bytes > 256 \<or> bytes mod 8 \<noteq> 0 then Some None
      else let imm9 = (512 - imm32 bytes) AND 0x1ff in
      do { d \<leftarrow> num XReg Rd i;
           Some (Some (0xf8000c00 OR push_bit 12 imm9 OR push_bit 5 31 OR d)) })"

definition encode_ldr_post_sp :: "a64_inst \<Rightarrow> u32 option option" where
  "encode_ldr_post_sp i =
     (case imm i of None \<Rightarrow> Some None | Some bytes \<Rightarrow>
      if bytes > 255 \<or> bytes mod 8 \<noteq> 0 then Some None
      else do { d \<leftarrow> num XReg Rd i;
                Some (Some (0xf8400400 OR push_bit 12 (imm32 bytes) OR push_bit 5 31 OR d)) })"

definition encode_sp_imm :: "a64_inst \<Rightarrow> u32 \<Rightarrow> u32 option option" where
  "encode_sp_imm i base =
     (case imm i of None \<Rightarrow> Some None | Some bytes \<Rightarrow>
      if bytes > 4095 then Some None else Some (Some (base OR push_bit 10 (imm32 bytes))))"

definition encode_add_sp_offset :: "a64_inst \<Rightarrow> u32 option option" where
  "encode_add_sp_offset i =
     (case imm i of None \<Rightarrow> Some None | Some bytes \<Rightarrow>
      if bytes > 4095 then Some None
      else do { d \<leftarrow> num XReg Rd i; Some (Some (0x910003e0 OR push_bit 10 (imm32 bytes) OR d)) })"

definition encode_sp_offset :: "a64_inst \<Rightarrow> u32 \<Rightarrow> u32 option option" where
  "encode_sp_offset i base =
     (case imm i of None \<Rightarrow> Some None | Some bytes \<Rightarrow>
      if bytes > 32760 \<or> bytes mod 8 \<noteq> 0 then Some None
      else do { d \<leftarrow> num XReg Rd i; Some (Some (base OR push_bit 10 (imm32 bytes div 8) OR d)) })"

definition encode_svc :: "a64_inst \<Rightarrow> u32 option option" where
  "encode_svc i =
     (case imm i of None \<Rightarrow> Some None | Some v \<Rightarrow>
      if v > 0xffff then Some None else Some (Some (0xd4000001 OR push_bit 5 (imm32 v))))"

definition encode_cset :: "a64_inst \<Rightarrow> u32 option option" where
  "encode_cset i =
     (case cond i of None \<Rightarrow> Some None | Some c \<Rightarrow>
      do { d \<leftarrow> num XReg Rd i;
           Some (Some (0x9a9f07e0 OR push_bit 12 (imm32 (cond_encoding (invert c))) OR d)) })"

text \<open>\<open>MovImm\<close> unwraps its immediate: a missing one panics.\<close>

definition encode_mov_imm :: "a64_inst \<Rightarrow> u32 option option" where
  "encode_mov_imm i = do {
     v \<leftarrow> imm i; d \<leftarrow> num XReg Rd i;
     Some (Some (0xd2800000 OR push_bit 5 (imm32 v AND 0xffff) OR d)) }"

definition encode_mov :: "a64_inst \<Rightarrow> u32 option option" where
  "encode_mov i = do {
     m \<leftarrow> num XReg Rm i; d \<leftarrow> num XReg Rd i;
     Some (Some (0xaa0003e0 OR push_bit 16 m OR d)) }"

fun encode_form :: "form \<Rightarrow> a64_inst \<Rightarrow> u32 option option" where
  "encode_form MovImmForm i = encode_mov_imm i"
| "encode_form (WideMoveForm base) i = encode_wide_move i base"
| "encode_form MovForm i = encode_mov i"
| "encode_form (ThreeRegForm base file) i = encode_three file i base"
| "encode_form (TwoRegForm base d n) i = encode_two_reg i base d n"
| "encode_form (FcmpForm base) i = encode_fcmp i base"
| "encode_form (FmovRRForm base) i = encode_fmov_rr i base"
| "encode_form (FmovImmForm base) i = encode_fmov_imm i base"
| "encode_form (VShiftForm base lanebits right) i = encode_vshift_imm i base lanebits right"
| "encode_form MovVecForm i = encode_mov_vec i"
| "encode_form (MemForm base scale fixed_sp data) i = encode_mem_offset_with i base scale fixed_sp data"
| "encode_form CmpForm i = encode_cmp i"
| "encode_form StrPreForm i = encode_str_pre_sp i"
| "encode_form LdrPostForm i = encode_ldr_post_sp i"
| "encode_form (SpImmForm base) i = encode_sp_imm i base"
| "encode_form AddSpOffsetForm i = encode_add_sp_offset i"
| "encode_form (SpOffsetForm base) i = encode_sp_offset i base"
| "encode_form SvcForm i = encode_svc i"
| "encode_form MrsForm i = do { d \<leftarrow> num XReg Rd i; Some (Some (0xd53bd040 OR d)) }"
| "encode_form BlrForm i = do { n \<leftarrow> num XReg Rn i; Some (Some (0xd63f0000 OR push_bit 5 n)) }"
| "encode_form CsetForm i = encode_cset i"
| "encode_form (FixedForm w) i = Some (Some w)"

subsection \<open>The dispatch table\<close>

primrec int_op_form :: "a64_int_op \<Rightarrow> form option" where
  "int_op_form A_MovImm = Some (MovImmForm)"
| "int_op_form A_Movz = Some (WideMoveForm 0xd2800000)"
| "int_op_form A_Movk = Some (WideMoveForm 0xf2800000)"
| "int_op_form A_Mov = Some (MovForm)"
| "int_op_form A_Add = Some (ThreeRegForm 0x8b000000 XReg)"
| "int_op_form A_Sub = Some (ThreeRegForm 0xcb000000 XReg)"
| "int_op_form A_Mul = Some (ThreeRegForm 0x9b007c00 XReg)"
| "int_op_form A_Umulh = Some (ThreeRegForm 0x9bc07c00 XReg)"
| "int_op_form A_Sdiv = Some (ThreeRegForm 0x9ac00c00 XReg)"
| "int_op_form A_Udiv = Some (ThreeRegForm 0x9ac00800 XReg)"
| "int_op_form A_And = Some (ThreeRegForm 0x8a000000 XReg)"
| "int_op_form A_Or = Some (ThreeRegForm 0xaa000000 XReg)"
| "int_op_form A_Xor = Some (ThreeRegForm 0xca000000 XReg)"
| "int_op_form A_Shl = Some (ThreeRegForm 0x9ac02000 XReg)"
| "int_op_form A_Lsr = Some (ThreeRegForm 0x9ac02400 XReg)"
| "int_op_form A_Asr = Some (ThreeRegForm 0x9ac02800 XReg)"

primrec fp_op_form :: "a64_fp_op \<Rightarrow> form option" where
  "fp_op_form A_FaddD = Some (ThreeRegForm 0x1e602800 FReg)"
| "fp_op_form A_FaddS = Some (ThreeRegForm 0x1e202800 FReg)"
| "fp_op_form A_FsubD = Some (ThreeRegForm 0x1e603800 FReg)"
| "fp_op_form A_FsubS = Some (ThreeRegForm 0x1e203800 FReg)"
| "fp_op_form A_FmulD = Some (ThreeRegForm 0x1e600800 FReg)"
| "fp_op_form A_FmulS = Some (ThreeRegForm 0x1e200800 FReg)"
| "fp_op_form A_FdivD = Some (ThreeRegForm 0x1e601800 FReg)"
| "fp_op_form A_FdivS = Some (ThreeRegForm 0x1e201800 FReg)"
| "fp_op_form A_FnegD = Some (TwoRegForm 0x1e614000 FReg FReg)"
| "fp_op_form A_FnegS = Some (TwoRegForm 0x1e214000 FReg FReg)"
| "fp_op_form A_FabsD = Some (TwoRegForm 0x1e60c000 FReg FReg)"
| "fp_op_form A_FabsS = Some (TwoRegForm 0x1e20c000 FReg FReg)"
| "fp_op_form A_FsqrtD = Some (TwoRegForm 0x1e61c000 FReg FReg)"
| "fp_op_form A_FsqrtS = Some (TwoRegForm 0x1e21c000 FReg FReg)"
| "fp_op_form A_FrintmD = Some (TwoRegForm 0x1e654000 FReg FReg)"
| "fp_op_form A_FrintmS = Some (TwoRegForm 0x1e254000 FReg FReg)"
| "fp_op_form A_FrintpD = Some (TwoRegForm 0x1e64c000 FReg FReg)"
| "fp_op_form A_FrintpS = Some (TwoRegForm 0x1e24c000 FReg FReg)"
| "fp_op_form A_FrintzD = Some (TwoRegForm 0x1e65c000 FReg FReg)"
| "fp_op_form A_FrintzS = Some (TwoRegForm 0x1e25c000 FReg FReg)"
| "fp_op_form A_FrintaD = Some (TwoRegForm 0x1e664000 FReg FReg)"
| "fp_op_form A_FrintaS = Some (TwoRegForm 0x1e264000 FReg FReg)"
| "fp_op_form A_FrintnD = Some (TwoRegForm 0x1e644000 FReg FReg)"
| "fp_op_form A_FrintnS = Some (TwoRegForm 0x1e244000 FReg FReg)"
| "fp_op_form A_FminnmD = Some (ThreeRegForm 0x1e607800 FReg)"
| "fp_op_form A_FminnmS = Some (ThreeRegForm 0x1e207800 FReg)"
| "fp_op_form A_FmaxnmD = Some (ThreeRegForm 0x1e606800 FReg)"
| "fp_op_form A_FmaxnmS = Some (ThreeRegForm 0x1e206800 FReg)"
| "fp_op_form A_FminD = Some (ThreeRegForm 0x1e605800 FReg)"
| "fp_op_form A_FminS = Some (ThreeRegForm 0x1e205800 FReg)"
| "fp_op_form A_FmaxD = Some (ThreeRegForm 0x1e604800 FReg)"
| "fp_op_form A_FmaxS = Some (ThreeRegForm 0x1e204800 FReg)"
| "fp_op_form A_FcmpD = Some (FcmpForm 0x1e602000)"
| "fp_op_form A_FcmpS = Some (FcmpForm 0x1e202000)"

primrec fp_move_op_form :: "a64_fp_move_op \<Rightarrow> form option" where
  "fp_move_op_form A_FcvtDS = Some (TwoRegForm 0x1e22c000 FReg FReg)"
| "fp_move_op_form A_FcvtSD = Some (TwoRegForm 0x1e624000 FReg FReg)"
| "fp_move_op_form A_ScvtfDX = Some (TwoRegForm 0x9e620000 FReg XReg)"
| "fp_move_op_form A_ScvtfSX = Some (TwoRegForm 0x9e220000 FReg XReg)"
| "fp_move_op_form A_UcvtfDX = Some (TwoRegForm 0x9e630000 FReg XReg)"
| "fp_move_op_form A_UcvtfSX = Some (TwoRegForm 0x9e230000 FReg XReg)"
| "fp_move_op_form A_FcvtzsXD = Some (TwoRegForm 0x9e780000 XReg FReg)"
| "fp_move_op_form A_FcvtzsWD = Some (TwoRegForm 0x1e780000 XReg FReg)"
| "fp_move_op_form A_FcvtzsXS = Some (TwoRegForm 0x9e380000 XReg FReg)"
| "fp_move_op_form A_FcvtzsWS = Some (TwoRegForm 0x1e380000 XReg FReg)"
| "fp_move_op_form A_FcvtzuXD = Some (TwoRegForm 0x9e790000 XReg FReg)"
| "fp_move_op_form A_FcvtzuWD = Some (TwoRegForm 0x1e790000 XReg FReg)"
| "fp_move_op_form A_FcvtzuXS = Some (TwoRegForm 0x9e390000 XReg FReg)"
| "fp_move_op_form A_FcvtzuWS = Some (TwoRegForm 0x1e390000 XReg FReg)"
| "fp_move_op_form A_FmovXD = Some (TwoRegForm 0x9e660000 XReg FReg)"
| "fp_move_op_form A_FmovDX = Some (TwoRegForm 0x9e670000 FReg XReg)"
| "fp_move_op_form A_FmovWS = Some (TwoRegForm 0x1e260000 XReg FReg)"
| "fp_move_op_form A_FmovSW = Some (TwoRegForm 0x1e270000 FReg XReg)"
| "fp_move_op_form A_FmovD = Some (FmovRRForm 0x1e604000)"
| "fp_move_op_form A_FmovS = Some (FmovRRForm 0x1e204000)"
| "fp_move_op_form A_FmovImmD = Some (FmovImmForm 0x1e601000)"
| "fp_move_op_form A_FmovImmS = Some (FmovImmForm 0x1e201000)"

primrec vec_op_form :: "a64_vec_op \<Rightarrow> form option" where
  "vec_op_form A_AddV4s = Some (ThreeRegForm 0x4ea08400 QReg)"
| "vec_op_form A_SubV4s = Some (ThreeRegForm 0x6ea08400 QReg)"
| "vec_op_form A_MulV4s = Some (ThreeRegForm 0x4ea09c00 QReg)"
| "vec_op_form A_AddV2d = Some (ThreeRegForm 0x4ee08400 QReg)"
| "vec_op_form A_SubV2d = Some (ThreeRegForm 0x6ee08400 QReg)"
| "vec_op_form A_FaddV4s = Some (ThreeRegForm 0x4e20d400 QReg)"
| "vec_op_form A_FsubV4s = Some (ThreeRegForm 0x4ea0d400 QReg)"
| "vec_op_form A_FmulV4s = Some (ThreeRegForm 0x6e20dc00 QReg)"
| "vec_op_form A_FdivV4s = Some (ThreeRegForm 0x6e20fc00 QReg)"
| "vec_op_form A_FaddV2d = Some (ThreeRegForm 0x4e60d400 QReg)"
| "vec_op_form A_FsubV2d = Some (ThreeRegForm 0x4ee0d400 QReg)"
| "vec_op_form A_FmulV2d = Some (ThreeRegForm 0x6e60dc00 QReg)"
| "vec_op_form A_FdivV2d = Some (ThreeRegForm 0x6e60fc00 QReg)"
| "vec_op_form A_AndV16b = Some (ThreeRegForm 0x4e201c00 QReg)"
| "vec_op_form A_OrrV16b = Some (ThreeRegForm 0x4ea01c00 QReg)"
| "vec_op_form A_EorV16b = Some (ThreeRegForm 0x6e201c00 QReg)"
| "vec_op_form A_ShlV4sImm = Some (VShiftForm 0x4f005400 32 False)"
| "vec_op_form A_UshrV4sImm = Some (VShiftForm 0x6f000400 32 True)"
| "vec_op_form A_SshrV4sImm = Some (VShiftForm 0x4f000400 32 True)"
| "vec_op_form A_ShlV2dImm = Some (VShiftForm 0x4f005400 64 False)"
| "vec_op_form A_UshrV2dImm = Some (VShiftForm 0x6f000400 64 True)"
| "vec_op_form A_SshrV2dImm = Some (VShiftForm 0x4f000400 64 True)"
| "vec_op_form A_MovV16b = Some (MovVecForm)"
| "vec_op_form A_DupV4sGpr = Some (TwoRegForm 0x4e040c00 QReg XReg)"
| "vec_op_form A_DupV2dGpr = Some (TwoRegForm 0x4e080c00 QReg XReg)"
| "vec_op_form A_DupV4sFpr = Some (TwoRegForm 0x4e040400 QReg FReg)"
| "vec_op_form A_DupV2dFpr = Some (TwoRegForm 0x4e080400 QReg FReg)"
| "vec_op_form A_AddvS4s = Some (TwoRegForm 0x4eb1b800 FReg QReg)"
| "vec_op_form A_AddpD2d = Some (TwoRegForm 0x5ef1b800 FReg QReg)"
| "vec_op_form A_FaddpV4s = Some (ThreeRegForm 0x6e20d400 QReg)"
| "vec_op_form A_FaddpS2s = Some (TwoRegForm 0x7e30d800 FReg QReg)"
| "vec_op_form A_FaddpD2d = Some (TwoRegForm 0x7e70d800 FReg QReg)"

primrec fp_mem_op_form :: "a64_fp_mem_op \<Rightarrow> form option" where
  "fp_mem_op_form A_StrqSpOffset = Some (MemForm 0x3d800000 16 True QReg)"
| "fp_mem_op_form A_LdrqSpOffset = Some (MemForm 0x3dc00000 16 True QReg)"
| "fp_mem_op_form A_StrqRegOffset = Some (MemForm 0x3d800000 16 False QReg)"
| "fp_mem_op_form A_LdrqRegOffset = Some (MemForm 0x3dc00000 16 False QReg)"
| "fp_mem_op_form A_StrdSpOffset = Some (MemForm 0xfd000000 8 True FReg)"
| "fp_mem_op_form A_LdrdSpOffset = Some (MemForm 0xfd400000 8 True FReg)"
| "fp_mem_op_form A_StrsSpOffset = Some (MemForm 0xbd000000 4 True FReg)"
| "fp_mem_op_form A_LdrsSpOffset = Some (MemForm 0xbd400000 4 True FReg)"
| "fp_mem_op_form A_StrdRegOffset = Some (MemForm 0xfd000000 8 False FReg)"
| "fp_mem_op_form A_LdrdRegOffset = Some (MemForm 0xfd400000 8 False FReg)"
| "fp_mem_op_form A_StrsRegOffset = Some (MemForm 0xbd000000 4 False FReg)"
| "fp_mem_op_form A_LdrsRegOffset = Some (MemForm 0xbd400000 4 False FReg)"

primrec mem_op_form :: "a64_mem_op \<Rightarrow> form option" where
  "mem_op_form A_Cmp = Some (CmpForm)"
| "mem_op_form A_StrPreSp = Some (StrPreForm)"
| "mem_op_form A_LdrPostSp = Some (LdrPostForm)"
| "mem_op_form A_SubSpImm = Some (SpImmForm 0xd10003ff)"
| "mem_op_form A_AddSpImm = Some (SpImmForm 0x910003ff)"
| "mem_op_form A_AddSpOffset = Some (AddSpOffsetForm)"
| "mem_op_form A_StrSpOffset = Some (MemForm 0xf9000000 8 True XReg)"
| "mem_op_form A_LdrSpOffset = Some (MemForm 0xf9400000 8 True XReg)"
| "mem_op_form A_StrwSpOffset = Some (MemForm 0xb9000000 4 True XReg)"
| "mem_op_form A_LdrwSpOffset = Some (MemForm 0xb9400000 4 True XReg)"
| "mem_op_form A_StrhSpOffset = Some (MemForm 0x79000000 2 True XReg)"
| "mem_op_form A_LdrhSpOffset = Some (MemForm 0x79400000 2 True XReg)"
| "mem_op_form A_StrbSpOffset = Some (MemForm 0x39000000 1 True XReg)"
| "mem_op_form A_LdrbSpOffset = Some (MemForm 0x39400000 1 True XReg)"
| "mem_op_form A_LdrStackArg = Some (SpOffsetForm 0xf94003e0)"
| "mem_op_form A_StrRegOffset = Some (MemForm 0xf9000000 8 False XReg)"
| "mem_op_form A_LdrRegOffset = Some (MemForm 0xf9400000 8 False XReg)"
| "mem_op_form A_StrwRegOffset = Some (MemForm 0xb9000000 4 False XReg)"
| "mem_op_form A_LdrwRegOffset = Some (MemForm 0xb9400000 4 False XReg)"
| "mem_op_form A_StrhRegOffset = Some (MemForm 0x79000000 2 False XReg)"
| "mem_op_form A_LdrhRegOffset = Some (MemForm 0x79400000 2 False XReg)"
| "mem_op_form A_StrbRegOffset = Some (MemForm 0x39000000 1 False XReg)"
| "mem_op_form A_LdrbRegOffset = Some (MemForm 0x39400000 1 False XReg)"

primrec ctl_op_form :: "a64_ctl_op \<Rightarrow> form option" where
  "ctl_op_form A_AdrLiteral = None"
| "ctl_op_form A_Svc = Some (SvcForm)"
| "ctl_op_form A_Cset = Some (CsetForm)"
| "ctl_op_form A_Ret = Some (FixedForm 0xd65f03c0)"
| "ctl_op_form A_Brk = Some (FixedForm 0xd4200000)"
| "ctl_op_form A_Call = None"
| "ctl_op_form A_B = None"
| "ctl_op_form A_BCond = None"
| "ctl_op_form A_Cbnz = None"
| "ctl_op_form A_AdrFunction = None"
| "ctl_op_form A_Blr = Some (BlrForm)"
| "ctl_op_form A_Adrp = None"
| "ctl_op_form A_AddLo12 = None"
| "ctl_op_form A_MrsTpidr = Some (MrsForm)"
| "ctl_op_form A_AddTprelHi12 = None"
| "ctl_op_form A_AddTprelLo12Nc = None"

text \<open>The dispatch of \<open>encode_fixed_inst\<close>; \<open>None\<close> for an opcode it does not handle.\<close>

primrec fixed_form :: "a64_opcode \<Rightarrow> form option" where
  "fixed_form (IntOp x) = int_op_form x"
| "fixed_form (FpOp x) = fp_op_form x"
| "fixed_form (FpMoveOp x) = fp_move_op_form x"
| "fixed_form (VecOp x) = vec_op_form x"
| "fixed_form (FpMemOp x) = fp_mem_op_form x"
| "fixed_form (MemOp x) = mem_op_form x"
| "fixed_form (CtlOp x) = ctl_op_form x"

definition encode_fixed_inst :: "a64_opcode \<Rightarrow> a64_inst \<Rightarrow> u32 option option" where
  "encode_fixed_inst opcode i = (case fixed_form opcode of None \<Rightarrow> Some None | Some f \<Rightarrow> encode_form f i)"

subsection \<open>Fields of assembled words\<close>

text \<open>The \<open>len\<close> bits of a word from bit \<open>k\<close> on.\<close>

definition bits_at :: "nat \<Rightarrow> nat \<Rightarrow> u32 \<Rightarrow> u32" where
  "bits_at k len w = take_bit len (drop_bit k w)"

lemma bit_bits_at [bit_simps]: "bit (bits_at k len w) n \<longleftrightarrow> n < len \<and> bit w (k + n)"
  by (auto simp: bits_at_def bit_simps)

lemma bits_at_or [word_field]: "bits_at k len (a OR b) = bits_at k len a OR bits_at k len b"
  by (rule bit_word_eqI) (auto simp: bit_simps)

lemma bits_at_push_same [word_field]:
  assumes m: "take_bit len m = m" and k: "k + len \<le> 32"
  shows "bits_at k len (push_bit k m) = m"
proof (rule bit_word_eqI)
  fix n
  have "bit m n \<longleftrightarrow> n < len \<and> bit m n" using m by (metis bit_take_bit_iff)
  then show "bit (bits_at k len (push_bit k m)) n \<longleftrightarrow> bit m n"
    using k by (auto simp: bit_simps)
qed

lemma bits_at_push_below [word_field]:
  "take_bit len m = m \<Longrightarrow> j + len \<le> k \<Longrightarrow> bits_at k l (push_bit j m) = 0"
proof (rule bit_word_eqI)
  fix n
  assume m: "take_bit len m = m" and k: "j + len \<le> k"
  have "\<not> bit m (k + n - j)"
    using m k by (metis bit_take_bit_iff diff_add_inverse diff_le_mono le_add1 le_trans not_le)
  then show "bit (bits_at k l (push_bit j m)) n \<longleftrightarrow> bit (0 :: u32) n"
    by (simp add: bit_simps)
qed

lemma bits_at_push_above [word_field]: "k + l \<le> j \<Longrightarrow> bits_at k l (push_bit j m) = 0"
  by (rule bit_word_eqI) (auto simp: bit_simps)

lemma bits_at_low [word_field]: "take_bit len m = m \<Longrightarrow> bits_at 0 len m = m"
  by (simp add: bits_at_def)

lemma bits_at_low_above [word_field]: "take_bit len m = m \<Longrightarrow> len \<le> k \<Longrightarrow> bits_at k l m = 0"
  using bits_at_push_below [of len m 0 k l] by simp

lemma bits_at_zero [word_field]: "bits_at k l 0 = 0"
  by (simp add: bits_at_def)

text \<open>A register number is five bits wide.\<close>

definition numbered :: "a64_inst \<Rightarrow> bool" where
  "numbered i \<longleftrightarrow> (\<forall>key r. operand key i = Some r \<longrightarrow> register_ok r)"

lemma take_bit_small: "n < 2 ^ len \<Longrightarrow> take_bit len (of_nat n :: u32) = of_nat n"
  by (simp add: take_bit_of_nat take_bit_nat_eq_self)

lemma file_number_5: "register_ok r \<Longrightarrow> file_number fl r = Some n \<Longrightarrow> take_bit 5 n = n"
proof (cases r)
  case (Physical p)
  moreover assume "register_ok r" "file_number fl r = Some n"
  ultimately show ?thesis by (cases fl; cases p) (auto intro!: take_bit_small)
qed (cases fl; simp)

lemma num_5: "numbered i \<Longrightarrow> num fl key i = Some n \<Longrightarrow> take_bit 5 n = n"
  unfolding num_def numbered_def Option.bind_eq_Some_conv by (blast intro: file_number_5)


subsection \<open>A disassembler for the register forms\<close>

text \<open>
  The three- and two-register instructions by the base word the architecture
  gives them.  The operand fields are \<open>Rd\<close> (bits 0 to 4), \<open>Rn\<close> (5 to 9) and, for
  three registers, \<open>Rm\<close> (16 to 20); the opcode is everything else.
\<close>

definition three_reg_table :: "(u32 \<times> a64_opcode) list" where
  "three_reg_table = [
    (0x8b000000, IntOp A_Add),
    (0xcb000000, IntOp A_Sub),
    (0x9b007c00, IntOp A_Mul),
    (0x9bc07c00, IntOp A_Umulh),
    (0x9ac00c00, IntOp A_Sdiv),
    (0x9ac00800, IntOp A_Udiv),
    (0x8a000000, IntOp A_And),
    (0xaa000000, IntOp A_Or),
    (0xca000000, IntOp A_Xor),
    (0x9ac02000, IntOp A_Shl),
    (0x9ac02400, IntOp A_Lsr),
    (0x9ac02800, IntOp A_Asr),
    (0x1e602800, FpOp A_FaddD),
    (0x1e202800, FpOp A_FaddS),
    (0x1e603800, FpOp A_FsubD),
    (0x1e203800, FpOp A_FsubS),
    (0x1e600800, FpOp A_FmulD),
    (0x1e200800, FpOp A_FmulS),
    (0x1e601800, FpOp A_FdivD),
    (0x1e201800, FpOp A_FdivS),
    (0x1e607800, FpOp A_FminnmD),
    (0x1e207800, FpOp A_FminnmS),
    (0x1e606800, FpOp A_FmaxnmD),
    (0x1e206800, FpOp A_FmaxnmS),
    (0x1e605800, FpOp A_FminD),
    (0x1e205800, FpOp A_FminS),
    (0x1e604800, FpOp A_FmaxD),
    (0x1e204800, FpOp A_FmaxS),
    (0x4ea08400, VecOp A_AddV4s),
    (0x6ea08400, VecOp A_SubV4s),
    (0x4ea09c00, VecOp A_MulV4s),
    (0x4ee08400, VecOp A_AddV2d),
    (0x6ee08400, VecOp A_SubV2d),
    (0x4e20d400, VecOp A_FaddV4s),
    (0x4ea0d400, VecOp A_FsubV4s),
    (0x6e20dc00, VecOp A_FmulV4s),
    (0x6e20fc00, VecOp A_FdivV4s),
    (0x4e60d400, VecOp A_FaddV2d),
    (0x4ee0d400, VecOp A_FsubV2d),
    (0x6e60dc00, VecOp A_FmulV2d),
    (0x6e60fc00, VecOp A_FdivV2d),
    (0x4e201c00, VecOp A_AndV16b),
    (0x4ea01c00, VecOp A_OrrV16b),
    (0x6e201c00, VecOp A_EorV16b),
    (0x6e20d400, VecOp A_FaddpV4s)]"

definition two_reg_table :: "(u32 \<times> a64_opcode) list" where
  "two_reg_table = [
    (0x1e614000, FpOp A_FnegD),
    (0x1e214000, FpOp A_FnegS),
    (0x1e60c000, FpOp A_FabsD),
    (0x1e20c000, FpOp A_FabsS),
    (0x1e61c000, FpOp A_FsqrtD),
    (0x1e21c000, FpOp A_FsqrtS),
    (0x1e654000, FpOp A_FrintmD),
    (0x1e254000, FpOp A_FrintmS),
    (0x1e64c000, FpOp A_FrintpD),
    (0x1e24c000, FpOp A_FrintpS),
    (0x1e65c000, FpOp A_FrintzD),
    (0x1e25c000, FpOp A_FrintzS),
    (0x1e664000, FpOp A_FrintaD),
    (0x1e264000, FpOp A_FrintaS),
    (0x1e644000, FpOp A_FrintnD),
    (0x1e244000, FpOp A_FrintnS),
    (0x1e22c000, FpMoveOp A_FcvtDS),
    (0x1e624000, FpMoveOp A_FcvtSD),
    (0x9e620000, FpMoveOp A_ScvtfDX),
    (0x9e220000, FpMoveOp A_ScvtfSX),
    (0x9e630000, FpMoveOp A_UcvtfDX),
    (0x9e230000, FpMoveOp A_UcvtfSX),
    (0x9e780000, FpMoveOp A_FcvtzsXD),
    (0x1e780000, FpMoveOp A_FcvtzsWD),
    (0x9e380000, FpMoveOp A_FcvtzsXS),
    (0x1e380000, FpMoveOp A_FcvtzsWS),
    (0x9e790000, FpMoveOp A_FcvtzuXD),
    (0x1e790000, FpMoveOp A_FcvtzuWD),
    (0x9e390000, FpMoveOp A_FcvtzuXS),
    (0x1e390000, FpMoveOp A_FcvtzuWS),
    (0x9e660000, FpMoveOp A_FmovXD),
    (0x9e670000, FpMoveOp A_FmovDX),
    (0x1e260000, FpMoveOp A_FmovWS),
    (0x1e270000, FpMoveOp A_FmovSW),
    (0x4e040c00, VecOp A_DupV4sGpr),
    (0x4e080c00, VecOp A_DupV2dGpr),
    (0x4e040400, VecOp A_DupV4sFpr),
    (0x4e080400, VecOp A_DupV2dFpr),
    (0x4eb1b800, VecOp A_AddvS4s),
    (0x5ef1b800, VecOp A_AddpD2d),
    (0x7e30d800, VecOp A_FaddpS2s),
    (0x7e70d800, VecOp A_FaddpD2d)]"

definition opcode_bits3 :: "u32 \<Rightarrow> u32" where
  "opcode_bits3 w = push_bit 10 (bits_at 10 6 w) OR push_bit 21 (bits_at 21 11 w)"

definition opcode_bits2 :: "u32 \<Rightarrow> u32" where
  "opcode_bits2 w = push_bit 10 (bits_at 10 22 w)"

text \<open>Opcode, \<open>Rd\<close>, \<open>Rn\<close> and, for a three-register instruction, \<open>Rm\<close>.\<close>

definition disassemble :: "u32 \<Rightarrow> (a64_opcode \<times> u32 \<times> u32 \<times> u32 option) option" where
  "disassemble w =
     (case map_of three_reg_table (opcode_bits3 w) of
        Some op \<Rightarrow> Some (op, bits_at 0 5 w, bits_at 5 5 w, Some (bits_at 16 5 w))
      | None \<Rightarrow>
          (case map_of two_reg_table (opcode_bits2 w) of
             Some op \<Rightarrow> Some (op, bits_at 0 5 w, bits_at 5 5 w, None)
           | None \<Rightarrow> None))"

text \<open>A base word leaves its operand fields clear.\<close>

definition base3_ok :: "u32 \<Rightarrow> bool" where
  "base3_ok b \<longleftrightarrow> bits_at 0 5 b = 0 \<and> bits_at 5 5 b = 0 \<and> bits_at 16 5 b = 0 \<and> opcode_bits3 b = b"

definition base2_ok :: "u32 \<Rightarrow> bool" where
  "base2_ok b \<longleftrightarrow> bits_at 0 5 b = 0 \<and> bits_at 5 5 b = 0 \<and> opcode_bits2 b = b"

lemma three_fields:
  assumes "base3_ok b" "take_bit 5 m = m" "take_bit 5 n = n" "take_bit 5 d = d"
  defines "w \<equiv> b OR push_bit 16 m OR push_bit 5 n OR d"
  shows "bits_at 0 5 w = d" "bits_at 5 5 w = n" "bits_at 16 5 w = m" "opcode_bits3 w = b"
  using assms by (simp_all add: base3_ok_def opcode_bits3_def word_field)

lemma two_fields:
  assumes "base2_ok b" "take_bit 5 n = n" "take_bit 5 d = d"
  defines "w \<equiv> b OR push_bit 5 n OR d"
  shows "bits_at 0 5 w = d" "bits_at 5 5 w = n" "opcode_bits2 w = b"
  using assms by (simp_all add: base2_ok_def opcode_bits2_def word_field)

text \<open>Bits 16 to 20 of a two-register word are opcode bits.\<close>

lemma two_opcode3:
  assumes "base2_ok b" "take_bit 5 n = n" "take_bit 5 d = d"
  shows "opcode_bits3 (b OR push_bit 5 n OR d) = opcode_bits3 b"
  using assms by (simp add: opcode_bits3_def word_field)

lemma three_reg_entry:
  "fixed_form op = Some (ThreeRegForm b fl) \<Longrightarrow> base3_ok b \<and> map_of three_reg_table b = Some op"
  by (cases op; rename_tac x; case_tac x)
    (simp_all add: three_reg_table_def base3_ok_def opcode_bits3_def bits_at_def)

lemma two_reg_entry:
  "fixed_form op = Some (TwoRegForm b fd fn) \<Longrightarrow>
    base2_ok b \<and> map_of two_reg_table b = Some op \<and> map_of three_reg_table (opcode_bits3 b) = None"
  by (cases op; rename_tac x; case_tac x)
    (simp_all add: two_reg_table_def three_reg_table_def base2_ok_def opcode_bits2_def opcode_bits3_def bits_at_def)

lemma encode_three_Some:
  "encode_three fl i b = Some (Some w) \<longleftrightarrow>
    (\<exists>m n d. num fl Rm i = Some m \<and> num fl Rn i = Some n \<and> num fl Rd i = Some d \<and>
      w = b OR push_bit 16 m OR push_bit 5 n OR d)"
  by (auto simp: encode_three_def Option.bind_eq_Some_conv)

lemma encode_two_reg_Some:
  "encode_two_reg i b fd fn = Some (Some w) \<longleftrightarrow>
    (\<exists>n d. num fn Rn i = Some n \<and> num fd Rd i = Some d \<and> w = b OR push_bit 5 n OR d)"
  by (auto simp: encode_two_reg_def Option.bind_eq_Some_conv)

text \<open>The operands of an instruction as the disassembler reports them.\<close>

definition operand_numbers :: "form \<Rightarrow> a64_inst \<Rightarrow> (u32 \<times> u32 \<times> u32 option) option" where
  "operand_numbers f i = (case f of
     ThreeRegForm b fl \<Rightarrow> do { d \<leftarrow> num fl Rd i; n \<leftarrow> num fl Rn i; m \<leftarrow> num fl Rm i; Some (d, n, Some m) }
   | TwoRegForm b fd fn \<Rightarrow> do { d \<leftarrow> num fd Rd i; n \<leftarrow> num fn Rn i; Some (d, n, None) }
   | _ \<Rightarrow> None)"

definition register_form :: "form \<Rightarrow> bool" where
  "register_form f \<longleftrightarrow> (case f of ThreeRegForm b fl \<Rightarrow> True | TwoRegForm b fd fn \<Rightarrow> True | _ \<Rightarrow> False)"

text \<open>
  (C33) The register-form encodings are decodable: the word of each of the 87
  three- and two-register instructions disassembles to that very opcode and to
  the hardware numbers of its operands, so no two of them share a word.
\<close>

theorem register_form_disassembles:
  assumes "fixed_form opcode = Some f" "register_form f" "numbered i"
    and "encode_fixed_inst opcode i = Some (Some w)"
  shows "\<exists>nums. operand_numbers f i = Some nums \<and> disassemble w = Some (opcode, nums)"
  using assms(2)
proof (cases f)
  case (ThreeRegForm b fl)
  note e = three_reg_entry [OF assms(1) [unfolded ThreeRegForm]]
  obtain m n d where nums: "num fl Rm i = Some m" "num fl Rn i = Some n" "num fl Rd i = Some d"
    and w: "w = b OR push_bit 16 m OR push_bit 5 n OR d"
    using assms(1,4) ThreeRegForm by (auto simp: encode_fixed_inst_def encode_three_Some)
  note five = num_5 [OF assms(3) nums(1)] num_5 [OF assms(3) nums(2)] num_5 [OF assms(3) nums(3)]
  show ?thesis using three_fields [OF conjunct1 [OF e] five] e nums
    by (simp add: ThreeRegForm operand_numbers_def disassemble_def w)
next
  case (TwoRegForm b fd fn)
  note e = two_reg_entry [OF assms(1) [unfolded TwoRegForm]]
  obtain n d where nums: "num fn Rn i = Some n" "num fd Rd i = Some d"
    and w: "w = b OR push_bit 5 n OR d"
    using assms(1,4) TwoRegForm by (auto simp: encode_fixed_inst_def encode_two_reg_Some)
  note five = num_5 [OF assms(3) nums(1)] num_5 [OF assms(3) nums(2)]
  show ?thesis using two_fields [OF conjunct1 [OF e] five] two_opcode3 [OF conjunct1 [OF e] five] e nums
    by (simp add: TwoRegForm operand_numbers_def disassemble_def w)
qed (simp_all add: register_form_def)

definition no_operands :: a64_inst where
  "no_operands = \<lparr>rd = None, rn = None, rm = None, imm = None, shift = None, cond = None, callee = None,
     literal_label = None, target = None, not_taken = None\<rparr>"

theorem register_form_disassembles_witness:
  "encode_fixed_inst (IntOp A_Lsr) (no_operands\<lparr>rd := Some (gpr 9), rn := Some (gpr 10), rm := Some (gpr 12)\<rparr>)
     = Some (Some 0x9acc2549) \<and>
   disassemble 0x9acc2549 = Some (IntOp A_Lsr, 9, 10, Some 12)"
proof -
  let ?i = "no_operands\<lparr>rd := Some (gpr 9), rn := Some (gpr 10), rm := Some (gpr 12)\<rparr>"
  have f: "fixed_form (IntOp A_Lsr) = Some (ThreeRegForm 0x9ac02400 XReg)" by simp
  have e: "encode_fixed_inst (IntOp A_Lsr) ?i = Some (Some 0x9acc2549)"
    by (simp add: encode_fixed_inst_def encode_three_def num_def gpr_def no_operands_def)
  have "operand_numbers (ThreeRegForm 0x9ac02400 XReg) ?i = Some (9, 10, Some 12)"
    by (simp add: operand_numbers_def num_def gpr_def no_operands_def)
  moreover have ok: "numbered ?i"
    unfolding numbered_def
  proof (intro allI impI)
    fix key r assume "operand key ?i = Some r"
    then show "register_ok r" by (cases key) (auto simp: gpr_def no_operands_def)
  qed
  ultimately show ?thesis using register_form_disassembles [OF f _ ok e] e by (simp add: register_form_def)
qed

subsection \<open>The operand table covers the encoder\<close>

text \<open>The operands a form reads, with the register file it reads each from.\<close>

fun form_reads :: "form \<Rightarrow> (operand_key \<times> reg_file) list" where
  "form_reads MovImmForm = [(Rd, XReg)]"
| "form_reads (WideMoveForm b) = [(Rd, XReg)]"
| "form_reads MovForm = [(Rm, XReg), (Rd, XReg)]"
| "form_reads (ThreeRegForm b fl) = [(Rm, fl), (Rn, fl), (Rd, fl)]"
| "form_reads (TwoRegForm b fd fn) = [(Rn, fn), (Rd, fd)]"
| "form_reads (FcmpForm b) = [(Rm, FReg), (Rn, FReg)]"
| "form_reads (FmovRRForm b) = [(Rm, FReg), (Rd, FReg)]"
| "form_reads (FmovImmForm b) = [(Rd, FReg)]"
| "form_reads (VShiftForm b l r) = [(Rn, QReg), (Rd, QReg)]"
| "form_reads MovVecForm = [(Rm, QReg), (Rd, QReg)]"
| "form_reads (MemForm b s fixed_sp fl) = (if fixed_sp then [] else [(Rn, XReg)]) @ [(Rd, fl)]"
| "form_reads CmpForm = [(Rm, XReg), (Rn, XReg)]"
| "form_reads StrPreForm = [(Rd, XReg)]"
| "form_reads LdrPostForm = [(Rd, XReg)]"
| "form_reads (SpImmForm b) = []"
| "form_reads AddSpOffsetForm = [(Rd, XReg)]"
| "form_reads (SpOffsetForm b) = [(Rd, XReg)]"
| "form_reads SvcForm = []"
| "form_reads MrsForm = [(Rd, XReg)]"
| "form_reads BlrForm = [(Rn, XReg)]"
| "form_reads CsetForm = [(Rd, XReg)]"
| "form_reads (FixedForm w) = []"

lemma encode_form_no_panic:
  assumes "\<forall>(key, fl) \<in> set (form_reads f). num fl key i \<noteq> None" and "f = MovImmForm \<Longrightarrow> imm i \<noteq> None"
  shows "encode_form f i \<noteq> None"
  using assms
  by (cases f)
    (auto simp: encode_wide_move_def encode_three_def encode_two_reg_def encode_fcmp_def encode_fmov_rr_def
      encode_fmov_imm_def encode_vshift_imm_def encode_mov_vec_def encode_mem_offset_with_def encode_cmp_def
      encode_str_pre_sp_def encode_ldr_post_sp_def encode_sp_imm_def encode_add_sp_offset_def encode_sp_offset_def
      encode_svc_def encode_cset_def encode_mov_imm_def encode_mov_def Let_def
      split: option.splits if_splits)

lemma reads_declared:
  "fixed_form opcode = Some f \<Longrightarrow> fst ` set (form_reads f) \<subseteq> fst ` set (operand_specs opcode)"
  by (cases opcode; rename_tac x; case_tac x) auto

text \<open>
  Register allocation has done its work on an instruction: every operand its
  opcode declares is present, and where the encoder reads it, it is a physical
  register of the file it is read from.
\<close>

definition allocated :: "a64_opcode \<Rightarrow> a64_inst \<Rightarrow> bool" where
  "allocated opcode i \<longleftrightarrow> (\<forall>(key, kind) \<in> set (operand_specs opcode). \<exists>r. operand key i = Some r \<and>
     (\<forall>f. fixed_form opcode = Some f \<longrightarrow> (\<forall>fl. (key, fl) \<in> set (form_reads f) \<longrightarrow> file_number fl r \<noteq> None)))"

text \<open>
  The encoder never panics on an allocated instruction: for each of the 155
  opcodes, every register the encoder reads is one the opcode's operand table
  declares, so the allocator has seen and replaced it.
\<close>

theorem encode_fixed_no_panic:
  assumes "allocated opcode i" and "opcode = IntOp A_MovImm \<longrightarrow> imm i \<noteq> None"
  shows "encode_fixed_inst opcode i \<noteq> None"
proof (cases "fixed_form opcode")
  case (Some f)
  have "num fl key i \<noteq> None" if r: "(key, fl) \<in> set (form_reads f)" for key fl
  proof -
    have "key \<in> fst ` set (operand_specs opcode)" using reads_declared [OF Some] r by force
    then obtain kind where "(key, kind) \<in> set (operand_specs opcode)" by auto
    then obtain r where "operand key i = Some r" "file_number fl r \<noteq> None"
      using assms(1) Some r by (fastforce simp: allocated_def)
    then show ?thesis by (simp add: num_def)
  qed
  moreover have "opcode = IntOp A_MovImm" if "f = MovImmForm"
    using Some that by (cases opcode; rename_tac x; case_tac x) simp_all
  ultimately show ?thesis using assms(2) Some
    by (auto simp: encode_fixed_inst_def intro!: encode_form_no_panic [simplified])
qed (simp add: encode_fixed_inst_def)

theorem encode_fixed_no_panic_witness:
  "encode_fixed_inst (IntOp A_Mov) (no_operands\<lparr>rd := Some (gpr 9), rm := Some (gpr 10)\<rparr>) \<noteq> None"
  by (rule encode_fixed_no_panic) (simp_all add: allocated_def no_operands_def gpr_def)

end
