(* ===== verification/A64_Immediates.thy ===== *)
theory A64_Immediates
  imports A64_Encode
begin

unbundle bit_operations_syntax

text \<open>
  The immediate operands of the fixed-length A64 encodings: what a processor
  reads back from the words of loads and stores, vector shifts, wide moves and
  stack-pointer adjustments.
\<close>

subsection \<open>Immediates in words\<close>

lemma take_bit_imm32: "k < 2 ^ len \<Longrightarrow> take_bit len (imm32 k) = imm32 k"
  by (simp add: imm32_def take_bit_small)

lemma unat_imm32: "k < 2 ^ 32 \<Longrightarrow> unat (imm32 k) = k"
  by (simp add: imm32_def unat_of_nat)

lemmas num_field = word_field take_bit_imm32

subsection \<open>Loads and stores\<close>

text \<open>
  The architecture's reading of a load or store (immediate): bit 24 selects the
  scaled 12-bit offset, otherwise bits 12 to 20 are a signed byte offset; the
  access size is in bits 30 and 31, except for 128-bit vector accesses.
\<close>

definition access_bytes :: "u32 \<Rightarrow> nat" where
  "access_bytes w =
     (if bits_at 26 1 w = 1 \<and> bits_at 23 1 w = 1 \<and> bits_at 30 2 w = 0 then 16 else 2 ^ unat (bits_at 30 2 w))"

definition mem_offset :: "u32 \<Rightarrow> int" where
  "mem_offset w =
     (if bits_at 24 1 w = 1 then int (unat (bits_at 10 12 w) * access_bytes w)
      else signed_of 9 (unat (bits_at 12 9 w)))"

definition mem_base_ok :: "u32 \<Rightarrow> nat \<Rightarrow> bool" where
  "mem_base_ok b scale \<longleftrightarrow>
     bits_at 0 5 b = 0 \<and> bits_at 5 5 b = 0 \<and> bits_at 10 12 b = 0 \<and> bits_at 24 1 b = 1 \<and> access_bytes b = scale \<and>
     0x01000000 \<le> b \<and>
     bits_at 0 5 (b - 0x01000000) = 0 \<and> bits_at 5 5 (b - 0x01000000) = 0 \<and>
     bits_at 12 9 (b - 0x01000000) = 0 \<and> bits_at 24 1 (b - 0x01000000) = 0 \<and>
     access_bytes (b - 0x01000000) = scale \<and>
     bits_at 22 1 (b - 0x01000000) = bits_at 22 1 b"

lemma mem_form_table:
  "case fixed_form opcode of
     Some (MemForm b scale sp fl) \<Rightarrow> mem_base_ok b scale \<and> scale \<in> {1, 2, 4, 8, 16} | _ \<Rightarrow> True"
  by (cases opcode; rename_tac x; case_tac x) (simp_all add: mem_base_ok_def access_bytes_def bits_at_def)

lemma mem_form_base:
  "fixed_form opcode = Some (MemForm b scale sp fl) \<Longrightarrow> mem_base_ok b scale \<and> scale \<in> {1, 2, 4, 8, 16}"
  using mem_form_table [of opcode] by simp

lemma access_bytes_fields:
  assumes "bits_at 26 1 w = bits_at 26 1 b" "bits_at 23 1 w = bits_at 23 1 b" "bits_at 30 2 w = bits_at 30 2 b"
  shows "access_bytes w = access_bytes b"
  using assms by (simp add: access_bytes_def)

lemma scaled_word:
  assumes b: "mem_base_ok b scale" and k: "k < 4096" and n: "take_bit 5 n = n" and d: "take_bit 5 d = d"
  defines "w \<equiv> b OR push_bit 10 (imm32 k) OR push_bit 5 n OR d"
  shows "mem_offset w = int (k * scale)" "access_bytes w = scale" "bits_at 0 5 w = d" "bits_at 5 5 w = n"
    "bits_at 22 1 w = bits_at 22 1 b"
proof -
  have i: "take_bit 12 (imm32 k) = imm32 k" using k by (intro take_bit_imm32) simp
  have a: "access_bytes w = scale"
  proof -
    have "access_bytes w = access_bytes b"
      by (rule access_bytes_fields) (use i n d in \<open>simp_all add: w_def word_field\<close>)
    then show ?thesis using b by (simp add: mem_base_ok_def)
  qed
  show "access_bytes w = scale" by (rule a)
  have "bits_at 24 1 w = 1" "bits_at 10 12 w = imm32 k"
    using b i n d by (simp_all add: w_def mem_base_ok_def word_field)
  then show "mem_offset w = int (k * scale)" using k by (simp add: mem_offset_def a unat_imm32)
  show "bits_at 0 5 w = d" "bits_at 5 5 w = n" "bits_at 22 1 w = bits_at 22 1 b"
    using b i n d by (simp_all add: w_def mem_base_ok_def word_field)
qed

lemma unscaled_word:
  assumes b: "mem_base_ok b scale" and k: "k < 256" and n: "take_bit 5 n = n" and d: "take_bit 5 d = d"
  defines "w \<equiv> (b - 0x01000000) OR push_bit 12 (imm32 k) OR push_bit 5 n OR d"
  shows "mem_offset w = int k" "access_bytes w = scale" "bits_at 0 5 w = d" "bits_at 5 5 w = n"
    "bits_at 22 1 w = bits_at 22 1 b"
proof -
  have i: "take_bit 9 (imm32 k) = imm32 k" using k by (intro take_bit_imm32) simp
  show "access_bytes w = scale"
  proof -
    have "access_bytes w = access_bytes (b - 0x01000000)"
      by (rule access_bytes_fields) (use i n d in \<open>simp_all add: w_def word_field\<close>)
    then show ?thesis using b by (simp add: mem_base_ok_def)
  qed
  have "bits_at 24 1 w = 0" "bits_at 12 9 w = imm32 k"
    using b i n d by (simp_all add: w_def mem_base_ok_def word_field)
  then show "mem_offset w = int k" using k by (simp add: mem_offset_def unat_imm32 signed_of_def)
  show "bits_at 0 5 w = d" "bits_at 5 5 w = n" "bits_at 22 1 w = bits_at 22 1 b"
    using b i n d by (simp_all add: w_def mem_base_ok_def word_field)
qed

text \<open>The offsets the encoder accepts: a multiple of the access size in range, or any byte up to 255.\<close>

definition offset_encodable :: "nat \<Rightarrow> nat \<Rightarrow> bool" where
  "offset_encodable scale bytes \<longleftrightarrow> bytes \<le> 4095 * scale \<and> bytes mod scale = 0 \<or> bytes \<le> 255"

text \<open>
  Loads and stores address what the instruction says: an allocated load or
  store with an immediate is encoded exactly if its offset is encodable, and then
  the processor reads back the same byte offset, the access size of the opcode,
  the data register, and the base register (the stack pointer's number 31 for the
  sp forms); the scaled and the unscaled form agree on the direction of the access.
\<close>

theorem mem_form_addresses:
  assumes f: "fixed_form opcode = Some (MemForm b scale sp fl)" and i: "numbered i" "imm i = Some bytes"
    and d: "num fl Rd i = Some d" and n: "(if sp then Some 31 else num XReg Rn i) = Some n"
  shows "if offset_encodable scale bytes
    then \<exists>w. encode_fixed_inst opcode i = Some (Some w) \<and> mem_offset w = int bytes \<and> access_bytes w = scale \<and>
      bits_at 0 5 w = d \<and> bits_at 5 5 w = n \<and> bits_at 22 1 w = bits_at 22 1 b
    else encode_fixed_inst opcode i = Some None"
proof -
  note base = mem_form_base [OF f]
  have n5: "take_bit 5 n = n" using n num_5 [OF i(1)] by (auto split: if_splits)
  have d5: "take_bit 5 d = d" using d num_5 [OF i(1)] by simp
  have enc: "encode_fixed_inst opcode i =
      (if bytes \<le> 4095 * scale \<and> bytes mod scale = 0
       then Some (Some (b OR push_bit 10 (imm32 (bytes div scale)) OR push_bit 5 n OR d))
       else if bytes > 255 then Some None
       else Some (Some ((b - 0x01000000) OR push_bit 12 (imm32 bytes) OR push_bit 5 n OR d)))"
    using base by (simp add: encode_fixed_inst_def f encode_mem_offset_with_def i n d unscaled_base_def mem_base_ok_def)
  have s: "0 < scale" using base by auto
  show ?thesis
  proof (cases "bytes \<le> 4095 * scale \<and> bytes mod scale = 0")
    case True
    then have "bytes div scale < 4096" using s by (simp add: less_mult_imp_div_less mult.commute)
    moreover have "int (bytes div scale) * int scale = int bytes"
      using True by (simp add: mod_0_imp_dvd flip: of_nat_mult)
    ultimately show ?thesis using scaled_word [OF conjunct1 [OF base] _ n5 d5] True
      by (simp add: enc offset_encodable_def)
  next
    case False
    then show ?thesis using unscaled_word [OF conjunct1 [OF base] _ n5 d5, of bytes]
      by (auto simp: enc offset_encodable_def)
  qed
qed

theorem mem_form_addresses_witness:
  "\<exists>w. encode_fixed_inst (MemOp A_LdrRegOffset)
      (no_operands\<lparr>rd := Some (gpr 3), rn := Some (gpr 5), imm := Some 1000\<rparr>) = Some (Some w) \<and>
    mem_offset w = 1000 \<and> access_bytes w = 8 \<and> bits_at 0 5 w = 3 \<and> bits_at 5 5 w = 5 \<and>
    bits_at 22 1 w = bits_at 22 1 0xf9400000"
proof -
  let ?i = "no_operands\<lparr>rd := Some (gpr 3), rn := Some (gpr 5), imm := Some 1000\<rparr>"
  have f: "fixed_form (MemOp A_LdrRegOffset) = Some (MemForm 0xf9400000 8 False XReg)" by simp
  have ok: "numbered ?i"
    unfolding numbered_def
  proof (intro allI impI)
    fix key r assume "operand key ?i = Some r"
    then show "register_ok r" by (cases key) (auto simp: gpr_def no_operands_def)
  qed
  have i: "imm ?i = Some 1000" and d: "num XReg Rd ?i = Some 3"
    and n: "(if False then Some 31 else num XReg Rn ?i) = Some 5"
    by (simp_all add: num_def gpr_def no_operands_def)
  show ?thesis using mem_form_addresses [OF f ok i d n] by (simp add: offset_encodable_def)
qed

subsection \<open>Vector shifts\<close>

text \<open>
  The \<open>immh:immb\<close> field (bits 16 to 22): its highest set bit gives the lane
  width, and a right shift is encoded as its distance from twice that width.
\<close>

definition vshift_lane :: "u32 \<Rightarrow> nat" where
  "vshift_lane w = (let f = unat (bits_at 16 7 w) in
     if 64 \<le> f then 64 else if 32 \<le> f then 32 else if 16 \<le> f then 16 else 8)"

definition vshift_amount :: "bool \<Rightarrow> u32 \<Rightarrow> nat" where
  "vshift_amount right w = (let f = unat (bits_at 16 7 w); l = vshift_lane w in
     if right then 2 * l - f else f - l)"

lemma vshift_form_base:
  "fixed_form opcode = Some (VShiftForm b l r) \<Longrightarrow>
    bits_at 0 5 b = 0 \<and> bits_at 5 5 b = 0 \<and> bits_at 16 7 b = 0 \<and> (l = 32 \<or> l = 64)"
  by (cases opcode; rename_tac x; case_tac x) (simp_all add: bits_at_def)

text \<open>
  Vector shifts by an immediate: an allocated shift is encoded exactly if its
  amount is in the range of its direction (left: below the lane width; right: from
  1 to the lane width), and then the processor reads back the opcode's lane width
  and the same amount.
\<close>

theorem vshift_form_amount:
  assumes f: "fixed_form opcode = Some (VShiftForm b l r)" and i: "numbered i" "imm i = Some sh"
    and d: "num QReg Rd i = Some d" and n: "num QReg Rn i = Some n"
  shows "if (if r then 1 \<le> sh \<and> sh \<le> l else sh < l)
    then \<exists>w. encode_fixed_inst opcode i = Some (Some w) \<and> vshift_lane w = l \<and> vshift_amount r w = sh \<and>
      bits_at 0 5 w = d \<and> bits_at 5 5 w = n
    else encode_fixed_inst opcode i = Some None"
proof -
  note base = vshift_form_base [OF f]
  define k where "k = (if r then 2 * l - sh else l + sh)"
  have five: "take_bit 5 n = n" "take_bit 5 d = d" using num_5 [OF i(1)] n d by auto
  have enc: "encode_fixed_inst opcode i =
      (if (if r then 1 \<le> sh \<and> sh \<le> l else sh < l)
       then Some (Some (b OR push_bit 16 (imm32 k) OR push_bit 5 n OR d)) else Some None)"
    by (auto simp: encode_fixed_inst_def f encode_vshift_imm_def i d n k_def Let_def not_less not_le)
  show ?thesis
  proof (cases "if r then 1 \<le> sh \<and> sh \<le> l else sh < l")
    case True
    then have k: "l \<le> k" "k < 2 * l" "k < 128" using base by (auto simp: k_def split: if_splits)
    define w where "w = b OR push_bit 16 (imm32 k) OR push_bit 5 n OR d"
    have t: "take_bit 7 (imm32 k) = imm32 k" using k by (intro take_bit_imm32) simp
    have "bits_at 16 7 w = imm32 k" "bits_at 0 5 w = d" "bits_at 5 5 w = n"
      using base t five by (simp_all add: w_def word_field)
    moreover have "unat (imm32 k) = k" using k by (intro unat_imm32) simp
    ultimately have "vshift_lane w = l" "vshift_amount r w = sh" "bits_at 0 5 w = d" "bits_at 5 5 w = n"
      using base k True by (auto simp: vshift_lane_def vshift_amount_def Let_def k_def split: if_splits)
    then show ?thesis using True by (cases r) (auto simp: enc w_def)
  qed (simp only: enc if_False)
qed

theorem vshift_form_amount_witness:
  "\<exists>w. encode_fixed_inst (VecOp A_UshrV4sImm)
      (no_operands\<lparr>rd := Some (simd128 1), rn := Some (simd128 2), imm := Some 32\<rparr>) = Some (Some w) \<and>
    vshift_lane w = 32 \<and> vshift_amount True w = 32"
proof -
  let ?i = "no_operands\<lparr>rd := Some (simd128 1), rn := Some (simd128 2), imm := Some 32\<rparr>"
  have f: "fixed_form (VecOp A_UshrV4sImm) = Some (VShiftForm 0x6f000400 32 True)" by simp
  have ok: "numbered ?i"
    unfolding numbered_def
  proof (intro allI impI)
    fix key r assume "operand key ?i = Some r"
    then show "register_ok r" by (cases key) (auto simp: simd128_def no_operands_def)
  qed
  have i: "imm ?i = Some 32" and d: "num QReg Rd ?i = Some 1" and n: "num QReg Rn ?i = Some 2"
    by (simp_all add: num_def simd128_def no_operands_def)
  show ?thesis using vshift_form_amount [OF f ok i d n] by auto
qed

end
