(* ===== verification/A64_Frame.thy ===== *)
theory A64_Frame
  imports A64_Rewrite A64_Immediates
begin

text \<open>
  The frame lowering, \<^verbatim>\<open>crates/pliron-ll/src/passes/aarch64/aarch64_frame_lower.rs\<close>: prologue and
  epilogues, the save area of the callee-saved registers, incoming stack arguments, and the
  stack offsets no instruction can hold.
\<close>

unbundle bit_operations_syntax

subsection \<open>Instruction builders\<close>

definition movz :: "register \<Rightarrow> nat \<Rightarrow> nat \<Rightarrow> machine_inst" where
  "movz dst v amount = (IntOp A_Movz, blank_inst\<lparr>rd := Some dst, imm := Some v, shift := Some amount\<rparr>)"

definition movk :: "register \<Rightarrow> nat \<Rightarrow> nat \<Rightarrow> machine_inst" where
  "movk dst v amount = (IntOp A_Movk, blank_inst\<lparr>rd := Some dst, imm := Some v, shift := Some amount\<rparr>)"

definition binary :: "a64_opcode \<Rightarrow> register \<Rightarrow> register \<Rightarrow> register \<Rightarrow> machine_inst" where
  "binary opcode dst l r = (opcode, blank_inst\<lparr>rd := Some dst, rn := Some l, rm := Some r\<rparr>)"

definition str_pre_sp :: "register \<Rightarrow> nat \<Rightarrow> machine_inst" where
  "str_pre_sp rt bytes = (MemOp A_StrPreSp, blank_inst\<lparr>rd := Some rt, imm := Some bytes\<rparr>)"

definition ldr_post_sp :: "register \<Rightarrow> nat \<Rightarrow> machine_inst" where
  "ldr_post_sp rt bytes = (MemOp A_LdrPostSp, blank_inst\<lparr>rd := Some rt, imm := Some bytes\<rparr>)"

definition sub_sp_imm :: "nat \<Rightarrow> machine_inst" where
  "sub_sp_imm bytes = (MemOp A_SubSpImm, blank_inst\<lparr>imm := Some bytes\<rparr>)"

definition add_sp_imm :: "nat \<Rightarrow> machine_inst" where
  "add_sp_imm bytes = (MemOp A_AddSpImm, blank_inst\<lparr>imm := Some bytes\<rparr>)"

definition add_sp_offset :: "register \<Rightarrow> nat \<Rightarrow> machine_inst" where
  "add_sp_offset dst offset = (MemOp A_AddSpOffset, blank_inst\<lparr>rd := Some dst, imm := Some offset\<rparr>)"

definition ldr_sp_offset :: "register \<Rightarrow> nat \<Rightarrow> machine_inst" where
  "ldr_sp_offset rt offset = ldr_sp_offset_sized (MemOp A_LdrSpOffset) rt offset"

definition ldr_reg_offset_sized :: "a64_opcode \<Rightarrow> register \<Rightarrow> register \<Rightarrow> nat \<Rightarrow> machine_inst" where
  "ldr_reg_offset_sized opcode rt base offset =
     (opcode, blank_inst\<lparr>rd := Some rt, rn := Some base, imm := Some offset\<rparr>)"

definition X16 :: register where
  "X16 = gpr 16"

definition X17 :: register where
  "X17 = gpr 17"

subsection \<open>The frame\<close>

text \<open>Bits 0 to 31 of the mask are \<open>x\<close> registers, bits 32 to 63 \<open>d\<close> registers, in this order.\<close>

definition saved_registers :: "nat \<Rightarrow> register list" where
  "saved_registers regs_mask =
     map gpr (filter (bit regs_mask) [0..<32]) @ map fpr64 (filter (\<lambda>n. bit regs_mask (32 + n)) [0..<32])"

definition is_lr_save :: "machine_inst \<Rightarrow> bool" where
  "is_lr_save m \<longleftrightarrow> fst m = MemOp A_StrPreSp \<and> rd (snd m) = Some LR"

definition is_lr_restore :: "machine_inst \<Rightarrow> bool" where
  "is_lr_restore m \<longleftrightarrow> fst m = MemOp A_LdrPostSp \<and> rd (snd m) = Some LR"

definition imm_or_0 :: "a64_inst \<Rightarrow> nat" where
  "imm_or_0 i = (case imm i of None \<Rightarrow> 0 | Some n \<Rightarrow> n)"

fun link_register_save_bytes :: "machine_inst list \<Rightarrow> nat" where
  "link_register_save_bytes [] = 0"
| "link_register_save_bytes (m # ms) = (if is_lr_save m then imm_or_0 (snd m) else 0)"

definition rewrite_stack_arg_load :: "nat \<Rightarrow> machine_inst \<Rightarrow> failure + machine_inst" where
  "rewrite_stack_arg_load frame_bytes m =
     (if fst m \<noteq> MemOp A_LdrStackArg then Inr m
      else case rd (snd m) of
        None \<Rightarrow> Inl Panic
      | Some r \<Rightarrow> Inr (ldr_sp_offset r (imm_or_0 (snd m) + frame_bytes)))"

text \<open>An immediate holds at most 4095.\<close>

fun stack_chunks :: "nat \<Rightarrow> nat list" where
  "stack_chunks bytes = (if bytes = 0 then [] else min bytes 4095 # stack_chunks (bytes - min bytes 4095))"

declare stack_chunks.simps [simp del]

text \<open>Register, store, load and offset of each saved register.\<close>

definition save_slots :: "register list \<Rightarrow> nat \<Rightarrow> (register \<times> a64_opcode \<times> a64_opcode \<times> nat) list" where
  "save_slots saved stack_size =
     map (\<lambda>(index, r).
       if is_fpr r then (r, FpMemOp A_StrdSpOffset, FpMemOp A_LdrdSpOffset, stack_size + index * 8)
       else (r, MemOp A_StrSpOffset, MemOp A_LdrSpOffset, stack_size + index * 8))
       (enumerate 0 saved)"

definition prologue :: "nat \<Rightarrow> nat \<Rightarrow> register list \<Rightarrow> machine_inst list" where
  "prologue frame_bytes stack_size saved =
     map sub_sp_imm (stack_chunks frame_bytes) @
     map (\<lambda>(r, store, load, offset). str_sp_offset_sized store r offset) (save_slots saved stack_size)"

text \<open>The frame is allocated behind the leading saves of the link register.\<close>

definition insert_prologue :: "nat \<Rightarrow> nat \<Rightarrow> register list \<Rightarrow> machine_inst list \<Rightarrow> machine_inst list" where
  "insert_prologue frame_bytes stack_size saved insts =
     takeWhile is_lr_save insts @ prologue frame_bytes stack_size saved @ dropWhile is_lr_save insts"

definition epilogue :: "nat \<Rightarrow> nat \<Rightarrow> register list \<Rightarrow> machine_inst list" where
  "epilogue frame_bytes stack_size saved =
     map (\<lambda>(r, store, load, offset). ldr_sp_offset_sized load r offset) (save_slots saved stack_size) @
     map add_sp_imm (rev (stack_chunks frame_bytes))"

text \<open>Where a block leaves the frame: at the restores of the link register, or at its returns if it has none.\<close>

definition is_mark :: "machine_inst list \<Rightarrow> machine_inst \<Rightarrow> bool" where
  "is_mark insts m \<longleftrightarrow> (if list_ex is_lr_restore insts then is_lr_restore m else fst m = CtlOp A_Ret)"

definition insert_block_epilogues :: "nat \<Rightarrow> nat \<Rightarrow> register list \<Rightarrow> machine_inst list \<Rightarrow> machine_inst list" where
  "insert_block_epilogues frame_bytes stack_size saved insts =
     concat (map (\<lambda>m. if is_mark insts m then epilogue frame_bytes stack_size saved @ [m] else [m]) insts)"

subsection \<open>Large offsets\<close>

definition materialize_offset_in_x16 :: "nat \<Rightarrow> machine_inst list" where
  "materialize_offset_in_x16 v =
     movz X16 (take_bit 16 v) 0 #
     concat (map (\<lambda>half.
       let bits = take_bit 16 (drop_bit (16 * half) v)
       in if bits \<noteq> 0 then [movk X16 bits (16 * half)] else []) [1..<4])"

fun sp_mem_reg_offset_form :: "a64_opcode \<Rightarrow> (a64_opcode \<times> nat) option" where
  "sp_mem_reg_offset_form (MemOp A_StrSpOffset) = Some (MemOp A_StrRegOffset, 8)"
| "sp_mem_reg_offset_form (MemOp A_LdrSpOffset) = Some (MemOp A_LdrRegOffset, 8)"
| "sp_mem_reg_offset_form (MemOp A_StrwSpOffset) = Some (MemOp A_StrwRegOffset, 4)"
| "sp_mem_reg_offset_form (MemOp A_LdrwSpOffset) = Some (MemOp A_LdrwRegOffset, 4)"
| "sp_mem_reg_offset_form (MemOp A_StrhSpOffset) = Some (MemOp A_StrhRegOffset, 2)"
| "sp_mem_reg_offset_form (MemOp A_LdrhSpOffset) = Some (MemOp A_LdrhRegOffset, 2)"
| "sp_mem_reg_offset_form (MemOp A_StrbSpOffset) = Some (MemOp A_StrbRegOffset, 1)"
| "sp_mem_reg_offset_form (MemOp A_LdrbSpOffset) = Some (MemOp A_LdrbRegOffset, 1)"
| "sp_mem_reg_offset_form (FpMemOp A_StrdSpOffset) = Some (FpMemOp A_StrdRegOffset, 8)"
| "sp_mem_reg_offset_form (FpMemOp A_LdrdSpOffset) = Some (FpMemOp A_LdrdRegOffset, 8)"
| "sp_mem_reg_offset_form (FpMemOp A_StrsSpOffset) = Some (FpMemOp A_StrsRegOffset, 4)"
| "sp_mem_reg_offset_form (FpMemOp A_LdrsSpOffset) = Some (FpMemOp A_LdrsRegOffset, 4)"
| "sp_mem_reg_offset_form (FpMemOp A_StrqSpOffset) = Some (FpMemOp A_StrqRegOffset, 16)"
| "sp_mem_reg_offset_form (FpMemOp A_LdrqSpOffset) = Some (FpMemOp A_LdrqRegOffset, 16)"
| "sp_mem_reg_offset_form opcode = None"

text \<open>
  One instruction: left alone when its offset fits, otherwise the address is computed in
  \<open>x16\<close> and the destination, or in \<open>x16\<close> and \<open>x17\<close>.
\<close>

definition legalize_inst :: "machine_inst \<Rightarrow> failure + machine_inst list" where
  "legalize_inst m =
     (if fst m = MemOp A_AddSpOffset then
        (case imm (snd m) of
           None \<Rightarrow> Inr [m]
         | Some v \<Rightarrow>
             if v \<le> 4095 then Inr [m]
             else case rd (snd m) of
               None \<Rightarrow> Inl Panic
             | Some r \<Rightarrow> Inr ([(fst m, (snd m)\<lparr>imm := Some 0\<rparr>)] @ materialize_offset_in_x16 v @
                 [binary (IntOp A_Add) r r X16]))
      else
        (case sp_mem_reg_offset_form (fst m) of
           None \<Rightarrow> Inr [m]
         | Some (reg_offset_opcode, scale) \<Rightarrow>
             (case imm (snd m) of
                None \<Rightarrow> Inr [m]
              | Some v \<Rightarrow>
                  if v \<le> 4095 * scale \<and> v mod scale = 0 \<or> v \<le> 255 then Inr [m]
                  else case rd (snd m) of
                    None \<Rightarrow> Inl Panic
                  | Some r \<Rightarrow> Inr ([add_sp_offset X17 0] @ materialize_offset_in_x16 v @
                      [binary (IntOp A_Add) X17 X17 X16, ldr_reg_offset_sized reg_offset_opcode r X17 0]))))"

definition legalize_large_sp_address_offsets :: "machine_inst list \<Rightarrow> failure + machine_inst list" where
  "legalize_large_sp_address_offsets insts = map_sum id concat (try_map legalize_inst insts)"

subsection \<open>A function\<close>

text \<open>A map over the instructions of every block.\<close>

definition try_blocks :: "(machine_inst list \<Rightarrow> failure + machine_inst list) \<Rightarrow> machine_block list \<Rightarrow>
    failure + machine_block list" where
  "try_blocks f blocks = try_map (\<lambda>b. map_sum id (\<lambda>ms. b\<lparr>mb_insts := ms\<rparr>) (f (mb_insts b))) blocks"

definition frame_size :: "machine_func \<Rightarrow> nat" where
  "frame_size func = align_to_16 (mf_stack_size func + length (saved_registers (mf_saved_regs func)) * 8)"

text \<open>Every function has an entry block, its first.\<close>

definition lower_function_frame :: "machine_func \<Rightarrow> failure + machine_func" where
  "lower_function_frame func = (case mf_blocks func of
     [] \<Rightarrow> Inl Panic
   | entry # _ \<Rightarrow>
       let stack_size = mf_stack_size func;
           saved = saved_registers (mf_saved_regs func);
           frame_bytes = frame_size func;
           lr_save_bytes = link_register_save_bytes (mb_insts entry)
       in case try_blocks (try_map (rewrite_stack_arg_load (frame_bytes + lr_save_bytes))) (mf_blocks func) of
            Inl e \<Rightarrow> Inl e
          | Inr blocks \<Rightarrow>
              if frame_bytes = 0 then Inr (func\<lparr>mf_blocks := blocks\<rparr>)
              else
                (case try_blocks legalize_large_sp_address_offsets
                    (map (\<lambda>b. b\<lparr>mb_insts := insert_block_epilogues frame_bytes stack_size saved (mb_insts b)\<rparr>)
                      ((hd blocks)\<lparr>mb_insts := insert_prologue frame_bytes stack_size saved (mb_insts (hd blocks))\<rparr> #
                       tl blocks)) of
                   Inl e \<Rightarrow> Inl e
                 | Inr blocks' \<Rightarrow> Inr (func\<lparr>mf_blocks := blocks'\<rparr>)))"

subsection \<open>The pass returns, and leaves no offset the encoder rejects\<close>

text \<open>The register allocator leaves a register where the pass expects one.\<close>

definition has_data :: "machine_inst \<Rightarrow> bool" where
  "has_data m \<longleftrightarrow> rd (snd m) \<noteq> None \<or>
     fst m \<noteq> MemOp A_AddSpOffset \<and> fst m \<noteq> MemOp A_LdrStackArg \<and> sp_mem_reg_offset_form (fst m) = None"

text \<open>The instructions with an immediate offset from, or to, the stack pointer.\<close>

definition sp_offset_inst :: "machine_inst \<Rightarrow> bool" where
  "sp_offset_inst m \<longleftrightarrow> fst m \<in> {MemOp A_SubSpImm, MemOp A_AddSpImm, MemOp A_AddSpOffset} \<or>
     sp_mem_reg_offset_form (fst m) \<noteq> None"

definition adjusts_sp :: "machine_inst \<Rightarrow> bool" where
  "adjusts_sp m \<longleftrightarrow> fst m = MemOp A_SubSpImm \<or> fst m = MemOp A_AddSpImm"

definition offset_ok :: "machine_inst \<Rightarrow> bool" where
  "offset_ok m \<longleftrightarrow> \<not> sp_offset_inst m \<or> imm (snd m) = None \<or> encode_fixed_inst (fst m) (snd m) \<noteq> Some None"

lemma sp_form_encoding:
  "sp_mem_reg_offset_form opcode = Some (opcode', scale) \<Longrightarrow>
    (\<exists>base fl. fixed_form opcode = Some (MemForm base scale True fl)) \<and> opcode \<notin> {MemOp A_SubSpImm, MemOp A_AddSpImm, MemOp A_AddSpOffset} \<and>
    sp_mem_reg_offset_form opcode' = None \<and> opcode' \<notin> {MemOp A_SubSpImm, MemOp A_AddSpImm, MemOp A_AddSpOffset}"
  by (erule sp_mem_reg_offset_form.elims) auto

lemma offset_ok_mem:
  assumes "sp_mem_reg_offset_form (fst m) = Some (opcode', scale)" "imm (snd m) = Some v"
    "v \<le> 4095 * scale \<and> v mod scale = 0 \<or> v \<le> 255"
  shows "offset_ok m"
proof -
  obtain base fl where f: "fixed_form (fst m) = Some (MemForm base scale True fl)"
    using sp_form_encoding[OF assms(1)] by blast
  have "unscaled_base base \<noteq> None" using mem_form_base[OF f] by (simp add: mem_base_ok_def unscaled_base_def)
  then show ?thesis using assms(2,3) f
    by (auto simp: offset_ok_def encode_fixed_inst_def encode_mem_offset_with_def Option.bind_eq_Some_conv)
qed

lemma offset_ok_address: "fst m = MemOp A_AddSpOffset \<Longrightarrow> imm (snd m) = Some v \<Longrightarrow> v \<le> 4095 \<Longrightarrow> offset_ok m"
  by (auto simp: offset_ok_def encode_fixed_inst_def encode_add_sp_offset_def Option.bind_eq_Some_conv)

lemma offset_ok_adjust: "adjusts_sp m \<Longrightarrow> imm (snd m) = Some v \<Longrightarrow> v \<le> 4095 \<Longrightarrow> offset_ok m"
  by (auto simp: adjusts_sp_def offset_ok_def encode_fixed_inst_def encode_sp_imm_def)

lemma offset_ok_other: "\<not> sp_offset_inst m \<Longrightarrow> offset_ok m"
  by (simp add: offset_ok_def)

lemma offset_ok_materialize: "m \<in> set (materialize_offset_in_x16 v) \<Longrightarrow> offset_ok m"
  by (auto simp: materialize_offset_in_x16_def movz_def movk_def Let_def intro!: offset_ok_other split: if_splits)
    (simp_all add: sp_offset_inst_def)

lemma legalize_inst_ok:
  assumes "has_data m" "adjusts_sp m \<longrightarrow> offset_ok m"
  shows "\<exists>ms. legalize_inst m = Inr ms \<and> list_all offset_ok ms"
proof (cases "fst m = MemOp A_AddSpOffset")
  case True
  then obtain r where r: "rd (snd m) = Some r" using assms(1) by (auto simp: has_data_def)
  show ?thesis
  proof (cases "imm (snd m)")
    case None
    then show ?thesis using True by (simp add: legalize_inst_def offset_ok_def)
  next
    case (Some v)
    have "offset_ok (fst m, (snd m)\<lparr>imm := Some 0\<rparr>)" using True by (intro offset_ok_address[where v = 0]) simp_all
    moreover have "offset_ok (binary (IntOp A_Add) r r X16)" by (rule offset_ok_other) (simp add: sp_offset_inst_def binary_def)
    ultimately show ?thesis using True Some r offset_ok_address[OF True Some] offset_ok_materialize
      by (auto simp: legalize_inst_def list_all_iff)
  qed
next
  case nadd: False
  show ?thesis
  proof (cases "sp_mem_reg_offset_form (fst m)")
    case None
    then have "offset_ok m" using assms(2) nadd by (auto simp: offset_ok_def sp_offset_inst_def adjusts_sp_def)
    then show ?thesis using None nadd by (simp add: legalize_inst_def)
  next
    case (Some f)
    obtain opcode' scale where f: "f = (opcode', scale)" by fastforce
    obtain r where r: "rd (snd m) = Some r" using assms(1) Some by (auto simp: has_data_def)
    show ?thesis
    proof (cases "imm (snd m)")
      case None
      then show ?thesis using Some f nadd by (simp add: legalize_inst_def offset_ok_def)
    next
      case (Some v)
      note form = \<open>sp_mem_reg_offset_form (fst m) = Some f\<close>[unfolded f]
      have "offset_ok (add_sp_offset X17 0)" by (rule offset_ok_address[where v = 0]) (simp_all add: add_sp_offset_def)
      moreover have "offset_ok (binary (IntOp A_Add) X17 X17 X16)"
        by (rule offset_ok_other) (simp add: sp_offset_inst_def binary_def)
      moreover have "offset_ok (ldr_reg_offset_sized opcode' r X17 0)"
        by (rule offset_ok_other) (use sp_form_encoding[OF form] in \<open>simp add: sp_offset_inst_def ldr_reg_offset_sized_def\<close>)
      ultimately show ?thesis using Some form r nadd offset_ok_mem[OF form Some] offset_ok_materialize
        by (auto simp: legalize_inst_def list_all_iff)
    qed
  qed
qed

lemma legalize_insts_ok:
  assumes "list_all has_data ms" "list_all (\<lambda>m. adjusts_sp m \<longrightarrow> offset_ok m) ms"
  shows "\<exists>ms'. legalize_large_sp_address_offsets ms = Inr ms' \<and> list_all offset_ok ms'"
proof -
  have "\<exists>mss. try_map legalize_inst ms = Inr mss \<and> list_all (list_all offset_ok) mss"
    using assms
  proof (induction ms)
    case (Cons m ms)
    then obtain mss where "try_map legalize_inst ms = Inr mss" "list_all (list_all offset_ok) mss" by auto
    moreover obtain ys where "legalize_inst m = Inr ys" "list_all offset_ok ys"
      using legalize_inst_ok[of m] Cons.prems by auto
    ultimately show ?case by simp
  qed simp
  then show ?thesis by (auto simp: legalize_large_sp_address_offsets_def list_all_iff)
qed

lemma stack_chunks_bound: "c \<in> set (stack_chunks n) \<Longrightarrow> c \<le> 4095"
proof (induction n rule: stack_chunks.induct)
  case (1 bytes)
  then show ?case by (cases "bytes = 0") (auto simp: stack_chunks.simps[of bytes] stack_chunks.simps[of 0])
qed

definition inserted_ok :: "machine_inst \<Rightarrow> bool" where
  "inserted_ok m \<longleftrightarrow> has_data m \<and> (adjusts_sp m \<longrightarrow> offset_ok m)"

lemma adjust_inserted_ok: "c \<le> 4095 \<Longrightarrow> inserted_ok (sub_sp_imm c) \<and> inserted_ok (add_sp_imm c)"
  by (auto simp: inserted_ok_def has_data_def sub_sp_imm_def add_sp_imm_def intro!: offset_ok_adjust[where v = c])

lemma prologue_ok: "m \<in> set (prologue frame st saved) \<Longrightarrow> inserted_ok m"
  using stack_chunks_bound adjust_inserted_ok
  by (auto simp: prologue_def save_slots_def split: if_splits)
    (auto simp: inserted_ok_def has_data_def adjusts_sp_def str_sp_offset_sized_def)

lemma epilogue_ok: "m \<in> set (epilogue frame st saved) \<Longrightarrow> inserted_ok m"
  using stack_chunks_bound adjust_inserted_ok
  by (auto simp: epilogue_def save_slots_def split: if_splits)
    (auto simp: inserted_ok_def has_data_def adjusts_sp_def ldr_sp_offset_sized_def)

lemma set_insert_prologue: "set (insert_prologue frame st saved ms) = set ms \<union> set (prologue frame st saved)"
proof -
  have "set ms = set (takeWhile is_lr_save ms) \<union> set (dropWhile is_lr_save ms)"
    by (metis set_append takeWhile_dropWhile_id)
  then show ?thesis by (auto simp: insert_prologue_def)
qed

lemma set_insert_epilogues:
  "set (insert_block_epilogues frame st saved ms) \<subseteq> set ms \<union> set (epilogue frame st saved)"
  by (auto simp: insert_block_epilogues_def split: if_splits)

lemma framed_block_insts:
  assumes "x \<in> set (map (\<lambda>b. b\<lparr>mb_insts := insert_block_epilogues frame st saved (mb_insts b)\<rparr>)
      ((hd blocks)\<lparr>mb_insts := insert_prologue frame st saved (mb_insts (hd blocks))\<rparr> # tl blocks))"
    and "m \<in> set (mb_insts x)" and "blocks \<noteq> []"
  shows "\<exists>c \<in> set blocks. m \<in> set (mb_insts c) \<union> set (prologue frame st saved) \<union> set (epilogue frame st saved)"
proof -
  obtain y where y: "y = (hd blocks)\<lparr>mb_insts := insert_prologue frame st saved (mb_insts (hd blocks))\<rparr> \<or> y \<in> set (tl blocks)"
    "m \<in> set (mb_insts y) \<union> set (epilogue frame st saved)"
    using assms(1,2) set_insert_epilogues[of frame st saved] by fastforce
  then have "m \<in> set (mb_insts y) \<Longrightarrow> \<exists>c \<in> set blocks. m \<in> set (mb_insts c) \<union> set (prologue frame st saved)"
    using assms(3) set_insert_prologue[of frame st saved "mb_insts (hd blocks)"]
    by (auto intro: bexI[of _ "hd blocks"] bexI[of _ y] dest: list.set_sel(2))
  then show ?thesis using y(2) assms(3) by (metis Un_iff list.set_sel(1))
qed

lemma rewrite_stack_arg_ok:
  assumes "has_data m" "\<not> adjusts_sp m"
  shows "\<exists>m'. rewrite_stack_arg_load n m = Inr m' \<and> inserted_ok m'"
proof (cases "fst m = MemOp A_LdrStackArg")
  case True
  then obtain r where "rd (snd m) = Some r" using assms(1) by (auto simp: has_data_def)
  then show ?thesis using True
    by (simp add: rewrite_stack_arg_load_def inserted_ok_def has_data_def adjusts_sp_def ldr_sp_offset_def ldr_sp_offset_sized_def)
next
  case False
  then show ?thesis using assms by (simp add: rewrite_stack_arg_load_def inserted_ok_def)
qed

lemma rewrite_stack_args_ok:
  "list_all (\<lambda>m. has_data m \<and> \<not> adjusts_sp m) ms \<Longrightarrow>
    \<exists>ms'. try_map (rewrite_stack_arg_load n) ms = Inr ms' \<and> list_all inserted_ok ms'"
proof (induction ms)
  case (Cons m ms)
  then obtain ms' where "try_map (rewrite_stack_arg_load n) ms = Inr ms'" "list_all inserted_ok ms'" by auto
  moreover obtain m' where "rewrite_stack_arg_load n m = Inr m'" "inserted_ok m'"
    using rewrite_stack_arg_ok[of m n] Cons.prems by auto
  ultimately show ?case by simp
qed simp

lemma try_blocks_ok:
  assumes "\<And>b. b \<in> set blocks \<Longrightarrow> \<exists>ms. f (mb_insts b) = Inr ms \<and> list_all P ms"
  shows "\<exists>blocks'. try_blocks f blocks = Inr blocks' \<and> length blocks' = length blocks \<and> list_all (\<lambda>b. list_all P (mb_insts b)) blocks'"
  using assms
proof (induction blocks)
  case (Cons b blocks)
  obtain ms where "f (mb_insts b) = Inr ms" "list_all P ms" using Cons.prems[of b] by auto
  moreover obtain bs where "try_blocks f blocks = Inr bs" "length bs = length blocks" "list_all (\<lambda>b. list_all P (mb_insts b)) bs"
    using Cons by (metis list.set_intros(2))
  ultimately show ?case by (simp add: try_blocks_def)
qed (simp add: try_blocks_def)

lemma lower_function_frame_ok:
  assumes "mf_blocks func \<noteq> []"
    and "list_all (\<lambda>b. list_all (\<lambda>m. has_data m \<and> \<not> adjusts_sp m) (mb_insts b)) (mf_blocks func)"
  shows "\<exists>func'. lower_function_frame func = Inr func' \<and>
    (frame_size func = 0 \<or> list_all (\<lambda>b. list_all offset_ok (mb_insts b)) (mf_blocks func'))"
proof -
  let ?F = "frame_size func" and ?st = "mf_stack_size func" and ?saved = "saved_registers (mf_saved_regs func)"
  obtain entry rest where e: "mf_blocks func = entry # rest" using assms(1) by (cases "mf_blocks func") auto
  let ?n = "?F + link_register_save_bytes (mb_insts entry)"
  have rebase: "\<exists>ms. try_map (rewrite_stack_arg_load ?n) (mb_insts b) = Inr ms \<and> list_all inserted_ok ms"
    if "b \<in> set (mf_blocks func)" for b
    by (rule rewrite_stack_args_ok) (use assms(2) that in \<open>auto simp: list_all_iff\<close>)
  obtain blocks where b: "try_blocks (try_map (rewrite_stack_arg_load ?n)) (mf_blocks func) = Inr blocks"
    "length blocks = length (mf_blocks func)" "list_all (\<lambda>b. list_all inserted_ok (mb_insts b)) blocks"
    using try_blocks_ok[of "mf_blocks func" "try_map (rewrite_stack_arg_load ?n)" inserted_ok, OF rebase] by blast
  let ?fr = "map (\<lambda>b. b\<lparr>mb_insts := insert_block_epilogues ?F ?st ?saved (mb_insts b)\<rparr>)
    ((hd blocks)\<lparr>mb_insts := insert_prologue ?F ?st ?saved (mb_insts (hd blocks))\<rparr> # tl blocks)"
  have "inserted_ok m" if x: "x \<in> set ?fr" "m \<in> set (mb_insts x)" for x m
  proof -
    obtain c where "c \<in> set blocks" "m \<in> set (mb_insts c) \<union> set (prologue ?F ?st ?saved) \<union> set (epilogue ?F ?st ?saved)"
      using framed_block_insts[OF x] b(2) e by (metis length_0_conv list.distinct(1))
    then show ?thesis using b(3) prologue_ok[of m] epilogue_ok[of m] by (auto simp: list_all_iff)
  qed
  then have legal: "\<exists>ms. legalize_large_sp_address_offsets (mb_insts x) = Inr ms \<and> list_all offset_ok ms" if "x \<in> set ?fr" for x
    using legalize_insts_ok[of "mb_insts x"] that by (auto simp: list_all_iff inserted_ok_def)
  from try_blocks_ok[of ?fr legalize_large_sp_address_offsets offset_ok, OF legal] obtain blocks' where
    "try_blocks legalize_large_sp_address_offsets ?fr = Inr blocks'" "list_all (\<lambda>b. list_all offset_ok (mb_insts b)) blocks'"
    by blast
  then show ?thesis using b(1) e by (auto simp: lower_function_frame_def Let_def)
qed

text \<open>
  (C30) The frame lowering returns for every function whose instructions have their operands and do not move the stack
  pointer, and if the function has a frame, no stack adjustment, stack address, load or store of the function it returns has
  an offset the encoder would reject, however large the frame is.  (Without a frame nothing is legalised, and a far stack
  argument is rejected: \<open>frameless_stack_arg_rejected\<close>.)
\<close>

theorem frame_lowering_encodes:
  assumes "mf_blocks func \<noteq> []"
    and "list_all (\<lambda>b. list_all (\<lambda>m. has_data m \<and> \<not> adjusts_sp m) (mb_insts b)) (mf_blocks func)"
  shows "\<exists>func'. lower_function_frame func = Inr func' \<and>
    (frame_size func = 0 \<or> list_all (\<lambda>b. list_all offset_ok (mb_insts b)) (mf_blocks func'))"
  using lower_function_frame_ok[OF assms] .

subsection \<open>Examples\<close>

text \<open>A function with a stack argument that uses \<open>x19\<close>.\<close>

definition frame_body :: "machine_inst list" where
  "frame_body = [(MemOp A_LdrStackArg, blank_inst\<lparr>rd := Some (gpr 0), imm := Some 8\<rparr>), mov_imm (gpr 19) 5]"

definition frame_func :: machine_func where
  "frame_func = \<lparr>mf_blocks = [\<lparr>mb_id = 0, mb_insts = [str_pre_sp LR 16] @ frame_body @ [ldr_post_sp LR 16, (CtlOp A_Ret, blank_inst)]\<rparr>],
     mf_stack_size = 16, mf_saved_regs = 2 ^ 19\<rparr>"

lemmas frame_example_defs = frame_func_def frame_body_def str_pre_sp_def ldr_post_sp_def mov_imm_def is_lr_save_def
  is_lr_restore_def LR_def gpr_def

lemma frame_example:
  "saved_registers (mf_saved_regs frame_func) = [gpr 19]" "frame_size frame_func = 32"
  "takeWhile is_lr_save (mb_insts (mf_blocks frame_func ! 0)) = [str_pre_sp LR 16]"
  "link_register_save_bytes (mb_insts (mf_blocks frame_func ! 0)) = 16"
proof -
  have "bit (mf_saved_regs frame_func) n \<longleftrightarrow> n = 19" for n
    unfolding frame_func_def machine_func.simps bit_exp_iff by auto
  then show saved: "saved_registers (mf_saved_regs frame_func) = [gpr 19]"
    by (simp add: saved_registers_def upt_rec eval_nat_numeral)
  show "frame_size frame_func = 32" unfolding frame_size_def saved by (simp add: frame_func_def align_to_16_def)
qed (simp_all add: frame_example_defs imm_or_0_def)

lemma frame_example_ok:
  "list_all (\<lambda>b. list_all (\<lambda>m. has_data m \<and> \<not> adjusts_sp m) (mb_insts b)) (mf_blocks frame_func)"
  by (simp add: frame_example_defs has_data_def adjusts_sp_def)

theorem frame_lowering_encodes_witness:
  "\<exists>func'. lower_function_frame frame_func = Inr func' \<and> list_all (\<lambda>b. list_all offset_ok (mb_insts b)) (mf_blocks func')"
proof -
  have "mf_blocks frame_func \<noteq> []" by (simp add: frame_func_def)
  from frame_lowering_encodes[OF this frame_example_ok] show ?thesis using frame_example(2) by auto
qed

lemma frame_example_lowered: "\<exists>func'. lower_function_frame frame_func = Inr func'"
  using lower_function_frame_ok[OF _ frame_example_ok] by (auto simp: frame_func_def)

definition frameless_func :: machine_func where
  "frameless_func = \<lparr>mf_blocks = [\<lparr>mb_id = 0, mb_insts =
       [(MemOp A_LdrStackArg, blank_inst\<lparr>rd := Some (gpr 0), imm := Some 40000\<rparr>), (CtlOp A_Ret, blank_inst)]\<rparr>],
     mf_stack_size = 0, mf_saved_regs = 0\<rparr>"

text \<open>
  A function without a frame is not legalised: an incoming stack argument past 32 KiB becomes a load
  the encoder rejects.
\<close>

theorem frameless_stack_arg_rejected:
  "\<exists>func' m. lower_function_frame frameless_func = Inr func' \<and> m \<in> set (mb_insts (hd (mf_blocks func'))) \<and>
     encode_fixed_inst (fst m) (snd m) = Some None"
proof -
  have "saved_registers 0 = []" by (simp add: saved_registers_def)
  then have "frame_size frameless_func = 0" by (simp add: frame_size_def frameless_func_def align_to_16_def)
  moreover have "encode_fixed_inst (fst (ldr_sp_offset (gpr 0) 40000)) (snd (ldr_sp_offset (gpr 0) 40000)) = Some None"
    by (simp add: ldr_sp_offset_def ldr_sp_offset_sized_def encode_fixed_inst_def encode_mem_offset_with_def)
  ultimately show ?thesis
    by (cases "ldr_sp_offset (gpr 0) 40000")
      (auto simp: lower_function_frame_def frameless_func_def try_blocks_def rewrite_stack_arg_load_def imm_or_0_def
        is_lr_save_def)
qed

end
