(* ===== verification/A64_Rewrite_Correct.thy ===== *)
theory A64_Rewrite_Correct
  imports A64_Rewrite
begin

text \<open>
  The register allocator preserves what a block computes: the rewritten instructions, run on
  registers and spill slots, keep every live value where the allocator says it is.
\<close>

unbundle bit_operations_syntax

subsection \<open>Registers and slots\<close>

text \<open>A register's content is 128 bits wide; an access sees as much of it as its class says.\<close>

type_synonym val = "128 word"
type_synonym regs = "bank \<times> nat \<Rightarrow> val"

fun view :: "register_class \<Rightarrow> val \<Rightarrow> val" where
  "view Gpr64 x = take_bit 64 x"
| "view Gpr32 x = take_bit 32 x"
| "view Fpr64 x = take_bit 64 x"
| "view Fpr32 x = take_bit 32 x"
| "view Simd128 x = x"
| "view Nzcv x = x"

lemma view_view [simp]: "view c (view c x) = view c x"
  by (cases c) simp_all

definition read_reg :: "register \<Rightarrow> regs \<Rightarrow> val" where
  "read_reg r regs = (case hw_unit r of Some u \<Rightarrow> view (reg_class r) (regs u) | None \<Rightarrow> 0)"

text \<open>A write clears the rest of the register.\<close>

definition write_reg :: "register \<Rightarrow> val \<Rightarrow> regs \<Rightarrow> regs" where
  "write_reg r x regs = (case hw_unit r of Some u \<Rightarrow> regs(u := view (reg_class r) x) | None \<Rightarrow> regs)"

text \<open>Slots hold 8 bytes; an \<open>s\<close> register is stored in the low half of one, a \<open>q\<close> register in two.\<close>

type_synonym slots = "nat \<Rightarrow> 64 word"

definition store_slot :: "register_class \<Rightarrow> nat \<Rightarrow> val \<Rightarrow> slots \<Rightarrow> slots" where
  "store_slot c s x slots = (case c of
     Simd128 \<Rightarrow> slots(s := ucast x, s + 1 := ucast (drop_bit 64 x))
   | Fpr32 \<Rightarrow> slots(s := push_bit 32 (drop_bit 32 (slots s)) OR take_bit 32 (ucast x))
   | _ \<Rightarrow> slots(s := ucast x))"

definition load_slot :: "register_class \<Rightarrow> nat \<Rightarrow> slots \<Rightarrow> val" where
  "load_slot c s slots = (case c of
     Simd128 \<Rightarrow> push_bit 64 (ucast (slots (s + 1))) OR ucast (slots s)
   | Fpr32 \<Rightarrow> take_bit 32 (ucast (slots s))
   | _ \<Rightarrow> ucast (slots s))"

lemma load_store_slot:
  assumes "bank_of c \<noteq> None"
  shows "load_slot c s (store_slot c s x slots) = view c x"
  using assms
  by (cases c; simp add: load_slot_def store_slot_def)
    (rule bit_word_eqI, auto simp: bit_simps)+

lemma load_slot_view: "bank_of c \<noteq> None \<Longrightarrow> view c (load_slot c s slots) = load_slot c s slots"
  by (cases c; simp add: load_slot_def) (rule bit_word_eqI, auto simp: bit_simps dest: bit_imp_le_length)+

lemma load_store_other:
  assumes "{s ..< s + slot_count (Some c)} \<inter> {r ..< r + slot_count (Some d)} = {}"
  shows "load_slot c s (store_slot d r x slots) = load_slot c s slots"
proof -
  have "s \<notin> {r ..< r + slot_count (Some d)}" "c = Simd128 \<Longrightarrow> s + 1 \<notin> {r ..< r + slot_count (Some d)}"
    using assms by (auto simp: slot_count_def disjoint_iff split: if_splits)
  then show ?thesis
    by (cases c; cases d) (auto simp: load_slot_def store_slot_def slot_count_def)
qed

subsection \<open>Runs of the code before and after\<close>

definition scratch_numbers :: "bank \<Rightarrow> nat list" where
  "scratch_numbers b = (case b of BankGpr \<Rightarrow> [13, 14, 15] | BankFpr \<Rightarrow> spill_scratch_fpr_numbers)"

text \<open>The registers the allocator hands out or uses itself; code before allocation names none of them.\<close>

fun allocator_unit :: "bank \<times> nat \<Rightarrow> bool" where
  "allocator_unit (b, n) \<longleftrightarrow> n \<in> set (pool_numbers b) \<or> n \<in> set (scratch_numbers b)"

record 'w machine =
  mc_regs :: regs
  mc_slots :: slots
  mc_world :: 'w

record 'w source =
  sr_env :: "virtual_register \<Rightarrow> val"
  sr_regs :: regs
  sr_world :: 'w

text \<open>
  What an opcode does with its attributes, the values it reads, the registers it reads and writes
  implicitly (argument registers of a call, say) and the rest of the machine: the value it
  writes to its destination, the implicit registers and the rest afterwards.  The theorems hold for
  every such function.
\<close>

type_synonym 'w semantics =
  "a64_opcode \<Rightarrow> a64_inst \<Rightarrow> (operand_key \<times> register_class \<times> val) list \<Rightarrow> regs \<Rightarrow> 'w \<Rightarrow> val \<times> regs \<times> 'w"

definition erase :: "a64_inst \<Rightarrow> a64_inst" where
  "erase i = i\<lparr>rd := None, rn := None, rm := None\<rparr>"

definition outside :: "regs \<Rightarrow> regs" where
  "outside regs = (\<lambda>u. if allocator_unit u then 0 else regs u)"

definition use_values :: "(register \<Rightarrow> val) \<Rightarrow> a64_opcode \<Rightarrow> a64_inst \<Rightarrow> (operand_key \<times> register_class \<times> val) list" where
  "use_values rdr opcode i = List.map_filter
     (\<lambda>(key, k). if k = Use then map_option (\<lambda>r. (key, reg_class r, rdr r)) (operand key i) else None)
     (operand_specs opcode)"

definition def_register :: "a64_opcode \<Rightarrow> a64_inst \<Rightarrow> register option" where
  "def_register opcode i = (if (Rd, Def) \<in> set (operand_specs opcode) then rd i else None)"

text \<open>A call leaves \<open>junk\<close> in what it need not preserve.\<close>

definition after_inst :: "regs \<Rightarrow> machine_inst \<Rightarrow> regs \<Rightarrow> regs \<Rightarrow> regs" where
  "after_inst junk m out regs = (\<lambda>u.
     if allocator_unit u
     then if is_call m then if survives_calls u then push_bit 64 (junk u) OR take_bit 64 (regs u) else junk u
          else regs u
     else out u)"

fun exec_plain :: "'w semantics \<Rightarrow> regs \<Rightarrow> machine_inst \<Rightarrow> 'w machine \<Rightarrow> 'w machine" where
  "exec_plain sem junk (opcode, i) M =
     (case sem opcode (erase i) (use_values (\<lambda>r. read_reg r (mc_regs M)) opcode i) (outside (mc_regs M)) (mc_world M) of
        (x, out, w) \<Rightarrow>
          let regs = after_inst junk (opcode, i) out (mc_regs M) in
          M\<lparr>mc_regs := (case def_register opcode i of Some r \<Rightarrow> write_reg r x regs | None \<Rightarrow> regs), mc_world := w\<rparr>)"

text \<open>The loads and stores of the spill area, above \<open>base\<close>, by their opcodes' transfer class.\<close>

fun spill_class :: "a64_opcode \<Rightarrow> (bool \<times> register_class) option" where
  "spill_class (FpMemOp A_StrqSpOffset) = Some (True, Simd128)"
| "spill_class (FpMemOp A_LdrqSpOffset) = Some (False, Simd128)"
| "spill_class (FpMemOp A_StrdSpOffset) = Some (True, Fpr64)"
| "spill_class (FpMemOp A_LdrdSpOffset) = Some (False, Fpr64)"
| "spill_class (FpMemOp A_StrsSpOffset) = Some (True, Fpr32)"
| "spill_class (FpMemOp A_LdrsSpOffset) = Some (False, Fpr32)"
| "spill_class (MemOp A_StrSpOffset) = Some (True, Gpr64)"
| "spill_class (MemOp A_LdrSpOffset) = Some (False, Gpr64)"
| "spill_class _ = None"

fun spill_form :: "nat \<Rightarrow> machine_inst \<Rightarrow> (bool \<times> register_class \<times> nat \<times> register) option" where
  "spill_form base (opcode, i) = (case (spill_class opcode, rd i, imm i) of
     (Some (is_store, c), Some r, Some off) \<Rightarrow>
       if base \<le> off then Some (is_store, c, (off - base) div spill_slot_bytes, r) else None
   | _ \<Rightarrow> None)"

definition exec_machine :: "nat \<Rightarrow> 'w semantics \<Rightarrow> regs \<Rightarrow> machine_inst \<Rightarrow> 'w machine \<Rightarrow> 'w machine" where
  "exec_machine base sem junk m M = (case spill_form base m of
     Some (is_store, c, s, r) \<Rightarrow>
       if is_store then M\<lparr>mc_slots := store_slot c s (read_reg r (mc_regs M)) (mc_slots M)\<rparr>
       else M\<lparr>mc_regs := write_reg r (load_slot c s (mc_slots M)) (mc_regs M)\<rparr>
   | None \<Rightarrow> exec_plain sem junk m M)"

definition run_machine :: "nat \<Rightarrow> 'w semantics \<Rightarrow> regs \<Rightarrow> machine_inst list \<Rightarrow> 'w machine \<Rightarrow> 'w machine" where
  "run_machine base sem junk ms M = fold (exec_machine base sem junk) ms M"

definition read_source :: "'w source \<Rightarrow> register \<Rightarrow> val" where
  "read_source S r = (case r of Virtual v c \<Rightarrow> view c (sr_env S v) | Physical p \<Rightarrow> read_reg r (sr_regs S))"

definition write_source :: "register \<Rightarrow> val \<Rightarrow> 'w source \<Rightarrow> 'w source" where
  "write_source r x S = (case r of
     Virtual v c \<Rightarrow> S\<lparr>sr_env := (sr_env S)(v := view c x)\<rparr>
   | Physical p \<Rightarrow> S\<lparr>sr_regs := write_reg r x (sr_regs S)\<rparr>)"

fun exec_source :: "'w semantics \<Rightarrow> machine_inst \<Rightarrow> 'w source \<Rightarrow> 'w source" where
  "exec_source sem (opcode, i) S =
     (case sem opcode (erase i) (use_values (read_source S) opcode i) (outside (sr_regs S)) (sr_world S) of
        (x, out, w) \<Rightarrow>
          let S' = S\<lparr>sr_regs := (\<lambda>u. if allocator_unit u then sr_regs S u else out u), sr_world := w\<rparr> in
          (case def_register opcode i of Some r \<Rightarrow> write_source r x S' | None \<Rightarrow> S'))"

subsection \<open>The relation between the runs\<close>

text \<open>Where rematerialisation is on, \<open>mov_imm\<close> must be what it says.\<close>

definition executes_mov_imm :: "'w semantics \<Rightarrow> bool" where
  "executes_mov_imm sem \<longleftrightarrow> (\<forall>i n vals regs w. imm i = Some n \<longrightarrow> sem (IntOp A_MovImm) i vals regs w = (of_nat n, regs, w))"

definition sem_fits :: "rewrite_env \<Rightarrow> 'w semantics \<Rightarrow> bool" where
  "sem_fits re sem \<longleftrightarrow> (\<forall>v n. re_remat re v = Some n \<longrightarrow> executes_mov_imm sem)"

text \<open>Where the allocator keeps a value, and what is known of a value that is rematerialised.\<close>

definition located :: "rewrite_env \<Rightarrow> (virtual_register \<rightharpoonup> register_class) \<Rightarrow> virtual_register \<Rightarrow> 'w machine \<Rightarrow> val option" where
  "located re classes v M = (case (classes v, re_assignments re v) of
     (Some c, Some (Phys p)) \<Rightarrow> map_option (\<lambda>b. read_reg (pool_reg b p c) (mc_regs M)) (bank_of c)
   | (Some c, Some (Spill s)) \<Rightarrow> Some (load_slot c s (mc_slots M))
   | _ \<Rightarrow> None)"

definition holds :: "rewrite_env \<Rightarrow> (virtual_register \<rightharpoonup> register_class) \<Rightarrow> virtual_register \<Rightarrow> 'w source \<Rightarrow> 'w machine \<Rightarrow> bool" where
  "holds re classes v S M \<longleftrightarrow> (\<exists>c. classes v = Some c \<and> located re classes v M = Some (view c (sr_env S v)) \<and>
     (\<forall>n. re_remat re v = Some n \<longrightarrow> view c (sr_env S v) = view c (of_nat n)))"

definition same_outside :: "'w source \<Rightarrow> 'w machine \<Rightarrow> bool" where
  "same_outside S M \<longleftrightarrow> sr_world S = mc_world M \<and> (\<forall>u. \<not> allocator_unit u \<longrightarrow> sr_regs S u = mc_regs M u)"

text \<open>What the code before allocation looks like.\<close>

definition operand_ok :: "(virtual_register \<rightharpoonup> register_class) \<Rightarrow> register \<Rightarrow> bool" where
  "operand_ok classes r = (case r of
     Virtual v c \<Rightarrow> classes v = Some c \<and> bank_of c \<noteq> None
   | Physical p \<Rightarrow> (case hw_unit r of None \<Rightarrow> True | Some u \<Rightarrow> \<not> allocator_unit u))"

fun inst_ok :: "(virtual_register \<rightharpoonup> register_class) \<Rightarrow> nat \<Rightarrow> machine_inst \<Rightarrow> bool" where
  "inst_ok classes base (opcode, i) \<longleftrightarrow>
     (spill_class opcode = None \<or> imm i = None \<or> the (imm i) < base) \<and>
     (\<forall>(key, k) \<in> set (operand_specs opcode). case operand key i of None \<Rightarrow> True | Some r \<Rightarrow> operand_ok classes r)"

text \<open>What the allocation guarantees of the values an instruction must keep apart.\<close>

definition placed :: "rewrite_env \<Rightarrow> (virtual_register \<rightharpoonup> register_class) \<Rightarrow> virtual_register \<Rightarrow> bool" where
  "placed re classes v \<longleftrightarrow> (\<exists>c b. classes v = Some c \<and> bank_of c = Some b \<and>
     ((\<exists>s. re_assignments re v = Some (Spill s)) \<or> (\<exists>p < pool_size b. re_assignments re v = Some (Phys p))))"

definition separate :: "rewrite_env \<Rightarrow> (virtual_register \<rightharpoonup> register_class) \<Rightarrow> virtual_register \<Rightarrow> virtual_register \<Rightarrow> bool" where
  "separate re classes v w \<longleftrightarrow>
     (\<forall>c d b e p q. classes v = Some c \<and> classes w = Some d \<and> bank_of c = Some b \<and> bank_of d = Some e \<and>
        re_assignments re v = Some (Phys p) \<and> re_assignments re w = Some (Phys q) \<longrightarrow>
        hw_unit (pool_reg b p c) \<noteq> hw_unit (pool_reg e q d)) \<and>
     (\<forall>s r. re_assignments re v = Some (Spill s) \<and> re_assignments re w = Some (Spill r) \<longrightarrow>
        slots_of classes v s \<inter> slots_of classes w r = {})"

subsection \<open>Reading the operands of a rewritten instruction\<close>

lemma operand_set_operand [simp]:
  "operand k (set_operand key r i) = (if k = key then Some r else operand k i)"
  by (cases key; cases k) simp_all

lemma erase_set_operand [simp]: "erase (set_operand key r i) = erase i"
  by (cases key) (simp_all add: erase_def)

lemma imm_set_operand [simp]: "imm (set_operand key r i) = imm i"
  by (cases key) simp_all

lemma read_write_same: "hw_unit r = Some u \<Longrightarrow> reg_class s = reg_class r \<Longrightarrow> hw_unit s = Some u \<Longrightarrow>
    read_reg s (write_reg r x regs) = view (reg_class r) x"
  by (simp add: read_reg_def write_reg_def)

lemma read_write_other: "hw_unit r \<noteq> hw_unit s \<Longrightarrow> read_reg s (write_reg r x regs) = read_reg s regs"
  by (auto simp: read_reg_def write_reg_def split: option.splits)

lemma scratch_not_pool: "n \<in> set (scratch_numbers b) \<Longrightarrow> n \<notin> set (pool_numbers b)"
  by (cases b) (auto simp: scratch_numbers_def pool_numbers_def spill_scratch_fpr_numbers_def)

lemma scratch_numbers_props: "length (scratch_numbers b) = 3" "distinct (scratch_numbers b)"
  by (cases b; simp add: scratch_numbers_def spill_scratch_fpr_numbers_def)+

fun index_of :: "bank \<Rightarrow> nat \<times> nat \<Rightarrow> nat" where
  "index_of BankGpr (g, f) = g"
| "index_of BankFpr (g, f) = f"

lemma next_spill_scratch_props:
  assumes "next_spill_scratch idx c = Inr (r, idx')" "bank_of c = Some b"
  shows "index_of b idx < 3" "hw_unit r = Some (b, scratch_numbers b ! index_of b idx)" "reg_class r = c"
    "index_of b idx' = Suc (index_of b idx)" "e \<noteq> b \<Longrightarrow> index_of e idx' = index_of e idx"
proof -
  have gp: "hw_unit (spill_scratch_gprs ! n) = Some (BankGpr, [13, 14, 15] ! n) \<and> reg_class (spill_scratch_gprs ! n) = Gpr64"
    if "n < 3" for n
    using that by (auto simp: spill_scratch_gprs_def gpr_def less_Suc_eq numeral_3_eq_3)
  have "c = Gpr64" if "b = BankGpr" using assms(2) that by (cases c) auto
  moreover have "hw_unit (fpr_in_class c n) = Some (BankFpr, n) \<and> reg_class (fpr_in_class c n) = c" if "b = BankFpr" for n
    using assms(2) that by (cases c) (auto simp: fpr_in_class_def fpr32_def fpr64_def simd128_def)
  ultimately have "index_of b idx < 3 \<and> hw_unit r = Some (b, scratch_numbers b ! index_of b idx) \<and> reg_class r = c \<and>
      index_of b idx' = Suc (index_of b idx) \<and> (e \<noteq> b \<longrightarrow> index_of e idx' = index_of e idx)"
    using assms gp by (cases idx; cases b; cases e)
      (auto simp: scratch_lengths scratch_numbers_def split: if_splits)
  then show "index_of b idx < 3" "hw_unit r = Some (b, scratch_numbers b ! index_of b idx)" "reg_class r = c"
    "index_of b idx' = Suc (index_of b idx)" "e \<noteq> b \<Longrightarrow> index_of e idx' = index_of e idx" by blast+
qed

text \<open>Registers of the pools, and scratch registers taken so far.\<close>

definition usable_unit :: "nat \<times> nat \<Rightarrow> (bank \<times> nat) option \<Rightarrow> bool" where
  "usable_unit idx u \<longleftrightarrow> (\<exists>b n. u = Some (b, n) \<and>
     (n \<in> set (pool_numbers b) \<or> (\<exists>j < index_of b idx. j < 3 \<and> n = scratch_numbers b ! j)))"

text \<open>
  After the uses in \<open>seen\<close>: each is in a register that holds its value, the other operands and
  attributes are untouched, and of the machine only scratch registers have changed.
\<close>

definition scratch_unit :: "register_class \<Rightarrow> register \<Rightarrow> bool" where
  "scratch_unit c r \<longleftrightarrow> reg_class r = c \<and>
     (\<exists>b n. hw_unit r = Some (b, n) \<and> n \<in> set (scratch_numbers b) \<and> bank_of c = Some b)"

fun use_done ::
    "rewrite_env \<Rightarrow> (virtual_register \<Rightarrow> val) \<Rightarrow> rewrite_state \<Rightarrow> 'w machine \<Rightarrow>
     operand_key \<times> virtual_register \<times> register_class \<Rightarrow> bool" where
  "use_done re env st M (key, v, c) \<longleftrightarrow> (\<exists>r. operand key (rw_inst st) = Some r \<and> reg_class r = c \<and>
     read_reg r (mc_regs M) = view c (env v) \<and> usable_unit (rw_index st) (hw_unit r) \<and>
     (\<forall>b p. bank_of c = Some b \<longrightarrow> re_assignments re v = Some (Phys p) \<longrightarrow> r = pool_reg b p c) \<and>
     (\<forall>s. re_assignments re v = Some (Spill s) \<longrightarrow> rw_scratch st (key, v) = Some r \<and> scratch_unit c r))"

definition uses_inv ::
    "rewrite_env \<Rightarrow> (virtual_register \<Rightarrow> val) \<Rightarrow> a64_inst \<Rightarrow> 'w machine \<Rightarrow>
     (operand_key \<times> virtual_register \<times> register_class) set \<Rightarrow> rewrite_state \<Rightarrow> 'w machine \<Rightarrow> bool" where
  "uses_inv re env i M0 seen st M \<longleftrightarrow>
     (\<forall>x \<in> seen. use_done re env st M x) \<and>
     (\<forall>key. key \<notin> fst ` seen \<longrightarrow> operand key (rw_inst st) = operand key i) \<and>
     erase (rw_inst st) = erase i \<and> imm (rw_inst st) = imm i \<and> rw_after st = [] \<and>
     (\<forall>key v. rw_scratch st (key, v) \<noteq> None \<longrightarrow> key \<in> fst ` seen) \<and>
     (\<forall>b n. n \<notin> set (scratch_numbers b) \<longrightarrow> mc_regs M (b, n) = mc_regs M0 (b, n)) \<and>
     mc_slots M = mc_slots M0 \<and> mc_world M = mc_world M0"

lemma usable_mono:
  assumes "usable_unit idx u" "\<And>b. index_of b idx \<le> index_of b idx'"
  shows "usable_unit idx' u"
proof -
  have "j < index_of b idx'" if "j < index_of b idx" for j b
    using that assms(2)[of b] by (rule order_less_le_trans)
  then show ?thesis using assms(1) unfolding usable_unit_def by blast
qed

lemma usable_not_next:
  assumes "usable_unit idx u" "index_of b idx < 3"
  shows "u \<noteq> Some (b, scratch_numbers b ! index_of b idx)"
proof
  assume u: "u = Some (b, scratch_numbers b ! index_of b idx)"
  have "scratch_numbers b ! index_of b idx \<in> set (scratch_numbers b)"
    using assms(2) scratch_numbers_props(1)[of b] by simp
  then have "scratch_numbers b ! index_of b idx \<notin> set (pool_numbers b)" by (rule scratch_not_pool)
  then obtain j where "j < index_of b idx" "j < 3" "scratch_numbers b ! index_of b idx = scratch_numbers b ! j"
    using assms(1) u by (auto simp: usable_unit_def)
  then show False using assms(2) scratch_numbers_props[of b] by (simp add: nth_eq_iff_index_eq)
qed

lemma pool_register_unit:
  assumes "p < pool_size b" "bank_of c = Some b"
  shows "\<exists>n \<in> set (pool_numbers b). hw_unit (pool_reg b p c) = Some (b, n)"
  using hw_unit_pool_register[OF assms] pool_numbers_props(1)[of b] assms(1) by force

lemma read_pool_unchanged:
  assumes "\<forall>b n. n \<notin> set (scratch_numbers b) \<longrightarrow> regs' (b, n) = regs (b, n)" "p < pool_size b" "bank_of c = Some b"
  shows "read_reg (pool_reg b p c) regs' = read_reg (pool_reg b p c) regs"
proof -
  obtain n where "n \<in> set (pool_numbers b)" "hw_unit (pool_reg b p c) = Some (b, n)"
    using pool_register_unit[OF assms(2,3)] by blast
  moreover then have "n \<notin> set (scratch_numbers b)" using scratch_not_pool by blast
  ultimately show ?thesis using assms(1) by (simp add: read_reg_def)
qed

lemma spill_form_reload:
  "bank_of c \<noteq> None \<Longrightarrow> spill_form (re_base re) (ldr_sp_offset_sized (snd (spill_opcodes c)) r (spill_offset re s))
     = Some (False, c, s, r)"
  "bank_of c \<noteq> None \<Longrightarrow> spill_form (re_base re) (str_sp_offset_sized (fst (spill_opcodes c)) r (spill_offset re s))
     = Some (True, c, s, r)"
  by (cases c; simp add: spill_opcodes_def ldr_sp_offset_sized_def str_sp_offset_sized_def spill_offset_def
      spill_slot_bytes_def)+

lemma exec_remat:
  assumes "executes_mov_imm sem"
  shows "run_machine base sem junk [mov_imm r n] M = M\<lparr>mc_regs := write_reg r (of_nat n) (mc_regs M)\<rparr>"
proof -
  have "after_inst junk (IntOp A_MovImm, j) (outside regs) regs = regs" for j regs
    by (auto simp: after_inst_def outside_def fun_eq_iff)
  then show ?thesis using assms
    by (simp add: run_machine_def exec_machine_def mov_imm_def executes_mov_imm_def def_register_def erase_def blank_inst_def)
qed

lemma uses_inv_extend:
  assumes inv: "uses_inv re env i M0 seen st M" and new: "key \<notin> fst ` seen"
    and r: "reg_class r = c" "read_reg r (mc_regs M') = view c (env v)" "usable_unit (rw_index st') (hw_unit r)"
      "\<And>b p. bank_of c = Some b \<Longrightarrow> re_assignments re v = Some (Phys p) \<Longrightarrow> r = pool_reg b p c"
      "\<And>s. re_assignments re v = Some (Spill s) \<Longrightarrow> rw_scratch st' (key, v) = Some r \<and> scratch_unit c r"
    and st': "rw_inst st' = set_operand key r (rw_inst st)" "rw_after st' = rw_after st"
      "\<And>k w. k \<noteq> key \<Longrightarrow> rw_scratch st' (k, w) = rw_scratch st (k, w)"
    and old: "\<And>t. usable_unit (rw_index st) (hw_unit t) \<Longrightarrow>
      read_reg t (mc_regs M') = read_reg t (mc_regs M) \<and> usable_unit (rw_index st') (hw_unit t)"
    and frame: "\<And>b n. n \<notin> set (scratch_numbers b) \<Longrightarrow> mc_regs M' (b, n) = mc_regs M (b, n)"
      "mc_slots M' = mc_slots M" "mc_world M' = mc_world M"
  shows "uses_inv re env i M0 (insert (key, v, c) seen) st' M'"
proof -
  have "use_done re env st' M' x" if x: "x \<in> insert (key, v, c) seen" for x
  proof (cases "x = (key, v, c)")
    case True
    then show ?thesis using r st'(1) by auto
  next
    case False
    then have xs: "x \<in> seen" using x by simp
    obtain k w d where k: "x = (k, w, d)" by (rule prod_cases3)
    then have ne: "k \<noteq> key" using xs new by force
    have "use_done re env st M (k, w, d)" using inv xs k unfolding uses_inv_def by blast
    then obtain t where t: "operand k (rw_inst st) = Some t" "reg_class t = d"
        "read_reg t (mc_regs M) = view d (env w)" "usable_unit (rw_index st) (hw_unit t)"
        "\<forall>b p. bank_of d = Some b \<longrightarrow> re_assignments re w = Some (Phys p) \<longrightarrow> t = pool_reg b p d"
        "\<forall>s. re_assignments re w = Some (Spill s) \<longrightarrow> rw_scratch st (k, w) = Some t \<and> scratch_unit d t"
      by auto
    then show ?thesis using old[OF t(4)] ne st' unfolding k by simp
  qed
  moreover have "\<forall>k w. rw_scratch st' (k, w) \<noteq> None \<longrightarrow> k \<in> fst ` insert (key, v, c) seen"
    using inv st'(3) unfolding uses_inv_def by (metis fst_conv image_insert insert_iff)
  ultimately show ?thesis
    using inv frame st'(1,2) by (simp add: uses_inv_def)
qed

lemma rewrite_use_inv:
  assumes inv: "uses_inv re (sr_env S) i M0 seen st M" and new: "key \<notin> fst ` seen"
    and h: "holds re classes v S M0" and pl: "placed re classes v" and c: "classes v = Some c"
    and sem: "sem_fits re sem"
    and run: "rewrite_use re (key, v, c) st = Inr st'"
  shows "\<exists>new. rw_before st' = rw_before st @ new \<and>
    uses_inv re (sr_env S) i M0 (insert (key, v, c) seen) st' (run_machine (re_base re) sem junk new M)"
proof -
  obtain b where b: "bank_of c = Some b" using pl c by (auto simp: placed_def)
  have regs: "\<forall>b n. n \<notin> set (scratch_numbers b) \<longrightarrow> mc_regs M (b, n) = mc_regs M0 (b, n)"
    and slots: "mc_slots M = mc_slots M0" using inv by (simp_all add: uses_inv_def)
  show ?thesis
  proof (cases "re_assignments re v")
    case None
    then show ?thesis using pl by (auto simp: placed_def)
  next
    case (Some a)
    show ?thesis
    proof (cases a)
      case (Phys p)
      let ?r = "pool_reg b p c"
      have p: "p < pool_size b" using pl c b Some Phys by (auto simp: placed_def)
      have "read_reg ?r (mc_regs M) = view c (sr_env S v)"
        using h c b Some Phys read_pool_unchanged[OF regs p b] by (simp add: holds_def located_def)
      moreover have "usable_unit (rw_index st) (hw_unit ?r)"
        using pool_register_unit[OF p b] by (auto simp: usable_unit_def)
      moreover have "st' = st\<lparr>rw_inst := set_operand key ?r (rw_inst st)\<rparr>"
        using run b Some Phys p by (simp add: pool_register_pool)
      ultimately have "uses_inv re (sr_env S) i M0 (insert (key, v, c) seen) st' M"
        by (intro uses_inv_extend[OF inv new]) (use pool_register_class[OF p b] b Some Phys in simp_all)
      then show ?thesis using \<open>st' = _\<close> by (intro exI[of _ "[]"]) (simp add: run_machine_def)
    next
      case (Spill s)
      obtain r idx where nx: "next_spill_scratch (rw_index st) c = Inr (r, idx)"
        using run b Some Spill by (cases "next_spill_scratch (rw_index st) c") (auto split: prod.splits)
      note pr = next_spill_scratch_props[OF nx b]
      obtain restore y where st': "st' = st\<lparr>rw_index := idx, rw_before := rw_before st @ [restore],
          rw_inst := set_operand key r (rw_inst st), rw_scratch := (rw_scratch st)((key, v) \<mapsto> r)\<rparr>"
        and exec: "run_machine (re_base re) sem junk [restore] M = M\<lparr>mc_regs := write_reg r y (mc_regs M)\<rparr>"
        and y: "view c y = view c (sr_env S v)"
      proof (cases "re_remat re v")
        case None
        have "run_machine (re_base re) sem junk [ldr_sp_offset_sized (snd (spill_opcodes c)) r (spill_offset re s)] M =
            M\<lparr>mc_regs := write_reg r (load_slot c s (mc_slots M)) (mc_regs M)\<rparr>"
          using b by (simp add: run_machine_def exec_machine_def spill_form_reload)
        moreover have "view c (load_slot c s (mc_slots M)) = view c (sr_env S v)"
          using h c b Some Spill slots load_slot_view[of c] by (simp add: holds_def located_def)
        moreover have "st' = st\<lparr>rw_index := idx,
            rw_before := rw_before st @ [ldr_sp_offset_sized (snd (spill_opcodes c)) r (spill_offset re s)],
            rw_inst := set_operand key r (rw_inst st), rw_scratch := (rw_scratch st)((key, v) \<mapsto> r)\<rparr>"
          using run b Some Spill nx None by simp
        ultimately show ?thesis using that by blast
      next
        case (Some n)
        then have "executes_mov_imm sem" using sem unfolding sem_fits_def by blast
        moreover have "view c (of_nat n) = view c (sr_env S v)" using h c Some by (simp add: holds_def)
        moreover have "st' = st\<lparr>rw_index := idx, rw_before := rw_before st @ [mov_imm r n],
            rw_inst := set_operand key r (rw_inst st), rw_scratch := (rw_scratch st)((key, v) \<mapsto> r)\<rparr>"
          using run b \<open>re_assignments re v = Some a\<close> Spill nx Some by simp
        ultimately show ?thesis using that exec_remat by blast
      qed
      let ?M = "M\<lparr>mc_regs := write_reg r y (mc_regs M)\<rparr>"
      have val: "read_reg r (mc_regs ?M) = view c (sr_env S v)"
        using y pr(2,3) by (simp add: read_write_same)
      have old: "read_reg t (mc_regs ?M) = read_reg t (mc_regs M) \<and> usable_unit idx (hw_unit t)"
        if "usable_unit (rw_index st) (hw_unit t)" for t
      proof -
        have "hw_unit r \<noteq> hw_unit t" using usable_not_next[OF that pr(1)] pr(2) by metis
        moreover have "index_of e (rw_index st) \<le> index_of e idx" for e
          using pr(4) pr(5)[of e] by (cases "e = b") auto
        ultimately show ?thesis using that usable_mono by (auto simp: read_write_other)
      qed
      have "scratch_numbers b ! index_of b (rw_index st) \<in> set (scratch_numbers b)"
        using pr(1) scratch_numbers_props(1)[of b] by simp
      then have keep: "mc_regs ?M (e, n) = mc_regs M (e, n)" if "n \<notin> set (scratch_numbers e)" for e n
        using that pr(2) by (auto simp: write_reg_def)
      have own: "usable_unit idx (hw_unit r)" using pr by (auto simp: usable_unit_def)
      have sc: "scratch_unit c r"
        using pr(2,3) b \<open>scratch_numbers b ! _ \<in> _\<close> by (simp add: scratch_unit_def)
      have "uses_inv re (sr_env S) i M0 (insert (key, v, c) seen) st' ?M"
        by (rule uses_inv_extend[OF inv new pr(3) val]) (use sc own old keep st' Some Spill in simp_all)
      then show ?thesis using exec by (intro exI[of _ "[restore]"]) (simp add: st')
    qed
  qed
qed

text \<open>All uses of an instruction.\<close>

lemma run_machine_append:
  "run_machine base sem junk (xs @ ys) M = run_machine base sem junk ys (run_machine base sem junk xs M)"
  by (simp add: run_machine_def)

lemma rewrite_uses_inv:
  assumes "uses_inv re (sr_env S) i M0 seen st M" "distinct (map fst us)" "fst ` seen \<inter> fst ` set us = {}"
    and "\<And>key v c. (key, v, c) \<in> set us \<Longrightarrow> holds re classes v S M0 \<and> placed re classes v \<and> classes v = Some c"
    and "sem_fits re sem"
    and "try_fold (rewrite_use re) us st = Inr st'"
  shows "\<exists>new. rw_before st' = rw_before st @ new \<and>
    uses_inv re (sr_env S) i M0 (seen \<union> set us) st' (run_machine (re_base re) sem junk new M)"
  using assms
proof (induction us arbitrary: seen st M)
  case Nil
  then show ?case by (intro exI[of _ "[]"]) (simp add: run_machine_def)
next
  case (Cons x us)
  obtain key v c where x: "x = (key, v, c)" by (rule prod_cases3)
  obtain st1 where st1: "rewrite_use re (key, v, c) st = Inr st1" "try_fold (rewrite_use re) us st1 = Inr st'"
    using Cons.prems(6) x by (cases "rewrite_use re x st") auto
  have u: "holds re classes v S M0" "placed re classes v" "classes v = Some c" "key \<notin> fst ` seen"
    using Cons.prems(3,4) x by auto
  obtain n1 where n1: "rw_before st1 = rw_before st @ n1"
    "uses_inv re (sr_env S) i M0 (insert (key, v, c) seen) st1 (run_machine (re_base re) sem junk n1 M)"
    using rewrite_use_inv[OF Cons.prems(1) u(4,1,2,3) Cons.prems(5) st1(1)] by blast
  have "fst ` insert (key, v, c) seen \<inter> fst ` set us = {}" "distinct (map fst us)"
    using Cons.prems(2,3) x by (auto simp: image_iff)
  moreover have "holds re classes v S M0 \<and> placed re classes v \<and> classes v = Some c" if "(key, v, c) \<in> set us" for key v c
    by (rule Cons.prems(4)[of key v c]) (use that in simp)
  ultimately
  obtain n2 where n2: "rw_before st' = rw_before st1 @ n2"
    "uses_inv re (sr_env S) i M0 (insert (key, v, c) seen \<union> set us) st'
       (run_machine (re_base re) sem junk n2 (run_machine (re_base re) sem junk n1 M))"
    using Cons.IH[OF n1(2) _ _ _ Cons.prems(5) st1(2)] by blast
  show ?case
    using n1(1) n2 x by (intro exI[of _ "n1 @ n2"]) (simp add: run_machine_append)
qed

subsection \<open>Running a rewritten instruction\<close>

text \<open>The operand values agree.\<close>

lemma map_filter_cong: "(\<And>x. x \<in> set xs \<Longrightarrow> f x = g x) \<Longrightarrow> List.map_filter f xs = List.map_filter g xs"
  by (induction xs) (auto split: option.split)

lemma use_values_eq:
  assumes ok: "inst_ok classes base (opcode, i)"
    and inv: "uses_inv re (sr_env S) i M0 (set (virtual_use_operands (opcode, i))) st M"
    and out: "same_outside S M0"
  shows "use_values (\<lambda>r. read_reg r (mc_regs M)) opcode (rw_inst st) = use_values (read_source S) opcode i"
  unfolding use_values_def
proof (rule map_filter_cong)
  fix x assume x: "x \<in> set (operand_specs opcode)"
  obtain key k where k: "x = (key, k)" by fastforce
  let ?seen = "set (virtual_use_operands (opcode, i))"
  have mem: "(key, v, c) \<in> ?seen \<longleftrightarrow> operand key i = Some (Virtual v c) \<and> bank_of c \<noteq> None" if "k = Use" for v c
    using x k that by (simp add: virtual_use_operands_def virtual_operands_mem)
  have seenD: "operand key i = Some (Virtual v c)" if "(key, v, c) \<in> ?seen" for key v c
    using that by (simp add: virtual_use_operands_def virtual_operands_mem)
  have "map_option (\<lambda>r. (key, reg_class r, read_reg r (mc_regs M))) (operand key (rw_inst st))
      = map_option (\<lambda>r. (key, reg_class r, read_source S r)) (operand key i)" if use: "k = Use"
  proof (cases "operand key i")
    case None
    then have "key \<notin> fst ` ?seen" using seenD by force
    then show ?thesis using inv None by (simp add: uses_inv_def)
  next
    case (Some r)
    have op: "operand_ok classes r" using ok x k Some by auto
    show ?thesis
    proof (cases r)
      case (Virtual v c)
      then have "(key, v, c) \<in> ?seen" using mem[OF use] Some op by (simp add: operand_ok_def)
      then have "use_done re (sr_env S) st M (key, v, c)" using inv unfolding uses_inv_def by blast
      then show ?thesis using Some Virtual by (auto simp: read_source_def)
    next
      case (Physical p)
      have "key \<notin> fst ` ?seen" using seenD Some Physical by force
      then have "operand key (rw_inst st) = Some r" using inv Some by (simp add: uses_inv_def)
      moreover have "read_reg r (mc_regs M) = read_reg r (sr_regs S)"
      proof (cases "hw_unit r")
        case (Some u)
        then have "\<not> allocator_unit u" using op Physical by (simp add: operand_ok_def)
        then have "mc_regs M u = sr_regs S u"
          using inv out by (cases u) (simp add: uses_inv_def same_outside_def)
        then show ?thesis using Some by (simp add: read_reg_def)
      qed (simp add: read_reg_def)
      ultimately show ?thesis using Some Physical by (simp add: read_source_def)
    qed
  qed
  then show "(case x of (key, k) \<Rightarrow> if k = Use then map_option (\<lambda>r. (key, reg_class r, read_reg r (mc_regs M))) (operand key (rw_inst st)) else None)
      = (case x of (key, k) \<Rightarrow> if k = Use then map_option (\<lambda>r. (key, reg_class r, read_source S r)) (operand key i) else None)"
    by (simp add: k)
qed

text \<open>A value a call leaves alone.\<close>

definition kept_by_call :: "rewrite_env \<Rightarrow> (virtual_register \<rightharpoonup> register_class) \<Rightarrow> virtual_register \<Rightarrow> bool" where
  "kept_by_call re classes v \<longleftrightarrow> (\<forall>c b p. classes v = Some c \<and> bank_of c = Some b \<and> re_assignments re v = Some (Phys p) \<longrightarrow>
     survives_calls (b, pool_numbers b ! p) \<and> c \<noteq> Simd128)"

lemma view_survivor:
  assumes "bank_of c \<noteq> None" "c \<noteq> Simd128"
  shows "view c (push_bit 64 y OR take_bit 64 x) = view c (x :: val)"
proof -
  have "take_bit k (push_bit 64 y OR take_bit 64 x) = take_bit k x" if "k \<le> 64" for k
    by (rule bit_word_eqI) (use that in \<open>auto simp: bit_simps\<close>)
  then show ?thesis using assms by (cases c) simp_all
qed

lemma allocator_unit_pool: "n \<in> set (pool_numbers b) \<Longrightarrow> allocator_unit (b, n)"
  "n \<in> set (scratch_numbers b) \<Longrightarrow> allocator_unit (b, n)"
  by simp_all

lemma is_call_no_def: "is_call (opcode, i) \<Longrightarrow> (Rd, Def) \<notin> set (operand_specs opcode)"
  by auto

lemma read_pool_after_inst:
  assumes "p < pool_size b" "bank_of c = Some b"
    and "is_call m \<Longrightarrow> survives_calls (b, pool_numbers b ! p) \<and> c \<noteq> Simd128"
  shows "read_reg (pool_reg b p c) (after_inst junk m out regs) = read_reg (pool_reg b p c) regs"
proof -
  have u: "hw_unit (pool_reg b p c) = Some (b, pool_numbers b ! p)" by (rule hw_unit_pool_register[OF assms(1,2)])
  moreover have "allocator_unit (b, pool_numbers b ! p)"
    using assms(1) pool_numbers_props(1)[of b] by (intro allocator_unit_pool) simp
  ultimately show ?thesis
    using assms(2,3) by (simp add: read_reg_def after_inst_def view_survivor pool_register_class[OF assms(1,2)])
qed

lemma use_values_cong:
  assumes "\<And>key. (key, Use) \<in> set (operand_specs opcode) \<Longrightarrow> operand key i = operand key j"
  shows "use_values rdr opcode i = use_values rdr opcode j"
  unfolding use_values_def by (rule map_filter_cong) (auto simp: assms)

text \<open>The definition: at most the destination, in the value's register or in a scratch register.\<close>

lemma virtual_defs_shape:
  assumes "inst_ok classes base (opcode, i)"
  shows "virtual_def_operands (opcode, i) = (case def_register opcode i of Some (Virtual v c) \<Rightarrow> [(Rd, v, c)] | _ \<Rightarrow> [])"
proof -
  let ?d = "virtual_def_operands (opcode, i)"
  have mem: "(key, v, c) \<in> set ?d \<longleftrightarrow> key = Rd \<and> def_register opcode i = Some (Virtual v c)" for key v c
    using assms operand_specs_table(3)[of key opcode]
    by (auto simp: virtual_def_operands_def virtual_operands_mem def_register_def operand_ok_def split: if_splits)
  have dist: "distinct (map fst ?d)" by (simp add: virtual_def_operands_def virtual_operands_keys)
  show ?thesis
  proof (cases "\<exists>v c. def_register opcode i = Some (Virtual v c)")
    case True
    then obtain v c where d: "def_register opcode i = Some (Virtual v c)" by blast
    have "x = (Rd, v, c)" if "x \<in> set ?d" for x using mem that d by (cases x) auto
    moreover have "(Rd, v, c) \<in> set ?d" using mem d by simp
    ultimately have set: "set ?d = {(Rd, v, c)}" by blast
    have "distinct ?d" using dist by (simp add: distinct_map)
    then have "length ?d = 1" using distinct_card[of ?d] set by simp
    then show ?thesis using set d by (cases ?d) auto
  next
    case False
    then have "(key, v, c) \<notin> set ?d" for key v c using mem by blast
    then have "?d = []" by (cases ?d) auto
    then show ?thesis using False by (auto split: option.split register.split)
  qed
qed

lemma rewrite_def_inv:
  assumes inv: "uses_inv re (sr_env S) i M0 (set (virtual_use_operands (opcode, i))) st M"
    and pl: "placed re classes v" and c: "classes v = Some c"
    and d: "def_register opcode i = Some (Virtual v c)"
    and run: "rewrite_def re (Rd, v, c) st = Inr st'"
  shows "\<exists>r b. bank_of c = Some b \<and> rw_inst st' = set_operand Rd r (rw_inst st) \<and> rw_before st' = rw_before st \<and> reg_class r = c \<and>
     ((\<exists>p. p < pool_size b \<and> re_assignments re v = Some (Phys p) \<and> r = pool_reg b p c \<and> rw_after st' = []) \<or>
      (\<exists>s. re_assignments re v = Some (Spill s) \<and> scratch_unit c r \<and>
         rw_after st' = [str_sp_offset_sized (fst (spill_opcodes c)) r (spill_offset re s)])) \<and>
     (\<forall>key. (key, Use) \<in> set (operand_specs opcode) \<longrightarrow> operand key (rw_inst st') = operand key (rw_inst st))"
proof -
  let ?seen = "set (virtual_use_operands (opcode, i))"
  obtain b where b: "bank_of c = Some b" using pl c by (auto simp: placed_def)
  have rdi: "rd i = Some (Virtual v c)" using d by (auto simp: def_register_def split: if_splits)
  have used: "use_done re (sr_env S) st M (Rd, v, c)" if "(Rd, Use) \<in> set (operand_specs opcode)"
  proof -
    have "(Rd, v, c) \<in> ?seen" using that rdi b by (simp add: virtual_use_operands_def virtual_operands_mem)
    then show ?thesis using inv unfolding uses_inv_def by blast
  qed
  have after: "rw_after st = []" using inv by (simp add: uses_inv_def)
  have use_key: "operand key (set_operand Rd r (rw_inst st)) = operand key (rw_inst st)"
    if "(key, Use) \<in> set (operand_specs opcode)" "(Rd, Use) \<in> set (operand_specs opcode) \<Longrightarrow> operand Rd (rw_inst st) = Some r" for key r
    using that by (cases "key = Rd") (simp_all del: set_operand.simps operand.simps)
  show ?thesis
  proof (cases "\<exists>p. re_assignments re v = Some (Phys p)")
    case True
    then obtain p where p: "re_assignments re v = Some (Phys p)" "p < pool_size b"
      using pl c b by (auto simp: placed_def)
    then have "rw_inst st' = set_operand Rd (pool_reg b p c) (rw_inst st)" "rw_before st' = rw_before st" "rw_after st' = []"
      using run b after by (auto simp: pool_register_pool)
    moreover have "operand Rd (rw_inst st) = Some (pool_reg b p c)" if "(Rd, Use) \<in> set (operand_specs opcode)"
      using used[OF that] b p by auto
    ultimately show ?thesis using b p pool_register_class[OF p(2) b] use_key by metis
  next
    case False
    then obtain s where s: "re_assignments re v = Some (Spill s)" using pl by (auto simp: placed_def)
    obtain r idx where r: "(case rw_scratch st (Rd, v) of Some scratch \<Rightarrow> Inr (scratch, rw_index st)
          | None \<Rightarrow> next_spill_scratch (rw_index st) c) = Inr (r, idx)"
      and st': "rw_inst st' = set_operand Rd r (rw_inst st)" "rw_before st' = rw_before st"
        "rw_after st' = [str_sp_offset_sized (fst (spill_opcodes c)) r (spill_offset re s)]"
      using run b s after by (cases "case rw_scratch st (Rd, v) of Some scratch \<Rightarrow> Inr (scratch, rw_index st)
          | None \<Rightarrow> next_spill_scratch (rw_index st) c") (auto split: prod.splits)
    have "scratch_unit c r \<and> ((Rd, Use) \<in> set (operand_specs opcode) \<longrightarrow> operand Rd (rw_inst st) = Some r)"
    proof (cases "(Rd, Use) \<in> set (operand_specs opcode)")
      case True
      then show ?thesis using used[OF True] s r by auto
    next
      case False
      then have "Rd \<notin> fst ` ?seen" by (auto simp: virtual_use_operands_def virtual_operands_mem)
      then have "rw_scratch st (Rd, v) = None" using inv unfolding uses_inv_def by blast
      then have "next_spill_scratch (rw_index st) c = Inr (r, idx)" using r by simp
      from next_spill_scratch_props[OF this b] scratch_numbers_props(1)[of b] False b
      show ?thesis by (auto simp: scratch_unit_def)
    qed
    then have r: "scratch_unit c r" "(Rd, Use) \<in> set (operand_specs opcode) \<Longrightarrow> operand Rd (rw_inst st) = Some r"
      by blast+
    have "operand key (rw_inst st') = operand key (rw_inst st)" if "(key, Use) \<in> set (operand_specs opcode)" for key
      unfolding st'(1) by (rule use_key[OF that r(2)])
    then show ?thesis using b s st' r(1) unfolding scratch_unit_def by blast
  qed
qed

lemma holds_transfer:
  assumes "holds re classes w S M" "placed re classes w" "sr_env S' w = sr_env S w"
    and "\<And>c b p. classes w = Some c \<Longrightarrow> bank_of c = Some b \<Longrightarrow> re_assignments re w = Some (Phys p) \<Longrightarrow> p < pool_size b \<Longrightarrow>
      read_reg (pool_reg b p c) (mc_regs M') = read_reg (pool_reg b p c) (mc_regs M)"
    and "\<And>c s. classes w = Some c \<Longrightarrow> re_assignments re w = Some (Spill s) \<Longrightarrow>
      load_slot c s (mc_slots M') = load_slot c s (mc_slots M)"
  shows "holds re classes w S' M'"
  using assms by (auto simp: holds_def located_def placed_def)

text \<open>What one rewritten instruction is run under, and what it leaves behind.\<close>

definition inst_hyps ::
    "rewrite_env \<Rightarrow> (virtual_register \<rightharpoonup> register_class) \<Rightarrow> virtual_register set \<Rightarrow> machine_inst \<Rightarrow> bool" where
  "inst_hyps re classes live m \<longleftrightarrow> inst_ok classes (re_base re) m \<and>
     (\<forall>v \<in> live \<union> set (virtual_uses m) \<union> set (virtual_defs m). placed re classes v) \<and>
     (\<forall>v \<in> live. \<forall>d \<in> set (virtual_defs m). v \<noteq> d \<longrightarrow> separate re classes v d) \<and>
     (is_call m \<longrightarrow> (\<forall>v \<in> live. kept_by_call re classes v)) \<and>
     (\<forall>v \<in> set (virtual_defs m). \<forall>n. re_remat re v = Some n \<longrightarrow> fst m = IntOp A_MovImm \<and> imm (snd m) = Some n)"

text \<open>The state between the uses and the instruction itself, and the instruction's results.\<close>

definition after_uses ::
    "'w semantics \<Rightarrow> rewrite_env \<Rightarrow> (virtual_register \<rightharpoonup> register_class) \<Rightarrow> virtual_register set \<Rightarrow> machine_inst \<Rightarrow>
     'w source \<Rightarrow> 'w machine \<Rightarrow> rewrite_state \<Rightarrow> 'w machine \<Rightarrow> val \<Rightarrow> regs \<Rightarrow> 'w \<Rightarrow> bool" where
  "after_uses sem re classes live m S M st M1 x out w \<longleftrightarrow>
     inst_hyps re classes live m \<and> same_outside S M \<and>
     (\<forall>v \<in> live. v \<notin> set (virtual_defs m) \<longrightarrow> holds re classes v S M) \<and>
     uses_inv re (sr_env S) (snd m) M (set (virtual_use_operands m)) st M1 \<and>
     sem (fst m) (erase (snd m)) (use_values (read_source S) (fst m) (snd m)) (outside (sr_regs S)) (sr_world S) = (x, out, w)"

lemma after_usesD:
  assumes "after_uses sem re classes live (opcode, i) S M st M1 x out w"
  shows "inst_ok classes (re_base re) (opcode, i)" "same_outside S M"
    "uses_inv re (sr_env S) i M (set (virtual_use_operands (opcode, i))) st M1"
    "sem opcode (erase i) (use_values (read_source S) opcode i) (outside (sr_regs S)) (sr_world S) = (x, out, w)"
    "mc_slots M1 = mc_slots M" "rw_after st = []" "erase (rw_inst st) = erase i" "imm (rw_inst st) = imm i"
    "\<forall>b n. n \<notin> set (scratch_numbers b) \<longrightarrow> mc_regs M1 (b, n) = mc_regs M (b, n)"
  using assms by (simp_all add: after_uses_def inst_hyps_def uses_inv_def)

lemma exec_rewritten:
  assumes au: "after_uses sem re classes live (opcode, i) S M st M1 x out w"
    and j: "erase j = erase i" "imm j = imm i"
      "\<forall>key. (key, Use) \<in> set (operand_specs opcode) \<longrightarrow> operand key j = operand key (rw_inst st)"
  shows "exec_machine (re_base re) sem junk (opcode, j) M1 =
    (let regs = after_inst junk (opcode, i) out (mc_regs M1) in
     M1\<lparr>mc_regs := (case def_register opcode j of Some r \<Rightarrow> write_reg r x regs | None \<Rightarrow> regs), mc_world := w\<rparr>)"
proof -
  note ok = after_usesD(1)[OF au] and inv = after_usesD(3)[OF au] and out = after_usesD(2)[OF au] and sem = after_usesD(4)[OF au]
  have "outside (mc_regs M1) = outside (sr_regs S)"
  proof
    fix u :: "bank \<times> nat"
    obtain b n where u: "u = (b, n)" by fastforce
    show "outside (mc_regs M1) u = outside (sr_regs S) u"
      using inv out unfolding u outside_def uses_inv_def same_outside_def by auto
  qed
  moreover have "mc_world M1 = sr_world S" using inv out by (simp add: uses_inv_def same_outside_def)
  moreover have "use_values (\<lambda>r. read_reg r (mc_regs M1)) opcode j = use_values (read_source S) opcode i"
    using use_values_cong[of opcode j "rw_inst st"] j(3) use_values_eq[OF ok inv out] by simp
  moreover have "spill_form (re_base re) (opcode, j) = None"
    using ok j(2) by (auto split: option.split)
  moreover have "after_inst junk (opcode, j) = after_inst junk (opcode, i)"
    by (simp add: after_inst_def fun_eq_iff)
  ultimately show ?thesis
    using sem j(1) by (simp add: exec_machine_def del: spill_form.simps)
qed

text \<open>Values the instruction does not define stay where they are.\<close>

lemma other_value_held:
  assumes au: "after_uses sem re classes live m S M st M1 x out w" and v: "v \<in> live" "v \<notin> set (virtual_defs m)"
    and env: "sr_env S' v = sr_env S v"
    and regs: "\<And>c b p. classes v = Some c \<Longrightarrow> bank_of c = Some b \<Longrightarrow> re_assignments re v = Some (Phys p) \<Longrightarrow> p < pool_size b \<Longrightarrow>
      read_reg (pool_reg b p c) (mc_regs M') = read_reg (pool_reg b p c) (after_inst junk m out (mc_regs M1))"
    and slots: "\<And>c s. classes v = Some c \<Longrightarrow> re_assignments re v = Some (Spill s) \<Longrightarrow>
      load_slot c s (mc_slots M') = load_slot c s (mc_slots M)"
  shows "holds re classes v S' M'"
proof (rule holds_transfer[where S = S and M = M])
  show "holds re classes v S M" "placed re classes v" using au v by (simp_all add: after_uses_def inst_hyps_def)
  show "sr_env S' v = sr_env S v" by (rule env)
next
  fix c b p assume c: "classes v = Some c" "bank_of c = Some b" "re_assignments re v = Some (Phys p)" "p < pool_size b"
  have call: "is_call m \<Longrightarrow> survives_calls (b, pool_numbers b ! p) \<and> c \<noteq> Simd128"
    using au v c by (auto simp: after_uses_def inst_hyps_def kept_by_call_def)
  have fr: "\<forall>b n. n \<notin> set (scratch_numbers b) \<longrightarrow> mc_regs M1 (b, n) = mc_regs M (b, n)"
    using au by (simp add: after_uses_def uses_inv_def)
  show "read_reg (pool_reg b p c) (mc_regs M') = read_reg (pool_reg b p c) (mc_regs M)"
    using regs[OF c] read_pool_after_inst[where m = m, OF c(4,2) call] read_pool_unchanged[OF fr c(4,2)] by simp
qed (rule slots)

lemma after_inst_outside: "\<not> allocator_unit u \<Longrightarrow> after_inst junk m out regs u = out u"
  by (simp add: after_inst_def)

text \<open>An instruction that defines no virtual register.\<close>

lemma plain_def_simulates:
  assumes au: "after_uses sem re classes live (opcode, i) S M st M1 x out w"
    and nod: "\<And>v c. def_register opcode i \<noteq> Some (Virtual v c)"
  shows "same_outside (exec_source sem (opcode, i) S) (exec_machine (re_base re) sem junk (opcode, rw_inst st) M1) \<and>
    (\<forall>v \<in> live. holds re classes v (exec_source sem (opcode, i) S) (exec_machine (re_base re) sem junk (opcode, rw_inst st) M1))"
proof -
  note D = after_usesD[OF au]
  let ?R = "after_inst junk (opcode, i) out (mc_regs M1)"
  let ?regs = "case def_register opcode i of Some r \<Rightarrow> write_reg r x ?R | None \<Rightarrow> ?R"
  let ?S = "exec_source sem (opcode, i) S" and ?M = "exec_machine (re_base re) sem junk (opcode, rw_inst st) M1"
  have ds: "set (virtual_defs (opcode, i)) = {}"
    using virtual_defs_shape[OF D(1)] nod by (auto simp: virtual_defs_def split: option.splits register.splits)
  have "operand Rd (rw_inst st) = operand Rd i" if "(Rd, Def) \<in> set (operand_specs opcode)"
  proof -
    have "Rd \<notin> fst ` set (virtual_use_operands (opcode, i))"
      using nod that by (auto simp: virtual_use_operands_def virtual_operands_mem def_register_def)
    then show ?thesis using D(3) unfolding uses_inv_def by blast
  qed
  then have "def_register opcode (rw_inst st) = def_register opcode i" by (simp add: def_register_def)
  then have M': "?M = M1\<lparr>mc_regs := ?regs, mc_world := w\<rparr>"
    using exec_rewritten[OF au D(7,8)] by (simp add: Let_def)
  have unit: "(\<exists>p. r = Physical p) \<and> (\<forall>u. hw_unit r = Some u \<longrightarrow> \<not> allocator_unit u)" if "def_register opcode i = Some r" for r
  proof -
    have "(Rd, Def) \<in> set (operand_specs opcode)" "rd i = Some r"
      using that by (auto simp: def_register_def split: if_splits)
    then have "operand_ok classes r" using D(1) by force
    then show ?thesis using that nod by (cases r) (auto simp: operand_ok_def split: option.splits)
  qed
  have env: "sr_env ?S = sr_env S"
    using unit D(4) by (auto simp: write_source_def Let_def split: option.split)
  have same: "same_outside ?S ?M"
  proof (cases "def_register opcode i")
    case None
    then show ?thesis using D(4) by (simp add: M' same_outside_def after_inst_outside Let_def)
  next
    case (Some r)
    then obtain p where "r = Physical p" using unit by blast
    then show ?thesis using Some D(4)
      by (auto simp: M' same_outside_def after_inst_outside write_source_def write_reg_def Let_def split: option.split)
  qed
  have "holds re classes v ?S ?M" if v: "v \<in> live" for v
  proof (rule other_value_held[OF au v, where junk = junk])
    fix c b p assume c: "bank_of c = Some b" "p < pool_size b"
    then obtain n where n: "n \<in> set (pool_numbers b)" "hw_unit (pool_reg b p c) = Some (b, n)"
      using pool_register_unit by blast
    then have "hw_unit r \<noteq> hw_unit (pool_reg b p c)" if "def_register opcode i = Some r" for r
      using unit[OF that] by auto
    then show "read_reg (pool_reg b p c) (mc_regs ?M) = read_reg (pool_reg b p c) ?R"
      by (auto simp: M' read_write_other split: option.split)
  qed (use ds env D(5) in \<open>simp_all add: M'\<close>)
  then show ?thesis using same by blast
qed

text \<open>An instruction that defines a virtual register: the write to its register or scratch register.\<close>

lemma virtual_def_exec:
  assumes au: "after_uses sem re classes live (opcode, i) S M st M1 x out w"
    and d: "def_register opcode i = Some (Virtual v c)" and run: "rewrite_def re (Rd, v, c) st = Inr st'"
  shows "\<exists>r b u. bank_of c = Some b \<and> classes v = Some c \<and> reg_class r = c \<and> hw_unit r = Some u \<and> allocator_unit u \<and>
     rw_before st' = rw_before st \<and>
     exec_machine (re_base re) sem junk (opcode, rw_inst st') M1 =
       M1\<lparr>mc_regs := write_reg r x (after_inst junk (opcode, i) out (mc_regs M1)), mc_world := w\<rparr> \<and>
     exec_source sem (opcode, i) S =
       S\<lparr>sr_regs := (\<lambda>u. if allocator_unit u then sr_regs S u else out u), sr_world := w, sr_env := (sr_env S)(v := view c x)\<rparr> \<and>
     ((\<exists>p. p < pool_size b \<and> re_assignments re v = Some (Phys p) \<and> r = pool_reg b p c \<and> rw_after st' = []) \<or>
      (\<exists>s. re_assignments re v = Some (Spill s) \<and> scratch_unit c r \<and>
         rw_after st' = [str_sp_offset_sized (fst (spill_opcodes c)) r (spill_offset re s)]))"
proof -
  note D = after_usesD[OF au]
  have cv: "classes v = Some c"
    using D(1) d by (auto simp: def_register_def operand_ok_def split: if_splits)
  have "v \<in> set (virtual_defs (opcode, i))"
    using virtual_defs_shape[OF D(1)] d by (simp add: virtual_defs_def)
  then have pl: "placed re classes v" using au by (simp add: after_uses_def inst_hyps_def)
  obtain r b where r: "bank_of c = Some b" "rw_inst st' = set_operand Rd r (rw_inst st)" "rw_before st' = rw_before st" "reg_class r = c"
    "(\<exists>p. p < pool_size b \<and> re_assignments re v = Some (Phys p) \<and> r = pool_reg b p c \<and> rw_after st' = []) \<or>
     (\<exists>s. re_assignments re v = Some (Spill s) \<and> scratch_unit c r \<and>
        rw_after st' = [str_sp_offset_sized (fst (spill_opcodes c)) r (spill_offset re s)])"
    "\<forall>key. (key, Use) \<in> set (operand_specs opcode) \<longrightarrow> operand key (rw_inst st') = operand key (rw_inst st)"
    using rewrite_def_inv[OF D(3) pl cv d run] by blast
  have j: "erase (rw_inst st') = erase i" "imm (rw_inst st') = imm i"
    using D(7,8) unfolding r(2) by (simp_all del: set_operand.simps)
  have dj: "def_register opcode (rw_inst st') = Some r"
    using d by (simp add: r(2) def_register_def split: if_splits)
  have "exec_machine (re_base re) sem junk (opcode, rw_inst st') M1 =
      M1\<lparr>mc_regs := write_reg r x (after_inst junk (opcode, i) out (mc_regs M1)), mc_world := w\<rparr>"
    using exec_rewritten[OF au j r(6)] dj by (simp add: Let_def)
  moreover have "exec_source sem (opcode, i) S =
      S\<lparr>sr_regs := (\<lambda>u. if allocator_unit u then sr_regs S u else out u), sr_world := w, sr_env := (sr_env S)(v := view c x)\<rparr>"
    using D(4) d by (simp add: write_source_def Let_def)
  moreover have "\<exists>u. hw_unit r = Some u \<and> allocator_unit u"
    using r(1,5) pool_register_unit by (force simp: scratch_unit_def)
  ultimately show ?thesis using r(1,3,4,5) cv by blast
qed

lemma virtual_def_simulates:
  assumes au: "after_uses sem re classes live (opcode, i) S M st M1 x out w"
    and d: "def_register opcode i = Some (Virtual v c)" and run: "rewrite_def re (Rd, v, c) st = Inr st'"
    and sem: "sem_fits re sem"
    and M': "M' = run_machine (re_base re) sem junk (rw_after st') (exec_machine (re_base re) sem junk (opcode, rw_inst st') M1)"
  shows "same_outside (exec_source sem (opcode, i) S) M' \<and> (\<forall>y \<in> live. holds re classes y (exec_source sem (opcode, i) S) M')"
proof -
  note D = after_usesD[OF au]
  obtain r b u where r: "bank_of c = Some b" "classes v = Some c" "reg_class r = c" "hw_unit r = Some u" "allocator_unit u"
    and M2: "exec_machine (re_base re) sem junk (opcode, rw_inst st') M1 =
       M1\<lparr>mc_regs := write_reg r x (after_inst junk (opcode, i) out (mc_regs M1)), mc_world := w\<rparr>"
    and S': "exec_source sem (opcode, i) S =
       S\<lparr>sr_regs := (\<lambda>u. if allocator_unit u then sr_regs S u else out u), sr_world := w, sr_env := (sr_env S)(v := view c x)\<rparr>"
    and loc: "(\<exists>p. p < pool_size b \<and> re_assignments re v = Some (Phys p) \<and> r = pool_reg b p c \<and> rw_after st' = []) \<or>
      (\<exists>s. re_assignments re v = Some (Spill s) \<and> scratch_unit c r \<and>
         rw_after st' = [str_sp_offset_sized (fst (spill_opcodes c)) r (spill_offset re s)])"
    using virtual_def_exec[OF au d run, of junk] by blast
  let ?R = "after_inst junk (opcode, i) out (mc_regs M1)"
  have defs: "set (virtual_defs (opcode, i)) = {v}"
    using virtual_defs_shape[OF D(1)] d by (simp add: virtual_defs_def)
  have sep: "separate re classes y v" if "y \<in> live" "y \<noteq> v" for y
    using au that defs by (simp add: after_uses_def inst_hyps_def)
  have rx: "read_reg r (write_reg r x ?R) = view c x" using r(3,4) by (simp add: read_write_same)
  obtain sl where M3: "M' = M1\<lparr>mc_regs := write_reg r x ?R, mc_world := w, mc_slots := sl\<rparr>"
    and sl: "(\<exists>p. re_assignments re v = Some (Phys p) \<and> r = pool_reg b p c \<and> p < pool_size b) \<and> sl = mc_slots M1 \<or>
      (\<exists>s. re_assignments re v = Some (Spill s) \<and> scratch_unit c r \<and> sl = store_slot c s (view c x) (mc_slots M1))"
    using loc r(1) rx unfolding M' M2
    by (elim disjE exE conjE) (simp_all add: run_machine_def exec_machine_def spill_form_reload)
  have "same_outside (exec_source sem (opcode, i) S) M'"
    using r(4,5) unfolding S' by (auto simp: M3 same_outside_def write_reg_def after_inst_outside)
  moreover have "holds re classes y (exec_source sem (opcode, i) S) M'" if y: "y \<in> live" for y
  proof (cases "y = v")
    case True
    have "x = of_nat n" if "re_remat re v = Some n" for n
    proof -
      have "opcode = IntOp A_MovImm" "imm (erase i) = Some n"
        using au defs that by (auto simp: after_uses_def inst_hyps_def erase_def)
      moreover have "executes_mov_imm sem" using sem that by (auto simp: sem_fits_def)
      ultimately have "sem opcode (erase i) vals regs w' = (of_nat n, regs, w')" for vals regs w'
        by (simp add: executes_mov_imm_def)
      then show ?thesis using D(4) by simp
    qed
    then show ?thesis unfolding S' using True sl rx r(1,2) by (auto simp: holds_def located_def M3 load_store_slot)
  next
    case False
    show ?thesis
    proof (rule other_value_held[OF au y, where junk = junk])
      fix e g q assume q: "classes y = Some e" "bank_of e = Some g" "re_assignments re y = Some (Phys q)" "q < pool_size g"
      have "hw_unit r \<noteq> hw_unit (pool_reg g q e)" if "scratch_unit c r"
        using that pool_register_unit[OF q(4,2)] scratch_not_pool by (fastforce simp: scratch_unit_def)
      moreover have "hw_unit r \<noteq> hw_unit (pool_reg g q e)" if "re_assignments re v = Some (Phys p)" "r = pool_reg b p c" for p
        using sep[OF y False] q r(1,2) that unfolding separate_def by metis
      ultimately show "read_reg (pool_reg g q e) (mc_regs M') = read_reg (pool_reg g q e) ?R"
        using sl by (auto simp: M3 read_write_other)
    next
      fix e t assume t: "classes y = Some e" "re_assignments re y = Some (Spill t)"
      have "slots_of classes y t \<inter> slots_of classes v s = {}" if "re_assignments re v = Some (Spill s)" for s
        using sep[OF y False] that t(2) unfolding separate_def by blast
      then show "load_slot e t (mc_slots M') = load_slot e t (mc_slots M)"
        using sl t(1) r(2) D(5) by (auto simp: M3 slots_of_def load_store_other)
    qed (use False defs S' in \<open>simp_all del: exec_source.simps\<close>)
  qed
  ultimately show ?thesis by blast
qed

lemma rewrite_inst_simulates:
  assumes run: "rewrite_inst re m = Inr ms" and hyps: "inst_hyps re classes live m"
    and sem: "sem_fits re sem" and out: "same_outside S M"
    and before: "\<And>v. v \<in> set (virtual_uses m) \<Longrightarrow> holds re classes v S M"
      "\<And>v. v \<in> live \<Longrightarrow> v \<notin> set (virtual_defs m) \<Longrightarrow> holds re classes v S M"
  shows "same_outside (exec_source sem m S) (run_machine (re_base re) sem junk ms M) \<and>
    (\<forall>v \<in> live. holds re classes v (exec_source sem m S) (run_machine (re_base re) sem junk ms M))"
proof -
  obtain opcode i where m: "m = (opcode, i)" by fastforce
  have ok: "inst_ok classes (re_base re) (opcode, i)" using hyps by (simp add: inst_hyps_def m)
  let ?us = "virtual_use_operands (opcode, i)" and ?ds = "virtual_def_operands (opcode, i)"
  let ?st0 = "\<lparr>rw_index = (0, 0), rw_scratch = Map.empty, rw_inst = i, rw_before = [], rw_after = []\<rparr>"
  obtain st1 st2 where st1: "try_fold (rewrite_use re) ?us ?st0 = Inr st1"
    and st2: "try_fold (rewrite_def re) ?ds st1 = Inr st2"
    and ms: "ms = rw_before st2 @ [(opcode, rw_inst st2)] @ rw_after st2"
    using run by (auto simp: rewrite_inst_def m split: sum.splits)
  have useD: "holds re classes v S M \<and> placed re classes v \<and> classes v = Some c" if "(key, v, c) \<in> set ?us" for key v c
  proof -
    have "v \<in> set (virtual_uses m)" using that by (force simp: virtual_uses_def m)
    moreover have "classes v = Some c"
      using that ok by (auto simp: virtual_use_operands_def virtual_operands_mem operand_ok_def)
    ultimately show ?thesis using before(1) hyps by (simp add: inst_hyps_def)
  qed
  have "uses_inv re (sr_env S) i M {} ?st0 M" by (simp add: uses_inv_def)
  moreover have "distinct (map fst ?us)" by (simp add: virtual_use_operands_def virtual_operands_keys)
  ultimately have inv: "uses_inv re (sr_env S) i M (set ?us) st1 (run_machine (re_base re) sem junk (rw_before st1) M)"
    using rewrite_uses_inv[of re S i M "{}" ?st0 M ?us classes sem st1] useD sem st1 by fastforce
  define M1 where "M1 = run_machine (re_base re) sem junk (rw_before st1) M"
  obtain x out' w where "sem opcode (erase i) (use_values (read_source S) opcode i) (outside (sr_regs S)) (sr_world S) = (x, out', w)"
    by (rule prod_cases3)
  then have au: "after_uses sem re classes live (opcode, i) S M st1 M1 x out' w"
    using hyps out before(2) inv by (simp add: after_uses_def m M1_def)
  show ?thesis
  proof (cases "\<exists>v c. def_register opcode i = Some (Virtual v c)")
    case False
    then have "?ds = []" using virtual_defs_shape[OF ok] by (auto split: option.splits register.splits)
    then have "st2 = st1" using st2 by simp
    then have "run_machine (re_base re) sem junk ms M = exec_machine (re_base re) sem junk (opcode, rw_inst st1) M1"
      using after_usesD(6)[OF au] by (simp add: ms run_machine_append M1_def[symmetric]) (simp add: run_machine_def)
    then show ?thesis using plain_def_simulates[OF au] False unfolding m by metis
  next
    case True
    then obtain v c where d: "def_register opcode i = Some (Virtual v c)" by blast
    then have r2: "rewrite_def re (Rd, v, c) st1 = Inr st2"
      using st2 virtual_defs_shape[OF ok] by (auto split: sum.splits)
    have "rw_before st2 = rw_before st1" using virtual_def_exec[OF au d r2] by blast
    then have "run_machine (re_base re) sem junk ms M =
        run_machine (re_base re) sem junk (rw_after st2) (exec_machine (re_base re) sem junk (opcode, rw_inst st2) M1)"
      by (simp add: ms run_machine_append M1_def[symmetric]) (simp add: run_machine_def)
    from virtual_def_simulates[OF au d r2 sem this] show ?thesis unfolding m .
  qed
qed

subsection \<open>Blocks and paths\<close>

definition alloc_env :: "bool \<Rightarrow> function_liveness \<Rightarrow> scan_state \<Rightarrow> nat \<Rightarrow> rewrite_env" where
  "alloc_env remat fl st base =
     \<lparr>re_assignments = ss_assignments st, re_base = base, re_remat = rematerializable_imms remat fl\<rparr>"

definition function_classes :: "machine_block list \<Rightarrow> virtual_register \<rightharpoonup> register_class" where
  "function_classes blocks = fold inst_classes (concat (map mb_insts blocks)) Map.empty"

text \<open>
  What the code before allocation and its layout must satisfy: blocks end in terminators, instructions name no register of the
  allocator, every value has one class, and a value live across a call is live at some earlier instruction of the layout.
\<close>

definition code_ok :: "machine_block list \<Rightarrow> nat \<Rightarrow> bool" where
  "code_ok blocks base \<longleftrightarrow> ends_in_terminator blocks \<and>
     (\<forall>b < length blocks. \<forall>k < length (mb_insts (blocks ! b)).
        inst_ok (function_classes blocks) base (mb_insts (blocks ! b) ! k) \<and>
        (is_call (mb_insts (blocks ! b) ! k) \<longrightarrow>
           (\<forall>v. live_at blocks b (Suc k) v \<longrightarrow> (\<exists>b' k'. busy_at blocks b' k' v \<and> position blocks b' k' < position blocks b k))))"

lemma fl_classes_function:
  "allocate_registers lt zero weights blocks = Some (fl, st) \<Longrightarrow> fl_classes fl = function_classes blocks"
  by (rule collect_cases[of blocks]) (auto simp: function_classes_def dest: allocate_cases(1))

text \<open>The one definition of a value that is rematerialised.\<close>

lemma remat_definition:
  assumes a: "allocate_registers lt zero weights blocks = Some (fl, st)"
    and b: "b < length blocks" "k < length (mb_insts (blocks ! b))" "v \<in> set (virtual_defs (mb_insts (blocks ! b) ! k))"
    and r: "rematerializable_imms remat fl v = Some n"
  shows "fst (mb_insts (blocks ! b) ! k) = IntOp A_MovImm \<and> imm (snd (mb_insts (blocks ! b) ! k)) = Some n"
proof -
  have fl: "fl_insts fl = concat (map mb_insts blocks)" "fl_def_positions fl = positions virtual_defs (concat (map mb_insts blocks))"
    using allocate_cases(1)[OF a] by (auto simp: collect_live_intervals_def Let_def)
  note at = insts_at_position[OF b(1,2)]
  have "(position blocks b k, mb_insts (blocks ! b) ! k) \<in> set (enumerate 0 (concat (map mb_insts blocks)))"
    using at by (simp add: in_set_enumerate_eq)
  moreover have "count_list (virtual_defs (mb_insts (blocks ! b) ! k)) v \<noteq> 0" using b(3) by (simp add: count_list_0_iff)
  ultimately have "position blocks b k \<in> set (fl_def_positions fl v)"
    unfolding fl(2) positions_def set_concat set_map image_image
    by (intro UN_I[of "(position blocks b k, mb_insts (blocks ! b) ! k)"]) simp_all
  then show ?thesis using r at(2) by (auto simp: rematerializable_imms_def fl(1) split: if_splits list.splits)
qed

lemma busy_placed:
  assumes a: "allocate_registers lt zero weights blocks = Some (fl, st)" and busy: "busy_at blocks b k v"
  shows "placed (alloc_env remat fl st base) (fl_classes fl) v"
    and "v \<in> values_live_across_calls (fl_insts fl) (fl_intervals fl) \<Longrightarrow>
      kept_by_call (alloc_env remat fl st base) (fl_classes fl) v"
proof -
  let ?cc = "values_live_across_calls (fl_insts fl) (fl_intervals fl)"
  note run = allocate_cases[OF a]
  obtain i where i: "i \<in> set (fl_intervals fl)" "li_vreg i = v"
    using busy_covered[OF run(1) busy] by (auto simp: interval_covers_def)
  obtain t where inv: "scan_inv (fl_classes fl) ?cc none_held t (set (fl_intervals fl)) st"
    using linear_scan_inv[OF run(2,3)] by blast
  obtain c bk where c: "fl_classes fl v = Some c" "bank_of c = Some bk"
    using run(2) i by (auto simp: scan_input_ok_def vbank_def Option.bind_eq_None_conv)
  have al: "allowed (fl_classes fl) ?cc v bk p" if "ss_assignments st v = Some (Phys p)" for p
    using scan_invD(3)[OF inv] i c that by (auto simp: phys_ok_def vbank_def)
  obtain a where "ss_assignments st v = Some a" using scan_invD(6)[OF inv] i by blast
  then show "placed (alloc_env remat fl st base) (fl_classes fl) v"
    using al c by (cases a) (auto simp: placed_def alloc_env_def allowed_def)
  show "kept_by_call (alloc_env remat fl st base) (fl_classes fl) v" if "v \<in> ?cc"
    using al c that pool_number_saved(1)[of _ bk] by (auto simp: kept_by_call_def alloc_env_def allowed_def)
qed

lemma busy_separate:
  assumes a: "allocate_registers lt zero weights blocks = Some (fl, st)"
    and busy: "busy_at blocks b k v" "busy_at blocks b k w" "v \<noteq> w"
  shows "separate (alloc_env remat fl st base) (fl_classes fl) v w"
proof -
  note run = allocate_cases[OF a]
  obtain i j where i: "i \<in> set (fl_intervals fl)" "li_vreg i = v" "li_start i \<le> position blocks b k" "position blocks b k \<le> li_end i"
    and j: "j \<in> set (fl_intervals fl)" "li_vreg j = w" "li_start j \<le> position blocks b k" "position blocks b k \<le> li_end j"
    using busy_covered[OF run(1) busy(1)] busy_covered[OF run(1) busy(2)] unfolding interval_covers_def by blast
  have "\<not> apart i j" using i j by (simp add: apart_def)
  then have "hw_unit r \<noteq> hw_unit s"
    if "assigned_register (fl_classes fl) st v = Some r" "assigned_register (fl_classes fl) st w = Some s" for r s
    using linear_scan_unit_inj[OF run(2,3) i(1) j(1)] i(2) j(2) busy(3) that by blast
  moreover obtain t where "scan_inv (fl_classes fl) (values_live_across_calls (fl_insts fl) (fl_intervals fl))
      none_held t (set (fl_intervals fl)) st"
    using linear_scan_inv[OF run(2,3)] by blast
  then have "slots_of (fl_classes fl) v s \<inter> slots_of (fl_classes fl) w r = {}"
    if "ss_assignments st v = Some (Spill s)" "ss_assignments st w = Some (Spill r)" for s r
    using scan_invD(5) that busy(3) unfolding spills_ok_def by blast
  ultimately show ?thesis
    by (auto simp: separate_def alloc_env_def assigned_register_def)
qed

lemma inst_hyps_at:
  assumes a: "allocate_registers lt zero weights blocks = Some (fl, st)" and ok: "code_ok blocks base"
    and b: "b < length blocks" "k < length (mb_insts (blocks ! b))"
  shows "inst_hyps (alloc_env remat fl st base) (fl_classes fl) {v. live_at blocks b (Suc k) v} (mb_insts (blocks ! b) ! k)"
proof -
  let ?m = "mb_insts (blocks ! b) ! k"
  have busy: "busy_at blocks b k v" if "live_at blocks b (Suc k) v \<or> v \<in> set (virtual_uses ?m) \<or> v \<in> set (virtual_defs ?m)" for v
    using that b by (auto simp: busy_at_def)
  have "inst_ok (fl_classes fl) (re_base (alloc_env remat fl st base)) ?m"
    using ok b by (simp add: code_ok_def alloc_env_def fl_classes_function[OF a])
  moreover have "kept_by_call (alloc_env remat fl st base) (fl_classes fl) v" if l: "is_call ?m" "live_at blocks b (Suc k) v" for v
  proof (rule busy_placed(2)[OF a busy])
    obtain b' k' where "busy_at blocks b' k' v" "position blocks b' k' < position blocks b k"
      using ok b l unfolding code_ok_def by blast
    then show "v \<in> values_live_across_calls (fl_insts fl) (fl_intervals fl)"
      using crossing_complete[OF allocate_cases(1)[OF a] _ b l] ok by (simp add: code_ok_def)
  qed (use l in simp)
  moreover have "fst ?m = IntOp A_MovImm \<and> imm (snd ?m) = Some n"
    if "v \<in> set (virtual_defs ?m)" "re_remat (alloc_env remat fl st base) v = Some n" for v n
    using remat_definition[OF a b that(1), of remat n] that(2) by (simp add: alloc_env_def)
  ultimately show ?thesis
    using busy busy_placed(1)[OF a] busy_separate[OF a] unfolding inst_hyps_def by blast
qed

lemma block_simulates:
  assumes a: "allocate_registers lt zero weights blocks = Some (fl, st)" and ok: "code_ok blocks base" and sem: "sem_fits (alloc_env remat fl st base) sem"
    and rw: "try_map (rewrite_inst (alloc_env remat fl st base)) (mb_insts (blocks ! b)) = Inr mss" and b: "b < length blocks"
    and start: "same_outside S M" "\<forall>v. live_at blocks b 0 v \<longrightarrow> holds (alloc_env remat fl st base) (fl_classes fl) v S M"
    and k: "k \<le> length (mb_insts (blocks ! b))"
  shows "same_outside (fold (exec_source sem) (take k (mb_insts (blocks ! b))) S) (run_machine base sem junk (concat (take k mss)) M) \<and>
    (\<forall>v. live_at blocks b k v \<longrightarrow> holds (alloc_env remat fl st base) (fl_classes fl) v
       (fold (exec_source sem) (take k (mb_insts (blocks ! b))) S) (run_machine base sem junk (concat (take k mss)) M))"
  using k
proof (induction k)
  case 0
  then show ?case using start by (simp add: run_machine_def)
next
  case (Suc k)
  let ?m = "mb_insts (blocks ! b) ! k"
  let ?S = "fold (exec_source sem) (take k (mb_insts (blocks ! b))) S" and ?M = "run_machine base sem junk (concat (take k mss)) M"
  have k: "k < length (mb_insts (blocks ! b))" using Suc.prems by simp
  have nth: "length mss = length (mb_insts (blocks ! b))" "rewrite_inst (alloc_env remat fl st base) ?m = Inr (mss ! k)"
    using try_map_nth[OF rw] k by auto
  have IH: "same_outside ?S ?M" "\<And>v. live_at blocks b k v \<Longrightarrow> holds (alloc_env remat fl st base) (fl_classes fl) v ?S ?M"
    using Suc by auto
  have live: "live_at blocks b k v" if "v \<in> set (virtual_uses ?m) \<or> (live_at blocks b (Suc k) v \<and> v \<notin> set (virtual_defs ?m))" for v
    using that live_use[OF b k] live_step[OF b k] by blast
  have S': "fold (exec_source sem) (take (Suc k) (mb_insts (blocks ! b))) S = exec_source sem ?m ?S"
    using k by (simp add: take_Suc_conv_app_nth)
  have M': "run_machine base sem junk (concat (take (Suc k) mss)) M = run_machine base sem junk (mss ! k) ?M"
    using k nth(1) by (simp add: take_Suc_conv_app_nth run_machine_append)
  have base: "re_base (alloc_env remat fl st base) = base" by (simp add: alloc_env_def)
  have "same_outside (exec_source sem ?m ?S) (run_machine (re_base (alloc_env remat fl st base)) sem junk (mss ! k) ?M) \<and>
      (\<forall>v \<in> {v. live_at blocks b (Suc k) v}. holds (alloc_env remat fl st base) (fl_classes fl) v (exec_source sem ?m ?S)
         (run_machine (re_base (alloc_env remat fl st base)) sem junk (mss ! k) ?M))"
    by (rule rewrite_inst_simulates[OF nth(2) inst_hyps_at[OF a ok b k] sem IH(1)]) (use IH(2) live in auto)
  then show ?case unfolding S' M' base by blast
qed

text \<open>A path of the function: blocks that follow each other.\<close>

fun is_path :: "machine_block list \<Rightarrow> nat list \<Rightarrow> bool" where
  "is_path blocks [] \<longleftrightarrow> False"
| "is_path blocks [b] \<longleftrightarrow> b < length blocks"
| "is_path blocks (b # c # bs) \<longleftrightarrow> b < length blocks \<and> flows_to blocks b c \<and> is_path blocks (c # bs)"

definition path_insts :: "machine_block list \<Rightarrow> nat list \<Rightarrow> machine_inst list" where
  "path_insts blocks bs = concat (map (\<lambda>b. mb_insts (blocks ! b)) bs)"

lemma path_insts_Cons: "path_insts blocks (b # bs) = mb_insts (blocks ! b) @ path_insts blocks bs"
  by (simp add: path_insts_def)

text \<open>\<open>related\<close>: the runs agree outside the allocator's registers, and the values live at a point are held.\<close>

definition related :: "machine_block list \<Rightarrow> rewrite_env \<Rightarrow> (virtual_register \<rightharpoonup> register_class) \<Rightarrow> nat \<Rightarrow> nat \<Rightarrow>
    'w source \<Rightarrow> 'w machine \<Rightarrow> bool" where
  "related blocks re classes b k S M \<longleftrightarrow>
     same_outside S M \<and> (\<forall>v. live_at blocks b k v \<longrightarrow> holds re classes v S M)"

lemma whole_block_simulates:
  assumes a: "allocate_registers lt zero weights blocks = Some (fl, st)" and ok: "code_ok blocks base" and sem: "sem_fits (alloc_env remat fl st base) sem"
    and rw: "rewrite_allocated_registers (alloc_env remat fl st base) blocks = Inr blocks'" and b: "b < length blocks"
    and start: "related blocks (alloc_env remat fl st base) (fl_classes fl) b 0 S M"
  shows "related blocks (alloc_env remat fl st base) (fl_classes fl) b (length (mb_insts (blocks ! b)))
    (fold (exec_source sem) (mb_insts (blocks ! b)) S) (run_machine base sem junk (mb_insts (blocks' ! b)) M)"
proof -
  have "rewrite_block (alloc_env remat fl st base) (blocks ! b) = Inr (blocks' ! b)"
    using try_map_nth[OF rw[unfolded rewrite_allocated_registers_def]] b by blast
  then obtain mss where mss: "try_map (rewrite_inst (alloc_env remat fl st base)) (mb_insts (blocks ! b)) = Inr mss"
    "mb_insts (blocks' ! b) = concat mss" using rewrite_block_cases by fastforce
  from start have "same_outside S M" "\<forall>v. live_at blocks b 0 v \<longrightarrow> holds (alloc_env remat fl st base) (fl_classes fl) v S M"
    by (simp_all add: related_def)
  from block_simulates[OF a ok sem mss(1) b this order_refl, of junk] show ?thesis
    using mss(2) try_map_nth[OF mss(1)] by (simp add: related_def)
qed

lemma related_edge:
  "b < length blocks \<Longrightarrow> flows_to blocks b c \<Longrightarrow> related blocks re classes b (length (mb_insts (blocks ! b))) S M \<Longrightarrow>
    related blocks re classes c 0 S M"
  unfolding related_def using live_edge by blast

lemma path_simulates:
  assumes "allocate_registers lt zero weights blocks = Some (fl, st)" and "code_ok blocks base"
    and "sem_fits (alloc_env remat fl st base) sem"
    and "rewrite_allocated_registers (alloc_env remat fl st base) blocks = Inr blocks'"
    and "is_path blocks bs" and "related blocks (alloc_env remat fl st base) (fl_classes fl) (hd bs) 0 S M"
  shows "related blocks (alloc_env remat fl st base) (fl_classes fl) (last bs) (length (mb_insts (blocks ! last bs)))
    (fold (exec_source sem) (path_insts blocks bs) S) (run_machine base sem junk (path_insts blocks' bs) M)"
  using assms(5,6)
proof (induction bs arbitrary: S M)
  case Nil
  then show ?case by simp
next
  case (Cons b bs)
  have b: "b < length blocks" using Cons.prems(1) by (cases bs) simp_all
  note step = whole_block_simulates[OF assms(1-4) b, of S M junk]
  show ?case
  proof (cases bs)
    case Nil
    then show ?thesis using step Cons.prems by (simp add: path_insts_def)
  next
    case (Cons c cs)
    have path: "flows_to blocks b c" "is_path blocks bs" using Cons.prems(1) Cons by simp_all
    then show ?thesis
      using Cons.IH[OF path(2)] related_edge[OF b path(1) step] Cons.prems(2) Cons
      by (simp add: path_insts_Cons run_machine_append)
  qed
qed

lemma code_ok_one_bank:
  assumes "code_ok blocks base"
  shows "one_bank blocks"
proof -
  have cls: "function_classes blocks v = Some c" if m: "(key, v, c) \<in> set (function_operands blocks)" for key v c
  proof -
    obtain bl m where bl: "bl \<in> set blocks" "m \<in> set (mb_insts bl)" "(key, v, c) \<in> set (virtual_use_operands m @ virtual_def_operands m)"
      using m by (auto simp: function_operands_def)
    obtain b k where "b < length blocks" "k < length (mb_insts (blocks ! b))" "m = mb_insts (blocks ! b) ! k"
      using bl(1,2) by (metis in_set_conv_nth)
    then have "inst_ok (function_classes blocks) base m" using assms by (simp add: code_ok_def)
    then show ?thesis using bl(3) by (cases m)
        (auto simp: virtual_use_operands_def virtual_def_operands_def virtual_operands_mem operand_ok_def)
  qed
  have "v \<noteq> v' \<or> bank_of c = bank_of c'"
    if "(key, v, c) \<in> set (function_operands blocks)" "(key', v', c') \<in> set (function_operands blocks)" for key v c key' v' c'
    using cls[OF that(1)] cls[OF that(2)] by auto
  then show ?thesis unfolding one_bank_def list_all_iff by blast
qed

text \<open>
  (C2) Register allocation preserves the program.  Take a function whose blocks end in terminators, whose instructions name no
  register or slot of the allocator, whose values have one class each, and in whose layout a value that is live across a call
  is live at an earlier instruction too (without the last condition this fails: see \<open>A64_Liveness\<close>).  Then the allocator returns,
  with rematerialisation or without, and along every path of the function, for every meaning of its instructions (with
  \<open>mov_imm\<close> what it says where constants are rematerialised): if registers and slots hold the values live at the start of the path,
  the new code runs to the same memory, flags and argument registers, and holds every value live at its end.
\<close>

theorem allocation_preserves_paths:
  assumes "allocate_registers lt zero weights (mf_blocks func) = Some (fl, st)"
    and "code_ok (mf_blocks func) (mf_stack_size func)" and "remat \<longrightarrow> executes_mov_imm sem"
    and "is_path (mf_blocks func) bs"
    and "related (mf_blocks func) (alloc_env remat fl st (mf_stack_size func)) (fl_classes fl) (hd bs) 0 S M"
  shows "\<exists>func'. allocate_function lt zero weights remat func = Inr func' \<and>
    related (mf_blocks func) (alloc_env remat fl st (mf_stack_size func)) (fl_classes fl) (last bs)
      (length (mb_insts (mf_blocks func ! last bs)))
      (fold (exec_source sem) (path_insts (mf_blocks func) bs) S)
      (run_machine (mf_stack_size func) sem junk (path_insts (mf_blocks func') bs) M)"
proof -
  let ?re = "alloc_env remat fl st (mf_stack_size func)"
  have "indices_in_pool ?re (mf_blocks func)"
    by (rule allocation_in_pool[OF assms(1) code_ok_one_bank[OF assms(2)]]) (simp add: alloc_env_def)
  then obtain blocks' where rw: "rewrite_allocated_registers ?re (mf_blocks func) = Inr blocks'"
    using rewrite_outcome[of ?re "mf_blocks func"] by (auto simp: outcome_def)
  then obtain func' where f: "allocate_function lt zero weights remat func = Inr func'" "mf_blocks func' = blocks'"
    using assms(1) by (simp add: allocate_function_def alloc_env_def)
  have "sem_fits ?re sem" using assms(3) by (auto simp: sem_fits_def alloc_env_def rematerializable_imms_def)
  from path_simulates[OF assms(1,2) this rw assms(4,5), of junk] show ?thesis using f by blast
qed

subsection \<open>The example\<close>

lemma live_in_uses:
  "live_at blocks b k v \<Longrightarrow> \<exists>b' < length blocks. \<exists>m \<in> set (mb_insts (blocks ! b')). v \<in> set (virtual_uses m)"
  by (induction rule: live_at.induct) (use nth_mem in blast)+

lemma loop_live: "live_at loop_blocks b k v \<Longrightarrow> v = VirtualRegister 7"
  by (drule live_in_uses) (auto simp: example_defs less_Suc_eq numeral_3_eq_3)

lemma loop_start: "\<not> live_at loop_blocks 0 0 v"
proof
  assume l: "live_at loop_blocks 0 0 v"
  then have v: "v = VirtualRegister 7" by (rule loop_live)
  from l show False by (rule live_atE) (use v in \<open>simp_all add: example_defs\<close>)
qed

text \<open>Every instruction yields its immediate.\<close>

definition immediates :: "unit semantics" where
  "immediates = (\<lambda>_ i _ regs w. (case imm i of Some n \<Rightarrow> of_nat n | None \<Rightarrow> 0, regs, w))"

definition loop_func :: machine_func where
  "loop_func = \<lparr>mf_blocks = loop_blocks, mf_stack_size = 0, mf_saved_regs = 0\<rparr>"

lemma loop_code_ok: "code_ok loop_blocks 0"
proof -
  have n: "length loop_blocks = 3" by (simp add: loop_blocks_def)
  have "ends_in_terminator loop_blocks" by (simp add: ends_in_terminator_def example_defs)
  moreover have cls: "function_classes loop_blocks (VirtualRegister 7) = Some Gpr64"
    by (simp add: function_classes_def inst_classes_def example_defs)
  then have "inst_ok (function_classes loop_blocks) 0 (mb_insts (loop_blocks ! b) ! k)"
    if "b < 3" "k < length (mb_insts (loop_blocks ! b))" for b k
    using that by (auto simp: less_Suc_eq numeral_3_eq_3 numeral_2_eq_2 example_defs operand_ok_def)
  moreover have "\<exists>b' k'. busy_at loop_blocks b' k' v \<and> position loop_blocks b' k' < position loop_blocks b k"
    if "b < 3" "k < length (mb_insts (loop_blocks ! b))" "is_call (mb_insts (loop_blocks ! b) ! k)" "live_at loop_blocks b (Suc k) v" for b k v
  proof -
    have "v = VirtualRegister 7" by (rule loop_live[OF that(4)])
    moreover have "b = 1"
      using that(1-3) by (auto simp: less_Suc_eq numeral_3_eq_3 example_defs)
    moreover have "busy_at loop_blocks 0 0 (VirtualRegister 7)" by (simp add: busy_at_def example_defs)
    moreover have "position loop_blocks 0 0 < position loop_blocks 1 k" by (simp add: position_def loop_blocks_def)
    ultimately show ?thesis by blast
  qed
  ultimately show ?thesis unfolding code_ok_def n by blast
qed

theorem allocation_preserves_paths_witness:
  "\<exists>fl st func'. allocate_function (<) (0::nat) (\<lambda>_. None) True loop_func = Inr func' \<and>
     related loop_blocks (alloc_env True fl st 0) (fl_classes fl) 1 2
       (fold (exec_source immediates) (path_insts loop_blocks [0, 1, 1])
          \<lparr>sr_env = \<lambda>_. 0, sr_regs = \<lambda>_. 0, sr_world = ()\<rparr>)
       (run_machine 0 immediates (\<lambda>_. 1) (path_insts (mf_blocks func') [0, 1, 1])
          \<lparr>mc_regs = \<lambda>_. 0, mc_slots = \<lambda>_. 0, mc_world = ()\<rparr>)"
proof -
  have func: "mf_blocks loop_func = loop_blocks" "mf_stack_size loop_func = 0" by (simp_all add: loop_func_def)
  obtain fl st where a: "allocate_registers (<) (0::nat) (\<lambda>_. None) (mf_blocks loop_func) = Some (fl, st)"
    using loop_allocated func by auto
  have ok: "code_ok (mf_blocks loop_func) (mf_stack_size loop_func)" using loop_code_ok func by simp
  have sem: "True \<longrightarrow> executes_mov_imm immediates" by (simp add: executes_mov_imm_def immediates_def)
  have flows: "flows_to loop_blocks 0 1" "flows_to loop_blocks 1 1"
    by (simp_all add: flows_to_def successor_set_def block_index_def example_defs)
  moreover have "length loop_blocks = 3" by (simp add: loop_blocks_def)
  ultimately have path: "is_path (mf_blocks loop_func) [0, 1, 1]" unfolding func by simp
  have "related (mf_blocks loop_func) (alloc_env True fl st (mf_stack_size loop_func)) (fl_classes fl) (hd [0, 1, 1]) 0
      \<lparr>sr_env = \<lambda>_. 0, sr_regs = \<lambda>_. 0, sr_world = ()\<rparr> \<lparr>mc_regs = \<lambda>_. 0, mc_slots = \<lambda>_. 0, mc_world = ()\<rparr>"
    unfolding func by (simp add: related_def same_outside_def loop_start)
  from allocation_preserves_paths[OF a ok sem path this, of "\<lambda>_. 1"] obtain func' where
    "allocate_function (<) (0::nat) (\<lambda>_. None) True loop_func = Inr func'"
    "related loop_blocks (alloc_env True fl st 0) (fl_classes fl) 1 (length (mb_insts (loop_blocks ! 1)))
      (fold (exec_source immediates) (path_insts loop_blocks [0, 1, 1])
          \<lparr>sr_env = \<lambda>_. 0, sr_regs = \<lambda>_. 0, sr_world = ()\<rparr>)
       (run_machine 0 immediates (\<lambda>_. 1) (path_insts (mf_blocks func') [0, 1, 1])
          \<lparr>mc_regs = \<lambda>_. 0, mc_slots = \<lambda>_. 0, mc_world = ()\<rparr>)" unfolding func by auto
  moreover have "length (mb_insts (loop_blocks ! 1)) = 2" by (simp add: loop_blocks_def)
  ultimately show ?thesis by metis
qed

end
