(* ===== verification/A64_Frame_Correct.thy ===== *)
theory A64_Frame_Correct
  imports A64_Frame A64_Rewrite_Correct
begin

text \<open>
  What the frame lowering means: the machine code runs on registers, a stack pointer and bytes of
  memory; large offsets are computed exactly, the prologue saves what the epilogues restore, and a
  run of the lowered function is a run of its body inside the frame.
\<close>

unbundle bit_operations_syntax

subsection \<open>Memory\<close>

type_synonym addr = "64 word"
type_synonym memory = "addr \<Rightarrow> 8 word"

text \<open>Little endian.\<close>

fun load_bytes :: "memory \<Rightarrow> addr \<Rightarrow> nat \<Rightarrow> val" where
  "load_bytes mem a 0 = 0"
| "load_bytes mem a (Suc n) = ucast (mem a) OR push_bit 8 (load_bytes mem (a + 1) n)"

definition store_bytes :: "memory \<Rightarrow> addr \<Rightarrow> nat \<Rightarrow> val \<Rightarrow> memory" where
  "store_bytes mem a n x =
     (\<lambda>p. if unat (p - a) < n then ucast (drop_bit (8 * unat (p - a)) x) else mem p)"

lemma load_bytes_cong:
  "(\<And>i. i < n \<Longrightarrow> mem (a + of_nat i) = mem' (a + of_nat i)) \<Longrightarrow> load_bytes mem a n = load_bytes mem' a n"
proof (induction n arbitrary: a)
  case (Suc n)
  have "mem (a + 1 + of_nat i) = mem' (a + 1 + of_nat i)" if "i < n" for i
    using Suc.prems[of "Suc i"] that by (simp add: add.assoc)
  then show ?case using Suc.IH[of "a + 1"] Suc.prems[of 0] by simp
qed simp

lemma load_store_offset:
  assumes "k + n \<le> m" "m < 2 ^ 64"
  shows "load_bytes (store_bytes mem a m x) (a + of_nat k) n = take_bit (8 * n) (drop_bit (8 * k) x)"
  using assms
proof (induction n arbitrary: k)
  case (Suc n)
  have u: "unat (of_nat k :: addr) = k" using Suc.prems by (simp add: unsigned_of_nat take_bit_nat_eq_self)
  have "load_bytes (store_bytes mem a m x) (a + of_nat (Suc k)) n = take_bit (8 * n) (drop_bit (8 * Suc k) x)"
    using Suc.IH[of "Suc k"] Suc.prems by simp
  moreover have "store_bytes mem a m x (a + of_nat k) = ucast (drop_bit (8 * k) x)"
    using Suc.prems u by (simp add: store_bytes_def)
  ultimately show ?case
    by (auto intro!: bit_word_eqI simp: bit_simps add.assoc add.commute[of 1] not_less dest: bit_imp_le_length)
qed simp

lemma load_store_same: "n < 2 ^ 64 \<Longrightarrow> load_bytes (store_bytes mem a n x) a n = take_bit (8 * n) x"
  using load_store_offset[of 0 n n mem a x] by simp

lemma load_store_apart:
  assumes "\<And>i. i < n \<Longrightarrow> \<not> unat (a + of_nat i - b) < m"
  shows "load_bytes (store_bytes mem b m x) a n = load_bytes mem a n"
  using assms by (intro load_bytes_cong) (simp add: store_bytes_def)

subsection \<open>Execution\<close>

record 'w frame_state =
  fs_regs :: regs
  fs_sp :: addr
  fs_mem :: memory
  fs_world :: 'w

text \<open>Whether an access stores, and its size, for the forms with the stack pointer and with a base register.\<close>

fun sp_access :: "a64_opcode \<Rightarrow> (bool \<times> nat) option" where
  "sp_access (MemOp A_StrSpOffset) = Some (True, 8)"
| "sp_access (MemOp A_LdrSpOffset) = Some (False, 8)"
| "sp_access (MemOp A_StrwSpOffset) = Some (True, 4)"
| "sp_access (MemOp A_LdrwSpOffset) = Some (False, 4)"
| "sp_access (MemOp A_StrhSpOffset) = Some (True, 2)"
| "sp_access (MemOp A_LdrhSpOffset) = Some (False, 2)"
| "sp_access (MemOp A_StrbSpOffset) = Some (True, 1)"
| "sp_access (MemOp A_LdrbSpOffset) = Some (False, 1)"
| "sp_access (FpMemOp A_StrdSpOffset) = Some (True, 8)"
| "sp_access (FpMemOp A_LdrdSpOffset) = Some (False, 8)"
| "sp_access (FpMemOp A_StrsSpOffset) = Some (True, 4)"
| "sp_access (FpMemOp A_LdrsSpOffset) = Some (False, 4)"
| "sp_access (FpMemOp A_StrqSpOffset) = Some (True, 16)"
| "sp_access (FpMemOp A_LdrqSpOffset) = Some (False, 16)"
| "sp_access opcode = None"

fun base_access :: "a64_opcode \<Rightarrow> (bool \<times> nat) option" where
  "base_access (MemOp A_StrRegOffset) = Some (True, 8)"
| "base_access (MemOp A_LdrRegOffset) = Some (False, 8)"
| "base_access (MemOp A_StrwRegOffset) = Some (True, 4)"
| "base_access (MemOp A_LdrwRegOffset) = Some (False, 4)"
| "base_access (MemOp A_StrhRegOffset) = Some (True, 2)"
| "base_access (MemOp A_LdrhRegOffset) = Some (False, 2)"
| "base_access (MemOp A_StrbRegOffset) = Some (True, 1)"
| "base_access (MemOp A_LdrbRegOffset) = Some (False, 1)"
| "base_access (FpMemOp A_StrdRegOffset) = Some (True, 8)"
| "base_access (FpMemOp A_LdrdRegOffset) = Some (False, 8)"
| "base_access (FpMemOp A_StrsRegOffset) = Some (True, 4)"
| "base_access (FpMemOp A_LdrsRegOffset) = Some (False, 4)"
| "base_access (FpMemOp A_StrqRegOffset) = Some (True, 16)"
| "base_access (FpMemOp A_LdrqRegOffset) = Some (False, 16)"
| "base_access opcode = None"

text \<open>The instructions the pass is about, with their operands.\<close>

datatype frame_op =
    SubSp nat
  | AddSp nat
  | PreStore register nat
  | PostLoad register nat
  | SpAddress register nat
  | SpAccess bool nat register nat
  | BaseAccess bool nat register register nat
  | StackArg register nat
  | WideZero register nat nat
  | WideKeep register nat nat
  | AddRegs register register register
  | Other

definition decode_access :: "a64_opcode \<Rightarrow> a64_inst \<Rightarrow> frame_op" where
  "decode_access opcode i = (case (rd i, imm i) of
     (Some r, Some n) \<Rightarrow>
       (case sp_access opcode of
          Some (is_store, bytes) \<Rightarrow> SpAccess is_store bytes r n
        | None \<Rightarrow>
            (case (base_access opcode, rn i) of
               (Some (is_store, bytes), Some b) \<Rightarrow> BaseAccess is_store bytes r b n
             | _ \<Rightarrow> Other))
   | _ \<Rightarrow> Other)"

definition decode :: "machine_inst \<Rightarrow> frame_op" where
  "decode m = (let i = snd m in case fst m of
     MemOp A_SubSpImm \<Rightarrow> (case imm i of Some n \<Rightarrow> SubSp n | None \<Rightarrow> Other)
   | MemOp A_AddSpImm \<Rightarrow> (case imm i of Some n \<Rightarrow> AddSp n | None \<Rightarrow> Other)
   | MemOp A_StrPreSp \<Rightarrow> (case (rd i, imm i) of (Some r, Some n) \<Rightarrow> PreStore r n | _ \<Rightarrow> Other)
   | MemOp A_LdrPostSp \<Rightarrow> (case (rd i, imm i) of (Some r, Some n) \<Rightarrow> PostLoad r n | _ \<Rightarrow> Other)
   | MemOp A_AddSpOffset \<Rightarrow> (case (rd i, imm i) of (Some r, Some n) \<Rightarrow> SpAddress r n | _ \<Rightarrow> Other)
   | MemOp A_LdrStackArg \<Rightarrow> (case rd i of Some r \<Rightarrow> StackArg r (imm_or_0 i) | None \<Rightarrow> Other)
   | IntOp A_Movz \<Rightarrow> (case (rd i, imm i, shift i) of (Some r, Some n, Some s) \<Rightarrow> WideZero r n s | _ \<Rightarrow> Other)
   | IntOp A_Movk \<Rightarrow> (case (rd i, imm i, shift i) of (Some r, Some n, Some s) \<Rightarrow> WideKeep r n s | _ \<Rightarrow> Other)
   | IntOp A_Add \<Rightarrow> (case (rd i, rn i, rm i) of (Some d, Some a, Some b) \<Rightarrow> AddRegs d a b | _ \<Rightarrow> Other)
   | opcode \<Rightarrow> decode_access opcode i)"

definition exec_access :: "bool \<Rightarrow> nat \<Rightarrow> register \<Rightarrow> addr \<Rightarrow> 'w frame_state \<Rightarrow> 'w frame_state" where
  "exec_access is_store n r a S =
     (if is_store then S\<lparr>fs_mem := store_bytes (fs_mem S) a n (read_reg r (fs_regs S))\<rparr>
      else S\<lparr>fs_regs := write_reg r (load_bytes (fs_mem S) a n) (fs_regs S)\<rparr>)"

definition set_reg :: "register \<Rightarrow> 64 word \<Rightarrow> 'w frame_state \<Rightarrow> 'w frame_state" where
  "set_reg r x S = S\<lparr>fs_regs := write_reg r (ucast x) (fs_regs S)\<rparr>"

definition get_reg :: "register \<Rightarrow> 'w frame_state \<Rightarrow> 64 word" where
  "get_reg r S = ucast (read_reg r (fs_regs S))"

text \<open>
  \<open>e\<close> is the stack pointer at the function's entry: incoming stack arguments are addressed from
  it.
\<close>

fun exec_op :: "addr \<Rightarrow> frame_op \<Rightarrow> 'w frame_state \<Rightarrow> 'w frame_state" where
  "exec_op e (SubSp n) S = S\<lparr>fs_sp := fs_sp S - of_nat n\<rparr>"
| "exec_op e (AddSp n) S = S\<lparr>fs_sp := fs_sp S + of_nat n\<rparr>"
| "exec_op e (PreStore r n) S = exec_access True 8 r (fs_sp S - of_nat n) (S\<lparr>fs_sp := fs_sp S - of_nat n\<rparr>)"
| "exec_op e (PostLoad r n) S = (exec_access False 8 r (fs_sp S) S)\<lparr>fs_sp := fs_sp S + of_nat n\<rparr>"
| "exec_op e (SpAddress r n) S = set_reg r (fs_sp S + of_nat n) S"
| "exec_op e (SpAccess is_store bytes r n) S = exec_access is_store bytes r (fs_sp S + of_nat n) S"
| "exec_op e (BaseAccess is_store bytes r b n) S = exec_access is_store bytes r (get_reg b S + of_nat n) S"
| "exec_op e (StackArg r n) S = exec_access False 8 r (e + of_nat n) S"
| "exec_op e (WideZero r n s) S = set_reg r (push_bit s (of_nat n)) S"
| "exec_op e (WideKeep r n s) S =
     set_reg r ((get_reg r S AND NOT (push_bit s 0xffff)) OR push_bit s (of_nat n)) S"
| "exec_op e (AddRegs d a b) S = set_reg d (get_reg a S + get_reg b S) S"
| "exec_op e Other S = S"

text \<open>Every other instruction does what \<open>sem\<close> says; the theorems hold for all of them.\<close>

type_synonym 'w frame_sem = "machine_inst \<Rightarrow> 'w frame_state \<Rightarrow> 'w frame_state"

definition exec_inst :: "addr \<Rightarrow> 'w frame_sem \<Rightarrow> machine_inst \<Rightarrow> 'w frame_state \<Rightarrow> 'w frame_state" where
  "exec_inst e sem m S = (if decode m = Other then sem m S else exec_op e (decode m) S)"

definition run_insts :: "addr \<Rightarrow> 'w frame_sem \<Rightarrow> machine_inst list \<Rightarrow> 'w frame_state \<Rightarrow> 'w frame_state" where
  "run_insts e sem ms S = fold (exec_inst e sem) ms S"

lemma run_insts_simps [simp]:
  "run_insts e sem [] S = S"
  "run_insts e sem (m # ms) S = run_insts e sem ms (exec_inst e sem m S)"
  "run_insts e sem (ms @ ms') S = run_insts e sem ms' (run_insts e sem ms S)"
  by (simp_all add: run_insts_def)

subsection \<open>Offsets in \<open>x16\<close>\<close>

text \<open>The intra-procedure-call registers.\<close>

definition ip_regs :: "(bank \<times> nat) set" where
  "ip_regs = {(BankGpr, 16), (BankGpr, 17)}"

lemma ip_units [simp]: "hw_unit X16 = Some (BankGpr, 16)" "hw_unit X17 = Some (BankGpr, 17)"
  "reg_class X16 = Gpr64" "reg_class X17 = Gpr64"
  by (simp_all add: X16_def X17_def gpr_def)

definition put_gpr :: "nat \<Rightarrow> 64 word \<Rightarrow> 'w frame_state \<Rightarrow> 'w frame_state" where
  "put_gpr n x S = S\<lparr>fs_regs := (fs_regs S)((BankGpr, n) := ucast x)\<rparr>"

lemma put_gpr_simps [simp]:
  "fs_sp (put_gpr n x S) = fs_sp S" "fs_mem (put_gpr n x S) = fs_mem S" "fs_world (put_gpr n x S) = fs_world S"
  "put_gpr n x (put_gpr n y S) = put_gpr n x S"
  by (simp_all add: put_gpr_def)

lemma take_bit_ucast64: "take_bit 64 (ucast (x :: 64 word) :: val) = ucast x"
  by (rule bit_word_eqI) (auto simp: bit_simps dest: bit_imp_le_length)

lemma set_gpr: "hw_unit r = Some (BankGpr, n) \<Longrightarrow> reg_class r = Gpr64 \<Longrightarrow> set_reg r x S = put_gpr n x S"
  by (simp add: set_reg_def write_reg_def put_gpr_def take_bit_ucast64)

lemma get_put_gpr:
  "hw_unit r = Some (BankGpr, n) \<Longrightarrow> reg_class r = Gpr64 \<Longrightarrow> get_reg r (put_gpr n x S) = x"
  by (rule bit_word_eqI)
    (auto simp: get_reg_def read_reg_def put_gpr_def bit_simps dest: bit_imp_le_length)

lemma decode_built [simp]:
  "decode (movz r v s) = WideZero r v s" "decode (movk r v s) = WideKeep r v s"
  "decode (binary (IntOp A_Add) d a b) = AddRegs d a b" "decode (sub_sp_imm n) = SubSp n"
  "decode (add_sp_imm n) = AddSp n" "decode (add_sp_offset r n) = SpAddress r n"
  "decode (ldr_sp_offset r n) = SpAccess False 8 r n"
  by (simp_all add: decode_def decode_access_def movz_def movk_def binary_def sub_sp_imm_def add_sp_imm_def
      add_sp_offset_def ldr_sp_offset_def ldr_sp_offset_sized_def blank_inst_def)

definition halves_below :: "nat \<Rightarrow> nat \<Rightarrow> 64 word" where
  "halves_below h v = take_bit (16 * h) (of_nat v)"

lemma movk_half:
  "(halves_below h v AND NOT (push_bit (16 * h) 0xffff)) OR push_bit (16 * h) (of_nat (take_bit 16 (drop_bit (16 * h) v)))
    = halves_below (Suc h) v"
proof (rule bit_word_eqI)
  fix n assume "n < LENGTH(64)"
  have m: "bit (0xffff :: 64 word) k \<longleftrightarrow> k < 16" for k
  proof -
    have "(0xffff :: 64 word) = mask 16" by (simp add: mask_eq_exp_minus_1)
    show ?thesis unfolding \<open>0xffff = mask 16\<close> bit_mask_iff by (auto simp: possible_bit_word)
  qed
  show "bit ((halves_below h v AND NOT (push_bit (16 * h) 0xffff)) OR
        push_bit (16 * h) (of_nat (take_bit 16 (drop_bit (16 * h) v)))) n = bit (halves_below (Suc h) v) n"
    using \<open>n < LENGTH(64)\<close> by (auto simp: halves_below_def bit_simps m)
qed

lemma movk_zero_half:
  assumes "take_bit 16 (drop_bit (16 * h) v) = 0"
  shows "halves_below (Suc h) v = halves_below h v"
proof -
  have "bit v n = False" if "16 * h \<le> n" "n < 16 * Suc h" for n
  proof -
    have "n - 16 * h < 16" using that by (simp add: less_diff_conv2)
    then have "bit (take_bit 16 (drop_bit (16 * h) v)) (n - 16 * h) = bit v n" using that by (simp add: bit_simps)
    then show ?thesis using assms by simp
  qed
  then have "n < 16 * h" if "bit v n" "n < 16 * Suc h" for n using that by (meson not_le)
  from this[simplified] show ?thesis by (auto intro!: bit_word_eqI simp: halves_below_def bit_simps)
qed

text \<open>The sequence puts the whole 64-bit offset into \<open>x16\<close>.\<close>

lemma run_materialize:
  "run_insts e sem (materialize_offset_in_x16 v) S = put_gpr 16 (of_nat v) S"
proof -
  define halves where "halves = (\<lambda>half. let bits = take_bit 16 (drop_bit (16 * half) v)
    in if bits \<noteq> 0 then [movk X16 bits (16 * half)] else [])"
  have step: "run_insts e sem (halves h) (put_gpr 16 (halves_below h v) S) = put_gpr 16 (halves_below (Suc h) v) S" for h
    using movk_half[of h v] movk_zero_half[of h v]
    by (simp add: halves_def Let_def exec_inst_def set_gpr get_put_gpr)
  have "halves_below 1 v = of_nat (take_bit 16 v)"
    by (auto simp: halves_below_def intro!: bit_word_eqI simp: bit_simps)
  then have "exec_inst e sem (movz X16 (take_bit 16 v) 0) S = put_gpr 16 (halves_below 1 v) S"
    by (simp add: exec_inst_def set_gpr)
  moreover have "halves_below 4 v = of_nat v" by (auto simp: halves_below_def intro!: bit_word_eqI simp: bit_simps)
  moreover have "materialize_offset_in_x16 v = movz X16 (take_bit 16 v) 0 # halves 1 @ halves 2 @ halves 3"
    by (simp add: materialize_offset_in_x16_def halves_def upt_rec Let_def)
  moreover have "run_insts e sem (halves 1) (put_gpr 16 (halves_below 1 v) S) = put_gpr 16 (halves_below 2 v) S"
    using step[of 1] by (simp add: numeral_2_eq_2)
  ultimately show ?thesis
    using step[of 2] step[of 3] by simp
qed

subsection \<open>Large offsets are computed exactly\<close>

text \<open>\<open>agree W\<close>: the same state but for the registers in \<open>W\<close>.\<close>

definition agree :: "(bank \<times> nat) set \<Rightarrow> 'w frame_state \<Rightarrow> 'w frame_state \<Rightarrow> bool" where
  "agree W S T \<longleftrightarrow> fs_sp S = fs_sp T \<and> fs_mem S = fs_mem T \<and> fs_world S = fs_world T \<and>
     (\<forall>u. u \<notin> W \<longrightarrow> fs_regs S u = fs_regs T u)"

definition inst_regs :: "operand_kind \<Rightarrow> machine_inst \<Rightarrow> (bank \<times> nat) set" where
  "inst_regs kind m = {u. \<exists>key r. (key, kind) \<in> set (operand_specs (fst m)) \<and> operand key (snd m) = Some r \<and> hw_unit r = Some u}"

text \<open>What an instruction does to \<open>x16\<close> and \<open>x17\<close> is determined by what it declares.\<close>

definition sem_ok :: "'w frame_sem \<Rightarrow> bool" where
  "sem_ok sem \<longleftrightarrow> (\<forall>m W S T. agree W S T \<and> W \<subseteq> ip_regs \<and> inst_regs Use m \<inter> W = {} \<longrightarrow>
     agree (W - inst_regs Def m) (sem m S) (sem m T))"

lemma agreeD:
  assumes "agree W S T"
  shows "fs_sp S = fs_sp T" "fs_mem S = fs_mem T" "fs_world S = fs_world T"
    "(\<And>u. hw_unit r = Some u \<Longrightarrow> u \<notin> W) \<Longrightarrow> read_reg r (fs_regs S) = read_reg r (fs_regs T)"
    "(\<And>u. hw_unit r = Some u \<Longrightarrow> u \<notin> W) \<Longrightarrow> get_reg r S = get_reg r T"
  using assms by (auto simp: agree_def read_reg_def get_reg_def split: option.split)

lemma agree_mono: "agree W S T \<Longrightarrow> W \<subseteq> V \<Longrightarrow> agree V S T"
  by (auto simp: agree_def)

lemma agree_write:
  "agree W S T \<Longrightarrow> agree (W - (case hw_unit r of Some u \<Rightarrow> {u} | None \<Rightarrow> {}))
     (S\<lparr>fs_regs := write_reg r x (fs_regs S)\<rparr>) (T\<lparr>fs_regs := write_reg r x (fs_regs T)\<rparr>)"
  by (auto simp: agree_def write_reg_def split: option.split)

text \<open>The registers a decoded instruction reads and writes.\<close>

fun op_reads :: "frame_op \<Rightarrow> register set" where
  "op_reads (PreStore r n) = {r}"
| "op_reads (SpAccess is_store bytes r n) = (if is_store then {r} else {})"
| "op_reads (BaseAccess is_store bytes r b n) = insert b (if is_store then {r} else {})"
| "op_reads (WideKeep r n s) = {r}"
| "op_reads (AddRegs d a b) = {a, b}"
| "op_reads opr = {}"

fun op_writes :: "frame_op \<Rightarrow> register set" where
  "op_writes (PostLoad r n) = {r}"
| "op_writes (SpAddress r n) = {r}"
| "op_writes (SpAccess is_store bytes r n) = (if is_store then {} else {r})"
| "op_writes (BaseAccess is_store bytes r b n) = (if is_store then {} else {r})"
| "op_writes (StackArg r n) = {r}"
| "op_writes (WideZero r n s) = {r}"
| "op_writes (WideKeep r n s) = {r}"
| "op_writes (AddRegs d a b) = {d}"
| "op_writes opr = {}"

lemma op_reads_inst:
  assumes "r \<in> op_reads (decode m)" "hw_unit r = Some u"
  shows "u \<in> inst_regs Use m"
proof -
  obtain opcode i where m: "m = (opcode, i)" by fastforce
  have "\<forall>r \<in> op_reads (decode (opcode, i)). \<exists>key. (key, Use) \<in> set (operand_specs opcode) \<and> operand key i = Some r"
  proof (cases opcode)
    case (IntOp x)
    then show ?thesis by (cases x) (auto simp: decode_def decode_access_def split: option.split)
  next
    case (FpMemOp x)
    then show ?thesis by (cases x) (auto simp: decode_def decode_access_def split: option.split)
  next
    case (MemOp x)
    then show ?thesis by (cases x) (auto simp: decode_def decode_access_def split: option.split)
  qed (auto simp: decode_def decode_access_def split: option.split)
  then show ?thesis using assms by (fastforce simp: m inst_regs_def)
qed

lemma op_writes_all:
  assumes "decode m \<noteq> Other" "u \<in> inst_regs Def m"
  shows "\<exists>r \<in> op_writes (decode m). hw_unit r = Some u"
proof -
  obtain opcode i where m: "m = (opcode, i)" by fastforce
  have "\<forall>(key, kind) \<in> set (operand_specs opcode). kind = Def \<longrightarrow> (case operand key i of None \<Rightarrow> True
      | Some r \<Rightarrow> r \<in> op_writes (decode (opcode, i)))"
    using assms(1) unfolding m
  proof (cases opcode)
    case (IntOp x)
    then show "decode (opcode, i) \<noteq> Other \<Longrightarrow> ?thesis"
      by (cases x) (auto simp: decode_def decode_access_def split: option.splits)
  next
    case (FpMemOp x)
    then show "decode (opcode, i) \<noteq> Other \<Longrightarrow> ?thesis"
      by (cases x) (auto simp: decode_def decode_access_def split: option.splits)
  next
    case (MemOp x)
    then show "decode (opcode, i) \<noteq> Other \<Longrightarrow> ?thesis"
      by (cases x) (auto simp: decode_def decode_access_def split: option.splits)
  qed (auto simp: decode_def decode_access_def split: option.splits)
  then show ?thesis using assms(2) by (fastforce simp: m inst_regs_def)
qed

definition units_of :: "register set \<Rightarrow> (bank \<times> nat) set" where
  "units_of rs = {u. \<exists>r \<in> rs. hw_unit r = Some u}"

lemma units_of_empty [simp]: "units_of {} = {}"
  by (simp add: units_of_def)

lemma units_of_single: "units_of {r} = (case hw_unit r of Some u \<Rightarrow> {u} | None \<Rightarrow> {})"
  by (auto simp: units_of_def split: option.split)

lemma agree_reads:
  assumes "agree W S T" "units_of rs \<inter> W = {}" "r \<in> rs"
  shows "read_reg r (fs_regs S) = read_reg r (fs_regs T)" "get_reg r S = get_reg r T"
  by (rule agreeD(4,5)[OF assms(1)], use assms(2,3) in \<open>auto simp: units_of_def\<close>)+

lemma exec_access_agree:
  assumes "agree W S T" "is_store \<Longrightarrow> units_of {r} \<inter> W = {}"
  shows "agree (W - units_of (if is_store then {} else {r})) (exec_access is_store n r a S) (exec_access is_store n r a T)"
proof (cases is_store)
  case True
  have "read_reg r (fs_regs S) = read_reg r (fs_regs T)" using agree_reads(1)[OF assms(1)] assms(2) True by blast
  then show ?thesis using True assms(1) by (simp add: exec_access_def agree_def)
next
  case False
  then show ?thesis using agree_write[OF assms(1), of r "load_bytes (fs_mem S) a n"] agreeD(2)[OF assms(1)]
    by (simp add: exec_access_def units_of_single)
qed

lemma set_reg_agree: "agree W S T \<Longrightarrow> agree (W - units_of {r}) (set_reg r x S) (set_reg r x T)"
  using agree_write[of W S T r "ucast x"] by (simp add: set_reg_def units_of_single)

lemma agree_sp: "agree W S T \<Longrightarrow> agree W (S\<lparr>fs_sp := a\<rparr>) (T\<lparr>fs_sp := a\<rparr>)"
  by (simp add: agree_def)

lemma exec_op_agree:
  assumes a: "agree W S T" and r: "units_of (op_reads opr) \<inter> W = {}"
  shows "agree (W - units_of (op_writes opr)) (exec_op e opr S) (exec_op e opr T)"
proof (cases opr)
  case (SpAccess st n r off)
  show ?thesis
    using exec_access_agree[OF a, of st r n "fs_sp S + of_nat off"] r agreeD(1)[OF a]
    unfolding SpAccess by (cases st) simp_all
next
  case (BaseAccess st n r b off)
  have b: "get_reg b S = get_reg b T" using agree_reads(2)[OF a r] BaseAccess by simp
  have "units_of {r} \<inter> W = {}" if st using r that BaseAccess by (auto simp: units_of_def)
  then show ?thesis
    using exec_access_agree[OF a, of st r n "get_reg b S + of_nat off"] b
    unfolding BaseAccess op_writes.simps exec_op.simps by simp
next
  case (PreStore r n)
  show ?thesis
    using exec_access_agree[OF agree_sp[OF a, of "fs_sp S - of_nat n"], of True r 8 "fs_sp S - of_nat n"] r agreeD(1)[OF a]
    unfolding PreStore by simp
next
  case (PostLoad r n)
  show ?thesis
    using agree_sp[OF exec_access_agree[OF a, of False r 8 "fs_sp S"]] agreeD(1)[OF a] unfolding PostLoad by simp
next
  case (StackArg r n)
  show ?thesis using exec_access_agree[OF a, of False r 8 "e + of_nat n"] unfolding StackArg by simp
next
  case (SpAddress r n)
  show ?thesis using set_reg_agree[OF a, of r "fs_sp S + of_nat n"] agreeD(1)[OF a] unfolding SpAddress by simp
next
  case (WideZero r n s)
  show ?thesis using set_reg_agree[OF a, of r "push_bit s (of_nat n)"] unfolding WideZero by simp
next
  case (WideKeep r n s)
  have "get_reg r S = get_reg r T" using agree_reads(2)[OF a r] WideKeep by simp
  then show ?thesis
    using set_reg_agree[OF a, of r "(get_reg r S AND NOT (push_bit s 0xffff)) OR push_bit s (of_nat n)"]
    unfolding WideKeep by simp
next
  case (AddRegs d x y)
  have "get_reg x S = get_reg x T" "get_reg y S = get_reg y T" using agree_reads(2)[OF a r] AddRegs by simp_all
  then show ?thesis using set_reg_agree[OF a, of d "get_reg x S + get_reg y S"] unfolding AddRegs by simp
qed (use a in \<open>simp_all add: agree_def\<close>)

lemma sem_okD:
  "sem_ok sem \<Longrightarrow> agree W S T \<Longrightarrow> W \<subseteq> ip_regs \<Longrightarrow> inst_regs Use m \<inter> W = {} \<Longrightarrow>
    agree (W - inst_regs Def m) (sem m S) (sem m T)"
  unfolding sem_ok_def by blast

lemma exec_inst_agree:
  assumes "sem_ok sem" "agree W S T" "W \<subseteq> ip_regs" "inst_regs Use m \<inter> W = {}"
  shows "agree (W - inst_regs Def m) (exec_inst e sem m S) (exec_inst e sem m T)"
proof (cases "decode m = Other")
  case True
  then show ?thesis using sem_okD[OF assms] by (simp add: exec_inst_def)
next
  case False
  have "units_of (op_reads (decode m)) \<subseteq> inst_regs Use m"
    unfolding units_of_def using op_reads_inst by blast
  moreover have defs: "inst_regs Def m \<subseteq> units_of (op_writes (decode m))"
    unfolding units_of_def using False op_writes_all by blast
  ultimately show ?thesis
    using exec_op_agree[OF assms(2), of "decode m" e] assms(4) False by (auto simp: exec_inst_def intro: agree_mono)
qed

text \<open>An instruction with a large offset does not touch \<open>x16\<close> and \<open>x17\<close>, and computes into an \<open>x\<close> register.\<close>

definition clear_of_ip :: "machine_inst \<Rightarrow> bool" where
  "clear_of_ip m \<longleftrightarrow> (\<forall>r. rd (snd m) = Some r \<longrightarrow> units_of {r} \<inter> ip_regs = {} \<and>
     (fst m = MemOp A_AddSpOffset \<longrightarrow> (\<exists>n. r = gpr n)))"

lemma reg_offset_form:
  "sp_mem_reg_offset_form opcode = Some (opcode', scale) \<Longrightarrow>
    \<exists>is_store. sp_access opcode = Some (is_store, scale) \<and> base_access opcode' = Some (is_store, scale) \<and>
      sp_access opcode' = None \<and> decode (opcode, i) = decode_access opcode i \<and> decode (opcode', j) = decode_access opcode' j"
  by (erule sp_mem_reg_offset_form.elims) (auto simp: decode_def)

lemma agree_put_ip: "n = 16 \<or> n = 17 \<Longrightarrow> agree ip_regs S T \<Longrightarrow> agree ip_regs S (put_gpr n x T)"
  by (auto simp: agree_def ip_regs_def put_gpr_def)

lemma legalize_address:
  assumes "rd i = Some r" "imm i = Some v" "r = gpr n" "n \<noteq> 16"
  shows "run_insts e sem ([(MemOp A_AddSpOffset, i\<lparr>imm := Some 0\<rparr>)] @ materialize_offset_in_x16 v @ [binary (IntOp A_Add) r r X16]) T
    = set_reg r (fs_sp T + of_nat v) (put_gpr 16 (of_nat v) T)"
proof -
  have r: "hw_unit r = Some (BankGpr, n)" "reg_class r = Gpr64" using assms(3) by (simp_all add: gpr_def)
  have "decode (MemOp A_AddSpOffset, i\<lparr>imm := Some 0\<rparr>) = SpAddress r 0" using assms by (simp add: decode_def)
  moreover have "get_reg r (put_gpr 16 x (put_gpr n y T)) = y" for x y
    using get_put_gpr[OF r, of y "put_gpr 16 x T"] assms(4) by (simp add: put_gpr_def fun_upd_twist)
  moreover have "put_gpr n z (put_gpr 16 x (put_gpr n y T)) = put_gpr n z (put_gpr 16 x T)" for x y z
    using assms(4) by (simp add: put_gpr_def fun_upd_twist)
  ultimately show ?thesis
    by (simp add: exec_inst_def run_materialize set_gpr[OF r] get_put_gpr)
qed

lemma legalize_access:
  assumes "sp_mem_reg_offset_form opcode = Some (opcode', scale)" "sp_access opcode = Some (is_store, scale)"
  shows "run_insts e sem ([add_sp_offset X17 0] @ materialize_offset_in_x16 v @
      [binary (IntOp A_Add) X17 X17 X16, ldr_reg_offset_sized opcode' r X17 0]) T
    = exec_access is_store scale r (fs_sp T + of_nat v)
        (put_gpr 17 (fs_sp T + of_nat v) (put_gpr 16 (of_nat v) T))"
proof -
  obtain st where st: "base_access opcode' = Some (st, scale)" "sp_access opcode = Some (st, scale)" "sp_access opcode' = None"
    "\<And>j. decode (opcode', j) = decode_access opcode' j"
    using reg_offset_form[OF assms(1)] by blast
  then have "decode (ldr_reg_offset_sized opcode' r X17 0) = BaseAccess is_store scale r X17 0"
    using assms(2) by (simp add: decode_access_def ldr_reg_offset_sized_def)
  moreover have "get_reg X17 (put_gpr 16 x (put_gpr 17 y T)) = y" for x y
    using get_put_gpr[of X17 17 y "put_gpr 16 x T"] by (simp add: put_gpr_def fun_upd_twist)
  moreover have "put_gpr 17 z (put_gpr 16 x (put_gpr 17 y T)) = put_gpr 17 z (put_gpr 16 x T)" for x y z
    by (simp add: put_gpr_def fun_upd_twist)
  ultimately show ?thesis
    by (simp add: exec_inst_def run_materialize set_gpr get_put_gpr)
qed

lemma legalize_inst_simulates:
  assumes l: "legalize_inst m = Inr ms" "ms \<noteq> [m]" and c: "clear_of_ip m" and a: "agree ip_regs S T"
  shows "agree ip_regs (exec_inst e sem m S) (run_insts e sem ms T)"
proof (cases "fst m = MemOp A_AddSpOffset")
  case True
  obtain v r where v: "imm (snd m) = Some v" "rd (snd m) = Some r"
    "ms = [(fst m, (snd m)\<lparr>imm := Some 0\<rparr>)] @ materialize_offset_in_x16 v @ [binary (IntOp A_Add) r r X16]"
    using l True by (auto simp: legalize_inst_def split: option.splits if_splits)
  obtain n where n: "r = gpr n" "units_of {r} \<inter> ip_regs = {}" using c True v(2) by (auto simp: clear_of_ip_def)
  then have "n \<noteq> 16" by (auto simp: units_of_def ip_regs_def gpr_def)
  then have "run_insts e sem ms T = set_reg r (fs_sp T + of_nat v) (put_gpr 16 (of_nat v) T)"
    using legalize_address[OF v(2,1) n(1)] v(3) True by metis
  moreover have "decode m = SpAddress r v" using True v by (simp add: decode_def)
  moreover have "agree ip_regs S (put_gpr 16 (of_nat v) T)" using a by (intro agree_put_ip) simp_all
  from set_reg_agree[OF this, of r "fs_sp S + of_nat v"]
  have "agree ip_regs (set_reg r (fs_sp S + of_nat v) S) (set_reg r (fs_sp S + of_nat v) (put_gpr 16 (of_nat v) T))"
    by (rule agree_mono) blast
  ultimately show ?thesis using agreeD(1)[OF a] by (simp add: exec_inst_def)
next
  case False
  then obtain opcode' scale v r where v: "sp_mem_reg_offset_form (fst m) = Some (opcode', scale)"
    "imm (snd m) = Some v" "rd (snd m) = Some r"
    "ms = [add_sp_offset X17 0] @ materialize_offset_in_x16 v @
       [binary (IntOp A_Add) X17 X17 X16, ldr_reg_offset_sized opcode' r X17 0]"
    using l by (auto simp: legalize_inst_def split: option.splits if_splits)
  obtain st where st: "sp_access (fst m) = Some (st, scale)" "decode (fst m, snd m) = decode_access (fst m) (snd m)"
    using reg_offset_form[OF v(1)] by blast
  then have "decode m = SpAccess st scale r v" using v by (simp add: decode_access_def)
  moreover have "agree ip_regs S (put_gpr 17 (fs_sp T + of_nat v) (put_gpr 16 (of_nat v) T))"
    using a by (intro agree_put_ip) simp_all
  moreover have "units_of {r} \<inter> ip_regs = {}" using c v(3) by (simp add: clear_of_ip_def)
  ultimately have "agree ip_regs (exec_inst e sem m S)
      (exec_access st scale r (fs_sp T + of_nat v) (put_gpr 17 (fs_sp T + of_nat v) (put_gpr 16 (of_nat v) T)))"
    using exec_access_agree[of ip_regs S "put_gpr 17 (fs_sp T + of_nat v) (put_gpr 16 (of_nat v) T)" st r scale "fs_sp T + of_nat v"]
      agreeD(1)[OF a] by (auto simp: exec_inst_def intro: agree_mono)
  then show ?thesis unfolding v(4) legalize_access[OF v(1) st(1)] .
qed

text \<open>
  Between a write of \<open>x16\<close> or \<open>x17\<close> and the read of it no large offset is computed; \<open>W\<close> is the set of
  those that have been overwritten.
\<close>

fun legal_safe :: "(bank \<times> nat) set \<Rightarrow> machine_inst list \<Rightarrow> bool" where
  "legal_safe W [] = True"
| "legal_safe W (m # ms) \<longleftrightarrow> inst_regs Use m \<inter> W = {} \<and>
     (if legalize_inst m = Inr [m] then legal_safe (W - inst_regs Def m) ms
      else clear_of_ip m \<and> legal_safe ip_regs ms)"

lemma legalize_list_simulates:
  assumes "sem_ok sem" "try_map legalize_inst ms = Inr mss" "legal_safe W ms" "agree W S T" "W \<subseteq> ip_regs"
  shows "agree ip_regs (run_insts e sem ms S) (run_insts e sem (concat mss) T)"
  using assms(2-5)
proof (induction ms arbitrary: mss W S T)
  case Nil
  then show ?case by (auto intro: agree_mono)
next
  case (Cons m ms)
  obtain ys zs where y: "legalize_inst m = Inr ys" "try_map legalize_inst ms = Inr zs" "mss = ys # zs"
    using Cons.prems(1) by (cases "legalize_inst m"; cases "try_map legalize_inst ms") auto
  show ?case
  proof (cases "ys = [m]")
    case True
    have "agree (W - inst_regs Def m) (exec_inst e sem m S) (exec_inst e sem m T)"
      by (rule exec_inst_agree[OF assms(1) Cons.prems(3,4)]) (use Cons.prems(2) in simp)
    then show ?thesis
      using Cons.IH[OF y(2), of "W - inst_regs Def m"] Cons.prems y True by (auto simp: Diff_subset_conv)
  next
    case False
    have "agree ip_regs (exec_inst e sem m S) (run_insts e sem ys T)"
      by (rule legalize_inst_simulates[OF y(1) False]) (use Cons.prems y False in \<open>auto intro: agree_mono\<close>)
    then show ?thesis using Cons.IH[OF y(2), of ip_regs] Cons.prems(2) y False by simp
  qed
qed

text \<open>
  (C29) Large stack offsets are computed exactly, whatever the other instructions do: the legalised code
  does what the code before does, but for the intra-procedure-call registers, provided that no
  large offset falls between a write of one of these and the read of it.
\<close>

theorem legalized_offsets_exact:
  assumes "legalize_large_sp_address_offsets ms = Inr ms'" and "sem_ok sem" and "legal_safe {} ms"
  shows "agree ip_regs (run_insts e sem ms S) (run_insts e sem ms' S)"
proof -
  obtain mss where "try_map legalize_inst ms = Inr mss" "ms' = concat mss"
    using assms(1) by (cases "try_map legalize_inst ms") (auto simp: legalize_large_sp_address_offsets_def)
  then show ?thesis using legalize_list_simulates[OF assms(2) _ assms(3), of mss S S e] by (simp add: agree_def)
qed

definition indirect_call :: "machine_inst list" where
  "indirect_call =
     [(IntOp A_Mov, blank_inst\<lparr>rd := Some X16, rm := Some (gpr 9)\<rparr>),
      add_sp_offset (gpr 8) 5000,
      (CtlOp A_Blr, blank_inst\<lparr>rn := Some X16\<rparr>)]"

text \<open>
  (C38) The proviso is needed: selection keeps the target of an indirect call in \<open>x16\<close> while it sets up
  the arguments, among them the address of the result in \<open>x8\<close>.  With a large frame the call goes to the
  offset of the result.
\<close>

theorem indirect_call_clobbered:
  "\<exists>ms. legalize_large_sp_address_offsets indirect_call = Inr (ms @ [(CtlOp A_Blr, blank_inst\<lparr>rn := Some X16\<rparr>)]) \<and>
     get_reg X16 (run_insts e sem ms S) = 5000"
proof -
  let ?mov = "(IntOp A_Mov, blank_inst\<lparr>rd := Some X16, rm := Some (gpr 9)\<rparr>)"
  let ?i = "snd (add_sp_offset (gpr 8) 5000)"
  let ?ms = "[(MemOp A_AddSpOffset, ?i\<lparr>imm := Some 0\<rparr>)] @ materialize_offset_in_x16 5000 @ [binary (IntOp A_Add) (gpr 8) (gpr 8) X16]"
  have "legalize_large_sp_address_offsets indirect_call = Inr ((?mov # ?ms) @ [(CtlOp A_Blr, blank_inst\<lparr>rn := Some X16\<rparr>)])"
    by (simp add: legalize_large_sp_address_offsets_def indirect_call_def legalize_inst_def add_sp_offset_def)
  moreover have "run_insts e sem ?ms T = set_reg (gpr 8) (fs_sp T + of_nat 5000) (put_gpr 16 (of_nat 5000) T)" for T :: "'a frame_state"
    by (rule legalize_address[where n = 8]) (simp_all add: add_sp_offset_def)
  then have "get_reg X16 (run_insts e sem (?mov # ?ms) S) = 5000"
    by (simp add: set_reg_def get_reg_def read_reg_def write_reg_def put_gpr_def gpr_def take_bit_ucast64)
  ultimately show ?thesis by blast
qed

subsection \<open>Prologue and epilogue\<close>

fun save_regs :: "register list \<Rightarrow> addr \<Rightarrow> regs \<Rightarrow> memory \<Rightarrow> memory" where
  "save_regs [] a regs mem = mem"
| "save_regs (r # rs) a regs mem = save_regs rs (a + 8) regs (store_bytes mem a 8 (read_reg r regs))"

fun restore_regs :: "register list \<Rightarrow> addr \<Rightarrow> memory \<Rightarrow> regs \<Rightarrow> regs" where
  "restore_regs [] a mem regs = regs"
| "restore_regs (r # rs) a mem regs = restore_regs rs (a + 8) mem (write_reg r (load_bytes mem a 8) regs)"

lemma save_regs_other: "\<not> unat (p - a) < 8 * length rs \<Longrightarrow> save_regs rs a regs mem p = mem p"
proof (induction rs arbitrary: a mem)
  case (Cons r rs)
  have "8 \<le> p - a" using Cons.prems by (simp add: word_le_nat_alt)
  then have "unat (p - a - 8) = unat (p - a) - 8" by (simp add: unat_sub)
  then have "unat (p - (a + 8)) = unat (p - a) - 8" by (simp add: diff_diff_eq)
  then show ?case using Cons by (simp add: store_bytes_def)
qed simp

lemma below_area:
  assumes "i < 8" "8 * n \<le> 2 ^ 64 - 8"
  shows "\<not> unat (a + of_nat i - (a + 8) :: addr) < 8 * n"
proof -
  have "unat (of_nat i :: addr) = i" using assms(1) by (simp add: unsigned_of_nat take_bit_nat_eq_self)
  then have "unat (of_nat i - 8 :: addr) = 2 ^ 64 + i - 8" using assms(1) by (simp add: unat_sub_if')
  then show ?thesis using assms(2) by simp
qed

lemma load_saved:
  assumes "k < length rs" "8 * length rs \<le> 2 ^ 64 - 8"
  shows "load_bytes (save_regs rs a regs mem) (a + of_nat (8 * k)) 8 = take_bit 64 (read_reg (rs ! k) regs)"
  using assms
proof (induction rs arbitrary: a mem k)
  case (Cons r rs)
  show ?case
  proof (cases k)
    case 0
    have "load_bytes (save_regs rs (a + 8) regs (store_bytes mem a 8 (read_reg r regs))) a 8 =
        load_bytes (store_bytes mem a 8 (read_reg r regs)) a 8"
      by (rule load_bytes_cong) (rule save_regs_other, rule below_area, use Cons.prems in simp_all)
    then show ?thesis using 0 load_store_same[of 8] by simp
  next
    case (Suc l)
    then show ?thesis using Cons.IH[of l "a + 8"] Cons.prems by (simp add: algebra_simps)
  qed
qed simp

lemma restore_other: "u \<notin> units_of (set rs) \<Longrightarrow> restore_regs rs a mem regs u = regs u"
  by (induction rs arbitrary: a regs) (auto simp: units_of_def write_reg_def split: option.split)

lemma restore_read:
  assumes "k < length rs" "distinct (map hw_unit rs)" "\<forall>r \<in> set rs. hw_unit r \<noteq> None"
  shows "read_reg (rs ! k) (restore_regs rs a mem regs) = view (reg_class (rs ! k)) (load_bytes mem (a + of_nat (8 * k)) 8)"
  using assms
proof (induction rs arbitrary: a regs k)
  case (Cons r rs)
  show ?case
  proof (cases k)
    case 0
    obtain u where u: "hw_unit r = Some u" using Cons.prems by auto
    have "u \<notin> units_of (set rs)"
    proof
      assume "u \<in> units_of (set rs)"
      then obtain s where "s \<in> set rs" "hw_unit s = Some u" by (auto simp: units_of_def)
      then show False using Cons.prems(2) u by (metis image_eqI list.set_map list.simps(9) distinct.simps(2))
    qed
    then show ?thesis using 0 u by (simp add: read_reg_def restore_other write_reg_def)
  next
    case (Suc l)
    then show ?thesis using Cons.IH[of l "a + 8"] Cons.prems by (simp add: algebra_simps)
  qed
qed simp

lemma run_sub_chunks: "run_insts e sem (map sub_sp_imm (stack_chunks n)) S = S\<lparr>fs_sp := fs_sp S - of_nat n\<rparr>"
proof (induction n arbitrary: S rule: stack_chunks.induct)
  case (1 bytes)
  show ?case
  proof (cases "bytes = 0")
    case False
    have "of_nat bytes = (of_nat (min bytes 4095) + of_nat (bytes - min bytes 4095) :: addr)"
      unfolding of_nat_add[symmetric] by simp
    then show ?thesis using 1[OF False] False stack_chunks.simps[of bytes]
      by (simp add: exec_inst_def diff_diff_eq del: min_def)
  qed (simp add: stack_chunks.simps)
qed

lemma run_add_sp: "run_insts e sem (map add_sp_imm ns) S = S\<lparr>fs_sp := fs_sp S + of_nat (sum_list ns)\<rparr>"
  by (induction ns arbitrary: S) (simp_all add: exec_inst_def add.assoc)

lemma sum_stack_chunks: "sum_list (stack_chunks n) = n"
proof (induction n rule: stack_chunks.induct)
  case (1 bytes)
  then show ?case by (cases "bytes = 0") (simp_all add: stack_chunks.simps[of bytes] stack_chunks.simps[of 0])
qed

text \<open>The slots from index \<open>k\<close> on.\<close>

definition slots_from :: "nat \<Rightarrow> register list \<Rightarrow> nat \<Rightarrow> (register \<times> a64_opcode \<times> a64_opcode \<times> nat) list" where
  "slots_from k saved stack_size =
     map (\<lambda>(index, r).
       if is_fpr r then (r, FpMemOp A_StrdSpOffset, FpMemOp A_LdrdSpOffset, stack_size + index * 8)
       else (r, MemOp A_StrSpOffset, MemOp A_LdrSpOffset, stack_size + index * 8))
       (enumerate k saved)"

lemma decode_slot [simp]:
  "decode (str_sp_offset_sized (FpMemOp A_StrdSpOffset) r n) = SpAccess True 8 r n"
  "decode (str_sp_offset_sized (MemOp A_StrSpOffset) r n) = SpAccess True 8 r n"
  "decode (ldr_sp_offset_sized (FpMemOp A_LdrdSpOffset) r n) = SpAccess False 8 r n"
  "decode (ldr_sp_offset_sized (MemOp A_LdrSpOffset) r n) = SpAccess False 8 r n"
  by (simp_all add: decode_def decode_access_def str_sp_offset_sized_def ldr_sp_offset_sized_def blank_inst_def)

lemma run_saves:
  "run_insts e sem (map (\<lambda>(r, store, load, offset). str_sp_offset_sized store r offset) (slots_from k saved st)) S
    = S\<lparr>fs_mem := save_regs saved (fs_sp S + of_nat (st + k * 8)) (fs_regs S) (fs_mem S)\<rparr>"
proof (induction saved arbitrary: S k)
  case (Cons r rs)
  have "fs_sp S + of_nat (st + k * 8) + 8 = fs_sp S + of_nat (st + Suc k * 8)" by (simp add: algebra_simps)
  then show ?case using Cons[of "Suc k"]
    by (simp add: slots_from_def exec_inst_def exec_access_def algebra_simps)
qed (simp add: slots_from_def)

lemma run_restores:
  "run_insts e sem (map (\<lambda>(r, store, load, offset). ldr_sp_offset_sized load r offset) (slots_from k saved st)) S
    = S\<lparr>fs_regs := restore_regs saved (fs_sp S + of_nat (st + k * 8)) (fs_mem S) (fs_regs S)\<rparr>"
proof (induction saved arbitrary: S k)
  case (Cons r rs)
  have "fs_sp S + of_nat (st + k * 8) + 8 = fs_sp S + of_nat (st + Suc k * 8)" by (simp add: algebra_simps)
  then show ?case using Cons[of "Suc k"]
    by (simp add: slots_from_def exec_inst_def exec_access_def algebra_simps)
qed (simp add: slots_from_def)

text \<open>What the prologue and an epilogue do, as functions on states.\<close>

definition enter_frame :: "nat \<Rightarrow> nat \<Rightarrow> register list \<Rightarrow> 'w frame_state \<Rightarrow> 'w frame_state" where
  "enter_frame frame st saved S =
     S\<lparr>fs_sp := fs_sp S - of_nat frame,
       fs_mem := save_regs saved (fs_sp S - of_nat frame + of_nat st) (fs_regs S) (fs_mem S)\<rparr>"

definition leave_frame :: "nat \<Rightarrow> nat \<Rightarrow> register list \<Rightarrow> 'w frame_state \<Rightarrow> 'w frame_state" where
  "leave_frame frame st saved S =
     S\<lparr>fs_sp := fs_sp S + of_nat frame,
       fs_regs := restore_regs saved (fs_sp S + of_nat st) (fs_mem S) (fs_regs S)\<rparr>"

lemma slots_from_0: "slots_from 0 saved st = save_slots saved st"
  by (simp add: slots_from_def save_slots_def)

lemma run_prologue: "run_insts e sem (prologue frame st saved) S = enter_frame frame st saved S"
  using run_saves[of e sem 0 saved st] by (simp add: prologue_def run_sub_chunks slots_from_0 enter_frame_def)

lemma run_epilogue: "run_insts e sem (epilogue frame st saved) S = leave_frame frame st saved S"
  using run_restores[of e sem 0 saved st]
  by (simp add: epilogue_def run_add_sp sum_stack_chunks slots_from_0 leave_frame_def)

text \<open>The save area, as seen from the stack pointer inside the frame.\<close>

definition in_save_area :: "nat \<Rightarrow> nat \<Rightarrow> addr \<Rightarrow> addr \<Rightarrow> bool" where
  "in_save_area st n sp p \<longleftrightarrow> unat (p - (sp + of_nat st)) < 8 * n"

lemma saved_registers_props:
  "distinct (map hw_unit (saved_registers m))" "\<forall>r \<in> set (saved_registers m). hw_unit r \<noteq> None \<and> view (reg_class r) = take_bit 64"
  "length (saved_registers m) \<le> 64"
proof -
  have "distinct (map (\<lambda>n. Some (BankGpr, n)) (filter P [0..<32]))" "distinct (map (\<lambda>n. Some (BankFpr, n)) (filter P [0..<32]))" for P
    by (simp_all add: distinct_map inj_on_def)
  then show "distinct (map hw_unit (saved_registers m))"
    by (auto simp: saved_registers_def gpr_def fpr64_def comp_def)
  show "\<forall>r \<in> set (saved_registers m). hw_unit r \<noteq> None \<and> view (reg_class r) = take_bit 64"
    by (auto simp: saved_registers_def gpr_def fpr64_def fun_eq_iff)
  have "length (filter P [0..<32]) \<le> 32" for P using length_filter_le[of P "[0..<32]"] by simp
  from add_mono[OF this this] show "length (saved_registers m) \<le> 64" by (simp add: saved_registers_def)
qed

lemma frame_restores:
  assumes "\<forall>p. in_save_area st (length saved) (fs_sp S - of_nat frame) p \<longrightarrow> fs_mem T p = fs_mem (enter_frame frame st saved S) p"
    and "fs_sp T = fs_sp S - of_nat frame" and "r \<in> set saved" and "saved = saved_registers m"
  shows "read_reg r (fs_regs (leave_frame frame st saved T)) = read_reg r (fs_regs S)"
proof -
  note props = saved_registers_props[of m, folded assms(4)]
  obtain k where k: "k < length saved" "r = saved ! k" using assms(3) by (metis in_set_conv_nth)
  let ?a = "fs_sp S - of_nat frame + of_nat st"
  have "load_bytes (fs_mem T) (?a + of_nat (8 * k)) 8 = load_bytes (save_regs saved ?a (fs_regs S) (fs_mem S)) (?a + of_nat (8 * k)) 8"
  proof (rule load_bytes_cong)
    fix i :: nat assume "i < 8"
    then have "8 * k + i < 8 * length saved" using k(1) by linarith
    moreover have "8 * k + i < 2 ^ 64" using k(1) props(3) \<open>i < 8\<close> by simp
    then have "unat (of_nat (8 * k + i) :: addr) = 8 * k + i" by (simp add: unsigned_of_nat take_bit_nat_eq_self del: of_nat_add of_nat_mult)
    ultimately have "in_save_area st (length saved) (fs_sp S - of_nat frame) (?a + of_nat (8 * k) + of_nat i)"
      by (simp add: in_save_area_def add.assoc)
    then show "fs_mem T (?a + of_nat (8 * k) + of_nat i) = save_regs saved ?a (fs_regs S) (fs_mem S) (?a + of_nat (8 * k) + of_nat i)"
      using assms(1) by (simp add: enter_frame_def)
  qed
  also have "\<dots> = take_bit 64 (read_reg (saved ! k) (fs_regs S))" using load_saved[OF k(1)] props(3) by simp
  finally have l: "load_bytes (fs_mem T) (?a + of_nat (8 * k)) 8 = take_bit 64 (read_reg r (fs_regs S))" using k(2) by simp
  have "read_reg r (fs_regs (leave_frame frame st saved T)) = view (reg_class r) (take_bit 64 (read_reg r (fs_regs S)))"
    using restore_read[OF k(1) props(1), of ?a "fs_mem T" "fs_regs T"] props(2) l k(2) assms(2) by (simp add: leave_frame_def)
  also have "\<dots> = read_reg r (fs_regs S)"
    using props(2) assms(3) by (auto simp: read_reg_def split: option.split)
  finally show ?thesis .
qed

subsection \<open>A run of a lowered function\<close>

definition rebase :: "nat \<Rightarrow> machine_inst \<Rightarrow> machine_inst" where
  "rebase bytes m = (case rewrite_stack_arg_load bytes m of Inr m' \<Rightarrow> m' | Inl e \<Rightarrow> m)"

lemma rebase_other: "fst m \<noteq> MemOp A_LdrStackArg \<Longrightarrow> rebase bytes m = m"
  by (simp add: rebase_def rewrite_stack_arg_load_def)

lemma rebase_load: "fst m = MemOp A_LdrStackArg \<Longrightarrow> fst (rebase bytes m) \<in> {MemOp A_LdrStackArg, MemOp A_LdrSpOffset}"
  by (auto simp: rebase_def rewrite_stack_arg_load_def ldr_sp_offset_def ldr_sp_offset_sized_def split: option.split)

lemma rebase_marks [simp]:
  "is_lr_save (rebase bytes m) = is_lr_save m" "is_lr_restore (rebase bytes m) = is_lr_restore m"
  "fst (rebase bytes m) = CtlOp A_Ret \<longleftrightarrow> fst m = CtlOp A_Ret"
  using rebase_other[of m bytes] rebase_load[of m bytes]
  by (cases "fst m = MemOp A_LdrStackArg"; auto simp: is_lr_save_def is_lr_restore_def)+

lemma is_mark_rebase [simp]: "is_mark (map (rebase bytes) xs) (rebase bytes m) = is_mark xs m"
  by (simp add: is_mark_def list_ex_iff)

lemma try_map_rebase: "try_map (rewrite_stack_arg_load bytes) ms = Inr ms' \<Longrightarrow> ms' = map (rebase bytes) ms"
proof (induction ms arbitrary: ms')
  case (Cons m ms)
  then show ?case
    by (cases "rewrite_stack_arg_load bytes m"; cases "try_map (rewrite_stack_arg_load bytes) ms") (auto simp: rebase_def)
qed simp

lemma decode_stack_arg: "fst m = MemOp A_LdrStackArg \<Longrightarrow> rd (snd m) = Some r \<Longrightarrow> decode m = StackArg r (imm_or_0 (snd m))"
  by (simp add: decode_def)

text \<open>Inside the frame, a rebased load of a stack argument reads where the original means to.\<close>

lemma exec_rebase:
  assumes "fs_sp S = e - of_nat bytes"
  shows "exec_inst e sem (rebase bytes m) S = exec_inst e sem m S"
proof (cases "fst m = MemOp A_LdrStackArg \<and> rd (snd m) \<noteq> None")
  case True
  then obtain r where r: "rd (snd m) = Some r" by blast
  have "rebase bytes m = ldr_sp_offset r (imm_or_0 (snd m) + bytes)"
    using True r by (simp add: rebase_def rewrite_stack_arg_load_def)
  then show ?thesis using decode_stack_arg[OF _ r] True assms by (simp add: exec_inst_def)
next
  case False
  then have "rebase bytes m = m" by (auto simp: rebase_def rewrite_stack_arg_load_def)
  then show ?thesis by simp
qed

definition keeps_sp :: "machine_inst \<Rightarrow> bool" where
  "keeps_sp m \<longleftrightarrow> (case decode m of SubSp n \<Rightarrow> False | AddSp n \<Rightarrow> False | PreStore r n \<Rightarrow> False
     | PostLoad r n \<Rightarrow> False | _ \<Rightarrow> True)"

definition sem_keeps_sp :: "'w frame_sem \<Rightarrow> bool" where
  "sem_keeps_sp sem \<longleftrightarrow> (\<forall>m S. fs_sp (sem m S) = fs_sp S)"

lemma sem_keeps_spD: "sem_keeps_sp sem \<Longrightarrow> fs_sp (sem m S) = fs_sp S"
  unfolding sem_keeps_sp_def by blast

lemma exec_keeps_sp: "sem_keeps_sp sem \<Longrightarrow> keeps_sp m \<Longrightarrow> fs_sp (exec_inst e sem m S) = fs_sp S"
  by (cases "decode m") (simp_all add: keeps_sp_def exec_inst_def sem_keeps_spD exec_access_def set_reg_def)

lemma run_rebase:
  assumes "sem_keeps_sp sem" "list_all keeps_sp ms" "fs_sp S = e - of_nat bytes"
  shows "run_insts e sem (map (rebase bytes) ms) S = run_insts e sem ms S \<and> fs_sp (run_insts e sem ms S) = fs_sp S"
  using assms(2,3)
proof (induction ms arbitrary: S)
  case (Cons m ms)
  have "fs_sp (exec_inst e sem m S) = fs_sp S" using exec_keeps_sp[OF assms(1)] Cons.prems by simp
  then show ?case using Cons.IH[of "exec_inst e sem m S"] Cons.prems exec_rebase[of S e bytes sem m] by simp
qed simp

definition framed :: "nat \<Rightarrow> nat \<Rightarrow> register list \<Rightarrow> nat \<Rightarrow> machine_inst list \<Rightarrow> machine_inst list" where
  "framed frame st saved k xs =
     insert_block_epilogues frame st saved (if k = 0 then insert_prologue frame st saved xs else xs)"

text \<open>The lowered blocks: rebased loads, prologue and epilogues, legal offsets.\<close>

lemma try_blocks_nth:
  assumes "try_blocks f blocks = Inr blocks'"
  shows "length blocks' = length blocks \<and> (\<forall>k < length blocks. f (mb_insts (blocks ! k)) = Inr (mb_insts (blocks' ! k)))"
proof -
  have "f (mb_insts (blocks ! k)) = Inr (mb_insts (blocks' ! k))" if "k < length blocks" for k
  proof -
    have "map_sum id (\<lambda>ms. (blocks ! k)\<lparr>mb_insts := ms\<rparr>) (f (mb_insts (blocks ! k))) = Inr (blocks' ! k)"
      using try_map_nth[OF assms[unfolded try_blocks_def]] that by blast
    then obtain ms where "f (mb_insts (blocks ! k)) = Inr ms" "blocks' ! k = (blocks ! k)\<lparr>mb_insts := ms\<rparr>"
      by (cases "f (mb_insts (blocks ! k))") auto
    then show ?thesis by simp
  qed
  then show ?thesis using try_map_nth[OF assms[unfolded try_blocks_def]] by blast
qed

lemma lower_blocks:
  assumes l: "lower_function_frame func = Inr func'" and f: "frame_size func \<noteq> 0" and k: "k < length (mf_blocks func)"
  defines "bytes \<equiv> frame_size func + link_register_save_bytes (mb_insts (mf_blocks func ! 0))"
  shows "legalize_large_sp_address_offsets (framed (frame_size func) (mf_stack_size func) (saved_registers (mf_saved_regs func)) k
      (map (rebase bytes) (mb_insts (mf_blocks func ! k)))) = Inr (mb_insts (mf_blocks func' ! k))"
proof -
  let ?F = "frame_size func" and ?st = "mf_stack_size func" and ?saved = "saved_registers (mf_saved_regs func)"
  obtain entry rest where e: "mf_blocks func = entry # rest" using k by (cases "mf_blocks func") auto
  have b: "bytes = ?F + link_register_save_bytes (mb_insts entry)" by (simp add: bytes_def e)
  obtain blocks where blocks: "try_blocks (try_map (rewrite_stack_arg_load bytes)) (mf_blocks func) = Inr blocks"
    using l f by (auto simp: lower_function_frame_def e b Let_def split: sum.splits)
  let ?fr = "map (\<lambda>b. b\<lparr>mb_insts := insert_block_epilogues ?F ?st ?saved (mb_insts b)\<rparr>)
    ((hd blocks)\<lparr>mb_insts := insert_prologue ?F ?st ?saved (mb_insts (hd blocks))\<rparr> # tl blocks)"
  have r: "length blocks = length (mf_blocks func)" "mb_insts (blocks ! k) = map (rebase bytes) (mb_insts (mf_blocks func ! k))"
    using try_blocks_nth[OF blocks] k try_map_rebase by blast+
  have "lower_function_frame func = (case try_blocks legalize_large_sp_address_offsets ?fr of
      Inl e \<Rightarrow> Inl e | Inr blocks' \<Rightarrow> Inr (func\<lparr>mf_blocks := blocks'\<rparr>))"
    using f blocks by (simp add: lower_function_frame_def e b Let_def)
  then obtain blocks' where b': "try_blocks legalize_large_sp_address_offsets ?fr = Inr blocks'" "mf_blocks func' = blocks'"
    using l by (cases "try_blocks legalize_large_sp_address_offsets ?fr") auto
  have nth: "mb_insts (?fr ! k) = framed ?F ?st ?saved k (mb_insts (blocks ! k))" "k < length ?fr"
    using k r(1) by (cases blocks; cases k; simp add: framed_def e)+
  have "legalize_large_sp_address_offsets (mb_insts (?fr ! k)) = Inr (mb_insts (blocks' ! k))"
    using try_blocks_nth[OF b'(1)] nth(2) by blast
  then show ?thesis unfolding nth(1) r(2) b'(2) .
qed

text \<open>
  A run of the function before lowering: from the entry block, never back to it, to the only place on
  the way where the frame is left, the mark \<open>m\<close>.
\<close>

definition one_return :: "machine_block list \<Rightarrow> nat list \<Rightarrow> machine_inst list \<Rightarrow> machine_inst \<Rightarrow> machine_inst list \<Rightarrow> bool" where
  "one_return blocks bs body m tail \<longleftrightarrow>
     bs \<noteq> [] \<and> hd bs = 0 \<and> 0 \<notin> set (tl bs) \<and> list_all (\<lambda>b. b < length blocks) bs \<and>
     list_all (\<lambda>b. \<not> list_ex (is_mark (mb_insts (blocks ! b))) (mb_insts (blocks ! b))) (butlast bs) \<and>
     (\<exists>pre. mb_insts (blocks ! last bs) = pre @ m # tail \<and> is_mark (mb_insts (blocks ! last bs)) m \<and>
        \<not> list_ex (is_mark (mb_insts (blocks ! last bs))) (pre @ tail)) \<and>
     path_insts blocks bs = takeWhile is_lr_save (mb_insts (blocks ! 0)) @ body @ m # tail"

definition framed_path :: "nat \<Rightarrow> nat \<Rightarrow> register list \<Rightarrow> nat \<Rightarrow> machine_block list \<Rightarrow> nat list \<Rightarrow> machine_inst list" where
  "framed_path frame st saved bytes blocks bs =
     concat (map (\<lambda>k. framed frame st saved k (map (rebase bytes) (mb_insts (blocks ! k)))) bs)"

text \<open>Epilogues go where a predicate holds.\<close>

definition insert_at :: "(machine_inst \<Rightarrow> bool) \<Rightarrow> machine_inst list \<Rightarrow> machine_inst list \<Rightarrow> machine_inst list" where
  "insert_at p ep ms = concat (map (\<lambda>m. if p m then ep @ [m] else [m]) ms)"

lemma insert_at_append [simp]: "insert_at p ep (xs @ ys) = insert_at p ep xs @ insert_at p ep ys"
  by (simp add: insert_at_def)

lemma insert_at_Cons [simp]: "insert_at p ep (m # ms) = (if p m then ep @ m # insert_at p ep ms else m # insert_at p ep ms)"
  by (simp add: insert_at_def)

lemma insert_at_none: "\<not> list_ex p ms \<Longrightarrow> insert_at p ep ms = ms"
  by (induction ms) (simp_all add: insert_at_def)

lemma block_epilogues: "insert_block_epilogues frame st saved ms = insert_at (is_mark ms) (epilogue frame st saved) ms"
  by (simp add: insert_block_epilogues_def insert_at_def)

lemma no_mark_in_prologue: "x \<in> set (prologue frame st saved) \<Longrightarrow> \<not> is_lr_restore x \<and> fst x \<noteq> CtlOp A_Ret"
  by (auto simp: prologue_def save_slots_def sub_sp_imm_def str_sp_offset_sized_def is_lr_restore_def split: if_splits)

lemma no_mark_in_saves: "x \<in> set (takeWhile is_lr_save ms) \<Longrightarrow> \<not> is_lr_restore x \<and> fst x \<noteq> CtlOp A_Ret"
  by (auto dest!: set_takeWhileD simp: is_lr_save_def is_lr_restore_def)

lemma is_mark_prologue: "is_mark (insert_prologue frame st saved ms) = is_mark ms"
proof -
  have "list_ex is_lr_restore ms = list_ex is_lr_restore (takeWhile is_lr_save ms @ dropWhile is_lr_save ms)" by simp
  then have "list_ex is_lr_restore (insert_prologue frame st saved ms) = list_ex is_lr_restore ms"
    using no_mark_in_prologue by (auto simp: insert_prologue_def list_ex_iff simp del: takeWhile_dropWhile_id)
  then show ?thesis by (simp add: is_mark_def fun_eq_iff)
qed

lemma framed_entry:
  "framed frame st saved 0 ms = takeWhile is_lr_save ms @ prologue frame st saved @
     insert_at (is_mark ms) (epilogue frame st saved) (dropWhile is_lr_save ms)"
proof -
  have "\<not> list_ex (is_mark ms) (takeWhile is_lr_save ms)" "\<not> list_ex (is_mark ms) (prologue frame st saved)"
    using no_mark_in_saves no_mark_in_prologue by (fastforce simp: list_ex_iff is_mark_def split: if_splits)+
  then show ?thesis
    by (simp add: framed_def block_epilogues is_mark_prologue insert_at_none) (simp add: insert_prologue_def insert_at_none)
qed

lemma framed_other: "k \<noteq> 0 \<Longrightarrow> framed frame st saved k ms = insert_at (is_mark ms) (epilogue frame st saved) ms"
  by (simp add: framed_def block_epilogues)

lemma no_mark_rebase:
  "list_ex (is_mark (map (rebase bytes) xs)) (map (rebase bytes) ys) = list_ex (is_mark xs) ys"
  by (simp add: list_ex_iff)

lemma takeWhile_rebase: "takeWhile is_lr_save (map (rebase bytes) xs) = takeWhile is_lr_save xs"
proof (induction xs)
  case (Cons x xs)
  have "rebase bytes x = x" if "is_lr_save x" using that by (intro rebase_other) (simp add: is_lr_save_def)
  then show ?case using Cons by simp
qed simp

lemma dropWhile_rebase: "dropWhile is_lr_save (map (rebase bytes) xs) = map (rebase bytes) (dropWhile is_lr_save xs)"
  by (induction xs) simp_all

lemma mark_props:
  "is_mark ms m \<Longrightarrow> \<not> is_lr_save m" "is_mark ms m \<Longrightarrow> rebase bytes m = m"
  by (auto simp: is_mark_def is_lr_restore_def is_lr_save_def intro!: rebase_other split: if_splits)

lemma insert_at_exit:
  assumes "is_mark xs m" "\<not> list_ex (is_mark xs) pre" "\<not> list_ex (is_mark xs) tail"
  shows "insert_at (is_mark (map (rebase bytes) xs)) ep (map (rebase bytes) (pre @ m # tail)) =
    map (rebase bytes) pre @ ep @ m # map (rebase bytes) tail"
proof -
  have "is_mark (map (rebase bytes) xs) m" using is_mark_rebase[of bytes xs m] mark_props(2)[OF assms(1)] assms(1) by metis
  moreover have "\<not> list_ex (is_mark (map (rebase bytes) xs)) (map (rebase bytes) pre)"
      "\<not> list_ex (is_mark (map (rebase bytes) xs)) (map (rebase bytes) tail)"
    using assms(2,3) no_mark_rebase by blast+
  ultimately show ?thesis using mark_props(2)[OF assms(1)] by (simp add: insert_at_none)
qed

lemma not_list_ex_dropWhile: "\<not> list_ex p ms \<Longrightarrow> \<not> list_ex p (dropWhile q ms)"
  by (auto simp: list_ex_iff dest: set_dropWhileD)

lemma insert_at_plain:
  "\<not> list_ex (is_mark xs) ys \<Longrightarrow>
    insert_at (is_mark (map (rebase bytes) xs)) ep (map (rebase bytes) ys) = map (rebase bytes) ys"
  by (rule insert_at_none) (simp only: no_mark_rebase not_False_eq_True)

lemma framed_path_eq:
  assumes "one_return blocks bs body m tail"
  shows "framed_path frame st saved bytes blocks bs = takeWhile is_lr_save (mb_insts (blocks ! 0)) @
    prologue frame st saved @ map (rebase bytes) body @ epilogue frame st saved @ m # map (rebase bytes) tail"
proof -
  let ?R = "map (rebase bytes)" and ?x = "\<lambda>b. mb_insts (blocks ! b)" and ?ep = "epilogue frame st saved"
  obtain pre where pre: "?x (last bs) = pre @ m # tail" "is_mark (?x (last bs)) m"
    "\<not> list_ex (is_mark (?x (last bs))) pre" "\<not> list_ex (is_mark (?x (last bs))) tail"
    using assms by (auto simp: one_return_def)
  obtain cs where bs: "bs = 0 # cs" using assms by (cases bs) (auto simp: one_return_def)
  have path: "path_insts blocks bs = takeWhile is_lr_save (?x 0) @ body @ m # tail" "0 \<notin> set cs"
    "\<forall>b \<in> set (butlast bs). \<not> list_ex (is_mark (?x b)) (?x b)"
    using assms bs by (simp_all add: one_return_def list_all_iff)
  show ?thesis
  proof (cases cs rule: rev_cases)
    case Nil
    then have x: "?x 0 = pre @ m # tail" using pre(1) bs by simp
    have d: "dropWhile is_lr_save (?x 0) = dropWhile is_lr_save pre @ m # tail"
      using mark_props(1)[OF pre(2)] by (simp add: x dropWhile_append3)
    have "takeWhile is_lr_save (?x 0) @ body @ m # tail = takeWhile is_lr_save (?x 0) @ dropWhile is_lr_save (?x 0)"
      using path(1) bs Nil by (simp add: path_insts_def)
    then have body: "body = dropWhile is_lr_save pre" by (simp add: d)
    have "insert_at (is_mark (?R (?x 0))) ?ep (?R (dropWhile is_lr_save (?x 0))) = ?R body @ ?ep @ m # ?R tail"
      unfolding d body by (rule insert_at_exit) (use pre(2,4) bs Nil not_list_ex_dropWhile[OF pre(3)] in simp_all)
    then show ?thesis using bs Nil
      by (simp add: framed_path_def framed_entry takeWhile_rebase dropWhile_rebase)
  next
    case (snoc ds l)
    have l: "last bs = l" "l \<noteq> 0" "butlast bs = 0 # ds" using bs snoc path(2) by auto
    have "takeWhile is_lr_save (?x 0) @ body @ m # tail =
        (takeWhile is_lr_save (?x 0) @ dropWhile is_lr_save (?x 0)) @ concat (map ?x ds) @ pre @ m # tail"
      using path(1) bs snoc pre(1) l(1) unfolding takeWhile_dropWhile_id by (simp add: path_insts_def)
    then have body: "body = dropWhile is_lr_save (?x 0) @ concat (map ?x ds) @ pre"
      by (simp del: takeWhile_dropWhile_id)
    have "framed frame st saved 0 (?R (?x 0)) = takeWhile is_lr_save (?x 0) @ prologue frame st saved @ ?R (dropWhile is_lr_save (?x 0))"
      using insert_at_plain[OF not_list_ex_dropWhile, of "?x 0" "?x 0" bytes ?ep is_lr_save] path(3) l(3)
      by (simp add: framed_entry takeWhile_rebase dropWhile_rebase)
    moreover have "framed frame st saved b (?R (?x b)) = ?R (?x b)" if "b \<in> set ds" for b
    proof -
      have "b \<noteq> 0" using path(2) snoc that by (metis Un_iff set_append)
      then show ?thesis
        using insert_at_plain[of "?x b" "?x b" bytes ?ep] framed_other[of b] path(3) l(3) that by simp
    qed
    then have "concat (map (\<lambda>b. framed frame st saved b (?R (?x b))) ds) = ?R (concat (map ?x ds))"
      by (simp add: map_concat cong: map_cong)
    moreover have "framed frame st saved l (?R (?x l)) = ?R pre @ ?ep @ m # ?R tail"
      using insert_at_exit[OF pre(2-4), of bytes ?ep, folded pre(1)] framed_other[OF l(2)] l(1) by simp
    ultimately show ?thesis using bs snoc by (simp add: framed_path_def body)
  qed
qed

lemma legalize_append:
  "legalize_large_sp_address_offsets xs = Inr xs' \<Longrightarrow> legalize_large_sp_address_offsets ys = Inr ys' \<Longrightarrow>
    legalize_large_sp_address_offsets (xs @ ys) = Inr (xs' @ ys')"
proof (induction xs arbitrary: xs')
  case (Cons x xs)
  obtain zs ws where z: "legalize_inst x = Inr zs" "try_map legalize_inst xs = Inr ws" "xs' = zs @ concat ws"
    using Cons.prems(1) unfolding legalize_large_sp_address_offsets_def
    by (cases "legalize_inst x"; cases "try_map legalize_inst xs") auto
  then have "legalize_large_sp_address_offsets (xs @ ys) = Inr (concat ws @ ys')"
    using Cons.IH[OF _ Cons.prems(2)] by (simp add: legalize_large_sp_address_offsets_def)
  then show ?case using z unfolding legalize_large_sp_address_offsets_def
    by (cases "try_map legalize_inst (xs @ ys)") auto
qed (auto simp: legalize_large_sp_address_offsets_def)

lemma legalize_path:
  assumes "\<And>b. b \<in> set bs \<Longrightarrow> legalize_large_sp_address_offsets (f b) = Inr (g b)"
  shows "legalize_large_sp_address_offsets (concat (map f bs)) = Inr (concat (map g bs))"
  using assms
proof (induction bs)
  case (Cons b bs)
  then show ?case using legalize_append[of "f b" "g b" "concat (map f bs)"] by simp
qed (simp add: legalize_large_sp_address_offsets_def)

lemma run_lr_save:
  assumes "sem_keeps_sp sem" "length (takeWhile is_lr_save ms) \<le> 1"
  shows "fs_sp (run_insts e sem (takeWhile is_lr_save ms) S) = fs_sp S - of_nat (link_register_save_bytes ms)"
proof (cases ms)
  case (Cons m ms')
  show ?thesis
  proof (cases "is_lr_save m")
    case True
    then have "takeWhile is_lr_save ms = [m]" using Cons assms(2) by (cases "takeWhile is_lr_save ms'") auto
    then show ?thesis using True Cons sem_keeps_spD[OF assms(1)]
      by (auto simp: exec_inst_def decode_def is_lr_save_def imm_or_0_def exec_access_def split: option.split)
  qed (use Cons in simp)
qed simp

text \<open>
  (C3) Frame lowering is right for a function with a frame.  Take a run of it from its entry, where the stack pointer is
  \<open>e\<close>, to a return, which does not come back to the entry block: it saves the link register (once, or not at all), runs
  \<open>body\<close>, and goes on with \<open>m\<close> and \<open>tail\<close>, in which no stack argument is read.  The instructions mean what they may
  (\<open>sem_ok\<close>, \<open>sem_keeps_sp\<close>: they use \<open>x16\<close> and \<open>x17\<close> only as they declare, and those without a stack effect of
  their own do not move the stack pointer).  Suppose the body leaves the stack pointer and the save area alone, and the scratch registers \<open>x16\<close> and
  \<open>x17\<close> are not live where an offset is too large for its instruction (\<open>legal_safe\<close>; an indirect call can break this, see
  \<open>indirect_call_clobbered\<close>).  Then the lowered code does the same on a frame below the saved link register, to the
  last register and byte but for \<open>x16\<close> and \<open>x17\<close>: its body reads the incoming stack arguments above \<open>e\<close>, the stack pointer is
  back where it was when \<open>m\<close> is reached, and every callee-saved register has its old value.
\<close>

theorem frame_lowering_correct:
  assumes "lower_function_frame func = Inr func'" and "frame_size func \<noteq> 0"
    and "sem_ok sem" "sem_keeps_sp sem"
    and "one_return (mf_blocks func) bs body m tail"
    and "length (takeWhile is_lr_save (mb_insts (mf_blocks func ! 0))) \<le> 1"
    and "list_all keeps_sp body" "list_all (\<lambda>m. fst m \<noteq> MemOp A_LdrStackArg) tail"
    and "saved = saved_registers (mf_saved_regs func)" "st = mf_stack_size func"
    and "bytes = frame_size func + link_register_save_bytes (mb_insts (mf_blocks func ! 0))"
    and "legal_safe {} (framed_path (frame_size func) st saved bytes (mf_blocks func) bs)"
    and "fs_sp S = e" "S1 = run_insts e sem (takeWhile is_lr_save (mb_insts (mf_blocks func ! 0))) S"
    and "S2 = enter_frame (frame_size func) st saved S1" "S3 = run_insts e sem body S2"
    and "\<forall>p. in_save_area st (length saved) (fs_sp S2) p \<longrightarrow> fs_mem S3 p = fs_mem S2 p"
    and "S4 = leave_frame (frame_size func) st saved S3"
  shows "agree ip_regs (run_insts e sem (m # tail) S4) (run_insts e sem (path_insts (mf_blocks func') bs) S) \<and>
    fs_sp S4 = fs_sp S1 \<and> list_all (\<lambda>r. read_reg r (fs_regs S4) = read_reg r (fs_regs S1)) saved"
proof -
  let ?F = "frame_size func" and ?blocks = "mf_blocks func"
  let ?sv = "takeWhile is_lr_save (mb_insts (?blocks ! 0))"
  have sp1: "fs_sp S1 = e - of_nat (link_register_save_bytes (mb_insts (?blocks ! 0)))"
    using run_lr_save[OF assms(4,6), of e S] assms(13,14) by simp
  then have sp2: "fs_sp S2 = e - of_nat bytes" using assms(11,15) by (simp add: enter_frame_def)
  have body: "run_insts e sem (map (rebase bytes) body) S2 = S3" "fs_sp S3 = fs_sp S2"
    using run_rebase[OF assms(4,7) sp2] assms(16) by simp_all
  have tail: "map (rebase bytes) tail = tail" using assms(8) by (induction tail) (simp_all add: rebase_other)
  have "run_insts e sem (framed_path ?F st saved bytes ?blocks bs) S = run_insts e sem (m # tail) S4"
    using framed_path_eq[OF assms(5), of ?F st saved bytes] body(1) assms(14,15,18) tail
    by (simp add: run_prologue run_epilogue)
  moreover have "legalize_large_sp_address_offsets (framed_path ?F st saved bytes ?blocks bs) = Inr (path_insts (mf_blocks func') bs)"
    unfolding framed_path_def path_insts_def
    by (rule legalize_path) (use lower_blocks[OF assms(1,2)] assms(5,9-11) in \<open>auto simp: one_return_def list_all_iff\<close>)
  then obtain mss where "try_map legalize_inst (framed_path ?F st saved bytes ?blocks bs) = Inr mss"
      "path_insts (mf_blocks func') bs = concat mss"
    by (cases "try_map legalize_inst (framed_path ?F st saved bytes ?blocks bs)") (auto simp: legalize_large_sp_address_offsets_def)
  then have "agree ip_regs (run_insts e sem (framed_path ?F st saved bytes ?blocks bs) S)
      (run_insts e sem (path_insts (mf_blocks func') bs) S)"
    using legalize_list_simulates[OF assms(3) _ assms(12), of mss S S e] by (simp add: agree_def)
  moreover have "fs_sp S4 = fs_sp S1" using body(2) assms(15,18) by (simp add: enter_frame_def leave_frame_def)
  moreover have "read_reg r (fs_regs S4) = read_reg r (fs_regs S1)" if "r \<in> set saved" for r
    using frame_restores[of st saved S1 ?F S3 r "mf_saved_regs func"] that assms(9,15,17,18) body(2)
    by (simp add: enter_frame_def)
  ultimately show ?thesis by (simp add: list_all_iff)
qed

subsection \<open>Examples\<close>

text \<open>Other instructions put 5 into their destination.\<close>

definition fives_sem :: "unit frame_sem" where
  "fives_sem m S = (case def_register (fst m) (snd m) of Some r \<Rightarrow> set_reg r 5 S | None \<Rightarrow> S)"

lemma fives_sem_ok: "sem_ok fives_sem"
  unfolding sem_ok_def
proof (intro allI impI)
  fix m W and S T :: "unit frame_state"
  assume a: "agree W S T \<and> W \<subseteq> ip_regs \<and> inst_regs Use m \<inter> W = {}"
  have defs: "inst_regs Def m \<subseteq> (case def_register (fst m) (snd m) of Some r \<Rightarrow> units_of {r} | None \<Rightarrow> {})"
    using operand_specs_table(3)[of _ "fst m"] by (force simp: inst_regs_def def_register_def units_of_def)
  show "agree (W - inst_regs Def m) (fives_sem m S) (fives_sem m T)"
  proof (cases "def_register (fst m) (snd m)")
    case None
    then show ?thesis using a defs by (auto simp: fives_sem_def intro: agree_mono)
  next
    case (Some r)
    then show ?thesis using set_reg_agree[of W S T r 5] a defs by (auto simp: fives_sem_def intro: agree_mono)
  qed
qed

lemma fives_sem_keeps_sp: "sem_keeps_sp fives_sem"
  by (simp add: sem_keeps_sp_def fives_sem_def set_reg_def split: option.split)

definition zero_state :: "unit frame_state" where
  "zero_state = \<lparr>fs_regs = \<lambda>_. 7, fs_sp = 65536, fs_mem = \<lambda>_. 0, fs_world = ()\<rparr>"

definition far_access :: "machine_inst list" where
  "far_access = [add_sp_offset (gpr 8) 5000, ldr_sp_offset (gpr 9) 40000]"

theorem legalized_offsets_exact_witness:
  "\<exists>ms'. legalize_large_sp_address_offsets far_access = Inr ms' \<and>
     agree ip_regs (run_insts 0 fives_sem far_access zero_state) (run_insts 0 fives_sem ms' zero_state)"
proof -
  have l: "legalize_inst (add_sp_offset (gpr 8) 5000) = Inr ([(MemOp A_AddSpOffset, (snd (add_sp_offset (gpr 8) 5000))\<lparr>imm := Some 0\<rparr>)] @
      materialize_offset_in_x16 5000 @ [binary (IntOp A_Add) (gpr 8) (gpr 8) X16])"
    "legalize_inst (ldr_sp_offset (gpr 9) 40000) = Inr ([add_sp_offset X17 0] @ materialize_offset_in_x16 40000 @
      [binary (IntOp A_Add) X17 X17 X16, ldr_reg_offset_sized (MemOp A_LdrRegOffset) (gpr 9) X17 0])"
    by (simp_all add: legalize_inst_def add_sp_offset_def ldr_sp_offset_def ldr_sp_offset_sized_def)
  have "legal_safe {} far_access"
    unfolding far_access_def legal_safe.simps l
    by (auto simp: clear_of_ip_def units_of_def gpr_def ip_regs_def inst_regs_def add_sp_offset_def ldr_sp_offset_def
        ldr_sp_offset_sized_def binary_def)
  moreover obtain ms' where "legalize_large_sp_address_offsets far_access = Inr ms'"
    by (simp add: legalize_large_sp_address_offsets_def far_access_def l)
  ultimately show ?thesis using legalized_offsets_exact[OF _ fives_sem_ok] by blast
qed

lemma frame_example_legal: "legal_safe {} (framed_path 32 16 [gpr 19] 48 (mf_blocks frame_func) [0])"
proof -
  have chunks: "stack_chunks 32 = [32]" by (simp add: stack_chunks.simps)
  have reb: "map (rebase 48) (mb_insts (mf_blocks frame_func ! 0)) =
      [str_pre_sp LR 16, ldr_sp_offset (gpr 0) 56, mov_imm (gpr 19) 5, ldr_post_sp LR 16, (CtlOp A_Ret, blank_inst)]"
    by (simp add: frame_func_def frame_body_def rebase_def rewrite_stack_arg_load_def str_pre_sp_def ldr_post_sp_def
        mov_imm_def imm_or_0_def blank_inst_def)
  have path: "framed_path 32 16 [gpr 19] 48 (mf_blocks frame_func) [0] =
      [str_pre_sp LR 16, sub_sp_imm 32, str_sp_offset_sized (MemOp A_StrSpOffset) (gpr 19) 16,
       ldr_sp_offset (gpr 0) 56, mov_imm (gpr 19) 5, ldr_sp_offset_sized (MemOp A_LdrSpOffset) (gpr 19) 16,
       add_sp_imm 32, ldr_post_sp LR 16, (CtlOp A_Ret, blank_inst)]"
    using reb by (simp add: framed_path_def framed_def insert_prologue_def prologue_def epilogue_def insert_block_epilogues_def
        chunks save_slots_def is_mark_def is_fpr_def frame_example_defs sub_sp_imm_def add_sp_imm_def ldr_sp_offset_def
        str_sp_offset_sized_def ldr_sp_offset_sized_def)
  have legal: "legalize_inst m = Inr [m]" if "m \<in> set (framed_path 32 16 [gpr 19] 48 (mf_blocks frame_func) [0])" for m
    using that unfolding path
    by (auto simp: legalize_inst_def frame_example_defs sub_sp_imm_def add_sp_imm_def ldr_sp_offset_def
        str_sp_offset_sized_def ldr_sp_offset_sized_def)
  have "legal_safe {} ms" if "\<And>m. m \<in> set ms \<Longrightarrow> legalize_inst m = Inr [m]" for ms using that by (induction ms) simp_all
  then show ?thesis using legal by blast
qed

theorem frame_lowering_correct_witness:
  "\<exists>func'. lower_function_frame frame_func = Inr func' \<and>
     (let T = run_insts 65536 fives_sem (path_insts (mf_blocks func') [0]) zero_state
      in fs_sp T = 65536 \<and> read_reg (gpr 19) (fs_regs T) = 7)"
proof -
  obtain func' where l: "lower_function_frame frame_func = Inr func'" using frame_example_lowered by blast
  have path: "path_insts (mf_blocks frame_func) [0] = [str_pre_sp LR 16] @ frame_body @ ldr_post_sp LR 16 # [(CtlOp A_Ret, blank_inst)]"
    by (simp add: path_insts_def frame_func_def)
  have one: "one_return (mf_blocks frame_func) [0] frame_body (ldr_post_sp LR 16) [(CtlOp A_Ret, blank_inst)]"
    unfolding one_return_def frame_example(3) path
    by (auto simp: frame_example_defs is_mark_def intro!: exI[of _ "[str_pre_sp LR 16] @ frame_body"])
  define S1 where "S1 = run_insts 65536 fives_sem (takeWhile is_lr_save (mb_insts (mf_blocks frame_func ! 0))) zero_state"
  define S2 where "S2 = enter_frame (frame_size frame_func) 16 [gpr 19] S1"
  define S3 where "S3 = run_insts 65536 fives_sem frame_body S2"
  define S4 where "S4 = leave_frame (frame_size frame_func) 16 [gpr 19] S3"
  have dec: "decode (str_pre_sp LR 16) = PreStore LR 16" "decode (ldr_post_sp LR 16) = PostLoad LR 16"
      "decode (MemOp A_LdrStackArg, blank_inst\<lparr>rd := Some (gpr 0), imm := Some 8\<rparr>) = StackArg (gpr 0) 8"
      "decode (mov_imm (gpr 19) 5) = Other" "decode (CtlOp A_Ret, blank_inst) = Other"
    by (simp_all add: decode_def decode_access_def frame_example_defs imm_or_0_def blank_inst_def)
  have "fs_mem S3 = fs_mem S2"
    by (simp add: S3_def frame_body_def exec_inst_def dec exec_access_def fives_sem_def set_reg_def split: option.split)
  moreover have "list_all keeps_sp frame_body" by (simp add: frame_body_def keeps_sp_def dec)
  ultimately have r: "agree ip_regs (run_insts 65536 fives_sem (ldr_post_sp LR 16 # [(CtlOp A_Ret, blank_inst)]) S4)
      (run_insts 65536 fives_sem (path_insts (mf_blocks func') [0]) zero_state) \<and>
      fs_sp S4 = fs_sp S1 \<and> list_all (\<lambda>r. read_reg r (fs_regs S4) = read_reg r (fs_regs S1)) [gpr 19]"
    by (intro frame_lowering_correct[OF l _ fives_sem_ok fives_sem_keeps_sp one _ _ _ _ _ _ _ _ S1_def S2_def S3_def _ S4_def])
      (use frame_example frame_example_legal in \<open>simp_all add: frame_func_def zero_state_def str_pre_sp_def\<close>)
  have ret: "fives_sem (CtlOp A_Ret, blank_inst) S = S" for S
    by (simp add: fives_sem_def def_register_def)
  have last: "run_insts 65536 fives_sem (ldr_post_sp LR 16 # [(CtlOp A_Ret, blank_inst)]) S4 =
      (exec_access False 8 LR (fs_sp S4) S4)\<lparr>fs_sp := fs_sp S4 + 16\<rparr>"
    by (simp add: exec_inst_def dec ret)
  have "fs_sp S1 = 65520" "read_reg (gpr 19) (fs_regs S1) = 7"
    by (simp_all add: S1_def frame_example(3) exec_inst_def dec exec_access_def zero_state_def read_reg_def gpr_def)
  then have "fs_sp (run_insts 65536 fives_sem (ldr_post_sp LR 16 # [(CtlOp A_Ret, blank_inst)]) S4) = 65536"
    "read_reg (gpr 19) (fs_regs (run_insts 65536 fives_sem (ldr_post_sp LR 16 # [(CtlOp A_Ret, blank_inst)]) S4)) = 7"
    using r unfolding last by (simp_all add: exec_access_def read_reg_def write_reg_def gpr_def LR_def)
  moreover have "hw_unit (gpr 19) = Some u \<Longrightarrow> u \<notin> ip_regs" for u by (auto simp: gpr_def ip_regs_def)
  ultimately show ?thesis
    using l agreeD(1,4)[of ip_regs, OF conjunct1[OF r]] by (auto simp: Let_def)
qed

end
