(* ===== verification/A64_Branch.thy ===== *)
theory A64_Branch
  imports A64_Immediates "HOL-Library.Signed_Division"
begin

unbundle bit_operations_syntax

text \<open>
  The position-dependent A64 encodings, from
  \<^verbatim>\<open>crates/pliron-ll/src/aarch64/encoding.rs\<close>: branch terminators and what they
  fall through to (\<^verbatim>\<open>branch_words\<close>, \<^verbatim>\<open>encode_branch\<close>), calls, pc-relative
  addresses, the byte lengths the layout passes use, and \<^verbatim>\<open>encode_inst\<close>.  They are
  verified against a model of how the processor executes the words.
\<close>

subsection \<open>Encodings and fixups\<close>

datatype fixup_kind = Call26 | AdrpPage21 | AddLo12 | TprelHi12 | TprelLo12Nc

record binary_fixup =
  fx_offset :: u32
  fx_symbol :: string
  fx_kind :: fixup_kind

record binary_encoding =
  be_bytes :: "u8 list"
  be_fixups :: "binary_fixup list"

text \<open>The offsets known when an instruction is encoded; functions and labels by name, blocks by number.\<close>

record serialization_context =
  function_offsets :: "string \<rightharpoonup> nat"
  block_offsets :: "nat \<rightharpoonup> nat"
  literal_offsets :: "string \<rightharpoonup> nat"

definition to_le_bytes :: "u32 \<Rightarrow> u8 list" where
  "to_le_bytes w = [ucast w, ucast (drop_bit 8 w), ucast (drop_bit 16 w), ucast (drop_bit 24 w)]"

definition word_encoding :: "u32 \<Rightarrow> binary_fixup list \<Rightarrow> binary_encoding" where
  "word_encoding w fixups = \<lparr>be_bytes = to_le_bytes w, be_fixups = fixups\<rparr>"

subsection \<open>Branches\<close>

text \<open>\<open>u64 as i64\<close>, the byte distance, and its word count (Rust's \<open>/\<close> truncates).\<close>

definition delta_words :: "nat \<Rightarrow> nat \<Rightarrow> int" where
  "delta_words tgt pc = (signed_of 64 tgt - signed_of 64 pc) sdiv 4"

definition in_range :: "nat \<Rightarrow> int \<Rightarrow> bool" where
  "in_range bits d \<longleftrightarrow> - (2 ^ bits) \<le> d \<and> d < 2 ^ bits"

definition encode_b :: "nat \<Rightarrow> nat \<Rightarrow> u32 crabbit_result" where
  "encode_b tgt pc =
     (let d = delta_words tgt pc in
      if \<not> in_range 25 d then Inl ''branch target is out of B range''
      else Inr (0x14000000 OR (of_int d AND 0x03ffffff)))"

definition encode_cbnz :: "u32 \<Rightarrow> nat \<Rightarrow> nat \<Rightarrow> u32 crabbit_result" where
  "encode_cbnz rt tgt pc =
     (let d = delta_words tgt pc in
      if \<not> in_range 18 d then Inl ''branch target is out of CBNZ range''
      else Inr (0xb5000000 OR push_bit 5 (of_int d AND 0x7ffff) OR rt))"

definition encode_b_cond :: "condition_code \<Rightarrow> nat \<Rightarrow> nat \<Rightarrow> u32 crabbit_result" where
  "encode_b_cond c tgt pc =
     (let d = delta_words tgt pc in
      if \<not> in_range 18 d then Inl ''branch target is out of B.cond range''
      else Inr (0x54000000 OR push_bit 5 (of_int d AND 0x7ffff) OR imm32 (cond_encoding c)))"

datatype branch_word =
    WordB nat
  | WordBCond condition_code nat
  | WordCbnz nat

text \<open>
  \<open>next\<close> is the block that follows the branch's own in the layout.  \<open>None\<close>: not a
  branch, or an attribute is missing.
\<close>

definition branch_words :: "a64_opcode \<Rightarrow> a64_inst \<Rightarrow> nat option \<Rightarrow> branch_word list option" where
  "branch_words opcode i next =
     (if opcode \<noteq> CtlOp A_B \<and> opcode \<noteq> CtlOp A_BCond \<and> opcode \<noteq> CtlOp A_Cbnz then None
      else do {
        taken \<leftarrow> target i;
        if opcode = CtlOp A_B then Some (if Some taken = next then [] else [WordB taken])
        else do {
          not_taken \<leftarrow> not_taken i;
          if opcode = CtlOp A_Cbnz then
            Some (WordCbnz taken # (if Some not_taken \<noteq> next then [WordB not_taken] else []))
          else do {
            c \<leftarrow> cond i;
            Some (if Some not_taken = next then [WordBCond c taken]
                  else if Some taken = next then [WordBCond (invert c) not_taken]
                  else [WordBCond c taken, WordB not_taken])
          }}})"

definition block_offset :: "(nat \<rightharpoonup> nat) \<Rightarrow> nat \<Rightarrow> nat crabbit_result" where
  "block_offset offsets b = (case offsets b of
     Some off \<Rightarrow> Inr off | None \<Rightarrow> Inl ''branch target is outside the enclosing function'')"

text \<open>One word of a branch at \<open>pc\<close>; \<open>rt\<close> is the register \<open>cbnz\<close> tests.\<close>

definition encode_branch_word :: "(nat \<rightharpoonup> nat) \<Rightarrow> u32 \<Rightarrow> nat \<Rightarrow> branch_word \<Rightarrow> u32 crabbit_result" where
  "encode_branch_word offsets rt pc w = (case w of
     WordB t \<Rightarrow> (case block_offset offsets t of Inl e \<Rightarrow> Inl e | Inr off \<Rightarrow> encode_b off pc)
   | WordBCond c t \<Rightarrow> (case block_offset offsets t of Inl e \<Rightarrow> Inl e | Inr off \<Rightarrow> encode_b_cond c off pc)
   | WordCbnz t \<Rightarrow> (case block_offset offsets t of Inl e \<Rightarrow> Inl e | Inr off \<Rightarrow> encode_cbnz rt off pc))"

fun encode_branch_words :: "(nat \<rightharpoonup> nat) \<Rightarrow> u32 \<Rightarrow> nat \<Rightarrow> branch_word list \<Rightarrow> u32 list crabbit_result" where
  "encode_branch_words offsets rt pc [] = Inr []"
| "encode_branch_words offsets rt pc (w # ws) =
     (case encode_branch_word offsets rt pc w of Inl e \<Rightarrow> Inl e | Inr word \<Rightarrow>
      case encode_branch_words offsets rt (pc + 4) ws of Inl e \<Rightarrow> Inl e | Inr words \<Rightarrow> Inr (word # words))"

text \<open>
  The outer \<open>None\<close> is the panic of reading \<open>cbnz\<close>'s register when it is not an
  allocated one.
\<close>

definition encode_branch ::
    "a64_opcode \<Rightarrow> a64_inst \<Rightarrow> nat option \<Rightarrow> (nat \<rightharpoonup> nat) \<Rightarrow> nat \<Rightarrow> binary_encoding crabbit_result option" where
  "encode_branch opcode i next offsets pc =
     (case branch_words opcode i next of
        None \<Rightarrow> Some (Inl ''branch is missing its target blocks or condition code'')
      | Some words \<Rightarrow> do {
          rt \<leftarrow> (if \<exists>t. WordCbnz t \<in> set words then num XReg Rn i else Some 0);
          Some (case encode_branch_words offsets rt pc words of
             Inl e \<Rightarrow> Inl e
           | Inr ws \<Rightarrow> Inr \<lparr>be_bytes = concat (map to_le_bytes ws), be_fixups = []\<rparr>) })"

subsection \<open>Calls and addresses\<close>

datatype encoded_call = LocalCall u32 | ExternalCall string

definition encode_call :: "(string \<rightharpoonup> nat) \<Rightarrow> a64_inst \<Rightarrow> nat \<Rightarrow> encoded_call crabbit_result option" where
  "encode_call offsets i pc = do {
     name \<leftarrow> callee i;
     Some (case offsets name of
       None \<Rightarrow> Inr (ExternalCall name)
     | Some t \<Rightarrow>
         let d = delta_words t pc in
         if \<not> in_range 25 d then Inl ''call target is out of BL range''
         else Inr (LocalCall (0x94000000 OR (of_int d AND 0x03ffffff)))) }"

text \<open>\<open>adr rd, #0\<close> and two 12-bit additions or subtractions.\<close>

definition pc_relative_words :: "u32 \<Rightarrow> int \<Rightarrow> u32 list" where
  "pc_relative_words dst delta =
     (let magnitude = nat \<bar>delta\<bar>;
          lo12 = imm32 (magnitude AND 0xfff);
          hi12 = imm32 (drop_bit 12 magnitude AND 0xfff);
          base = (if delta < 0 then 0xd1000000 else 0x91000000)
      in [0x10000000 OR dst,
          base OR push_bit 10 lo12 OR push_bit 5 dst OR dst,
          base OR push_bit 22 1 OR push_bit 10 hi12 OR push_bit 5 dst OR dst])"

definition encode_pc_relative_address :: "u32 \<Rightarrow> int \<Rightarrow> string \<Rightarrow> binary_encoding crabbit_result" where
  "encode_pc_relative_address dst delta what =
     (if \<not> in_range 24 delta then Inl (what @ '' is out of the 16MiB pc-relative addressing range'')
      else Inr \<lparr>be_bytes = concat (map to_le_bytes (pc_relative_words dst delta)), be_fixups = []\<rparr>)"

definition encode_adr_literal ::
    "(string \<rightharpoonup> nat) \<Rightarrow> a64_inst \<Rightarrow> nat \<Rightarrow> binary_encoding crabbit_result option" where
  "encode_adr_literal offsets i pc = do {
     label \<leftarrow> literal_label i;
     (case offsets label of
        None \<Rightarrow> Some (Inl ''unknown literal label'')
      | Some t \<Rightarrow> do {
          d \<leftarrow> num XReg Rd i;
          Some (encode_pc_relative_address d (signed_of 64 t - signed_of 64 pc) ''literal'') }) }"

definition encode_adr_function ::
    "(string \<rightharpoonup> nat) \<Rightarrow> a64_inst \<Rightarrow> nat \<Rightarrow> binary_encoding crabbit_result option" where
  "encode_adr_function offsets i pc = do {
     symbol \<leftarrow> callee i;
     (case offsets symbol of
        None \<Rightarrow> Some (Inl ''adr_function target is not defined in this module'')
      | Some t \<Rightarrow> do {
          d \<leftarrow> num XReg Rd i;
          Some (encode_pc_relative_address d (signed_of 64 t - signed_of 64 pc) ''function address'') }) }"

subsection \<open>Byte lengths and the instruction encoder\<close>

definition byte_len_for :: "a64_opcode \<Rightarrow> nat" where
  "byte_len_for opcode = (if opcode = CtlOp A_AdrLiteral \<or> opcode = CtlOp A_AdrFunction then 12 else 4)"

definition byte_len :: "a64_opcode \<Rightarrow> a64_inst \<Rightarrow> nat option \<Rightarrow> nat" where
  "byte_len opcode i next = (case branch_words opcode i next of
     Some words \<Rightarrow> 4 * length words | None \<Rightarrow> byte_len_for opcode)"

text \<open>A word with one fixup at \<open>pc\<close> for the instruction's symbol.\<close>

definition fixup_word :: "u32 \<Rightarrow> nat \<Rightarrow> string \<Rightarrow> fixup_kind \<Rightarrow> binary_encoding" where
  "fixup_word w pc name kind = word_encoding w [\<lparr>fx_offset = imm32 pc, fx_symbol = name, fx_kind = kind\<rparr>]"

definition encode_add_fixup ::
    "a64_inst \<Rightarrow> nat \<Rightarrow> u32 \<Rightarrow> fixup_kind \<Rightarrow> binary_encoding crabbit_result option" where
  "encode_add_fixup i pc base kind = do {
     d \<leftarrow> num XReg Rd i; n \<leftarrow> num XReg Rn i; name \<leftarrow> callee i;
     Some (Inr (fixup_word (base OR push_bit 5 n OR d) pc name kind)) }"

definition encode_inst ::
    "a64_opcode \<Rightarrow> a64_inst \<Rightarrow> nat option \<Rightarrow> nat \<Rightarrow> serialization_context \<Rightarrow>
     binary_encoding crabbit_result option" where
  "encode_inst opcode i next pc refs =
     (if opcode = CtlOp A_Call then do {
        r \<leftarrow> encode_call (function_offsets refs) i pc;
        Some (case r of
          Inl e \<Rightarrow> Inl e
        | Inr (LocalCall w) \<Rightarrow> Inr (word_encoding w [])
        | Inr (ExternalCall name) \<Rightarrow> Inr (fixup_word 0x94000000 pc name Call26)) }
      else if opcode = CtlOp A_AdrLiteral then encode_adr_literal (literal_offsets refs) i pc
      else if opcode = CtlOp A_AdrFunction then encode_adr_function (function_offsets refs) i pc
      else if opcode = CtlOp A_Adrp then do {
        d \<leftarrow> num XReg Rd i; name \<leftarrow> callee i;
        Some (Inr (fixup_word (0x90000000 OR d) pc name AdrpPage21)) }
      else if opcode = CtlOp A_AddLo12 then encode_add_fixup i pc 0x91000000 AddLo12
      else if opcode = CtlOp A_AddTprelHi12 then encode_add_fixup i pc 0x91400000 TprelHi12
      else if opcode = CtlOp A_AddTprelLo12Nc then encode_add_fixup i pc 0x91000000 TprelLo12Nc
      else if opcode = CtlOp A_B \<or> opcode = CtlOp A_BCond \<or> opcode = CtlOp A_Cbnz
        then encode_branch opcode i next (block_offsets refs) pc
      else (case encode_fixed_inst opcode i of
          None \<Rightarrow> None
        | Some None \<Rightarrow> Some (Inl ''unencodable AArch64 instruction'')
        | Some (Some w) \<Rightarrow> Some (Inr (word_encoding w []))))"

text \<open>\<open>literal_for_inst\<close>: the label and bytes an \<open>adr_literal\<close> refers to.\<close>

definition literal_for_inst :: "a64_opcode \<Rightarrow> a64_inst \<Rightarrow> u8 list option \<Rightarrow> (string \<times> u8 list) option" where
  "literal_for_inst opcode i bytes =
     (if opcode = CtlOp A_AdrLiteral then do { l \<leftarrow> literal_label i; b \<leftarrow> bytes; Some (l, b) } else None)"


subsection \<open>How the processor executes a branch\<close>

record cpu =
  cpu_regs :: "u32 \<Rightarrow> u64"
  cpu_flags :: nzcv

text \<open>Register 31 reads as zero here.\<close>

definition read_reg :: "cpu \<Rightarrow> u32 \<Rightarrow> u64" where
  "read_reg s r = (if r = 31 then 0 else cpu_regs s r)"

definition simm :: "nat \<Rightarrow> nat \<Rightarrow> u32 \<Rightarrow> int" where
  "simm k len w = signed_of len (unat (bits_at k len w))"

text \<open>The address of the instruction executed after the word \<open>w\<close> at \<open>pc\<close>.\<close>

definition next_pc :: "cpu \<Rightarrow> int \<Rightarrow> u32 \<Rightarrow> int" where
  "next_pc s pc w =
     (if bits_at 26 6 w = 0x05 \<or> bits_at 26 6 w = 0x25 then pc + 4 * simm 0 26 w
      else if bits_at 24 8 w = 0x54 \<and> bits_at 4 1 w = 0 then
        (if condition_holds (cpu_flags s) (unat (bits_at 0 4 w)) then pc + 4 * simm 5 19 w else pc + 4)
      else if bits_at 24 8 w = 0xb5 then
        (if read_reg s (bits_at 0 5 w) \<noteq> 0 then pc + 4 * simm 5 19 w else pc + 4)
      else pc + 4)"

text \<open>Where control is after the words of a branch at \<open>pc\<close>.\<close>

fun run_branch :: "cpu \<Rightarrow> int \<Rightarrow> u32 list \<Rightarrow> int" where
  "run_branch s pc [] = pc"
| "run_branch s pc (w # ws) =
     (let n = next_pc s pc w in if n = pc + 4 then run_branch s n ws else n)"

text \<open>The block a branch terminator names for a state of the processor.\<close>

definition branch_destination :: "cpu \<Rightarrow> a64_opcode \<Rightarrow> a64_inst \<Rightarrow> nat option" where
  "branch_destination s opcode i =
     (if opcode = CtlOp A_B then target i
      else if opcode = CtlOp A_BCond then do {
        c \<leftarrow> cond i; if cond_holds (cpu_flags s) c then target i else not_taken i }
      else if opcode = CtlOp A_Cbnz then do {
        r \<leftarrow> num XReg Rn i; if read_reg s r \<noteq> 0 then target i else not_taken i }
      else None)"

subsection \<open>Single words\<close>

lemma unat_take_bit_of_int: "n \<le> 32 \<Longrightarrow> unat (take_bit n (of_int d :: u32)) = unsigned_of n d"
proof -
  assume n: "n \<le> 32"
  have "uint (take_bit n (of_int d :: u32)) = take_bit n d"
  proof -
    have "uint (of_int d :: u32) = take_bit 32 d" by (simp add: uint_word_of_int take_bit_eq_mod)
    then show ?thesis using n by (simp add: unsigned_take_bit_eq min_def)
  qed
  then show ?thesis by (simp add: unsigned_of_def take_bit_eq_mod flip: nat_uint_eq)
qed

lemma signed_field:
  assumes "in_range b d" "b < 32"
  shows "signed_of (Suc b) (unat (take_bit (Suc b) (of_int d :: u32))) = d"
  using assms by (simp add: unat_take_bit_of_int signed_unsigned in_range_def)

lemma and_masks: "x AND 0x03ffffff = take_bit 26 x" "x AND 0x7ffff = take_bit 19 x" for x :: u32
  by (simp_all add: take_bit_eq_mask mask_eq_exp_minus_1)

text \<open>Distances between word-aligned offsets are whole words.\<close>

definition aligned :: "nat \<Rightarrow> bool" where
  "aligned off \<longleftrightarrow> 4 dvd off \<and> off < 2 ^ 63"

lemma delta_words_exact:
  assumes "aligned t" "aligned pc"
  shows "4 * delta_words t pc = int t - int pc"
proof -
  have s: "signed_of 64 t = int t" "signed_of 64 pc = int pc"
    using assms by (simp_all add: aligned_def signed_of_def)
  obtain k where k: "int t - int pc = 4 * k"
    using assms by (metis aligned_def dvd_def dvd_diff int_dvd_int_iff of_nat_numeral)
  have "4 * k sdiv 4 = k" by (simp add: signed_divide_int_def sgn_mult abs_mult sgn_mult_abs)
  then show ?thesis by (simp add: delta_words_def s k)
qed

lemma encode_b_next:
  assumes "aligned t" "aligned pc" "encode_b t pc = Inr w"
  shows "next_pc s (int pc) w = int t"
proof -
  let ?d = "delta_words t pc"
  define f :: u32 where "f = take_bit 26 (of_int ?d)"
  have r: "in_range 25 ?d" and w: "w = 0x14000000 OR f"
    using assms(3) by (auto simp: encode_b_def Let_def and_masks f_def split: if_splits)
  have tt: "take_bit 26 f = f" by (simp add: f_def)
  have "bits_at 26 6 (0x14000000 :: u32) = 5" "bits_at 0 26 (0x14000000 :: u32) = 0"
    by (simp_all add: bits_at_def)
  then have "bits_at 26 6 w = 5" "bits_at 0 26 w = f"
    using tt by (simp_all add: w word_field)
  then have "next_pc s (int pc) w = int pc + 4 * ?d"
    using signed_field [OF r] by (simp add: next_pc_def simm_def f_def)
  then show ?thesis using delta_words_exact [OF assms(1,2)] by simp
qed

lemma word19_fields:
  assumes r: "in_range 18 d" and low: "take_bit 5 low = low"
    and base: "bits_at 0 5 b = 0" "bits_at 5 19 b = 0"
  defines "w \<equiv> b OR push_bit 5 (of_int d AND 0x7ffff) OR low"
  shows "simm 5 19 w = d" "bits_at 0 5 w = low" "bits_at 24 8 w = bits_at 24 8 b" "bits_at 26 6 w = bits_at 26 6 b"
proof -
  define f :: u32 where "f = take_bit 19 (of_int d)"
  have w: "w = b OR push_bit 5 f OR low" by (simp add: w_def and_masks f_def)
  have tt: "take_bit 19 f = f" by (simp add: f_def)
  have "bits_at 5 19 w = f" using base tt low by (simp add: w word_field)
  then show "simm 5 19 w = d" using signed_field [OF r] by (simp add: simm_def f_def)
  show "bits_at 0 5 w = low" "bits_at 24 8 w = bits_at 24 8 b" "bits_at 26 6 w = bits_at 26 6 b"
    using base tt low by (simp_all add: w word_field)
qed

lemma encode_b_cond_next:
  assumes "aligned t" "aligned pc" "encode_b_cond c t pc = Inr w"
  shows "next_pc s (int pc) w = (if cond_holds (cpu_flags s) c then int t else int pc + 4)"
proof -
  let ?d = "delta_words t pc"
  have r: "in_range 18 ?d"
    and w: "w = 0x54000000 OR push_bit 5 (of_int ?d AND 0x7ffff) OR imm32 (cond_encoding c)"
    using assms(3) by (auto simp: encode_b_cond_def Let_def split: if_splits)
  have c: "cond_encoding c < 14" by (rule cond_encoding_bound)
  then have low4: "take_bit 4 (imm32 (cond_encoding c)) = imm32 (cond_encoding c)"
    and low: "take_bit 5 (imm32 (cond_encoding c)) = imm32 (cond_encoding c)"
    and u: "unat (imm32 (cond_encoding c)) = cond_encoding c"
    by (simp_all add: take_bit_imm32 unat_imm32)
  have b: "bits_at 0 5 (0x54000000 :: u32) = 0" "bits_at 5 19 (0x54000000 :: u32) = 0"
    "bits_at 24 8 (0x54000000 :: u32) = 0x54" "bits_at 26 6 (0x54000000 :: u32) = 0x15"
    by (simp_all add: bits_at_def)
  note f = word19_fields [OF r low b(1,2), folded w, unfolded b(3,4)]
  have "bits_at 4 1 w = bits_at 4 1 (bits_at 0 5 w)" "bits_at 0 4 w = bits_at 0 4 (bits_at 0 5 w)"
    by (rule bit_word_eqI, auto simp: bit_simps)+
  then have "bits_at 4 1 w = 0" "bits_at 0 4 w = imm32 (cond_encoding c)"
    unfolding f(2) using low4 by (simp_all add: bits_at_low bits_at_low_above)
  then show ?thesis using f delta_words_exact [OF assms(1,2)]
    by (simp add: next_pc_def u cond_holds_def)
qed

lemma encode_cbnz_next:
  assumes "aligned t" "aligned pc" "encode_cbnz rt t pc = Inr w" "take_bit 5 rt = rt"
  shows "next_pc s (int pc) w = (if read_reg s rt \<noteq> 0 then int t else int pc + 4)"
proof -
  let ?d = "delta_words t pc"
  have r: "in_range 18 ?d"
    and w: "w = 0xb5000000 OR push_bit 5 (of_int ?d AND 0x7ffff) OR rt"
    using assms(3) by (auto simp: encode_cbnz_def Let_def split: if_splits)
  have b: "bits_at 0 5 (0xb5000000 :: u32) = 0" "bits_at 5 19 (0xb5000000 :: u32) = 0"
    "bits_at 24 8 (0xb5000000 :: u32) = 0xb5" "bits_at 26 6 (0xb5000000 :: u32) = 0x2d"
    by (simp_all add: bits_at_def)
  note f = word19_fields [OF r assms(4) b(1,2), folded w, unfolded b(3,4)]
  then show ?thesis using delta_words_exact [OF assms(1,2)] by (simp add: next_pc_def)
qed


subsection \<open>Branch terminators\<close>

definition word_target :: "branch_word \<Rightarrow> nat" where
  "word_target w = (case w of WordB t \<Rightarrow> t | WordBCond c t \<Rightarrow> t | WordCbnz t \<Rightarrow> t)"

definition word_taken :: "cpu \<Rightarrow> u32 \<Rightarrow> branch_word \<Rightarrow> bool" where
  "word_taken s rt w = (case w of
     WordB t \<Rightarrow> True | WordBCond c t \<Rightarrow> cond_holds (cpu_flags s) c | WordCbnz t \<Rightarrow> read_reg s rt \<noteq> 0)"

lemma encode_branch_word_next:
  assumes "encode_branch_word offsets rt pc bw = Inr w" "aligned pc" "\<forall>b off. offsets b = Some off \<longrightarrow> aligned off"
    and "take_bit 5 rt = rt"
  shows "\<exists>off. offsets (word_target bw) = Some off \<and>
    next_pc s (int pc) w = (if word_taken s rt bw then int off else int pc + 4)"
proof -
  obtain off where off: "offsets (word_target bw) = Some off"
    using assms(1) by (cases bw) (auto simp: encode_branch_word_def block_offset_def word_target_def split: option.splits)
  then have al: "aligned off" using assms(3) by blast
  have "next_pc s (int pc) w = (if word_taken s rt bw then int off else int pc + 4)"
  proof (cases bw)
    case (WordB t)
    then have "encode_b off pc = Inr w"
      using assms(1) off by (simp add: encode_branch_word_def block_offset_def word_target_def)
    then show ?thesis using encode_b_next [OF al assms(2)] WordB by (simp add: word_taken_def)
  next
    case (WordBCond c t)
    then have "encode_b_cond c off pc = Inr w"
      using assms(1) off by (simp add: encode_branch_word_def block_offset_def word_target_def)
    then show ?thesis using encode_b_cond_next [OF al assms(2)] WordBCond by (simp add: word_taken_def)
  next
    case (WordCbnz t)
    then have "encode_cbnz rt off pc = Inr w"
      using assms(1) off by (simp add: encode_branch_word_def block_offset_def word_target_def)
    then show ?thesis using encode_cbnz_next [OF al assms(2) _ assms(4)] WordCbnz by (simp add: word_taken_def)
  qed
  then show ?thesis using off by blast
qed

text \<open>The words of a branch hand control to the first taken target, or fall through.\<close>

fun word_destination :: "cpu \<Rightarrow> u32 \<Rightarrow> branch_word list \<Rightarrow> nat option" where
  "word_destination s rt [] = None"
| "word_destination s rt (w # ws) = (if word_taken s rt w then Some (word_target w) else word_destination s rt ws)"

lemma aligned_add4: "aligned pc \<Longrightarrow> pc + 4 < 2 ^ 63 \<Longrightarrow> aligned (pc + 4)"
  by (simp add: aligned_def)

lemma run_branch_words:
  assumes "encode_branch_words offsets rt pc bws = Inr ws" "aligned pc" "pc + 4 * length bws < 2 ^ 63"
    and offs: "\<forall>b off. offsets b = Some off \<longrightarrow> aligned off \<and> (off \<le> pc \<or> pc + 4 * length bws \<le> off)"
    and rt: "take_bit 5 rt = rt"
  shows "length ws = length bws \<and> (case word_destination s rt bws of
      Some t \<Rightarrow> \<exists>off. offsets t = Some off \<and> run_branch s (int pc) ws = int off
    | None \<Rightarrow> run_branch s (int pc) ws = int (pc + 4 * length bws))"
  using assms
proof (induction bws arbitrary: pc ws)
  case (Cons bw bws)
  obtain w ws' where w: "encode_branch_word offsets rt pc bw = Inr w" "ws = w # ws'"
    and ws': "encode_branch_words offsets rt (pc + 4) bws = Inr ws'"
    using Cons.prems(1) by (auto split: sum.splits)
  obtain off where off: "offsets (word_target bw) = Some off"
    "next_pc s (int pc) w = (if word_taken s rt bw then int off else int pc + 4)"
    using encode_branch_word_next [OF w(1) Cons.prems(2) _ rt] Cons.prems(4) by blast
  have al: "aligned (pc + 4)" using Cons.prems(2,3) by (intro aligned_add4) simp_all
  have bound: "pc + 4 + 4 * length bws < 2 ^ 63" using Cons.prems(3) by simp
  have offs': "\<forall>b off. offsets b = Some off \<longrightarrow> aligned off \<and> (off \<le> pc + 4 \<or> pc + 4 + 4 * length bws \<le> off)"
    using Cons.prems(4) by fastforce
  note IH = Cons.IH [OF ws' al bound offs' rt]
  show ?case
  proof (cases "word_taken s rt bw")
    case True
    have "off \<le> pc \<or> pc + 4 * length (bw # bws) \<le> off" using Cons.prems(4) off(1) by blast
    then have "off = pc + 4 \<longrightarrow> bws = []" by auto
    then show ?thesis using True off w ws' IH by (auto simp: Let_def)
  next
    case False
    then show ?thesis using off w IH by (auto simp: Let_def add.commute split: option.splits)
  qed
qed simp

lemma branch_words_destination:
  assumes "branch_words opcode i next = Some bws" and "opcode = CtlOp A_Cbnz \<longrightarrow> num XReg Rn i = Some rt"
  shows "\<exists>t. branch_destination s opcode i = Some t \<and>
    (case word_destination s rt bws of Some t' \<Rightarrow> t' = t | None \<Rightarrow> next = Some t)"
  using assms
  by (auto simp: branch_words_def branch_destination_def word_taken_def word_target_def Option.bind_eq_Some_conv
      split: if_splits)

lemma cbnz_words:
  "branch_words opcode i next = Some bws \<Longrightarrow> (\<exists>t. WordCbnz t \<in> set bws) \<longleftrightarrow> opcode = CtlOp A_Cbnz"
  by (auto simp: branch_words_def Option.bind_eq_Some_conv split: if_splits)

lemma encode_branch_Inr:
  assumes "encode_branch opcode i next offsets pc = Some (Inr e)"
  obtains bws rt ws where "branch_words opcode i next = Some bws"
    "(if \<exists>t. WordCbnz t \<in> set bws then num XReg Rn i else Some 0) = Some rt"
    "encode_branch_words offsets rt pc bws = Inr ws"
    "e = \<lparr>be_bytes = concat (map to_le_bytes ws), be_fixups = []\<rparr>"
proof -
  obtain bws where bws: "branch_words opcode i next = Some bws"
    using assms by (auto simp: encode_branch_def split: option.splits)
  obtain rt where rt: "(if \<exists>t. WordCbnz t \<in> set bws then num XReg Rn i else Some 0) = Some rt"
    and e: "(case encode_branch_words offsets rt pc bws of
        Inl e \<Rightarrow> Inl e | Inr ws \<Rightarrow> Inr \<lparr>be_bytes = concat (map to_le_bytes ws), be_fixups = []\<rparr>) = Inr e"
    using assms bws by (auto simp: encode_branch_def Option.bind_eq_Some_conv)
  show ?thesis using e by (cases "encode_branch_words offsets rt pc bws") (auto intro: that [OF bws rt])
qed

text \<open>
  What the layout pass guarantees where a branch is encoded: blocks start at
  word-aligned offsets, none inside the branch's own words, and the next block
  right behind them.
\<close>

definition branch_layout :: "a64_opcode \<Rightarrow> a64_inst \<Rightarrow> nat option \<Rightarrow> (nat \<rightharpoonup> nat) \<Rightarrow> nat \<Rightarrow> bool" where
  "branch_layout opcode i next offsets pc \<longleftrightarrow>
     aligned pc \<and> pc + byte_len opcode i next < 2 ^ 63 \<and>
     (\<forall>b off. offsets b = Some off \<longrightarrow> aligned off \<and> (off \<le> pc \<or> pc + byte_len opcode i next \<le> off)) \<and>
     (\<forall>nb. next = Some nb \<longrightarrow> offsets nb = Some (pc + byte_len opcode i next))"

lemma branch_lands:
  assumes enc: "encode_branch opcode i next offsets pc = Some (Inr e)"
    and layout: "branch_layout opcode i next offsets pc" and i: "numbered i"
  shows "\<exists>ws t off. be_bytes e = concat (map to_le_bytes ws) \<and> 4 * length ws = byte_len opcode i next \<and>
    branch_destination s opcode i = Some t \<and> offsets t = Some off \<and> run_branch s (int pc) ws = int off"
proof -
  obtain bws rt ws where bws: "branch_words opcode i next = Some bws"
    and rt: "(if \<exists>t. WordCbnz t \<in> set bws then num XReg Rn i else Some 0) = Some rt"
    and ws: "encode_branch_words offsets rt pc bws = Inr ws"
    and e: "e = \<lparr>be_bytes = concat (map to_le_bytes ws), be_fixups = []\<rparr>"
    using enc by (rule encode_branch_Inr)
  have len: "byte_len opcode i next = 4 * length bws" by (simp add: byte_len_def bws)
  have reg: "opcode = CtlOp A_Cbnz \<longrightarrow> num XReg Rn i = Some rt"
    using rt cbnz_words [OF bws] by (auto split: if_splits)
  have five: "take_bit 5 rt = rt" using rt num_5 [OF i] by (auto split: if_splits)
  have run: "length ws = length bws \<and> (case word_destination s rt bws of
      Some t \<Rightarrow> \<exists>off. offsets t = Some off \<and> run_branch s (int pc) ws = int off
    | None \<Rightarrow> run_branch s (int pc) ws = int (pc + 4 * length bws))"
    using layout ws five by (intro run_branch_words) (simp_all add: branch_layout_def len)
  obtain t where t: "branch_destination s opcode i = Some t"
    "case word_destination s rt bws of Some t' \<Rightarrow> t' = t | None \<Rightarrow> next = Some t"
    using branch_words_destination [OF bws reg] by blast
  have "\<exists>off. offsets t = Some off \<and> run_branch s (int pc) ws = int off"
  proof (cases "word_destination s rt bws")
    case None
    then have "next = Some t" using t(2) by simp
    then have "offsets t = Some (pc + 4 * length bws)" using layout len by (metis branch_layout_def)
    then show ?thesis using run None by simp
  qed (use t(2) run in simp)
  then show ?thesis using e run t(1) len by auto
qed

text \<open>
  (C32) Branches go where the terminator says: whenever \<open>encode_branch\<close> succeeds
  under a correct layout, executing its words from the branch's address, whatever
  the flags and registers, ends at the offset of the block the terminator names
  for that state, the fall-through cases included, and the words take exactly the
  bytes the layout reserved.
\<close>

theorem encode_branch_reaches:
  assumes enc: "encode_branch opcode i next offsets pc = Some (Inr e)"
    and layout: "branch_layout opcode i next offsets pc" and i: "numbered i"
  shows "\<exists>ws t off. be_bytes e = concat (map to_le_bytes ws) \<and> 4 * length ws = byte_len opcode i next \<and>
    branch_destination s opcode i = Some t \<and> offsets t = Some off \<and> run_branch s (int pc) ws = int off"
  using branch_lands[OF assms] .

theorem encode_branch_reaches_witness:
  "let i = no_operands\<lparr>cond := Some Lt, target := Some 7, not_taken := Some 2\<rparr>;
       offsets = [0 \<mapsto> 0, 7 \<mapsto> 12, 2 \<mapsto> 40];
       s = \<lparr>cpu_regs = (\<lambda>_. 0), cpu_flags = \<lparr>flag_n = True, flag_z = False, flag_c = False, flag_v = False\<rparr>\<rparr>
   in \<exists>e ws. encode_branch (CtlOp A_BCond) i (Some 7) offsets 8 = Some (Inr e) \<and>
      be_bytes e = concat (map to_le_bytes ws) \<and> run_branch s 8 ws = 12"
proof -
  define i where "i = no_operands\<lparr>cond := Some Lt, target := Some 7, not_taken := Some 2\<rparr>"
  define offsets where "offsets = [0 :: nat \<mapsto> 0, 7 \<mapsto> 12, 2 \<mapsto> (40 :: nat)]"
  define s where "s = \<lparr>cpu_regs = (\<lambda>_. 0), cpu_flags = \<lparr>flag_n = True, flag_z = False, flag_c = False, flag_v = False\<rparr>\<rparr>"
  have bw: "branch_words (CtlOp A_BCond) i (Some 7) = Some [WordBCond Ge 2]"
    by (simp add: branch_words_def i_def no_operands_def)
  have d: "delta_words 40 8 = 8" by (simp add: delta_words_def signed_of_def signed_divide_int_def)
  have "encode_branch_words offsets 0 8 [WordBCond Ge 2] = Inr [0x5400010a]"
    by (simp add: encode_branch_word_def block_offset_def offsets_def encode_b_cond_def d in_range_def imm32_def)
  then obtain e where e: "encode_branch (CtlOp A_BCond) i (Some 7) offsets 8 = Some (Inr e)"
    by (simp add: encode_branch_def bw del: encode_branch_words.simps)
  have off: "offsets b = Some x \<Longrightarrow> x = 0 \<or> x = 12 \<or> x = 40" for b x
    by (auto simp: offsets_def split: if_splits)
  have len: "byte_len (CtlOp A_BCond) i (Some 7) = 4" by (simp add: byte_len_def bw)
  have o1: "offsets 7 = Some 12" by (simp add: offsets_def)
  have layout: "branch_layout (CtlOp A_BCond) i (Some 7) offsets 8"
    unfolding branch_layout_def len using off o1 by (fastforce simp: aligned_def)
  have ok: "numbered i"
    unfolding numbered_def
  proof (intro allI impI)
    fix key r assume "operand key i = Some r"
    then show "register_ok r" by (cases key) (auto simp: i_def no_operands_def)
  qed
  have dest: "branch_destination s (CtlOp A_BCond) i = Some 7"
    by (simp add: branch_destination_def i_def no_operands_def s_def cond_holds_def condition_holds_def)
  show ?thesis using encode_branch_reaches [OF e layout ok, of s] e dest o1
    by (auto simp: Let_def i_def [symmetric] offsets_def [symmetric] s_def [symmetric])
qed

lemma length_to_le_bytes [simp]: "length (to_le_bytes w) = 4"
  by (simp add: to_le_bytes_def)

lemma length_le_bytes: "length (concat (map to_le_bytes ws)) = 4 * length ws"
  by (induction ws) simp_all

lemma encode_branch_words_length:
  "encode_branch_words offsets rt pc bws = Inr ws \<Longrightarrow> length ws = length bws"
  by (induction bws arbitrary: pc ws) (auto split: sum.splits)

lemma encode_branch_length:
  assumes "encode_branch opcode i next offsets pc = Some (Inr e)"
  shows "length (be_bytes e) = byte_len opcode i next" "be_fixups e = []"
proof -
  obtain bws rt ws where "branch_words opcode i next = Some bws"
    "encode_branch_words offsets rt pc bws = Inr ws"
    "e = \<lparr>be_bytes = concat (map to_le_bytes ws), be_fixups = []\<rparr>"
    using assms by (rule encode_branch_Inr)
  then show "length (be_bytes e) = byte_len opcode i next" "be_fixups e = []"
    by (simp_all only: length_le_bytes encode_branch_words_length byte_len_def option.case binary_encoding.select_convs)
qed

lemma pc_relative_length:
  "encode_pc_relative_address d delta what = Inr e \<Longrightarrow> length (be_bytes e) = 12 \<and> be_fixups e = []"
  by (auto simp: encode_pc_relative_address_def pc_relative_words_def Let_def split: if_splits)

lemma byte_len_plain:
  "opcode \<noteq> CtlOp A_B \<Longrightarrow> opcode \<noteq> CtlOp A_BCond \<Longrightarrow> opcode \<noteq> CtlOp A_Cbnz \<Longrightarrow>
    byte_len opcode i next = byte_len_for opcode"
  by (simp add: byte_len_def branch_words_def)

lemma inst_length:
  assumes "encode_inst opcode i next pc refs = Some (Inr e)"
  shows "length (be_bytes e) = byte_len opcode i next \<and> (\<forall>fx \<in> set (be_fixups e). fx_offset fx = imm32 pc)"
proof (cases "opcode = CtlOp A_B \<or> opcode = CtlOp A_BCond \<or> opcode = CtlOp A_Cbnz")
  case True
  then have "encode_branch opcode i next (block_offsets refs) pc = Some (Inr e)"
    using assms by (auto simp: encode_inst_def)
  then show ?thesis by (simp add: encode_branch_length)
next
  case False
  show ?thesis
  proof (cases "opcode = CtlOp A_Call")
    case True
    then obtain r where r: "encode_call (function_offsets refs) i pc = Some r"
      "(case r of Inl e \<Rightarrow> Inl e
        | Inr (LocalCall w) \<Rightarrow> Inr (word_encoding w [])
        | Inr (ExternalCall name) \<Rightarrow> Inr (fixup_word 0x94000000 pc name Call26)) = Inr e"
      using assms by (auto simp: encode_inst_def Option.bind_eq_Some_conv)
    have "length (be_bytes e) = 4 \<and> (\<forall>fx \<in> set (be_fixups e). fx_offset fx = imm32 pc)"
      using r(2) by (cases r rule: sum.exhaust; cases "projr r")
        (auto simp: word_encoding_def fixup_word_def)
    then show ?thesis using True by (simp add: byte_len_plain byte_len_for_def)
  next
    case no_call: False
  show ?thesis
    using assms pc_relative_length False no_call
    by (auto simp: encode_inst_def byte_len_plain byte_len_for_def fixup_word_def word_encoding_def
        encode_add_fixup_def encode_adr_literal_def encode_adr_function_def Option.bind_eq_Some_conv
        split: if_splits option.splits)
  qed
qed

text \<open>
  Layout lengths: an instruction's encoding is exactly as long as the layout
  passes assume before any offset is known, and each fixup it carries is at the
  instruction's own offset.
\<close>

theorem encode_inst_length:
  assumes "encode_inst opcode i next pc refs = Some (Inr e)"
  shows "length (be_bytes e) = byte_len opcode i next \<and> (\<forall>fx \<in> set (be_fixups e). fx_offset fx = imm32 pc)"
  using inst_length[OF assms] .

theorem encode_inst_length_witness:
  "encode_inst (CtlOp A_Call) (no_operands\<lparr>callee := Some ''puts''\<rparr>) None 8
     \<lparr>function_offsets = (\<lambda>_. None), block_offsets = (\<lambda>_. None), literal_offsets = (\<lambda>_. None)\<rparr> =
     Some (Inr (fixup_word 0x94000000 8 ''puts'' Call26)) \<and>
   length (be_bytes (fixup_word 0x94000000 8 ''puts'' Call26)) = 4"
proof -
  let ?i = "no_operands\<lparr>callee := Some ''puts''\<rparr>"
  let ?refs = "\<lparr>function_offsets = (\<lambda>_. None), block_offsets = (\<lambda>_. None), literal_offsets = (\<lambda>_. None)\<rparr>"
  have e: "encode_inst (CtlOp A_Call) ?i None 8 ?refs = Some (Inr (fixup_word 0x94000000 8 ''puts'' Call26))"
    by (simp add: encode_inst_def encode_call_def no_operands_def)
  have "byte_len (CtlOp A_Call) ?i None = 4" by (simp add: byte_len_plain byte_len_for_def)
  then show ?thesis using encode_inst_length [OF e] e by simp
qed

subsection \<open>Calls\<close>

lemma call_lands:
  assumes "encode_call offsets i pc = Some (Inr r)" and "aligned pc"
    and "\<forall>f off. offsets f = Some off \<longrightarrow> aligned off"
  shows "\<exists>f. callee i = Some f \<and>
    (case r of LocalCall w \<Rightarrow> \<exists>off. offsets f = Some off \<and> next_pc s (int pc) w = int off
     | ExternalCall g \<Rightarrow> g = f \<and> offsets f = None)"
proof -
  obtain f where f: "callee i = Some f" using assms(1) by (auto simp: encode_call_def Option.bind_eq_Some_conv)
  show ?thesis
  proof (cases "offsets f")
    case None
    then show ?thesis using assms(1) f by (auto simp: encode_call_def)
  next
    case (Some off)
    let ?d = "delta_words off pc"
    define m :: u32 where "m = take_bit 26 (of_int ?d)"
    have d: "in_range 25 ?d" and r: "r = LocalCall (0x94000000 OR m)"
      using assms(1) f Some by (auto simp: encode_call_def Let_def and_masks m_def split: if_splits)
    have tt: "take_bit 26 m = m" by (simp add: m_def)
    have "bits_at 26 6 (0x94000000 :: u32) = 0x25" "bits_at 0 26 (0x94000000 :: u32) = 0"
      by (simp_all add: bits_at_def)
    then have "bits_at 26 6 (0x94000000 OR m) = 0x25" "bits_at 0 26 (0x94000000 OR m) = m"
      using tt by (simp_all add: word_field)
    then have "next_pc s (int pc) (0x94000000 OR m) = int pc + 4 * ?d"
      using signed_field [OF d] by (simp add: next_pc_def simm_def m_def)
    moreover have "aligned off" using assms(3) Some by blast
    ultimately show ?thesis using f Some r delta_words_exact [OF _ assms(2)] by simp
  qed
qed

text \<open>
  A call to a function of the module branches to that function's offset; a
  call to any other symbol carries a fixup for it and nothing else does.
\<close>

theorem encode_call_reaches:
  assumes "encode_call offsets i pc = Some (Inr r)" and "aligned pc"
    and "\<forall>f off. offsets f = Some off \<longrightarrow> aligned off"
  shows "\<exists>f. callee i = Some f \<and>
    (case r of LocalCall w \<Rightarrow> \<exists>off. offsets f = Some off \<and> next_pc s (int pc) w = int off
     | ExternalCall g \<Rightarrow> g = f \<and> offsets f = None)"
  using call_lands[OF assms] .

theorem encode_call_reaches_witness:
  "\<exists>w. encode_call [''f'' \<mapsto> 4096] (no_operands\<lparr>callee := Some ''f''\<rparr>) 8192 = Some (Inr (LocalCall w)) \<and>
    next_pc \<lparr>cpu_regs = (\<lambda>_. 0), cpu_flags = \<lparr>flag_n = True, flag_z = False, flag_c = False, flag_v = False\<rparr>\<rparr> 8192 w = 4096"
proof -
  let ?i = "no_operands\<lparr>callee := Some ''f''\<rparr>"
  let ?s = "\<lparr>cpu_regs = (\<lambda>_. 0), cpu_flags = \<lparr>flag_n = True, flag_z = False, flag_c = False, flag_v = False\<rparr>\<rparr>"
  have d: "delta_words 4096 8192 = - 1024" by (simp add: delta_words_def signed_of_def signed_divide_int_def)
  obtain w where w: "encode_call [''f'' \<mapsto> 4096] ?i 8192 = Some (Inr (LocalCall w))"
    by (simp add: encode_call_def no_operands_def d in_range_def Let_def)
  have "aligned 8192" and "\<forall>f off. [''f'' \<mapsto> 4096] f = Some off \<longrightarrow> aligned off"
    by (auto simp: aligned_def)
  then show ?thesis using encode_call_reaches [OF w, of ?s] w by (auto simp: no_operands_def)
qed


subsection \<open>Address materialization\<close>

text \<open>\<open>ADR\<close> and the 64-bit \<open>ADD\<close> and \<open>SUB\<close> (immediate) on registers below 31.\<close>

definition imm12_value :: "u32 \<Rightarrow> u64" where
  "imm12_value w = of_nat (unat (bits_at 10 12 w) * (if bits_at 22 1 w = 1 then 4096 else 1))"

definition exec_addr :: "u64 \<Rightarrow> u32 \<Rightarrow> (u32 \<Rightarrow> u64) \<Rightarrow> (u32 \<Rightarrow> u64)" where
  "exec_addr pc w r =
     (let d = bits_at 0 5 w; n = bits_at 5 5 w in
      if bits_at 24 5 w = 0x10 \<and> bits_at 31 1 w = 0
        then r(d := pc + of_int (signed_of 21 (unat (bits_at 5 19 w) * 4 + unat (bits_at 29 2 w))))
      else if bits_at 23 9 w = 0x122 then r(d := r n + imm12_value w)
      else if bits_at 23 9 w = 0x1a2 then r(d := r n - imm12_value w)
      else r)"

fun exec_addrs :: "u64 \<Rightarrow> u32 list \<Rightarrow> (u32 \<Rightarrow> u64) \<Rightarrow> (u32 \<Rightarrow> u64)" where
  "exec_addrs pc [] r = r"
| "exec_addrs pc (w # ws) r = exec_addrs (pc + 4) ws (exec_addr pc w r)"

lemma exec_adr_zero:
  assumes "take_bit 5 d = d"
  shows "exec_addr pc (0x10000000 OR d) r = r(d := pc)"
proof -
  have b: "bits_at 0 5 (0x10000000 :: u32) = 0" "bits_at 24 5 (0x10000000 :: u32) = 0x10"
    "bits_at 31 1 (0x10000000 :: u32) = 0" "bits_at 5 19 (0x10000000 :: u32) = 0" "bits_at 29 2 (0x10000000 :: u32) = 0"
    by (simp_all add: bits_at_def)
  have "bits_at 0 5 (0x10000000 OR d) = d" "bits_at 24 5 (0x10000000 OR d) = 0x10"
    "bits_at 31 1 (0x10000000 OR d) = 0" "bits_at 5 19 (0x10000000 OR d) = 0" "bits_at 29 2 (0x10000000 OR d) = 0"
    using assms b by (simp_all add: word_field)
  then show ?thesis by (simp add: exec_addr_def signed_of_def)
qed

text \<open>\<open>ADD\<close> (\<open>base = 0x91000000\<close>) or \<open>SUB\<close> (\<open>base = 0xd1000000\<close>) of a 12-bit immediate, shifted or not.\<close>

lemma exec_add_imm:
  assumes d: "take_bit 5 d = d" and k: "k < 4096" and base: "base = 0x91000000 \<or> base = 0xd1000000"
    and sh: "sh = 0 \<and> f = 1 \<or> sh = push_bit 22 1 \<and> f = 4096"
  shows "exec_addr pc (base OR sh OR push_bit 10 (imm32 k) OR push_bit 5 d OR d) r =
    r(d := (if base = 0x91000000 then r d + of_nat (k * f) else r d - of_nat (k * f)))"
proof -
  define w where "w = base OR sh OR push_bit 10 (imm32 k) OR push_bit 5 d OR d"
  have i: "take_bit 12 (imm32 k) = imm32 k" using k by (intro take_bit_imm32) simp
  have sb: "bits_at 0 5 sh = 0" "bits_at 5 5 sh = 0" "bits_at 10 12 sh = 0" "bits_at 24 5 sh = 0" "bits_at 31 1 sh = 0"
    "bits_at 23 9 sh = 0" "bits_at 22 1 sh = (if f = 4096 then 1 else 0)"
    using sh by (auto simp: bits_at_def)
  have bb: "bits_at 0 5 base = 0" "bits_at 5 5 base = 0" "bits_at 10 12 base = 0" "bits_at 24 5 base = 0x11"
    "bits_at 23 9 base = (if base = 0x91000000 then 0x122 else 0x1a2)" "bits_at 22 1 base = 0"
    using base by (auto simp: bits_at_def)
  have w: "bits_at 0 5 w = d" "bits_at 5 5 w = d" "bits_at 10 12 w = imm32 k" "bits_at 24 5 w = 0x11"
    "bits_at 23 9 w = (if base = 0x91000000 then 0x122 else 0x1a2)" "bits_at 22 1 w = (if f = 4096 then 1 else 0)"
    using d i sb bb by (simp_all add: w_def word_field)
  have "unat (imm32 k) = k" using k by (intro unat_imm32) simp
  then have "imm12_value w = of_nat (k * f)" using sh w by (auto simp: imm12_value_def)
  then have "exec_addr pc w r = r(d := (if base = 0x91000000 then r d + of_nat (k * f) else r d - of_nat (k * f)))"
    using base w by (auto simp: exec_addr_def)
  then show ?thesis by (simp only: w_def)
qed

lemma magnitude_split: "(m AND 0xfff) + (drop_bit 12 m AND 0xfff) * 4096 = m mod 2 ^ 24" for m :: nat
proof -
  have "x AND 0xfff = x mod 4096" for x :: nat
    using take_bit_eq_mask [of 12 x] by (simp add: take_bit_eq_mod mask_eq_exp_minus_1)
  then show ?thesis using mod_mult2_eq [of m 4096 4096] by (simp add: drop_bit_eq_div)
qed

lemma exec_pc_relative:
  assumes "take_bit 5 d = d"
  shows "exec_addrs pc (pc_relative_words d delta) r d =
    (if delta < 0 then pc - of_nat (nat \<bar>delta\<bar> mod 2 ^ 24) else pc + of_nat (nat \<bar>delta\<bar> mod 2 ^ 24))"
proof -
  define m where "m = nat \<bar>delta\<bar>"
  define base :: u32 where "base = (if delta < 0 then 0xd1000000 else 0x91000000)"
  have "x AND 0xfff < 4096" for x :: nat
    using take_bit_eq_mask [of 12 x] by (simp add: take_bit_eq_mod mask_eq_exp_minus_1)
  note k = this [of m] this [of "drop_bit 12 m"]
  have base: "base = 0x91000000 \<or> base = 0xd1000000" by (simp add: base_def)
  have sh0: "(0 :: u32) = 0 \<and> (1 :: nat) = 1 \<or> 0 = push_bit 22 (1 :: u32) \<and> (1 :: nat) = 4096" by simp
  have sh1: "push_bit 22 (1 :: u32) = 0 \<and> (4096 :: nat) = 1 \<or> push_bit 22 (1 :: u32) = push_bit 22 1 \<and> (4096 :: nat) = 4096" by simp
  note e0 = exec_add_imm [OF assms k(1) base sh0, unfolded or.left_neutral]
  note e1 = exec_add_imm [OF assms k(2) base sh1]
  have split: "of_nat (m AND 0xfff) + of_nat ((drop_bit 12 m AND 0xfff) * 4096) = (of_nat (m mod 2 ^ 24) :: u64)"
    unfolding magnitude_split [symmetric] by (simp only: of_nat_add)
  have "exec_addrs pc (pc_relative_words d delta) r d =
      (if base = 0x91000000 then pc + (of_nat (m AND 0xfff) + of_nat ((drop_bit 12 m AND 0xfff) * 4096))
       else pc - (of_nat (m AND 0xfff) + of_nat ((drop_bit 12 m AND 0xfff) * 4096)))"
    unfolding pc_relative_words_def Let_def m_def [symmetric] base_def [symmetric] exec_addrs.simps
      exec_adr_zero [OF assms] e0 e1
    by (simp only: fun_upd_same if_split) (simp add: algebra_simps)
  then show ?thesis unfolding split by (simp add: base_def m_def)
qed

text \<open>
  (C34) Pc-relative addresses: the three words leave \<open>pc + delta\<close> in the destination
  register for every accepted distance above \<open>-2^24\<close>.  The range check also accepts
  \<open>-2^24\<close> itself, whose magnitude does not fit the two 12-bit halves: there the words
  compute \<open>pc\<close>.
\<close>

theorem pc_relative_reaches:
  assumes "encode_pc_relative_address d delta what = Inr e" and "take_bit 5 d = d"
  shows "be_bytes e = concat (map to_le_bytes (pc_relative_words d delta)) \<and>
    exec_addrs pc (pc_relative_words d delta) r d = (if delta = - (2 ^ 24) then pc else pc + of_int delta)"
proof -
  have range: "- (2 ^ 24) \<le> delta" "delta < 2 ^ 24" and e: "be_bytes e = concat (map to_le_bytes (pc_relative_words d delta))"
    using assms(1) by (auto simp: encode_pc_relative_address_def in_range_def split: if_splits)
  have "exec_addrs pc (pc_relative_words d delta) r d = (if delta = - (2 ^ 24) then pc else pc + of_int delta)"
  proof (cases "delta = - (2 ^ 24)")
    case True
    then show ?thesis by (simp add: exec_pc_relative [OF assms(2)])
  next
    case False
    then have "nat \<bar>delta\<bar> < 2 ^ 24" using range by (simp add: nat_less_iff abs_less_iff)
    then have "nat \<bar>delta\<bar> mod 2 ^ 24 = nat \<bar>delta\<bar>" by simp
    then show ?thesis using False unfolding exec_pc_relative [OF assms(2)] by simp
  qed
  then show ?thesis using e by blast
qed

theorem pc_relative_reaches_witness:
  "\<exists>e. encode_pc_relative_address 3 (- (2 ^ 24)) ''literal'' = Inr e \<and>
    exec_addrs 0x1000000 (pc_relative_words 3 (- (2 ^ 24))) (\<lambda>_. 0) 3 = 0x1000000"
proof -
  obtain e where e: "encode_pc_relative_address 3 (- (2 ^ 24)) ''literal'' = Inr e"
    by (simp add: encode_pc_relative_address_def in_range_def)
  then show ?thesis using pc_relative_reaches [OF e, where pc = "0x1000000" and r = "\<lambda>_. 0"] by auto
qed

end
