(* ===== verification/Code_Literals.thy ===== *)
theory Code_Literals
  imports Prelude "HOL-Library.Char_ord" "HOL-Library.List_Lexorder"
begin

text \<open>
  What the two module encoders (\<^verbatim>\<open>passes/aarch64/aarch64_encode.rs\<close> and
  \<^verbatim>\<open>passes/x86_64_darwin/x86_64_encode.rs\<close>) have in common: the table of literals behind the
  code, and positions in the bytes of a module.
\<close>

subsection \<open>Positions\<close>

text \<open>\<open>bytes\<close> is at offset \<open>pos\<close>.\<close>

definition located :: "u8 list \<Rightarrow> nat \<Rightarrow> u8 list \<Rightarrow> bool" where
  "located img pos bytes \<longleftrightarrow> (\<exists>pre post. img = pre @ bytes @ post \<and> length pre = pos)"

lemma located_append: "located ys pos bytes \<Longrightarrow> located (xs @ ys @ zs) (length xs + pos) bytes"
  unfolding located_def by (metis append.assoc length_append)

lemma located_pre: "located ys pos bytes \<Longrightarrow> located (ys @ zs) pos bytes"
  using located_append[of ys pos bytes "[]" zs] by simp

lemma located_post: "located ys pos bytes \<Longrightarrow> located (xs @ ys) (length xs + pos) bytes"
  using located_append[of ys pos bytes xs "[]"] by simp

lemma map_sum_is_Inr: "map_sum f g x = Inr y \<longleftrightarrow> (\<exists>z. x = Inr z \<and> y = g z)"
  by (cases x) auto

subsection \<open>Literals\<close>

text \<open>The map from labels to bytes: the first literal of a label counts.\<close>

definition enter_literal :: "(string \<times> u8 list) option \<Rightarrow> (string \<times> u8 list) list \<Rightarrow> (string \<times> u8 list) list" where
  "enter_literal lit literals = (case lit of
     None \<Rightarrow> literals
   | Some (label, bytes) \<Rightarrow> if map_of literals label = None then literals @ [(label, bytes)] else literals)"

definition place_literal :: "nat \<Rightarrow> string \<times> u8 list \<Rightarrow> (string \<rightharpoonup> nat) \<times> u8 list \<Rightarrow> (string \<rightharpoonup> nat) \<times> u8 list" where
  "place_literal next_offset lit placed = (case placed of (offsets, bytes) \<Rightarrow>
     (offsets(fst lit \<mapsto> next_offset + length bytes), bytes @ snd lit))"

text \<open>In the order of the labels.\<close>

definition place_literals :: "nat \<Rightarrow> (string \<times> u8 list) list \<Rightarrow> (string \<rightharpoonup> nat) \<times> u8 list" where
  "place_literals next_offset literals = fold (place_literal next_offset) (sort_key fst literals) (Map.empty, [])"

lemma place_literal_simp [simp]: "place_literal next_offset lit (offs, bs) =
    (offs(fst lit \<mapsto> next_offset + length bs), bs @ snd lit)"
  by (simp add: place_literal_def)

lemma place_literals_bytes:
  "snd (fold (place_literal next_offset) lits (offs, bs)) = bs @ concat (map snd lits)"
  by (induction lits arbitrary: offs bs) simp_all

lemma place_literals_other:
  "l \<notin> fst ` set lits \<Longrightarrow> fst (fold (place_literal next_offset) lits (offs, bs)) l = offs l"
  by (induction lits arbitrary: offs bs) simp_all

lemma place_literals_at:
  assumes "distinct (map fst lits)" "i < length lits"
  shows "fst (fold (place_literal next_offset) lits (offs, bs)) (fst (lits ! i)) =
      Some (next_offset + length bs + length (concat (map snd (take i lits))))"
  using assms
proof (induction lits arbitrary: i offs bs)
  case (Cons lit lits)
  then show ?case by (cases i) (simp_all add: place_literals_other add.assoc)
qed simp

lemma located_concat: "i < length xs \<Longrightarrow> located (concat xs) (length (concat (take i xs))) (xs ! i)"
  unfolding located_def by (metis concat.simps(2) concat_append id_take_nth_drop)

text \<open>Every literal has an offset, its bytes are there, and no other label has one.\<close>

lemma place_literals_located:
  assumes d: "distinct (map fst lits)" and l: "map_of lits l = Some b"
  shows "\<exists>p. fst (place_literals next_offset lits) l = Some (next_offset + p) \<and> located (snd (place_literals next_offset lits)) p b"
proof -
  let ?ls = "sort_key fst lits"
  have d': "distinct (map fst ?ls)" using d by (simp add: distinct_map)
  have "(l, b) \<in> set ?ls" using map_of_SomeD[OF l] by simp
  then obtain i where i: "i < length ?ls" "?ls ! i = (l, b)" unfolding in_set_conv_nth by blast
  have "located (concat (map snd ?ls)) (length (concat (map snd (take i ?ls)))) b"
    using located_concat[of i "map snd ?ls"] i by (simp add: take_map)
  then show ?thesis
    using place_literals_at[OF d' i(1), of next_offset Map.empty "[]"] i(2)
    by (auto simp: place_literals_def place_literals_bytes)
qed

text \<open>Which literals are collected.\<close>

lemma enter_literals_distinct:
  "distinct (map fst lits) \<Longrightarrow> distinct (map fst (fold enter_literal os lits))"
proof (induction os arbitrary: lits)
  case (Cons lit os)
  have "distinct (map fst (enter_literal lit lits))"
    using Cons.prems by (auto simp: enter_literal_def map_of_eq_None_iff split: option.splits)
  then show ?case using Cons.IH by simp
qed simp

lemma enter_literals_keep:
  "map_of lits l = Some b \<Longrightarrow> map_of (fold enter_literal os lits) l = Some b"
proof (induction os arbitrary: lits)
  case (Cons lit os)
  have "map_of (enter_literal lit lits) l = Some b"
    using Cons.prems by (auto simp: enter_literal_def map_add_def split: option.splits)
  then show ?case using Cons.IH by simp
qed simp

lemma enter_literals_named:
  "Some (l, b) \<in> set os \<Longrightarrow> \<exists>b'. map_of (fold enter_literal os lits) l = Some b'"
proof (induction os arbitrary: lits)
  case (Cons lit os)
  show ?case
  proof (cases "lit = Some (l, b)")
    case True
    have "\<exists>b'. map_of (enter_literal lit lits) l = Some b'"
      using True by (auto simp: enter_literal_def map_add_def split: option.splits)
    then show ?thesis using enter_literals_keep[of "enter_literal lit lits" l _ os] by auto
  qed (use Cons in auto)
qed simp

lemma enter_literals_origin:
  "\<lbrakk>map_of (fold enter_literal os lits) l = Some b; map_of lits l = None\<rbrakk> \<Longrightarrow> Some (l, b) \<in> set os"
proof (induction os arbitrary: lits)
  case (Cons lit os)
  show ?case
  proof (cases "map_of (enter_literal lit lits) l")
    case (Some b')
    have "lit = Some (l, b')"
      using Some Cons.prems(2) by (auto simp: enter_literal_def map_add_def split: option.splits if_splits)
    moreover have "b' = b" using enter_literals_keep[OF Some, of os] Cons.prems(1) by simp
    ultimately show ?thesis by simp
  qed (use Cons in auto)
qed simp

text \<open>When all literals of a label agree on its bytes, the table has an offset for the label at which these bytes are.\<close>

lemma literal_table:
  assumes "Some (l, b) \<in> set os" "\<And>b'. Some (l, b') \<in> set os \<Longrightarrow> b' = b"
  shows "\<exists>p. fst (place_literals next_offset (fold enter_literal os [])) l = Some (next_offset + p)
    \<and> located (snd (place_literals next_offset (fold enter_literal os []))) p b"
proof -
  obtain b' where b': "map_of (fold enter_literal os []) l = Some b'" using enter_literals_named[OF assms(1)] by blast
  then have "b' = b" using enter_literals_origin[OF b'] assms(2) by simp
  then show ?thesis using place_literals_located[OF enter_literals_distinct b'] by simp
qed

end
