(* ===== verification/A64_Layout.thy ===== *)
theory A64_Layout
  imports A64_Branch Code_Literals
begin

text \<open>
  The layout of a module's code: \<^verbatim>\<open>crates/pliron-ll/src/passes/aarch64/aarch64_encode.rs\<close>.

  The pass first computes where every function, block and literal will be, from the lengths of the
  instructions, and then encodes the instructions against these offsets.  The theorems
  show that everything ends up where the offsets say, and so that branches and calls of the module
  reach the code they name.
\<close>

subsection \<open>Modules\<close>

text \<open>
  An instruction with the bytes of the literal it names.  Operations that are no instructions are
  not encoded and have no length.
\<close>

type_synonym coded_inst = "a64_opcode \<times> a64_inst \<times> u8 list option"

record code_block =
  cb_id :: nat
  cb_insts :: "coded_inst list"

record code_func =
  cf_name :: string
  cf_blocks :: "code_block list"

text \<open>Each block with the one that follows it in its function.\<close>

fun next_blocks :: "code_block list \<Rightarrow> (code_block \<times> nat option) list" where
  "next_blocks [] = []"
| "next_blocks [b] = [(b, None)]"
| "next_blocks (b # c # bs) = (b, Some (cb_id c)) # next_blocks (c # bs)"

subsection \<open>Offsets\<close>

definition inst_len :: "nat option \<Rightarrow> coded_inst \<Rightarrow> nat" where
  "inst_len nxt ci = byte_len (fst ci) (fst (snd ci)) nxt"

definition block_len :: "code_block \<times> nat option \<Rightarrow> nat" where
  "block_len bn = sum_list (map (inst_len (snd bn)) (cb_insts (fst bn)))"

definition code_size :: "code_func \<Rightarrow> nat" where
  "code_size f = sum_list (map block_len (next_blocks (cf_blocks f)))"

fun offsets_from :: "nat \<Rightarrow> (code_block \<times> nat option) list \<Rightarrow> (nat \<rightharpoonup> nat) \<Rightarrow> (nat \<rightharpoonup> nat)" where
  "offsets_from off [] offsets = offsets"
| "offsets_from off (bn # bns) offsets = offsets_from (off + block_len bn) bns (offsets(cb_id (fst bn) \<mapsto> off))"

definition func_block_offsets :: "code_func \<Rightarrow> nat \<Rightarrow> (nat \<rightharpoonup> nat)" where
  "func_block_offsets f function_offset = offsets_from function_offset (next_blocks (cf_blocks f)) Map.empty"

subsection \<open>Literals\<close>

definition coded_literal :: "coded_inst \<Rightarrow> (string \<times> u8 list) option" where
  "coded_literal ci = literal_for_inst (fst ci) (fst (snd ci)) (snd (snd ci))"

definition note_literal :: "coded_inst \<Rightarrow> (string \<times> u8 list) list \<Rightarrow> (string \<times> u8 list) list" where
  "note_literal ci literals = enter_literal (coded_literal ci) literals"

definition collect_literals :: "code_func \<Rightarrow> (string \<times> u8 list) list \<Rightarrow> (string \<times> u8 list) list" where
  "collect_literals f literals = fold note_literal (concat (map cb_insts (cf_blocks f))) literals"

text \<open>The module's tables: function offsets, literals, and the offset after the last function.\<close>

definition plan_func :: "code_func \<Rightarrow> (string \<rightharpoonup> nat) \<times> (string \<times> u8 list) list \<times> nat \<Rightarrow>
    (string \<rightharpoonup> nat) \<times> (string \<times> u8 list) list \<times> nat" where
  "plan_func f plan = (case plan of (offsets, literals, next_offset) \<Rightarrow>
     (offsets(cf_name f \<mapsto> next_offset), collect_literals f literals, next_offset + code_size f))"

subsection \<open>Encoding\<close>

type_synonym emitted = "u8 list \<times> binary_fixup list"

text \<open>\<open>None\<close>: the encoder panicked.\<close>

fun emit_insts :: "serialization_context \<Rightarrow> nat \<Rightarrow> nat option \<Rightarrow> coded_inst list \<Rightarrow> emitted \<Rightarrow>
    emitted crabbit_result option" where
  "emit_insts refs base nxt [] st = Some (Inr st)"
| "emit_insts refs base nxt (ci # cis) st =
     (case encode_inst (fst ci) (fst (snd ci)) nxt (base + length (fst st)) refs of
        None \<Rightarrow> None
      | Some (Inl e) \<Rightarrow> Some (Inl e)
      | Some (Inr enc) \<Rightarrow> emit_insts refs base nxt cis (fst st @ be_bytes enc, snd st @ be_fixups enc))"

fun emit_blocks :: "serialization_context \<Rightarrow> nat \<Rightarrow> (code_block \<times> nat option) list \<Rightarrow> emitted \<Rightarrow>
    emitted crabbit_result option" where
  "emit_blocks refs base [] st = Some (Inr st)"
| "emit_blocks refs base (bn # bns) st =
     (case emit_insts refs base (snd bn) (cb_insts (fst bn)) st of
        None \<Rightarrow> None
      | Some (Inl e) \<Rightarrow> Some (Inl e)
      | Some (Inr st') \<Rightarrow> emit_blocks refs base bns st')"

record encoded_module =
  en_code :: "u8 list list"
  en_literals :: "u8 list"
  en_fixups :: "binary_fixup list"

definition func_refs :: "(string \<rightharpoonup> nat) \<Rightarrow> (string \<rightharpoonup> nat) \<Rightarrow> code_func \<Rightarrow> nat \<Rightarrow> serialization_context" where
  "func_refs offsets literal_offs f function_offset =
     \<lparr>function_offsets = offsets, block_offsets = func_block_offsets f function_offset, literal_offsets = literal_offs\<rparr>"

fun emit_funcs :: "(string \<rightharpoonup> nat) \<Rightarrow> (string \<rightharpoonup> nat) \<Rightarrow> nat \<Rightarrow> code_func list \<Rightarrow> binary_fixup list \<Rightarrow>
    (u8 list list \<times> binary_fixup list) crabbit_result option" where
  "emit_funcs offsets literal_offs function_offset [] fixups = Some (Inr ([], fixups))"
| "emit_funcs offsets literal_offs function_offset (f # fs) fixups =
     (case emit_blocks (func_refs offsets literal_offs f function_offset) function_offset (next_blocks (cf_blocks f)) ([], fixups) of
        None \<Rightarrow> None
      | Some (Inl e) \<Rightarrow> Some (Inl e)
      | Some (Inr (bytes, fixups')) \<Rightarrow>
          map_option (map_sum id (\<lambda>(code, fx). (bytes # code, fx)))
            (emit_funcs offsets literal_offs (function_offset + length bytes) fs fixups'))"

definition encode_module :: "code_func list \<Rightarrow> encoded_module crabbit_result option" where
  "encode_module funcs = (case fold plan_func funcs (Map.empty, [], 0) of
     (offsets, literals, next_offset) \<Rightarrow>
       (case place_literals next_offset literals of
          (literal_offs, literal_bytes) \<Rightarrow>
            map_option (map_sum id (\<lambda>(code, fixups).
              \<lparr>en_code = code, en_literals = literal_bytes, en_fixups = fixups\<rparr>))
              (emit_funcs offsets literal_offs 0 funcs [])))"

text \<open>The bytes of the code section: the functions, and the literals behind them.\<close>

definition image :: "encoded_module \<Rightarrow> u8 list" where
  "image e = concat (en_code e) @ en_literals e"

subsection \<open>Everything is where the offsets say\<close>

lemma next_blocks_length [simp]: "length (next_blocks bs) = length bs"
  by (induction bs rule: next_blocks.induct) simp_all

lemma next_blocks_nth:
  "j < length bs \<Longrightarrow> next_blocks bs ! j = (bs ! j, if Suc j < length bs then Some (cb_id (bs ! Suc j)) else None)"
proof (induction bs arbitrary: j rule: next_blocks.induct)
  case (3 b c bs)
  then show ?case by (cases j) auto
qed simp_all

lemma next_blocks_fst [simp]: "map fst (next_blocks bs) = bs"
  by (induction bs rule: next_blocks.induct) simp_all

definition insts_len :: "nat option \<Rightarrow> coded_inst list \<Rightarrow> nat" where
  "insts_len nxt cis = sum_list (map (inst_len nxt) cis)"

definition blocks_len :: "(code_block \<times> nat option) list \<Rightarrow> nat" where
  "blocks_len bns = sum_list (map block_len bns)"

definition funcs_len :: "code_func list \<Rightarrow> nat" where
  "funcs_len fs = sum_list (map code_size fs)"

lemma len_simps [simp]:
  "insts_len nxt [] = 0" "insts_len nxt (ci # cis) = inst_len nxt ci + insts_len nxt cis"
  "blocks_len [] = 0" "blocks_len (bn # bns) = block_len bn + blocks_len bns"
  "funcs_len [] = 0" "funcs_len (f # fs) = code_size f + funcs_len fs"
  by (simp_all add: insts_len_def blocks_len_def funcs_len_def)

lemma len_defs: "block_len bn = insts_len (snd bn) (cb_insts (fst bn))" "code_size f = blocks_len (next_blocks (cf_blocks f))"
  by (simp_all add: block_len_def insts_len_def code_size_def blocks_len_def)

lemma emit_insts_located:
  assumes "emit_insts refs base nxt cis (bs, fx) = Some (Inr (bs', fx'))"
  shows "\<exists>chunk. bs' = bs @ chunk \<and> length chunk = insts_len nxt cis \<and>
    (\<forall>n < length cis. \<exists>enc. encode_inst (fst (cis ! n)) (fst (snd (cis ! n))) nxt (base + length bs + insts_len nxt (take n cis)) refs = Some (Inr enc) \<and>
       located chunk (insts_len nxt (take n cis)) (be_bytes enc))"
  using assms
proof (induction cis arbitrary: bs fx)
  case (Cons ci cis)
  obtain enc where enc: "encode_inst (fst ci) (fst (snd ci)) nxt (base + length bs) refs = Some (Inr enc)"
    "emit_insts refs base nxt cis (bs @ be_bytes enc, fx @ be_fixups enc) = Some (Inr (bs', fx'))"
    using Cons.prems by (auto split: option.splits sum.splits)
  obtain chunk where c: "bs' = (bs @ be_bytes enc) @ chunk" "length chunk = insts_len nxt cis"
    "\<forall>n < length cis. \<exists>enc'. encode_inst (fst (cis ! n)) (fst (snd (cis ! n))) nxt
        (base + length (bs @ be_bytes enc) + insts_len nxt (take n cis)) refs = Some (Inr enc') \<and>
       located chunk (insts_len nxt (take n cis)) (be_bytes enc')"
    using Cons.IH[OF enc(2)] by blast
  have len: "length (be_bytes enc) = inst_len nxt ci" using inst_length[OF enc(1)] by (simp add: inst_len_def)
  have "\<exists>e. encode_inst (fst ((ci # cis) ! n)) (fst (snd ((ci # cis) ! n))) nxt
      (base + length bs + insts_len nxt (take n (ci # cis))) refs = Some (Inr e) \<and>
      located (be_bytes enc @ chunk) (insts_len nxt (take n (ci # cis))) (be_bytes e)" if "n < length (ci # cis)" for n
  proof (cases n)
    case 0
    then show ?thesis using enc(1) by (force simp: located_def)
  next
    case (Suc k)
    then have k: "k < length cis" using that by simp
    obtain e where "encode_inst (fst (cis ! k)) (fst (snd (cis ! k))) nxt
        (base + length (bs @ be_bytes enc) + insts_len nxt (take k cis)) refs = Some (Inr e)"
      "located chunk (insts_len nxt (take k cis)) (be_bytes e)" using c(3)[rule_format, OF k] by blast
    then show ?thesis using Suc len located_post[of chunk "insts_len nxt (take k cis)" "be_bytes e" "be_bytes enc"]
      by (auto simp: add.assoc)
  qed
  then show ?case using c(1,2) len by (intro exI[of _ "be_bytes enc @ chunk"]) simp
qed simp

lemma emit_blocks_located:
  assumes "emit_blocks refs base bns (bs, fx) = Some (Inr (bs', fx'))"
  shows "\<exists>chunk. bs' = bs @ chunk \<and> length chunk = blocks_len bns \<and>
    (\<forall>j < length bns. \<forall>n < length (cb_insts (fst (bns ! j))).
       \<exists>enc. encode_inst (fst (cb_insts (fst (bns ! j)) ! n)) (fst (snd (cb_insts (fst (bns ! j)) ! n))) (snd (bns ! j))
         (base + length bs + (blocks_len (take j bns) + insts_len (snd (bns ! j)) (take n (cb_insts (fst (bns ! j)))))) refs = Some (Inr enc) \<and>
       located chunk (blocks_len (take j bns) + insts_len (snd (bns ! j)) (take n (cb_insts (fst (bns ! j))))) (be_bytes enc))"
  using assms
proof (induction bns arbitrary: bs fx)
  case (Cons bn bns)
  obtain bs1 fx1 where e: "emit_insts refs base (snd bn) (cb_insts (fst bn)) (bs, fx) = Some (Inr (bs1, fx1))"
    "emit_blocks refs base bns (bs1, fx1) = Some (Inr (bs', fx'))"
    using Cons.prems by (auto split: option.splits sum.splits)
  obtain c1 where c1: "bs1 = bs @ c1" "length c1 = block_len bn"
    "\<And>n. n < length (cb_insts (fst bn)) \<Longrightarrow> \<exists>enc. encode_inst (fst (cb_insts (fst bn) ! n)) (fst (snd (cb_insts (fst bn) ! n))) (snd bn)
        (base + length bs + insts_len (snd bn) (take n (cb_insts (fst bn)))) refs = Some (Inr enc) \<and>
       located c1 (insts_len (snd bn) (take n (cb_insts (fst bn)))) (be_bytes enc)"
    using emit_insts_located[OF e(1)] by (auto simp: len_defs)
  obtain c2 where c2: "bs' = bs1 @ c2" "length c2 = blocks_len bns"
    "\<And>j n. j < length bns \<Longrightarrow> n < length (cb_insts (fst (bns ! j))) \<Longrightarrow>
       \<exists>enc. encode_inst (fst (cb_insts (fst (bns ! j)) ! n)) (fst (snd (cb_insts (fst (bns ! j)) ! n))) (snd (bns ! j))
         (base + length bs1 + (blocks_len (take j bns) + insts_len (snd (bns ! j)) (take n (cb_insts (fst (bns ! j)))))) refs = Some (Inr enc) \<and>
       located c2 (blocks_len (take j bns) + insts_len (snd (bns ! j)) (take n (cb_insts (fst (bns ! j))))) (be_bytes enc)"
    using Cons.IH[OF e(2)] by blast
  have "\<exists>enc. encode_inst (fst (cb_insts (fst ((bn # bns) ! j)) ! n)) (fst (snd (cb_insts (fst ((bn # bns) ! j)) ! n))) (snd ((bn # bns) ! j))
      (base + length bs + (blocks_len (take j (bn # bns)) + insts_len (snd ((bn # bns) ! j)) (take n (cb_insts (fst ((bn # bns) ! j)))))) refs = Some (Inr enc) \<and>
      located (c1 @ c2) (blocks_len (take j (bn # bns)) + insts_len (snd ((bn # bns) ! j)) (take n (cb_insts (fst ((bn # bns) ! j))))) (be_bytes enc)"
    if "j < length (bn # bns)" "n < length (cb_insts (fst ((bn # bns) ! j)))" for j n
  proof (cases j)
    case 0
    then show ?thesis using c1(3)[of n] that located_pre[of c1 _ _ c2] by fastforce
  next
    case (Suc k)
    let ?pos = "blocks_len (take k bns) + insts_len (snd (bns ! k)) (take n (cb_insts (fst (bns ! k))))"
    have k: "k < length bns" "n < length (cb_insts (fst (bns ! k)))" using that Suc by simp_all
    obtain enc where "encode_inst (fst (cb_insts (fst (bns ! k)) ! n)) (fst (snd (cb_insts (fst (bns ! k)) ! n))) (snd (bns ! k))
         (base + length bs1 + ?pos) refs = Some (Inr enc)" "located c2 ?pos (be_bytes enc)"
      using c2(3)[OF k] by blast
    then show ?thesis using Suc c1(1,2) located_post[of c2 ?pos "be_bytes enc" c1] by (auto simp: add.assoc)
  qed
  then show ?case using c1(1,2) c2(1,2) by (intro exI[of _ "c1 @ c2"]) auto
qed simp

text \<open>Positions of instructions: within a function, and within the module.\<close>

definition next_id :: "code_func \<Rightarrow> nat \<Rightarrow> nat option" where
  "next_id f j = (if Suc j < length (cf_blocks f) then Some (cb_id (cf_blocks f ! Suc j)) else None)"

definition inst_pos :: "code_func \<Rightarrow> nat \<Rightarrow> nat \<Rightarrow> nat" where
  "inst_pos f j n = blocks_len (take j (next_blocks (cf_blocks f))) + insts_len (next_id f j) (take n (cb_insts (cf_blocks f ! j)))"

definition code_position :: "code_func list \<Rightarrow> nat \<Rightarrow> nat \<Rightarrow> nat \<Rightarrow> nat" where
  "code_position fs k j n = funcs_len (take k fs) + inst_pos (fs ! k) j n"

definition code_inst :: "code_func list \<Rightarrow> nat \<Rightarrow> nat \<Rightarrow> nat \<Rightarrow> coded_inst" where
  "code_inst fs k j n = cb_insts (cf_blocks (fs ! k) ! j) ! n"

definition code_index :: "code_func list \<Rightarrow> nat \<Rightarrow> nat \<Rightarrow> nat \<Rightarrow> bool" where
  "code_index fs k j n \<longleftrightarrow> k < length fs \<and> j < length (cf_blocks (fs ! k)) \<and> n < length (cb_insts (cf_blocks (fs ! k) ! j))"

lemma next_blocks_at: "j < length (cf_blocks f) \<Longrightarrow> next_blocks (cf_blocks f) ! j = (cf_blocks f ! j, next_id f j)"
  by (simp add: next_blocks_nth next_id_def)

text \<open>The instruction \<open>ci\<close> was encoded for \<open>pc\<close>, and its bytes are at \<open>pos\<close>.\<close>

definition encoded_at :: "serialization_context \<Rightarrow> coded_inst \<Rightarrow> nat option \<Rightarrow> nat \<Rightarrow> u8 list \<Rightarrow> nat \<Rightarrow> bool" where
  "encoded_at refs ci nxt pc img pos \<longleftrightarrow>
     (\<exists>enc. encode_inst (fst ci) (fst (snd ci)) nxt pc refs = Some (Inr enc) \<and> located img pos (be_bytes enc))"

lemma encoded_at_append: "encoded_at refs ci nxt pc ys pos \<Longrightarrow> encoded_at refs ci nxt pc (xs @ ys @ zs) (length xs + pos)"
  unfolding encoded_at_def using located_append by blast

lemma emit_func_located:
  assumes "emit_blocks refs base (next_blocks (cf_blocks f)) ([], fx) = Some (Inr (bytes, fx'))"
  shows "length bytes = code_size f"
    and "\<lbrakk>j < length (cf_blocks f); n < length (cb_insts (cf_blocks f ! j))\<rbrakk> \<Longrightarrow>
      encoded_at refs (cb_insts (cf_blocks f ! j) ! n) (next_id f j) (base + inst_pos f j n) bytes (inst_pos f j n)"
  using emit_blocks_located[OF assms] by (auto simp: len_defs encoded_at_def inst_pos_def next_blocks_at)

lemma emit_funcs_located:
  assumes "emit_funcs offs lits base fs fx = Some (Inr (codes, fx'))"
  shows "length (concat codes) = funcs_len fs \<and>
    (\<forall>k j n. code_index fs k j n \<longrightarrow>
       encoded_at (func_refs offs lits (fs ! k) (base + funcs_len (take k fs))) (code_inst fs k j n) (next_id (fs ! k) j)
         (base + code_position fs k j n) (concat codes) (code_position fs k j n))"
  using assms
proof (induction fs arbitrary: base fx codes)
  case (Cons f fs)
  obtain bytes fx1 codes' where e: "emit_blocks (func_refs offs lits f base) base (next_blocks (cf_blocks f)) ([], fx) = Some (Inr (bytes, fx1))"
    "emit_funcs offs lits (base + length bytes) fs fx1 = Some (Inr (codes', fx'))" and codes: "codes = bytes # codes'"
    using Cons.prems by (auto simp: map_sum_is_Inr split: option.splits sum.splits)
  note f = emit_func_located[OF e(1)]
  have IH: "length (concat codes') = funcs_len fs"
    "\<And>k j n. code_index fs k j n \<Longrightarrow>
       encoded_at (func_refs offs lits (fs ! k) (base + length bytes + funcs_len (take k fs))) (code_inst fs k j n) (next_id (fs ! k) j)
         (base + length bytes + code_position fs k j n) (concat codes') (code_position fs k j n)"
    using Cons.IH[OF e(2)] by blast+
  have "encoded_at (func_refs offs lits ((f # fs) ! k) (base + funcs_len (take k (f # fs)))) (code_inst (f # fs) k j n) (next_id ((f # fs) ! k) j)
      (base + code_position (f # fs) k j n) (concat codes) (code_position (f # fs) k j n)" if i: "code_index (f # fs) k j n" for k j n
  proof (cases k)
    case 0
    then have "encoded_at (func_refs offs lits f base) (code_inst (f # fs) k j n) (next_id f j) (base + inst_pos f j n) bytes (inst_pos f j n)"
      using f(2)[of j n] i by (simp add: code_index_def code_inst_def)
    then show ?thesis using 0 encoded_at_append[of _ _ _ _ bytes _ "[]" "concat codes'"] by (simp add: codes code_position_def)
  next
    case (Suc k')
    then have i': "code_index fs k' j n" using i by (simp add: code_index_def)
    show ?thesis using IH(2)[OF i', THEN encoded_at_append, of bytes "[]"] Suc f(1)
      by (simp add: codes code_position_def code_inst_def add.assoc)
  qed
  then show ?case using IH(1) f(1) codes by simp
qed (simp add: code_index_def)

subsection \<open>The tables\<close>

lemma plan_func_simp [simp]: "plan_func f (offs, lits, next_offset) =
    (offs(cf_name f \<mapsto> next_offset), collect_literals f lits, next_offset + code_size f)"
  by (simp add: plan_func_def)

lemma plan_tables:
  "snd (fold plan_func fs (offs, lits, next_offset)) = (fold collect_literals fs lits, next_offset + funcs_len fs)"
  by (induction fs arbitrary: offs lits next_offset) (simp_all add: add.assoc)

lemma plan_offsets_other:
  "f \<notin> cf_name ` set fs \<Longrightarrow> fst (fold plan_func fs (offs, lits, next_offset)) f = offs f"
  by (induction fs arbitrary: offs lits next_offset) simp_all

lemma plan_offsets:
  assumes "distinct (map cf_name fs)" "k < length fs"
  shows "fst (fold plan_func fs (offs, lits, next_offset)) (cf_name (fs ! k)) = Some (next_offset + funcs_len (take k fs))"
  using assms
proof (induction fs arbitrary: k offs lits next_offset)
  case (Cons f fs)
  then show ?case by (cases k) (simp_all add: plan_offsets_other add.assoc)
qed simp

lemma offsets_from_other:
  "b \<notin> (cb_id \<circ> fst) ` set bns \<Longrightarrow> offsets_from off bns offs b = offs b"
  by (induction bns arbitrary: off offs) simp_all

lemma offsets_from_at:
  assumes "distinct (map (cb_id \<circ> fst) bns)" "j < length bns"
  shows "offsets_from off bns offs (cb_id (fst (bns ! j))) = Some (off + blocks_len (take j bns))"
  using assms
proof (induction bns arbitrary: j off offs)
  case (Cons bn bns)
  then show ?case by (cases j) (simp_all add: offsets_from_other image_iff add.assoc)
qed simp

lemma inst_pos_0: "inst_pos f j 0 = blocks_len (take j (next_blocks (cf_blocks f)))"
  by (simp add: inst_pos_def)

lemma func_block_offsets_at:
  assumes "distinct (map cb_id (cf_blocks f))" "j < length (cf_blocks f)"
  shows "func_block_offsets f off (cb_id (cf_blocks f ! j)) = Some (off + inst_pos f j 0)"
proof -
  have "map (cb_id \<circ> fst) (next_blocks (cf_blocks f)) = map cb_id (cf_blocks f)"
    using map_map[of cb_id fst "next_blocks (cf_blocks f)"] by simp
  then show ?thesis using offsets_from_at[of "next_blocks (cf_blocks f)" j off] assms
    by (simp add: func_block_offsets_def inst_pos_0 next_blocks_at)
qed

lemma func_block_offsets_dom:
  assumes "func_block_offsets f off b = Some x"
  shows "\<exists>j < length (cf_blocks f). b = cb_id (cf_blocks f ! j)"
proof (rule ccontr)
  assume "\<not> ?thesis"
  then have "b \<notin> cb_id ` set (cf_blocks f)" by (metis (no_types, lifting) image_iff in_set_conv_nth)
  moreover have "(cb_id \<circ> fst) ` set (next_blocks (cf_blocks f)) = cb_id ` set (cf_blocks f)"
    by (metis image_comp list.set_map next_blocks_fst)
  ultimately show False using assms by (simp add: func_block_offsets_def offsets_from_other)
qed

subsubsection \<open>Which literals a module has\<close>

lemma collect_all: "fold collect_literals fs lits = fold enter_literal (map coded_literal (concat (map cb_insts (concat (map cf_blocks fs))))) lits"
  by (induction fs arbitrary: lits) (simp_all add: collect_literals_def note_literal_def[abs_def] fold_map comp_def)

definition names_literal :: "coded_inst \<Rightarrow> string \<Rightarrow> u8 list \<Rightarrow> bool" where
  "names_literal ci l b \<longleftrightarrow> coded_literal ci = Some (l, b)"

subsection \<open>The whole module\<close>

text \<open>What the instructions of function \<open>k\<close> are encoded against.\<close>

definition module_refs :: "code_func list \<Rightarrow> nat \<Rightarrow> serialization_context" where
  "module_refs fs k =
     func_refs (fst (fold plan_func fs (Map.empty, [], 0))) (fst (place_literals (funcs_len fs) (fold collect_literals fs [])))
       (fs ! k) (funcs_len (take k fs))"

lemma encode_module_emits:
  assumes "encode_module fs = Some (Inr e)"
  shows "emit_funcs (fst (fold plan_func fs (Map.empty, [], 0))) (fst (place_literals (funcs_len fs) (fold collect_literals fs [])))
      0 fs [] = Some (Inr (en_code e, en_fixups e))"
    and "en_literals e = snd (place_literals (funcs_len fs) (fold collect_literals fs []))"
proof -
  obtain offs lits next_offset where p: "fold plan_func fs (Map.empty, [], 0) = (offs, lits, next_offset)"
    by (rule prod_cases3)
  then have t: "lits = fold collect_literals fs []" "next_offset = funcs_len fs"
    using plan_tables[of fs Map.empty "[]" 0] by simp_all
  obtain loffs bytes where l: "place_literals next_offset lits = (loffs, bytes)" by (cases "place_literals next_offset lits")
  have "emit_funcs offs loffs 0 fs [] = Some (Inr (en_code e, en_fixups e)) \<and> en_literals e = bytes"
    using assms unfolding encode_module_def p prod.case l by (auto simp: map_sum_is_Inr)
  then show "emit_funcs (fst (fold plan_func fs (Map.empty, [], 0))) (fst (place_literals (funcs_len fs) (fold collect_literals fs [])))
      0 fs [] = Some (Inr (en_code e, en_fixups e))"
    "en_literals e = snd (place_literals (funcs_len fs) (fold collect_literals fs []))"
    using p l by (simp_all only: t fst_conv snd_conv)
qed

lemma module_encoded:
  assumes "encode_module fs = Some (Inr e)" "code_index fs k j n"
  shows "encoded_at (module_refs fs k) (code_inst fs k j n) (next_id (fs ! k) j) (code_position fs k j n) (image e) (code_position fs k j n)"
  using emit_funcs_located[OF encode_module_emits(1)[OF assms(1)]] assms(2) encoded_at_append[of _ _ _ _ "concat (en_code e)" _ "[]" "en_literals e"]
  by (simp add: module_refs_def image_def)

lemma module_code_length: "encode_module fs = Some (Inr e) \<Longrightarrow> length (concat (en_code e)) = funcs_len fs"
  using emit_funcs_located[OF encode_module_emits(1)] by blast

lemma module_function_offset:
  "\<lbrakk>distinct (map cf_name fs); k' < length fs\<rbrakk> \<Longrightarrow>
    function_offsets (module_refs fs k) (cf_name (fs ! k')) = Some (code_position fs k' 0 0)"
  using plan_offsets[of fs k' Map.empty "[]" 0] by (simp add: module_refs_def func_refs_def code_position_def inst_pos_def)

lemma module_function_offset_origin:
  assumes "function_offsets (module_refs fs k) g = Some off" "distinct (map cf_name fs)"
  shows "\<exists>k' < length fs. off = code_position fs k' 0 0"
proof -
  have "g \<in> cf_name ` set fs"
    using assms(1) plan_offsets_other[of g fs Map.empty "[]" 0] by (auto simp: module_refs_def func_refs_def)
  then obtain k' where "k' < length fs" "g = cf_name (fs ! k')" by (metis (no_types, lifting) image_iff in_set_conv_nth)
  then show ?thesis using module_function_offset[OF assms(2)] assms(1) by auto
qed

lemma module_block_offset:
  "\<lbrakk>distinct (map cb_id (cf_blocks (fs ! k))); j < length (cf_blocks (fs ! k))\<rbrakk> \<Longrightarrow>
    block_offsets (module_refs fs k) (cb_id (cf_blocks (fs ! k) ! j)) = Some (code_position fs k j 0)"
  by (simp add: module_refs_def func_refs_def func_block_offsets_at code_position_def)

lemma module_block_offset_origin:
  assumes "block_offsets (module_refs fs k) b = Some x" "distinct (map cb_id (cf_blocks (fs ! k)))"
  shows "\<exists>j < length (cf_blocks (fs ! k)). b = cb_id (cf_blocks (fs ! k) ! j) \<and> x = code_position fs k j 0"
proof -
  obtain j where "j < length (cf_blocks (fs ! k))" "b = cb_id (cf_blocks (fs ! k) ! j)"
    using func_block_offsets_dom assms(1) by (fastforce simp: module_refs_def func_refs_def)
  then show ?thesis using module_block_offset[OF assms(2)] assms(1) by auto
qed

lemma module_literal_offset:
  assumes m: "encode_module fs = Some (Inr e)" and i: "code_index fs k j n" "names_literal (code_inst fs k j n) l b"
    and same: "\<And>k j n b'. code_index fs k j n \<Longrightarrow> names_literal (code_inst fs k j n) l b' \<Longrightarrow> b' = b"
  shows "\<exists>p. literal_offsets (module_refs fs k) l = Some p \<and> funcs_len fs \<le> p \<and> located (image e) p b"
proof -
  let ?cis = "concat (map cb_insts (concat (map cf_blocks fs)))"
  have in_cis: "ci \<in> set ?cis \<longleftrightarrow> (\<exists>k j n. code_index fs k j n \<and> ci = code_inst fs k j n)" for ci
  proof
    assume "ci \<in> set ?cis"
    then obtain f b where "f \<in> set fs" "b \<in> set (cf_blocks f)" "ci \<in> set (cb_insts b)" by auto
    then show "\<exists>k j n. code_index fs k j n \<and> ci = code_inst fs k j n"
      unfolding in_set_conv_nth code_index_def code_inst_def by blast
  qed (auto simp: code_index_def code_inst_def intro!: bexI[OF _ nth_mem])
  have "code_inst fs k j n \<in> set ?cis" using i(1) in_cis by blast
  moreover have "Some (l, b) = coded_literal (code_inst fs k j n)" using i(2) by (simp add: names_literal_def)
  ultimately have lit: "Some (l, b) \<in> set (map coded_literal ?cis)" unfolding list.set_map by (rule rev_image_eqI)
  have only: "b' = b" if mem: "Some (l, b') \<in> set (map coded_literal ?cis)" for b'
  proof -
    obtain ci where ci: "ci \<in> set ?cis" "Some (l, b') = coded_literal ci" using mem unfolding list.set_map by (rule imageE)
    then obtain k j n where "code_index fs k j n" "ci = code_inst fs k j n" using in_cis by blast
    then show ?thesis using same ci(2) by (simp add: names_literal_def)
  qed
  obtain p where p: "fst (place_literals (funcs_len fs) (fold collect_literals fs [])) l = Some (funcs_len fs + p)"
    "located (en_literals e) p b"
    using literal_table[OF lit only, of "funcs_len fs"] unfolding collect_all encode_module_emits(2)[OF m] by blast
  then have "located (image e) (funcs_len fs + p) b"
    using located_post[of "en_literals e" p b "concat (en_code e)"] module_code_length[OF m] by (simp add: image_def)
  then show ?thesis using p(1) by (auto simp: module_refs_def func_refs_def)
qed

subsection \<open>Alignment and bounds\<close>

lemma inst_len_4: "4 dvd inst_len nxt ci"
  by (auto simp: inst_len_def byte_len_def byte_len_for_def split: option.splits)

lemma len_4: "4 dvd insts_len nxt cis" "4 dvd blocks_len bns" "4 dvd funcs_len fs"
proof -
  show i: "4 dvd insts_len nxt cis" for cis nxt by (induction cis) (simp_all add: inst_len_4)
  show b: "4 dvd blocks_len bns" for bns by (induction bns) (simp_all add: len_defs i)
  show "4 dvd funcs_len fs" by (induction fs) (simp_all add: len_defs b)
qed

lemma code_position_4: "4 dvd code_position fs k j n"
  by (simp add: code_position_def inst_pos_def len_4)

lemma insts_len_take_Suc: "n < length cis \<Longrightarrow> insts_len nxt (take (Suc n) cis) = insts_len nxt (take n cis) + inst_len nxt (cis ! n)"
  by (simp add: take_Suc_conv_app_nth insts_len_def)

lemma blocks_len_take_Suc: "j < length bns \<Longrightarrow> blocks_len (take (Suc j) bns) = blocks_len (take j bns) + block_len (bns ! j)"
  by (simp add: take_Suc_conv_app_nth blocks_len_def)

lemma blocks_len_mono: "i \<le> j \<Longrightarrow> blocks_len (take i bns) \<le> blocks_len (take j bns)"
proof -
  assume "i \<le> j"
  then have "take j bns = take i bns @ drop i (take j bns)" by (metis append_take_drop_id min.absorb1 take_take)
  then have "blocks_len (take j bns) = blocks_len (take i bns) + blocks_len (drop i (take j bns))"
    unfolding blocks_len_def by (metis map_append sum_list_append)
  then show ?thesis by simp
qed

text \<open>The end of the last instruction of a block is the start of the next block.\<close>

lemma last_inst_end:
  assumes "code_index fs k j n" "Suc n = length (cb_insts (cf_blocks (fs ! k) ! j))"
  shows "code_position fs k j n + inst_len (next_id (fs ! k) j) (code_inst fs k j n) = code_position fs k (Suc j) 0"
proof -
  have "insts_len (next_id (fs ! k) j) (cb_insts (cf_blocks (fs ! k) ! j)) =
      insts_len (next_id (fs ! k) j) (take n (cb_insts (cf_blocks (fs ! k) ! j))) + inst_len (next_id (fs ! k) j) (code_inst fs k j n)"
    using insts_len_take_Suc[of n "cb_insts (cf_blocks (fs ! k) ! j)"] assms by (simp add: code_index_def code_inst_def)
  then show ?thesis using blocks_len_take_Suc[of j "next_blocks (cf_blocks (fs ! k))"] assms
    by (simp add: code_index_def code_position_def inst_pos_def next_blocks_at len_defs)
qed

lemma block_start_mono: "i \<le> j \<Longrightarrow> code_position fs k i 0 \<le> code_position fs k j 0"
  by (simp add: code_position_def inst_pos_0 blocks_len_mono)

lemma block_start_le: "code_position fs k j 0 \<le> code_position fs k j n"
  by (simp add: code_position_def inst_pos_def)

lemma module_inst_in_code:
  assumes "encode_module fs = Some (Inr e)" "code_index fs k j n"
  shows "code_position fs k j n + inst_len (next_id (fs ! k) j) (code_inst fs k j n) \<le> funcs_len fs"
proof -
  have "encoded_at (module_refs fs k) (code_inst fs k j n) (next_id (fs ! k) j) (code_position fs k j n) (concat (en_code e))
      (code_position fs k j n)" and "length (concat (en_code e)) = funcs_len fs"
    using emit_funcs_located[OF encode_module_emits(1)[OF assms(1)]] assms(2) by (simp_all add: module_refs_def)
  then show ?thesis using inst_length by (fastforce simp: encoded_at_def located_def inst_len_def)
qed

lemma module_inst_within:
  assumes "encode_module fs = Some (Inr e)" "code_index fs k j n"
  shows "code_position fs k j n + inst_len (next_id (fs ! k) j) (code_inst fs k j n) \<le> length (image e)"
  using module_inst_in_code[OF assms] module_code_length[OF assms(1)] by (simp add: image_def)

lemma block_start_within:
  assumes "encode_module fs = Some (Inr e)" "k < length fs"
  shows "code_position fs k j 0 \<le> length (image e)"
proof -
  have "blocks_len (take j (next_blocks (cf_blocks (fs ! k)))) \<le> code_size (fs ! k)"
    unfolding len_defs by (metis append_take_drop_id blocks_len_def le_add1 map_append sum_list_append)
  moreover have "funcs_len (take k fs) + code_size (fs ! k) = funcs_len (take (Suc k) fs)"
    using assms(2) by (simp add: take_Suc_conv_app_nth funcs_len_def)
  moreover have "funcs_len (take (Suc k) fs) \<le> funcs_len fs"
    by (metis append_take_drop_id funcs_len_def le_add1 map_append sum_list_append)
  ultimately show ?thesis using module_code_length[OF assms(1)] by (simp add: code_position_def inst_pos_0 image_def)
qed

lemma module_branch_layout:
  assumes m: "encode_module fs = Some (Inr e)" and i: "code_index fs k j n" "Suc n = length (cb_insts (cf_blocks (fs ! k) ! j))"
    and d: "distinct (map cb_id (cf_blocks (fs ! k)))" and sz: "length (image e) < 2 ^ 63"
  shows "branch_layout (fst (code_inst fs k j n)) (fst (snd (code_inst fs k j n))) (next_id (fs ! k) j) (block_offsets (module_refs fs k))
    (code_position fs k j n)"
proof -
  let ?len = "byte_len (fst (code_inst fs k j n)) (fst (snd (code_inst fs k j n))) (next_id (fs ! k) j)"
  have len: "inst_len (next_id (fs ! k) j) (code_inst fs k j n) = ?len" by (simp add: inst_len_def)
  note within = module_inst_within[OF m i(1), unfolded len]
  note last = last_inst_end[OF i, unfolded len]
  have "aligned off \<and> (off \<le> code_position fs k j n \<or> code_position fs k j n + ?len \<le> off)"
    if off: "block_offsets (module_refs fs k) b = Some off" for b off
  proof -
    obtain j' where j': "j' < length (cf_blocks (fs ! k))" "off = code_position fs k j' 0"
      using module_block_offset_origin[OF off d] by blast
    have "off \<le> length (image e)"
      using block_start_within[OF m] i(1) j'(2) by (simp add: code_index_def)
    then show ?thesis
      using block_start_mono[of j' j fs k] block_start_mono[of "Suc j" j' fs k] block_start_le[of fs k j n] last j'(2) code_position_4 sz
      by (cases "j' \<le> j") (auto simp: aligned_def)
  qed
  moreover have "block_offsets (module_refs fs k) nb = Some (code_position fs k j n + ?len)" if "next_id (fs ! k) j = Some nb" for nb
    using that last module_block_offset[OF d, of "Suc j"] by (auto simp: next_id_def split: if_splits)
  ultimately show ?thesis using within sz code_position_4[of fs k j n] by (auto simp: branch_layout_def aligned_def)
qed

subsection \<open>Properties\<close>

text \<open>
  (C13) The layout is exact: in a module with distinct function names and block ids, every
  instruction was encoded for the address at which its bytes are in the image, against tables that
  hold, for every function of the module and every block of its own function, the address of its
  first byte.
\<close>

theorem module_layout_exact:
  assumes "encode_module fs = Some (Inr e)" "distinct (map cf_name fs)" "list_all (\<lambda>f. distinct (map cb_id (cf_blocks f))) fs"
    and "code_index fs k j n"
  shows "\<exists>enc refs. encode_inst (fst (code_inst fs k j n)) (fst (snd (code_inst fs k j n))) (next_id (fs ! k) j)
        (code_position fs k j n) refs = Some (Inr enc)
    \<and> located (image e) (code_position fs k j n) (be_bytes enc)
    \<and> (\<forall>k' < length fs. function_offsets refs (cf_name (fs ! k')) = Some (code_position fs k' 0 0))
    \<and> (\<forall>j' < length (cf_blocks (fs ! k)). block_offsets refs (cb_id (cf_blocks (fs ! k) ! j')) = Some (code_position fs k j' 0))"
proof -
  have "distinct (map cb_id (cf_blocks (fs ! k)))" using assms(3,4) by (simp add: code_index_def list_all_length)
  then show ?thesis
    using module_encoded[OF assms(1,4)] module_function_offset[OF assms(2)] module_block_offset unfolding encoded_at_def by blast
qed

text \<open>
  (C20) Branches of a module reach their blocks: the words of a terminating branch are at its position
  in the image, and running them, whatever the registers and flags, ends at the first byte of the block
  the branch names for that state.
\<close>

theorem module_branches_reach:
  assumes m: "encode_module fs = Some (Inr e)" and d: "distinct (map cb_id (cf_blocks (fs ! k)))" and sz: "length (image e) < 2 ^ 63"
    and i: "code_index fs k j n" "Suc n = length (cb_insts (cf_blocks (fs ! k) ! j))"
    and op: "code_inst fs k j n = (opcode, inst, lit)" "opcode \<in> {CtlOp A_B, CtlOp A_BCond, CtlOp A_Cbnz}" "numbered inst"
  shows "\<exists>ws t j'. located (image e) (code_position fs k j n) (concat (map to_le_bytes ws))
    \<and> branch_destination s opcode inst = Some t \<and> j' < length (cf_blocks (fs ! k)) \<and> cb_id (cf_blocks (fs ! k) ! j') = t
    \<and> run_branch s (int (code_position fs k j n)) ws = int (code_position fs k j' 0)"
proof -
  obtain enc where enc: "encode_inst opcode inst (next_id (fs ! k) j) (code_position fs k j n) (module_refs fs k) = Some (Inr enc)"
    "located (image e) (code_position fs k j n) (be_bytes enc)"
    using module_encoded[OF m i(1)] by (auto simp: encoded_at_def op(1))
  have "encode_branch opcode inst (next_id (fs ! k) j) (block_offsets (module_refs fs k)) (code_position fs k j n) = Some (Inr enc)"
    using enc(1) op(2) by (auto simp: encode_inst_def)
  from branch_lands[OF this module_branch_layout[OF m i d sz, unfolded op(1) fst_conv snd_conv] op(3), of s]
  show ?thesis using enc(2) module_block_offset_origin[OF _ d] by metis
qed

text \<open>
  (C21) Calls within a module reach their function: the word of a call to a function of the module, at the
  call's position in the image, branches to the first byte of that function.
\<close>

theorem module_calls_reach:
  assumes m: "encode_module fs = Some (Inr e)" and d: "distinct (map cf_name fs)" and sz: "length (image e) < 2 ^ 63"
    and i: "code_index fs k j n" "code_inst fs k j n = (CtlOp A_Call, inst, lit)"
    and f: "callee inst = Some (cf_name (fs ! k'))" "k' < length fs"
  shows "\<exists>w. located (image e) (code_position fs k j n) (to_le_bytes w)
    \<and> next_pc s (int (code_position fs k j n)) w = int (code_position fs k' 0 0)"
proof -
  let ?offs = "function_offsets (module_refs fs k)"
  obtain enc where enc: "encode_inst (CtlOp A_Call) inst (next_id (fs ! k) j) (code_position fs k j n) (module_refs fs k) = Some (Inr enc)"
    "located (image e) (code_position fs k j n) (be_bytes enc)"
    using module_encoded[OF m i(1)] by (auto simp: encoded_at_def i(2))
  have "encode_call ?offs inst (code_position fs k j n) \<noteq> None"
    using enc(1) by (cases "encode_call ?offs inst (code_position fs k j n)") (simp_all add: encode_inst_def)
  then obtain y where y: "encode_call ?offs inst (code_position fs k j n) = Some y" by blast
  then obtain r where r: "encode_call ?offs inst (code_position fs k j n) = Some (Inr r)"
    using enc(1) by (cases y) (simp_all add: encode_inst_def)
  have "aligned off" if off: "?offs g = Some off" for g off
  proof -
    obtain k0 where k0: "k0 < length fs" "off = code_position fs k0 0 0" using module_function_offset_origin[OF off d] by blast
    show ?thesis unfolding k0(2) aligned_def using block_start_within[OF m k0(1), of 0] sz code_position_4[of fs k0 0 0] by simp
  qed
  moreover have "aligned (code_position fs k j n)"
    using module_inst_within[OF m i(1)] sz code_position_4 by (simp add: aligned_def)
  ultimately obtain off w where w: "r = LocalCall w" "?offs (cf_name (fs ! k')) = Some off" "next_pc s (int (code_position fs k j n)) w = int off"
    using call_lands[OF r, of s] f(1) module_function_offset[OF d f(2), of k] by (cases r) auto
  then have "be_bytes enc = to_le_bytes w" using enc(1) r by (auto simp: encode_inst_def word_encoding_def)
  then show ?thesis using w enc(2) module_function_offset[OF d f(2), of k] by auto
qed

text \<open>
  (C22) Literals are found: in a module whose instructions agree on the bytes of a label, the three words of an
  instruction that names the label leave in its register the address at which the label's bytes are.
\<close>

theorem module_literals_found:
  assumes m: "encode_module fs = Some (Inr e)" and sz: "length (image e) < 2 ^ 63"
    and i: "code_index fs k j n" "code_inst fs k j n = (CtlOp A_AdrLiteral, inst, Some bytes)" "numbered inst" "literal_label inst = Some l"
    and same: "\<And>k j n b'. code_index fs k j n \<Longrightarrow> names_literal (code_inst fs k j n) l b' \<Longrightarrow> b' = bytes"
  shows "\<exists>ws p d. located (image e) (code_position fs k j n) (concat (map to_le_bytes ws)) \<and> num XReg Rd inst = Some d
    \<and> exec_addrs (of_nat (code_position fs k j n)) ws r d = of_nat p \<and> located (image e) p bytes"
proof -
  let ?pc = "code_position fs k j n"
  have "names_literal (code_inst fs k j n) l bytes" by (simp add: names_literal_def coded_literal_def literal_for_inst_def i)
  then obtain p where p: "literal_offsets (module_refs fs k) l = Some p" "funcs_len fs \<le> p" "located (image e) p bytes"
    using module_literal_offset[OF m i(1)] same by metis
  obtain enc where enc: "encode_inst (CtlOp A_AdrLiteral) inst (next_id (fs ! k) j) ?pc (module_refs fs k) = Some (Inr enc)"
    "located (image e) ?pc (be_bytes enc)"
    using module_encoded[OF m i(1)] by (auto simp: encoded_at_def i(2))
  then obtain d where d: "num XReg Rd inst = Some d"
    and e: "encode_pc_relative_address d (signed_of 64 p - signed_of 64 ?pc) ''literal'' = Inr enc"
    using p(1) i(4) by (auto simp: encode_inst_def encode_adr_literal_def Option.bind_eq_Some_conv)
  have "p \<le> length (image e)" using p(3) by (auto simp: located_def)
  moreover have le: "?pc \<le> p" using module_inst_in_code[OF m i(1)] p(2) by simp
  ultimately have delta: "signed_of 64 p - signed_of 64 ?pc = int (p - ?pc)" using sz by (simp add: signed_of_def of_nat_diff)
  define ws where "ws = pc_relative_words d (int (p - ?pc))"
  have small: "p - ?pc < 2 ^ 24" and ws: "be_bytes enc = concat (map to_le_bytes ws)"
    using e unfolding delta by (auto simp: encode_pc_relative_address_def in_range_def ws_def split: if_splits)
  have "exec_addrs (of_nat ?pc) ws r d = of_nat ?pc + of_nat (p - ?pc)"
    using exec_pc_relative[OF num_5[OF i(3) d], of "of_nat ?pc" "int (p - ?pc)" r] small by (simp add: ws_def)
  also have "\<dots> = of_nat p" using le by (simp flip: of_nat_add)
  finally show ?thesis using enc(2) d p(3) ws by auto
qed

subsubsection \<open>An example\<close>

definition example_main :: code_func where
  "example_main = \<lparr>cf_name = ''main'', cf_blocks =
     [\<lparr>cb_id = 10, cb_insts =
         [(CtlOp A_Call, no_operands\<lparr>callee := Some ''g''\<rparr>, None),
          (CtlOp A_AdrLiteral, no_operands\<lparr>rd := Some (gpr 2), literal_label := Some ''s''\<rparr>, Some [42]),
          (CtlOp A_Cbnz, no_operands\<lparr>rn := Some (gpr 0), target := Some 30, not_taken := Some 20\<rparr>, None)]\<rparr>,
      \<lparr>cb_id = 20, cb_insts = [(CtlOp A_Ret, no_operands, None)]\<rparr>,
      \<lparr>cb_id = 30, cb_insts = [(CtlOp A_Ret, no_operands, None)]\<rparr>]\<rparr>"

definition example_g :: code_func where
  "example_g = \<lparr>cf_name = ''g'', cf_blocks = [\<lparr>cb_id = 7, cb_insts = [(CtlOp A_Ret, no_operands, None)]\<rparr>]\<rparr>"

lemma example_lens:
  "byte_len (CtlOp A_Cbnz) (no_operands\<lparr>rn := Some (gpr 0), target := Some 30, not_taken := Some 20\<rparr>) (Some 20) = 4"
  "byte_len (CtlOp A_Call) i nxt = 4" "byte_len (CtlOp A_Ret) i nxt = 4" "byte_len (CtlOp A_AdrLiteral) i nxt = 12"
  by (simp_all add: byte_len_def byte_len_for_def branch_words_def no_operands_def)

lemma example_insts:
  "encode_call [''main'' \<mapsto> 0, ''g'' \<mapsto> 28] (no_operands\<lparr>callee := Some ''g''\<rparr>) 0 = Some (Inr (LocalCall 0x94000007))"
  "encode_adr_literal [''s'' \<mapsto> 32] (no_operands\<lparr>rd := Some (gpr 2), literal_label := Some ''s''\<rparr>) 4 =
    Some (Inr \<lparr>be_bytes = concat (map to_le_bytes (pc_relative_words 2 28)), be_fixups = []\<rparr>)"
  "encode_branch (CtlOp A_Cbnz) (no_operands\<lparr>rn := Some (gpr 0), target := Some 30, not_taken := Some 20\<rparr>) (Some 20)
    [10 \<mapsto> 0, 20 \<mapsto> 20, 30 \<mapsto> 24] 16 = Some (Inr \<lparr>be_bytes = to_le_bytes 0xb5000040, be_fixups = []\<rparr>)"
  "encode_fixed_inst (CtlOp A_Ret) no_operands = Some (Some 0xd65f03c0)"
  by (simp_all add: encode_call_def encode_adr_literal_def encode_pc_relative_address_def encode_branch_def branch_words_def
     no_operands_def delta_words_def signed_of_def signed_divide_int_def in_range_def num_def gpr_def imm32_def
     encode_branch_word_def block_offset_def encode_cbnz_def encode_fixed_inst_def Let_def)

lemma length_pc_relative_words: "length (pc_relative_words d delta) = 3"
  by (simp add: pc_relative_words_def Let_def)

lemma example_encodes: "\<exists>e. encode_module [example_main, example_g] = Some (Inr e)"
  by (simp add: encode_module_def example_main_def example_g_def collect_literals_def note_literal_def
     coded_literal_def enter_literal_def literal_for_inst_def place_literals_def code_size_def block_len_def inst_len_def example_lens example_insts
     encode_inst_def func_refs_def func_block_offsets_def word_encoding_def length_le_bytes length_pc_relative_words)

lemma example_encoded: obtains e where "encode_module [example_main, example_g] = Some (Inr e)" "length (image e) < 2 ^ 63"
proof -
  obtain e where e: "encode_module [example_main, example_g] = Some (Inr e)" using example_encodes by blast
  have "length (en_literals e) = 1"
    using encode_module_emits(2)[OF e] by (simp add: example_main_def example_g_def collect_literals_def note_literal_def
       coded_literal_def enter_literal_def literal_for_inst_def place_literals_def)
  moreover have "funcs_len [example_main, example_g] = 32"
    by (simp add: example_main_def example_g_def code_size_def block_len_def inst_len_def example_lens)
  ultimately have "length (image e) < 2 ^ 63" using module_code_length[OF e] by (simp add: image_def)
  then show ?thesis using e that by blast
qed

lemma example_positions:
  "code_position [example_main, example_g] 0 0 0 = 0" "code_position [example_main, example_g] 0 0 (Suc 0) = 4"
  "code_position [example_main, example_g] 0 0 2 = 16" "code_position [example_main, example_g] 0 2 0 = 24"
  "code_position [example_main, example_g] (Suc 0) 0 0 = 28"
  by (simp_all add: code_position_def inst_pos_def next_id_def example_main_def example_g_def code_size_def block_len_def
     inst_len_def example_lens numeral_2_eq_2)

theorem module_layout_exact_witness:
  "\<exists>e enc refs. encode_module [example_main, example_g] = Some (Inr e)
    \<and> encode_inst (CtlOp A_Call) (no_operands\<lparr>callee := Some ''g''\<rparr>) (Some 20) 0 refs = Some (Inr enc)
    \<and> located (image e) 0 (be_bytes enc) \<and> function_offsets refs ''g'' = Some 28 \<and> block_offsets refs 30 = Some 24"
proof -
  obtain e where e: "encode_module [example_main, example_g] = Some (Inr e)" using example_encodes by blast
  have d: "distinct (map cf_name [example_main, example_g])" "list_all (\<lambda>f. distinct (map cb_id (cf_blocks f))) [example_main, example_g]"
    "code_index [example_main, example_g] 0 0 0"
    by (simp_all add: example_main_def example_g_def code_index_def)
  have c: "code_inst [example_main, example_g] 0 0 0 = (CtlOp A_Call, no_operands\<lparr>callee := Some ''g''\<rparr>, None)"
    "next_id example_main 0 = Some 20" "cf_name example_g = ''g''" "length (cf_blocks example_main) = 3" "cb_id (cf_blocks example_main ! 2) = 30"
    by (simp_all add: code_inst_def next_id_def example_main_def example_g_def)
  from module_layout_exact[OF e d] obtain enc refs where
    r: "encode_inst (CtlOp A_Call) (no_operands\<lparr>callee := Some ''g''\<rparr>) (Some 20) 0 refs = Some (Inr enc)" "located (image e) 0 (be_bytes enc)"
    and f: "\<forall>k' < length [example_main, example_g]. function_offsets refs (cf_name ([example_main, example_g] ! k')) =
        Some (code_position [example_main, example_g] k' 0 0)"
    and b: "\<forall>j' < length (cf_blocks example_main). block_offsets refs (cb_id (cf_blocks example_main ! j')) =
        Some (code_position [example_main, example_g] 0 j' 0)"
    by (auto simp: c example_positions)
  show ?thesis using e r f[rule_format, of 1] b[rule_format, of 2] c by (auto simp: example_positions)
qed

theorem module_branches_reach_witness:
  "\<exists>e ws. encode_module [example_main, example_g] = Some (Inr e) \<and> located (image e) 16 (concat (map to_le_bytes ws))
    \<and> run_branch \<lparr>cpu_regs = (\<lambda>_. 1), cpu_flags = \<lparr>flag_n = True, flag_z = False, flag_c = False, flag_v = False\<rparr>\<rparr> 16 ws = 24"
proof -
  let ?s = "\<lparr>cpu_regs = (\<lambda>_. 1), cpu_flags = \<lparr>flag_n = True, flag_z = False, flag_c = False, flag_v = False\<rparr>\<rparr>"
  let ?i = "no_operands\<lparr>rn := Some (gpr 0), target := Some 30, not_taken := Some 20\<rparr>"
  obtain e where e: "encode_module [example_main, example_g] = Some (Inr e)" "length (image e) < 2 ^ 63" by (rule example_encoded)
  have d: "distinct (map cb_id (cf_blocks ([example_main, example_g] ! 0)))" "code_index [example_main, example_g] 0 0 2"
    "Suc 2 = length (cb_insts (cf_blocks ([example_main, example_g] ! 0) ! 0))"
    "code_inst [example_main, example_g] 0 0 2 = (CtlOp A_Cbnz, ?i, None)"
    by (simp_all add: example_main_def code_index_def code_inst_def)
  have n: "numbered ?i"
    unfolding numbered_def
  proof (intro allI impI)
    fix key r assume "operand key ?i = Some r"
    then show "register_ok r" by (cases key) (auto simp: no_operands_def gpr_def)
  qed
  obtain ws t j' where ws: "located (image e) 16 (concat (map to_le_bytes ws))" "branch_destination ?s (CtlOp A_Cbnz) ?i = Some t"
    "j' < length (cf_blocks example_main)" "cb_id (cf_blocks example_main ! j') = t"
    "run_branch ?s 16 ws = int (code_position [example_main, example_g] 0 j' 0)"
    using module_branches_reach[OF e(1) d(1) e(2) d(2,3,4) _ n, of ?s] by (auto simp: example_positions)
  have "t = 30" using ws(2) by (simp add: branch_destination_def no_operands_def gpr_def num_def read_reg_def)
  then have "j' = 2" using ws(3,4) by (auto simp: example_main_def less_Suc_eq)
  then show ?thesis using e(1) ws by (auto simp: example_positions)
qed

theorem module_calls_reach_witness:
  "\<exists>e w. encode_module [example_main, example_g] = Some (Inr e) \<and> located (image e) 0 (to_le_bytes w)
    \<and> next_pc \<lparr>cpu_regs = (\<lambda>_. 1), cpu_flags = \<lparr>flag_n = True, flag_z = False, flag_c = False, flag_v = False\<rparr>\<rparr> 0 w = 28"
proof -
  let ?s = "\<lparr>cpu_regs = (\<lambda>_. 1), cpu_flags = \<lparr>flag_n = True, flag_z = False, flag_c = False, flag_v = False\<rparr>\<rparr>"
  let ?i = "no_operands\<lparr>callee := Some ''g''\<rparr>"
  obtain e where e: "encode_module [example_main, example_g] = Some (Inr e)" "length (image e) < 2 ^ 63" by (rule example_encoded)
  have d: "distinct (map cf_name [example_main, example_g])" "code_index [example_main, example_g] 0 0 0"
    "code_inst [example_main, example_g] 0 0 0 = (CtlOp A_Call, ?i, None)"
    "callee ?i = Some (cf_name ([example_main, example_g] ! 1))" "1 < length [example_main, example_g]"
    by (simp_all add: example_main_def example_g_def code_index_def code_inst_def)
  show ?thesis using module_calls_reach[OF e(1) d(1) e(2) d(2,3,4,5), of ?s] e(1) by (auto simp: example_positions)
qed

theorem module_literals_found_witness:
  "\<exists>e ws p. encode_module [example_main, example_g] = Some (Inr e) \<and> located (image e) 4 (concat (map to_le_bytes ws))
    \<and> exec_addrs 4 ws (\<lambda>_. 0) 2 = of_nat p \<and> located (image e) p [42]"
proof -
  let ?fs = "[example_main, example_g]" and ?i = "no_operands\<lparr>rd := Some (gpr 2), literal_label := Some ''s''\<rparr>"
  obtain e where e: "encode_module ?fs = Some (Inr e)" "length (image e) < 2 ^ 63" by (rule example_encoded)
  have d: "code_index ?fs 0 0 (Suc 0)" "code_inst ?fs 0 0 (Suc 0) = (CtlOp A_AdrLiteral, ?i, Some [42])" "literal_label ?i = Some ''s''"
    by (simp_all add: example_main_def code_index_def code_inst_def)
  have n: "numbered ?i"
    unfolding numbered_def
  proof (intro allI impI)
    fix key r assume "operand key ?i = Some r"
    then show "register_ok r" by (cases key) (auto simp: no_operands_def gpr_def)
  qed
  have all: "\<forall>f \<in> set ?fs. \<forall>b \<in> set (cf_blocks f). \<forall>ci \<in> set (cb_insts b). names_literal ci ''s'' b' \<longrightarrow> b' = [42]" for b'
    by (simp add: example_main_def example_g_def names_literal_def coded_literal_def literal_for_inst_def)
  have same: "b' = [42]" if "code_index ?fs k j n" "names_literal (code_inst ?fs k j n) ''s'' b'" for k j n b'
    using all[of b'] that unfolding code_index_def code_inst_def by (metis nth_mem)
  have num: "num XReg Rd ?i = Some 2" by (simp add: num_def gpr_def)
  show ?thesis using module_literals_found[OF e(1,2) d(1,2) n d(3) same, where r = "\<lambda>_. 0"] e(1) num by (auto simp: example_positions)
qed

end
