(* ===== verification/Edge_Copies.thy ===== *)
theory Edge_Copies
  imports Prelude "HOL-Library.While_Combinator"
begin

text \<open>
  Block arguments: \<^verbatim>\<open>emit_block_arg_copies\<close> of
  \<^verbatim>\<open>passes/aarch64/isel_control_flow.rs\<close> and \<^verbatim>\<open>passes/x86_64_darwin/isel_control_flow.rs\<close>.

  An edge of the control flow passes values to the arguments of its target.  The copies happen at once: a source may be another
  copy's destination.  Both instruction selectors emit them one after the other, in an order in which no register is
  overwritten while it is still to be read, with scratch registers where there is no such order.  What they emit for one
  copy differs, and is a parameter here; \<open>copy_target\<close> says what is required of it.
\<close>

type_synonym 'r pending = "('r \<times> 'r option) list"

text \<open>The copies that are needed: no register to itself.  A source \<open>None\<close> is undefined on this edge.\<close>

fun collect_pending :: "('r list \<times> 'r option list) list \<Rightarrow> 'r pending crabbit_result" where
  "collect_pending [] = Inr []"
| "collect_pending ((dst_regs, src_regs) # args) =
     (if length dst_regs \<noteq> length src_regs then Inl ''block argument register count mismatch''
      else map_sum id ((@) (filter (\<lambda>(dst, src). src \<noteq> Some dst) (zip dst_regs src_regs))) (collect_pending args))"

text \<open>The first copy whose destination no copy reads.\<close>

definition free_position :: "'r pending \<Rightarrow> nat option" where
  "free_position pending = find (\<lambda>k. Some (fst (pending ! k)) \<notin> set (map snd pending)) [0..<length pending]"

definition redirect :: "'r \<Rightarrow> 'r \<Rightarrow> 'r pending \<Rightarrow> 'r pending" where
  "redirect dst scratch pending = map (\<lambda>(d, s). (d, if s = Some dst then Some scratch else s)) pending"

definition remove_at :: "nat \<Rightarrow> 'a list \<Rightarrow> 'a list" where
  "remove_at k xs = take k xs @ drop (Suc k) xs"

text \<open>The instructions for one copy, for an undefined value, and a new register like another.\<close>

record ('r, 'i) copy_ops =
  emit_move :: "'r \<Rightarrow> 'r \<Rightarrow> 'i list crabbit_result"
  emit_undef :: "'r \<Rightarrow> nat \<Rightarrow> ('i list \<times> nat) crabbit_result"
  fresh_like :: "'r \<Rightarrow> nat \<Rightarrow> 'r \<times> nat"

type_synonym ('r, 'i) copy_state = "'r pending \<times> nat \<times> 'i list"

definition copy_step :: "('r, 'i) copy_ops \<Rightarrow> ('r, 'i) copy_state \<Rightarrow> ('r, 'i) copy_state crabbit_result" where
  "copy_step ops st = (case st of (pending, next_vreg, code) \<Rightarrow>
     (case free_position pending of
        Some free \<Rightarrow>
          (case pending ! free of
             (dst, Some src) \<Rightarrow> map_sum id (\<lambda>new. (remove_at free pending, next_vreg, code @ new)) (emit_move ops dst src)
           | (dst, None) \<Rightarrow> map_sum id (\<lambda>(new, next). (remove_at free pending, next, code @ new)) (emit_undef ops dst next_vreg))
      | None \<Rightarrow>
          (let dst = fst (hd pending); (scratch, next) = fresh_like ops dst next_vreg
           in map_sum id (\<lambda>new. (redirect dst scratch pending, next, code @ new)) (emit_move ops scratch dst))))"

definition copies_left :: "('r, 'i) copy_state crabbit_result \<Rightarrow> bool" where
  "copies_left st = (case st of Inl e \<Rightarrow> False | Inr (pending, next_vreg, code) \<Rightarrow> pending \<noteq> [])"

text \<open>\<open>None\<close>: the loop does not end.\<close>

definition copy_loop :: "('r, 'i) copy_ops \<Rightarrow> 'r pending \<Rightarrow> nat \<Rightarrow> ('r, 'i) copy_state crabbit_result option" where
  "copy_loop ops pending next_vreg =
     while_option copies_left (case_sum Inl (copy_step ops)) (Inr (pending, next_vreg, []))"

text \<open>
  The whole function, given the registers of the target's arguments, and those of the values passed; the next register number and
  the code.
\<close>

definition emit_block_arg_copies ::
    "('r, 'i) copy_ops \<Rightarrow> 'r list list \<Rightarrow> 'r option list list \<Rightarrow> nat \<Rightarrow> (nat \<times> 'i list) crabbit_result option" where
  "emit_block_arg_copies ops dest_args args next_vreg =
     (if length dest_args \<noteq> length args then Some (Inl ''branch operand count does not match target block argument count'')
      else case collect_pending (zip dest_args args) of
        Inl e \<Rightarrow> Some (Inl e)
      | Inr pending \<Rightarrow> map_option (map_sum id snd) (copy_loop ops pending next_vreg))"

subsection \<open>Positions\<close>

lemma free_position_Some:
  "free_position p = Some k \<Longrightarrow> k < length p \<and> Some (fst (p ! k)) \<notin> snd ` set p"
  by (auto simp: free_position_def find_Some_iff)

lemma free_position_None: "free_position p = None \<Longrightarrow> d \<in> fst ` set p \<Longrightarrow> Some d \<in> snd ` set p"
proof -
  assume none: "free_position p = None" and "d \<in> fst ` set p"
  then obtain k where k: "k < length p" "d = fst (p ! k)" by (auto simp: in_set_conv_nth)
  have "\<forall>k \<in> set [0..<length p]. Some (fst (p ! k)) \<in> set (map snd p)"
    using none by (simp add: free_position_def find_None_iff)
  then show ?thesis using k by simp
qed

lemma free_position_redirect:
  assumes "p \<noteq> []" "scratch \<noteq> fst (hd p)"
  shows "free_position (redirect (fst (hd p)) scratch p) \<noteq> None"
proof
  assume none: "free_position (redirect (fst (hd p)) scratch p) = None"
  have "fst (hd p) \<in> fst ` set (redirect (fst (hd p)) scratch p)"
    using assms(1) by (cases p) (auto simp: redirect_def)
  from free_position_None[OF none this] show False using assms(2) by (auto simp: redirect_def split: if_splits)
qed

lemma remove_at_split: "k < length xs \<Longrightarrow> xs = take k xs @ xs ! k # drop (Suc k) xs"
  by (rule id_take_nth_drop)

lemma remove_at_set: "k < length xs \<Longrightarrow> distinct xs \<Longrightarrow> set (remove_at k xs) = set xs - {xs ! k}"
proof -
  assume k: "k < length xs" and d: "distinct xs"
  have "distinct (take k xs @ xs ! k # drop (Suc k) xs)" using d remove_at_split[OF k] by simp
  moreover have "set xs = set (take k xs @ xs ! k # drop (Suc k) xs)" using remove_at_split[OF k] by simp
  ultimately show ?thesis by (auto simp: remove_at_def)
qed

lemma remove_at_length: "k < length xs \<Longrightarrow> length (remove_at k xs) = length xs - 1"
  by (simp add: remove_at_def)

lemma remove_at_map: "map f (remove_at k xs) = remove_at k (map f xs)"
  by (simp add: remove_at_def take_map drop_map)

lemma remove_at_distinct: "k < length xs \<Longrightarrow> distinct xs \<Longrightarrow> distinct (remove_at k xs)"
proof -
  assume k: "k < length xs" and d: "distinct xs"
  have "distinct (take k xs @ xs ! k # drop (Suc k) xs)" using d remove_at_split[OF k] by simp
  then show ?thesis by (auto simp: remove_at_def)
qed

lemma collect_pending_all:
  "list_all2 (\<lambda>ds ss. length ds = length ss) dests args \<Longrightarrow>
    collect_pending (zip dests args) = Inr (filter (\<lambda>(d, s). s \<noteq> Some d) (zip (concat dests) (concat args)))"
  by (induction rule: list_all2_induct) simp_all

lemma concat_lengths: "list_all2 (\<lambda>ds ss. length ds = length ss) dests args \<Longrightarrow> length (concat dests) = length (concat args)"
  by (induction rule: list_all2_induct) simp_all

subsection \<open>What a target provides\<close>

text \<open>The value a destination is to get.\<close>

definition source_value :: "'v \<Rightarrow> ('r \<Rightarrow> 'v) \<Rightarrow> 'r option \<Rightarrow> 'v" where
  "source_value undefined_value R src = (case src of Some r \<Rightarrow> R r | None \<Rightarrow> undefined_value)"

text \<open>
  \<open>exec\<close>: what code does to the values of the registers; \<open>known n\<close>: the registers that are not new when the next number is
  \<open>n\<close>, of which there are \<open>limit\<close>; \<open>cls\<close>: the class of a register, if values of it can be copied.
\<close>

locale copy_target =
  fixes ops :: "('r, 'i) copy_ops" and exec :: "'i list \<Rightarrow> ('r \<Rightarrow> 'v) \<Rightarrow> 'r \<Rightarrow> 'v" and undefined_value :: 'v
    and known :: "nat \<Rightarrow> 'r \<Rightarrow> bool" and cls :: "'r \<Rightarrow> 'c option" and limit :: nat
  assumes exec_append: "exec (xs @ ys) R = exec ys (exec xs R)" and exec_Nil: "exec [] R = R"
    and move_ok: "\<lbrakk>cls d = cls s; cls d \<noteq> None\<rbrakk> \<Longrightarrow> \<exists>code. emit_move ops d s = Inr code \<and> (\<forall>R. exec code R = R(d := R s))"
    and undef_ok: "\<lbrakk>cls d \<noteq> None; n < limit\<rbrakk> \<Longrightarrow> \<exists>code n'. emit_undef ops d n = Inr (code, n') \<and> n \<le> n' \<and> n' \<le> n + 1 \<and>
      (\<forall>R. exec code R d = undefined_value \<and> (\<forall>r. r \<noteq> d \<longrightarrow> known n r \<longrightarrow> exec code R r = R r))"
    and fresh_ok: "\<lbrakk>cls d \<noteq> None; n < limit; fresh_like ops d n = (r, n')\<rbrakk> \<Longrightarrow> n' = n + 1 \<and> \<not> known n r \<and> known n' r \<and> cls r = cls d"
    and known_mono: "known n r \<Longrightarrow> n \<le> n' \<Longrightarrow> n' \<le> limit \<Longrightarrow> known n' r"
begin

text \<open>All registers of the copies are known, and a source is of its destination's class.\<close>

definition sound :: "nat \<Rightarrow> 'r pending \<Rightarrow> bool" where
  "sound n p \<longleftrightarrow> distinct (map fst p) \<and>
     (\<forall>(d, s) \<in> set p. known n d \<and> cls d \<noteq> None \<and> (case s of None \<Rightarrow> True | Some r \<Rightarrow> known n r \<and> cls r = cls d))"

text \<open>
  The loop's invariant: started with the copies \<open>p0\<close>, it has emitted \<open>code\<close> and has \<open>p\<close> left.  From any \<open>R\<close>, what is
  left to copy is now what was to be copied; what is not left has been copied; nothing else known at first has changed.
\<close>

definition served :: "'r pending \<Rightarrow> ('r \<Rightarrow> 'v) \<Rightarrow> ('r \<Rightarrow> 'v) \<Rightarrow> 'r \<Rightarrow> 'r option \<Rightarrow> bool" where
  "served p R' R d s \<longleftrightarrow>
     (if d \<in> fst ` set p then \<exists>s'. (d, s') \<in> set p \<and> source_value undefined_value R' s' = source_value undefined_value R s
      else R' d = source_value undefined_value R s)"

definition progress :: "nat \<Rightarrow> 'r pending \<Rightarrow> ('r, 'i) copy_state \<Rightarrow> bool" where
  "progress n0 p0 st \<longleftrightarrow> (case st of (p, n, code) \<Rightarrow>
     sound n p \<and> n0 \<le> n \<and> n + 2 * length p + of_bool (p \<noteq> [] \<and> free_position p = None) \<le> limit \<and> fst ` set p \<subseteq> fst ` set p0 \<and>
     (\<forall>R d s. (d, s) \<in> set p0 \<longrightarrow> served p (exec code R) R d s) \<and>
     (\<forall>R r. known n0 r \<longrightarrow> r \<notin> fst ` set p0 \<longrightarrow> exec code R r = R r))"

lemma progressI:
  assumes "sound n p" "n0 \<le> n" "n + 2 * length p + of_bool (p \<noteq> [] \<and> free_position p = None) \<le> limit" "fst ` set p \<subseteq> fst ` set p0"
    "\<And>R d s. (d, s) \<in> set p0 \<Longrightarrow> served p (exec code R) R d s"
    "\<And>R r. known n0 r \<Longrightarrow> r \<notin> fst ` set p0 \<Longrightarrow> exec code R r = R r"
  shows "progress n0 p0 (p, n, code)"
  using assms unfolding progress_def by simp

lemma progressD:
  assumes "progress n0 p0 (p, n, code)"
  shows "sound n p" "n0 \<le> n" "n + 2 * length p + of_bool (p \<noteq> [] \<and> free_position p = None) \<le> limit" "fst ` set p \<subseteq> fst ` set p0"
    "(d, s) \<in> set p0 \<Longrightarrow> served p (exec code R) R d s"
    "known n0 r \<Longrightarrow> r \<notin> fst ` set p0 \<Longrightarrow> exec code R r = R r"
  using assms unfolding progress_def by auto

lemma soundD:
  assumes "sound n p" "(d, s) \<in> set p"
  shows "known n d" "cls d \<noteq> None" "s = Some r \<Longrightarrow> known n r" "s = Some r \<Longrightarrow> cls r = cls d"
  using assms unfolding sound_def by (force split: option.splits)+

text \<open>A copy is emitted whose destination no copy reads.\<close>

lemma progress_emit:
  assumes pr: "progress n0 p0 (p, n, code)" and p0: "sound n0 p0" and k: "free_position p = Some k" and pk: "p ! k = (d, s)"
    and n': "n \<le> n'" "n' \<le> n + 1"
    and ex: "\<forall>R. exec new R d = source_value undefined_value R s \<and> (\<forall>r. r \<noteq> d \<longrightarrow> known n r \<longrightarrow> exec new R r = R r)"
  shows "progress n0 p0 (remove_at k p, n', code @ new)"
proof -
  let ?q = "remove_at k p"
  have kl: "k < length p" and free: "Some d \<notin> snd ` set p" using free_position_Some[OF k] pk by simp_all
  have snd: "sound n p" and le: "n0 \<le> n" "n + 2 * length p \<le> limit" and sub: "fst ` set p \<subseteq> fst ` set p0"
    using progressD(1-4)[OF pr] by simp_all
  have dist: "distinct (map fst p)" using snd by (simp add: sound_def)
  have setq: "set ?q = set p - {(d, s)}" using remove_at_set[OF kl] dist pk by (simp add: distinct_map)
  have mem: "(d, s) \<in> set p" using kl pk nth_mem by metis
  have only: "s' = s" if "(d, s') \<in> set p" for s' using eq_key_imp_eq_value[OF dist that mem] .
  have d1: "d \<notin> fst ` set ?q" unfolding setq image_iff using only by (metis Diff_iff insertI1 prod.collapse)
  have "fst ` set ?q \<subseteq> fst ` set p" unfolding setq by blast
  moreover have "x \<in> fst ` set ?q" if "x \<in> fst ` set p - {d}" for x using that unfolding setq by force
  ultimately have dq: "d \<notin> fst ` set ?q" "fst ` set ?q = fst ` set p - {d}" using d1 by blast+
  have lq: "length ?q = length p - 1" "0 < length p" using remove_at_length[OF kl] kl by linarith+
  have "n' + 2 * length ?q + of_bool (?q \<noteq> [] \<and> free_position ?q = None) \<le> limit"
  proof -
    have "of_bool (?q \<noteq> [] \<and> free_position ?q = None) \<le> (1 :: nat)" by simp
    then show ?thesis using lq le(2) n'(2) by linarith
  qed
  moreover have "sound n' ?q"
    unfolding sound_def
  proof (intro conjI ballI)
    show "distinct (map fst ?q)" unfolding remove_at_map using kl dist by (intro remove_at_distinct) simp_all
    fix x assume x: "x \<in> set ?q"
    obtain e t where et: "x = (e, t)" by fastforce
    have "n' \<le> limit" using lq(2) le(2) n'(2) by linarith
    then show "case x of (d, s) \<Rightarrow> known n' d \<and> cls d \<noteq> None \<and> (case s of None \<Rightarrow> True | Some r \<Rightarrow> known n' r \<and> cls r = cls d)"
      using soundD[OF snd, of e t] x known_mono[OF _ n'(1)] by (auto simp: et setq split: option.splits)
  qed
  moreover have "exec (code @ new) R r = R r" if "known n0 r" "r \<notin> fst ` set p0" for R r
  proof -
    have "r \<noteq> d" using that(2) sub mem by force
    moreover have "known n r" using that(1) le by (auto intro: known_mono)
    ultimately show ?thesis using progressD(6)[OF pr that] ex by (simp add: exec_append)
  qed
  moreover have "served ?q (exec (code @ new) R) R e t" if et: "(e, t) \<in> set p0" for e t R
  proof -
    note old = progressD(5)[OF pr et, of R]
    have keep: "source_value undefined_value (exec new R') s' = source_value undefined_value R' s'" if "(e', s') \<in> set p" for R' e' s'
    proof (cases s')
      case (Some r)
      have "r \<noteq> d" using free that Some by force
      then show ?thesis using Some ex soundD(3)[OF snd that Some] by (simp add: source_value_def)
    qed (simp add: source_value_def)
    consider "e = d" | "e \<noteq> d" "e \<in> fst ` set p" | "e \<notin> fst ` set p" using mem by force
    then show ?thesis
    proof cases
      case 1
      then obtain s' where "(d, s') \<in> set p" "source_value undefined_value (exec code R) s' = source_value undefined_value R t"
        using old mem unfolding served_def by (metis fst_conv image_eqI)
      then show ?thesis using 1 only[of s'] ex dq by (simp add: served_def exec_append)
    next
      case 2
      then obtain s' where s': "(e, s') \<in> set p" "source_value undefined_value (exec code R) s' = source_value undefined_value R t"
        using old unfolding served_def by auto
      have "(e, s') \<in> set ?q" using s'(1) 2(1) by (simp add: setq)
      moreover have "e \<in> fst ` set ?q" using 2 dq by simp
      ultimately show ?thesis using s'(2) keep[OF s'(1)] unfolding served_def exec_append by auto
    next
      case 3
      have "known n e" using soundD(1)[OF p0 et] le by (auto intro: known_mono)
      moreover have "e \<noteq> d" using 3 mem by force
      ultimately show ?thesis using 3 old ex dq by (simp add: served_def exec_append)
    qed
  qed
  ultimately show ?thesis using n' le(1) dq(2) sub by (intro progressI) auto
qed

text \<open>Every destination is still read: the readers of one get its value from a scratch register.\<close>

lemma progress_redirect:
  assumes pr: "progress n0 p0 (p, n, code)" and p0: "sound n0 p0" and none: "free_position p = None" "p \<noteq> []"
    and new: "\<not> known n r" "known (n + 1) r" "cls r = cls (fst (hd p))" and ex: "\<forall>R. exec new R = R(r := R (fst (hd p)))"
  shows "progress n0 p0 (redirect (fst (hd p)) r p, n + 1, code @ new)"
proof -
  let ?d = "fst (hd p)" and ?q = "redirect (fst (hd p)) r p"
  have snd: "sound n p" and le: "n0 \<le> n" "n + 2 * length p + 1 \<le> limit"
    using progressD(1-3)[OF pr] none by simp_all
  have kd: "known n ?d" using soundD(1)[OF snd, of ?d "snd (hd p)"] none(2) by simp
  then have d: "?d \<noteq> r" using new(1) by blast
  have fsts: "map fst ?q = map fst p" by (auto simp: redirect_def)
  have keys: "fst ` set ?q = fst ` set p" by (metis fsts list.set_map)
  have lq: "length ?q = length p" by (simp add: redirect_def)
  have some: "free_position ?q \<noteq> None" using free_position_redirect[OF none(2), of r] d by simp
  have "(n + 1) + 2 * length ?q + of_bool (?q \<noteq> [] \<and> free_position ?q = None) \<le> limit"
  proof -
    have "of_bool (?q \<noteq> [] \<and> free_position ?q = None) = (0 :: nat)" using some by simp
    then show ?thesis using lq le(2) by linarith
  qed
  moreover have "sound (n + 1) ?q"
    unfolding sound_def
  proof (intro conjI ballI)
    show "distinct (map fst ?q)" using snd unfolding fsts sound_def by blast
    fix x assume "x \<in> set ?q"
    then obtain e t where et: "(e, t) \<in> set p" "x = (e, if t = Some ?d then Some r else t)" by (auto simp: redirect_def)
    have k: "known (n + 1) y" if "known n y" for y using that le(2) by (auto intro: known_mono)
    show "case x of (d, s) \<Rightarrow> known (n + 1) d \<and> cls d \<noteq> None \<and> (case s of None \<Rightarrow> True | Some r \<Rightarrow> known (n + 1) r \<and> cls r = cls d)"
      using soundD[OF snd et(1)] k new(2,3) et(2) by (auto split: option.splits)
  qed
  moreover have "exec (code @ new) R e = exec code R e" if "known n e" for R e
    using that new(1) ex by (auto simp: exec_append)
  moreover have "known n e" if "known n0 e" for e using that le by (auto intro: known_mono)
  moreover have moved: "\<exists>s'. (e, s') \<in> set ?q \<and> source_value undefined_value (exec (code @ new) R) s' = source_value undefined_value (exec code R) t"
    if et: "(e, t) \<in> set p" for e t R
  proof (intro exI[of _ "if t = Some ?d then Some r else t"] conjI)
    show "(e, if t = Some ?d then Some r else t) \<in> set ?q" using et by (force simp: redirect_def)
    show "source_value undefined_value (exec (code @ new) R) (if t = Some ?d then Some r else t) = source_value undefined_value (exec code R) t"
      using soundD(3)[OF snd et] new(1) ex by (auto simp: source_value_def exec_append split: option.splits)
  qed
  ultimately show ?thesis
  proof (intro progressI)
    fix R e t assume et: "(e, t) \<in> set p0"
    have e: "exec (code @ new) R e = exec code R e"
      using soundD(1)[OF p0 et] \<open>\<And>e. known n0 e \<Longrightarrow> known n e\<close> \<open>\<And>R e. known n e \<Longrightarrow> exec (code @ new) R e = exec code R e\<close> by blast
    show "served ?q (exec (code @ new) R) R e t"
    proof (cases "e \<in> fst ` set p")
      case True
      then obtain s' where s': "(e, s') \<in> set p" "source_value undefined_value (exec code R) s' = source_value undefined_value R t"
        using progressD(5)[OF pr et, of R] unfolding served_def by auto
      then show ?thesis using moved[OF s'(1), of R] True unfolding served_def keys by auto
    next
      case False
      then show ?thesis using progressD(5)[OF pr et, of R] e unfolding served_def keys by simp
    qed
  qed (use le progressD(4,6)[OF pr] keys in auto)
qed

lemma copy_step_progress:
  assumes pr: "progress n0 p0 (p, n, code)" and p0: "sound n0 p0" and ne: "p \<noteq> []"
  shows "\<exists>p' n' code'. copy_step ops (p, n, code) = Inr (p', n', code') \<and> progress n0 p0 (p', n', code') \<and>
    2 * length p' + of_bool (free_position p' = None) < 2 * length p + of_bool (free_position p = None)"
proof -
  have snd: "sound n p" and lim: "n + 2 * length p \<le> limit" using progressD(1,3)[OF pr] by simp_all
  have nl: "n < limit" using lim ne by (cases p) simp_all
  show ?thesis
  proof (cases "free_position p")
    case (Some k)
    obtain d s where pk: "p ! k = (d, s)" by fastforce
    have k: "k < length p" using free_position_Some[OF Some] by simp
    have mem: "(d, s) \<in> set p" using k pk nth_mem by metis
    have len: "2 * length (remove_at k p) + of_bool (free_position (remove_at k p) = None) < 2 * length p + of_bool (free_position p = None)"
    proof -
      have "2 * length (remove_at k p) + 2 = 2 * length p" using k remove_at_length[OF k] by simp
      moreover have "of_bool (free_position (remove_at k p) = None) \<le> (1 :: nat)" by simp
      ultimately show ?thesis by linarith
    qed
    show ?thesis
    proof (cases s)
      case None
      obtain new n' where u: "emit_undef ops d n = Inr (new, n')" "n \<le> n'" "n' \<le> n + 1"
        "\<forall>R. exec new R d = undefined_value \<and> (\<forall>r. r \<noteq> d \<longrightarrow> known n r \<longrightarrow> exec new R r = R r)"
        using undef_ok[OF soundD(2)[OF snd mem] nl] by blast
      have "progress n0 p0 (remove_at k p, n', code @ new)"
        by (rule progress_emit[OF pr p0 Some pk u(2,3)]) (use u(4) None in \<open>simp add: source_value_def\<close>)
      then show ?thesis using len Some pk None u(1) by (simp add: copy_step_def)
    next
      case (Some t)
      obtain new where u: "emit_move ops d t = Inr new" "\<forall>R. exec new R = R(d := R t)"
        using move_ok soundD(2)[OF snd mem] soundD(4)[OF snd mem Some] by metis
      have "progress n0 p0 (remove_at k p, n, code @ new)"
        by (rule progress_emit[OF pr p0 \<open>free_position p = Some k\<close> pk]) (use u(2) Some in \<open>simp_all add: source_value_def\<close>)
      then show ?thesis using len \<open>free_position p = Some k\<close> pk Some u(1) by (simp add: copy_step_def)
    qed
  next
    case None
    let ?d = "fst (hd p)"
    have mem: "(?d, snd (hd p)) \<in> set p" using ne by simp
    obtain r n' where f: "fresh_like ops ?d n = (r, n')" by fastforce
    have fr: "n' = n + 1" "\<not> known n r" "known (n + 1) r" "cls r = cls ?d" using fresh_ok[OF soundD(2)[OF snd mem] nl f] by auto
    obtain new where u: "emit_move ops r ?d = Inr new" "\<forall>R. exec new R = R(r := R ?d)"
      using move_ok[of r ?d] fr(4) soundD(2)[OF snd mem] by metis
    have "progress n0 p0 (redirect ?d r p, n', code @ new)"
      unfolding fr(1) by (rule progress_redirect[OF pr p0 None ne fr(2-4) u(2)])
    moreover have "free_position (redirect ?d r p) \<noteq> None"
      using free_position_redirect[OF ne] fr(2) soundD(1)[OF snd mem] by metis
    ultimately show ?thesis using None f u(1) by (simp add: copy_step_def redirect_def)
  qed
qed

lemma copy_loop_correct:
  assumes p0: "sound n p" and lim: "n + 2 * length p + 1 \<le> limit"
  shows "\<exists>n' code. copy_loop ops p n = Some (Inr ([], n', code)) \<and> progress n p ([], n', code)"
proof -
  let ?P = "\<lambda>st. \<exists>st'. st = Inr st' \<and> progress n p st'"
  let ?m = "\<lambda>st. case st of Inl e \<Rightarrow> 0 | Inr (q, n, code) \<Rightarrow> 2 * length q + of_bool (free_position q = None)"
  have step: "?P (case_sum Inl (copy_step ops) st) \<and> ?m (case_sum Inl (copy_step ops) st) < ?m st" if h: "?P st" "copies_left st" for st
  proof -
    obtain st' where s: "st = Inr st'" "progress n p st'" using h(1) by blast
    obtain q k code where q: "st' = (q, k, code)" by (cases st') auto
    have st: "st = Inr (q, k, code)" "progress n p (q, k, code)" "q \<noteq> []"
      using s q h(2) by (simp_all add: copies_left_def)
    show ?thesis using copy_step_progress[OF st(2) p0 st(3)] st(1) by auto
  qed
  have "progress n p (p, n, [])"
  proof (rule progressI)
    have "of_bool (p \<noteq> [] \<and> free_position p = None) \<le> (1 :: nat)" by simp
    then show "n + 2 * length p + of_bool (p \<noteq> [] \<and> free_position p = None) \<le> limit" using lim by linarith
  qed (use p0 in \<open>force simp: exec_Nil served_def\<close>)+
  then have init: "?P (Inr (p, n, []))" by blast
  obtain st where st: "copy_loop ops p n = Some st"
    unfolding copy_loop_def
    using measure_while_option_Some[of ?P copies_left "case_sum Inl (copy_step ops)" ?m, OF step init] by blast
  have keep: "?P (case_sum Inl (copy_step ops) st)" if "?P st" "copies_left st" for st by (rule conjunct1[OF step[OF that]])
  have "?P st" by (rule while_option_rule[of ?P, OF keep st[unfolded copy_loop_def] init])
  moreover have "\<not> copies_left st" by (rule while_option_stop[OF st[unfolded copy_loop_def]])
  ultimately show ?thesis using st by (auto simp: copies_left_def)
qed

text \<open>The copies happen as if all at once.\<close>

definition parallel :: "nat \<Rightarrow> 'r list \<Rightarrow> 'r option list \<Rightarrow> 'i list \<Rightarrow> bool" where
  "parallel n dsts srcs code \<longleftrightarrow>
     (\<forall>R k. k < length dsts \<longrightarrow> exec code R (dsts ! k) = source_value undefined_value R (srcs ! k)) \<and>
     (\<forall>R r. known n r \<longrightarrow> r \<notin> set dsts \<longrightarrow> exec code R r = R r)"

lemma emit_correct:
  assumes args: "list_all2 (\<lambda>ds ss. length ds = length ss) dests args" and dist: "distinct (concat dests)"
    and regs: "\<forall>(d, s) \<in> set (zip (concat dests) (concat args)).
      known n d \<and> cls d \<noteq> None \<and> (case s of None \<Rightarrow> True | Some r \<Rightarrow> known n r \<and> cls r = cls d)"
    and lim: "n + 2 * length (concat dests) + 1 \<le> limit"
  shows "\<exists>n' code. emit_block_arg_copies ops dests args n = Some (Inr (n', code)) \<and> n \<le> n' \<and> parallel n (concat dests) (concat args) code"
proof -
  let ?all = "zip (concat dests) (concat args)" and ?p = "filter (\<lambda>(d, s). s \<noteq> Some d) (zip (concat dests) (concat args))"
  have len: "length (concat dests) = length (concat args)" by (rule concat_lengths[OF args])
  have "map fst ?all = concat dests" using len by simp
  then have all: "distinct (map fst ?all)" using dist by simp
  have snd: "sound n ?p" using regs distinct_map_filter[OF all] by (auto simp: sound_def)
  have "length ?p \<le> length ?all" by (rule length_filter_le)
  then have "n + 2 * length ?p + 1 \<le> limit" using lim len by simp
  from copy_loop_correct[OF snd this] obtain n' code where
    run: "copy_loop ops ?p n = Some (Inr ([], n', code))" and pr: "progress n ?p ([], n', code)" by blast
  have "emit_block_arg_copies ops dests args n = Some (Inr (n', code))"
    using run list_all2_lengthD[OF args] collect_pending_all[OF args] by (simp add: emit_block_arg_copies_def)
  moreover have "exec code R (concat dests ! k) = source_value undefined_value R (concat args ! k)" if k: "k < length (concat dests)" for R k
  proof -
    let ?d = "concat dests ! k" and ?s = "concat args ! k"
    have mem: "(?d, ?s) \<in> set ?all" using k len by (metis length_map map_fst_zip nth_mem nth_zip)
    show ?thesis
    proof (cases "?s = Some ?d")
      case False
      then have "(?d, ?s) \<in> set ?p" using mem by simp
      from progressD(5)[OF pr this, of R] show ?thesis by (simp add: served_def)
    next
      case True
      have "(?d, s) \<notin> set ?p" for s
        using eq_key_imp_eq_value[OF all _ mem, of s] True by auto
      then have "?d \<notin> fst ` set ?p" by force
      moreover have "known n ?d" using regs mem by force
      ultimately show ?thesis using progressD(6)[OF pr, of ?d R] True by (simp add: source_value_def)
    qed
  qed
  moreover have "exec code R r = R r" if "known n r" "r \<notin> set (concat dests)" for R r
  proof -
    have "r \<notin> fst ` set ?p" using that(2) by (auto dest: set_zip_leftD)
    then show ?thesis using progressD(6)[OF pr that(1)] by simp
  qed
  ultimately show ?thesis using progressD(2)[OF pr] unfolding parallel_def by blast
qed

end

end
