(* ===== verification/A64_Edges.thy ===== *)
theory A64_Edges
  imports A64_Liveness Edge_Copies
begin

text \<open>
  Block arguments on AArch64: \<^verbatim>\<open>passes/aarch64/isel_control_flow.rs\<close>, with \<^verbatim>\<open>emit_move\<close> and the register
  numbers of \<^verbatim>\<open>llvm_to_aarch64_isel.rs\<close>.  Values are in the register files of their classes; copies between
  classes go through the instructions that keep the bits.
\<close>

definition mov_imm :: "register \<Rightarrow> nat \<Rightarrow> machine_inst" where
  "mov_imm dst n = (IntOp A_MovImm, blank_inst\<lparr>rd := Some dst, imm := Some n\<rparr>)"

definition mov :: "register \<Rightarrow> register \<Rightarrow> machine_inst" where
  "mov dst src = (IntOp A_Mov, blank_inst\<lparr>rd := Some dst, rm := Some src\<rparr>)"

definition fmov_rr :: "a64_opcode \<Rightarrow> register \<Rightarrow> register \<Rightarrow> machine_inst" where
  "fmov_rr opcode dst src = (opcode, blank_inst\<lparr>rd := Some dst, rm := Some src\<rparr>)"

definition unary :: "a64_opcode \<Rightarrow> register \<Rightarrow> register \<Rightarrow> machine_inst" where
  "unary opcode dst src = (opcode, blank_inst\<lparr>rd := Some dst, rn := Some src\<rparr>)"

definition fresh_vreg :: "nat \<Rightarrow> register \<times> nat" where
  "fresh_vreg next_vreg = (virtual_gpr (next_vreg mod 2 ^ 32), next_vreg + 1)"

definition fresh_simd :: "nat \<Rightarrow> register \<times> nat" where
  "fresh_simd next_vreg = (virtual_simd128 (next_vreg mod 2 ^ 32), next_vreg + 1)"

text \<open>\<open>fresh_fpr\<close> for the two kinds.\<close>

definition fresh_fpr :: "bool \<Rightarrow> nat \<Rightarrow> register \<times> nat" where
  "fresh_fpr f64 next_vreg =
     (if f64 then virtual_fpr64 (next_vreg mod 2 ^ 32) else virtual_fpr32 (next_vreg mod 2 ^ 32), next_vreg + 1)"

definition move_op :: "register \<Rightarrow> register \<Rightarrow> machine_inst crabbit_result" where
  "move_op dst src = (case (reg_class dst, reg_class src) of
     (Gpr64, Gpr64) \<Rightarrow> Inr (mov dst src)
   | (Simd128, Simd128) \<Rightarrow> Inr (fmov_rr (VecOp A_MovV16b) dst src)
   | (Fpr64, Fpr64) \<Rightarrow> Inr (fmov_rr (FpMoveOp A_FmovD) dst src)
   | (Fpr32, Fpr32) \<Rightarrow> Inr (fmov_rr (FpMoveOp A_FmovS) dst src)
   | (Fpr64, Gpr64) \<Rightarrow> Inr (unary (FpMoveOp A_FmovDX) dst src)
   | (Gpr64, Fpr64) \<Rightarrow> Inr (unary (FpMoveOp A_FmovXD) dst src)
   | (Fpr32, Gpr64) \<Rightarrow> Inr (unary (FpMoveOp A_FmovSW) dst src)
   | (Gpr64, Fpr32) \<Rightarrow> Inr (unary (FpMoveOp A_FmovWS) dst src)
   | _ \<Rightarrow> Inl ''register copy between incompatible classes'')"

definition undef_copy :: "register \<Rightarrow> nat \<Rightarrow> (machine_inst list \<times> nat) crabbit_result" where
  "undef_copy dst next_vreg =
     (if reg_class dst = Fpr64 \<or> reg_class dst = Fpr32 then
        (case fresh_vreg next_vreg of (zero, next) \<Rightarrow>
           map_sum id (\<lambda>op. ([mov_imm zero 0, op], next)) (move_op dst zero))
      else if reg_class dst = Simd128 then
        (case fresh_vreg next_vreg of (zero, next) \<Rightarrow> Inr ([mov_imm zero 0, unary (VecOp A_DupV2dGpr) dst zero], next))
      else Inr ([mov_imm dst 0], next_vreg))"

definition scratch_like :: "register \<Rightarrow> nat \<Rightarrow> register \<times> nat" where
  "scratch_like dst next_vreg = (case reg_class dst of
     Fpr64 \<Rightarrow> fresh_fpr True next_vreg
   | Fpr32 \<Rightarrow> fresh_fpr False next_vreg
   | Simd128 \<Rightarrow> fresh_simd next_vreg
   | _ \<Rightarrow> fresh_vreg next_vreg)"

definition a64_copies :: "(register, machine_inst) copy_ops" where
  "a64_copies = \<lparr>emit_move = (\<lambda>dst src. map_sum id (\<lambda>op. [op]) (move_op dst src)), emit_undef = undef_copy, fresh_like = scratch_like\<rparr>"

definition a64_block_arg_copies :: "register list list \<Rightarrow> register option list list \<Rightarrow> nat \<Rightarrow> (nat \<times> machine_inst list) crabbit_result option" where
  "a64_block_arg_copies = emit_block_arg_copies a64_copies"

subsection \<open>What the code does\<close>

text \<open>A register holds up to 128 bits.  Copies within a class keep the value; the others keep the bits that fit, and clear the rest.\<close>

fun copied_value :: "machine_inst \<Rightarrow> (register \<Rightarrow> 128 word) \<Rightarrow> (register \<times> 128 word) option" where
  "copied_value (opcode, i) R = (case rd i of None \<Rightarrow> None | Some d \<Rightarrow>
     if opcode = IntOp A_MovImm then map_option (\<lambda>n. (d, of_nat n)) (imm i)
     else if opcode = IntOp A_Mov \<or> opcode = VecOp A_MovV16b \<or> opcode = FpMoveOp A_FmovD \<or> opcode = FpMoveOp A_FmovS then
       map_option (\<lambda>s. (d, R s)) (rm i)
     else if opcode = FpMoveOp A_FmovDX \<or> opcode = FpMoveOp A_FmovXD then map_option (\<lambda>s. (d, take_bit 64 (R s))) (rn i)
     else if opcode = FpMoveOp A_FmovSW \<or> opcode = FpMoveOp A_FmovWS then map_option (\<lambda>s. (d, take_bit 32 (R s))) (rn i)
     else if opcode = VecOp A_DupV2dGpr then
       map_option (\<lambda>s. (d, push_bit 64 (take_bit 64 (R s)) OR take_bit 64 (R s))) (rn i)
     else None)"

definition run_copy :: "machine_inst \<Rightarrow> (register \<Rightarrow> 128 word) \<Rightarrow> register \<Rightarrow> 128 word" where
  "run_copy m R = (case copied_value m R of None \<Rightarrow> R | Some (d, v) \<Rightarrow> R(d := v))"

definition run_copies :: "machine_inst list \<Rightarrow> (register \<Rightarrow> 128 word) \<Rightarrow> register \<Rightarrow> 128 word" where
  "run_copies = fold run_copy"

fun in_use :: "nat \<Rightarrow> register \<Rightarrow> bool" where
  "in_use n (Virtual (VirtualRegister i) c) \<longleftrightarrow> i < n"
| "in_use n (Physical p) \<longleftrightarrow> True"

definition copy_class :: "register \<Rightarrow> register_class option" where
  "copy_class r = (if reg_class r \<in> {Gpr64, Fpr64, Fpr32, Simd128} then Some (reg_class r) else None)"

lemma a64_move_same_class:
  assumes "copy_class d = copy_class s" "copy_class d \<noteq> None"
  shows "\<exists>op. move_op d s = Inr op \<and> (\<forall>R. run_copies [op] R = R(d := R s))"
  using assms
  by (auto simp: copy_class_def move_op_def run_copies_def run_copy_def mov_def fmov_rr_def split: if_splits)

lemma a64_undef_copy:
  assumes "copy_class d \<noteq> None" "n < 2 ^ 32"
  shows "\<exists>code n'. undef_copy d n = Inr (code, n') \<and> n \<le> n' \<and> n' \<le> n + 1 \<and>
    (\<forall>R. run_copies code R d = 0 \<and> (\<forall>r. r \<noteq> d \<longrightarrow> in_use n r \<longrightarrow> run_copies code R r = R r))"
proof -
  have fresh: "fresh_vreg n = (virtual_gpr n, n + 1)" "\<not> in_use n (virtual_gpr n)" "reg_class (virtual_gpr n) = Gpr64"
    using assms(2) by (simp_all add: fresh_vreg_def virtual_gpr_def)
  have other: "r \<noteq> virtual_gpr n" if "in_use n r" for r using fresh(2) that by blast
  consider "reg_class d = Gpr64" | "reg_class d = Fpr64" | "reg_class d = Fpr32" | "reg_class d = Simd128"
    using assms(1) by (auto simp: copy_class_def split: if_splits)
  then show ?thesis
  proof cases
    case 1
    then show ?thesis by (simp add: undef_copy_def run_copies_def run_copy_def mov_imm_def)
  next
    case 2
    then show ?thesis using other fresh(1,3) by (simp add: undef_copy_def move_op_def run_copies_def run_copy_def mov_imm_def unary_def)
  next
    case 3
    then show ?thesis using other fresh(1,3) by (simp add: undef_copy_def move_op_def run_copies_def run_copy_def mov_imm_def unary_def)
  next
    case 4
    then show ?thesis using other fresh(1) by (simp add: undef_copy_def run_copies_def run_copy_def mov_imm_def unary_def)
  qed
qed

interpretation a64_copying: copy_target a64_copies run_copies "0 :: 128 word" in_use copy_class "2 ^ 32"
proof
  fix d s :: register assume "copy_class d = copy_class s" "copy_class d \<noteq> None"
  from a64_move_same_class[OF this] show "\<exists>code. emit_move a64_copies d s = Inr code \<and> (\<forall>R. run_copies code R = R(d := R s))"
    by (auto simp: a64_copies_def)
next
  fix d :: register and n :: nat assume "copy_class d \<noteq> None" "n < 2 ^ 32"
  from a64_undef_copy[OF this] show "\<exists>code n'. emit_undef a64_copies d n = Inr (code, n') \<and> n \<le> n' \<and> n' \<le> n + 1 \<and>
      (\<forall>R. run_copies code R d = 0 \<and> (\<forall>r. r \<noteq> d \<longrightarrow> in_use n r \<longrightarrow> run_copies code R r = R r))"
    by (simp add: a64_copies_def)
next
  fix n n' :: nat and r assume "in_use n r" "n \<le> n'"
  then show "in_use n' r" by (cases "(n, r)" rule: in_use.cases) simp_all
next
  fix d r :: register and n n' :: nat
  assume "n < 2 ^ 32" "fresh_like a64_copies d n = (r, n')" "copy_class d \<noteq> None"
  then show "n' = n + 1 \<and> \<not> in_use n r \<and> in_use n' r \<and> copy_class r = copy_class d"
    by (auto simp: a64_copies_def scratch_like_def fresh_vreg_def fresh_fpr_def fresh_simd_def copy_class_def
        virtual_gpr_def virtual_fpr64_def virtual_fpr32_def virtual_simd128_def split: if_splits register_class.splits)
qed (auto simp: run_copies_def)

text \<open>
  (C6) The code for an edge of the control flow copies all values to the block arguments as if at once, in all register files: the
  loop that orders the moves ends without an error, each argument gets the value its source had before any move (or 0 if it is
  undefined on this edge), and no other register in use changes.
\<close>

theorem a64_edge_copies_parallel:
  assumes "list_all2 (\<lambda>ds ss. length ds = length ss) dests args" "distinct (concat dests)"
    and "\<forall>(d, s) \<in> set (zip (concat dests) (concat args)). in_use n d \<and> copy_class d \<noteq> None \<and>
      (case s of None \<Rightarrow> True | Some r \<Rightarrow> in_use n r \<and> copy_class r = copy_class d)"
    and "n + 2 * length (concat dests) + 1 \<le> 2 ^ 32"
  shows "\<exists>n' code. a64_block_arg_copies dests args n = Some (Inr (n', code)) \<and> n \<le> n' \<and>
    (\<forall>R. (\<forall>k < length (concat dests). run_copies code R (concat dests ! k) =
        (case concat args ! k of Some s \<Rightarrow> R s | None \<Rightarrow> 0)) \<and>
      (\<forall>r. in_use n r \<longrightarrow> r \<notin> set (concat dests) \<longrightarrow> run_copies code R r = R r))"
  using a64_copying.emit_correct[OF assms]
  by (auto simp: a64_block_arg_copies_def a64_copying.parallel_def source_value_def)

text \<open>Two floating-point arguments that swap their values, and one that is undefined.\<close>

theorem a64_edge_copies_parallel_witness:
  "\<exists>n' code. a64_block_arg_copies [[virtual_fpr64 7], [virtual_fpr64 8, virtual_simd128 5]]
       [[Some (virtual_fpr64 8)], [Some (virtual_fpr64 7), None]] 9 = Some (Inr (n', code)) \<and>
     (\<forall>R. run_copies code R (virtual_fpr64 7) = R (virtual_fpr64 8) \<and> run_copies code R (virtual_simd128 5) = 0)"
proof -
  let ?ds = "[[virtual_fpr64 7], [virtual_fpr64 8, virtual_simd128 5]]" and ?ss = "[[Some (virtual_fpr64 8)], [Some (virtual_fpr64 7), None]]"
  have "\<forall>(d, s) \<in> set (zip (concat ?ds) (concat ?ss)). in_use 9 d \<and> copy_class d \<noteq> None \<and>
      (case s of None \<Rightarrow> True | Some r \<Rightarrow> in_use 9 r \<and> copy_class r = copy_class d)"
    by (simp add: virtual_fpr64_def virtual_simd128_def copy_class_def)
  from a64_edge_copies_parallel[OF _ _ this] obtain n' code where c: "a64_block_arg_copies ?ds ?ss 9 = Some (Inr (n', code))"
    "\<forall>R. \<forall>k < length (concat ?ds). run_copies code R (concat ?ds ! k) = (case concat ?ss ! k of Some s \<Rightarrow> R s | None \<Rightarrow> 0)"
    by (auto simp: virtual_fpr64_def virtual_simd128_def)
  have "run_copies code R (virtual_fpr64 7) = R (virtual_fpr64 8) \<and> run_copies code R (virtual_simd128 5) = 0" for R
    using c(2)[rule_format, of 0 R] c(2)[rule_format, of 2 R] by simp
  then show ?thesis using c(1) by blast
qed

end
