(* ===== verification/A64_Fmov.thy ===== *)
theory A64_Fmov
  imports Complex_Main A64_Encode
begin

text \<open>
  The FMOV immediates of \<^verbatim>\<open>crates/pliron-ll/src/aarch64/encoding.rs\<close>: \<^verbatim>\<open>vfp_expand_imm_f64\<close>, \<^verbatim>\<open>fmov_imm8_for_f64_bits\<close> and
  their \<open>f32\<close> forms, against the numbers the bit patterns stand for.
\<close>

unbundle bit_operations_syntax

subsection \<open>The search\<close>

definition vfp_expand_imm_f64 :: "nat \<Rightarrow> nat" where
  "vfp_expand_imm_f64 imm8 =
     (let sign = drop_bit 7 imm8 AND 1; b6 = drop_bit 6 imm8 AND 1;
          exp = push_bit 10 (b6 XOR 1) OR (if b6 = 1 then push_bit 2 0xff else 0) OR (drop_bit 4 imm8 AND 0x3);
          frac = imm8 AND 0xf
      in push_bit 63 sign OR push_bit 52 exp OR push_bit 48 frac)"

definition vfp_expand_imm_f32 :: "nat \<Rightarrow> nat" where
  "vfp_expand_imm_f32 imm8 =
     (let sign = drop_bit 7 imm8 AND 1; b6 = drop_bit 6 imm8 AND 1;
          exp = push_bit 7 (b6 XOR 1) OR (if b6 = 1 then push_bit 2 0x1f else 0) OR (drop_bit 4 imm8 AND 0x3);
          frac = imm8 AND 0xf
      in push_bit 31 sign OR push_bit 23 exp OR push_bit 19 frac)"

definition fmov_imm8_for_f64_bits :: "nat \<Rightarrow> nat option" where
  "fmov_imm8_for_f64_bits bits = find (\<lambda>imm8. vfp_expand_imm_f64 imm8 = bits) [0..<256]"

definition fmov_imm8_for_f32_bits :: "nat \<Rightarrow> nat option" where
  "fmov_imm8_for_f32_bits bits = find (\<lambda>imm8. vfp_expand_imm_f32 imm8 = bits) [0..<256]"

subsection \<open>Floating point numbers\<close>

text \<open>
  The IEEE 754 number of a bit pattern with \<open>e\<close> bits of exponent and \<open>f\<close> of fraction; infinities and NaNs have none.
\<close>

definition significand :: "nat \<Rightarrow> nat \<Rightarrow> nat \<Rightarrow> nat" where
  "significand f E F = (if E = 0 then 2 * F else 2 ^ f + F)"

definition float_value :: "nat \<Rightarrow> nat \<Rightarrow> nat \<Rightarrow> rat option" where
  "float_value e f bits =
     (let S = bits div 2 ^ (e + f); E = bits div 2 ^ f mod 2 ^ e; F = bits mod 2 ^ f
      in if E = 2 ^ e - 1 then None
         else Some ((- 1) ^ S * (of_nat (significand f E F) / 2 ^ f) * (2 ^ E / 2 ^ (2 ^ (e - 1) - 1))))"

text \<open>What the immediate stands for: \<open>\<plusminus>(16..31)/16 * 2^(-3..4)\<close>, from the architecture manual.\<close>

definition fmov_value :: "nat \<Rightarrow> rat" where
  "fmov_value imm8 = (- 1) ^ (imm8 div 128) * (of_nat (16 + imm8 mod 16) / 16) *
     (2 ^ (imm8 div 16 mod 4) * (if imm8 div 64 mod 2 = 1 then 1 else 16) / 8)"

lemma significand_bounds:
  assumes "F < 2 ^ f"
  shows "significand f E F < 2 * 2 ^ f" "E \<noteq> 0 \<Longrightarrow> 2 ^ f \<le> significand f E F"
  using assms by (auto simp: significand_def)

lemma scaled_inj:
  assumes F: "F < 2 ^ f" "F' < 2 ^ f" and eq: "significand f E F * 2 ^ E = significand f E' F' * 2 ^ E'"
  shows "E = E' \<and> F = F'"
proof -
  have less: "significand f E F * 2 ^ E < significand f E' F' * 2 ^ E'" if "F < 2 ^ f" "F' < 2 ^ f" "E < E'" for E E' F F'
  proof -
    have "significand f E F * 2 ^ E < 2 * 2 ^ f * 2 ^ E" using significand_bounds(1)[OF that(1)] by simp
    also have "\<dots> = 2 ^ f * 2 ^ Suc E" by simp
    also have "\<dots> \<le> 2 ^ f * 2 ^ E'" using that(3) by (intro mult_left_mono power_increasing) simp_all
    also have "\<dots> \<le> significand f E' F' * 2 ^ E'" using significand_bounds(2)[OF that(2)] that(3) by simp
    finally show ?thesis .
  qed
  have "E = E'" using less[OF F] less[OF F(2,1)] eq by (metis less_irrefl linorder_neqE_nat)
  then show ?thesis using eq by (auto simp: significand_def split: if_splits)
qed

text \<open>Bit patterns of the same number, other than 0, are the same.\<close>

lemma float_value_inj:
  assumes bits: "bits < 2 * 2 ^ (e + f)" "bits' < 2 * 2 ^ (e + f)"
    and x: "float_value e f bits = Some x" "float_value e f bits' = Some x" "x \<noteq> 0"
  shows "bits = bits'"
proof -
  define S E F where "S = bits div 2 ^ (e + f)" and "E = bits div 2 ^ f mod 2 ^ e" and "F = bits mod 2 ^ f"
  define S' E' F' where "S' = bits' div 2 ^ (e + f)" and "E' = bits' div 2 ^ f mod 2 ^ e" and "F' = bits' mod 2 ^ f"
  let ?m = "of_nat (significand f E F * 2 ^ E) :: rat" and ?m' = "of_nat (significand f E' F' * 2 ^ E') :: rat"
  have fields: "b = b div 2 ^ (e + f) * 2 ^ (e + f) + b div 2 ^ f mod 2 ^ e * 2 ^ f + b mod 2 ^ f" for b :: nat
  proof -
    have "b div 2 ^ (e + f) = b div 2 ^ f div 2 ^ e" by (simp add: div_mult2_eq[symmetric] power_add mult.commute)
    then have "b div 2 ^ f = b div 2 ^ (e + f) * 2 ^ e + b div 2 ^ f mod 2 ^ e"
      using div_mult_mod_eq[of "b div 2 ^ f" "2 ^ e"] by simp
    then have "b = (b div 2 ^ (e + f) * 2 ^ e + b div 2 ^ f mod 2 ^ e) * 2 ^ f + b mod 2 ^ f" by (metis div_mult_mod_eq)
    then show ?thesis by (simp add: distrib_right power_add mult.assoc)
  qed
  have S: "S < 2" "S' < 2" using bits by (simp_all add: S_def S'_def less_mult_imp_div_less)
  have v: "(- 1) ^ S * ?m / (2 ^ f * 2 ^ (2 ^ (e - 1) - 1)) = x" "(- 1) ^ S' * ?m' / (2 ^ f * 2 ^ (2 ^ (e - 1) - 1)) = x"
    using x(1,2) by (simp_all add: float_value_def Let_def S_def E_def F_def S'_def E'_def F'_def split: if_splits)
  then have eq: "(- 1) ^ S * ?m = (- 1) ^ S' * ?m'" by (metis divide_cancel_right mult_eq_0_iff power_not_zero zero_neq_numeral)
  have "?m \<noteq> 0" using v(1) x(3) by (intro notI) (simp del: of_nat_mult)
  moreover have "?m' \<noteq> 0" using v(2) x(3) by (intro notI) (simp del: of_nat_mult)
  ultimately have pos: "0 < ?m" "0 < ?m'" by (simp_all only: of_nat_0_less_iff of_nat_eq_0_iff neq0_conv)
  have "S = S' \<and> ?m = ?m'"
  proof -
    have "S = 0 \<or> S = 1" "S' = 0 \<or> S' = 1" using S by auto
    then show ?thesis using eq pos by (elim disjE) (simp_all del: of_nat_mult)
  qed
  then have "S = S'" "significand f E F * 2 ^ E = significand f E' F' * 2 ^ E'" by (simp_all only: of_nat_eq_iff)
  moreover from this(2) have "E = E' \<and> F = F'" by (intro scaled_inj) (simp_all add: F_def F'_def)
  ultimately show ?thesis using fields[of bits] fields[of bits'] unfolding S_def S'_def E_def E'_def F_def F'_def by simp
qed

subsection \<open>The numbers of the immediates\<close>

text \<open>The fields of an immediate below 256.\<close>

lemma imm8_fields:
  fixes i :: nat
  shows "drop_bit 7 i AND 1 = i div 128 mod 2" "drop_bit 6 i AND 1 = i div 64 mod 2" "drop_bit 4 i AND 3 = i div 16 mod 4"
    "i AND 15 = i mod 16"
proof -
  have mask: "n AND 1 = n mod 2" "n AND 3 = n mod 4" "n AND 15 = n mod 16" for n :: nat
    using take_bit_eq_mask[of 1 n] take_bit_eq_mask[of 2 n] take_bit_eq_mask[of 4 n]
    by (simp_all add: take_bit_eq_mod mask_eq_exp_minus_1)
  show "drop_bit 7 i AND 1 = i div 128 mod 2" "drop_bit 6 i AND 1 = i div 64 mod 2" "drop_bit 4 i AND 3 = i div 16 mod 4"
    "i AND 15 = i mod 16" by (simp_all add: mask drop_bit_eq_div)
qed

lemma or_shifted: "m < 2 ^ k \<Longrightarrow> push_bit k n OR m = n * 2 ^ k + m" for m n :: nat
proof -
  assume m: "m < 2 ^ k"
  have "\<not> bit m j" if "k \<le> j" for j
    using that take_bit_nat_eq_self[OF m] bit_take_bit_iff[of k m j] by simp
  then have "push_bit k n AND m = 0" by (intro bit_eqI) (auto simp: bit_simps)
  then have "push_bit k n + m = push_bit k n OR m" by (rule disjunctive_add_eq_or)
  then show ?thesis by (simp add: push_bit_eq_mult)
qed

lemma expand_fields:
  fixes i :: nat
  assumes "i < 256"
  shows "vfp_expand_imm_f64 i =
      (i div 128 * 2 ^ 11 + (i div 16 mod 4 + (if i div 64 mod 2 = 1 then 1020 else 1024))) * 2 ^ 52 + i mod 16 * 2 ^ 48"
    and "vfp_expand_imm_f32 i =
      (i div 128 * 2 ^ 8 + (i div 16 mod 4 + (if i div 64 mod 2 = 1 then 124 else 128))) * 2 ^ 23 + i mod 16 * 2 ^ 19"
proof -
  have s: "i div 128 mod 2 = i div 128" using assms by simp
  have b6: "i div 64 mod 2 = 0 \<or> i div 64 mod 2 = 1" by linarith
  have cd: "i div 16 mod 4 < 4" and frac: "i mod 16 < 16" by simp_all
  have "push_bit 10 (b6 XOR 1) OR (if b6 = 1 then push_bit 2 0xff else 0) OR cd = cd + (if b6 = 1 then 1020 else 1024)"
    "push_bit 7 (b6 XOR 1) OR (if b6 = 1 then push_bit 2 0x1f else 0) OR cd = cd + (if b6 = 1 then 124 else 128)"
    if "cd < 4" "b6 = 0 \<or> b6 = 1" for b6 cd :: nat
    using that or_shifted[of cd 2 255] or_shifted[of cd 2 31] or_shifted[of cd 10 1] or_shifted[of cd 7 1] by auto
  note exp = this[OF cd b6]
  have "push_bit 52 E OR push_bit 48 F = E * 2 ^ 52 + F * 2 ^ 48" "push_bit 23 E OR push_bit 19 F = E * 2 ^ 23 + F * 2 ^ 19"
    if "F < 16" for E F :: nat
    using that or_shifted[of "push_bit 48 F" 52 E] or_shifted[of "push_bit 19 F" 23 E] by (simp_all add: push_bit_eq_mult)
  note tail = this[OF frac]
  have "vfp_expand_imm_f64 i = push_bit 63 (i div 128) OR ((i div 16 mod 4 + (if i div 64 mod 2 = 1 then 1020 else 1024)) * 2 ^ 52 + i mod 16 * 2 ^ 48)"
    unfolding vfp_expand_imm_f64_def Let_def imm8_fields exp tail s ..
  then show "vfp_expand_imm_f64 i =
      (i div 128 * 2 ^ 11 + (i div 16 mod 4 + (if i div 64 mod 2 = 1 then 1020 else 1024))) * 2 ^ 52 + i mod 16 * 2 ^ 48"
    using cd frac by (simp add: or_shifted)
  have "vfp_expand_imm_f32 i = push_bit 31 (i div 128) OR ((i div 16 mod 4 + (if i div 64 mod 2 = 1 then 124 else 128)) * 2 ^ 23 + i mod 16 * 2 ^ 19)"
    unfolding vfp_expand_imm_f32_def Let_def imm8_fields exp tail s ..
  then show "vfp_expand_imm_f32 i =
      (i div 128 * 2 ^ 8 + (i div 16 mod 4 + (if i div 64 mod 2 = 1 then 124 else 128))) * 2 ^ 23 + i mod 16 * 2 ^ 19"
    using cd frac by (simp add: or_shifted)
qed

lemma float_value_fields:
  assumes "F < 2 ^ f" "E < 2 ^ e - 1"
  shows "float_value e f ((S * 2 ^ e + E) * 2 ^ f + F) =
    Some ((- 1) ^ S * (of_nat (significand f E F) / 2 ^ f) * (2 ^ E / 2 ^ (2 ^ (e - 1) - 1)))"
proof -
  have E: "E < 2 ^ e" using assms(2) by linarith
  let ?b = "(S * 2 ^ e + E) * 2 ^ f + F"
  have "?b div 2 ^ f = S * 2 ^ e + E" "?b mod 2 ^ f = F" using assms(1) by simp_all
  moreover from this(1) have "?b div 2 ^ (e + f) = S" using E by (simp add: power_add mult.commute[of "2 ^ e"] div_mult2_eq)
  ultimately show ?thesis using assms(2) E by (simp add: float_value_def)
qed

lemma expand_value:
  assumes "i < 256"
  shows "float_value 11 52 (vfp_expand_imm_f64 i) = Some (fmov_value i)" "vfp_expand_imm_f64 i < 2 * 2 ^ (11 + 52)"
    "float_value 8 23 (vfp_expand_imm_f32 i) = Some (fmov_value i)" "vfp_expand_imm_f32 i < 2 * 2 ^ (8 + 23)"
    "fmov_value i \<noteq> 0"
proof -
  have s: "i div 128 < 2" using assms by simp
  have cd: "i div 16 mod 4 < 4" and frac: "i mod 16 < 16" by simp_all
  show "float_value 11 52 (vfp_expand_imm_f64 i) = Some (fmov_value i)"
    unfolding expand_fields(1)[OF assms] using cd frac
    by (subst float_value_fields) (auto simp: fmov_value_def significand_def power_add field_simps)
  show "float_value 8 23 (vfp_expand_imm_f32 i) = Some (fmov_value i)"
    unfolding expand_fields(2)[OF assms] using cd frac
    by (subst float_value_fields) (auto simp: fmov_value_def significand_def power_add field_simps)
  show "vfp_expand_imm_f64 i < 2 * 2 ^ (11 + 52)" "vfp_expand_imm_f32 i < 2 * 2 ^ (8 + 23)"
    unfolding expand_fields[OF assms] using s cd frac by auto
  show "fmov_value i \<noteq> 0" by (simp add: fmov_value_def)
qed

text \<open>Different immediates stand for different numbers.\<close>

lemma fmov_value_inj:
  assumes "fmov_value i = fmov_value j" "i < 256" "j < 256"
  shows "i = j"
proof -
  have "vfp_expand_imm_f64 i = vfp_expand_imm_f64 j"
    using expand_value(1,2,5)[OF assms(2)] expand_value(1,2)[OF assms(3)] assms(1) by (intro float_value_inj) simp_all
  then have eq: "(i div 128 * 2 ^ 11 + (i div 16 mod 4 + (if i div 64 mod 2 = 1 then 1020 else 1024))) * 2 ^ 52 + i mod 16 * 2 ^ 48
      = (j div 128 * 2 ^ 11 + (j div 16 mod 4 + (if j div 64 mod 2 = 1 then 1020 else 1024))) * 2 ^ 52 + j mod 16 * 2 ^ 48"
    unfolding expand_fields(1)[OF assms(2)] expand_fields(1)[OF assms(3)] .
  have digits: "n = n div 128 * 128 + n div 64 mod 2 * 64 + n div 16 mod 4 * 16 + n mod 16" for n :: nat
  proof -
    have "n div 64 = n div 128 * 2 + n div 64 mod 2" using div_mult_mod_eq[of "n div 64" 2] div_mult2_eq[of n 64 2] by simp
    moreover have "n div 16 = n div 64 * 4 + n div 16 mod 4" using div_mult_mod_eq[of "n div 16" 4] div_mult2_eq[of n 16 4] by simp
    ultimately show ?thesis using div_mult_mod_eq[of n 16] by linarith
  qed
  have cut: "x = y \<and> a = b" if "a * 2 ^ 52 + x * 2 ^ 48 = b * 2 ^ 52 + y * 2 ^ 48" "x < 16" "y < 16" for a b x y :: nat
  proof -
    have "(a * 16 + x) * 2 ^ 48 = (b * 16 + y) * 2 ^ 48" using that(1) by simp
    then have "a * 16 + x = b * 16 + y" by simp
    then show ?thesis using that(2,3) by presburger
  qed
  have "i mod 16 = j mod 16 \<and> i div 128 * 2 ^ 11 + (i div 16 mod 4 + (if i div 64 mod 2 = 1 then 1020 else 1024))
      = j div 128 * 2 ^ 11 + (j div 16 mod 4 + (if j div 64 mod 2 = 1 then 1020 else 1024))"
    using cut[OF eq] by simp
  moreover have "S = S' \<and> b = b' \<and> c = c'"
    if e: "S * 2 ^ 11 + (c + (if b = 1 then 1020 else 1024)) = S' * 2 ^ 11 + (c' + (if b' = 1 then 1020 else 1024))"
      and d: "c < 4" "c' < 4" "b < 2" "b' < 2" for S S' b b' c c' :: nat
  proof -
    define r r' where "r = c + (if b = 1 then 1020 else 1024)" and "r' = c' + (if b' = 1 then 1020 else 1024)"
    have r: "r < 2 ^ 11" "r' < 2 ^ 11" "S * 2 ^ 11 + r = S' * 2 ^ 11 + r'" using d(1,2) e by (auto simp: r_def r'_def)
    have "S = (S * 2 ^ 11 + r) div 2 ^ 11" "S' = (S' * 2 ^ 11 + r') div 2 ^ 11" using r(1,2) by simp_all
    then have "S = S'" unfolding r(3) by linarith
    then have "r = r'" using r(3) by simp
    moreover have "b = 0 \<or> b = 1" "b' = 0 \<or> b' = 1" using d(3,4) by auto
    ultimately show ?thesis using \<open>S = S'\<close> d(1,2) by (auto simp: r_def r'_def)
  qed
  ultimately have "i mod 16 = j mod 16 \<and> i div 128 = j div 128 \<and> i div 64 mod 2 = j div 64 mod 2 \<and> i div 16 mod 4 = j div 16 mod 4"
    by (metis mod_less_divisor zero_less_numeral)
  then show ?thesis using digits[of i] digits[of j] by simp
qed

lemma find_upt_inj:
  assumes "\<And>i j. i < n \<Longrightarrow> j < n \<Longrightarrow> f i = f j \<Longrightarrow> i = j"
  shows "find (\<lambda>i. f i = b) [0..<n] = Some k \<longleftrightarrow> k < n \<and> f k = b"
proof
  assume "find (\<lambda>i. f i = b) [0..<n] = Some k"
  then show "k < n \<and> f k = b" by (auto simp: find_Some_iff)
next
  assume k: "k < n \<and> f k = b"
  then have "find (\<lambda>i. f i = b) [0..<n] \<noteq> None" by (auto simp: find_None_iff)
  then obtain j where j: "find (\<lambda>i. f i = b) [0..<n] = Some j" by blast
  then have "j < n \<and> f j = b" by (auto simp: find_Some_iff)
  then have "j = k" using k assms [of j k] by simp
  then show "find (\<lambda>i. f i = b) [0..<n] = Some k" using j by simp
qed

text \<open>
  (C36) FMOV immediates: the search finds an immediate exactly for the patterns of the numbers \<open>\<plusminus>(16..31)/16 * 2^(-3..4)\<close>, the one that
  stands for the number, in both precisions.
\<close>

theorem fmov_imm8_correct:
  "(fmov_imm8_for_f64_bits bits = Some imm8 \<longleftrightarrow> imm8 < 256 \<and> bits < 2 ^ 64 \<and> float_value 11 52 bits = Some (fmov_value imm8)) \<and>
   (fmov_imm8_for_f32_bits bits = Some imm8 \<longleftrightarrow> imm8 < 256 \<and> bits < 2 ^ 32 \<and> float_value 8 23 bits = Some (fmov_value imm8))"
proof -
  have f64: "vfp_expand_imm_f64 i = bits \<longleftrightarrow> bits < 2 ^ 64 \<and> float_value 11 52 bits = Some (fmov_value i)" if "i < 256" for i bits
    using expand_value(1,2,5)[OF that] float_value_inj[of "vfp_expand_imm_f64 i" 11 52 bits "fmov_value i"] by auto
  have f32: "vfp_expand_imm_f32 i = bits \<longleftrightarrow> bits < 2 ^ 32 \<and> float_value 8 23 bits = Some (fmov_value i)" if "i < 256" for i bits
    using expand_value(3,4,5)[OF that] float_value_inj[of "vfp_expand_imm_f32 i" 8 23 bits "fmov_value i"] by auto
  have inj: "i = j" if "fmov_value i = fmov_value j" "i < 256" "j < 256" for i j by (rule fmov_value_inj[OF that])
  have "fmov_imm8_for_f64_bits bits = Some imm8 \<longleftrightarrow> imm8 < 256 \<and> vfp_expand_imm_f64 imm8 = bits"
    unfolding fmov_imm8_for_f64_bits_def by (rule find_upt_inj) (metis expand_value(1) inj option.inject)
  moreover have "fmov_imm8_for_f32_bits bits = Some imm8 \<longleftrightarrow> imm8 < 256 \<and> vfp_expand_imm_f32 imm8 = bits"
    unfolding fmov_imm8_for_f32_bits_def by (rule find_upt_inj) (metis expand_value(3) inj option.inject)
  ultimately show ?thesis using f64 f32 by blast
qed

text \<open>The numbers 1, -2.5 and 0.\<close>

theorem fmov_imm8_correct_witness:
  "fmov_imm8_for_f64_bits 0x3ff0000000000000 = Some 0x70 \<and> fmov_imm8_for_f32_bits 0xc0200000 = Some 0x84 \<and>
   (fmov_value 0x70, fmov_value 0x84) = (1, - 5 / 2) \<and> fmov_imm8_for_f64_bits 0 = None"
proof -
  have "fmov_imm8_for_f64_bits 0x3ff0000000000000 = Some 0x70"
    using fmov_imm8_correct[of "0x3ff0000000000000" "0x70"] by (simp add: float_value_def fmov_value_def significand_def Let_def)
  moreover have "fmov_imm8_for_f32_bits 0xc0200000 = Some 0x84"
    using fmov_imm8_correct[of "0xc0200000" "0x84"] by (simp add: float_value_def fmov_value_def significand_def Let_def)
  moreover have "fmov_imm8_for_f64_bits 0 \<noteq> Some i" for i
    using fmov_imm8_correct[of 0 i] by (simp add: float_value_def fmov_value_def significand_def)
  ultimately show ?thesis by (auto simp: fmov_value_def)
qed

end
