(* ===== verification/Cfg_Order.thy ===== *)
theory Cfg_Order
  imports Prelude
begin

text \<open>
  Control flow graphs as the analyses see them:
  \<^verbatim>\<open>crates/pliron-ll/src/passes/dominance_frontier.rs\<close> (\<open>reachable_blocks\<close>,
  \<open>visit_reachable_block\<close>, \<open>predecessor_indexes\<close>) and the same search in
  \<^verbatim>\<open>crates/pliron-ll/src/passes/hot_path.rs\<close>.

  Blocks are numbers.  A region is its list of blocks, the first of them the entry; \<open>succs\<close> gives the
  successors of a block's terminator, which may lie outside the region.  The theorem says that the
  search returns the reachable blocks, each once, in an order in which every block but the entry comes
  after one of its predecessors.
\<close>

subsection \<open>Depth-first search\<close>

text \<open>
  The state is the set of seen blocks and the post order so far.  The loop over the successors of a
  block and the recursive call are one function over the list of blocks still to visit.
\<close>

function visit_blocks :: "(nat \<Rightarrow> nat list) \<Rightarrow> nat list \<Rightarrow> nat list \<Rightarrow> nat list \<times> nat list \<Rightarrow> nat list \<times> nat list" where
  "visit_blocks succs region [] st = st"
| "visit_blocks succs region (b # bs) (seen, post) =
     (if b \<notin> set region \<or> b \<in> set seen then visit_blocks succs region bs (seen, post)
      else case visit_blocks succs region (succs b) (b # seen, post) of
        (seen', post') \<Rightarrow> visit_blocks succs region bs (seen', post' @ [b]))"
  by pat_completeness auto

termination
proof (relation "measures [\<lambda>(succs, region, bs, seen, post). card (set region - set seen), \<lambda>(succs, region, bs, seen, post). length bs]", goal_cases)
  case (3 succs region b bs seen post)
  then have "set region - set (b # seen) \<subset> set region - set seen" by auto
  then have "card (set region - set (b # seen)) < card (set region - set seen)" by (rule psubset_card_mono[rotated]) simp
  then show ?case by simp
next
  case (4 succs region b bs seen post seen' post')
  have mono: "set sn \<subseteq> set (fst (visit_blocks sc rg bls (sn, ps)))" if "visit_blocks_dom (sc, rg, bls, sn, ps)" for sc rg bls sn ps
    using that
    by (induction sc rg bls "(sn, ps)" arbitrary: sn ps rule: visit_blocks.pinduct)
      (fastforce simp: visit_blocks.psimps split: prod.splits)+
  then have "set (b # seen) \<subseteq> set seen'" using 4 mono[of succs region "succs b" "b # seen" post] by (metis fst_conv)
  then have "set region - set seen' \<subset> set region - set seen" using 4 by auto
  then have "card (set region - set seen') < card (set region - set seen)" by (rule psubset_card_mono[rotated]) simp
  then show ?case by simp
qed simp_all

definition reachable_blocks :: "(nat \<Rightarrow> nat list) \<Rightarrow> nat list \<Rightarrow> nat list" where
  "reachable_blocks succs region = (case region of
     [] \<Rightarrow> []
   | entry # _ \<Rightarrow> rev (snd (visit_blocks succs region [entry] ([], []))))"

subsection \<open>What the search visits\<close>

text \<open>
  \<open>new\<close> is what a call appends to the post order: unseen blocks of the region, closed under successors
  together with the seen ones, each of them asked for or a successor of one that comes later.
\<close>

definition visited :: "(nat \<Rightarrow> nat list) \<Rightarrow> nat list \<Rightarrow> nat list \<Rightarrow> nat set \<Rightarrow> nat list \<Rightarrow> bool" where
  "visited succs region bs seen new \<longleftrightarrow> distinct new \<and> set new \<subseteq> set region - seen
     \<and> set bs \<inter> set region \<subseteq> seen \<union> set new
     \<and> (\<forall>x \<in> set new. set (succs x) \<inter> set region \<subseteq> seen \<union> set new)
     \<and> (\<forall>k < length new. new ! k \<in> set bs \<or> (\<exists>l. k < l \<and> l < length new \<and> new ! k \<in> set (succs (new ! l))))"

lemma visited_skip:
  assumes "visited succs region bs seen new" "b \<notin> set region \<or> b \<in> seen"
  shows "visited succs region (b # bs) seen new"
  using assms unfolding visited_def by auto

lemma visited_step:
  assumes 1: "visited succs region (succs b) (insert b seen) new1" and 2: "visited succs region bs (insert b seen \<union> set new1) new2"
    and b: "b \<in> set region" "b \<notin> seen"
  shows "visited succs region (b # bs) seen (new1 @ b # new2)"
proof -
  have parent: "(new1 @ b # new2) ! k \<in> set (b # bs) \<or>
      (\<exists>l. k < l \<and> l < length (new1 @ b # new2) \<and> (new1 @ b # new2) ! k \<in> set (succs ((new1 @ b # new2) ! l)))"
    if k: "k < length (new1 @ b # new2)" for k
  proof -
    consider "k < length new1" | "k = length new1" | i where "k = Suc (length new1) + i" "i < length new2"
    proof -
      have "k = Suc (length new1) + (k - Suc (length new1)) \<and> k - Suc (length new1) < length new2"
        if "\<not> k < length new1" "k \<noteq> length new1" using that k by auto
      then show thesis using that by blast
    qed
    then show ?thesis
    proof cases
      case 1
      then have "new1 ! k \<in> set (succs b) \<or> (\<exists>l. k < l \<and> l < length new1 \<and> new1 ! k \<in> set (succs (new1 ! l)))"
        using assms(1) by (simp add: visited_def)
      then show ?thesis
      proof
        assume "new1 ! k \<in> set (succs b)"
        then show ?thesis using 1 by (intro disjI2 exI[of _ "length new1"]) (simp add: nth_append)
      next
        assume "\<exists>l. k < l \<and> l < length new1 \<and> new1 ! k \<in> set (succs (new1 ! l))"
        then obtain l where "k < l" "l < length new1" "new1 ! k \<in> set (succs (new1 ! l))" by blast
        then show ?thesis using 1 by (intro disjI2 exI[of _ l]) (simp add: nth_append)
      qed
    next
      case 3
      then have "new2 ! i \<in> set bs \<or> (\<exists>l. i < l \<and> l < length new2 \<and> new2 ! i \<in> set (succs (new2 ! l)))"
        using assms(2) by (simp add: visited_def)
      then show ?thesis
      proof
        assume "\<exists>l. i < l \<and> l < length new2 \<and> new2 ! i \<in> set (succs (new2 ! l))"
        then obtain l where "i < l" "l < length new2" "new2 ! i \<in> set (succs (new2 ! l))" by blast
        then show ?thesis using 3 by (intro disjI2 exI[of _ "Suc (length new1) + l"]) (simp add: nth_append)
      qed (use 3 in \<open>simp add: nth_append\<close>)
    qed (simp add: nth_append)
  qed
  show ?thesis using 1 2 b parent unfolding visited_def by auto
qed

lemma visit_blocks_visited:
  "visit_blocks succs region bs (seen, post) = (seen', post') \<Longrightarrow>
    \<exists>new. post' = post @ new \<and> set seen' = set seen \<union> set new \<and> visited succs region bs (set seen) new"
proof (induction succs region bs "(seen, post)" arbitrary: seen post seen' post' rule: visit_blocks.induct)
  case (1 succs region seen post)
  then show ?case by (simp add: visited_def)
next
  case (2 succs region b bs seen post)
  show ?case
  proof (cases "b \<notin> set region \<or> b \<in> set seen")
    case True
    then show ?thesis using 2 visited_skip by (metis visit_blocks.simps(2))
  next
    case False
    obtain s1 p1 where v1: "visit_blocks succs region (succs b) (b # seen, post) = (s1, p1)" by fastforce
    then have v2: "visit_blocks succs region bs (s1, p1 @ [b]) = (seen', post')" using 2(4) False by simp
    obtain new1 where n1: "p1 = post @ new1" "set s1 = set (b # seen) \<union> set new1" "visited succs region (succs b) (set (b # seen)) new1"
      using 2(2)[OF False v1] by blast
    obtain new2 where n2: "post' = (p1 @ [b]) @ new2" "set seen' = set s1 \<union> set new2" "visited succs region bs (set s1) new2"
      using 2(3)[OF False v1[symmetric] v2] by blast
    have "visited succs region (b # bs) (set seen) (new1 @ b # new2)"
      using visited_step[of succs region b "set seen" new1 bs new2] n1 n2 False by simp
    then show ?thesis using n1 n2 by (intro exI[of _ "new1 @ b # new2"]) auto
  qed
qed

subsection \<open>Reverse post order\<close>

definition cfg_edges :: "(nat \<Rightarrow> nat list) \<Rightarrow> nat list \<Rightarrow> (nat \<times> nat) set" where
  "cfg_edges succs region = {(a, b). a \<in> set region \<and> b \<in> set region \<and> b \<in> set (succs a)}"

lemma reachable_blocks_visited:
  assumes "region = entry # rest"
  obtains new where "reachable_blocks succs region = rev new" "visited succs region [entry] {} new"
proof -
  obtain seen post where v: "visit_blocks succs region [entry] ([], []) = (seen, post)" by fastforce
  obtain new where "post = [] @ new" "visited succs region [entry] (set []) new" using visit_blocks_visited[OF v] by blast
  then show ?thesis using that[of new] v assms by (simp add: reachable_blocks_def)
qed

text \<open>The facts the analyses rely on.\<close>

definition rpo_list :: "(nat \<Rightarrow> nat list) \<Rightarrow> nat list \<Rightarrow> nat \<Rightarrow> nat list \<Rightarrow> bool" where
  "rpo_list succs region entry rpo \<longleftrightarrow> distinct rpo \<and> set rpo = (cfg_edges succs region)\<^sup>* `` {entry}
     \<and> 0 < length rpo \<and> rpo ! 0 = entry
     \<and> (\<forall>k < length rpo. 0 < k \<longrightarrow> (\<exists>l < k. rpo ! k \<in> set (succs (rpo ! l))))"

lemma visited_rpo_list:
  assumes v: "visited succs region [entry] {} new" and e: "entry \<in> set region"
  shows "rpo_list succs region entry (rev new)"
proof -
  have ne: "new \<noteq> []" and d: "distinct new" and sub: "set new \<subseteq> set region" using v e by (auto simp: visited_def)
  have parent: "new ! k = entry \<or> (\<exists>l. k < l \<and> l < length new \<and> new ! k \<in> set (succs (new ! l)))" if "k < length new" for k
    using v that by (auto simp: visited_def)
  have last: "new ! (length new - 1) = entry" using parent[of "length new - 1"] ne by auto
  have parents: "\<exists>l < k. rev new ! k \<in> set (succs (rev new ! l))" if k: "k < length new" "0 < k" for k
  proof -
    have "new ! (length new - Suc k) \<noteq> entry"
      using last d k nth_eq_iff_index_eq[OF d, of "length new - Suc k" "length new - 1"] by auto
    then obtain l where l: "length new - Suc k < l" "l < length new" "new ! (length new - Suc k) \<in> set (succs (new ! l))"
      using parent[of "length new - Suc k"] k by (metis Suc_pred diff_less length_greater_0_conv ne zero_less_Suc)
    then show ?thesis using k by (intro exI[of _ "length new - Suc l"]) (auto simp: rev_nth Suc_diff_Suc)
  qed
  have "rev new ! k \<in> (cfg_edges succs region)\<^sup>* `` {entry}" if "k < length new" for k
    using that
  proof (induction k rule: less_induct)
    case (less k)
    show ?case
    proof (cases "k = 0")
      case True
      then show ?thesis using last less.prems by (simp add: rev_nth)
    next
      case False
      then obtain l where l: "l < k" "rev new ! k \<in> set (succs (rev new ! l))" using parents less.prems by blast
      have "rev new ! l \<in> set region" "rev new ! k \<in> set region" using sub less.prems l(1) by (auto simp: rev_nth)
      then have "(rev new ! l, rev new ! k) \<in> cfg_edges succs region" using l(2) by (simp add: cfg_edges_def)
      then show ?thesis using less.IH[OF l(1)] l(1) less.prems by (auto intro: rtrancl_into_rtrancl)
    qed
  qed
  then have "set new \<subseteq> (cfg_edges succs region)\<^sup>* `` {entry}" by (metis in_set_conv_nth length_rev set_rev subsetI)
  moreover have "x \<in> set new" if "(entry, x) \<in> (cfg_edges succs region)\<^sup>*" for x
    using that by induction (use v e in \<open>auto simp: visited_def cfg_edges_def\<close>)
  ultimately have "set new = (cfg_edges succs region)\<^sup>* `` {entry}" by auto
  then show ?thesis using d ne last parents by (simp add: rpo_list_def rev_nth)
qed

lemma reachable_blocks_rpo:
  assumes "region = entry # rest"
  shows "rpo_list succs region entry (reachable_blocks succs region)"
proof (rule reachable_blocks_visited[OF assms])
  fix new assume "reachable_blocks succs region = rev new" "visited succs region [entry] {} new"
  then show "rpo_list succs region entry (reachable_blocks succs region)" using visited_rpo_list[of succs region entry new] assms by simp
qed

text \<open>
  (C1) The block order of the analyses: the search returns exactly the blocks reachable from the entry,
  each once, the entry first and every other block behind one of its predecessors.
\<close>

theorem reachable_blocks_order:
  assumes "region = entry # rest"
  shows "let rpo = reachable_blocks succs region in
      distinct rpo \<and> set rpo = (cfg_edges succs region)\<^sup>* `` {entry} \<and> rpo ! 0 = entry
    \<and> (\<forall>k < length rpo. 0 < k \<longrightarrow> (\<exists>l < k. rpo ! k \<in> set (succs (rpo ! l))))"
  using reachable_blocks_rpo[OF assms] unfolding rpo_list_def Let_def by blast

theorem reachable_blocks_order_witness:
  "let succs = (\<lambda>b. if b = 5 then [7, 9] else if b = 7 then [5, 9] else []) in
   reachable_blocks succs [5, 7, 8, 9] = [5, 7, 9] \<and> (cfg_edges succs [5, 7, 8, 9])\<^sup>* `` {5} = {5, 7, 9}"
proof -
  define succs :: "nat \<Rightarrow> nat list" where "succs = (\<lambda>b. if b = 5 then [7, 9] else if b = 7 then [5, 9] else [])"
  have r: "reachable_blocks succs [5, 7, 8, 9] = [5, 7, 9]" by (simp add: reachable_blocks_def succs_def)
  have "set [5, 7, 9] = (cfg_edges succs [5, 7, 8, 9])\<^sup>* `` {5}"
    using reachable_blocks_order[of "[5, 7, 8, 9]" 5 "[7, 8, 9]" succs] unfolding r by (simp add: Let_def)
  then show ?thesis using r by (simp add: succs_def [symmetric])
qed

subsection \<open>Predecessors\<close>

definition block_indexes :: "nat list \<Rightarrow> (nat \<rightharpoonup> nat)" where
  "block_indexes blocks = fold (\<lambda>(i, b) m. m(b \<mapsto> i)) (enumerate 0 blocks) Map.empty"

definition push_pred :: "(nat \<rightharpoonup> nat) \<Rightarrow> nat \<Rightarrow> nat \<Rightarrow> nat list list \<Rightarrow> nat list list" where
  "push_pred indexes i succ preds = (case indexes succ of None \<Rightarrow> preds | Some j \<Rightarrow> preds[j := preds ! j @ [i]])"

definition predecessor_indexes :: "(nat \<Rightarrow> nat list) \<Rightarrow> nat list \<Rightarrow> nat list list" where
  "predecessor_indexes succs blocks =
     fold (\<lambda>(i, b). fold (push_pred (block_indexes blocks) i) (succs b)) (enumerate 0 blocks) (replicate (length blocks) [])"

lemma block_indexes_from:
  "distinct blocks \<Longrightarrow> fold (\<lambda>(i, b) m. m(b \<mapsto> i)) (enumerate n blocks) m0 x = Some j \<longleftrightarrow>
    (n \<le> j \<and> j < n + length blocks \<and> blocks ! (j - n) = x) \<or> (x \<notin> set blocks \<and> m0 x = Some j)"
proof (induction blocks arbitrary: n m0)
  case (Cons b blocks)
  then show ?case by (cases "j = n") (auto simp: nth_Cons' Suc_diff_Suc)
qed auto

lemma block_indexes_at: "distinct blocks \<Longrightarrow> block_indexes blocks x = Some j \<longleftrightarrow> j < length blocks \<and> blocks ! j = x"
  by (simp add: block_indexes_def block_indexes_from)

lemma push_pred_length [simp]: "length (push_pred indexes i s preds) = length preds"
  by (simp add: push_pred_def split: option.splits)

lemma push_preds:
  assumes "\<forall>s j. indexes s = Some j \<longrightarrow> j < length preds"
  shows "length (fold (push_pred indexes i) ss preds) = length preds \<and>
    (\<forall>j < length preds. set (fold (push_pred indexes i) ss preds ! j) =
      set (preds ! j) \<union> (if \<exists>s \<in> set ss. indexes s = Some j then {i} else {}))"
  using assms
proof (induction ss arbitrary: preds)
  case (Cons s ss)
  have "set (push_pred indexes i s preds ! j) = set (preds ! j) \<union> (if indexes s = Some j then {i} else {})" if "j < length preds" for j
    using that by (auto simp: push_pred_def nth_list_update split: option.splits)
  moreover have "\<forall>s' j. indexes s' = Some j \<longrightarrow> j < length (push_pred indexes i s preds)" using Cons.prems by simp
  ultimately show ?case using Cons.IH[of "push_pred indexes i s preds"] by auto
qed simp

lemma shifted_indexes:
  fixes P :: "'a \<Rightarrow> bool"
  shows "{n + k | k. k < length (b # bs) \<and> P ((b # bs) ! k)} = (if P b then {n} else {}) \<union> {Suc n + k | k. k < length bs \<and> P (bs ! k)}"
    (is "?L = ?R")
proof (rule set_eqI)
  fix x
  have "x \<in> ?L \<longleftrightarrow> x = n \<and> P b \<or> (\<exists>k < length bs. x = n + Suc k \<and> P (bs ! k))"
    by (simp add: less_Suc_eq_0_disj) fastforce
  also have "\<dots> \<longleftrightarrow> x \<in> ?R" by auto
  finally show "x \<in> ?L \<longleftrightarrow> x \<in> ?R" .
qed

lemma predecessor_indexes_from:
  assumes "\<forall>s j. indexes s = Some j \<longrightarrow> j < length preds"
  shows "length (fold (\<lambda>(i, b). fold (push_pred indexes i) (succs b)) (enumerate n bs) preds) = length preds \<and>
    (\<forall>j < length preds. set (fold (\<lambda>(i, b). fold (push_pred indexes i) (succs b)) (enumerate n bs) preds ! j) =
      set (preds ! j) \<union> {n + k | k. k < length bs \<and> (\<exists>s \<in> set (succs (bs ! k)). indexes s = Some j)})"
  using assms
proof (induction bs arbitrary: n preds)
  case (Cons b bs)
  let ?p = "fold (push_pred indexes n) (succs b) preds"
  have p: "length ?p = length preds"
    "\<And>j. j < length preds \<Longrightarrow> set (?p ! j) = set (preds ! j) \<union> (if \<exists>s \<in> set (succs b). indexes s = Some j then {n} else {})"
    using push_preds[OF Cons.prems] by blast+
  then have prems: "\<forall>s j. indexes s = Some j \<longrightarrow> j < length ?p" using Cons.prems by simp
  note sh = shifted_indexes[where P = "\<lambda>c. \<exists>s \<in> set (succs c). indexes s = Some j" for j]
  show ?case
    unfolding enumerate_simps(2) fold_simps(2) prod.case sh
    using Cons.IH[OF prems, of "Suc n"] p by (simp add: Un_assoc)
qed simp

lemma predecessor_indexes_at:
  assumes d: "distinct blocks"
  shows "length (predecessor_indexes succs blocks) = length blocks"
    and "j < length blocks \<Longrightarrow> set (predecessor_indexes succs blocks ! j) = {i. i < length blocks \<and> blocks ! j \<in> set (succs (blocks ! i))}"
proof -
  have idx: "\<forall>s j. block_indexes blocks s = Some j \<longrightarrow> j < length (replicate (length blocks) ([] :: nat list))"
    by (simp add: block_indexes_at[OF d])
  note p = predecessor_indexes_from[OF idx, of succs 0 blocks, folded predecessor_indexes_def]
  show "length (predecessor_indexes succs blocks) = length blocks" using p by simp
  show "set (predecessor_indexes succs blocks ! j) = {i. i < length blocks \<and> blocks ! j \<in> set (succs (blocks ! i))}"
    if "j < length blocks" using p that by (auto simp: block_indexes_at[OF d])
qed

end
