(* ===== verification/Dominance.thy ===== *)
theory Dominance
  imports Cfg_Order "HOL-Library.Monad_Syntax"
begin

text \<open>
  Dominator trees and dominance frontiers:
  \<^verbatim>\<open>crates/pliron-ll/src/passes/dominance_frontier.rs\<close>.

  The iteration of Cooper, Harvey and Kennedy works on predecessor lists whose indices are a reverse post
  order.  The theorems say that it ends, and that it computes the immediate dominators and the
  frontiers of the graph, reducible or not.
\<close>

subsection \<open>The iteration\<close>

text \<open>\<open>None\<close>: an \<open>expect\<close> failed, an index was out of range, or a loop does not end.\<close>

definition idom_at :: "nat option list \<Rightarrow> nat \<Rightarrow> nat option" where
  "idom_at idoms x = (if x < length idoms then idoms ! x else None)"

text \<open>One inner loop of \<open>intersect_idoms\<close>: climb while the block is above \<open>stop\<close>.\<close>

partial_function (option) climb_idoms :: "nat option list \<Rightarrow> nat \<Rightarrow> nat \<Rightarrow> nat option" where
  "climb_idoms idoms stop x = (if stop < x then Option.bind (idom_at idoms x) (climb_idoms idoms stop) else Some x)"

partial_function (option) intersect_idoms :: "nat option list \<Rightarrow> nat \<Rightarrow> nat \<Rightarrow> nat option" where
  "intersect_idoms idoms lhs rhs =
     (if lhs = rhs then Some lhs
      else Option.bind (climb_idoms idoms rhs lhs) (\<lambda>lhs'.
        Option.bind (climb_idoms idoms lhs' rhs) (\<lambda>rhs'. intersect_idoms idoms lhs' rhs')))"

primrec intersect_preds :: "nat option list \<Rightarrow> nat list \<Rightarrow> nat \<Rightarrow> nat option" where
  "intersect_preds idoms [] new_idom = Some new_idom"
| "intersect_preds idoms (pred # preds) new_idom =
     Option.bind (intersect_idoms idoms pred new_idom) (intersect_preds idoms preds)"

text \<open>One block of a sweep, and a sweep over some blocks; the flag is \<open>changed\<close>.\<close>

definition idom_step :: "nat list list \<Rightarrow> nat \<Rightarrow> nat option list \<times> bool \<Rightarrow> (nat option list \<times> bool) option" where
  "idom_step predecessors block st =
     (case filter (\<lambda>pred. idom_at (fst st) pred \<noteq> None) (predecessors ! block) of
        [] \<Rightarrow> Some st
      | pred # preds \<Rightarrow> map_option (\<lambda>new_idom.
          if fst st ! block \<noteq> Some new_idom then ((fst st)[block := Some new_idom], True) else st)
          (intersect_preds (fst st) preds pred))"

primrec idom_sweep :: "nat list list \<Rightarrow> nat list \<Rightarrow> nat option list \<times> bool \<Rightarrow> (nat option list \<times> bool) option" where
  "idom_sweep predecessors [] st = Some st"
| "idom_sweep predecessors (block # blocks) st = Option.bind (idom_step predecessors block st) (idom_sweep predecessors blocks)"

partial_function (option) idom_loop :: "nat list list \<Rightarrow> nat option list \<Rightarrow> nat option list option" where
  "idom_loop predecessors idoms =
     Option.bind (idom_sweep predecessors [1..<length predecessors] (idoms, False))
       (\<lambda>st. if snd st then idom_loop predecessors (fst st) else Some (fst st))"

definition immediate_dominators :: "nat list list \<Rightarrow> nat option list option" where
  "immediate_dominators predecessors =
     (if predecessors = [] then Some []
      else idom_loop predecessors ((replicate (length predecessors) None)[0 := Some 0]))"

subsection \<open>Chains of a tree\<close>

text \<open>A block and its ancestors.\<close>

fun chain :: "nat option list \<Rightarrow> nat \<Rightarrow> nat set" where
  "chain T x = insert x (case idom_at T x of None \<Rightarrow> {} | Some y \<Rightarrow> if y < x then chain T y else {})"

declare chain.simps [simp del]

lemma chain_self [simp]: "x \<in> chain T x"
  by (simp add: chain.simps)

lemma chain_parent: "idom_at T x = Some y \<Longrightarrow> y < x \<Longrightarrow> chain T x = insert x (chain T y)"
  by (simp add: chain.simps[of T x])

lemma chain_root: "idom_at T x = None \<or> idom_at T x = Some x \<Longrightarrow> chain T x = {x}"
  by (auto simp: chain.simps[of T x])

lemma chain_cases:
  assumes "a \<in> chain T x"
  obtains "a = x" | y where "idom_at T x = Some y" "y < x" "a \<in> chain T y"
  using assms by (subst (asm) chain.simps) (auto split: option.splits if_splits)

lemma chain_le: "a \<in> chain T x \<Longrightarrow> a \<le> x"
proof (induction x rule: less_induct)
  case (less x)
  from less.prems show ?case by (rule chain_cases) (use less.IH in fastforce)+
qed

lemma chain_trans: "a \<in> chain T b \<Longrightarrow> b \<in> chain T x \<Longrightarrow> a \<in> chain T x"
proof (induction x rule: less_induct)
  case (less x)
  from less.prems(2) show ?case
  proof (rule chain_cases)
    fix y assume "idom_at T x = Some y" "y < x" "b \<in> chain T y"
    then show ?thesis using less.IH less.prems(1) chain_parent by blast
  qed (use less in simp)
qed

lemma chain_linear: "a \<in> chain T x \<Longrightarrow> b \<in> chain T x \<Longrightarrow> a \<le> b \<Longrightarrow> a \<in> chain T b"
proof (induction x rule: less_induct)
  case (less x)
  from less.prems(1) show ?case
  proof (rule chain_cases)
    assume "a = x"
    then show ?thesis using less.prems chain_le by (metis chain_self le_antisym)
  next
    fix y assume y: "idom_at T x = Some y" "y < x" "a \<in> chain T y"
    from less.prems(2) show ?thesis
      by (rule chain_cases) (use y less chain_parent in \<open>auto\<close>)
  qed
qed

text \<open>A well-formed tree: rooted at 0, parents are smaller, and an initial segment of the blocks is in it.\<close>

definition idoms_ok :: "nat option list \<Rightarrow> bool" where
  "idoms_ok T \<longleftrightarrow> idom_at T 0 = Some 0 \<and> (\<forall>x y. 0 < x \<and> idom_at T x = Some y \<longrightarrow> y < x)
     \<and> (\<forall>x y. idom_at T x \<noteq> None \<and> y < x \<longrightarrow> idom_at T y \<noteq> None)"

lemma idoms_okD:
  assumes "idoms_ok T"
  shows "idom_at T 0 = Some 0" "0 < x \<Longrightarrow> idom_at T x = Some y \<Longrightarrow> y < x"
    "idom_at T x \<noteq> None \<Longrightarrow> y < x \<Longrightarrow> idom_at T y \<noteq> None"
  using assms unfolding idoms_ok_def by blast+

lemma chain_processed: "idoms_ok T \<Longrightarrow> idom_at T x \<noteq> None \<Longrightarrow> a \<in> chain T x \<Longrightarrow> idom_at T a \<noteq> None"
  using chain_le idoms_okD(3) by (metis le_neq_implies_less)

lemma climb_idoms_chain:
  assumes T: "idoms_ok T" and "idom_at T x \<noteq> None"
  shows "\<exists>z. climb_idoms T stop x = Some z \<and> z \<in> chain T x \<and> (if stop < x then z \<le> stop else z = x) \<and>
    (\<forall>a \<in> chain T x. a \<le> stop \<longrightarrow> a \<in> chain T z)"
  using assms(2)
proof (induction x rule: less_induct)
  case (less x)
  show ?case
  proof (cases "stop < x")
    case False
    then show ?thesis by (subst climb_idoms.simps) simp
  next
    case True
    obtain y where y: "idom_at T x = Some y" "y < x" using less.prems True idoms_okD(2)[OF T, of x] by fastforce
    then have "idom_at T y \<noteq> None" using idoms_okD(3)[OF T, of x] by simp
    then obtain z where z: "climb_idoms T stop y = Some z" "z \<in> chain T y" "if stop < y then z \<le> stop else z = y"
      "\<forall>a \<in> chain T y. a \<le> stop \<longrightarrow> a \<in> chain T z" using less.IH[OF y(2)] by blast
    have "climb_idoms T stop x = Some z" using True y(1) z(1) by (subst climb_idoms.simps) simp
    then show ?thesis using True y z by (auto simp: chain_parent split: if_splits)
  qed
qed

lemma intersect_idoms_chain:
  assumes T: "idoms_ok T" and "idom_at T l \<noteq> None" "idom_at T r \<noteq> None"
  shows "\<exists>z. intersect_idoms T l r = Some z \<and> chain T z = chain T l \<inter> chain T r \<and> idom_at T z \<noteq> None"
  using assms(2,3)
proof (induction "l + r" arbitrary: l r rule: less_induct)
  case less
  show ?case
  proof (cases "l = r")
    case True
    then show ?thesis using less.prems by (subst intersect_idoms.simps) simp
  next
    case False
    obtain l' where l: "climb_idoms T r l = Some l'" "l' \<in> chain T l" "if r < l then l' \<le> r else l' = l"
      "\<forall>a \<in> chain T l. a \<le> r \<longrightarrow> a \<in> chain T l'" using climb_idoms_chain[OF T less.prems(1)] by blast
    obtain r' where r: "climb_idoms T l' r = Some r'" "r' \<in> chain T r" "if l' < r then r' \<le> l' else r' = r"
      "\<forall>a \<in> chain T r. a \<le> l' \<longrightarrow> a \<in> chain T r'" using climb_idoms_chain[OF T less.prems(2)] by blast
    have same: "chain T l' \<inter> chain T r' = chain T l \<inter> chain T r"
      using l r chain_le chain_trans by blast
    have "l' + r' < l + r" using l(3) r(3) False chain_le[OF l(2)] chain_le[OF r(2)] by (auto split: if_splits)
    moreover have "idom_at T l' \<noteq> None" "idom_at T r' \<noteq> None" using chain_processed[OF T] less.prems l(2) r(2) by blast+
    ultimately obtain z where "intersect_idoms T l' r' = Some z" "chain T z = chain T l' \<inter> chain T r'" "idom_at T z \<noteq> None"
      using less.hyps by blast
    then show ?thesis using False l(1) r(1) same by (subst intersect_idoms.simps) simp
  qed
qed

lemma intersect_preds_chain:
  assumes T: "idoms_ok T" and "\<forall>p \<in> set ps. idom_at T p \<noteq> None" "idom_at T cur \<noteq> None"
  shows "\<exists>z. intersect_preds T ps cur = Some z \<and> chain T z = (\<Inter>p \<in> set (cur # ps). chain T p) \<and> idom_at T z \<noteq> None"
  using assms(2,3)
proof (induction ps arbitrary: cur)
  case (Cons p ps)
  obtain z where "intersect_idoms T p cur = Some z" "chain T z = chain T p \<inter> chain T cur" "idom_at T z \<noteq> None"
    using intersect_idoms_chain[OF T] Cons.prems by (metis list.set_intros(1))
  then show ?case using Cons.IH[of z] Cons.prems by auto
qed simp

subsection \<open>Moving a block in the tree\<close>

lemma idom_at_update: "c < length T \<Longrightarrow> idom_at (T[c := Some f]) x = (if x = c then Some f else idom_at T x)"
  by (simp add: idom_at_def)

lemma chain_update:
  assumes "c < length T" "f < c"
  shows "chain (T[c := Some f]) x = (if c \<in> chain T x then {a \<in> chain T x. c \<le> a} \<union> chain T f else chain T x)"
proof (induction x rule: less_induct)
  case (less x)
  let ?T = "T[c := Some f]"
  have below: "chain ?T y = chain T y" if "y < x" "y < c" for y
    using less.IH[OF that(1)] chain_le that(2) by (metis not_le)
  consider "x = c" | "x \<noteq> c" "\<forall>y. idom_at T x = Some y \<longrightarrow> \<not> y < x" | y where "x \<noteq> c" "idom_at T x = Some y" "y < x" by blast
  then show ?case
  proof cases
    case 1
    then have "chain ?T x = insert x (chain ?T f)" using assms chain_parent[of ?T x f] by (simp add: idom_at_update)
    moreover have "{a \<in> chain T c. c \<le> a} = {c}" using chain_le[of _ T c] by (auto dest: le_antisym)
    ultimately show ?thesis using 1 assms below[of f] by simp
  next
    case 2
    then have "chain ?T x = {x}" "chain T x = {x}" using assms by (auto simp: chain.simps[of _ x] idom_at_update split: option.splits)
    then show ?thesis using 2 by simp
  next
    case 3
    then have "chain ?T x = insert x (chain ?T y)" "chain T x = insert x (chain T y)"
      using assms by (simp_all add: chain_parent idom_at_update)
    then show ?thesis using less.IH[OF 3(3)] 3 chain_le[of c T y] by auto
  qed
qed

lemma idoms_ok_update:
  assumes "idoms_ok T" "0 < c" "c < length T" "f < c" "\<forall>y < c. idom_at T y \<noteq> None"
  shows "idoms_ok (T[c := Some f])"
proof -
  have "idom_at (T[c := Some f]) y \<noteq> None" if "idom_at (T[c := Some f]) x \<noteq> None" "y < x" for x y
    using that assms(5) idoms_okD(3)[OF assms(1), of x y] by (auto simp: idom_at_update[OF assms(3)] split: if_splits)
  moreover have "y < x" if "0 < x" "idom_at (T[c := Some f]) x = Some y" for x y
    using that assms(4) idoms_okD(2)[OF assms(1)] by (auto simp: idom_at_update[OF assms(3)] split: if_splits)
  moreover have "idom_at (T[c := Some f]) 0 = Some 0"
    using idoms_okD(1)[OF assms(1)] assms(2) by (simp add: idom_at_update[OF assms(3)])
  ultimately show ?thesis unfolding idoms_ok_def by blast
qed

subsection \<open>Paths and dominance\<close>

inductive path_to :: "nat list list \<Rightarrow> nat \<Rightarrow> nat list \<Rightarrow> bool" for preds where
  path_entry: "path_to preds 0 [0]"
| path_step: "\<lbrakk>path_to preds p xs; p \<in> set (preds ! x); x < length preds\<rbrakk> \<Longrightarrow> path_to preds x (x # xs)"

definition dominates :: "nat list list \<Rightarrow> nat \<Rightarrow> nat \<Rightarrow> bool" where
  "dominates preds d x \<longleftrightarrow> (\<forall>xs. path_to preds x xs \<longrightarrow> d \<in> set xs)"

lemma path_to_self: "path_to preds x xs \<Longrightarrow> x \<in> set xs"
  by (erule path_to.cases) simp_all

lemma path_to_has_entry: "path_to preds x xs \<Longrightarrow> 0 \<in> set xs"
  by (induction rule: path_to.induct) simp_all

text \<open>A path from \<open>y\<close> to \<open>x\<close> that never goes below \<open>y\<close>.\<close>

inductive path_above :: "nat list list \<Rightarrow> nat \<Rightarrow> nat \<Rightarrow> bool" for preds y where
  above_refl: "path_above preds y y"
| above_step: "\<lbrakk>path_above preds y p; p \<in> set (preds ! x); x < length preds; y \<le> x\<rbrakk> \<Longrightarrow> path_above preds y x"

lemma path_above_trans: "path_above preds y x \<Longrightarrow> path_above preds z y \<Longrightarrow> z \<le> y \<Longrightarrow> path_above preds z x"
  by (induction rule: path_above.induct) (auto intro: above_step)

lemma dominates_above:
  assumes "path_above preds y x" "dominates preds d x" "d < y"
  shows "dominates preds d y"
  using assms
proof (induction rule: path_above.induct)
  case (above_step p x)
  have "dominates preds d p"
    unfolding dominates_def
  proof (intro allI impI)
    fix xs assume "path_to preds p xs"
    then have "path_to preds x (x # xs)" using above_step(2,3) by (rule path_step)
    then show "d \<in> set xs" using above_step(4,6,7) unfolding dominates_def by fastforce
  qed
  then show ?case using above_step by blast
qed

lemma dominates_pred:
  assumes "dominates preds d x" "d \<noteq> x" "p \<in> set (preds ! x)" "x < length preds"
  shows "dominates preds d p"
  unfolding dominates_def
proof (intro allI impI)
  fix xs assume "path_to preds p xs"
  then have "path_to preds x (x # xs)" using assms(3,4) by (rule path_step)
  then show "d \<in> set xs" using assms(1,2) unfolding dominates_def by fastforce
qed

subsection \<open>The invariant of the iteration\<close>

text \<open>
  What the iteration is given: predecessors are blocks, and every block but the entry has a smaller
  predecessor.
\<close>

locale rpo_graph =
  fixes preds :: "nat list list"
  assumes nonempty: "0 < length preds"
    and preds_in: "\<lbrakk>x < length preds; p \<in> set (preds ! x)\<rbrakk> \<Longrightarrow> p < length preds"
    and earlier_pred: "\<lbrakk>0 < x; x < length preds\<rbrakk> \<Longrightarrow> \<exists>p \<in> set (preds ! x). p < x"

definition processed_preds :: "nat list list \<Rightarrow> nat option list \<Rightarrow> nat \<Rightarrow> nat set" where
  "processed_preds preds T x = {p \<in> set (preds ! x). idom_at T p \<noteq> None}"

text \<open>
  With the blocks below \<open>c\<close> done in this sweep: dominators are on the chains; tree edges are paths
  that stay above; the common ancestors of the predecessors of a block are ancestors of its parent;
  and the parent of a block (its part not below \<open>c\<close>, if the block is still to come) is an ancestor of its earlier
  predecessors.
\<close>

definition sweep_inv :: "nat list list \<Rightarrow> nat option list \<Rightarrow> nat \<Rightarrow> bool" where
  "sweep_inv preds T c \<longleftrightarrow> idoms_ok T \<and> length T = length preds
     \<and> (\<forall>x d. idom_at T x \<noteq> None \<and> dominates preds d x \<longrightarrow> d \<in> chain T x)
     \<and> (\<forall>x y. idom_at T x = Some y \<longrightarrow> path_above preds y x)
     \<and> (\<forall>x u e. 0 < x \<and> idom_at T x = Some u \<and> (\<forall>p \<in> processed_preds preds T x. e \<in> chain T p) \<longrightarrow> e \<in> chain T u)
     \<and> (\<forall>x < c. idom_at T x \<noteq> None)
     \<and> (\<forall>x u p. 0 < x \<and> x < c \<and> idom_at T x = Some u \<and> p \<in> set (preds ! x) \<and> p < x \<longrightarrow> u \<in> chain T p)
     \<and> (\<forall>x u p a. c \<le> x \<and> idom_at T x = Some u \<and> p \<in> set (preds ! x) \<and> p < x \<and> a \<in> chain T u \<and> c \<le> a \<longrightarrow> a \<in> chain T p)"

lemma sweep_invD:
  assumes "sweep_inv preds T c"
  shows "idoms_ok T" "length T = length preds"
    "\<And>x d. idom_at T x \<noteq> None \<Longrightarrow> dominates preds d x \<Longrightarrow> d \<in> chain T x"
    "\<And>x y. idom_at T x = Some y \<Longrightarrow> path_above preds y x"
    "\<And>x u e. \<lbrakk>0 < x; idom_at T x = Some u; \<forall>p \<in> processed_preds preds T x. e \<in> chain T p\<rbrakk> \<Longrightarrow> e \<in> chain T u"
    "\<And>x. x < c \<Longrightarrow> idom_at T x \<noteq> None"
    "\<And>x u p. \<lbrakk>0 < x; x < c; idom_at T x = Some u; p \<in> set (preds ! x); p < x\<rbrakk> \<Longrightarrow> u \<in> chain T p"
    "\<And>x u p a. \<lbrakk>c \<le> x; idom_at T x = Some u; p \<in> set (preds ! x); p < x; a \<in> chain T u; c \<le> a\<rbrakk> \<Longrightarrow> a \<in> chain T p"
  using assms unfolding sweep_inv_def by meson+

lemma sweep_invI:
  assumes "idoms_ok T" "length T = length preds"
    "\<And>x d. idom_at T x \<noteq> None \<Longrightarrow> dominates preds d x \<Longrightarrow> d \<in> chain T x"
    "\<And>x y. idom_at T x = Some y \<Longrightarrow> path_above preds y x"
    "\<And>x u e. \<lbrakk>0 < x; idom_at T x = Some u; \<forall>p \<in> processed_preds preds T x. e \<in> chain T p\<rbrakk> \<Longrightarrow> e \<in> chain T u"
    "\<And>x. x < c \<Longrightarrow> idom_at T x \<noteq> None"
    "\<And>x u p. \<lbrakk>0 < x; x < c; idom_at T x = Some u; p \<in> set (preds ! x); p < x\<rbrakk> \<Longrightarrow> u \<in> chain T p"
    "\<And>x u p a. \<lbrakk>c \<le> x; idom_at T x = Some u; p \<in> set (preds ! x); p < x; a \<in> chain T u; c \<le> a\<rbrakk> \<Longrightarrow> a \<in> chain T p"
  shows "sweep_inv preds T c"
  unfolding sweep_inv_def
  apply (intro conjI allI impI; (elim conjE)?)
         apply (rule assms(1))
        apply (rule assms(2))
       apply (rule assms(3); assumption)
      apply (rule assms(4); assumption)
     apply (rule assms(5); assumption)
    apply (rule assms(6); assumption)
   apply (rule assms(7); assumption)
  apply (rule assms(8); assumption)
  done

lemma chain_path_above:
  assumes "sweep_inv preds T c" "a \<in> chain T x"
  shows "path_above preds a x"
  using assms(2)
proof (induction x rule: less_induct)
  case (less x)
  from less.prems show ?case
  proof (rule chain_cases)
    assume "a = x"
    then show ?thesis by (simp add: above_refl)
  next
    fix y assume y: "idom_at T x = Some y" "y < x" "a \<in> chain T y"
    show ?thesis
      using path_above_trans[OF sweep_invD(4)[OF assms(1) y(1)] less.IH[OF y(2,3)] chain_le[OF y(3)]] .
  qed
qed

text \<open>The parent \<open>f\<close> that a sweep gives to \<open>c\<close>.\<close>

definition meets_preds :: "nat list list \<Rightarrow> nat option list \<Rightarrow> nat \<Rightarrow> nat \<Rightarrow> bool" where
  "meets_preds preds T c f \<longleftrightarrow> 0 < c \<and> c < length preds \<and> f < c \<and> idom_at T f \<noteq> None
     \<and> chain T f = (\<Inter>p \<in> processed_preds preds T c. chain T p)"

context rpo_graph
begin

lemma idom_step_meets:
  assumes inv: "sweep_inv preds T c" and c: "0 < c" "c < length preds"
  shows "\<exists>f. meets_preds preds T c f \<and> idom_step preds c (T, changed) = Some (T[c := Some f], changed \<or> idom_at T c \<noteq> Some f)"
proof -
  note T = sweep_invD(1)[OF inv] and len = sweep_invD(2)[OF inv]
  let ?ps = "filter (\<lambda>pred. idom_at T pred \<noteq> None) (preds ! c)"
  obtain p where p: "p \<in> set (preds ! c)" "p < c" using earlier_pred c by blast
  have pp: "p \<in> set ?ps" using p sweep_invD(6)[OF inv p(2)] by simp
  then have "?ps \<noteq> []" by (metis empty_iff list.set(1))
  then obtain q qs where q: "?ps = q # qs" by (meson neq_Nil_conv)
  have all: "\<forall>r \<in> set (q # qs). idom_at T r \<noteq> None" unfolding q[symmetric] by simp
  obtain f where f: "intersect_preds T qs q = Some f" "chain T f = (\<Inter>r \<in> set (q # qs). chain T r)" "idom_at T f \<noteq> None"
    using intersect_preds_chain[OF T, of qs q] all by auto
  have set: "processed_preds preds T c = set (q # qs)" unfolding q[symmetric] by (auto simp: processed_preds_def)
  have "p \<in> set (q # qs)" using pp unfolding q .
  then have "f \<in> chain T p" using f(2) chain_self[of f T] by blast
  then have "f < c" using chain_le p(2) by fastforce
  moreover have "idom_step preds c (T, changed) = Some (T[c := Some f], changed \<or> idom_at T c \<noteq> Some f)"
    using f(1) c len unfolding idom_step_def fst_conv q by (auto simp: idom_at_def) (metis list_update_id)
  ultimately show ?thesis using f set c by (auto simp: meets_preds_def)
qed

text \<open>The update of a block moves it up its own chain, so chains shrink.\<close>

lemma meets_in_parent_chain:
  assumes "sweep_inv preds T c" "meets_preds preds T c f" "idom_at T c = Some u"
  shows "f \<in> chain T u"
  using sweep_invD(5)[OF assms(1) _ assms(3), of f] assms(2) chain_self[of f T] unfolding meets_preds_def by auto

lemma chain_shrinks:
  assumes inv: "sweep_inv preds T c" and f: "meets_preds preds T c f" and x: "idom_at T x \<noteq> None"
  shows "chain (T[c := Some f]) x \<subseteq> chain T x"
proof (cases "c \<in> chain T x")
  case True
  then have "idom_at T c \<noteq> None" using chain_processed[OF sweep_invD(1)[OF inv] x] by blast
  then obtain u where u: "idom_at T c = Some u" by blast
  have "u < c" using idoms_okD(2)[OF sweep_invD(1)[OF inv] _ u] f by (simp add: meets_preds_def)
  then have "chain T f \<subseteq> chain T c" using meets_in_parent_chain[OF inv f u] chain_trans chain_parent[OF u] by blast
  then have "chain T f \<subseteq> chain T x" using chain_trans[OF _ True] by blast
  then show ?thesis using f sweep_invD(2)[OF inv] by (auto simp: chain_update meets_preds_def)
qed (use f sweep_invD(2)[OF inv] in \<open>simp add: chain_update meets_preds_def\<close>)

lemma chain_moved:
  assumes inv: "sweep_inv preds T c" and f: "meets_preds preds T c f"
  shows "chain (T[c := Some f]) x = (if c \<in> chain T x then {a \<in> chain T x. c \<le> a} \<union> chain T f else chain T x)"
    and "x < c \<Longrightarrow> chain (T[c := Some f]) x = chain T x"
proof -
  show m: "chain (T[c := Some f]) x = (if c \<in> chain T x then {a \<in> chain T x. c \<le> a} \<union> chain T f else chain T x)"
    using chain_update f sweep_invD(2)[OF inv] by (simp add: meets_preds_def)
  show "chain (T[c := Some f]) x = chain T x" if "x < c" using m chain_le[of c T x] that by auto
qed

lemma idom_at_moved:
  assumes "sweep_inv preds T c" "meets_preds preds T c f"
  shows "idom_at (T[c := Some f]) x = (if x = c then Some f else idom_at T x)"
  using idom_at_update assms sweep_invD(2)[OF assms(1)] by (simp add: meets_preds_def)

lemma moved_dominators:
  assumes inv: "sweep_inv preds T c" and f: "meets_preds preds T c f"
    and x: "idom_at (T[c := Some f]) x \<noteq> None" "dominates preds d x"
  shows "d \<in> chain (T[c := Some f]) x"
proof -
  have c: "c < length preds" using f by (simp add: meets_preds_def)
  have below: "d \<in> chain T f" if "dominates preds d c" "d \<noteq> c"
  proof -
    have "d \<in> chain T p" if "p \<in> processed_preds preds T c" for p
      using sweep_invD(3)[OF inv, of p d] dominates_pred[OF \<open>dominates preds d c\<close> \<open>d \<noteq> c\<close> _ c] that by (simp add: processed_preds_def)
    then show ?thesis using f by (simp add: meets_preds_def)
  qed
  show ?thesis
  proof (cases "x = c")
    case True
    then show ?thesis using below x(2) by (cases "d = c") (simp_all add: chain_moved(1)[OF inv f])
  next
    case False
    then have dx: "d \<in> chain T x" using sweep_invD(3)[OF inv _ x(2)] x(1) by (simp add: idom_at_moved[OF inv f])
    have "d \<in> chain T f" if "c \<in> chain T x" "d < c"
      using below dominates_above[OF chain_path_above[OF inv that(1)] x(2) that(2)] that(2) by simp
    then show ?thesis using dx chain_moved(1)[OF inv f, of x] by (cases "c \<le> d") auto
  qed
qed

lemma moved_path_above:
  assumes inv: "sweep_inv preds T c" and f: "meets_preds preds T c f" and x: "idom_at (T[c := Some f]) x = Some y"
  shows "path_above preds y x"
proof (cases "x = c")
  case True
  have c: "0 < c" "c < length preds" "f < c" using f by (auto simp: meets_preds_def)
  obtain p where p: "p \<in> set (preds ! c)" "p < c" using earlier_pred[OF c(1,2)] by blast
  then have "p \<in> processed_preds preds T c" using sweep_invD(6)[OF inv p(2)] by (simp add: processed_preds_def)
  then have "f \<in> chain T p" using f chain_self[of f T] by (auto simp: meets_preds_def)
  then have "path_above preds f c" using above_step[OF chain_path_above[OF inv] p(1) c(2)] c(3) by simp
  then show ?thesis using x True by (simp add: idom_at_moved[OF inv f])
qed (use sweep_invD(4)[OF inv] x in \<open>simp add: idom_at_moved[OF inv f]\<close>)

lemma moved_common:
  assumes inv: "sweep_inv preds T c" and f: "meets_preds preds T c f"
    and x: "0 < x" "idom_at (T[c := Some f]) x = Some u"
    and e: "\<forall>p \<in> processed_preds preds (T[c := Some f]) x. e \<in> chain (T[c := Some f]) p"
  shows "e \<in> chain (T[c := Some f]) u"
proof -
  have was: "e \<in> chain (T[c := Some f]) p \<and> e \<in> chain T p" if "p \<in> processed_preds preds T x" for p
    using e that chain_shrinks[OF inv f, of p] by (auto simp: processed_preds_def idom_at_moved[OF inv f])
  have fc: "f < c" "chain T f = (\<Inter>p \<in> processed_preds preds T c. chain T p)" using f by (auto simp: meets_preds_def)
  show ?thesis
  proof (cases "x = c")
    case True
    then have "e \<in> chain T f" using was fc(2) by simp
    then show ?thesis using x(2) True chain_moved(2)[OF inv f fc(1)] by (simp add: idom_at_moved[OF inv f])
  next
    case False
    then have u: "idom_at T x = Some u" using x(2) by (simp add: idom_at_moved[OF inv f])
    then have eu: "e \<in> chain T u" using sweep_invD(5)[OF inv x(1)] was by blast
    have "e \<in> chain T f" if cu: "c \<in> chain T u" and ec: "e < c"
    proof -
      have "u < x" using idoms_okD(2)[OF sweep_invD(1)[OF inv] x(1) u] .
      moreover have "x < length preds" using u sweep_invD(2)[OF inv] by (simp add: idom_at_def split: if_splits)
      ultimately obtain p where p: "p \<in> set (preds ! x)" "p < x" using earlier_pred[OF x(1)] by blast
      have "c \<le> x" using chain_le[OF cu] \<open>u < x\<close> by simp
      then have cp: "c \<in> chain T p" using sweep_invD(8)[OF inv _ u p cu] by simp
      have "idom_at T p \<noteq> None" using idoms_okD(3)[OF sweep_invD(1)[OF inv], of x p] u p(2) by simp
      then have "e \<in> chain (T[c := Some f]) p" using was p(1) by (simp add: processed_preds_def)
      then show ?thesis using chain_moved(1)[OF inv f, of p] cp ec by simp
    qed
    then show ?thesis using eu chain_moved(1)[OF inv f, of u] by (cases "c \<le> e") auto
  qed
qed

lemma moved_inv:
  assumes inv: "sweep_inv preds T c" and f: "meets_preds preds T c f"
  shows "sweep_inv preds (T[c := Some f]) (Suc c)"
proof -
  note at = idom_at_moved[OF inv f]
  have c: "0 < c" "c < length T" "f < c" using f sweep_invD(2)[OF inv] by (auto simp: meets_preds_def)
  have cf: "chain T f = (\<Inter>p \<in> processed_preds preds T c. chain T p)" using f by (simp add: meets_preds_def)
  have old: "idom_at T x \<noteq> None" if "x < c" for x using sweep_invD(6)[OF inv that] .
  have fresh: "u \<in> chain (T[c := Some f]) p"
    if x: "0 < x" "x < Suc c" "idom_at (T[c := Some f]) x = Some u" "p \<in> set (preds ! x)" "p < x" for x u p
  proof (cases "x = c")
    case True
    then have "p \<in> processed_preds preds T c" using x old by (simp add: processed_preds_def)
    then have "f \<in> chain T p" using cf chain_self[of f T] by blast
    then show ?thesis using True x chain_moved(2)[OF inv f, of p] by (simp add: at)
  next
    case False
    then show ?thesis using sweep_invD(7)[OF inv x(1) _ _ x(4,5)] x chain_moved(2)[OF inv f, of p] by (simp add: at)
  qed
  have stale: "a \<in> chain (T[c := Some f]) p"
    if x: "Suc c \<le> x" "idom_at (T[c := Some f]) x = Some u" "p \<in> set (preds ! x)" "p < x"
      "a \<in> chain (T[c := Some f]) u" "Suc c \<le> a" for x u p a
  proof -
    have "a \<notin> chain T f" using x(6) c(3) chain_le[of a T f] by auto
    then have "a \<in> chain T u" using x(5) chain_moved(1)[OF inv f, of u] by (auto split: if_splits)
    then have "a \<in> chain T p" using sweep_invD(8)[OF inv _ _ x(3,4), of u a] x by (simp add: at)
    then show ?thesis using x(6) chain_moved(1)[OF inv f, of p] by simp
  qed
  have "\<forall>x < Suc c. idom_at (T[c := Some f]) x \<noteq> None" using old by (simp add: at less_Suc_eq)
  moreover have "idoms_ok (T[c := Some f])" using idoms_ok_update[OF sweep_invD(1)[OF inv] c] old by blast
  moreover have "length (T[c := Some f]) = length preds" using sweep_invD(2)[OF inv] by simp
  ultimately show ?thesis
    unfolding sweep_inv_def using moved_dominators[OF inv f] moved_path_above[OF inv f] moved_common[OF inv f] fresh stale by blast
qed

subsubsection \<open>Sweeps\<close>

definition idom_weight :: "nat option list \<Rightarrow> nat" where
  "idom_weight T = sum_list (map (\<lambda>i. case i of None \<Rightarrow> length T | Some y \<Rightarrow> y) T)"

lemma sum_list_update: "i < length xs \<Longrightarrow> sum_list (map g (xs[i := v])) + g (xs ! i) = sum_list (map g xs) + (g v :: nat)"
proof (induction xs arbitrary: i)
  case (Cons x xs)
  show ?case
  proof (cases i)
    case (Suc j)
    then show ?thesis using Cons.IH[of j] Cons.prems by simp
  qed simp
qed simp

lemma idom_weight_update:
  "c < length T \<Longrightarrow> idom_weight (T[c := Some f]) + (case T ! c of None \<Rightarrow> length T | Some y \<Rightarrow> y) = idom_weight T + f"
  using sum_list_update[of c T "\<lambda>i. case i of None \<Rightarrow> length T | Some y \<Rightarrow> y" "Some f"]
  unfolding idom_weight_def length_list_update by simp

lemma moved_weight:
  assumes inv: "sweep_inv preds T c" and f: "meets_preds preds T c f" and "idom_at T c \<noteq> Some f"
  shows "idom_weight (T[c := Some f]) < idom_weight T"
proof -
  have c: "c < length T" "f < c" "c < length preds" using f sweep_invD(2)[OF inv] by (auto simp: meets_preds_def)
  have "f < (case T ! c of None \<Rightarrow> length T | Some y \<Rightarrow> y)"
  proof (cases "T ! c")
    case (Some u)
    then have "idom_at T c = Some u" using c by (simp add: idom_at_def)
    then show ?thesis using chain_le[OF meets_in_parent_chain[OF inv f]] Some assms(3) by fastforce
  qed (use c in simp)
  then show ?thesis using idom_weight_update[OF c(1), of f] by linarith
qed

text \<open>A tree that a sweep leaves alone.\<close>

definition stable :: "nat option list \<Rightarrow> nat \<Rightarrow> bool" where
  "stable T c \<longleftrightarrow> (\<exists>f. idom_at T c = Some f \<and> meets_preds preds T c f)"

lemma idom_sweep_inv:
  assumes "sweep_inv preds T c" "0 < c" "c \<le> length preds"
  shows "\<exists>T' changed'. idom_sweep preds [c..<length preds] (T, changed) = Some (T', changed')
    \<and> sweep_inv preds T' (length preds) \<and> (changed \<longrightarrow> changed') \<and> idom_weight T' \<le> idom_weight T
    \<and> (T' = T \<and> changed' = changed \<and> (\<forall>x. c \<le> x \<and> x < length preds \<longrightarrow> stable T x) \<or> changed' \<and> idom_weight T' < idom_weight T)"
  using assms
proof (induction "length preds - c" arbitrary: c T changed)
  case 0
  then show ?case by auto
next
  case (Suc k)
  then have c: "c < length preds" by simp
  obtain f where f: "meets_preds preds T c f"
    "idom_step preds c (T, changed) = Some (T[c := Some f], changed \<or> idom_at T c \<noteq> Some f)"
    using idom_step_meets[OF Suc.prems(1,2) c] by blast
  let ?ch = "changed \<or> idom_at T c \<noteq> Some f"
  have k: "k = length preds - Suc c" using Suc.hyps(2) by simp
  obtain T' changed' where IH: "idom_sweep preds [Suc c..<length preds] (T[c := Some f], ?ch) = Some (T', changed')"
    "sweep_inv preds T' (length preds)" "?ch \<longrightarrow> changed'" "idom_weight T' \<le> idom_weight (T[c := Some f])"
    "T' = T[c := Some f] \<and> changed' = ?ch \<and> (\<forall>x. Suc c \<le> x \<and> x < length preds \<longrightarrow> stable (T[c := Some f]) x) \<or>
      changed' \<and> idom_weight T' < idom_weight (T[c := Some f])"
    using Suc.hyps(1)[OF k moved_inv[OF Suc.prems(1) f(1)] zero_less_Suc Suc_leI[OF c], of ?ch] by blast
  have sw: "idom_sweep preds [c..<length preds] (T, changed) = Some (T', changed')"
    using f(2) IH(1) by (simp add: upt_rec[of c] c)
  show ?case
  proof (cases "idom_at T c = Some f")
    case True
    then have same: "T[c := Some f] = T" using c sweep_invD(2)[OF Suc.prems(1)] by (simp add: idom_at_def list_update_same_conv)
    have "stable T c" using True f(1) unfolding stable_def by blast
    then have "stable T x" if "\<forall>x. Suc c \<le> x \<and> x < length preds \<longrightarrow> stable T x" "c \<le> x" "x < length preds" for x
      using that by (metis le_neq_implies_less Suc_leI)
    then have "T' = T \<and> changed' = changed \<and> (\<forall>x. c \<le> x \<and> x < length preds \<longrightarrow> stable T x) \<or> changed' \<and> idom_weight T' < idom_weight T"
      using IH(5) True unfolding same by blast
    then show ?thesis using sw IH(2,3,4) True unfolding same by blast
  next
    case False
    then have "changed'" "idom_weight T' < idom_weight T" using IH(3,4) moved_weight[OF Suc.prems(1) f(1)] by auto
    then show ?thesis using sw IH(2) less_imp_le by blast
  qed
qed

subsubsection \<open>The loop\<close>

lemma sweep_restart:
  assumes inv: "sweep_inv preds T (length preds)"
  shows "sweep_inv preds T 1"
proof -
  note old = sweep_invD[OF inv]
  show ?thesis
  proof (rule sweep_invI)
    fix x u p a assume x: "1 \<le> x" "idom_at T x = Some u" "p \<in> set (preds ! x)" "p < x" "a \<in> chain T u"
    have "x < length preds" using x(2) old(2) by (simp add: idom_at_def split: if_splits)
    then have "u \<in> chain T p" using old(7)[OF _ _ x(2,3,4)] x(1) by simp
    then show "a \<in> chain T p" using chain_trans[OF x(5)] by blast
  next
    show "e \<in> chain T u" if "0 < x" "idom_at T x = Some u" "\<forall>p \<in> processed_preds preds T x. e \<in> chain T p" for x u e
      using old(5)[OF that] .
    show "idom_at T x \<noteq> None" if "x < 1" for x using old(6)[of x] that nonempty by simp
  qed (use old(1-4) in auto)
qed

lemma initial_inv: "sweep_inv preds ((replicate (length preds) None)[0 := Some 0]) 1"
proof -
  let ?T = "(replicate (length preds) None)[0 := Some (0::nat)]"
  have at: "idom_at ?T x = (if x = 0 then Some 0 else None)" for x
    using nonempty by (auto simp: idom_at_def nth_list_update)
  show ?thesis
  proof (rule sweep_invI)
    fix x d assume "idom_at ?T x \<noteq> None" "dominates preds d x"
    moreover from this have "x = 0" by (simp add: at split: if_splits)
    ultimately have "d = 0" using path_entry[of preds] unfolding dominates_def by fastforce
    then show "d \<in> chain ?T x" using \<open>x = 0\<close> by simp
  next
    show "path_above preds y x" if "idom_at ?T x = Some y" for x y using that by (auto simp: at intro: above_refl split: if_splits)
  qed (auto simp: at idoms_ok_def split: if_splits)
qed

lemma idom_loop_ends:
  "sweep_inv preds T 1 \<Longrightarrow>
    \<exists>T'. idom_loop preds T = Some T' \<and> sweep_inv preds T' 1 \<and> (\<forall>x. 0 < x \<and> x < length preds \<longrightarrow> stable T' x)"
proof (induction "idom_weight T" arbitrary: T rule: less_induct)
  case less
  obtain T' ch where s: "idom_sweep preds [1..<length preds] (T, False) = Some (T', ch)" "sweep_inv preds T' (length preds)"
    "T' = T \<and> ch = False \<and> (\<forall>x. 1 \<le> x \<and> x < length preds \<longrightarrow> stable T x) \<or> ch \<and> idom_weight T' < idom_weight T"
    using idom_sweep_inv[OF less.prems, of False] nonempty by auto
  show ?case
  proof (cases ch)
    case True
    then have "idom_weight T' < idom_weight T" using s(3) by blast
    then obtain T2 where "idom_loop preds T' = Some T2" "sweep_inv preds T2 1" "\<forall>x. 0 < x \<and> x < length preds \<longrightarrow> stable T2 x"
      using less.hyps sweep_restart[OF s(2)] by blast
    then show ?thesis using s(1) True by (subst idom_loop.simps) simp
  next
    case False
    then have "T' = T" "\<forall>x. 1 \<le> x \<and> x < length preds \<longrightarrow> stable T x" using s(3) by blast+
    then show ?thesis using s(1) False less.prems by (subst idom_loop.simps) auto
  qed
qed

lemma stable_chain_on_paths:
  assumes inv: "sweep_inv preds T 1" and st: "\<forall>x. 0 < x \<and> x < length preds \<longrightarrow> stable T x"
  shows "path_to preds x xs \<Longrightarrow> chain T x \<subseteq> set xs"
proof (induction rule: path_to.induct)
  case path_entry
  then show ?case using chain_root[of T 0] idoms_okD(1)[OF sweep_invD(1)[OF inv]] by simp
next
  case (path_step p xs x)
  show ?case
  proof (cases "x = 0")
    case True
    then show ?thesis using chain_root[of T 0] idoms_okD(1)[OF sweep_invD(1)[OF inv]] by simp
  next
    case False
    then obtain f where f: "idom_at T x = Some f" "meets_preds preds T x f" using st path_step(3) unfolding stable_def by blast
    have "p < length preds" using preds_in path_step(2,3) by blast
    then have "idom_at T p \<noteq> None"
      using st idoms_okD(1)[OF sweep_invD(1)[OF inv]] unfolding stable_def by (metis neq0_conv option.distinct(1))
    then have "chain T f \<subseteq> chain T p" using f(2) path_step(2) unfolding meets_preds_def processed_preds_def by blast
    moreover have "chain T x = insert x (chain T f)" using chain_parent[OF f(1)] f(2) by (simp add: meets_preds_def)
    ultimately show ?thesis using path_step(4) by auto
  qed
qed

lemma immediate_dominators_chain:
  "\<exists>idoms. immediate_dominators preds = Some idoms \<and> idoms_ok idoms \<and> length idoms = length preds
    \<and> (\<forall>x < length preds. idom_at idoms x \<noteq> None \<and> chain idoms x = {d. dominates preds d x})"
proof -
  obtain T where T: "idom_loop preds ((replicate (length preds) None)[0 := Some 0]) = Some T" "sweep_inv preds T 1"
    "\<forall>x. 0 < x \<and> x < length preds \<longrightarrow> stable T x"
    using idom_loop_ends[OF initial_inv] by blast
  have p: "idom_at T x \<noteq> None" if "x < length preds" for x
    using T(3) that idoms_okD(1)[OF sweep_invD(1)[OF T(2)]] unfolding stable_def by (metis neq0_conv option.distinct(1))
  have "chain T x = {d. dominates preds d x}" if "x < length preds" for x
    using sweep_invD(3)[OF T(2) p[OF that]] stable_chain_on_paths[OF T(2,3)] unfolding dominates_def by blast
  then show ?thesis using T(1,2) p sweep_invD(1,2)[OF T(2)] nonempty unfolding immediate_dominators_def by auto
qed

text \<open>The parent of a block is its immediate dominator.\<close>

lemma immediate_dominator_at:
  assumes "immediate_dominators preds = Some idoms" "0 < x" "x < length preds"
  shows "\<exists>d. idoms ! x = Some d \<and> d \<noteq> x \<and> dominates preds d x \<and> (\<forall>e. dominates preds e x \<and> e \<noteq> x \<longrightarrow> dominates preds e d)"
proof -
  have T: "idoms_ok idoms" "length idoms = length preds" "\<And>y. y < length preds \<Longrightarrow> chain idoms y = {d. dominates preds d y}"
    "idom_at idoms x \<noteq> None"
    using immediate_dominators_chain assms by auto
  obtain d where d: "idom_at idoms x = Some d" using T(4) by blast
  have "d < x" using idoms_okD(2)[OF T(1) assms(2) d] .
  then have "{e. dominates preds e x} = insert x {e. dominates preds e d}"
    using chain_parent[OF d] T(3)[OF assms(3)] T(3)[of d] assms(3) by simp
  moreover have "dominates preds d d" using T(3)[of d] \<open>d < x\<close> assms(3) chain_self[of d idoms] by auto
  ultimately have "dominates preds d x" "\<forall>e. dominates preds e x \<and> e \<noteq> x \<longrightarrow> dominates preds e d" by blast+
  then show ?thesis using d \<open>d < x\<close> T(2) assms(3) by (auto simp: idom_at_def)
qed

end

subsection \<open>Dominance between blocks\<close>

inductive block_path :: "(nat \<Rightarrow> nat list) \<Rightarrow> nat list \<Rightarrow> nat \<Rightarrow> nat list \<Rightarrow> bool" for succs region where
  block_entry: "region = entry # rest \<Longrightarrow> block_path succs region entry [entry]"
| block_step: "\<lbrakk>block_path succs region a xs; (a, b) \<in> cfg_edges succs region\<rbrakk> \<Longrightarrow> block_path succs region b (b # xs)"

definition block_dominates :: "(nat \<Rightarrow> nat list) \<Rightarrow> nat list \<Rightarrow> nat \<Rightarrow> nat \<Rightarrow> bool" where
  "block_dominates succs region d x \<longleftrightarrow> (\<forall>xs. block_path succs region x xs \<longrightarrow> d \<in> set xs)"

text \<open>A region with its blocks in the order of the analysis, and their predecessor lists.\<close>

locale region_graph =
  fixes succs :: "nat \<Rightarrow> nat list" and entry :: nat and rest :: "nat list" and rpo :: "nat list" and preds :: "nat list list"
  assumes rpo_def: "rpo = reachable_blocks succs (entry # rest)"
    and preds_length: "length preds = length rpo"
    and preds_at: "j < length rpo \<Longrightarrow> set (preds ! j) = {i. i < length rpo \<and> rpo ! j \<in> set (succs (rpo ! i))}"
begin

lemma rpo_facts:
  "distinct rpo" "length preds = length rpo" "0 < length rpo" "rpo ! 0 = entry"
  "set rpo = (cfg_edges succs (entry # rest))\<^sup>* `` {entry}"
  "j < length rpo \<Longrightarrow> set (preds ! j) = {i. i < length rpo \<and> rpo ! j \<in> set (succs (rpo ! i))}"
  using reachable_blocks_rpo[of "entry # rest" entry rest succs] preds_length preds_at[of j]
  unfolding rpo_list_def rpo_def[symmetric] by blast+

lemma rpo_in_region: "j < length rpo \<Longrightarrow> rpo ! j \<in> set (entry # rest)"
proof -
  assume "j < length rpo"
  then have "(entry, rpo ! j) \<in> (cfg_edges succs (entry # rest))\<^sup>*" using rpo_facts(5) nth_mem by blast
  then show ?thesis by (cases rule: rtranclE) (auto simp: cfg_edges_def)
qed

lemma path_to_blocks: "path_to preds x xs \<Longrightarrow> block_path succs (entry # rest) (rpo ! x) (map ((!) rpo) xs)"
proof (induction rule: path_to.induct)
  case path_entry
  then show ?case using block_entry[OF refl, of succs entry rest] by (simp add: rpo_facts)
next
  case (path_step p xs x)
  then have x: "x < length rpo" "p < length rpo" "rpo ! x \<in> set (succs (rpo ! p))" using rpo_facts(2,6) by auto
  then have "(rpo ! p, rpo ! x) \<in> cfg_edges succs (entry # rest)" using rpo_in_region unfolding cfg_edges_def by blast
  then show ?case using block_step[OF path_step.IH] by simp
qed

lemma blocks_path_to:
  "block_path succs (entry # rest) b ys \<Longrightarrow> \<exists>x xs. x < length rpo \<and> b = rpo ! x \<and> ys = map ((!) rpo) xs \<and> path_to preds x xs"
proof (induction rule: block_path.induct)
  case (block_entry e r)
  then show ?case using path_entry[of preds] rpo_facts(3,4) by (intro exI[of _ 0] exI[of _ "[0]"]) simp
next
  case (block_step a ys b)
  then obtain p xs where p: "p < length rpo" "a = rpo ! p" "ys = map ((!) rpo) xs" "path_to preds p xs" by blast
  have "(entry, a) \<in> (cfg_edges succs (entry # rest))\<^sup>*" using p(1,2) rpo_facts(5) nth_mem by blast
  then have "b \<in> set rpo" using block_step.hyps(2) rpo_facts(5) by (auto intro: rtrancl_into_rtrancl)
  then obtain x where x: "x < length rpo" "b = rpo ! x" by (metis in_set_conv_nth)
  have "p \<in> set (preds ! x)" using x p(1,2) block_step.hyps(2) rpo_facts(6) by (simp add: cfg_edges_def)
  then have "path_to preds x (x # xs)" using path_step[OF p(4)] x(1) rpo_facts(2) by simp
  then show ?case using x p(3) by (intro exI[of _ x] exI[of _ "x # xs"]) simp
qed

lemma path_to_below: "path_to preds x xs \<Longrightarrow> x < length rpo \<and> set xs \<subseteq> {..<length rpo}"
  by (induction rule: path_to.induct) (use rpo_facts in auto)

lemma block_dominates_index:
  assumes "d < length rpo" "x < length rpo"
  shows "block_dominates succs (entry # rest) (rpo ! d) (rpo ! x) \<longleftrightarrow> dominates preds d x"
proof
  assume l: "block_dominates succs (entry # rest) (rpo ! d) (rpo ! x)"
  show "dominates preds d x"
    unfolding dominates_def
  proof (intro allI impI)
    fix xs assume p: "path_to preds x xs"
    then obtain i where "i \<in> set xs" "rpo ! d = rpo ! i" using l path_to_blocks unfolding block_dominates_def by fastforce
    then show "d \<in> set xs" using path_to_below[OF p] assms(1) nth_eq_iff_index_eq[OF rpo_facts(1)] by auto
  qed
next
  assume r: "dominates preds d x"
  show "block_dominates succs (entry # rest) (rpo ! d) (rpo ! x)"
    unfolding block_dominates_def
  proof (intro allI impI)
    fix ys assume "block_path succs (entry # rest) (rpo ! x) ys"
    then obtain x' xs where "x' < length rpo" "rpo ! x = rpo ! x'" "ys = map ((!) rpo) xs" "path_to preds x' xs"
      using blocks_path_to by blast
    then show "rpo ! d \<in> set ys" using r assms nth_eq_iff_index_eq[OF rpo_facts(1)] unfolding dominates_def by auto
  qed
qed

end

sublocale region_graph \<subseteq> graph: rpo_graph preds
proof
  fix x assume "0 < x" "x < length preds"
  then show "\<exists>p \<in> set (preds ! x). p < x"
    using reachable_blocks_rpo[of "entry # rest" entry rest succs] preds_at[of x] preds_length
    unfolding rpo_list_def rpo_def[symmetric] by fastforce
qed (use rpo_facts preds_length preds_at in auto)

text \<open>The region as \<open>compute_dominance_frontiers\<close> sees it.\<close>

locale region_analysis = region_graph +
  assumes preds_def: "preds = predecessor_indexes succs rpo"

interpretation order: region_analysis succs entry rest "reachable_blocks succs (entry # rest)"
  "predecessor_indexes succs (reachable_blocks succs (entry # rest))" for succs entry rest
proof (unfold_locales, rule refl)
  have d: "distinct (reachable_blocks succs (entry # rest))"
    using reachable_blocks_rpo[of "entry # rest" entry rest succs] unfolding rpo_list_def by blast
  show "length (predecessor_indexes succs (reachable_blocks succs (entry # rest))) = length (reachable_blocks succs (entry # rest))"
    by (rule predecessor_indexes_at(1)[OF d])
  show "set (predecessor_indexes succs (reachable_blocks succs (entry # rest)) ! j) =
      {i. i < length (reachable_blocks succs (entry # rest)) \<and>
          reachable_blocks succs (entry # rest) ! j \<in> set (succs (reachable_blocks succs (entry # rest) ! i))}"
    if "j < length (reachable_blocks succs (entry # rest))" for j
    by (rule predecessor_indexes_at(2)[OF d that])
qed (rule refl)

end
