(* ===== verification/Dom_Frontier.thy ===== *)
theory Dom_Frontier
  imports Dominance
begin

text \<open>
  The dominator tree and the dominance frontiers of a region: the rest of
  \<^verbatim>\<open>crates/pliron-ll/src/passes/dominance_frontier.rs\<close>, with the theorems
  on blocks and paths of the region that its clients rely on.
\<close>

subsection \<open>The analysis\<close>

record dominator_tree =
  dt_entry :: "nat option"
  dt_blocks :: "nat list"
  dt_idoms :: "nat option list"
  dt_children :: "nat list list"

text \<open>The table \<open>block_indexes\<close> of both results is the one of \<open>dt_blocks\<close>.\<close>

definition immediate_dominator :: "dominator_tree \<Rightarrow> nat \<Rightarrow> nat option" where
  "immediate_dominator tree block =
     Option.bind (block_indexes (dt_blocks tree) block) (\<lambda>index.
       Option.bind (dt_idoms tree ! index) (\<lambda>idom. if idom \<noteq> index then Some (dt_blocks tree ! idom) else None))"

definition tree_children :: "dominator_tree \<Rightarrow> nat \<Rightarrow> nat list" where
  "tree_children tree block = (case block_indexes (dt_blocks tree) block of None \<Rightarrow> [] | Some index \<Rightarrow> dt_children tree ! index)"

definition add_child :: "nat list \<Rightarrow> nat \<times> nat option \<Rightarrow> nat list list \<Rightarrow> nat list list" where
  "add_child blocks bi children = (case snd bi of
     None \<Rightarrow> children | Some idom \<Rightarrow> children[idom := children ! idom @ [blocks ! fst bi]])"

definition dominator_children :: "nat list \<Rightarrow> nat option list \<Rightarrow> nat list list" where
  "dominator_children blocks idoms = fold (add_child blocks) (drop 1 (enumerate 0 idoms)) (replicate (length blocks) [])"

definition push_unique :: "nat list \<Rightarrow> nat \<Rightarrow> nat list" where
  "push_unique values v = (if v \<in> set values then values else values @ [v])"

text \<open>The walk of \<open>runner\<close> from a predecessor up to \<open>stop\<close>.\<close>

partial_function (option) run_frontier :: "nat option list \<Rightarrow> nat \<Rightarrow> nat \<Rightarrow> nat \<Rightarrow> nat list list \<Rightarrow> nat list list option" where
  "run_frontier idoms b stop runner frontiers =
     (if runner \<noteq> stop then
        Option.bind (idom_at idoms runner) (\<lambda>next. run_frontier idoms b stop next (frontiers[runner := push_unique (frontiers ! runner) b]))
      else Some frontiers)"

primrec run_preds :: "nat option list \<Rightarrow> nat \<Rightarrow> nat \<Rightarrow> nat list \<Rightarrow> nat list list \<Rightarrow> nat list list option" where
  "run_preds idoms b stop [] frontiers = Some frontiers"
| "run_preds idoms b stop (pred # preds) frontiers = Option.bind (run_frontier idoms b stop pred frontiers) (run_preds idoms b stop preds)"

definition frontier_block :: "nat list \<Rightarrow> nat option list \<Rightarrow> nat \<times> nat list \<Rightarrow> nat list list \<Rightarrow> nat list list option" where
  "frontier_block blocks idoms bp frontiers =
     (if length (snd bp) < 2 then Some frontiers
      else case idoms ! fst bp of
        None \<Rightarrow> Some frontiers
      | Some stop \<Rightarrow> run_preds idoms (blocks ! fst bp) stop (snd bp) frontiers)"

primrec frontier_blocks :: "nat list \<Rightarrow> nat option list \<Rightarrow> (nat \<times> nat list) list \<Rightarrow> nat list list \<Rightarrow> nat list list option" where
  "frontier_blocks blocks idoms [] frontiers = Some frontiers"
| "frontier_blocks blocks idoms (bp # bps) frontiers = Option.bind (frontier_block blocks idoms bp frontiers) (frontier_blocks blocks idoms bps)"

definition dominance_frontiers :: "nat list \<Rightarrow> nat list list \<Rightarrow> nat option list \<Rightarrow> nat list list option" where
  "dominance_frontiers blocks predecessors idoms =
     frontier_blocks blocks idoms (enumerate 0 predecessors) (replicate (length blocks) [])"

definition compute_dominance_frontiers :: "(nat \<Rightarrow> nat list) \<Rightarrow> nat list \<Rightarrow> (dominator_tree \<times> nat list list) option" where
  "compute_dominance_frontiers succs region =
     (let blocks = reachable_blocks succs region in
      if blocks = [] then Some (\<lparr>dt_entry = None, dt_blocks = [], dt_idoms = [], dt_children = []\<rparr>, [])
      else let predecessors = predecessor_indexes succs blocks in
        Option.bind (immediate_dominators predecessors) (\<lambda>idoms.
          map_option (\<lambda>frontiers.
            (\<lparr>dt_entry = Some (blocks ! 0), dt_blocks = blocks, dt_idoms = idoms, dt_children = dominator_children blocks idoms\<rparr>,
             frontiers))
            (dominance_frontiers blocks predecessors idoms)))"

definition frontier :: "dominator_tree \<times> nat list list \<Rightarrow> nat \<Rightarrow> nat list" where
  "frontier result block = (case block_indexes (dt_blocks (fst result)) block of None \<Rightarrow> [] | Some index \<Rightarrow> snd result ! index)"

subsection \<open>The walks\<close>

text \<open>A walk adds the block to exactly the blocks on the chain of its predecessor that are not on the chain of \<open>stop\<close>.\<close>

lemma set_push_unique: "set (push_unique values v) = insert v (set values)"
  by (auto simp: push_unique_def)

definition adds :: "nat list list \<Rightarrow> nat \<Rightarrow> nat set \<Rightarrow> nat list list \<Rightarrow> bool" where
  "adds frontiers b rs frontiers' \<longleftrightarrow> length frontiers' = length frontiers \<and>
     (\<forall>r < length frontiers. set (frontiers' ! r) = set (frontiers ! r) \<union> (if r \<in> rs then {b} else {}))"

lemma adds_empty: "adds fr b {} fr"
  by (simp add: adds_def)

lemma adds_trans: "adds fr b rs fr' \<Longrightarrow> adds fr' b rs' fr'' \<Longrightarrow> adds fr b (rs \<union> rs') fr''"
  by (auto simp: adds_def)

lemma adds_one: "adds fr b {r} (fr[r := push_unique (fr ! r) b])"
  by (auto simp: adds_def nth_list_update set_push_unique)

lemma run_frontier_adds:
  assumes T: "idoms_ok T" and "idom_at T p \<noteq> None" "s \<in> chain T p"
  shows "\<exists>fr'. run_frontier T b s p fr = Some fr' \<and> adds fr b (chain T p - chain T s) fr'"
  using assms(2,3)
proof (induction p arbitrary: fr rule: less_induct)
  case (less p)
  show ?case
  proof (cases "p = s")
    case True
    then show ?thesis by (subst run_frontier.simps) (simp add: adds_empty)
  next
    case False
    obtain y where y: "idom_at T p = Some y" "y < p" "s \<in> chain T y"
      using less.prems(2) False by (auto elim: chain_cases)
    have "idom_at T y \<noteq> None" using idoms_okD(3)[OF T less.prems(1) y(2)] .
    then obtain fr' where fr: "run_frontier T b s y (fr[p := push_unique (fr ! p) b]) = Some fr'"
      "adds (fr[p := push_unique (fr ! p) b]) b (chain T y - chain T s) fr'" using less.IH[OF y(2) _ y(3)] by blast
    have "p \<notin> chain T s" using chain_le[OF less.prems(2)] chain_le[of p T s] False by auto
    then have "chain T p - chain T s = {p} \<union> (chain T y - chain T s)" using chain_parent[OF y(1,2)] by auto
    then have "adds fr b (chain T p - chain T s) fr'" using adds_trans[OF adds_one fr(2)] by metis
    moreover have "run_frontier T b s p fr = Some fr'" using False y(1) fr(1) by (subst run_frontier.simps) simp
    ultimately show ?thesis by blast
  qed
qed

lemma run_preds_adds:
  assumes T: "idoms_ok T" and "\<forall>p \<in> set ps. idom_at T p \<noteq> None \<and> s \<in> chain T p"
  shows "\<exists>fr'. run_preds T b s ps fr = Some fr' \<and> adds fr b ((\<Union>p \<in> set ps. chain T p) - chain T s) fr'"
  using assms(2)
proof (induction ps arbitrary: fr)
  case Nil
  then show ?case by (simp add: adds_empty)
next
  case (Cons p ps)
  obtain fr1 where 1: "run_frontier T b s p fr = Some fr1" "adds fr b (chain T p - chain T s) fr1"
    using run_frontier_adds[OF T] Cons.prems by (metis list.set_intros(1))
  obtain fr2 where 2: "run_preds T b s ps fr1 = Some fr2" "adds fr1 b ((\<Union>p \<in> set ps. chain T p) - chain T s) fr2"
    using Cons.IH Cons.prems by (metis list.set_intros(2))
  have "(chain T p - chain T s) \<union> ((\<Union>p \<in> set ps. chain T p) - chain T s) = (\<Union>p \<in> set (p # ps). chain T p) - chain T s" by auto
  then show ?case using 1(1) 2(1) adds_trans[OF 1(2) 2(2)] by simp
qed

context rpo_graph
begin

text \<open>The blocks whose frontier a block is in: those on the chain of a predecessor, but not of its immediate dominator.\<close>

definition frontier_of :: "nat \<Rightarrow> nat set" where
  "frontier_of b = (\<Union>p \<in> set (preds ! b). {r. dominates preds r p}) - {r. dominates preds r b \<and> r \<noteq> b}"

lemma frontier_block_adds:
  assumes idoms: "immediate_dominators preds = Some T" and b: "b < length preds"
  shows "\<exists>fr' rs. frontier_block blocks T (b, preds ! b) fr = Some fr' \<and> adds fr (blocks ! b) rs fr' \<and> (0 < b \<longrightarrow> rs = frontier_of b)"
proof -
  have T: "idoms_ok T" "length T = length preds" "\<And>y. y < length preds \<Longrightarrow> chain T y = {d. dominates preds d y}"
    "\<And>y. y < length preds \<Longrightarrow> idom_at T y \<noteq> None"
    using immediate_dominators_chain idoms by auto
  have p: "\<forall>p \<in> set (preds ! b). p < length preds" using preds_in b by blast
  obtain s where s: "idom_at T b = Some s" using T(4)[OF b] by blast
  have on_chains: "s \<in> chain T p" if "p \<in> set (preds ! b)" for p
  proof (cases "b = 0")
    case True
    then have "s = 0" using s idoms_okD(1)[OF T(1)] by simp
    then show ?thesis using T(3)[of p] p that path_to_has_entry unfolding dominates_def by blast
  next
    case False
    obtain d where d: "T ! b = Some d" "d \<noteq> b" "dominates preds d b" using immediate_dominator_at[OF idoms _ b] False by blast
    then have "s = d" using s b T(2) by (simp add: idom_at_def)
    then show ?thesis using dominates_pred[OF d(3,2) that b] T(3)[of p] p that by simp
  qed
  obtain fr' where fr': "run_preds T (blocks ! b) s (preds ! b) fr = Some fr'"
    "adds fr (blocks ! b) ((\<Union>p \<in> set (preds ! b). chain T p) - chain T s) fr'"
    using run_preds_adds[OF T(1)] on_chains p T(4) by meson
  have sC: "chain T s = {r. dominates preds r b \<and> r \<noteq> b}" if "0 < b"
    using chain_parent[OF s] idoms_okD(2)[OF T(1) that s] T(3)[OF b] chain_le[of b T s] by auto
  then have rs: "(\<Union>p \<in> set (preds ! b). chain T p) - chain T s = frontier_of b" if "0 < b"
    using that T(3) p by (auto simp: frontier_of_def)
  show ?thesis
  proof (cases "length (preds ! b) < 2")
    case True
    have "frontier_of b = {}" if b0: "0 < b"
    proof -
      obtain q where q: "q \<in> set (preds ! b)" "q < b" using earlier_pred[OF b0 b] by blast
      then have single: "preds ! b = [q]" using True by (cases "preds ! b"; cases "tl (preds ! b)") auto
      have "dominates preds q b"
        unfolding dominates_def
      proof (intro allI impI)
        fix xs assume "path_to preds b xs"
        then show "q \<in> set xs" using single b0 by cases (auto dest: path_to_self)
      qed
      then have "q \<in> chain T s" using sC[OF b0] q(2) by simp
      then have "chain T q \<subseteq> chain T s" using chain_trans by blast
      then show ?thesis using rs[OF b0] single by auto
    qed
    then show ?thesis using True by (intro exI[of _ fr] exI[of _ "{}"]) (auto simp: frontier_block_def adds_empty)
  next
    case False
    then show ?thesis using fr' rs s b T(2)
      by (intro exI[of _ fr'] exI[of _ "(\<Union>p \<in> set (preds ! b). chain T p) - chain T s"]) (simp add: frontier_block_def idom_at_def)
  qed
qed

lemma frontier_blocks_at:
  assumes idoms: "immediate_dominators preds = Some T" and d: "distinct blocks" "length blocks = length preds"
    and "\<forall>bp \<in> set bps. fst bp < length preds \<and> snd bp = preds ! fst bp"
  shows "\<exists>fr'. frontier_blocks blocks T bps fr = Some fr' \<and> length fr' = length fr \<and>
    (\<forall>r < length fr. \<forall>b < length preds. 0 < b \<longrightarrow>
      (blocks ! b \<in> set (fr' ! r) \<longleftrightarrow> blocks ! b \<in> set (fr ! r) \<or> b \<in> fst ` set bps \<and> r \<in> frontier_of b))"
  using assms(4)
proof (induction bps arbitrary: fr)
  case (Cons bp bps)
  let ?c = "fst bp"
  have c: "?c < length preds" "bp = (?c, preds ! ?c)" using Cons.prems by (auto simp: prod_eq_iff)
  obtain fr1 rs where 1: "frontier_block blocks T bp fr = Some fr1" "adds fr (blocks ! ?c) rs fr1" "0 < ?c \<longrightarrow> rs = frontier_of ?c"
    using frontier_block_adds[OF idoms c(1)] c(2) by metis
  obtain fr2 where 2: "frontier_blocks blocks T bps fr1 = Some fr2" "length fr2 = length fr1"
    "\<forall>r < length fr1. \<forall>b < length preds. 0 < b \<longrightarrow>
      (blocks ! b \<in> set (fr2 ! r) \<longleftrightarrow> blocks ! b \<in> set (fr1 ! r) \<or> b \<in> fst ` set bps \<and> r \<in> frontier_of b)"
    using Cons.IH[of fr1] Cons.prems by auto
  have len: "length fr1 = length fr" using 1(2) by (simp add: adds_def)
  have step: "blocks ! b \<in> set (fr1 ! r) \<longleftrightarrow> blocks ! b \<in> set (fr ! r) \<or> b = ?c \<and> r \<in> frontier_of b"
    if "r < length fr" "b < length preds" "0 < b" for r b
    using 1(2,3) that c(1) d nth_eq_iff_index_eq[OF d(1)] by (auto simp: adds_def)
  have "blocks ! b \<in> set (fr2 ! r) \<longleftrightarrow> blocks ! b \<in> set (fr ! r) \<or> b \<in> fst ` set (bp # bps) \<and> r \<in> frontier_of b"
    if "r < length fr" "b < length preds" "0 < b" for r b
    using step[OF that] 2(3) that len by auto
  then show ?case using 1(1) 2(1,2) len by simp
qed simp

lemma dominance_frontiers_at:
  assumes idoms: "immediate_dominators preds = Some T" and d: "distinct blocks" "length blocks = length preds"
  shows "\<exists>fr. dominance_frontiers blocks preds T = Some fr \<and> length fr = length preds \<and>
    (\<forall>r < length preds. \<forall>b < length preds. 0 < b \<longrightarrow> (blocks ! b \<in> set (fr ! r) \<longleftrightarrow> r \<in> frontier_of b))"
proof -
  have m: "bp \<in> set (enumerate 0 preds) \<longleftrightarrow> fst bp < length preds \<and> snd bp = preds ! fst bp" for bp
    by (cases bp) (auto simp: in_set_enumerate_eq)
  have "b \<in> fst ` set (enumerate 0 preds) \<longleftrightarrow> b < length preds" for b
    using m by (metis fst_conv image_iff snd_conv)
  then show ?thesis
    using frontier_blocks_at[OF assms, of "enumerate 0 preds" "replicate (length blocks) []"] m d(2)
    by (auto simp: dominance_frontiers_def)
qed

end

lemma add_children_at:
  assumes "\<forall>bi \<in> set bis. \<forall>idom. snd bi = Some idom \<longrightarrow> idom < length children" "d < length children"
  shows "set (fold (add_child blocks) bis children ! d) = set (children ! d) \<union> {blocks ! i | i. (i, Some d) \<in> set bis}"
  using assms
proof (induction bis arbitrary: children)
  case (Cons bi bis)
  have "set (add_child blocks bi children ! d) = set (children ! d) \<union> (if snd bi = Some d then {blocks ! fst bi} else {})"
    "length (add_child blocks bi children) = length children"
    using Cons.prems by (auto simp: add_child_def nth_list_update split: option.splits)
  then show ?case using Cons.IH[of "add_child blocks bi children"] Cons.prems by (auto simp: prod_eq_iff)
qed simp

lemma dominator_children_at:
  assumes "\<forall>i < length idoms. \<forall>idom. idoms ! i = Some idom \<longrightarrow> idom < length blocks" "d < length blocks"
  shows "set (dominator_children blocks idoms ! d) = {blocks ! i | i. 0 < i \<and> i < length idoms \<and> idoms ! i = Some d}"
proof -
  have "(i, x) \<in> set (drop 1 (enumerate 0 idoms)) \<longleftrightarrow> 0 < i \<and> i < length idoms \<and> idoms ! i = x" for i x
    by (cases idoms) (auto simp: in_set_enumerate_eq)
  note m = this
  have "\<forall>bi \<in> set (drop 1 (enumerate 0 idoms)). \<forall>idom. snd bi = Some idom \<longrightarrow> idom < length (replicate (length blocks) ([] :: nat list))"
    using m assms(1) by (metis length_replicate prod.collapse)
  from add_children_at[OF this, of d blocks] show ?thesis using assms(2) unfolding dominator_children_def m by simp
qed

subsection \<open>The results\<close>

context region_graph
begin

lemma index_of: "block_indexes rpo x = Some j \<longleftrightarrow> j < length rpo \<and> rpo ! j = x"
  by (rule block_indexes_at[OF rpo_facts(1)])

lemma rpo_index:
  assumes "(entry, x) \<in> (cfg_edges succs (entry # rest))\<^sup>*"
  obtains j where "j < length rpo" "x = rpo ! j" "block_indexes rpo x = Some j"
proof -
  have "x \<in> set rpo" using assms rpo_facts(5) by blast
  then show ?thesis using that index_of by (metis in_set_conv_nth)
qed

lemma path_exists: "j < length rpo \<Longrightarrow> \<exists>xs. path_to preds j xs"
proof (induction j rule: less_induct)
  case (less j)
  show ?case
  proof (cases "j = 0")
    case True
    then show ?thesis using path_entry by blast
  next
    case False
    then obtain p where p: "p \<in> set (preds ! j)" "p < j" using graph.earlier_pred[of j] less.prems rpo_facts(2) by auto
    then obtain xs where "path_to preds p xs" using less.IH[of p] less.prems by auto
    then show ?thesis using p(1) less.prems rpo_facts(2) path_step by metis
  qed
qed

lemma dominators_in: "dominates preds i j \<Longrightarrow> j < length rpo \<Longrightarrow> i < length rpo"
  using path_exists path_to_below unfolding dominates_def by blast

lemma dominators_reachable:
  assumes "block_dominates succs (entry # rest) e (rpo ! j)" "j < length rpo"
  obtains i where "i < length rpo" "e = rpo ! i"
proof -
  obtain xs where xs: "path_to preds j xs" using path_exists[OF assms(2)] by blast
  then have "e \<in> set (map ((!) rpo) xs)" using assms(1) path_to_blocks unfolding block_dominates_def by blast
  then show ?thesis using path_to_below[OF xs] that by auto
qed

lemma immediate_dominator_block:
  assumes T: "immediate_dominators preds = Some T" "length T = length rpo" and tree: "dt_blocks tree = rpo" "dt_idoms tree = T"
    and x: "j < length rpo" "0 < j"
  shows "\<exists>d i. immediate_dominator tree (rpo ! j) = Some d \<and> i < length rpo \<and> d = rpo ! i \<and> T ! j = Some i \<and> d \<noteq> rpo ! j
    \<and> block_dominates succs (entry # rest) d (rpo ! j)
    \<and> (\<forall>e. block_dominates succs (entry # rest) e (rpo ! j) \<and> e \<noteq> rpo ! j \<longrightarrow> block_dominates succs (entry # rest) e d)"
proof -
  obtain i where i: "T ! j = Some i" "i \<noteq> j" "dominates preds i j" "\<forall>e. dominates preds e j \<and> e \<noteq> j \<longrightarrow> dominates preds e i"
    using graph.immediate_dominator_at[OF T(1) x(2)] x(1) rpo_facts(2) by auto
  have il: "i < length rpo" using dominators_in[OF i(3) x(1)] .
  have "block_dominates succs (entry # rest) e (rpo ! i)" if e: "block_dominates succs (entry # rest) e (rpo ! j)" "e \<noteq> rpo ! j" for e
  proof -
    obtain k where "k < length rpo" "e = rpo ! k" using dominators_reachable[OF e(1) x(1)] by blast
    then show ?thesis using e i(4) block_dominates_index x(1) il by blast
  qed
  moreover have "rpo ! i \<noteq> rpo ! j" using i(2) il x(1) nth_eq_iff_index_eq[OF rpo_facts(1)] by simp
  moreover have "immediate_dominator tree (rpo ! j) = Some (rpo ! i)"
    using index_of[of "rpo ! j" j] x(1) i(1,2) by (simp add: immediate_dominator_def tree)
  ultimately show ?thesis using i(1,3) il block_dominates_index[OF il x(1)] by blast
qed

lemma children_block:
  assumes T: "immediate_dominators preds = Some T" "length T = length rpo"
    and tree: "tree = \<lparr>dt_entry = Some entry, dt_blocks = rpo, dt_idoms = T, dt_children = dominator_children rpo T\<rparr>"
    and d: "i < length rpo"
  shows "set (tree_children tree (rpo ! i)) = {x. immediate_dominator tree x = Some (rpo ! i)}"
proof -
  have at: "\<exists>k. T ! j = Some k \<and> k < length rpo \<and> k \<noteq> j \<and> immediate_dominator tree (rpo ! j) = Some (rpo ! k)"
    if "0 < j" "j < length rpo" for j
    using immediate_dominator_block[OF T _ _ that(2,1), of tree] nth_eq_iff_index_eq[OF rpo_facts(1)] that(2) by (auto simp: tree)
  have T0: "T ! 0 = Some 0"
    using graph.immediate_dominators_chain T idoms_okD(1)[of T] rpo_facts(3) by (auto simp: idom_at_def)
  have small: "\<forall>j < length T. \<forall>k. T ! j = Some k \<longrightarrow> k < length rpo"
    using at T0 T(2) rpo_facts(3) by (metis neq0_conv option.inject)
  have c: "set (tree_children tree (rpo ! i)) = {rpo ! j | j. 0 < j \<and> j < length rpo \<and> T ! j = Some i}"
    using dominator_children_at[OF small d] index_of[of "rpo ! i" i] d T(2) by (simp add: tree_children_def tree)
  have "immediate_dominator tree (rpo ! j) = Some (rpo ! i) \<longleftrightarrow> 0 < j \<and> T ! j = Some i" if "j < length rpo" for j
  proof (cases "j = 0")
    case True
    then show ?thesis using index_of[of "rpo ! 0" 0] rpo_facts(3) T0 by (simp add: immediate_dominator_def tree)
  next
    case False
    then show ?thesis using at[of j] that d nth_eq_iff_index_eq[OF rpo_facts(1)] by auto
  qed
  note at_i = this
  have "\<exists>j < length rpo. x = rpo ! j" if "immediate_dominator tree x = Some (rpo ! i)" for x
    using that index_of by (auto simp: immediate_dominator_def tree Option.bind_eq_Some_conv)
  then have "immediate_dominator tree x = Some (rpo ! i) \<longleftrightarrow> (\<exists>j. x = rpo ! j \<and> 0 < j \<and> j < length rpo \<and> T ! j = Some i)" for x
    using at_i by blast
  then show ?thesis unfolding c by simp
qed

lemma frontier_block_iff:
  assumes b: "b < length rpo" "0 < b" and r: "r < length rpo"
  shows "r \<in> graph.frontier_of b \<longleftrightarrow>
    (\<exists>p. (p, rpo ! b) \<in> cfg_edges succs (entry # rest) \<and> p \<in> set rpo \<and> block_dominates succs (entry # rest) (rpo ! r) p)
    \<and> \<not> (block_dominates succs (entry # rest) (rpo ! r) (rpo ! b) \<and> rpo ! r \<noteq> rpo ! b)"
proof -
  have "(\<exists>p \<in> set (preds ! b). dominates preds r p) \<longleftrightarrow>
      (\<exists>p. (p, rpo ! b) \<in> cfg_edges succs (entry # rest) \<and> p \<in> set rpo \<and> block_dominates succs (entry # rest) (rpo ! r) p)"
    (is "?L \<longleftrightarrow> ?R")
  proof
    assume ?L
    then obtain p where p: "p < length rpo" "rpo ! b \<in> set (succs (rpo ! p))" "dominates preds r p" using rpo_facts(6)[OF b(1)] by blast
    then have "(rpo ! p, rpo ! b) \<in> cfg_edges succs (entry # rest)" using rpo_in_region b(1) unfolding cfg_edges_def by blast
    then show ?R using block_dominates_index[OF r p(1)] p(1,3) nth_mem by blast
  next
    assume ?R
    then obtain p where "p < length rpo" "rpo ! b \<in> set (succs (rpo ! p))" "block_dominates succs (entry # rest) (rpo ! r) (rpo ! p)"
      unfolding cfg_edges_def by (auto simp: in_set_conv_nth)
    then show ?L using rpo_facts(6)[OF b(1)] block_dominates_index[OF r] by blast
  qed
  moreover have "r \<in> graph.frontier_of b \<longleftrightarrow> (\<exists>p \<in> set (preds ! b). dominates preds r p) \<and> \<not> (dominates preds r b \<and> r \<noteq> b)"
    by (auto simp: graph.frontier_of_def)
  ultimately show ?thesis using block_dominates_index[OF r b(1)] nth_eq_iff_index_eq[OF rpo_facts(1) r b(1)] by simp
qed

end

context region_analysis
begin

lemma compute_dominance_frontiers_at:
  obtains T fr where "compute_dominance_frontiers succs (entry # rest) =
      Some (\<lparr>dt_entry = Some entry, dt_blocks = rpo, dt_idoms = T, dt_children = dominator_children rpo T\<rparr>, fr)"
    "immediate_dominators preds = Some T" "idoms_ok T" "length T = length rpo"
    "\<And>r b. \<lbrakk>r < length rpo; b < length rpo; 0 < b\<rbrakk> \<Longrightarrow> rpo ! b \<in> set (fr ! r) \<longleftrightarrow> r \<in> graph.frontier_of b"
proof -
  obtain T where T: "immediate_dominators preds = Some T" "idoms_ok T" "length T = length preds"
    using graph.immediate_dominators_chain by blast
  obtain fr where fr: "dominance_frontiers rpo preds T = Some fr"
    "\<forall>r < length preds. \<forall>b < length preds. 0 < b \<longrightarrow> (rpo ! b \<in> set (fr ! r) \<longleftrightarrow> r \<in> graph.frontier_of b)"
    using graph.dominance_frontiers_at[OF T(1) rpo_facts(1) rpo_facts(2)[symmetric]] by blast
  have "rpo \<noteq> []" using rpo_facts(3) by auto
  then have "compute_dominance_frontiers succs (entry # rest) =
      Some (\<lparr>dt_entry = Some entry, dt_blocks = rpo, dt_idoms = T, dt_children = dominator_children rpo T\<rparr>, fr)"
    using T(1) fr(1) rpo_facts(4) unfolding compute_dominance_frontiers_def Let_def rpo_def[symmetric] preds_def[symmetric] by simp
  then show ?thesis using that T fr(2) rpo_facts(2) by metis
qed

end

text \<open>
  (C14) The dominator tree of every region, reducible or not: the analysis returns, its blocks are the reachable
  ones, the parent of each of them but the entry is its immediate dominator, the strict dominator that
  all its strict dominators dominate, and the children of a block are the blocks whose parent it is.
\<close>

theorem dominator_tree_correct:
  assumes "region = entry # rest"
  shows "\<exists>tree fr. compute_dominance_frontiers succs region = Some (tree, fr) \<and> dt_entry tree = Some entry
    \<and> set (dt_blocks tree) = (cfg_edges succs region)\<^sup>* `` {entry}
    \<and> (\<forall>x. (entry, x) \<in> (cfg_edges succs region)\<^sup>* \<longrightarrow>
        set (tree_children tree x) = {y. immediate_dominator tree y = Some x}
      \<and> (x = entry \<and> immediate_dominator tree x = None \<or>
         (\<exists>d. immediate_dominator tree x = Some d \<and> d \<noteq> x \<and> block_dominates succs region d x
            \<and> (\<forall>e. block_dominates succs region e x \<and> e \<noteq> x \<longrightarrow> block_dominates succs region e d))))"
proof -
  let ?rpo = "reachable_blocks succs (entry # rest)"
  obtain T fr where T: "compute_dominance_frontiers succs (entry # rest) =
      Some (\<lparr>dt_entry = Some entry, dt_blocks = ?rpo, dt_idoms = T, dt_children = dominator_children ?rpo T\<rparr>, fr)"
    "immediate_dominators (predecessor_indexes succs ?rpo) = Some T" "idoms_ok T" "length T = length ?rpo"
    by (rule order.compute_dominance_frontiers_at[of succs entry rest]) blast
  let ?tree = "\<lparr>dt_entry = Some entry, dt_blocks = ?rpo, dt_idoms = T, dt_children = dominator_children ?rpo T\<rparr>"
  have "set (tree_children ?tree x) = {y. immediate_dominator ?tree y = Some x}
      \<and> (x = entry \<and> immediate_dominator ?tree x = None \<or>
         (\<exists>d. immediate_dominator ?tree x = Some d \<and> d \<noteq> x \<and> block_dominates succs (entry # rest) d x
            \<and> (\<forall>e. block_dominates succs (entry # rest) e x \<and> e \<noteq> x \<longrightarrow> block_dominates succs (entry # rest) e d)))"
    if xr: "(entry, x) \<in> (cfg_edges succs (entry # rest))\<^sup>*" for x
  proof -
    obtain j where j: "j < length ?rpo" "x = ?rpo ! j" "block_indexes ?rpo x = Some j" using order.rpo_index[OF xr] by blast
    have "x = entry \<and> immediate_dominator ?tree x = None" if "j = 0"
      using j that order.rpo_facts(4) idoms_okD(1)[OF T(3)] T(4) by (simp add: immediate_dominator_def idom_at_def split: if_splits)
    then show ?thesis
      using order.children_block[OF T(2,4) refl j(1)] order.immediate_dominator_block[OF T(2,4) _ _ j(1), of ?tree] j(2)
      by (cases "j = 0") auto
  qed
  then show ?thesis using T(1) order.rpo_facts(5) unfolding assms by (intro exI[of _ ?tree] exI[of _ fr]) simp
qed

text \<open>A diamond: both arms return to block 8.\<close>

definition diamond :: "nat \<Rightarrow> nat list" where
  "diamond b = (if b = 5 then [6, 7] else if b = 6 then [8] else if b = 7 then [8] else [])"

lemma diamond_edges: "cfg_edges diamond [5, 6, 7, 8] = {(5, 6), (5, 7), (6, 8), (7, 8)}"
  by (auto simp: cfg_edges_def diamond_def split: if_splits)

lemma diamond_paths: "block_path diamond [5, 6, 7, 8] 8 [8, 6, 5]" "block_path diamond [5, 6, 7, 8] 8 [8, 7, 5]"
  "block_path diamond [5, 6, 7, 8] 6 [6, 5]"
proof -
  have 5: "block_path diamond [5, 6, 7, 8] 5 [5]" by (rule block_entry[OF refl])
  have 6: "block_path diamond [5, 6, 7, 8] 6 [6, 5]" using block_step[OF 5] by (simp add: diamond_edges)
  have 7: "block_path diamond [5, 6, 7, 8] 7 [7, 5]" using block_step[OF 5] by (simp add: diamond_edges)
  show "block_path diamond [5, 6, 7, 8] 8 [8, 6, 5]" "block_path diamond [5, 6, 7, 8] 8 [8, 7, 5]"
    "block_path diamond [5, 6, 7, 8] 6 [6, 5]"
    using 6 block_step[OF 6] block_step[OF 7] by (simp_all add: diamond_edges)
qed

lemma diamond_reach: "(5, 6) \<in> (cfg_edges diamond [5, 6, 7, 8])\<^sup>*" "(5, 8) \<in> (cfg_edges diamond [5, 6, 7, 8])\<^sup>*"
proof -
  have "(5, 6) \<in> cfg_edges diamond [5, 6, 7, 8]" "(6, 8) \<in> cfg_edges diamond [5, 6, 7, 8]" by (simp_all add: diamond_edges)
  then show "(5, 6) \<in> (cfg_edges diamond [5, 6, 7, 8])\<^sup>*" "(5, 8) \<in> (cfg_edges diamond [5, 6, 7, 8])\<^sup>*" by auto
qed

theorem dominator_tree_correct_witness:
  "\<exists>tree fr. compute_dominance_frontiers diamond [5, 6, 7, 8] = Some (tree, fr) \<and> immediate_dominator tree 8 = Some 5
    \<and> 8 \<in> set (tree_children tree 5)"
proof -
  obtain tree fr where t: "compute_dominance_frontiers diamond [5, 6, 7, 8] = Some (tree, fr)"
    and all: "\<forall>x. (5, x) \<in> (cfg_edges diamond [5, 6, 7, 8])\<^sup>* \<longrightarrow>
        set (tree_children tree x) = {y. immediate_dominator tree y = Some x}
      \<and> (x = 5 \<and> immediate_dominator tree x = None \<or>
         (\<exists>d. immediate_dominator tree x = Some d \<and> d \<noteq> x \<and> block_dominates diamond [5, 6, 7, 8] d x
            \<and> (\<forall>e. block_dominates diamond [5, 6, 7, 8] e x \<and> e \<noteq> x \<longrightarrow> block_dominates diamond [5, 6, 7, 8] e d)))"
    using dominator_tree_correct[OF refl, of diamond 5 "[6, 7, 8]"] by blast
  obtain d where d: "immediate_dominator tree 8 = Some d" "d \<noteq> 8" "block_dominates diamond [5, 6, 7, 8] d 8"
    using all diamond_reach(2) by fastforce
  have "d \<in> set [8, 6, 5]" "d \<in> set [8, 7, 5]" using d(3) diamond_paths(1,2) unfolding block_dominates_def by blast+
  then have "d = 5" using d(2) by auto
  then show ?thesis using t d(1) all by auto
qed

text \<open>
  (C15) Dominance frontiers: a reachable block other than the entry is in the frontier of \<open>r\<close> exactly when \<open>r\<close>
  dominates one of its reachable predecessors and does not strictly dominate the block itself.
\<close>

theorem dominance_frontier_correct:
  assumes "region = entry # rest"
  shows "\<exists>result. compute_dominance_frontiers succs region = Some result
    \<and> (\<forall>r x. (entry, r) \<in> (cfg_edges succs region)\<^sup>* \<and> (entry, x) \<in> (cfg_edges succs region)\<^sup>* \<and> x \<noteq> entry \<longrightarrow>
        (x \<in> set (frontier result r) \<longleftrightarrow>
          (\<exists>p. (p, x) \<in> cfg_edges succs region \<and> (entry, p) \<in> (cfg_edges succs region)\<^sup>* \<and> block_dominates succs region r p)
          \<and> \<not> (block_dominates succs region r x \<and> r \<noteq> x)))"
proof -
  let ?rpo = "reachable_blocks succs (entry # rest)"
  obtain T fr where T: "compute_dominance_frontiers succs (entry # rest) =
      Some (\<lparr>dt_entry = Some entry, dt_blocks = ?rpo, dt_idoms = T, dt_children = dominator_children ?rpo T\<rparr>, fr)"
    "\<And>r b. \<lbrakk>r < length ?rpo; b < length ?rpo; 0 < b\<rbrakk> \<Longrightarrow> ?rpo ! b \<in> set (fr ! r) \<longleftrightarrow> r \<in> order.graph.frontier_of succs entry rest b"
    by (rule order.compute_dominance_frontiers_at[of succs entry rest]) blast
  let ?tree = "\<lparr>dt_entry = Some entry, dt_blocks = ?rpo, dt_idoms = T, dt_children = dominator_children ?rpo T\<rparr>"
  have reach: "(entry, p) \<in> (cfg_edges succs (entry # rest))\<^sup>* \<longleftrightarrow> p \<in> set ?rpo" for p using order.rpo_facts(5) by blast
  have "x \<in> set (frontier (?tree, fr) r) \<longleftrightarrow>
      (\<exists>p. (p, x) \<in> cfg_edges succs (entry # rest) \<and> p \<in> set ?rpo \<and> block_dominates succs (entry # rest) r p)
      \<and> \<not> (block_dominates succs (entry # rest) r x \<and> r \<noteq> x)"
    if r: "(entry, r) \<in> (cfg_edges succs (entry # rest))\<^sup>*" and x: "(entry, x) \<in> (cfg_edges succs (entry # rest))\<^sup>*" "x \<noteq> entry" for r x
  proof -
    obtain j where j: "j < length ?rpo" "r = ?rpo ! j" "block_indexes ?rpo r = Some j" using order.rpo_index[OF r] by blast
    obtain b where b: "b < length ?rpo" "x = ?rpo ! b" using order.rpo_index[OF x(1)] by blast
    have "0 < b" using b x(2) order.rpo_facts(4) by (cases "b = 0") auto
    have "x \<in> set (frontier (?tree, fr) r) \<longleftrightarrow> j \<in> order.graph.frontier_of succs entry rest b"
      using T(2)[OF j(1) b(1) \<open>0 < b\<close>] j(3) b(2) by (simp add: frontier_def)
    then show ?thesis using order.frontier_block_iff[OF b(1) \<open>0 < b\<close> j(1)] unfolding j(2) b(2) by simp
  qed
  then show ?thesis using T(1) unfolding assms reach by (intro exI[of _ "(?tree, fr)"]) simp
qed

theorem dominance_frontier_correct_witness:
  "\<exists>result. compute_dominance_frontiers diamond [5, 6, 7, 8] = Some result \<and> 8 \<in> set (frontier result 6)"
proof -
  obtain result where r: "compute_dominance_frontiers diamond [5, 6, 7, 8] = Some result"
    and all: "\<forall>r x. (5, r) \<in> (cfg_edges diamond [5, 6, 7, 8])\<^sup>* \<and> (5, x) \<in> (cfg_edges diamond [5, 6, 7, 8])\<^sup>* \<and> x \<noteq> 5 \<longrightarrow>
        (x \<in> set (frontier result r) \<longleftrightarrow>
          (\<exists>p. (p, x) \<in> cfg_edges diamond [5, 6, 7, 8] \<and> (5, p) \<in> (cfg_edges diamond [5, 6, 7, 8])\<^sup>* \<and> block_dominates diamond [5, 6, 7, 8] r p)
          \<and> \<not> (block_dominates diamond [5, 6, 7, 8] r x \<and> r \<noteq> x))"
    using dominance_frontier_correct[OF refl, of diamond 5 "[6, 7, 8]"] by blast
  have "block_dominates diamond [5, 6, 7, 8] 6 6"
    unfolding block_dominates_def by (auto elim: block_path.cases)
  moreover have "\<not> block_dominates diamond [5, 6, 7, 8] 6 8" using diamond_paths(2) unfolding block_dominates_def by fastforce
  moreover have "(6, 8) \<in> cfg_edges diamond [5, 6, 7, 8]" by (simp add: diamond_edges)
  ultimately have "8 \<in> set (frontier result 6)" using all diamond_reach by (metis eval_nat_numeral(3) numeral_eq_iff semiring_norm(89))
  then show ?thesis using r by blast
qed

end
