(* ===== verification/Hot_Path.thy ===== *)
theory Hot_Path
  imports Dom_Frontier
begin

text \<open>
  The static hot path analysis: \<^verbatim>\<open>crates/pliron-ll/src/passes/hot_path.rs\<close>.

  Branch probabilities from weights or from the loop heuristics, natural loops, and the hot path.  The block
  frequencies are floating point numbers and are not modelled.  Weights and probabilities are natural numbers:
  a weight is below \<open>2 ^ 32\<close>, so \<open>from_ratio\<close> multiplies numbers below \<open>2 ^ 52\<close>, and no sum of the weights of
  a terminator comes near \<open>2 ^ 64\<close>.  The target of an edge is the index of a block: every caller looks it up in the table of the blocks.
\<close>

subsection \<open>Probabilities\<close>

record cfg_edge =
  ce_to :: nat
  ce_weight :: "nat option"

definition LOOP_STAY_WEIGHT :: nat where "LOOP_STAY_WEIGHT = 124"
definition LOOP_EXIT_WEIGHT :: nat where "LOOP_EXIT_WEIGHT = 4"
definition DENOMINATOR :: nat where "DENOMINATOR = 2 ^ 20"

text \<open>A \<open>BranchProbability\<close> is its numerator.\<close>

definition from_ratio :: "nat \<Rightarrow> nat \<Rightarrow> nat" where
  "from_ratio numerator denominator = numerator * DENOMINATOR div denominator"

definition complement :: "nat \<Rightarrow> nat" where
  "complement p = DENOMINATOR - p"

definition stays_in_loop :: "nat list list \<Rightarrow> nat \<Rightarrow> nat \<Rightarrow> bool" where
  "stays_in_loop loop_headers block tgt \<longleftrightarrow> list_ex (\<lambda>header. header \<in> set (loop_headers ! tgt)) (loop_headers ! block)"

definition heuristic_weights :: "nat \<Rightarrow> cfg_edge list \<Rightarrow> nat list list \<Rightarrow> nat list" where
  "heuristic_weights block edges loop_headers =
     (if loop_headers ! block = [] \<or> list_all (\<lambda>edge. stays_in_loop loop_headers block (ce_to edge)) edges
      then replicate (length edges) 1
      else map (\<lambda>edge. if stays_in_loop loop_headers block (ce_to edge) then LOOP_STAY_WEIGHT else LOOP_EXIT_WEIGHT) edges)"

text \<open>Collecting the weights succeeds only if every edge has one.\<close>

primrec explicit_weights :: "cfg_edge list \<Rightarrow> nat list option" where
  "explicit_weights [] = Some []"
| "explicit_weights (edge # edges) = (case ce_weight edge of None \<Rightarrow> None | Some w \<Rightarrow> map_option (Cons w) (explicit_weights edges))"

definition edge_weights :: "nat \<Rightarrow> cfg_edge list \<Rightarrow> nat list list \<Rightarrow> nat list" where
  "edge_weights block edges loop_headers = (case explicit_weights edges of
     Some weights \<Rightarrow> if sum_list weights > 0 then weights else heuristic_weights block edges loop_headers
   | None \<Rightarrow> heuristic_weights block edges loop_headers)"

definition block_probabilities :: "nat list list \<Rightarrow> nat \<times> cfg_edge list \<Rightarrow> (nat \<times> nat) list" where
  "block_probabilities loop_headers be =
     (if snd be = [] then []
      else let weights = edge_weights (fst be) (snd be) loop_headers in
        map (\<lambda>(edge, weight). (ce_to edge, from_ratio weight (sum_list weights))) (zip (snd be) weights))"

definition edge_probabilities :: "cfg_edge list list \<Rightarrow> nat list list \<Rightarrow> (nat \<times> nat) list list" where
  "edge_probabilities successors loop_headers = map (block_probabilities loop_headers) (enumerate 0 successors)"

text \<open>The sum over parallel edges.\<close>

definition edge_probability :: "(nat \<times> nat) list list \<Rightarrow> nat \<Rightarrow> nat \<Rightarrow> nat" where
  "edge_probability probabilities from to = sum_list (map snd (filter (\<lambda>(succ, _). succ = to) (probabilities ! from)))"

subsection \<open>Natural loops\<close>

definition edge_targets :: "cfg_edge list list \<Rightarrow> nat \<Rightarrow> nat list" where
  "edge_targets successors b = map ce_to (successors ! b)"

definition reverse_post_order :: "cfg_edge list list \<Rightarrow> nat list" where
  "reverse_post_order successors = rev (snd (visit_blocks (edge_targets successors) [0..<length successors] [0] ([], [])))"

definition rpo_predecessors :: "cfg_edge list list \<Rightarrow> nat list \<Rightarrow> nat list list" where
  "rpo_predecessors successors rpo =
     fold (\<lambda>(block, edges). case block_indexes rpo block of
             None \<Rightarrow> id
           | Some from \<Rightarrow> fold (push_pred (block_indexes rpo) from) (map ce_to edges))
       (enumerate 0 successors) (replicate (length rpo) [])"

text \<open>The closure \<open>dominates\<close>.\<close>

partial_function (option) idom_dominates :: "nat option list \<Rightarrow> nat \<Rightarrow> nat \<Rightarrow> bool option" where
  "idom_dominates idoms d block =
     (if block = d then Some True
      else case idom_at idoms block of
        Some idom \<Rightarrow> if idom \<noteq> block then idom_dominates idoms d idom else Some False
      | None \<Rightarrow> Some False)"

lemma count_update: "n < length bs \<Longrightarrow> \<not> bs ! n \<Longrightarrow> length (filter Not (bs[n := True])) < length (filter Not bs)"
proof (induction bs arbitrary: n)
  case (Cons b bs)
  then show ?case by (cases n) auto
qed simp

text \<open>The flood of a loop, backwards from the source; an index out of range is a panic.\<close>

function flood_loop :: "nat list list \<Rightarrow> nat list \<Rightarrow> bool list \<Rightarrow> bool list option" where
  "flood_loop predecessors worklist in_loop =
     (if worklist = [] then Some in_loop
      else let node = last worklist; worklist = butlast worklist in
        if \<not> node < length in_loop then None
        else if in_loop ! node then flood_loop predecessors worklist in_loop
        else flood_loop predecessors (worklist @ predecessors ! node) (in_loop[node := True]))"
  by pat_completeness auto

termination
  by (relation "measures [\<lambda>(_, _, in_loop). length (filter Not in_loop), \<lambda>(_, worklist, _). length worklist]")
    (auto simp: count_update)

declare flood_loop.simps [simp del]

definition note_header :: "nat \<Rightarrow> nat list \<Rightarrow> bool list \<Rightarrow> nat list list \<Rightarrow> nat list list" where
  "note_header header rpo in_loop headers_of =
     fold (\<lambda>(rpo_idx, member) headers_of.
         if in_loop ! rpo_idx \<and> header \<notin> set (headers_of ! member)
         then headers_of[member := headers_of ! member @ [header]] else headers_of)
       (enumerate 0 rpo) headers_of"

text \<open>One edge: \<open>source\<close> is the index of its block in the reverse post order.\<close>

definition loop_edge :: "nat list \<Rightarrow> nat list list \<Rightarrow> nat option list \<Rightarrow> nat \<Rightarrow> cfg_edge \<Rightarrow> nat list list \<Rightarrow> nat list list option" where
  "loop_edge rpo predecessors idoms source edge headers_of =
     (case block_indexes rpo (ce_to edge) of
        None \<Rightarrow> Some headers_of
      | Some tgt \<Rightarrow> Option.bind (idom_dominates idoms tgt source) (\<lambda>back.
          if \<not> back then Some headers_of
          else map_option (\<lambda>in_loop. note_header (ce_to edge) rpo in_loop headers_of)
            (flood_loop predecessors [source] ((replicate (length rpo) False)[tgt := True]))))"

primrec loop_edges :: "nat list \<Rightarrow> nat list list \<Rightarrow> nat option list \<Rightarrow> nat \<Rightarrow> cfg_edge list \<Rightarrow> nat list list \<Rightarrow> nat list list option" where
  "loop_edges rpo predecessors idoms source [] headers_of = Some headers_of"
| "loop_edges rpo predecessors idoms source (edge # edges) headers_of =
     Option.bind (loop_edge rpo predecessors idoms source edge headers_of) (loop_edges rpo predecessors idoms source edges)"

primrec loop_blocks :: "nat list \<Rightarrow> nat list list \<Rightarrow> nat option list \<Rightarrow> (nat \<times> cfg_edge list) list \<Rightarrow> nat list list \<Rightarrow> nat list list option" where
  "loop_blocks rpo predecessors idoms [] headers_of = Some headers_of"
| "loop_blocks rpo predecessors idoms (be # bes) headers_of =
     (case block_indexes rpo (fst be) of
        None \<Rightarrow> loop_blocks rpo predecessors idoms bes headers_of
      | Some source \<Rightarrow> Option.bind (loop_edges rpo predecessors idoms source (snd be) headers_of) (loop_blocks rpo predecessors idoms bes))"

definition natural_loop_membership :: "cfg_edge list list \<Rightarrow> nat list \<Rightarrow> nat list list option" where
  "natural_loop_membership successors rpo =
     (let predecessors = rpo_predecessors successors rpo in
      Option.bind (immediate_dominators predecessors) (\<lambda>idoms.
        loop_blocks rpo predecessors idoms (enumerate 0 successors) (replicate (length successors) [])))"

subsection \<open>The hot path\<close>

definition better_edge :: "nat \<times> nat \<Rightarrow> (nat \<times> nat) option \<Rightarrow> (nat \<times> nat) option" where
  "better_edge edge best = (case best of None \<Rightarrow> Some edge | Some b \<Rightarrow> if snd edge > snd b then Some edge else best)"

definition best_edge :: "(nat \<times> nat) list \<Rightarrow> (nat \<times> nat) option" where
  "best_edge edges = fold better_edge edges None"

text \<open>\<open>on_path\<close> holds of the blocks of \<open>path\<close>; asking it out of range is a panic.\<close>

function follow_hot :: "(nat \<times> nat) list list \<Rightarrow> nat list \<Rightarrow> nat \<Rightarrow> nat list option" where
  "follow_hot probabilities path block =
     (let path = path @ [block] in
      case best_edge (probabilities ! block) of
        None \<Rightarrow> Some path
      | Some (succ, _) \<Rightarrow>
          if \<not> succ < length probabilities then None
          else if succ \<notin> set path then follow_hot probabilities path succ
          else Some path)"
  by pat_completeness auto

termination
proof (relation "measure (\<lambda>(probabilities, path, block). card ({..<length probabilities} - set (path @ [block])))", goal_cases)
  case (2 probabilities path block xa x succ prob)
  then have "{..<length probabilities} - set (xa @ [succ]) \<subset> {..<length probabilities} - set (path @ [block])" by auto
  then show ?case by (auto intro!: psubset_card_mono)
qed simp

declare follow_hot.simps [simp del]

definition extract_hot_path :: "(nat \<times> nat) list list \<Rightarrow> nat list option" where
  "extract_hot_path probabilities = follow_hot probabilities [] 0"

record hot_path_info =
  hp_probabilities :: "(nat \<times> nat) list list"
  hp_hot_path :: "nat list"

definition from_edges :: "cfg_edge list list \<Rightarrow> hot_path_info option" where
  "from_edges successors =
     (if successors = [] then Some \<lparr>hp_probabilities = [], hp_hot_path = []\<rparr>
      else Option.bind (natural_loop_membership successors (reverse_post_order successors)) (\<lambda>loop_headers.
        let probabilities = edge_probabilities successors loop_headers in
        map_option (\<lambda>hot_path. \<lparr>hp_probabilities = probabilities, hp_hot_path = hot_path\<rparr>) (extract_hot_path probabilities)))"

subsection \<open>The probabilities of a block\<close>

lemma explicit_weights_length: "explicit_weights edges = Some ws \<Longrightarrow> length ws = length edges"
  by (induction edges arbitrary: ws) (auto split: option.splits)

lemma explicit_weights_at: "explicit_weights edges = Some ws \<longleftrightarrow> map ce_weight edges = map Some ws"
  by (induction edges arbitrary: ws) (auto split: option.splits)

lemma sum_list_pos: "xs \<noteq> [] \<Longrightarrow> \<forall>x \<in> set xs. 0 < x \<Longrightarrow> 0 < sum_list xs" for xs :: "nat list"
  by (cases xs) auto

lemma heuristic_weights_pos:
  "edges \<noteq> [] \<Longrightarrow> length (heuristic_weights b edges lh) = length edges \<and> 0 < sum_list (heuristic_weights b edges lh)"
  by (auto simp: heuristic_weights_def LOOP_STAY_WEIGHT_def LOOP_EXIT_WEIGHT_def intro!: sum_list_pos simp del: sum_list_eq_0_iff)

lemma edge_weights_pos:
  "edges \<noteq> [] \<Longrightarrow> length (edge_weights b edges lh) = length edges \<and> 0 < sum_list (edge_weights b edges lh)"
  using heuristic_weights_pos[of edges b lh] explicit_weights_length[of edges]
  by (auto simp: edge_weights_def split: option.splits)

lemma sum_ratios:
  assumes "0 < (W :: nat)"
  shows "sum_list (map (\<lambda>w. w * D div W) ws) * W \<le> sum_list ws * D"
    and "sum_list ws * D \<le> (sum_list (map (\<lambda>w. w * D div W) ws) + length ws) * W"
    and "ws \<noteq> [] \<Longrightarrow> sum_list ws * D < (sum_list (map (\<lambda>w. w * D div W) ws) + length ws) * W"
proof (induction ws)
  case (Cons w ws)
  have le: "(w * D div W) * W \<le> w * D" by simp
  have lt: "w * D < (w * D div W + 1) * W" using dividend_less_div_times[OF assms, of "w * D"] by (simp add: algebra_simps)
  {
    case 1
    show ?case unfolding list.map sum_list.Cons add_mult_distrib by (rule add_mono[OF le Cons.IH(1)])
  next
    case 2
    then show ?case using Cons.IH(2) lt by (simp add: algebra_simps)
  next
    case 3
    then show ?case using Cons.IH(2) lt by (simp add: algebra_simps)
  }
qed simp_all

lemma edge_probabilities_at:
  "b < length successors \<Longrightarrow> edge_probabilities successors lh ! b = block_probabilities lh (b, successors ! b)"
  by (simp add: edge_probabilities_def nth_enumerate_eq)

lemma block_probabilities_at:
  assumes "edges \<noteq> []"
  shows "map fst (block_probabilities lh (b, edges)) = map ce_to edges"
    and "map snd (block_probabilities lh (b, edges)) =
      map (\<lambda>w. w * DENOMINATOR div sum_list (edge_weights b edges lh)) (edge_weights b edges lh)"
proof -
  have l: "length (edge_weights b edges lh) = length edges" using edge_weights_pos assms by blast
  show "map fst (block_probabilities lh (b, edges)) = map ce_to edges"
    using assms l by (intro nth_equalityI) (simp_all add: block_probabilities_def Let_def)
  show "map snd (block_probabilities lh (b, edges)) =
      map (\<lambda>w. w * DENOMINATOR div sum_list (edge_weights b edges lh)) (edge_weights b edges lh)"
    using assms l by (intro nth_equalityI) (simp_all add: block_probabilities_def Let_def from_ratio_def)
qed

text \<open>
  The probabilities of a block: one per edge, in order; together at most 1, and less than one unit per edge below it; and, where every
  edge has a weight, in proportion to the weights.
\<close>

theorem edge_probabilities_sum:
  assumes "b < length successors" "successors ! b \<noteq> []"
  shows "let ps = edge_probabilities successors loop_headers ! b in
      map fst ps = map ce_to (successors ! b)
    \<and> sum_list (map snd ps) \<le> DENOMINATOR \<and> DENOMINATOR < sum_list (map snd ps) + length (successors ! b)
    \<and> (\<forall>ws. map ce_weight (successors ! b) = map Some ws \<and> 0 < sum_list ws \<longrightarrow>
        map snd ps = map (\<lambda>w. w * 2 ^ 20 div sum_list ws) ws)"
proof -
  let ?ps = "edge_probabilities successors loop_headers ! b" and ?ws = "edge_weights b (successors ! b) loop_headers"
  have W: "0 < sum_list ?ws" "length ?ws = length (successors ! b)" using edge_weights_pos[OF assms(2)] by blast+
  have ps: "map fst ?ps = map ce_to (successors ! b)" "map snd ?ps = map (\<lambda>w. w * DENOMINATOR div sum_list ?ws) ?ws"
    using block_probabilities_at[OF assms(2)] edge_probabilities_at[OF assms(1)] by simp_all
  have "sum_list (map snd ?ps) * sum_list ?ws \<le> DENOMINATOR * sum_list ?ws"
    using sum_ratios(1)[OF W(1), of DENOMINATOR ?ws] by (simp add: ps(2) mult.commute)
  then have 1: "sum_list (map snd ?ps) \<le> DENOMINATOR" using W(1) by simp
  have "?ws \<noteq> []" using W(2) assms(2) by auto
  then have "DENOMINATOR * sum_list ?ws < (sum_list (map snd ?ps) + length (successors ! b)) * sum_list ?ws"
    using sum_ratios(3)[OF W(1), of ?ws DENOMINATOR] W(2) by (simp add: ps(2) mult.commute)
  then have 2: "DENOMINATOR < sum_list (map snd ?ps) + length (successors ! b)" by simp
  have "map snd ?ps = map (\<lambda>w. w * 2 ^ 20 div sum_list ws) ws"
    if "map ce_weight (successors ! b) = map Some ws" "0 < sum_list ws" for ws
    using that explicit_weights_at[of "successors ! b" ws] unfolding ps(2) by (simp add: edge_weights_def DENOMINATOR_def)
  then show ?thesis using ps(1) 1 2 by (simp add: Let_def)
qed

theorem edge_probabilities_sum_witness:
  "let successors = [[\<lparr>ce_to = 1, ce_weight = Some 99\<rparr>, \<lparr>ce_to = 2, ce_weight = Some 1\<rparr>], [], []] in
    map snd (edge_probabilities successors [[], [], []] ! 0) = [1038090, 10485]"
proof -
  define succs where "succs = [[\<lparr>ce_to = 1, ce_weight = Some 99\<rparr>, \<lparr>ce_to = 2, ce_weight = Some 1\<rparr>], [], []]"
  have "0 < length succs" "succs ! 0 \<noteq> []" "map ce_weight (succs ! 0) = map Some [99, 1]" by (simp_all add: succs_def)
  then have "map snd (edge_probabilities succs [[], [], []] ! 0) = map (\<lambda>w. w * 2 ^ 20 div sum_list [99, 1]) [99, 1]"
    using edge_probabilities_sum[of 0 succs "[[], [], []]"] unfolding Let_def by (metis sum_list_pos list.distinct(1) list.set_intros set_ConsD zero_less_numeral zero_less_one empty_iff list.set(1))
  then show ?thesis by (simp add: succs_def Let_def)
qed

subsection \<open>The hot path\<close>

lemma best_edge_from:
  "\<exists>m. fold better_edge edges (Some b) = Some m \<and> m \<in> set (b # edges) \<and> (\<forall>e \<in> set (b # edges). snd e \<le> snd m)"
proof (induction edges arbitrary: b)
  case (Cons e edges)
  define b' where "b' = (if snd e > snd b then e else b)"
  have step: "better_edge e (Some b) = Some b'" by (simp add: better_edge_def b'_def)
  obtain m where m: "fold better_edge edges (Some b') = Some m" "m \<in> set (b' # edges)" "\<forall>x \<in> set (b' # edges). snd x \<le> snd m"
    using Cons.IH[of b'] by blast
  have "b' = e \<or> b' = b" "snd e \<le> snd b'" "snd b \<le> snd b'" by (auto simp: b'_def)
  then show ?case using m step by auto
qed simp

lemma best_edge_max:
  "best_edge edges = None \<longleftrightarrow> edges = []"
  "best_edge edges = Some (s, p) \<Longrightarrow> (s, p) \<in> set edges \<and> (\<forall>e \<in> set edges. snd e \<le> p)"
proof -
  have none: "better_edge e None = Some e" for e by (simp add: better_edge_def)
  show "best_edge edges = None \<longleftrightarrow> edges = []"
  proof (cases edges)
    case (Cons e es)
    then show ?thesis using best_edge_from[of es e] by (auto simp: best_edge_def none)
  qed (simp add: best_edge_def)
  show "(s, p) \<in> set edges \<and> (\<forall>e \<in> set edges. snd e \<le> p)" if "best_edge edges = Some (s, p)"
  proof (cases edges)
    case (Cons e es)
    then show ?thesis using best_edge_from[of es e] that by (auto simp: best_edge_def none)
  qed (use that in \<open>simp add: best_edge_def\<close>)
qed

text \<open>Each block of the path is the best successor of the one before it.\<close>

definition hot_steps :: "(nat \<times> nat) list list \<Rightarrow> nat list \<Rightarrow> bool" where
  "hot_steps probabilities path \<longleftrightarrow> (\<forall>i. Suc i < length path \<longrightarrow>
     (\<exists>p. (path ! Suc i, p) \<in> set (probabilities ! (path ! i)) \<and> (\<forall>e \<in> set (probabilities ! (path ! i)). snd e \<le> p)))"

lemma hot_steps_snoc:
  assumes "hot_steps ps q" "q \<noteq> []" "best_edge (ps ! last q) = Some (s, p)"
  shows "hot_steps ps (q @ [s])"
  unfolding hot_steps_def
proof (intro allI impI)
  fix i assume i: "Suc i < length (q @ [s])"
  show "\<exists>p. ((q @ [s]) ! Suc i, p) \<in> set (ps ! ((q @ [s]) ! i)) \<and> (\<forall>e \<in> set (ps ! ((q @ [s]) ! i)). snd e \<le> p)"
  proof (cases "Suc i < length q")
    case True
    then show ?thesis using assms(1) unfolding hot_steps_def by (simp add: nth_append)
  next
    case False
    then have i': "i = length q - 1" "i < length q" using i assms(2) by auto
    have "(q @ [s]) ! Suc i = s" "(q @ [s]) ! i = last q"
      using i' assms(2) by (simp_all add: nth_append last_conv_nth)
    then show ?thesis using best_edge_max(2)[OF assms(3)] i'(1) by auto
  qed
qed

lemma follow_hot_path:
  assumes "\<forall>b < length ps. \<forall>e \<in> set (ps ! b). fst e < length ps" "block < length ps"
    and "distinct (path @ [block])" "hot_steps ps (path @ [block])"
  shows "\<exists>hot. follow_hot ps path block = Some hot \<and> distinct hot \<and> hot_steps ps hot
    \<and> (\<exists>more. hot = path @ [block] @ more) \<and> set hot \<subseteq> set path \<union> {..<length ps}
    \<and> (case best_edge (ps ! last hot) of None \<Rightarrow> True | Some (s, _) \<Rightarrow> s \<in> set hot)"
  using assms
proof (induction ps path block rule: follow_hot.induct)
  case (1 ps path block)
  show ?case
  proof (cases "best_edge (ps ! block)")
    case None
    then show ?thesis using 1(3-) by (subst follow_hot.simps) auto
  next
    case (Some sp)
    obtain s p where sp: "sp = (s, p)" by fastforce
    have s: "s < length ps" using best_edge_max(2)[of "ps ! block" s p] Some sp 1(2,3) by fastforce
    show ?thesis
    proof (cases "s \<in> set (path @ [block])")
      case True
      then show ?thesis using Some sp s 1(3-) by (subst follow_hot.simps) auto
    next
      case False
      have "distinct ((path @ [block]) @ [s])" "hot_steps ps ((path @ [block]) @ [s])"
        using 1(4) False hot_steps_snoc[OF 1(5), of s p] Some sp by simp_all
      from 1(1)[OF refl Some sp[symmetric] _ False 1(2) s this] s
      obtain hot where h: "follow_hot ps (path @ [block]) s = Some hot" "distinct hot" "hot_steps ps hot"
        "\<exists>more. hot = (path @ [block]) @ [s] @ more" "set hot \<subseteq> set (path @ [block]) \<union> {..<length ps}"
        "case best_edge (ps ! last hot) of None \<Rightarrow> True | Some (s, _) \<Rightarrow> s \<in> set hot"
        by blast
      have "follow_hot ps path block = Some hot" using Some sp s False h(1) by (subst follow_hot.simps) simp
      then show ?thesis using h 1(3) by auto
    qed
  qed
qed

text \<open>
  (C19) The hot path: it is found, starts at the entry, repeats no block, takes the most probable edge at every step, and ends only at
  a block without successors or with its best successor on the path already.
\<close>

theorem hot_path_correct:
  assumes "probabilities \<noteq> []" "list_all (list_all (\<lambda>e. fst e < length probabilities)) probabilities"
  shows "\<exists>hot. extract_hot_path probabilities = Some hot \<and> distinct hot \<and> hot \<noteq> [] \<and> hot ! 0 = 0 \<and> hot_steps probabilities hot
    \<and> (case best_edge (probabilities ! last hot) of None \<Rightarrow> probabilities ! last hot = [] | Some (s, _) \<Rightarrow> s \<in> set hot)"
proof -
  have "\<forall>b < length probabilities. \<forall>e \<in> set (probabilities ! b). fst e < length probabilities"
    using assms(2) by (auto simp: list_all_iff)
  moreover have "distinct ([] @ [0 :: nat])" "hot_steps probabilities ([] @ [0])" by (simp_all add: hot_steps_def)
  ultimately obtain hot where h: "follow_hot probabilities [] 0 = Some hot" "distinct hot" "hot_steps probabilities hot"
    "\<exists>more. hot = [] @ [0] @ more" "case best_edge (probabilities ! last hot) of None \<Rightarrow> True | Some (s, _) \<Rightarrow> s \<in> set hot"
    using follow_hot_path[of probabilities 0 "[]"] assms(1) by blast
  have "case best_edge (probabilities ! last hot) of None \<Rightarrow> probabilities ! last hot = [] | Some (s, _) \<Rightarrow> s \<in> set hot"
    using h(5) best_edge_max(1)[of "probabilities ! last hot"] by (cases "best_edge (probabilities ! last hot)") simp_all
  moreover have "hot \<noteq> []" "hot ! 0 = 0" using h(4) by auto
  ultimately show ?thesis using h(1-3) unfolding extract_hot_path_def by blast
qed

theorem hot_path_correct_witness:
  "\<exists>hot. extract_hot_path [[(1, 10485), (2, 1038090)], [], [(0, 1048576)]] = Some hot \<and> hot ! 0 = 0 \<and> distinct hot"
  using hot_path_correct[of "[[(1, 10485), (2, 1038090)], [], [(0, 1048576)]]"] by simp blast

end
