(* ===== verification/Natural_Loops.thy ===== *)
theory Natural_Loops
  imports Hot_Path
begin

text \<open>
  \<open>natural_loop_membership\<close> of \<^verbatim>\<open>crates/pliron-ll/src/passes/hot_path.rs\<close>
  computes the natural loops of the graph.
\<close>

subsection \<open>Dominance and the flood on predecessor lists\<close>

lemma idom_dominates_chain:
  assumes T: "idoms_ok T" and "idom_at T x \<noteq> None"
  shows "idom_dominates T d x = Some (d \<in> chain T x)"
  using assms(2)
proof (induction x rule: less_induct)
  case (less x)
  show ?case
  proof (cases "x = d")
    case True
    then show ?thesis by (subst idom_dominates.simps) simp
  next
    case False
    obtain y where y: "idom_at T x = Some y" using less.prems by blast
    show ?thesis
    proof (cases "x = 0")
      case True
      then have "idom_at T x = Some x" using idoms_okD(1)[OF T] by simp
      then show ?thesis using False chain_root[of T x] by (subst idom_dominates.simps) simp
    next
      case x0: False
      then have "y < x" using idoms_okD(2)[OF T _ y] by simp
      moreover have "idom_at T y \<noteq> None" using idoms_okD(3)[OF T less.prems \<open>y < x\<close>] .
      ultimately show ?thesis using False y less.IH[of y] chain_parent[OF y] by (subst idom_dominates.simps) auto
    qed
  qed
qed

definition marked :: "bool list \<Rightarrow> nat set" where
  "marked bs = {x. x < length bs \<and> bs ! x}"

text \<open>Marks stay, the worklist gets marked, new marks bring their predecessors, and nothing else is marked.\<close>

lemma flood_loop_marks:
  assumes "\<forall>x < length in_loop. set (preds ! x) \<subseteq> {..<length in_loop}" "set worklist \<subseteq> {..<length in_loop}"
  shows "\<exists>bs. flood_loop preds worklist in_loop = Some bs \<and> length bs = length in_loop
    \<and> marked in_loop \<union> set worklist \<subseteq> marked bs
    \<and> (\<forall>x \<in> marked bs - marked in_loop. set (preds ! x) \<subseteq> marked bs)
    \<and> (\<forall>P. set worklist \<subseteq> P \<and> (\<forall>x \<in> P - marked in_loop. set (preds ! x) \<subseteq> P) \<longrightarrow> marked bs \<subseteq> marked in_loop \<union> P)"
  using assms
proof (induction preds worklist in_loop rule: flood_loop.induct)
  case (1 preds worklist in_loop)
  show ?case
  proof (cases "worklist = []")
    case True
    then show ?thesis by (subst flood_loop.simps) simp
  next
    case False
    let ?n = "last worklist" and ?ws = "butlast worklist"
    have wl: "worklist = ?ws @ [?n]" using False by simp
    then have n: "?n < length in_loop" "set ?ws \<subseteq> {..<length in_loop}" using 1(4) by (metis False last_in_set lessThan_iff subsetD, auto dest: in_set_butlastD)
    have sw: "set worklist = insert ?n (set ?ws)" using wl by (metis Un_insert_right list.simps(15) set_append sup_bot_right list.set(1))
    show ?thesis
    proof (cases "in_loop ! ?n")
      case True
      have "?n \<in> marked in_loop" using True n(1) by (simp add: marked_def)
      moreover have "flood_loop preds worklist in_loop = flood_loop preds ?ws in_loop" using False n(1) True by (subst flood_loop.simps) simp
      ultimately show ?thesis using 1(1)[OF False refl refl _ True 1(3) n(2)] n(1) unfolding sw by auto
    next
      case nm: False
      let ?bs = "in_loop[?n := True]"
      have m: "marked ?bs = insert ?n (marked in_loop)" using n(1) by (auto simp: marked_def nth_list_update)
      have nin: "?n \<notin> marked in_loop" using nm by (simp add: marked_def)
      have wl': "set (?ws @ preds ! ?n) \<subseteq> {..<length ?bs}" using n 1(3) by auto
      have p': "\<forall>x < length ?bs. set (preds ! x) \<subseteq> {..<length ?bs}" using 1(3) by simp
      have fl: "flood_loop preds worklist in_loop = flood_loop preds (?ws @ preds ! ?n) ?bs"
        using False n(1) nm by (subst flood_loop.simps) (simp add: Let_def)
      obtain bs where bs: "flood_loop preds (?ws @ preds ! ?n) ?bs = Some bs" "length bs = length in_loop"
        "insert ?n (marked in_loop) \<union> set (?ws @ preds ! ?n) \<subseteq> marked bs"
        "\<forall>x \<in> marked bs - insert ?n (marked in_loop). set (preds ! x) \<subseteq> marked bs"
        "\<forall>P. set (?ws @ preds ! ?n) \<subseteq> P \<and> (\<forall>x \<in> P - insert ?n (marked in_loop). set (preds ! x) \<subseteq> P) \<longrightarrow>
          marked bs \<subseteq> insert ?n (marked in_loop) \<union> P"
        using 1(2)[OF False refl refl _ nm p' wl'] n(1) unfolding m by auto
      have "\<forall>x \<in> marked bs - marked in_loop. set (preds ! x) \<subseteq> marked bs" using bs(3,4) by auto
      moreover have "marked bs \<subseteq> marked in_loop \<union> P" if "set worklist \<subseteq> P" "\<forall>x \<in> P - marked in_loop. set (preds ! x) \<subseteq> P" for P
      proof -
        have "?n \<in> P" "set (?ws @ preds ! ?n) \<subseteq> P" using that nin sw by auto
        then show ?thesis using bs(5) that(2) by blast
      qed
      ultimately show ?thesis using bs(1-3) fl sw by (intro exI[of _ bs]) auto
    qed
  qed
qed

text \<open>Backwards from \<open>s\<close> without passing \<open>h\<close>.\<close>

inductive backwards :: "nat list list \<Rightarrow> nat \<Rightarrow> nat \<Rightarrow> nat \<Rightarrow> bool" for preds h s where
  back_source: "s \<noteq> h \<Longrightarrow> backwards preds h s s"
| back_step: "\<lbrakk>backwards preds h s x; p \<in> set (preds ! x); p \<noteq> h\<rbrakk> \<Longrightarrow> backwards preds h s p"

lemma flood_from_source:
  assumes p: "\<forall>x < n. set (preds ! x) \<subseteq> {..<n}" and h: "h < n" and s: "s < n"
  shows "\<exists>bs. flood_loop preds [s] ((replicate n False)[h := True]) = Some bs \<and> length bs = n \<and>
    marked bs = insert h {x. backwards preds h s x}"
proof -
  let ?init = "(replicate n False)[h := True]"
  have m: "marked ?init = {h}" using h by (auto simp: marked_def nth_list_update)
  obtain bs where bs: "flood_loop preds [s] ?init = Some bs" "length bs = n" "{h, s} \<subseteq> marked bs"
    "\<forall>x \<in> marked bs - {h}. set (preds ! x) \<subseteq> marked bs"
    "\<forall>P. {s} \<subseteq> P \<and> (\<forall>x \<in> P - {h}. set (preds ! x) \<subseteq> P) \<longrightarrow> marked bs \<subseteq> insert h P"
    using flood_loop_marks[of ?init preds "[s]"] p s unfolding m by auto
  have "x \<in> marked bs \<and> x \<noteq> h" if "backwards preds h s x" for x
    using that by induction (use bs(3,4) in auto)
  moreover have "\<forall>x \<in> insert h {x. backwards preds h s x} - {h}. set (preds ! x) \<subseteq> insert h {x. backwards preds h s x}"
    by (auto intro: back_step)
  moreover have "{s} \<subseteq> insert h {x. backwards preds h s x}" by (auto intro: back_source)
  ultimately have "marked bs = insert h {x. backwards preds h s x}" using bs(3,5) by blast
  then show ?thesis using bs(1,2) by blast
qed

subsection \<open>Predecessors and headers\<close>

lemma rpo_predecessors_from:
  fixes idx :: "nat \<rightharpoonup> nat"
  defines "step \<equiv> \<lambda>(block, edges). case idx block of None \<Rightarrow> id | Some i \<Rightarrow> fold (push_pred idx i) (map ce_to edges)"
  assumes "\<forall>s j. idx s = Some j \<longrightarrow> j < length preds"
  shows "length (fold step (enumerate k es) preds) = length preds \<and>
    (\<forall>j < length preds. set (fold step (enumerate k es) preds ! j) =
      set (preds ! j) \<union> {i. \<exists>b < length es. idx (k + b) = Some i \<and> (\<exists>e \<in> set (es ! b). idx (ce_to e) = Some j)})"
  using assms(2)
proof (induction es arbitrary: k preds)
  case (Cons e es)
  let ?p = "step (k, e) preds"
  have p: "length ?p = length preds \<and> (\<forall>j < length preds. set (?p ! j) =
      set (preds ! j) \<union> {i. idx k = Some i \<and> (\<exists>x \<in> set e. idx (ce_to x) = Some j)})"
  proof (cases "idx k")
    case (Some i)
    then show ?thesis using push_preds[OF Cons.prems, of i "map ce_to e"] by (simp add: step_def)
  qed (simp add: step_def)
  have IH: "length (fold step (enumerate (Suc k) es) ?p) = length preds"
    "\<And>j. j < length preds \<Longrightarrow> set (fold step (enumerate (Suc k) es) ?p ! j) =
      set (?p ! j) \<union> {i. \<exists>b < length es. idx (Suc k + b) = Some i \<and> (\<exists>x \<in> set (es ! b). idx (ce_to x) = Some j)}"
    using Cons.IH[of ?p "Suc k"] Cons.prems p by auto
  have "set (fold step (enumerate k (e # es)) preds ! j) =
      set (preds ! j) \<union> {i. \<exists>b < length (e # es). idx (k + b) = Some i \<and> (\<exists>x \<in> set ((e # es) ! b). idx (ce_to x) = Some j)}"
    if j: "j < length preds" for j
  proof -
    have "(\<exists>b < length (e # es). idx (k + b) = Some i \<and> (\<exists>x \<in> set ((e # es) ! b). idx (ce_to x) = Some j)) \<longleftrightarrow>
        idx k = Some i \<and> (\<exists>x \<in> set e. idx (ce_to x) = Some j) \<or>
        (\<exists>b < length es. idx (Suc k + b) = Some i \<and> (\<exists>x \<in> set (es ! b). idx (ce_to x) = Some j))" for i
      by (simp add: Ex_less_Suc2)
    then show ?thesis using IH(2)[OF j] p j by auto
  qed
  then show ?case using IH(1) by simp
qed simp

lemma rpo_predecessors_at:
  assumes d: "distinct rpo" and sub: "set rpo \<subseteq> {..<length successors}"
  shows "length (rpo_predecessors successors rpo) = length rpo"
    and "j < length rpo \<Longrightarrow> set (rpo_predecessors successors rpo ! j) =
      {i. i < length rpo \<and> rpo ! j \<in> set (edge_targets successors (rpo ! i))}"
proof -
  have idx: "\<forall>s j. block_indexes rpo s = Some j \<longrightarrow> j < length (replicate (length rpo) ([] :: nat list))"
    by (simp add: block_indexes_at[OF d])
  note p = rpo_predecessors_from[OF idx, of 0 successors, folded rpo_predecessors_def]
  show "length (rpo_predecessors successors rpo) = length rpo" using p by simp
  show "set (rpo_predecessors successors rpo ! j) = {i. i < length rpo \<and> rpo ! j \<in> set (edge_targets successors (rpo ! i))}"
    if j: "j < length rpo"
  proof -
    have "rpo ! i < length successors" if "i < length rpo" for i using that sub nth_mem by blast
    then have "(\<exists>b < length successors. block_indexes rpo b = Some i \<and> (\<exists>e \<in> set (successors ! b). block_indexes rpo (ce_to e) = Some j)) \<longleftrightarrow>
        i < length rpo \<and> rpo ! j \<in> set (edge_targets successors (rpo ! i))" for i
      using j by (auto simp: block_indexes_at[OF d] edge_targets_def)
    then show ?thesis using p j by simp
  qed
qed

lemma note_header_from:
  assumes "\<forall>m \<in> set ms. m < length headers_of" "m < length headers_of"
  shows "length (fold (\<lambda>(rpo_idx, member) headers_of.
         if in_loop ! rpo_idx \<and> header \<notin> set (headers_of ! member)
         then headers_of[member := headers_of ! member @ [header]] else headers_of) (enumerate k ms) headers_of) = length headers_of
    \<and> set (fold (\<lambda>(rpo_idx, member) headers_of.
         if in_loop ! rpo_idx \<and> header \<notin> set (headers_of ! member)
         then headers_of[member := headers_of ! member @ [header]] else headers_of) (enumerate k ms) headers_of ! m) =
      set (headers_of ! m) \<union> (if \<exists>i < length ms. ms ! i = m \<and> in_loop ! (k + i) then {header} else {})"
  using assms
proof (induction ms arbitrary: k headers_of)
  case (Cons x ms)
  let ?h = "if in_loop ! k \<and> header \<notin> set (headers_of ! x) then headers_of[x := headers_of ! x @ [header]] else headers_of"
  have h: "length ?h = length headers_of" "set (?h ! m) = set (headers_of ! m) \<union> (if x = m \<and> in_loop ! k then {header} else {})"
    using Cons.prems by (auto simp: nth_list_update)
  have "(\<exists>i < length (x # ms). (x # ms) ! i = m \<and> in_loop ! (k + i)) \<longleftrightarrow>
      x = m \<and> in_loop ! k \<or> (\<exists>i < length ms. ms ! i = m \<and> in_loop ! (Suc k + i))"
    by (simp add: Ex_less_Suc2)
  then show ?case using Cons.IH[of ?h "Suc k"] Cons.prems h by (auto simp del: nth_Cons_Suc)
qed simp

lemma note_header_length: "length (note_header header rpo in_loop headers_of) = length headers_of"
proof -
  have "length (fold (\<lambda>(rpo_idx, member) headers_of.
         if in_loop ! rpo_idx \<and> header \<notin> set (headers_of ! member)
         then headers_of[member := headers_of ! member @ [header]] else headers_of) xs hs) = length hs" for xs and hs :: "nat list list"
    by (induction xs arbitrary: hs) auto
  then show ?thesis by (simp add: note_header_def)
qed

lemma note_header_at:
  assumes "distinct rpo" "set rpo \<subseteq> {..<length headers_of}"
  shows "i < length rpo \<Longrightarrow> set (note_header header rpo in_loop headers_of ! (rpo ! i)) =
      set (headers_of ! (rpo ! i)) \<union> (if in_loop ! i then {header} else {})"
proof -
  have l: "\<forall>m \<in> set rpo. m < length headers_of" using assms(2) by auto
  show "set (note_header header rpo in_loop headers_of ! (rpo ! i)) =
      set (headers_of ! (rpo ! i)) \<union> (if in_loop ! i then {header} else {})" if i: "i < length rpo"
  proof -
    have "(\<exists>j < length rpo. rpo ! j = rpo ! i \<and> in_loop ! (0 + j)) \<longleftrightarrow> in_loop ! i"
      using i nth_eq_iff_index_eq[OF assms(1)] by auto
    then show ?thesis using note_header_from[OF l, of "rpo ! i" in_loop header 0] l i by (simp add: note_header_def)
  qed
qed

subsection \<open>The loops of a graph\<close>

text \<open>The natural loop of the back edge from \<open>a\<close> to \<open>h\<close>: \<open>h\<close> and what reaches \<open>a\<close> without passing \<open>h\<close>.\<close>

definition natural_loop :: "(nat \<times> nat) set \<Rightarrow> nat \<Rightarrow> nat \<Rightarrow> nat set" where
  "natural_loop E a h = insert h {m. m \<noteq> h \<and> a \<noteq> h \<and> (m, a) \<in> {(x, y) \<in> E. x \<noteq> h \<and> y \<noteq> h}\<^sup>*}"

locale loop_graph = region_graph +
  fixes successors :: "cfg_edge list list"
  assumes targets: "succs = edge_targets successors"
    and all_blocks: "set (entry # rest) = {..<length successors}"
    and preds_eq: "preds = rpo_predecessors successors rpo"
begin

text \<open>With \<open>i\<close> the source and \<open>t\<close> the target of a back edge, by their indices: \<open>k\<close> is in its loop.\<close>

definition back_loop :: "nat \<Rightarrow> nat \<Rightarrow> nat \<Rightarrow> bool" where
  "back_loop t i k \<longleftrightarrow> dominates preds t i \<and> (k = t \<or> backwards preds t i k)"

definition edge_headers :: "nat \<Rightarrow> cfg_edge list \<Rightarrow> nat \<Rightarrow> nat set" where
  "edge_headers i edges k = {h. \<exists>t < length rpo. h = rpo ! t \<and> h \<in> ce_to ` set edges \<and> back_loop t i k}"

lemma rpo_bound: "set rpo \<subseteq> {..<length successors}"
  using rpo_in_region unfolding all_blocks by (metis in_set_conv_nth subsetI)

lemma index_at: "block_indexes rpo x = Some j \<longleftrightarrow> j < length rpo \<and> rpo ! j = x"
  by (rule block_indexes_at[OF rpo_facts(1)])

lemma loop_edge_at:
  assumes T: "immediate_dominators preds = Some T" and i: "i < length rpo" and hs: "length hs = length successors"
  shows "\<exists>hs'. loop_edge rpo preds T i e hs = Some hs' \<and> length hs' = length successors \<and>
    (\<forall>k < length rpo. set (hs' ! (rpo ! k)) = set (hs ! (rpo ! k)) \<union> edge_headers i [e] k)"
proof (cases "block_indexes rpo (ce_to e)")
  case None
  then have "\<not> (t < length rpo \<and> rpo ! t = ce_to e)" for t using index_at[of "ce_to e" t] by simp
  then have "edge_headers i [e] k = {}" for k unfolding edge_headers_def by (simp, metis)
  then show ?thesis using None hs by (simp add: loop_edge_def)
next
  case (Some t)
  then have t: "t < length rpo" "rpo ! t = ce_to e" using index_at by blast+
  have TT: "idoms_ok T" "idom_at T i \<noteq> None" "chain T i = {d. dominates preds d i}"
    using graph.immediate_dominators_chain T i rpo_facts(2) by auto
  have asks: "idom_dominates T t i = Some (dominates preds t i)" using idom_dominates_chain[OF TT(1,2)] TT(3) by simp
  have eh: "edge_headers i [e] k = (if back_loop t i k then {ce_to e} else {})" for k
    using t nth_eq_iff_index_eq[OF rpo_facts(1)] by (auto simp: edge_headers_def)
  show ?thesis
  proof (cases "dominates preds t i")
    case False
    then have "edge_headers i [e] k = {}" for k by (simp add: eh back_loop_def)
    then show ?thesis using False Some asks hs by (simp add: loop_edge_def)
  next
    case True
    have in_range: "\<forall>x < length rpo. set (preds ! x) \<subseteq> {..<length rpo}" using rpo_facts(6) by auto
    obtain bs where bs: "flood_loop preds [i] ((replicate (length rpo) False)[t := True]) = Some bs" "length bs = length rpo"
      "marked bs = insert t {x. backwards preds t i x}"
      using flood_from_source[OF in_range t(1) i] by blast
    have "bs ! k \<longleftrightarrow> back_loop t i k" if k: "k < length rpo" for k
    proof -
      have "bs ! k \<longleftrightarrow> k \<in> marked bs" using bs(2) k by (simp add: marked_def)
      then show ?thesis using True by (simp add: bs(3) back_loop_def)
    qed
    then have "set (note_header (ce_to e) rpo bs hs ! (rpo ! k)) = set (hs ! (rpo ! k)) \<union> edge_headers i [e] k"
      if "k < length rpo" for k
      using note_header_at[OF rpo_facts(1), of hs k "ce_to e" bs] rpo_bound hs that by (simp add: eh)
    moreover have "loop_edge rpo preds T i e hs = Some (note_header (ce_to e) rpo bs hs)"
      using Some asks True bs(1) by (simp add: loop_edge_def)
    ultimately show ?thesis using hs by (simp add: note_header_length)
  qed
qed

lemma loop_edges_at:
  assumes T: "immediate_dominators preds = Some T" and i: "i < length rpo" and hs: "length hs = length successors"
  shows "\<exists>hs'. loop_edges rpo preds T i es hs = Some hs' \<and> length hs' = length successors \<and>
    (\<forall>k < length rpo. set (hs' ! (rpo ! k)) = set (hs ! (rpo ! k)) \<union> edge_headers i es k)"
  using hs
proof (induction es arbitrary: hs)
  case Nil
  then show ?case by (simp add: edge_headers_def)
next
  case (Cons e es)
  obtain h1 where 1: "loop_edge rpo preds T i e hs = Some h1" "length h1 = length successors"
    "\<forall>k < length rpo. set (h1 ! (rpo ! k)) = set (hs ! (rpo ! k)) \<union> edge_headers i [e] k"
    using loop_edge_at[OF T i Cons.prems] by blast
  obtain h2 where 2: "loop_edges rpo preds T i es h1 = Some h2" "length h2 = length successors"
    "\<forall>k < length rpo. set (h2 ! (rpo ! k)) = set (h1 ! (rpo ! k)) \<union> edge_headers i es k"
    using Cons.IH[OF 1(2)] by blast
  have "edge_headers i (e # es) k = edge_headers i [e] k \<union> edge_headers i es k" for k by (auto simp: edge_headers_def)
  then show ?case using 1 2 by auto
qed

lemma loop_blocks_at:
  assumes T: "immediate_dominators preds = Some T" and hs: "length hs = length successors"
  shows "\<exists>hs'. loop_blocks rpo preds T bes hs = Some hs' \<and> length hs' = length successors \<and>
    (\<forall>k < length rpo. set (hs' ! (rpo ! k)) = set (hs ! (rpo ! k)) \<union>
       (\<Union>i \<in> {..<length rpo}. \<Union>be \<in> {be \<in> set bes. fst be = rpo ! i}. edge_headers i (snd be) k))"
  using hs
proof (induction bes arbitrary: hs)
  case (Cons be bes)
  show ?case
  proof (cases "block_indexes rpo (fst be)")
    case None
    then have "\<not> (i < length rpo \<and> fst be = rpo ! i)" for i using index_at[of "fst be" i] by auto
    then have "{x \<in> set (be # bes). fst x = rpo ! i} = {x \<in> set bes. fst x = rpo ! i}" if "i < length rpo" for i using that by auto
    then show ?thesis using Cons.IH[OF Cons.prems] None by simp
  next
    case (Some i)
    then have i: "i < length rpo" "rpo ! i = fst be" using index_at by blast+
    obtain h1 where 1: "loop_edges rpo preds T i (snd be) hs = Some h1" "length h1 = length successors"
      "\<forall>k < length rpo. set (h1 ! (rpo ! k)) = set (hs ! (rpo ! k)) \<union> edge_headers i (snd be) k"
      using loop_edges_at[OF T i(1) Cons.prems] by blast
    obtain h2 where 2: "loop_blocks rpo preds T bes h1 = Some h2" "length h2 = length successors"
      "\<forall>k < length rpo. set (h2 ! (rpo ! k)) = set (h1 ! (rpo ! k)) \<union>
         (\<Union>i \<in> {..<length rpo}. \<Union>be \<in> {be \<in> set bes. fst be = rpo ! i}. edge_headers i (snd be) k)"
      using Cons.IH[OF 1(2)] by blast
    have "(\<Union>j \<in> {..<length rpo}. \<Union>x \<in> {x \<in> set (be # bes). fst x = rpo ! j}. edge_headers j (snd x) k) =
        edge_headers i (snd be) k \<union> (\<Union>j \<in> {..<length rpo}. \<Union>x \<in> {x \<in> set bes. fst x = rpo ! j}. edge_headers j (snd x) k)" for k
    proof -
      have uniq: "j = i" if "j < length rpo" "fst be = rpo ! j" for j
        using that i nth_eq_iff_index_eq[OF rpo_facts(1)] by metis
      have "(\<exists>j < length rpo. fst be = rpo ! j \<and> h \<in> edge_headers j (snd be) k) \<longleftrightarrow> h \<in> edge_headers i (snd be) k" for h
        using uniq i by metis
      moreover have "h \<in> (\<Union>j \<in> {..<length rpo}. \<Union>x \<in> {x \<in> set (be # bes). fst x = rpo ! j}. edge_headers j (snd x) k) \<longleftrightarrow>
          (\<exists>j < length rpo. fst be = rpo ! j \<and> h \<in> edge_headers j (snd be) k) \<or>
          (\<exists>j < length rpo. \<exists>x \<in> set bes. fst x = rpo ! j \<and> h \<in> edge_headers j (snd x) k)" for h
        unfolding UN_iff mem_Collect_eq lessThan_iff set_simps insert_iff Bex_def by blast
      moreover have "h \<in> edge_headers i (snd be) k \<union> (\<Union>j \<in> {..<length rpo}. \<Union>x \<in> {x \<in> set bes. fst x = rpo ! j}. edge_headers j (snd x) k) \<longleftrightarrow>
          h \<in> edge_headers i (snd be) k \<or> (\<exists>j < length rpo. \<exists>x \<in> set bes. fst x = rpo ! j \<and> h \<in> edge_headers j (snd x) k)" for h
        unfolding Un_iff UN_iff mem_Collect_eq lessThan_iff Bex_def by blast
      ultimately show ?thesis by (intro set_eqI) (simp only:)
    qed
    then show ?thesis using Some 1 2 by (simp add: Un_assoc)
  qed
qed simp

lemma natural_loop_membership_at:
  "\<exists>headers. natural_loop_membership successors rpo = Some headers \<and> length headers = length successors \<and>
    (\<forall>k < length rpo. set (headers ! (rpo ! k)) =
      {h. \<exists>i t. i < length rpo \<and> t < length rpo \<and> h = rpo ! t \<and> rpo ! t \<in> set (succs (rpo ! i)) \<and> back_loop t i k})"
proof -
  obtain T where T: "immediate_dominators preds = Some T" using graph.immediate_dominators_chain by blast
  obtain hs where hs: "loop_blocks rpo preds T (enumerate 0 successors) (replicate (length successors) []) = Some hs"
    "length hs = length successors"
    "\<forall>k < length rpo. set (hs ! (rpo ! k)) = set (replicate (length successors) [] ! (rpo ! k)) \<union>
       (\<Union>i \<in> {..<length rpo}. \<Union>be \<in> {be \<in> set (enumerate 0 successors). fst be = rpo ! i}. edge_headers i (snd be) k)"
    using loop_blocks_at[OF T, of "replicate (length successors) []" "enumerate 0 successors"] by auto
  have below: "rpo ! i < length successors" if "i < length rpo" for i using that rpo_bound nth_mem by blast
  have "(\<Union>i \<in> {..<length rpo}. \<Union>be \<in> {be \<in> set (enumerate 0 successors). fst be = rpo ! i}. edge_headers i (snd be) k) =
      {h. \<exists>i t. i < length rpo \<and> t < length rpo \<and> h = rpo ! t \<and> rpo ! t \<in> set (succs (rpo ! i)) \<and> back_loop t i k}" for k
  proof -
    have "{be \<in> set (enumerate 0 successors). fst be = rpo ! i} = {(rpo ! i, successors ! (rpo ! i))}" if "i < length rpo" for i
      using below[OF that] by (auto simp: in_set_enumerate_eq)
    then have "(\<Union>i \<in> {..<length rpo}. \<Union>be \<in> {be \<in> set (enumerate 0 successors). fst be = rpo ! i}. edge_headers i (snd be) k) =
        (\<Union>i \<in> {..<length rpo}. edge_headers i (successors ! (rpo ! i)) k)" by simp
    also have "\<dots> = {h. \<exists>i t. i < length rpo \<and> t < length rpo \<and> h = rpo ! t \<and> rpo ! t \<in> set (succs (rpo ! i)) \<and> back_loop t i k}"
      unfolding edge_headers_def targets edge_targets_def by auto
    finally show ?thesis .
  qed
  then show ?thesis
    using hs T below unfolding natural_loop_membership_def Let_def preds_eq[symmetric] by (intro exI[of _ hs]) simp
qed

lemma reach_step:
  assumes "k < length rpo" "(rpo ! k, m) \<in> cfg_edges succs (entry # rest)"
  obtains k' where "k' < length rpo" "m = rpo ! k'" "k \<in> set (preds ! k')"
proof -
  have "(entry, rpo ! k) \<in> (cfg_edges succs (entry # rest))\<^sup>*" using rpo_facts(5) nth_mem[OF assms(1)] by blast
  then have "m \<in> set rpo" using assms(2) rpo_facts(5) by (auto intro: rtrancl_into_rtrancl)
  then obtain k' where k': "k' < length rpo" "m = rpo ! k'" by (metis in_set_conv_nth)
  then have "k \<in> set (preds ! k')" using assms rpo_facts(6)[OF k'(1)] by (simp add: cfg_edges_def)
  then show ?thesis using that k' by blast
qed

lemma backwards_paths:
  assumes t: "t < length rpo" and i: "i < length rpo" and k: "k < length rpo"
  shows "backwards preds t i k \<longleftrightarrow> rpo ! k \<noteq> rpo ! t \<and> rpo ! i \<noteq> rpo ! t \<and>
    (rpo ! k, rpo ! i) \<in> {(x, y) \<in> cfg_edges succs (entry # rest). x \<noteq> rpo ! t \<and> y \<noteq> rpo ! t}\<^sup>*"
    (is "_ \<longleftrightarrow> _ \<and> _ \<and> _ \<in> ?E\<^sup>*")
proof -
  note inj = nth_eq_iff_index_eq[OF rpo_facts(1)]
  have fwd: "k < length rpo \<and> rpo ! k \<noteq> rpo ! t \<and> rpo ! i \<noteq> rpo ! t \<and> (rpo ! k, rpo ! i) \<in> ?E\<^sup>*" if "backwards preds t i k"
    using that
  proof induction
    case back_source
    then show ?case using i t inj by auto
  next
    case (back_step x p)
    then have p: "p < length rpo" "rpo ! x \<in> set (succs (rpo ! p))" using rpo_facts(6) by auto
    then have "(rpo ! p, rpo ! x) \<in> cfg_edges succs (entry # rest)" using rpo_in_region back_step.IH unfolding cfg_edges_def by blast
    then have "(rpo ! p, rpo ! x) \<in> ?E" using back_step p(1) t inj by auto
    then show ?case using back_step p(1) t inj by (auto intro: converse_rtrancl_into_rtrancl)
  qed
  have bwd: "backwards preds t i k" if "(m, rpo ! i) \<in> ?E\<^sup>*" "k < length rpo" "m = rpo ! k" "m \<noteq> rpo ! t" "rpo ! i \<noteq> rpo ! t" for m k
    using that
  proof (induction arbitrary: k rule: converse_rtrancl_induct)
    case base
    then show ?case using i inj back_source by metis
  next
    case (step m m')
    then obtain k' where k': "k' < length rpo" "m' = rpo ! k'" "k \<in> set (preds ! k')" by (auto elim: reach_step)
    then have "backwards preds t i k'" using step by auto
    then show ?case using back_step k'(3) step.prems by blast
  qed
  show ?thesis using fwd bwd k by blast
qed

lemma back_loop_iff:
  assumes t: "t < length rpo" and i: "i < length rpo" and k: "k < length rpo"
  shows "back_loop t i k \<longleftrightarrow> block_dominates succs (entry # rest) (rpo ! t) (rpo ! i)
    \<and> rpo ! k \<in> natural_loop (cfg_edges succs (entry # rest)) (rpo ! i) (rpo ! t)"
  using backwards_paths[OF assms] block_dominates_index[OF t i] nth_eq_iff_index_eq[OF rpo_facts(1) k t]
  unfolding back_loop_def natural_loop_def insert_iff mem_Collect_eq by blast

lemma back_loop_headers:
  assumes k: "k < length rpo"
  defines "E \<equiv> cfg_edges succs (entry # rest)"
  shows "{h. \<exists>i t. i < length rpo \<and> t < length rpo \<and> h = rpo ! t \<and> rpo ! t \<in> set (succs (rpo ! i)) \<and> back_loop t i k} =
    {h. \<exists>a. (entry, a) \<in> E\<^sup>* \<and> (a, h) \<in> E \<and> block_dominates succs (entry # rest) h a \<and> rpo ! k \<in> natural_loop E a h}"
    (is "?L = ?R")
proof (intro set_eqI iffI)
  fix h assume "h \<in> ?L"
  then obtain i t where it: "i < length rpo" "t < length rpo" "h = rpo ! t" "rpo ! t \<in> set (succs (rpo ! i))" "back_loop t i k" by blast
  have "(entry, rpo ! i) \<in> E\<^sup>*" using rpo_facts(5) nth_mem[OF it(1)] unfolding E_def by blast
  moreover have "(rpo ! i, h) \<in> E" using it rpo_in_region unfolding E_def cfg_edges_def by blast
  ultimately show "h \<in> ?R" using it(3,5) back_loop_iff[OF it(2,1) k] unfolding E_def by blast
next
  fix h assume "h \<in> ?R"
  then obtain a where a: "(entry, a) \<in> E\<^sup>*" "(a, h) \<in> E" "block_dominates succs (entry # rest) h a" "rpo ! k \<in> natural_loop E a h" by blast
  have "a \<in> set rpo" using a(1) rpo_facts(5) unfolding E_def by blast
  then obtain i where i: "i < length rpo" "a = rpo ! i" by (metis in_set_conv_nth)
  then obtain t where t: "t < length rpo" "h = rpo ! t" using reach_step[OF i(1)] a(2) unfolding E_def by blast
  have "rpo ! t \<in> set (succs (rpo ! i))" using a(2) i(2) t(2) unfolding E_def cfg_edges_def by blast
  then show "h \<in> ?L" using a(3,4) i t back_loop_iff[OF t(1) i(1) k] unfolding E_def by blast
qed

end

lemma reverse_post_order_reachable:
  "reverse_post_order (e0 # es) = reachable_blocks (edge_targets (e0 # es)) (0 # [1..<Suc (length es)])"
proof -
  have "[0..<length (e0 # es)] = 0 # [1..<Suc (length es)]" by (simp add: upt_conv_Cons del: upt_Suc)
  then show ?thesis unfolding reverse_post_order_def reachable_blocks_def by (simp only: list.case)
qed

lemma reverse_post_order_rpo:
  "rpo_list (edge_targets (e0 # es)) (0 # [1..<Suc (length es)]) 0 (reverse_post_order (e0 # es))"
  unfolding reverse_post_order_reachable by (rule reachable_blocks_rpo[OF refl])

interpretation loops: loop_graph "edge_targets (e0 # es)" 0 "[1..<Suc (length es)]" "reverse_post_order (e0 # es)"
  "rpo_predecessors (e0 # es) (reverse_post_order (e0 # es))" "e0 # es" for e0 es
proof -
  let ?rpo = "reverse_post_order (e0 # es)" and ?succs = "edge_targets (e0 # es)"
  have r: "distinct ?rpo" "set ?rpo = (cfg_edges ?succs (0 # [1..<Suc (length es)]))\<^sup>* `` {0}"
    using reverse_post_order_rpo[of e0 es] unfolding rpo_list_def by blast+
  have sub: "set ?rpo \<subseteq> {..<length (e0 # es)}"
  proof
    fix x assume "x \<in> set ?rpo"
    then have "(0, x) \<in> (cfg_edges ?succs (0 # [1..<Suc (length es)]))\<^sup>*" using r(2) by blast
    then show "x \<in> {..<length (e0 # es)}" by (cases rule: rtranclE) (auto simp: cfg_edges_def)
  qed
  show "loop_graph ?succs 0 [1..<Suc (length es)] ?rpo (rpo_predecessors (e0 # es) ?rpo) (e0 # es)"
  proof (unfold_locales, rule reverse_post_order_reachable)
    show "length (rpo_predecessors (e0 # es) ?rpo) = length ?rpo" by (rule rpo_predecessors_at(1)[OF r(1) sub])
    show "set (rpo_predecessors (e0 # es) ?rpo ! j) = {i. i < length ?rpo \<and> ?rpo ! j \<in> set (?succs (?rpo ! i))}"
      if "j < length ?rpo" for j by (rule rpo_predecessors_at(2)[OF r(1) sub that])
    show "set (0 # [1..<Suc (length es)]) = {..<length (e0 # es)}" by auto
  qed (rule refl)+
qed

lemma loops_rpo_set: "set (reverse_post_order (e0 # es)) = (cfg_edges (edge_targets (e0 # es)) (0 # [1..<Suc (length es)]))\<^sup>* `` {0}"
  using loops.rpo_facts(5) .

text \<open>
  (C16) The loop headers of the blocks: for a function of at least one block, the analysis terminates without a panic, and the headers of a
  reachable block \<open>m\<close> are the targets \<open>h\<close> of the back edges \<open>(a, h)\<close> (the edges into a block that dominates their
  source) whose natural loop \<open>m\<close> is in.
\<close>

theorem natural_loops_correct:
  assumes "successors = e0 # es"
  shows "let succs = edge_targets successors; blocks = 0 # [1..<length successors]; E = cfg_edges succs blocks in
    \<exists>headers. natural_loop_membership successors (reverse_post_order successors) = Some headers
    \<and> length headers = length successors
    \<and> (\<forall>m \<in> E\<^sup>* `` {0}. set (headers ! m) =
        {h. \<exists>a. (0, a) \<in> E\<^sup>* \<and> (a, h) \<in> E \<and> block_dominates succs blocks h a \<and> m \<in> natural_loop E a h})"
proof -
  let ?s = "edge_targets (e0 # es)" and ?b = "0 # [1..<Suc (length es)]" and ?rpo = "reverse_post_order (e0 # es)"
  let ?E = "cfg_edges ?s ?b"
  obtain headers where h: "natural_loop_membership (e0 # es) ?rpo = Some headers" "length headers = length (e0 # es)"
    "\<And>k. k < length ?rpo \<Longrightarrow> set (headers ! (?rpo ! k)) = {h. \<exists>i t. i < length ?rpo \<and> t < length ?rpo \<and> h = ?rpo ! t \<and>
       ?rpo ! t \<in> set (?s (?rpo ! i)) \<and> loops.back_loop e0 es t i k}"
    using loops.natural_loop_membership_at[of e0 es] by blast
  have "set (headers ! m) = {h. \<exists>a. (0, a) \<in> ?E\<^sup>* \<and> (a, h) \<in> ?E \<and> block_dominates ?s ?b h a \<and> m \<in> natural_loop ?E a h}"
    if "m \<in> ?E\<^sup>* `` {0}" for m
  proof -
    have "m \<in> set ?rpo" using that unfolding loops_rpo_set .
    then obtain k where k: "k < length ?rpo" "m = ?rpo ! k" by (metis in_set_conv_nth)
    then show ?thesis using h(3)[OF k(1)] loops.back_loop_headers[OF k(1)] by simp
  qed
  then show ?thesis using h(1,2) unfolding assms Let_def by auto
qed

text \<open>A loop of 1 and 2 entered from 0, with the exit 3; 2 is also a loop of its own.\<close>

definition two_loops :: "cfg_edge list list" where
  "two_loops = [[\<lparr>ce_to = 1, ce_weight = None\<rparr>], [\<lparr>ce_to = 2, ce_weight = None\<rparr>, \<lparr>ce_to = 3, ce_weight = None\<rparr>],
     [\<lparr>ce_to = 1, ce_weight = None\<rparr>, \<lparr>ce_to = 2, ce_weight = None\<rparr>], []]"

declare climb_idoms.simps [code] intersect_idoms.simps [code] idom_loop.simps [code] idom_dominates.simps [code]

lemma two_loops_headers: "natural_loop_membership two_loops (reverse_post_order two_loops) = Some [[], [1], [1, 2], []]"
  by code_simp

theorem natural_loops_correct_witness:
  "natural_loop_membership two_loops (reverse_post_order two_loops) = Some [[], [1], [1, 2], []]
   \<and> (\<exists>a. block_dominates (edge_targets two_loops) [0, 1, 2, 3] 2 a
      \<and> 2 \<in> natural_loop (cfg_edges (edge_targets two_loops) [0, 1, 2, 3]) a 2)"
proof -
  let ?s = "edge_targets two_loops" and ?b = "[0, 1, 2, 3] :: nat list"
  have b: "0 # [1..<length two_loops] = ?b" by (simp add: two_loops_def upt_rec)
  have "(0, 1) \<in> cfg_edges ?s ?b" "(1, 2) \<in> cfg_edges ?s ?b" by (simp_all add: cfg_edges_def edge_targets_def two_loops_def)
  then have r: "2 \<in> (cfg_edges ?s ?b)\<^sup>* `` {0}" by (meson ImageI r_into_rtrancl rtrancl_trans singletonI)
  obtain e0 es where "two_loops = e0 # es" by (simp add: two_loops_def)
  then have "\<forall>m \<in> (cfg_edges ?s ?b)\<^sup>* `` {0}. set ([[], [1], [1, 2], []] ! m) =
      {h. \<exists>a. (0, a) \<in> (cfg_edges ?s ?b)\<^sup>* \<and> (a, h) \<in> cfg_edges ?s ?b \<and> block_dominates ?s ?b h a \<and> m \<in> natural_loop (cfg_edges ?s ?b) a h}"
    using natural_loops_correct[of two_loops e0 es] two_loops_headers unfolding b Let_def by auto
  from bspec[OF this r] show ?thesis using two_loops_headers by (simp add: eval_nat_numeral) blast
qed

end
