(* ===== verification/Block_Placement.thy ===== *)
theory Block_Placement
  imports Natural_Loops "HOL-Library.Product_Lexorder" "HOL-Library.Multiset"
begin

text \<open>
  Block placement: \<open>chain_order\<close>, which the AArch64 and the x86-64 placement pass share, and the AArch64 pass itself
  (\<^verbatim>\<open>crates/pliron-ll/src/passes/aarch64/aarch64_block_placement.rs\<close>).

  The frequency of a block and of an edge come from floating point code and are functions of the model; what is
  proved holds for all of them.
\<close>

subsection \<open>Chains\<close>

definition USIZE_MAX :: nat where "USIZE_MAX = 2 ^ 64 - 1"

text \<open>\<open>Iterator::max_by_key\<close>: the last of the greatest elements.\<close>

definition later_max :: "('a \<Rightarrow> 'k :: linorder) \<Rightarrow> 'a \<Rightarrow> 'a option \<Rightarrow> 'a option" where
  "later_max key x best = (case best of None \<Rightarrow> Some x | Some b \<Rightarrow> if key b \<le> key x then Some x else Some b)"

definition max_by_key :: "('a \<Rightarrow> 'k :: linorder) \<Rightarrow> 'a list \<Rightarrow> 'a option" where
  "max_by_key key xs = fold (later_max key) xs None"

definition best_successor :: "(nat \<Rightarrow> nat \<Rightarrow> nat) \<Rightarrow> bool list \<Rightarrow> nat \<Rightarrow> cfg_edge list \<Rightarrow> nat option" where
  "best_successor edge_frequency placed current edges =
     max_by_key (\<lambda>to. (edge_frequency current to, USIZE_MAX - to)) (filter (\<lambda>to. \<not> placed ! to) (map ce_to edges))"

definition hottest_unplaced :: "(nat \<Rightarrow> nat) \<Rightarrow> bool list \<Rightarrow> nat option" where
  "hottest_unplaced block_frequency placed =
     max_by_key (\<lambda>block. (block_frequency block, USIZE_MAX - block)) (filter (\<lambda>block. \<not> placed ! block) [0..<length placed])"

text \<open>The loop; \<open>None\<close> is a panic: a target out of range, or no unplaced block.\<close>

function chain_loop :: "cfg_edge list list \<Rightarrow> (nat \<Rightarrow> nat) \<Rightarrow> (nat \<Rightarrow> nat \<Rightarrow> nat) \<Rightarrow> bool list \<Rightarrow> nat list \<Rightarrow> nat \<Rightarrow> nat list option" where
  "chain_loop successors block_frequency edge_frequency placed order current =
     (if length order < length placed then
        if list_ex (\<lambda>edge. length placed \<le> ce_to edge) (successors ! current) then None
        else case (case best_successor edge_frequency placed current (successors ! current) of
              Some best \<Rightarrow> Some best | None \<Rightarrow> hottest_unplaced block_frequency placed) of
          None \<Rightarrow> None
        | Some next_block \<Rightarrow>
            chain_loop successors block_frequency edge_frequency (placed[next_block := True]) (order @ [next_block]) next_block
      else Some order)"
  by pat_completeness auto

termination by (relation "measure (\<lambda>(_, _, _, placed, order, _). length placed - length order)") auto

declare chain_loop.simps [simp del]

definition chain_order :: "cfg_edge list list \<Rightarrow> (nat \<Rightarrow> nat) \<Rightarrow> (nat \<Rightarrow> nat \<Rightarrow> nat) \<Rightarrow> nat list option" where
  "chain_order successors block_frequency edge_frequency =
     (if successors = [] then None
      else chain_loop successors block_frequency edge_frequency ((replicate (length successors) False)[0 := True]) [0] 0)"

subsection \<open>The AArch64 pass\<close>

record machine_tail =
  mt_weights :: "(nat \<times> nat) option"
  mt_successors :: "nat list"

record machine_block =
  mb_ptr :: nat
  mb_tail :: "machine_tail option"

text \<open>Past the second successor there is no weight.\<close>

definition edge_weight :: "(nat \<times> nat) option \<Rightarrow> nat \<Rightarrow> nat option" where
  "edge_weight weights index = (if index = 0 then map_option fst weights else if index = 1 then map_option snd weights else None)"

definition machine_block_edges :: "(nat \<rightharpoonup> nat) \<Rightarrow> machine_block \<Rightarrow> cfg_edge list" where
  "machine_block_edges block_index block = (case mb_tail block of
     None \<Rightarrow> []
   | Some terminator \<Rightarrow> List.map_filter
       (\<lambda>(index, succ). map_option (\<lambda>to. \<lparr>ce_to = to, ce_weight = edge_weight (mt_weights terminator) index\<rparr>) (block_index succ))
       (enumerate 0 (mt_successors terminator)))"

definition machine_cfg_edges :: "machine_block list \<Rightarrow> cfg_edge list list" where
  "machine_cfg_edges blocks = map (machine_block_edges (block_indexes (map mb_ptr blocks))) blocks"

text \<open>
  \<open>frequencies\<close> are those of \<open>HotPathInfo\<close>, and \<open>scaled f p\<close> rounds \<open>f\<close> times the probability of
  numerator \<open>p\<close>, in floating point.
\<close>

definition edge_frequency :: "(nat \<Rightarrow> nat \<Rightarrow> nat) \<Rightarrow> nat list \<Rightarrow> hot_path_info \<Rightarrow> nat \<Rightarrow> nat \<Rightarrow> nat" where
  "edge_frequency scaled frequencies info from to = scaled (frequencies ! from) (edge_probability (hp_probabilities info) from to)"

text \<open>Unlink a block and insert it at the back of the region.\<close>

definition move_to_back :: "'a \<Rightarrow> 'a list \<Rightarrow> 'a list" where
  "move_to_back block region = remove1 block region @ [block]"

definition place_blocks :: "(hot_path_info \<Rightarrow> nat list) \<Rightarrow> (nat \<Rightarrow> nat \<Rightarrow> nat) \<Rightarrow> machine_block list \<Rightarrow> machine_block list option" where
  "place_blocks frequencies scaled blocks =
     (if length blocks < 2 then Some blocks
      else let successors = machine_cfg_edges blocks in
        Option.bind (from_edges successors) (\<lambda>info.
          map_option (\<lambda>order. fold (\<lambda>index. move_to_back (blocks ! index)) (tl order) blocks)
            (chain_order successors ((!) (frequencies info)) (edge_frequency scaled (frequencies info) info))))"

subsection \<open>What the chain is\<close>

lemma max_by_key_from:
  "\<exists>m. fold (later_max key) xs (Some b) = Some m \<and> m \<in> set (b # xs) \<and> (\<forall>x \<in> set (b # xs). key x \<le> key m)"
proof (induction xs arbitrary: b)
  case (Cons x xs)
  define b' where "b' = (if key b \<le> key x then x else b)"
  have "later_max key x (Some b) = Some b'" by (simp add: later_max_def b'_def)
  moreover obtain m where "fold (later_max key) xs (Some b') = Some m" "m \<in> set (b' # xs)" "\<forall>y \<in> set (b' # xs). key y \<le> key m"
    using Cons.IH by blast
  moreover have "b' = x \<or> b' = b" "key x \<le> key b'" "key b \<le> key b'" by (auto simp: b'_def)
  ultimately show ?case by auto
qed simp

lemma max_by_key_None [simp]: "max_by_key key xs = None \<longleftrightarrow> xs = []"
  and max_by_key_Some: "max_by_key key xs = Some m \<Longrightarrow> m \<in> set xs \<and> (\<forall>x \<in> set xs. key x \<le> key m)"
proof -
  have none: "later_max key x None = Some x" for x by (simp add: later_max_def)
  show "max_by_key key xs = None \<longleftrightarrow> xs = []"
    using max_by_key_from[of key "tl xs" "hd xs"] by (cases xs) (auto simp: max_by_key_def none)
  show "m \<in> set xs \<and> (\<forall>x \<in> set xs. key x \<le> key m)" if "max_by_key key xs = Some m"
    using max_by_key_from[of key "tl xs" "hd xs"] that by (cases xs) (auto simp: max_by_key_def none)
qed

text \<open>The block after a chain: the likeliest unplaced successor of its end, or else the hottest unplaced block; the lower index of equals.\<close>

definition comes_first :: "(nat \<Rightarrow> nat) \<Rightarrow> nat set \<Rightarrow> nat \<Rightarrow> bool" where
  "comes_first freq U b \<longleftrightarrow> b \<in> U \<and> (\<forall>x \<in> U. freq x < freq b \<or> freq x = freq b \<and> b \<le> x)"

definition chain_pick :: "cfg_edge list list \<Rightarrow> (nat \<Rightarrow> nat) \<Rightarrow> (nat \<Rightarrow> nat \<Rightarrow> nat) \<Rightarrow> nat list \<Rightarrow> nat \<Rightarrow> bool" where
  "chain_pick successors bf ef order b \<longleftrightarrow> (let U = ce_to ` set (successors ! last order) - set order in
     if U \<noteq> {} then comes_first (ef (last order)) U b else comes_first bf ({..<length successors} - set order) b)"

lemma max_comes_first:
  assumes "max_by_key (\<lambda>x. (freq x, USIZE_MAX - x)) xs = Some b" "\<forall>x \<in> set xs. x \<le> USIZE_MAX"
  shows "comes_first freq (set xs) b"
proof -
  have "b \<in> set xs" "\<forall>x \<in> set xs. (freq x, USIZE_MAX - x) \<le> (freq b, USIZE_MAX - b)" using max_by_key_Some[OF assms(1)] by blast+
  then show ?thesis using assms(2) unfolding comes_first_def by fastforce
qed

lemma chain_next:
  assumes marks: "length placed = n" "\<forall>b < n. placed ! b \<longleftrightarrow> b \<in> set order" and sub: "set order \<subseteq> {..<n}"
    and n: "n = length successors" "n \<le> USIZE_MAX" and tgts: "\<forall>e \<in> set (successors ! last order). ce_to e < n"
    and more: "length order < n"
  shows "\<exists>b. (case best_successor ef placed (last order) (successors ! last order) of Some best \<Rightarrow> Some best
      | None \<Rightarrow> hottest_unplaced bf placed) = Some b \<and> chain_pick successors bf ef order b \<and> b < n \<and> b \<notin> set order"
proof -
  let ?S = "filter (\<lambda>to. \<not> placed ! to) (map ce_to (successors ! last order))" and ?R = "filter (\<lambda>b. \<not> placed ! b) [0..<length placed]"
  have S: "set ?S = ce_to ` set (successors ! last order) - set order" using tgts marks by auto
  have R: "set ?R = {..<n} - set order" using marks by auto
  have le: "\<forall>x \<in> set ?S. x \<le> USIZE_MAX" "\<forall>x \<in> set ?R. x \<le> USIZE_MAX" using tgts n marks(1) by fastforce+
  show ?thesis
  proof (cases "best_successor ef placed (last order) (successors ! last order)")
    case (Some b)
    then have "comes_first (ef (last order)) (set ?S) b" unfolding best_successor_def by (rule max_comes_first[OF _ le(1)])
    then show ?thesis using Some tgts unfolding S by (auto simp: chain_pick_def Let_def comes_first_def)
  next
    case None
    then have "?S = []" unfolding best_successor_def by simp
    then have e: "ce_to ` set (successors ! last order) - set order = {}" using S by simp
    have "card (set order) < n" using more card_length[of order] by linarith
    then have "{..<n} - set order \<noteq> {}" using sub by (metis Diff_eq_empty_iff card_lessThan less_irrefl subset_antisym)
    then have "?R \<noteq> []" using R by (metis list.set(1))
    then obtain b where b: "hottest_unplaced bf placed = Some b" unfolding hottest_unplaced_def by (metis max_by_key_None option.exhaust)
    then have "comes_first bf (set ?R) b" unfolding hottest_unplaced_def by (rule max_comes_first[OF _ le(2)])
    then show ?thesis using None b e n(1) unfolding R by (auto simp: chain_pick_def Let_def comes_first_def)
  qed
qed

definition chain_steps :: "cfg_edge list list \<Rightarrow> (nat \<Rightarrow> nat) \<Rightarrow> (nat \<Rightarrow> nat \<Rightarrow> nat) \<Rightarrow> nat list \<Rightarrow> bool" where
  "chain_steps successors bf ef order \<longleftrightarrow>
     (\<forall>k. Suc k < length order \<longrightarrow> chain_pick successors bf ef (take (Suc k) order) (order ! Suc k))"

lemma chain_steps_snoc:
  assumes "chain_steps successors bf ef order" "order \<noteq> []" "chain_pick successors bf ef order b"
  shows "chain_steps successors bf ef (order @ [b])"
  unfolding chain_steps_def
proof (intro allI impI)
  fix k assume k: "Suc k < length (order @ [b])"
  show "chain_pick successors bf ef (take (Suc k) (order @ [b])) ((order @ [b]) ! Suc k)"
  proof (cases "Suc k < length order")
    case True
    then show ?thesis using assms(1) by (simp add: chain_steps_def nth_append)
  next
    case False
    then have "Suc k = length order" using k by simp
    then show ?thesis using assms(3) by (simp add: nth_append)
  qed
qed

lemma chain_loop_order:
  assumes "length placed = length successors" "\<forall>b < length successors. placed ! b \<longleftrightarrow> b \<in> set order"
    "set order \<subseteq> {..<length successors}" "distinct order" "order \<noteq> []" "last order = current" "chain_steps successors bf ef order"
    and n: "length successors \<le> USIZE_MAX" and tgts: "\<forall>edges \<in> set successors. \<forall>e \<in> set edges. ce_to e < length successors"
  shows "\<exists>full. chain_loop successors bf ef placed order current = Some full \<and> (\<exists>more. full = order @ more)
    \<and> distinct full \<and> set full = {..<length successors} \<and> chain_steps successors bf ef full"
  using assms(1-7)
proof (induction "length successors - length order" arbitrary: placed order current rule: less_induct)
  case less
  note eq = chain_loop.simps[of successors bf ef placed order current]
  show ?case
  proof (cases "length order < length successors")
    case False
    have "card (set order) = length order" using less.prems(4) by (rule distinct_card)
    then have "set order = {..<length successors}" using False less.prems(3) card_seteq[of "{..<length successors}" "set order"] by simp
    then show ?thesis using False less.prems eq by simp
  next
    case True
    have "current < length successors" using less.prems(3,5,6) last_in_set by blast
    then have t: "\<forall>e \<in> set (successors ! last order). ce_to e < length successors" using tgts less.prems(6) nth_mem by blast
    obtain b where b: "(case best_successor ef placed (last order) (successors ! last order) of Some best \<Rightarrow> Some best
        | None \<Rightarrow> hottest_unplaced bf placed) = Some b" "chain_pick successors bf ef order b" "b < length successors" "b \<notin> set order"
      using chain_next[OF less.prems(1-3) refl n t True] by blast
    have step: "chain_loop successors bf ef placed order current = chain_loop successors bf ef (placed[b := True]) (order @ [b]) b"
      using True t b(1) eq less.prems(1,6) by (auto simp: list_ex_iff not_le[symmetric])
    have "\<exists>full. chain_loop successors bf ef (placed[b := True]) (order @ [b]) b = Some full \<and> (\<exists>more. full = (order @ [b]) @ more)
        \<and> distinct full \<and> set full = {..<length successors} \<and> chain_steps successors bf ef full"
      by (rule less.hyps) (use True less.prems b chain_steps_snoc in \<open>auto simp: nth_list_update\<close>)
    then show ?thesis unfolding step by auto
  qed
qed

lemma chain_order_list:
  assumes "successors \<noteq> []" "length successors \<le> USIZE_MAX"
    and "list_all (list_all (\<lambda>e. ce_to e < length successors)) successors"
  shows "\<exists>rest. chain_order successors bf ef = Some (0 # rest) \<and> distinct (0 # rest) \<and> set (0 # rest) = {..<length successors}
    \<and> chain_steps successors bf ef (0 # rest)"
proof -
  have "\<forall>edges \<in> set successors. \<forall>e \<in> set edges. ce_to e < length successors" using assms(3) by (simp add: list_all_iff)
  moreover have "chain_steps successors bf ef [0]" by (simp add: chain_steps_def)
  moreover have "\<forall>b < length successors. (replicate (length successors) False)[0 := True] ! b \<longleftrightarrow> b \<in> set [0]"
    using assms(1) by (simp add: nth_list_update)
  ultimately have "\<exists>full. chain_loop successors bf ef ((replicate (length successors) False)[0 := True]) [0] 0 = Some full
      \<and> (\<exists>more. full = [0] @ more) \<and> distinct full \<and> set full = {..<length successors} \<and> chain_steps successors bf ef full"
    using assms(1,2) by (intro chain_loop_order) simp_all
  then show ?thesis using assms(1) unfolding chain_order_def by auto
qed

text \<open>
  (C18) The chain order is a permutation of the blocks that starts with the entry, for any frequencies; each block that follows is the likeliest
  successor of the one before it that is not placed yet, or, where all are placed, the hottest block left; equals keep their order.
\<close>

theorem chain_order_correct:
  assumes "successors \<noteq> []" "length successors \<le> USIZE_MAX"
    and "list_all (list_all (\<lambda>e. ce_to e < length successors)) successors"
  shows "\<exists>order. chain_order successors bf ef = Some order \<and> distinct order \<and> set order = {..<length successors} \<and> order ! 0 = 0
    \<and> (\<forall>k. Suc k < length successors \<longrightarrow> chain_pick successors bf ef (take (Suc k) order) (order ! Suc k))"
proof -
  obtain rest where r: "chain_order successors bf ef = Some (0 # rest)" "distinct (0 # rest)" "set (0 # rest) = {..<length successors}"
    "chain_steps successors bf ef (0 # rest)" using chain_order_list[OF assms] by blast
  then have "length (0 # rest) = length successors" using distinct_card[OF r(2)] by simp
  then show ?thesis using r unfolding chain_steps_def by (metis nth_Cons_0)
qed

definition diamond_edges :: "cfg_edge list list" where
  "diamond_edges = [[\<lparr>ce_to = 1, ce_weight = Some 1\<rparr>, \<lparr>ce_to = 2, ce_weight = Some 99\<rparr>], [\<lparr>ce_to = 3, ce_weight = None\<rparr>],
     [\<lparr>ce_to = 3, ce_weight = None\<rparr>], []]"

theorem chain_order_correct_witness:
  "\<exists>order. chain_order diamond_edges (\<lambda>b. if b = 1 then 1 else 100) (\<lambda>_ b. if b = 1 then 1 else 99) = Some order \<and> distinct order
    \<and> order ! 0 = 0 \<and> chain_order diamond_edges (\<lambda>b. if b = 1 then 1 else 100) (\<lambda>_ b. if b = 1 then 1 else 99) = Some [0, 2, 3, 1]"
proof -
  have "chain_order diamond_edges (\<lambda>b. if b = 1 then 1 else 100) (\<lambda>_ b. if b = 1 then 1 else 99) = Some [0, 2, 3, 1]"
    by (simp add: chain_order_def chain_loop.simps best_successor_def hottest_unplaced_def max_by_key_def later_max_def
        diamond_edges_def USIZE_MAX_def upt_rec)
  moreover have "diamond_edges \<noteq> []" "length diamond_edges \<le> USIZE_MAX" "list_all (list_all (\<lambda>e. ce_to e < length diamond_edges)) diamond_edges"
    by (simp_all add: diamond_edges_def USIZE_MAX_def)
  ultimately show ?thesis
    using chain_order_correct[of diamond_edges "\<lambda>b. if b = 1 then 1 else 100" "\<lambda>_ b. if b = 1 then 1 else 99"] by blast
qed

subsection \<open>The new layout\<close>

lemma moved_to_back:
  assumes "distinct blocks" "distinct order" "set order \<subseteq> {..<length blocks}"
  shows "fold (\<lambda>index. move_to_back (blocks ! index)) order blocks = filter (\<lambda>b. b \<notin> (!) blocks ` set order) blocks @ map ((!) blocks) order"
  using assms(2,3)
proof (induction order rule: rev_induct)
  case (snoc i order)
  have i: "i < length blocks" "i \<notin> set order" and sub: "set order \<subseteq> {..<length blocks}" using snoc.prems by auto
  have new: "blocks ! i \<notin> (!) blocks ` set order" using i sub nth_eq_iff_index_eq[OF assms(1)] by fastforce
  let ?l = "filter (\<lambda>b. b \<notin> (!) blocks ` set order) blocks"
  have "blocks ! i \<in> set ?l" using new i by simp
  moreover have "remove1 (blocks ! i) ?l = filter (\<lambda>b. b \<noteq> blocks ! i) ?l" using assms(1) by (intro distinct_remove1_removeAll[THEN trans]) (simp_all add: removeAll_filter_not_eq eq_commute)
  moreover have "filter (\<lambda>b. b \<noteq> blocks ! i) ?l = filter (\<lambda>b. b \<notin> (!) blocks ` set (order @ [i])) blocks" by (auto intro: filter_cong)
  ultimately show ?case using snoc.IH snoc.prems sub by (simp add: move_to_back_def remove1_append)
qed (simp add: filter_True)

lemma in_map_filter: "y \<in> set (List.map_filter f xs) \<longleftrightarrow> (\<exists>x \<in> set xs. f x = Some y)"
  by (force simp: List.map_filter_def)

lemma machine_cfg_edges_in_range:
  assumes "distinct (map mb_ptr blocks)"
  shows "list_all (list_all (\<lambda>e. ce_to e < length blocks)) (machine_cfg_edges blocks)"
  using block_indexes_at[OF assms]
  by (auto simp: machine_cfg_edges_def machine_block_edges_def list_all_iff in_map_filter split: option.splits)

text \<open>The analysis of a function of at least one block gives an answer.\<close>

lemma from_edges_total:
  assumes "successors \<noteq> []" "list_all (list_all (\<lambda>e. ce_to e < length successors)) successors"
  shows "\<exists>info. from_edges successors = Some info"
proof -
  obtain e0 es where s: "successors = e0 # es" using assms(1) by (cases successors) auto
  obtain headers where h: "natural_loop_membership successors (reverse_post_order successors) = Some headers"
    using loops.natural_loop_membership_at[of e0 es] unfolding s by blast
  let ?p = "edge_probabilities successors headers"
  have l: "length ?p = length successors" by (simp add: edge_probabilities_def)
  have "fst ` set (?p ! b) \<subseteq> {..<length ?p}" if "b < length successors" for b
  proof (cases "successors ! b = []")
    case True
    then show ?thesis using that by (simp add: edge_probabilities_at block_probabilities_def)
  next
    case False
    then have "fst ` set (?p ! b) = ce_to ` set (successors ! b)"
      using that block_probabilities_at(1)[of "successors ! b" headers b] by (metis edge_probabilities_at list.set_map)
    moreover have "\<forall>e \<in> set (successors ! b). ce_to e < length successors" using assms(2) that nth_mem unfolding list_all_iff by blast
    ultimately show ?thesis using l by auto
  qed
  then have "\<forall>b < length ?p. \<forall>e \<in> set (?p ! b). fst e < length ?p" using l by fastforce
  moreover have "hot_steps ?p ([] @ [0])" "distinct ([] @ [0 :: nat])" "0 < length ?p" using l assms(1) by (simp_all add: hot_steps_def)
  ultimately obtain hot where "extract_hot_path ?p = Some hot"
    using follow_hot_path[of ?p 0 "[]"] unfolding extract_hot_path_def by blast
  then show ?thesis using h s by (simp add: from_edges_def Let_def)
qed

lemma layout_permutation:
  assumes "distinct order" "set order = {..<length blocks}"
  shows "mset (map ((!) blocks) order) = mset blocks"
proof -
  have "mset order = mset [0..<length blocks]" 
    using assms set_eq_iff_mset_eq_distinct[of order "[0..<length blocks]"] by (simp add: atLeast0LessThan)
  then have "image_mset ((!) blocks) (mset order) = image_mset ((!) blocks) (mset [0..<length blocks])" by simp
  then show ?thesis by (metis map_nth mset_map)
qed

lemma layout_of_order:
  assumes d: "distinct blocks" and o: "distinct order" "set order = {..<length blocks}" "order = 0 # rest"
  shows "fold (\<lambda>index. move_to_back (blocks ! index)) rest blocks = map ((!) blocks) order"
proof -
  have r: "distinct rest" "set rest = {..<length blocks} - {0}" "0 < length blocks" using o by auto
  have inj: "inj_on ((!) blocks) {..<length blocks}" by (rule inj_on_nth[OF d]) blast
  have sub: "set rest \<subseteq> {..<length blocks}" using r(2) by blast
  have "b \<notin> (!) blocks ` set rest \<longleftrightarrow> b = blocks ! 0" if b: "b \<in> set blocks" for b
  proof -
    obtain j where j: "j < length blocks" "b = blocks ! j" using b by (metis in_set_conv_nth)
    have "b \<in> (!) blocks ` set rest \<longleftrightarrow> j \<in> set rest"
      unfolding j(2) using inj_on_image_mem_iff[OF inj _ sub, of j] j(1) by blast
    moreover have "b = blocks ! 0 \<longleftrightarrow> j = 0" using nth_eq_iff_index_eq[OF d j(1) r(3)] j(2) by simp
    ultimately show ?thesis using j(1) r(2) by simp
  qed
  then have "filter (\<lambda>b. b \<notin> (!) blocks ` set rest) blocks = filter (\<lambda>b. b = blocks ! 0) blocks" by (intro filter_cong) auto
  also have "\<dots> = [blocks ! 0]"
  proof (cases blocks)
    case (Cons b bs)
    then have "filter (\<lambda>x. x = b) bs = []" using d by (auto simp: filter_empty_conv)
    then show ?thesis using Cons by simp
  qed (use r(3) in simp)
  finally show ?thesis using moved_to_back[OF d r(1)] r(2) o(3) by simp
qed

text \<open>
  (C17) Block placement: for a function whose blocks are distinct, the pass returns, and the region holds the same blocks, the entry first,
  and in the order of the chains of the function's edges.
\<close>

theorem place_blocks_correct:
  assumes "distinct (map mb_ptr blocks)" "length blocks \<le> USIZE_MAX" "2 \<le> length blocks"
  shows "\<exists>info order. from_edges (machine_cfg_edges blocks) = Some info
    \<and> chain_order (machine_cfg_edges blocks) ((!) (frequencies info)) (edge_frequency scaled (frequencies info) info) = Some order
    \<and> place_blocks frequencies scaled blocks = Some (map ((!) blocks) order)
    \<and> mset (map ((!) blocks) order) = mset blocks \<and> order ! 0 = 0"
proof -
  let ?s = "machine_cfg_edges blocks"
  have l: "length ?s = length blocks" "?s \<noteq> []" using assms(3) by (auto simp: machine_cfg_edges_def)
  note range = machine_cfg_edges_in_range[OF assms(1), folded l(1)]
  obtain info where info: "from_edges ?s = Some info" using from_edges_total[OF l(2) range] by blast
  let ?bf = "(!) (frequencies info)" and ?ef = "edge_frequency scaled (frequencies info) info"
  obtain rest where order: "chain_order ?s ?bf ?ef = Some (0 # rest)" "distinct (0 # rest)" "set (0 # rest) = {..<length blocks}"
    using chain_order_list[OF l(2) _ range] assms(2) unfolding l(1) by blast
  have "distinct blocks" using assms(1) by (simp add: distinct_map)
  then have "place_blocks frequencies scaled blocks = Some (map ((!) blocks) (0 # rest))"
    using layout_of_order[OF _ order(2,3) refl] assms(3) info order(1) by (simp add: place_blocks_def Let_def)
  then show ?thesis using info order layout_permutation[OF order(2,3)] by (intro exI[of _ info] exI[of _ "0 # rest"]) simp
qed

theorem place_blocks_correct_witness:
  "\<exists>layout. place_blocks (\<lambda>_. [100, 1, 99]) (\<lambda>f p. f * p)
     [\<lparr>mb_ptr = 7, mb_tail = Some \<lparr>mt_weights = Some (1, 99), mt_successors = [8, 9]\<rparr>\<rparr>,
      \<lparr>mb_ptr = 8, mb_tail = None\<rparr>, \<lparr>mb_ptr = 9, mb_tail = None\<rparr>] = Some layout \<and> set (map mb_ptr layout) = {7, 8, 9}"
proof -
  let ?b = "[\<lparr>mb_ptr = 7, mb_tail = Some \<lparr>mt_weights = Some (1, 99), mt_successors = [8, 9]\<rparr>\<rparr>,
      \<lparr>mb_ptr = 8, mb_tail = None\<rparr>, \<lparr>mb_ptr = 9, mb_tail = None\<rparr>]"
  obtain order where "place_blocks (\<lambda>_. [100, 1, 99]) (\<lambda>f p. f * p) ?b = Some (map ((!) ?b) order)"
    "mset (map ((!) ?b) order) = mset ?b"
    using place_blocks_correct[of ?b "\<lambda>_. [100, 1, 99]" "\<lambda>f p. f * p"] by (auto simp: USIZE_MAX_def)
  moreover have "set (map mb_ptr ?b) = {7, 8, 9}" by simp
  ultimately show ?thesis by (metis mset_map set_mset_mset)
qed

end
