(* ===== verification/X86_Ops.thy ===== *)
theory X86_Ops
  imports Text
begin

text \<open>
  The x86-64 instruction set of the backend: registers (\<^verbatim>\<open>crates/pliron-ll/src/x86_64/registers.rs\<close>),
  condition codes (\<^verbatim>\<open>x86_64/attributes.rs\<close>), and the opcode table with the attributes of an
  instruction (\<^verbatim>\<open>x86_64/ops.rs\<close>).
\<close>

subsection \<open>Registers\<close>

datatype register_class = Gpr64 | Gpr32 | Xmm | Rflags

datatype physical_register = PGpr64 nat | PGpr32 nat | PXmm nat | PRflags

datatype register = Virtual nat register_class | Physical physical_register

definition GPR64_NAMES :: "string list" where
  "GPR64_NAMES =
     [''rax'', ''rcx'', ''rdx'', ''rbx'', ''rsp'', ''rbp'', ''rsi'', ''rdi'', ''r8'', ''r9'', ''r10'', ''r11'', ''r12'', ''r13'',
      ''r14'', ''r15'']"

definition GPR32_NAMES :: "string list" where
  "GPR32_NAMES =
     [''eax'', ''ecx'', ''edx'', ''ebx'', ''esp'', ''ebp'', ''esi'', ''edi'', ''r8d'', ''r9d'', ''r10d'', ''r11d'', ''r12d'',
      ''r13d'', ''r14d'', ''r15d'']"

fun physical_class :: "physical_register \<Rightarrow> register_class" where
  "physical_class (PGpr64 n) = Gpr64"
| "physical_class (PGpr32 n) = Gpr32"
| "physical_class (PXmm n) = Xmm"
| "physical_class PRflags = Rflags"

definition is_reserved :: "physical_register \<Rightarrow> bool" where
  "is_reserved r \<longleftrightarrow> r = PGpr64 4 \<or> r = PGpr64 5 \<or> r = PRflags"

definition virtual_gpr :: "nat \<Rightarrow> register" where
  "virtual_gpr i = Virtual i Gpr64"

definition gpr :: "nat \<Rightarrow> register" where
  "gpr n = Physical (PGpr64 n)"

text \<open>\<open>iter().position\<close>.\<close>

fun position :: "string \<Rightarrow> string list \<Rightarrow> nat option" where
  "position text [] = None"
| "position text (n # ns) = (if n = text then Some 0 else map_option Suc (position text ns))"

definition parse_register :: "string \<Rightarrow> register option" where
  "parse_register text =
     (case strip_prefix ''vr'' text of
        Some number \<Rightarrow> map_option (\<lambda>i. Virtual i Gpr64) (parse_uint 4294967295 number)
      | None \<Rightarrow>
          if text = ''rflags'' then Some (Physical PRflags)
          else case position text GPR64_NAMES of Some i \<Rightarrow> Some (Physical (PGpr64 i))
          | None \<Rightarrow> case position text GPR32_NAMES of Some i \<Rightarrow> Some (Physical (PGpr32 i))
          | None \<Rightarrow> case strip_prefix ''xmm'' text of
              Some number \<Rightarrow> (case parse_uint 255 number of
                  Some n \<Rightarrow> if n \<le> 15 then Some (Physical (PXmm n)) else None
                | None \<Rightarrow> None)
            | None \<Rightarrow> None)"

fun display_register :: "register \<Rightarrow> string" where
  "display_register (Virtual i c) = ''vr'' @ show_nat i"
| "display_register (Physical (PGpr64 n)) = GPR64_NAMES ! n"
| "display_register (Physical (PGpr32 n)) = GPR32_NAMES ! n"
| "display_register (Physical (PXmm n)) = ''xmm'' @ show_nat n"
| "display_register (Physical PRflags) = ''rflags''"

text \<open>The registers that have a spelling; that of a virtual register does not tell its class.\<close>

fun register_ok :: "register \<Rightarrow> bool" where
  "register_ok (Virtual i c) \<longleftrightarrow> i \<le> 4294967295 \<and> c = Gpr64"
| "register_ok (Physical (PGpr64 n)) \<longleftrightarrow> n < 16"
| "register_ok (Physical (PGpr32 n)) \<longleftrightarrow> n < 16"
| "register_ok (Physical (PXmm n)) \<longleftrightarrow> n < 16"
| "register_ok (Physical PRflags) \<longleftrightarrow> True"

lemma position_bound: "position text ns = Some i \<Longrightarrow> i < length ns \<and> ns ! i = text"
  by (induction ns arbitrary: i) (auto split: if_splits)

lemma position_distinct: "distinct ns \<Longrightarrow> i < length ns \<Longrightarrow> position (ns ! i) ns = Some i"
proof (induction ns arbitrary: i)
  case (Cons n ns)
  then show ?case by (cases i) auto
qed simp

lemma below_16: "n < (16 :: nat) \<longleftrightarrow> n \<in> {0, 1, 2, 3, 4, 5, 6, 7, 8, 9, 10, 11, 12, 13, 14, 15}"
  by (auto; presburger)

lemma strip_prefix_xmm [simp]: "strip_prefix ''xmm'' (''xmm'' @ s) = Some s"
  by (rule strip_prefix_append)

lemma parse_display_x86_register: "register_ok r \<Longrightarrow> parse_register (display_register r) = Some r"
proof (induction r rule: display_register.induct)
  case (4 n)
  have "position (CHR ''x'' # CHR ''m'' # s) GPR64_NAMES = None" "position (CHR ''x'' # CHR ''m'' # s) GPR32_NAMES = None" for s
    by (simp_all add: GPR64_NAMES_def GPR32_NAMES_def)
  then show ?case using 4 strip_prefix_xmm[of "show_nat n"] by (simp add: parse_register_def)
qed (auto simp: parse_register_def below_16 GPR64_NAMES_def GPR32_NAMES_def)

lemma gpr_names [simp]: "length GPR64_NAMES = 16" "length GPR32_NAMES = 16"
  by (simp_all add: GPR64_NAMES_def GPR32_NAMES_def)

lemma parse_x86_register_ok: "parse_register s = Some r \<Longrightarrow> register_ok r"
  using parse_uint_bound[of 4294967295]
  by (auto simp: parse_register_def split: option.splits if_splits dest!: position_bound)

interpretation x86_reg: spelling display_register parse_register register_ok
  by unfold_locales (simp_all add: parse_display_x86_register parse_x86_register_ok)

subsection \<open>Condition codes\<close>

datatype condition_code = CC_O | CC_No | CC_B | CC_Ae | CC_E | CC_Ne | CC_Be | CC_A | CC_S | CC_Ns | CC_P | CC_Np | CC_L | CC_Ge | CC_Le | CC_G

definition all_conditions :: "condition_code list" where
  "all_conditions = [CC_O, CC_No, CC_B, CC_Ae, CC_E, CC_Ne, CC_Be, CC_A, CC_S, CC_Ns, CC_P, CC_Np, CC_L, CC_Ge, CC_Le, CC_G]"

definition CONDITION_NAMES :: "string list" where
  "CONDITION_NAMES =
     [''o'', ''no'', ''b'', ''ae'', ''e'', ''ne'', ''be'', ''a'', ''s'', ''ns'', ''p'', ''np'', ''l'', ''ge'', ''le'', ''g'']"

fun cond_encoding :: "condition_code \<Rightarrow> u8" where
  "cond_encoding CC_O = 0x0" | "cond_encoding CC_No = 0x1" | "cond_encoding CC_B = 0x2" | "cond_encoding CC_Ae = 0x3"
| "cond_encoding CC_E = 0x4" | "cond_encoding CC_Ne = 0x5" | "cond_encoding CC_Be = 0x6" | "cond_encoding CC_A = 0x7"
| "cond_encoding CC_S = 0x8" | "cond_encoding CC_Ns = 0x9" | "cond_encoding CC_P = 0xa" | "cond_encoding CC_Np = 0xb"
| "cond_encoding CC_L = 0xc" | "cond_encoding CC_Ge = 0xd" | "cond_encoding CC_Le = 0xe" | "cond_encoding CC_G = 0xf"

fun invert :: "condition_code \<Rightarrow> condition_code" where
  "invert CC_O = CC_No" | "invert CC_No = CC_O"
| "invert CC_B = CC_Ae" | "invert CC_Ae = CC_B"
| "invert CC_E = CC_Ne" | "invert CC_Ne = CC_E"
| "invert CC_Be = CC_A" | "invert CC_A = CC_Be"
| "invert CC_S = CC_Ns" | "invert CC_Ns = CC_S"
| "invert CC_P = CC_Np" | "invert CC_Np = CC_P"
| "invert CC_L = CC_Ge" | "invert CC_Ge = CC_L"
| "invert CC_Le = CC_G" | "invert CC_G = CC_Le"

definition cond_name :: "condition_code \<Rightarrow> string" where
  "cond_name c = CONDITION_NAMES ! unat (cond_encoding c)"

definition parse_condition :: "string \<Rightarrow> condition_code option" where
  "parse_condition text = find (\<lambda>c. cond_name c = text) all_conditions"

text \<open>The status flags, and what the architecture tests for the \<open>cc\<close> nibble of an opcode.\<close>

record rflags =
  fl_o :: bool
  fl_s :: bool
  fl_z :: bool
  fl_p :: bool
  fl_c :: bool

definition cc_holds :: "rflags \<Rightarrow> u8 \<Rightarrow> bool" where
  "cc_holds f cc =
     (let base = [fl_o f, fl_c f, fl_z f, fl_c f \<or> fl_z f, fl_s f, fl_p f, fl_s f \<noteq> fl_o f, fl_s f \<noteq> fl_o f \<or> fl_z f] ! unat (drop_bit 1 cc)
      in if bit cc 0 then \<not> base else base)"

definition cond_holds :: "rflags \<Rightarrow> condition_code \<Rightarrow> bool" where
  "cond_holds f c = cc_holds f (cond_encoding c)"

lemma x86_invert_invert [simp]: "invert (invert c) = c"
  by (cases c) simp_all

lemma x86_cond_holds_invert [simp]: "cond_holds f (invert c) \<longleftrightarrow> \<not> cond_holds f c"
  by (cases c) (simp_all add: cond_holds_def cc_holds_def)

interpretation x86_cond: spelling cond_name parse_condition "\<lambda>_. True"
proof
  show "parse_condition (cond_name c) = Some c" for c
    by (cases c) (simp_all add: parse_condition_def all_conditions_def cond_name_def CONDITION_NAMES_def)
qed simp

subsection \<open>Opcodes\<close>

datatype x86_reg_op =
    X_MovImm | X_Mov | X_Add | X_Sub | X_Mul | X_Umulh | X_Sdiv | X_Udiv | X_And | X_Or | X_Xor | X_Shl | X_Lsr | X_Cmp | X_Cset
  | X_Push | X_Pop

datatype x86_mem_op =
    X_SubSpImm | X_AddSpImm | X_AddSpOffset | X_StrSpOffset | X_LdrSpOffset | X_StrwSpOffset | X_LdrwSpOffset | X_StrhSpOffset
  | X_LdrhSpOffset | X_StrbSpOffset | X_LdrbSpOffset | X_LdrStackArg | X_StrRegOffset | X_LdrRegOffset | X_StrwRegOffset
  | X_LdrwRegOffset | X_StrhRegOffset | X_LdrhRegOffset | X_StrbRegOffset | X_LdrbRegOffset

datatype x86_ctl_op =
    X_AdrLiteral | X_AdrFunction | X_Ret | X_Ud2 | X_Call | X_CallReg | X_Jmp | X_Jcc | X_TestJnz

datatype x86_opcode = RegOp x86_reg_op | MemOp x86_mem_op | CtlOp x86_ctl_op

datatype operand_key = Rd | Rn | Rm

datatype operand_kind = Use | Def

type_synonym operand_spec = "(operand_key \<times> operand_kind) list"

primrec reg_op_specs :: "x86_reg_op \<Rightarrow> operand_spec" where
  "reg_op_specs X_MovImm = [(Rd, Def)]"
| "reg_op_specs X_Mov = [(Rd, Def), (Rm, Use)]"
| "reg_op_specs X_Add = [(Rd, Def), (Rn, Use), (Rm, Use)]"
| "reg_op_specs X_Sub = [(Rd, Def), (Rn, Use), (Rm, Use)]"
| "reg_op_specs X_Mul = [(Rd, Def), (Rn, Use), (Rm, Use)]"
| "reg_op_specs X_Umulh = [(Rd, Def), (Rn, Use), (Rm, Use)]"
| "reg_op_specs X_Sdiv = [(Rd, Def), (Rn, Use), (Rm, Use)]"
| "reg_op_specs X_Udiv = [(Rd, Def), (Rn, Use), (Rm, Use)]"
| "reg_op_specs X_And = [(Rd, Def), (Rn, Use), (Rm, Use)]"
| "reg_op_specs X_Or = [(Rd, Def), (Rn, Use), (Rm, Use)]"
| "reg_op_specs X_Xor = [(Rd, Def), (Rn, Use), (Rm, Use)]"
| "reg_op_specs X_Shl = [(Rd, Def), (Rn, Use), (Rm, Use)]"
| "reg_op_specs X_Lsr = [(Rd, Def), (Rn, Use), (Rm, Use)]"
| "reg_op_specs X_Cmp = [(Rn, Use), (Rm, Use)]"
| "reg_op_specs X_Cset = [(Rd, Def)]"
| "reg_op_specs X_Push = [(Rd, Use)]"
| "reg_op_specs X_Pop = [(Rd, Def)]"

primrec mem_op_specs :: "x86_mem_op \<Rightarrow> operand_spec" where
  "mem_op_specs X_SubSpImm = []"
| "mem_op_specs X_AddSpImm = []"
| "mem_op_specs X_AddSpOffset = [(Rd, Def)]"
| "mem_op_specs X_StrSpOffset = [(Rd, Use)]"
| "mem_op_specs X_LdrSpOffset = [(Rd, Def)]"
| "mem_op_specs X_StrwSpOffset = [(Rd, Use)]"
| "mem_op_specs X_LdrwSpOffset = [(Rd, Def)]"
| "mem_op_specs X_StrhSpOffset = [(Rd, Use)]"
| "mem_op_specs X_LdrhSpOffset = [(Rd, Def)]"
| "mem_op_specs X_StrbSpOffset = [(Rd, Use)]"
| "mem_op_specs X_LdrbSpOffset = [(Rd, Def)]"
| "mem_op_specs X_LdrStackArg = [(Rd, Def)]"
| "mem_op_specs X_StrRegOffset = [(Rd, Use), (Rn, Use)]"
| "mem_op_specs X_LdrRegOffset = [(Rd, Def), (Rn, Use)]"
| "mem_op_specs X_StrwRegOffset = [(Rd, Use), (Rn, Use)]"
| "mem_op_specs X_LdrwRegOffset = [(Rd, Def), (Rn, Use)]"
| "mem_op_specs X_StrhRegOffset = [(Rd, Use), (Rn, Use)]"
| "mem_op_specs X_LdrhRegOffset = [(Rd, Def), (Rn, Use)]"
| "mem_op_specs X_StrbRegOffset = [(Rd, Use), (Rn, Use)]"
| "mem_op_specs X_LdrbRegOffset = [(Rd, Def), (Rn, Use)]"

primrec ctl_op_specs :: "x86_ctl_op \<Rightarrow> operand_spec" where
  "ctl_op_specs X_AdrLiteral = [(Rd, Def)]"
| "ctl_op_specs X_AdrFunction = [(Rd, Def)]"
| "ctl_op_specs X_Ret = []"
| "ctl_op_specs X_Ud2 = []"
| "ctl_op_specs X_Call = []"
| "ctl_op_specs X_CallReg = [(Rn, Use)]"
| "ctl_op_specs X_Jmp = []"
| "ctl_op_specs X_Jcc = []"
| "ctl_op_specs X_TestJnz = [(Rn, Use)]"

primrec operand_specs :: "x86_opcode \<Rightarrow> operand_spec" where
  "operand_specs (RegOp x) = reg_op_specs x"
| "operand_specs (MemOp x) = mem_op_specs x"
| "operand_specs (CtlOp x) = ctl_op_specs x"

text \<open>An instruction's attributes and its successor block; blocks are named by numbers.\<close>

record x86_inst =
  x_rd :: "register option"
  x_rn :: "register option"
  x_rm :: "register option"
  x_imm :: "nat option"
  x_cond :: "condition_code option"
  x_target :: "nat option"
  x_callee :: "string option"
  x_label :: "string option"
  x_weights :: "nat list option"

definition no_fields :: x86_inst where
  "no_fields = \<lparr>x_rd = None, x_rn = None, x_rm = None, x_imm = None, x_cond = None, x_target = None, x_callee = None,
     x_label = None, x_weights = None\<rparr>"

fun operand :: "operand_key \<Rightarrow> x86_inst \<Rightarrow> register option" where
  "operand Rd i = x_rd i"
| "operand Rn i = x_rn i"
| "operand Rm i = x_rm i"

definition register_operands :: "x86_opcode \<Rightarrow> x86_inst \<Rightarrow> (operand_key \<times> register \<times> operand_kind) list" where
  "register_operands opcode i =
     List.map_filter (\<lambda>(key, kind). map_option (\<lambda>r. (key, r, kind)) (operand key i)) (operand_specs opcode)"

definition branch_weights :: "x86_inst \<Rightarrow> (nat \<times> nat) option" where
  "branch_weights i = (case x_weights i of Some [taken, not_taken] \<Rightarrow> Some (taken, not_taken) | _ \<Rightarrow> None)"

subsection \<open>Functions\<close>

text \<open>
  An instruction with the bytes of the literal it names, blocks, and functions with the size of their frame.
  Blocks hold instructions only; blocks are named by numbers.
\<close>

type_synonym x86_coded = "x86_opcode \<times> x86_inst \<times> u8 list option"

record x86_block =
  xb_id :: nat
  xb_insts :: "x86_coded list"

record x86_func =
  xf_name :: string
  xf_stack_size :: nat
  xf_blocks :: "x86_block list"

end
