(* ===== verification/X86_Encode.thy ===== *)
theory X86_Encode
  imports X86_Ops
begin

text \<open>
  The x86-64 encoder: \<^verbatim>\<open>crates/pliron-ll/src/x86_64/encoding.rs\<close>.

  Three-address instructions become sequences of two-address ones.  A register number is a natural
  number (a \<open>u8\<close>), an offset in the code is one (a \<open>u64\<close>, far below \<open>2 ^ 63\<close>).  The outer
  option is a panic of an \<open>unwrap\<close>.
\<close>

definition sum_bind :: "'e + 'a \<Rightarrow> ('a \<Rightarrow> 'e + 'b) \<Rightarrow> 'e + 'b" where
  "sum_bind x f = (case x of Inl e \<Rightarrow> Inl e | Inr a \<Rightarrow> f a)"

lemma sum_bind_Inr [simp]: "sum_bind x f = Inr b \<longleftrightarrow> (\<exists>a. x = Inr a \<and> f a = Inr b)"
  by (cases x) (simp_all add: sum_bind_def)

lemma sum_bind_simps [simp]: "sum_bind (Inl e) f = Inl e" "sum_bind (Inr a) f = f a"
  by (simp_all add: sum_bind_def)

subsection \<open>Operands and prefixes\<close>

datatype fixup_kind = Branch32

record binary_fixup =
  fx_offset :: u32
  fx_symbol :: string
  fx_kind :: fixup_kind

record binary_encoding =
  be_bytes :: "u8 list"
  be_fixups :: "binary_fixup list"

text \<open>Offsets of functions, blocks and literals.\<close>

record serialization_context =
  function_offsets :: "string \<rightharpoonup> nat"
  block_offsets :: "nat \<rightharpoonup> nat"
  literal_offsets :: "string \<rightharpoonup> nat"

definition RAX :: nat where "RAX = 0"
definition RCX :: nat where "RCX = 1"
definition RDX :: nat where "RDX = 2"
definition RSP :: nat where "RSP = 4"

definition parse_gpr :: "operand_key \<Rightarrow> x86_inst \<Rightarrow> nat crabbit_result" where
  "parse_gpr key i = (case operand key i of
     None \<Rightarrow> Inl ''missing register operand''
   | Some (Physical (PGpr64 number)) \<Rightarrow> Inr number
   | Some other \<Rightarrow> Inl ''not a physical 64-bit GPR'')"

definition get_imm :: "x86_inst \<Rightarrow> nat crabbit_result" where
  "get_imm i = (case x_imm i of None \<Rightarrow> Inl ''missing its immediate'' | Some n \<Rightarrow> Inr n)"

definition get_cond :: "x86_inst \<Rightarrow> condition_code crabbit_result" where
  "get_cond i = (case x_cond i of None \<Rightarrow> Inl ''missing its condition code'' | Some c \<Rightarrow> Inr c)"

definition rex :: "bool \<Rightarrow> bool \<Rightarrow> bool \<Rightarrow> bool \<Rightarrow> u8" where
  "rex w r x b = 0x40 OR push_bit 3 (of_bool w) OR push_bit 2 (of_bool r) OR push_bit 1 (of_bool x) OR of_bool b"

definition modrm :: "u8 \<Rightarrow> u8 \<Rightarrow> u8 \<Rightarrow> u8" where
  "modrm mode reg rm = push_bit 6 mode OR push_bit 3 reg OR rm"

definition low3 :: "nat \<Rightarrow> u8" where
  "low3 number = of_nat number AND 7"

text \<open>\<open>to_le_bytes\<close> of a word of \<open>n\<close> bytes.\<close>

definition le_bytes :: "nat \<Rightarrow> 'a :: len word \<Rightarrow> u8 list" where
  "le_bytes n w = map (\<lambda>k. ucast (drop_bit (8 * k) w)) [0..<n]"

definition i32_bytes :: "int \<Rightarrow> u8 list" where
  "i32_bytes v = le_bytes 4 (of_int v :: u32)"

definition emit_mov_rr :: "nat \<Rightarrow> nat \<Rightarrow> u8 list" where
  "emit_mov_rr rd rm = [rex True (8 \<le> rm) False (8 \<le> rd), 0x89, modrm 3 (low3 rm) (low3 rd)]"

text \<open>The two-address form of an operation.\<close>

definition emit_alu :: "u8 \<Rightarrow> nat \<Rightarrow> nat \<Rightarrow> u8 list" where
  "emit_alu alu_opcode dst src = [rex True (8 \<le> src) False (8 \<le> dst), alu_opcode, modrm 3 (low3 src) (low3 dst)]"

definition emit_alu_three :: "u8 \<Rightarrow> nat \<Rightarrow> nat \<Rightarrow> nat \<Rightarrow> bool \<Rightarrow> u8 list" where
  "emit_alu_three alu_opcode rd rn rm commutative =
     (if rd = rn then emit_alu alu_opcode rd rm
      else if rd = rm then
        emit_alu alu_opcode rd rn @ (if \<not> commutative then [rex True False False (8 \<le> rd), 0xf7, modrm 3 3 (low3 rd)] else [])
      else emit_mov_rr rd rn @ emit_alu alu_opcode rd rm)"

definition check_expansion_operands :: "nat list \<Rightarrow> nat list \<Rightarrow> unit crabbit_result" where
  "check_expansion_operands operands reserved =
     (if list_ex (\<lambda>operand. operand \<in> set reserved) operands then Inl ''expansion clobbers a register its operands live in'' else Inr ())"

definition emit_mem_operand :: "nat \<Rightarrow> nat \<Rightarrow> int \<Rightarrow> u8 list" where
  "emit_mem_operand reg base disp =
     (if low3 base = 4 then [modrm 2 (low3 reg) 4, 0x24] else [modrm 2 (low3 reg) (low3 base)]) @ i32_bytes disp"

definition emit_store :: "nat \<Rightarrow> nat \<Rightarrow> nat \<Rightarrow> int \<Rightarrow> u8 list" where
  "emit_store sz rt base disp =
     (if sz = 8 then [rex True (8 \<le> rt) False (8 \<le> base), 0x89]
      else if sz = 4 then [rex False (8 \<le> rt) False (8 \<le> base), 0x89]
      else if sz = 2 then [0x66, rex False (8 \<le> rt) False (8 \<le> base), 0x89]
      else [rex False (8 \<le> rt) False (8 \<le> base), 0x88]) @ emit_mem_operand rt base disp"

definition emit_load :: "nat \<Rightarrow> nat \<Rightarrow> nat \<Rightarrow> int \<Rightarrow> u8 list" where
  "emit_load sz rt base disp =
     (if sz = 8 then [rex True (8 \<le> rt) False (8 \<le> base), 0x8b]
      else if sz = 4 then [rex False (8 \<le> rt) False (8 \<le> base), 0x8b]
      else if sz = 2 then [rex True (8 \<le> rt) False (8 \<le> base), 0x0f, 0xb7]
      else [rex True (8 \<le> rt) False (8 \<le> base), 0x0f, 0xb6]) @ emit_mem_operand rt base disp"

definition disp32 :: "nat \<Rightarrow> int crabbit_result" where
  "disp32 value = (if value < 2 ^ 31 then Inr (int value) else Inl ''displacement out of range'')"

definition rel32 :: "nat \<Rightarrow> nat \<Rightarrow> nat \<Rightarrow> int crabbit_result" where
  "rel32 tgt pc len =
     (let delta = int tgt - int pc - int len in
      if - (2 ^ 31) \<le> delta \<and> delta < 2 ^ 31 then Inr delta else Inl ''branch target out of range'')"

definition emit_lea_rip :: "nat \<Rightarrow> nat \<Rightarrow> nat \<Rightarrow> u8 list crabbit_result" where
  "emit_lea_rip rd tgt pc =
     sum_bind (rel32 tgt pc 7) (\<lambda>rel. Inr ([rex True (8 \<le> rd) False False, 0x8d, modrm 0 (low3 rd) 5] @ i32_bytes rel))"

text \<open>Without the tables (when an instruction is sized) a target is at offset 0.\<close>

definition resolve :: "(string \<rightharpoonup> nat) option \<Rightarrow> string \<Rightarrow> nat crabbit_result" where
  "resolve offsets key = (case offsets of
     None \<Rightarrow> Inr 0
   | Some offs \<Rightarrow> (case offs key of Some off \<Rightarrow> Inr off | None \<Rightarrow> Inl ''unknown symbol''))"

definition branch_target :: "x86_inst \<Rightarrow> serialization_context option \<Rightarrow> nat crabbit_result" where
  "branch_target i refs = (case refs of
     None \<Rightarrow> Inr 0
   | Some refs \<Rightarrow> (case x_target i of
       None \<Rightarrow> Inl ''branch has no target block''
     | Some tgt \<Rightarrow> (case block_offsets refs tgt of
         Some off \<Rightarrow> Inr off
       | None \<Rightarrow> Inl ''branch target is outside the enclosing function'')))"

subsection \<open>Instructions\<close>

definition three :: "x86_inst \<Rightarrow> (nat \<Rightarrow> nat \<Rightarrow> nat \<Rightarrow> u8 list crabbit_result) \<Rightarrow> u8 list crabbit_result" where
  "three i f = sum_bind (parse_gpr Rd i) (\<lambda>rd. sum_bind (parse_gpr Rn i) (\<lambda>rn. sum_bind (parse_gpr Rm i) (\<lambda>rm. f rd rn rm)))"

definition emit_mul :: "nat \<Rightarrow> nat \<Rightarrow> nat \<Rightarrow> u8 list" where
  "emit_mul rd rn rm =
     (let src = (if rd = rn then rm else if rd = rm then rn else rm);
          move = (if rd = rn \<or> rd = rm then [] else emit_mov_rr rd rn)
      in move @ [rex True (8 \<le> rd) False (8 \<le> src), 0x0f, 0xaf, modrm 3 (low3 rd) (low3 src)])"

text \<open>An instruction of the group \<open>f7\<close> on \<open>rax\<close> and \<open>rdx\<close>.\<close>

definition emit_group3 :: "u8 \<Rightarrow> nat \<Rightarrow> u8 list" where
  "emit_group3 ext rm = [rex True False False (8 \<le> rm), 0xf7, modrm 3 ext (low3 rm)]"

definition emit_wide :: "nat \<Rightarrow> nat \<Rightarrow> nat \<Rightarrow> u8 list \<Rightarrow> u8 \<Rightarrow> nat \<Rightarrow> u8 list crabbit_result" where
  "emit_wide rd rn rm prep ext out =
     sum_bind (check_expansion_operands [rd, rn, rm] [RAX, RDX]) (\<lambda>_.
       Inr (emit_mov_rr RAX rn @ prep @ emit_group3 ext rm @ emit_mov_rr rd out))"

definition emit_shift :: "u8 \<Rightarrow> nat \<Rightarrow> nat \<Rightarrow> nat \<Rightarrow> u8 list crabbit_result" where
  "emit_shift ext rd rn rm =
     sum_bind (check_expansion_operands [rd, rn, rm] [RCX]) (\<lambda>_.
       Inr (emit_mov_rr RCX rm @ (if rd \<noteq> rn then emit_mov_rr rd rn else []) @
            [rex True False False (8 \<le> rd), 0xd3, modrm 3 ext (low3 rd)]))"

fun encode_reg_op :: "x86_reg_op \<Rightarrow> x86_inst \<Rightarrow> u8 list crabbit_result" where
  "encode_reg_op X_MovImm i = sum_bind (parse_gpr Rd i) (\<lambda>rd. sum_bind (get_imm i) (\<lambda>imm.
     Inr ([rex True False False (8 \<le> rd), 0xb8 + low3 rd] @ le_bytes 8 (of_nat imm :: u64))))"
| "encode_reg_op X_Mov i = sum_bind (parse_gpr Rd i) (\<lambda>rd. sum_bind (parse_gpr Rm i) (\<lambda>rm. Inr (emit_mov_rr rd rm)))"
| "encode_reg_op X_Add i = three i (\<lambda>rd rn rm. Inr (emit_alu_three 0x01 rd rn rm True))"
| "encode_reg_op X_Sub i = three i (\<lambda>rd rn rm. Inr (emit_alu_three 0x29 rd rn rm False))"
| "encode_reg_op X_And i = three i (\<lambda>rd rn rm. Inr (emit_alu_three 0x21 rd rn rm True))"
| "encode_reg_op X_Or i = three i (\<lambda>rd rn rm. Inr (emit_alu_three 0x09 rd rn rm True))"
| "encode_reg_op X_Xor i = three i (\<lambda>rd rn rm. Inr (emit_alu_three 0x31 rd rn rm True))"
| "encode_reg_op X_Mul i = three i (\<lambda>rd rn rm. Inr (emit_mul rd rn rm))"
| "encode_reg_op X_Umulh i = three i (\<lambda>rd rn rm. emit_wide rd rn rm [] 4 RDX)"
| "encode_reg_op X_Sdiv i = three i (\<lambda>rd rn rm. emit_wide rd rn rm [0x48, 0x99] 7 RAX)"
| "encode_reg_op X_Udiv i = three i (\<lambda>rd rn rm. emit_wide rd rn rm [0x31, 0xd2] 6 RAX)"
| "encode_reg_op X_Shl i = three i (emit_shift 4)"
| "encode_reg_op X_Lsr i = three i (emit_shift 5)"
| "encode_reg_op X_Cmp i = sum_bind (parse_gpr Rn i) (\<lambda>rn. sum_bind (parse_gpr Rm i) (\<lambda>rm.
     Inr [rex True (8 \<le> rm) False (8 \<le> rn), 0x39, modrm 3 (low3 rm) (low3 rn)]))"
| "encode_reg_op X_Cset i = sum_bind (parse_gpr Rd i) (\<lambda>rd. sum_bind (get_cond i) (\<lambda>c.
     Inr [rex False False False (8 \<le> rd), 0x0f, 0x90 + cond_encoding c, modrm 3 0 (low3 rd),
          rex True (8 \<le> rd) False (8 \<le> rd), 0x0f, 0xb6, modrm 3 (low3 rd) (low3 rd)]))"
| "encode_reg_op X_Push i = sum_bind (parse_gpr Rd i) (\<lambda>rt. Inr [rex False False False (8 \<le> rt), 0x50 + low3 rt])"
| "encode_reg_op X_Pop i = sum_bind (parse_gpr Rd i) (\<lambda>rt. Inr [rex False False False (8 \<le> rt), 0x58 + low3 rt])"

text \<open>The operand \<open>[base + disp]\<close> of a memory instruction; \<open>disp32\<close> is read after the registers.\<close>

definition sp_access :: "(nat \<Rightarrow> nat \<Rightarrow> int \<Rightarrow> u8 list) \<Rightarrow> x86_inst \<Rightarrow> u8 list crabbit_result" where
  "sp_access emit i = sum_bind (parse_gpr Rd i) (\<lambda>rd. sum_bind (get_imm i) (\<lambda>imm. sum_bind (disp32 imm) (\<lambda>disp. Inr (emit rd RSP disp))))"

definition reg_access :: "(nat \<Rightarrow> nat \<Rightarrow> int \<Rightarrow> u8 list) \<Rightarrow> x86_inst \<Rightarrow> u8 list crabbit_result" where
  "reg_access emit i = sum_bind (parse_gpr Rd i) (\<lambda>rd. sum_bind (parse_gpr Rn i) (\<lambda>rn.
     sum_bind (get_imm i) (\<lambda>imm. sum_bind (disp32 imm) (\<lambda>disp. Inr (emit rd rn disp)))))"

fun encode_mem_op :: "x86_mem_op \<Rightarrow> x86_inst \<Rightarrow> u8 list crabbit_result" where
  "encode_mem_op X_SubSpImm i = sum_bind (get_imm i) (\<lambda>imm. sum_bind (disp32 imm) (\<lambda>disp. Inr ([0x48, 0x81, 0xec] @ i32_bytes disp)))"
| "encode_mem_op X_AddSpImm i = sum_bind (get_imm i) (\<lambda>imm. sum_bind (disp32 imm) (\<lambda>disp. Inr ([0x48, 0x81, 0xc4] @ i32_bytes disp)))"
| "encode_mem_op X_AddSpOffset i =
     sp_access (\<lambda>rd base disp. [rex True (8 \<le> rd) False False, 0x8d] @ emit_mem_operand rd base disp) i"
| "encode_mem_op X_StrSpOffset i = sp_access (emit_store 8) i"
| "encode_mem_op X_LdrSpOffset i = sp_access (emit_load 8) i"
| "encode_mem_op X_StrwSpOffset i = sp_access (emit_store 4) i"
| "encode_mem_op X_LdrwSpOffset i = sp_access (emit_load 4) i"
| "encode_mem_op X_StrhSpOffset i = sp_access (emit_store 2) i"
| "encode_mem_op X_LdrhSpOffset i = sp_access (emit_load 2) i"
| "encode_mem_op X_StrbSpOffset i = sp_access (emit_store 1) i"
| "encode_mem_op X_LdrbSpOffset i = sp_access (emit_load 1) i"
| "encode_mem_op X_LdrStackArg i = sum_bind (parse_gpr Rd i) (\<lambda>rd. sum_bind (get_imm i) (\<lambda>imm.
     sum_bind (disp32 ((imm + 8) mod 2 ^ 64)) (\<lambda>disp. Inr (emit_load 8 rd RSP disp))))"
| "encode_mem_op X_StrRegOffset i = reg_access (emit_store 8) i"
| "encode_mem_op X_LdrRegOffset i = reg_access (emit_load 8) i"
| "encode_mem_op X_StrwRegOffset i = reg_access (emit_store 4) i"
| "encode_mem_op X_LdrwRegOffset i = reg_access (emit_load 4) i"
| "encode_mem_op X_StrhRegOffset i = reg_access (emit_store 2) i"
| "encode_mem_op X_LdrhRegOffset i = reg_access (emit_load 2) i"
| "encode_mem_op X_StrbRegOffset i = reg_access (emit_store 1) i"
| "encode_mem_op X_LdrbRegOffset i = reg_access (emit_load 1) i"

definition plain :: "u8 list crabbit_result \<Rightarrow> binary_encoding crabbit_result" where
  "plain r = sum_bind r (\<lambda>bytes. Inr \<lparr>be_bytes = bytes, be_fixups = []\<rparr>)"

definition encode_call :: "string \<Rightarrow> nat \<Rightarrow> serialization_context option \<Rightarrow> binary_encoding crabbit_result" where
  "encode_call callee pc refs =
     (case (case refs of Some refs \<Rightarrow> function_offsets refs callee | None \<Rightarrow> Some 0) of
        Some tgt \<Rightarrow> sum_bind (rel32 tgt pc 5) (\<lambda>rel. Inr \<lparr>be_bytes = 0xe8 # i32_bytes rel, be_fixups = []\<rparr>)
      | None \<Rightarrow> Inr \<lparr>be_bytes = 0xe8 # i32_bytes 0,
          be_fixups = [\<lparr>fx_offset = of_nat pc + 1, fx_symbol = callee, fx_kind = Branch32\<rparr>]\<rparr>)"

fun encode_ctl_op :: "x86_ctl_op \<Rightarrow> x86_inst \<Rightarrow> nat \<Rightarrow> serialization_context option \<Rightarrow> binary_encoding crabbit_result option" where
  "encode_ctl_op X_AdrLiteral i pc refs = (case parse_gpr Rd i of Inl e \<Rightarrow> Some (Inl e) | Inr rd \<Rightarrow>
     map_option (\<lambda>label. plain (sum_bind (resolve (map_option literal_offsets refs) label) (\<lambda>tgt. emit_lea_rip rd tgt pc))) (x_label i))"
| "encode_ctl_op X_AdrFunction i pc refs = (case parse_gpr Rd i of Inl e \<Rightarrow> Some (Inl e) | Inr rd \<Rightarrow>
     map_option (\<lambda>symbol. plain (sum_bind (resolve (map_option function_offsets refs) symbol) (\<lambda>tgt. emit_lea_rip rd tgt pc))) (x_callee i))"
| "encode_ctl_op X_Ret i pc refs = Some (plain (Inr [0xc3]))"
| "encode_ctl_op X_Ud2 i pc refs = Some (plain (Inr [0x0f, 0x0b]))"
| "encode_ctl_op X_Call i pc refs = map_option (\<lambda>callee. encode_call callee pc refs) (x_callee i)"
| "encode_ctl_op X_CallReg i pc refs =
     Some (plain (sum_bind (parse_gpr Rn i) (\<lambda>rn. Inr [rex False False False (8 \<le> rn), 0xff, modrm 3 2 (low3 rn)])))"
| "encode_ctl_op X_Jmp i pc refs =
     Some (plain (sum_bind (branch_target i refs) (\<lambda>tgt. sum_bind (rel32 tgt pc 5) (\<lambda>rel. Inr (0xe9 # i32_bytes rel)))))"
| "encode_ctl_op X_Jcc i pc refs =
     Some (plain (sum_bind (branch_target i refs) (\<lambda>tgt. sum_bind (get_cond i) (\<lambda>c. sum_bind (rel32 tgt pc 6) (\<lambda>rel.
       Inr ([0x0f, 0x80 + cond_encoding c] @ i32_bytes rel))))))"
| "encode_ctl_op X_TestJnz i pc refs =
     Some (plain (sum_bind (parse_gpr Rn i) (\<lambda>rn. sum_bind (branch_target i refs) (\<lambda>tgt. sum_bind (rel32 tgt pc 9) (\<lambda>rel.
       Inr ([rex True (8 \<le> rn) False (8 \<le> rn), 0x85, modrm 3 (low3 rn) (low3 rn), 0x0f, 0x85] @ i32_bytes rel))))))"

definition encode_inst :: "x86_opcode \<Rightarrow> x86_inst \<Rightarrow> nat \<Rightarrow> serialization_context option \<Rightarrow> binary_encoding crabbit_result option" where
  "encode_inst opcode i pc refs = (case opcode of
     RegOp x \<Rightarrow> Some (plain (encode_reg_op x i))
   | MemOp x \<Rightarrow> Some (plain (encode_mem_op x i))
   | CtlOp x \<Rightarrow> encode_ctl_op x i pc refs)"

text \<open>The length of an instruction; an instruction that cannot be encoded is a panic.\<close>

definition inst_len :: "x86_opcode \<Rightarrow> x86_inst \<Rightarrow> nat option" where
  "inst_len opcode i = (case encode_inst opcode i 0 None of Some (Inr e) \<Rightarrow> Some (length (be_bytes e)) | _ \<Rightarrow> None)"

definition literal_for_inst :: "x86_opcode \<Rightarrow> x86_inst \<Rightarrow> u8 list option \<Rightarrow> (string \<times> u8 list) option" where
  "literal_for_inst opcode i bytes =
     (if opcode = CtlOp X_AdrLiteral then
        Option.bind (x_label i) (\<lambda>label. map_option (Pair label) bytes)
      else None)"

lemma length_le_i32_bytes [simp]: "length (le_bytes n w) = n" "length (i32_bytes v) = 4"
  by (simp_all add: le_bytes_def i32_bytes_def)

text \<open>
  Sizes do not depend on where anything is: an instruction that is encoded at some place against the tables of a
  module is also sized without a panic, and as many bytes as it has in the end.
\<close>

lemma x86_encoded_length:
  assumes "encode_inst opcode i pc (Some refs) = Some (Inr e)"
  shows "inst_len opcode i = Some (length (be_bytes e))"
proof (cases opcode)
  case (CtlOp x)
  then show ?thesis using assms
    by (cases x) (auto simp: encode_inst_def inst_len_def plain_def encode_call_def emit_lea_rip_def rel32_def resolve_def branch_target_def
        split: sum.splits option.splits if_splits)
qed (use assms in \<open>auto simp: encode_inst_def inst_len_def\<close>)

end
