(* ===== verification/X86_Machine.thy ===== *)
theory X86_Machine
  imports X86_Encode "HOL-Library.Signed_Division"
begin

text \<open>
  What the processor does with the bytes the encoder writes: a decoder and an interpreter for the part of the x86-64 instruction
  set in use, after the architecture manual.  They are the specification the encoder is verified against; flags that the
  architecture leaves undefined are given by a function \<open>und\<close> of which nothing is assumed.
\<close>

subsection \<open>Instructions\<close>

datatype alu = ADD | OR' | AND' | SUB | XOR' | CMP

datatype insn =
    I_MovImm nat u64 | I_Mov nat nat | I_Alu alu nat nat | I_Xor32 nat nat | I_Neg nat | I_Imul nat nat
  | I_Mul nat | I_Div nat | I_Idiv nat | I_Cqo | I_ShlCl nat | I_ShrCl nat | I_Test nat nat
  | I_Setcc u8 nat | I_Movzx nat nat | I_Push nat | I_Pop nat | I_AddImm nat u64 | I_SubImm nat u64
  | I_Lea nat nat u64 | I_LeaRip nat u64 | I_Store nat nat nat u64 | I_Load nat nat nat u64
  | I_Ret | I_Ud2 | I_Call u64 | I_CallReg nat | I_Jmp u64 | I_Jcc u8 u64

text \<open>A little-endian number; a 32-bit displacement or immediate is sign-extended.\<close>

fun le_number :: "u8 list \<Rightarrow> nat" where
  "le_number [] = 0"
| "le_number (b # bs) = unat b + 256 * le_number bs"

definition read_i32 :: "u8 list \<Rightarrow> (u64 \<times> u8 list) option" where
  "read_i32 bs = (if length bs < 4 then None else Some (scast (of_nat (le_number (take 4 bs)) :: u32), drop 4 bs))"

definition reg_field :: "u8 \<Rightarrow> u8 \<Rightarrow> nat" where
  "reg_field rx m = unat (drop_bit 3 m AND 7) + (if bit rx 2 then 8 else 0)"

definition rm_field :: "u8 \<Rightarrow> u8 \<Rightarrow> nat" where
  "rm_field rx m = unat (m AND 7) + (if bit rx 0 then 8 else 0)"

text \<open>An operand \<open>[base + disp32]\<close>: the base of \<open>r12\<close> and \<open>rsp\<close> is in a SIB byte, here always without an index.\<close>

definition decode_mem :: "u8 \<Rightarrow> u8 \<Rightarrow> u8 list \<Rightarrow> (nat \<times> u64 \<times> u8 list) option" where
  "decode_mem rx m bs =
     (if drop_bit 6 m \<noteq> 2 then None
      else if m AND 7 = 4 then
        (case bs of [] \<Rightarrow> None | sib # bs \<Rightarrow>
           if sib = 0x24 \<and> \<not> bit rx 1 then map_option (\<lambda>(d, rest). (rm_field rx sib, d, rest)) (read_i32 bs) else None)
      else map_option (\<lambda>(d, rest). (rm_field rx m, d, rest)) (read_i32 bs))"

text \<open>The instructions whose operands are both registers, by opcode, with the operands \<open>reg\<close> and \<open>rm\<close>.\<close>

definition decode_rr :: "u8 \<Rightarrow> nat \<Rightarrow> nat \<Rightarrow> insn option" where
  "decode_rr opcode reg rm =
     (if opcode = 0x89 then Some (I_Mov rm reg) else if opcode = 0x01 then Some (I_Alu ADD rm reg)
      else if opcode = 0x09 then Some (I_Alu OR' rm reg) else if opcode = 0x21 then Some (I_Alu AND' rm reg)
      else if opcode = 0x29 then Some (I_Alu SUB rm reg) else if opcode = 0x31 then Some (I_Alu XOR' rm reg)
      else if opcode = 0x39 then Some (I_Alu CMP rm reg) else if opcode = 0x85 then Some (I_Test rm reg)
      else None)"

text \<open>The groups \<open>f7\<close> and \<open>d3\<close>, where the field \<open>reg\<close> is part of the opcode.\<close>

definition decode_ext :: "u8 \<Rightarrow> u8 \<Rightarrow> nat \<Rightarrow> insn option" where
  "decode_ext opcode ext rm =
     (if opcode = 0xf7 then
        (if ext = 3 then Some (I_Neg rm) else if ext = 4 then Some (I_Mul rm) else if ext = 6 then Some (I_Div rm)
         else if ext = 7 then Some (I_Idiv rm) else None)
      else if opcode = 0xd3 then (if ext = 4 then Some (I_ShlCl rm) else if ext = 5 then Some (I_ShrCl rm) else None)
      else None)"

definition decode_0f :: "u8 option \<Rightarrow> u8 list \<Rightarrow> (insn \<times> u8 list) option" where
  "decode_0f rx bs = (case bs of
     [] \<Rightarrow> None
   | opcode # bs \<Rightarrow>
       if opcode = 0x0b then Some (I_Ud2, bs)
       else if opcode AND 0xf0 = 0x80 then map_option (\<lambda>(d, rest). (I_Jcc (opcode AND 0xf) d, rest)) (read_i32 bs)
       else case (rx, bs) of
         (Some rx, m # rest) \<Rightarrow>
           if opcode AND 0xf0 = 0x90 \<and> drop_bit 6 m = 3 then Some (I_Setcc (opcode AND 0xf) (rm_field rx m), rest)
           else if opcode = 0xaf \<and> drop_bit 6 m = 3 \<and> bit rx 3 then Some (I_Imul (reg_field rx m) (rm_field rx m), rest)
           else if opcode = 0xb6 \<and> drop_bit 6 m = 3 \<and> bit rx 3 then Some (I_Movzx (reg_field rx m) (rm_field rx m), rest)
           else if opcode = 0xb6 \<and> bit rx 3 then
             map_option (\<lambda>(base, d, rest). (I_Load 1 (reg_field rx m) base d, rest)) (decode_mem rx m rest)
           else if opcode = 0xb7 \<and> bit rx 3 then
             map_option (\<lambda>(base, d, rest). (I_Load 2 (reg_field rx m) base d, rest)) (decode_mem rx m rest)
           else None
       | _ \<Rightarrow> None)"

text \<open>After a REX prefix \<open>rx\<close>; \<open>p16\<close>: an operand size prefix came before.\<close>

definition decode_rex :: "bool \<Rightarrow> u8 \<Rightarrow> u8 list \<Rightarrow> (insn \<times> u8 list) option" where
  "decode_rex p16 rx bs = (case bs of
     [] \<Rightarrow> None
   | opcode # bs \<Rightarrow>
       if opcode = 0x0f then decode_0f (Some rx) bs
       else if opcode = 0x99 then (if bit rx 3 then Some (I_Cqo, bs) else None)
       else if opcode AND 0xf8 = 0xb8 then
         (if bit rx 3 \<and> 8 \<le> length bs then Some (I_MovImm (rm_field rx opcode) (of_nat (le_number (take 8 bs))), drop 8 bs) else None)
       else if opcode AND 0xf8 = 0x50 then Some (I_Push (rm_field rx opcode), bs)
       else if opcode AND 0xf8 = 0x58 then Some (I_Pop (rm_field rx opcode), bs)
       else case bs of
         [] \<Rightarrow> None
       | m # rest \<Rightarrow>
           if drop_bit 6 m = 3 then
             (if opcode = 0xff then (if drop_bit 3 m AND 7 = 2 then Some (I_CallReg (rm_field rx m), rest) else None)
              else if \<not> bit rx 3 then None
              else if opcode = 0x81 then
                (if drop_bit 3 m AND 7 = 0 then map_option (\<lambda>(d, rest). (I_AddImm (rm_field rx m) d, rest)) (read_i32 rest)
                 else if drop_bit 3 m AND 7 = 5 then map_option (\<lambda>(d, rest). (I_SubImm (rm_field rx m) d, rest)) (read_i32 rest)
                 else None)
              else case decode_rr opcode (reg_field rx m) (rm_field rx m) of
                Some i \<Rightarrow> Some (i, rest)
              | None \<Rightarrow> map_option (\<lambda>i. (i, rest)) (decode_ext opcode (drop_bit 3 m AND 7) (rm_field rx m)))
           else if opcode = 0x8d \<and> drop_bit 6 m = 0 \<and> m AND 7 = 5 \<and> bit rx 3 then
             map_option (\<lambda>(d, rest). (I_LeaRip (reg_field rx m) d, rest)) (read_i32 rest)
           else case decode_mem rx m rest of
             None \<Rightarrow> None
           | Some (base, d, rest) \<Rightarrow>
               if opcode = 0x8d \<and> bit rx 3 then Some (I_Lea (reg_field rx m) base d, rest)
               else if opcode = 0x88 then Some (I_Store 1 (reg_field rx m) base d, rest)
               else if opcode = 0x89 then Some (I_Store (if bit rx 3 then 8 else if p16 then 2 else 4) (reg_field rx m) base d, rest)
               else if opcode = 0x8b \<and> \<not> p16 then Some (I_Load (if bit rx 3 then 8 else 4) (reg_field rx m) base d, rest)
               else None)"

definition decode_plain :: "u8 list \<Rightarrow> (insn \<times> u8 list) option" where
  "decode_plain bs = (case bs of
     [] \<Rightarrow> None
   | opcode # bs \<Rightarrow>
       if opcode = 0x0f then decode_0f None bs
       else if opcode = 0xc3 then Some (I_Ret, bs)
       else if opcode = 0xe8 then map_option (\<lambda>(d, rest). (I_Call d, rest)) (read_i32 bs)
       else if opcode = 0xe9 then map_option (\<lambda>(d, rest). (I_Jmp d, rest)) (read_i32 bs)
       else if opcode = 0x31 then
         (case bs of m # rest \<Rightarrow> if drop_bit 6 m = 3 then Some (I_Xor32 (rm_field 0 m) (reg_field 0 m), rest) else None | [] \<Rightarrow> None)
       else None)"

definition decode :: "u8 list \<Rightarrow> (insn \<times> u8 list) option" where
  "decode bs = (case bs of
     [] \<Rightarrow> None
   | b # rest \<Rightarrow>
       if b AND 0xf0 = 0x40 then decode_rex False b rest
       else if b = 0x66 then
         (case rest of rx # rest \<Rightarrow> if rx AND 0xf0 = 0x40 then decode_rex True rx rest else None | [] \<Rightarrow> None)
       else decode_plain bs)"

subsection \<open>Execution\<close>

record x86_state =
  st_regs :: "nat \<Rightarrow> u64"
  st_flags :: rflags
  st_mem :: "u64 \<Rightarrow> u8"
  st_rip :: u64

definition parity :: "u64 \<Rightarrow> bool" where
  "parity v = even (length (filter (bit v) [0..<8]))"

definition result_flags :: "u64 \<Rightarrow> bool \<Rightarrow> bool \<Rightarrow> rflags" where
  "result_flags v carry overflow = \<lparr>fl_o = overflow, fl_s = v <s 0, fl_z = v = 0, fl_p = parity v, fl_c = carry\<rparr>"

text \<open>The flags of \<open>a - b\<close>.\<close>

definition sub_flags :: "u64 \<Rightarrow> u64 \<Rightarrow> rflags" where
  "sub_flags a b = result_flags (a - b) (a < b) (sint (a - b) \<noteq> sint a - sint b)"

definition add_flags :: "u64 \<Rightarrow> u64 \<Rightarrow> rflags" where
  "add_flags a b = result_flags (a + b) (a + b < a) (sint (a + b) \<noteq> sint a + sint b)"

primrec alu_value :: "alu \<Rightarrow> u64 \<Rightarrow> u64 \<Rightarrow> u64" where
  "alu_value ADD a b = a + b"
| "alu_value OR' a b = a OR b"
| "alu_value AND' a b = a AND b"
| "alu_value SUB a b = a - b"
| "alu_value XOR' a b = a XOR b"
| "alu_value CMP a b = a"

primrec alu_flags :: "alu \<Rightarrow> u64 \<Rightarrow> u64 \<Rightarrow> rflags" where
  "alu_flags ADD a b = add_flags a b"
| "alu_flags OR' a b = result_flags (a OR b) False False"
| "alu_flags AND' a b = result_flags (a AND b) False False"
| "alu_flags SUB a b = sub_flags a b"
| "alu_flags XOR' a b = result_flags (a XOR b) False False"
| "alu_flags CMP a b = sub_flags a b"

definition load :: "(u64 \<Rightarrow> u8) \<Rightarrow> nat \<Rightarrow> u64 \<Rightarrow> u64" where
  "load mem n a = of_nat (le_number (map (\<lambda>k. mem (a + of_nat k)) [0..<n]))"

fun store_bytes :: "(u64 \<Rightarrow> u8) \<Rightarrow> u64 \<Rightarrow> u8 list \<Rightarrow> u64 \<Rightarrow> u8" where
  "store_bytes mem a [] = mem"
| "store_bytes mem a (b # bs) = store_bytes (mem(a := b)) (a + 1) bs"

definition set_reg :: "nat \<Rightarrow> u64 \<Rightarrow> x86_state \<Rightarrow> x86_state" where
  "set_reg r v s = s\<lparr>st_regs := (st_regs s)(r := v)\<rparr>"

definition rdx_rax :: "x86_state \<Rightarrow> nat" where
  "rdx_rax s = unat (st_regs s 2) * 2 ^ 64 + unat (st_regs s 0)"

text \<open>The signed number in \<open>rdx:rax\<close>, and the quotients of a division; \<open>None\<close> is a divide error.\<close>

definition signed_rdx_rax :: "x86_state \<Rightarrow> int" where
  "signed_rdx_rax s = sint (st_regs s 2) * 2 ^ 64 + uint (st_regs s 0)"

definition div_result :: "x86_state \<Rightarrow> u64 \<Rightarrow> (u64 \<times> u64) option" where
  "div_result s b =
     (let q = rdx_rax s div unat b in
      if b = 0 \<or> 2 ^ 64 \<le> q then None else Some (of_nat q, of_nat (rdx_rax s mod unat b)))"

definition idiv_result :: "x86_state \<Rightarrow> u64 \<Rightarrow> (u64 \<times> u64) option" where
  "idiv_result s b =
     (let q = signed_rdx_rax s sdiv sint b in
      if b = 0 \<or> q < - (2 ^ 63) \<or> 2 ^ 63 \<le> q then None else Some (of_int q, of_int (signed_rdx_rax s smod sint b)))"

definition set_rdx_rax :: "u64 \<Rightarrow> u64 \<Rightarrow> x86_state \<Rightarrow> x86_state" where
  "set_rdx_rax hi lo s = set_reg 2 hi (set_reg 0 lo s)"

definition push_value :: "u64 \<Rightarrow> x86_state \<Rightarrow> x86_state" where
  "push_value v s = (let sp = st_regs s 4 - 8 in (set_reg 4 sp s)\<lparr>st_mem := store_bytes (st_mem s) sp (le_bytes 8 v)\<rparr>)"

text \<open>One instruction; \<open>st_rip\<close> is already that of the next one.  \<open>None\<close> is a fault.\<close>

fun exec :: "(insn \<Rightarrow> x86_state \<Rightarrow> rflags) \<Rightarrow> insn \<Rightarrow> x86_state \<Rightarrow> x86_state option" where
  "exec und (I_MovImm r v) s = Some (set_reg r v s)"
| "exec und (I_Mov d r) s = Some (set_reg d (st_regs s r) s)"
| "exec und (I_Alu f d r) s =
     Some ((set_reg d (alu_value f (st_regs s d) (st_regs s r)) s)\<lparr>st_flags := alu_flags f (st_regs s d) (st_regs s r)\<rparr>)"
| "exec und (I_Xor32 d r) s =
     (let v = take_bit 32 (st_regs s d XOR st_regs s r) in
      Some ((set_reg d v s)\<lparr>st_flags := (result_flags v False False)\<lparr>fl_s := bit v 31\<rparr>\<rparr>))"
| "exec und (I_Neg r) s = Some ((set_reg r (- st_regs s r) s)\<lparr>st_flags := sub_flags 0 (st_regs s r)\<rparr>)"
| "exec und (I_Imul d r) s = Some ((set_reg d (st_regs s d * st_regs s r) s)\<lparr>st_flags := und (I_Imul d r) s\<rparr>)"
| "exec und (I_Mul r) s =
     (let p = unat (st_regs s 0) * unat (st_regs s r) in
      Some ((set_rdx_rax (of_nat (p div 2 ^ 64)) (of_nat p) s)\<lparr>st_flags := und (I_Mul r) s\<rparr>))"
| "exec und (I_Div r) s =
     map_option (\<lambda>(q, rem). (set_rdx_rax rem q s)\<lparr>st_flags := und (I_Div r) s\<rparr>) (div_result s (st_regs s r))"
| "exec und (I_Idiv r) s =
     map_option (\<lambda>(q, rem). (set_rdx_rax rem q s)\<lparr>st_flags := und (I_Idiv r) s\<rparr>) (idiv_result s (st_regs s r))"
| "exec und I_Cqo s = Some (set_reg 2 (if st_regs s 0 <s 0 then - 1 else 0) s)"
| "exec und (I_ShlCl r) s =
     Some ((set_reg r (push_bit (unat (st_regs s 1 AND 63)) (st_regs s r)) s)\<lparr>st_flags := und (I_ShlCl r) s\<rparr>)"
| "exec und (I_ShrCl r) s =
     Some ((set_reg r (drop_bit (unat (st_regs s 1 AND 63)) (st_regs s r)) s)\<lparr>st_flags := und (I_ShrCl r) s\<rparr>)"
| "exec und (I_Test a b) s = Some (s\<lparr>st_flags := result_flags (st_regs s a AND st_regs s b) False False\<rparr>)"
| "exec und (I_Setcc cc r) s =
     Some (set_reg r (push_bit 8 (drop_bit 8 (st_regs s r)) OR of_bool (cc_holds (st_flags s) cc)) s)"
| "exec und (I_Movzx d r) s = Some (set_reg d (take_bit 8 (st_regs s r)) s)"
| "exec und (I_Push r) s = Some (push_value (st_regs s r) s)"
| "exec und (I_Pop r) s = Some (set_reg r (load (st_mem s) 8 (st_regs s 4)) (set_reg 4 (st_regs s 4 + 8) s))"
| "exec und (I_AddImm r v) s = Some ((set_reg r (st_regs s r + v) s)\<lparr>st_flags := add_flags (st_regs s r) v\<rparr>)"
| "exec und (I_SubImm r v) s = Some ((set_reg r (st_regs s r - v) s)\<lparr>st_flags := sub_flags (st_regs s r) v\<rparr>)"
| "exec und (I_Lea r base d) s = Some (set_reg r (st_regs s base + d) s)"
| "exec und (I_LeaRip r d) s = Some (set_reg r (st_rip s + d) s)"
| "exec und (I_Store n r base d) s = Some (s\<lparr>st_mem := store_bytes (st_mem s) (st_regs s base + d) (le_bytes n (st_regs s r))\<rparr>)"
| "exec und (I_Load n r base d) s = Some (set_reg r (load (st_mem s) n (st_regs s base + d)) s)"
| "exec und I_Ret s = Some ((set_reg 4 (st_regs s 4 + 8) s)\<lparr>st_rip := load (st_mem s) 8 (st_regs s 4)\<rparr>)"
| "exec und I_Ud2 s = None"
| "exec und (I_Call d) s = Some ((push_value (st_rip s) s)\<lparr>st_rip := st_rip s + d\<rparr>)"
| "exec und (I_CallReg r) s = Some ((push_value (st_rip s) s)\<lparr>st_rip := st_regs s r\<rparr>)"
| "exec und (I_Jmp d) s = Some (s\<lparr>st_rip := st_rip s + d\<rparr>)"
| "exec und (I_Jcc cc d) s = Some (if cc_holds (st_flags s) cc then s\<lparr>st_rip := st_rip s + d\<rparr> else s)"

text \<open>The bytes of a few instructions, one after the other.\<close>

function run :: "(insn \<Rightarrow> x86_state \<Rightarrow> rflags) \<Rightarrow> u8 list \<Rightarrow> x86_state \<Rightarrow> x86_state option" where
  "run und bs s =
     (if bs = [] then Some s
      else case decode bs of
        None \<Rightarrow> None
      | Some (i, rest) \<Rightarrow>
          if length rest < length bs then
            Option.bind (exec und i (s\<lparr>st_rip := st_rip s + of_nat (length bs - length rest)\<rparr>)) (run und rest)
          else None)"
  by pat_completeness auto

termination by (relation "measure (\<lambda>(und, bs, s). length bs)") auto

declare run.simps [simp del]

end
