(* ===== verification/X86_Encode_Correct.thy ===== *)
theory X86_Encode_Correct
  imports X86_Machine
begin

text \<open>
  The bytes the encoder writes for an instruction do, on the processor, what the three-address instruction means.
\<close>

subsection \<open>Fields\<close>

lemma rex_simps [simp]:
  "rex w r x b AND 0xf0 = 0x40" "bit (rex w r x b) 3 = w" "bit (rex w r x b) 2 = r"
  "bit (rex w r x b) (Suc 0) = x" "bit (rex w r x b) 0 = b" "rex w r x b \<noteq> 0x66"
  by (cases w; cases r; cases x; cases b; simp add: rex_def)+

lemma low3_and [simp]: "low3 n AND 7 = low3 n"
  by (simp add: low3_def)

lemma unat_low3 [simp]: "unat (low3 n) = n mod 8"
proof -
  have "low3 n = take_bit 3 (of_nat n)" by (simp add: low3_def take_bit_eq_mask mask_eq_exp_minus_1)
  then have "unat (low3 n) = take_bit 3 (take_bit 8 n)" by (simp add: unsigned_take_bit_eq unsigned_of_nat)
  then show ?thesis by (simp add: take_bit_eq_mod mod_mod_cancel)
qed

lemma field3_cases: "y AND 7 = y \<Longrightarrow> y \<in> {0, 1, 2, 3, 4, 5, 6, 7 :: u8}"
proof -
  assume "y AND 7 = y"
  then have "y = low3 (unat y)" by (simp add: low3_def)
  then have "unat y < 8" by (metis unat_low3 mod_less_divisor zero_less_numeral)
  moreover have "y = of_nat (unat y)" by simp
  ultimately obtain k where "k < 8" "y = of_nat k" by blast
  moreover have "k \<in> {0, 1, 2, 3, 4, 5, 6, 7}" if "k < 8" for k :: nat using that by auto
  ultimately show ?thesis by fastforce
qed

lemma modrm_fields:
  assumes "md AND 3 = md" "x AND 7 = x" "y AND 7 = y"
  shows "drop_bit 6 (modrm md x y) = md" "drop_bit 3 (modrm md x y) AND 7 = x" "modrm md x y AND 7 = y"
proof -
  have m: "v AND 3 = take_bit 2 v" "v AND 7 = take_bit 3 v" for v :: u8 by (simp_all add: take_bit_eq_mask mask_eq_exp_minus_1)
  have e: "modrm md x y = push_bit 6 (take_bit 2 md) OR push_bit 3 (take_bit 3 x) OR take_bit 3 y"
    unfolding modrm_def by (metis assms m)
  have "drop_bit 6 (modrm md x y) = take_bit 2 md" "take_bit 3 (drop_bit 3 (modrm md x y)) = take_bit 3 x"
    "take_bit 3 (modrm md x y) = take_bit 3 y"
    unfolding e by (rule bit_word_eqI; auto simp: bit_simps)+
  then show "drop_bit 6 (modrm md x y) = md" "drop_bit 3 (modrm md x y) AND 7 = x" "modrm md x y AND 7 = y"
    using assms by (simp_all add: m)
qed

lemma gpr_number: "n < 16 \<Longrightarrow> n mod 8 + (if 8 \<le> n then 8 else 0) = n" for n :: nat
  by presburger

lemma modrm_reg_fields:
  assumes "md AND 3 = md"
  shows "\<lbrakk>a < 16; y AND 7 = y\<rbrakk> \<Longrightarrow> reg_field (rex w (8 \<le> a) x r) (modrm md (low3 a) y) = a"
    and "\<lbrakk>b < 16; z AND 7 = z\<rbrakk> \<Longrightarrow> rm_field (rex w v x (8 \<le> b)) (modrm md z (low3 b)) = b"
  using assms gpr_number[of a] gpr_number[of b] by (simp_all add: reg_field_def rm_field_def modrm_fields)

lemma opcode_register:
  assumes "b < 16"
  shows "rm_field (rex w v x (8 \<le> b)) (0xb8 + low3 b) = b" "rm_field (rex w v x (8 \<le> b)) (0x50 + low3 b) = b"
    "rm_field (rex w v x (8 \<le> b)) (0x58 + low3 b) = b"
    "(0xb8 + low3 b) AND 0xf8 = 0xb8" "(0x50 + low3 b) AND 0xf8 = 0x50" "(0x58 + low3 b) AND 0xf8 = 0x58"
    "0xb8 + low3 b \<noteq> 0x0f" "0xb8 + low3 b \<noteq> 0x99" "0x50 + low3 b \<noteq> 0x0f" "0x50 + low3 b \<noteq> 0x99" "0x58 + low3 b \<noteq> 0x0f" "0x58 + low3 b \<noteq> 0x99"
proof -
  have c: "low3 b \<in> {0, 1, 2, 3, 4, 5, 6, 7}" by (rule field3_cases) simp
  have f: "(0xb8 + low3 b) AND 7 = low3 b" "(0x50 + low3 b) AND 7 = low3 b" "(0x58 + low3 b) AND 7 = low3 b" using c by auto
  show "rm_field (rex w v x (8 \<le> b)) (0xb8 + low3 b) = b" "rm_field (rex w v x (8 \<le> b)) (0x50 + low3 b) = b"
    "rm_field (rex w v x (8 \<le> b)) (0x58 + low3 b) = b"
    using gpr_number[OF assms] by (simp_all add: rm_field_def f)
  show "(0xb8 + low3 b) AND 0xf8 = 0xb8" "(0x50 + low3 b) AND 0xf8 = 0x50" "(0x58 + low3 b) AND 0xf8 = 0x58"
    "0xb8 + low3 b \<noteq> 0x0f" "0xb8 + low3 b \<noteq> 0x99" "0x50 + low3 b \<noteq> 0x0f" "0x50 + low3 b \<noteq> 0x99" "0x58 + low3 b \<noteq> 0x0f" "0x58 + low3 b \<noteq> 0x99"
    using c by auto
qed

text \<open>Little-endian numbers.\<close>

lemma le_bytes_Suc: "le_bytes (Suc n) v = ucast v # le_bytes n (drop_bit 8 v)"
proof -
  have "map (\<lambda>k. ucast (drop_bit (8 * k) v)) [0..<Suc n] = ucast v # map (\<lambda>k. ucast (drop_bit (8 * Suc k) v)) [0..<n]"
    by (subst map_upt_Suc) simp
  then show ?thesis by (simp add: le_bytes_def drop_bit_drop_bit algebra_simps)
qed

lemma le_number_bytes: "le_number (le_bytes n v) = unat v mod 2 ^ (8 * n)"
proof (induction n arbitrary: v)
  case (Suc n)
  have "unat (ucast v :: u8) = unat v mod 256" by (simp add: unsigned_ucast_eq take_bit_eq_mod)
  moreover have "unat (drop_bit 8 v) = unat v div 256" by (simp only: unsigned_drop_bit_eq take_bit_nat_eq_self[OF unsigned_less]) (simp add: drop_bit_eq_div)
  moreover have "unat v mod 2 ^ (8 * Suc n) = 256 * (unat v div 256 mod 2 ^ (8 * n)) + unat v mod 256"
    using mod_mult2_eq[of "unat v" 256 "2 ^ (8 * n)"] by (simp add: power_add)
  ultimately show ?case using Suc by (simp add: le_bytes_Suc)
qed (simp add: le_bytes_def)

lemma le_number_full:
  fixes v :: "'a :: len word"
  assumes "LENGTH('a) = 8 * n"
  shows "le_number (le_bytes n v) = unat v"
proof -
  have "unat v < 2 ^ (8 * n)" unfolding assms[symmetric] by (rule unsigned_less)
  then show ?thesis by (simp add: le_number_bytes)
qed

lemma read_i32_bytes:
  assumes "- (2 ^ 31) \<le> d" "d < 2 ^ 31"
  shows "read_i32 (i32_bytes d @ rest) = Some (of_int d, rest)"
proof -
  have "of_nat (le_number (i32_bytes d)) = (of_int d :: u32)" by (simp add: i32_bytes_def le_number_full)
  moreover have "scast (of_int d :: u32) = (of_int d :: u64)" using assms by (simp add: signed_of_int signed_take_bit_int_eq_self)
  ultimately show ?thesis by (simp add: read_i32_def)
qed

subsection \<open>Decoding what was emitted\<close>

lemma decode_rex_prefix: "decode (rex w r x b # rest) = decode_rex False (rex w r x b) rest"
  by (simp add: decode_def)

lemma decode_after_rex:
  assumes "opcode \<notin> {0x0f, 0x99}" "opcode AND 0xf8 \<notin> {0xb8, 0x50, 0x58}"
  shows "decode_rex p16 rx (opcode # m # rest) =
    (if drop_bit 6 m = 3 then
       (if opcode = 0xff then (if drop_bit 3 m AND 7 = 2 then Some (I_CallReg (rm_field rx m), rest) else None)
        else if \<not> bit rx 3 then None
        else if opcode = 0x81 then
          (if drop_bit 3 m AND 7 = 0 then map_option (\<lambda>(d, rest). (I_AddImm (rm_field rx m) d, rest)) (read_i32 rest)
           else if drop_bit 3 m AND 7 = 5 then map_option (\<lambda>(d, rest). (I_SubImm (rm_field rx m) d, rest)) (read_i32 rest)
           else None)
        else case decode_rr opcode (reg_field rx m) (rm_field rx m) of
          Some i \<Rightarrow> Some (i, rest)
        | None \<Rightarrow> map_option (\<lambda>i. (i, rest)) (decode_ext opcode (drop_bit 3 m AND 7) (rm_field rx m)))
     else if opcode = 0x8d \<and> drop_bit 6 m = 0 \<and> m AND 7 = 5 \<and> bit rx 3 then
       map_option (\<lambda>(d, rest). (I_LeaRip (reg_field rx m) d, rest)) (read_i32 rest)
     else case decode_mem rx m rest of
       None \<Rightarrow> None
     | Some (base, d, rest) \<Rightarrow>
         if opcode = 0x8d \<and> bit rx 3 then Some (I_Lea (reg_field rx m) base d, rest)
         else if opcode = 0x88 then Some (I_Store 1 (reg_field rx m) base d, rest)
         else if opcode = 0x89 then Some (I_Store (if bit rx 3 then 8 else if p16 then 2 else 4) (reg_field rx m) base d, rest)
         else if opcode = 0x8b \<and> \<not> p16 then Some (I_Load (if bit rx 3 then 8 else 4) (reg_field rx m) base d, rest)
         else None)"
  using assms by (simp add: decode_rex_def)

lemma decode_two_regs:
  assumes "a < 16" "b < 16" "decode_rr opcode a b = Some i"
  shows "decode (rex True (8 \<le> a) False (8 \<le> b) # opcode # modrm 3 (low3 a) (low3 b) # rest) = Some (i, rest)"
proof -
  have "opcode \<in> {0x89, 0x01, 0x09, 0x21, 0x29, 0x31, 0x39, 0x85}" using assms(3) by (auto simp: decode_rr_def split: if_splits)
  then have o: "opcode \<notin> {0x0f, 0x99}" "opcode AND 0xf8 \<notin> {0xb8, 0x50, 0x58}" "opcode \<noteq> 0xff" "opcode \<noteq> 0x81" by auto
  show ?thesis using assms o(3,4)
    by (simp add: decode_rex_prefix decode_after_rex[OF o(1,2)] modrm_fields modrm_reg_fields)
qed

lemma decode_moves:
  assumes "rd < 16" "rm < 16"
  shows "decode (emit_mov_rr rd rm @ rest) = Some (I_Mov rd rm, rest)"
    and "decode_rr opcode rm rd = Some i \<Longrightarrow> decode (emit_alu opcode rd rm @ rest) = Some (i, rest)"
  using decode_two_regs[OF assms(2,1)] by (simp_all add: emit_mov_rr_def emit_alu_def decode_rr_def)

lemma decode_extended:
  assumes "b < 16" "ext AND 7 = ext" "decode_ext opcode ext b = Some i"
  shows "decode (rex True False False (8 \<le> b) # opcode # modrm 3 ext (low3 b) # rest) = Some (i, rest)"
proof -
  have "opcode \<in> {0xf7, 0xd3}" using assms(3) by (auto simp: decode_ext_def split: if_splits)
  then have o: "opcode \<notin> {0x0f, 0x99}" "opcode AND 0xf8 \<notin> {0xb8, 0x50, 0x58}" "opcode \<noteq> 0xff" "opcode \<noteq> 0x81"
    "decode_rr opcode r b = None" for r by (auto simp: decode_rr_def)
  show ?thesis using assms o(3-5)
    by (simp add: decode_rex_prefix decode_after_rex[OF o(1,2)] modrm_fields modrm_reg_fields)
qed

lemma decode_imul:
  assumes "a < 16" "b < 16"
  shows "decode (rex True (8 \<le> a) False (8 \<le> b) # 0x0f # 0xaf # modrm 3 (low3 a) (low3 b) # rest) = Some (I_Imul a b, rest)"
    "decode (rex True (8 \<le> a) False (8 \<le> b) # 0x0f # 0xb6 # modrm 3 (low3 a) (low3 b) # rest) = Some (I_Movzx a b, rest)"
  using assms by (simp_all add: decode_rex_prefix decode_rex_def decode_0f_def modrm_fields modrm_reg_fields)

lemma cond_nibble: "(0x90 + cond_encoding c) AND 0xf0 = 0x90" "(0x90 + cond_encoding c) AND 0xf = cond_encoding c"
    "(0x80 + cond_encoding c) AND 0xf0 = 0x80" "(0x80 + cond_encoding c) AND 0xf = cond_encoding c"
    "0x90 + cond_encoding c \<noteq> 0x0b" "0x80 + cond_encoding c \<noteq> 0x0b"
  by (cases c; simp)+

lemma decode_setcc:
  assumes "b < 16"
  shows "decode (rex False False False (8 \<le> b) # 0x0f # (0x90 + cond_encoding c) # modrm 3 0 (low3 b) # rest) =
    Some (I_Setcc (cond_encoding c) b, rest)"
  using assms by (simp add: decode_rex_prefix decode_rex_def decode_0f_def modrm_fields modrm_reg_fields cond_nibble)

lemma decode_small [simp]:
  "decode (0x48 # 0x99 # rest) = Some (I_Cqo, rest)"
  "decode (0x31 # 0xd2 # rest) = Some (I_Xor32 2 2, rest)"
  by (simp_all add: decode_def decode_rex_def decode_plain_def reg_field_def rm_field_def)

subsection \<open>Register instructions\<close>

text \<open>What an instruction computes for its destination; \<open>None\<close> is a divide error.\<close>

definition reg_value :: "x86_state \<Rightarrow> register option \<Rightarrow> u64" where
  "reg_value s r = (case r of Some (Physical (PGpr64 n)) \<Rightarrow> st_regs s n | _ \<Rightarrow> 0)"

fun op_result :: "x86_reg_op \<Rightarrow> x86_inst \<Rightarrow> x86_state \<Rightarrow> u64 option" where
  "op_result X_MovImm i s = map_option of_nat (x_imm i)"
| "op_result X_Mov i s = Some (reg_value s (x_rm i))"
| "op_result X_Add i s = Some (reg_value s (x_rn i) + reg_value s (x_rm i))"
| "op_result X_Sub i s = Some (reg_value s (x_rn i) - reg_value s (x_rm i))"
| "op_result X_Mul i s = Some (reg_value s (x_rn i) * reg_value s (x_rm i))"
| "op_result X_Umulh i s = Some (of_nat (unat (reg_value s (x_rn i)) * unat (reg_value s (x_rm i)) div 2 ^ 64))"
| "op_result X_Sdiv i s =
     (let a = sint (reg_value s (x_rn i)); b = sint (reg_value s (x_rm i)) in
      if b = 0 \<or> a = - (2 ^ 63) \<and> b = - 1 then None else Some (of_int (a sdiv b)))"
| "op_result X_Udiv i s = (if reg_value s (x_rm i) = 0 then None else Some (reg_value s (x_rn i) div reg_value s (x_rm i)))"
| "op_result X_And i s = Some (reg_value s (x_rn i) AND reg_value s (x_rm i))"
| "op_result X_Or i s = Some (reg_value s (x_rn i) OR reg_value s (x_rm i))"
| "op_result X_Xor i s = Some (reg_value s (x_rn i) XOR reg_value s (x_rm i))"
| "op_result X_Shl i s = Some (push_bit (unat (reg_value s (x_rm i)) mod 64) (reg_value s (x_rn i)))"
| "op_result X_Lsr i s = Some (drop_bit (unat (reg_value s (x_rm i)) mod 64) (reg_value s (x_rn i)))"
| "op_result X_Cset i s = map_option (\<lambda>c. of_bool (cond_holds (st_flags s) c)) (x_cond i)"
| "op_result _ i s = None"

definition computes :: "x86_reg_op \<Rightarrow> bool" where
  "computes x \<longleftrightarrow> x \<notin> {X_Cmp, X_Push, X_Pop}"

text \<open>The registers an expansion uses for itself, and the instructions that keep the flags.\<close>

definition clobbers :: "x86_reg_op \<Rightarrow> nat set" where
  "clobbers x = (if x \<in> {X_Umulh, X_Sdiv, X_Udiv} then {0, 2} else if x \<in> {X_Shl, X_Lsr} then {1} else {})"

definition keeps_flags :: "x86_reg_op \<Rightarrow> bool" where
  "keeps_flags x \<longleftrightarrow> x \<in> {X_MovImm, X_Mov, X_Cset}"

definition gprs :: "x86_inst \<Rightarrow> bool" where
  "gprs i \<longleftrightarrow> (\<forall>key n. operand key i = Some (Physical (PGpr64 n)) \<longrightarrow> n < 16)"

lemma parse_gpr_Inr:
  assumes "parse_gpr key i = Inr n"
  shows "operand key i = Some (Physical (PGpr64 n))"
  using assms by (auto simp: parse_gpr_def split: option.splits register.splits physical_register.splits)

lemma parse_gpr_value:
  assumes "parse_gpr key i = Inr n" "gprs i"
  shows "n < 16" "reg_value s (operand key i) = st_regs s n"
  using parse_gpr_Inr[OF assms(1)] assms(2) unfolding gprs_def reg_value_def by auto

lemma run_step:
  assumes "decode bs = Some (i, rest)" "length rest < length bs"
  shows "run und bs s = Option.bind (exec und i (s\<lparr>st_rip := st_rip s + of_nat (length bs - length rest)\<rparr>)) (run und rest)"
  using assms by (subst run.simps) auto

lemma run_Nil [simp]: "run und [] s = Some s"
  by (subst run.simps) simp

text \<open>The first instruction of some bytes.\<close>

lemma run_append:
  assumes "\<And>rest. decode (xs @ rest) = Some (i, rest)" "xs \<noteq> []"
  shows "run und (xs @ rest) s = Option.bind (exec und i (s\<lparr>st_rip := st_rip s + of_nat (length xs)\<rparr>)) (run und rest)"
    and "run und xs s = exec und i (s\<lparr>st_rip := st_rip s + of_nat (length xs)\<rparr>)"
proof -
  show r: "run und (xs @ rest) s = Option.bind (exec und i (s\<lparr>st_rip := st_rip s + of_nat (length xs)\<rparr>)) (run und rest)" for rest
    using run_step[OF assms(1)[of rest], of und s] assms(2) by simp
  have "Option.bind x (run und []) = x" for x by (cases x) simp_all
  then show "run und xs s = exec und i (s\<lparr>st_rip := st_rip s + of_nat (length xs)\<rparr>)" using r[of "[]"] by simp
qed

definition writes :: "nat \<Rightarrow> u64 \<Rightarrow> nat set \<Rightarrow> nat \<Rightarrow> x86_state \<Rightarrow> x86_state \<Rightarrow> bool" where
  "writes d v C n s s' \<longleftrightarrow> st_mem s' = st_mem s \<and> st_rip s' = st_rip s + of_nat n
     \<and> (\<forall>r. r \<notin> C \<longrightarrow> st_regs s' r = (if r = d then v else st_regs s r))"

lemmas move_runs = run_append[OF decode_moves(1)]
lemmas alu_runs = run_append[OF decode_moves(2)]

lemma decode_group:
  assumes "b < 16" "ext AND 7 = ext" "decode_ext opcode ext b = Some i"
  shows "decode ([rex True False False (8 \<le> b), opcode, modrm 3 ext (low3 b)] @ rest) = Some (i, rest)"
  using decode_extended[OF assms] by simp

lemmas group_runs = run_append[OF decode_group]

lemma small_runs:
  "run und (0x48 # 0x99 # rest) s = Option.bind (exec und I_Cqo (s\<lparr>st_rip := st_rip s + 2\<rparr>)) (run und rest)"
  "run und (0x31 # 0xd2 # rest) s = Option.bind (exec und (I_Xor32 2 2) (s\<lparr>st_rip := st_rip s + 2\<rparr>)) (run und rest)"
  using run_append(1)[of "[0x48, 0x99]" I_Cqo] run_append(1)[of "[0x31, 0xd2]" "I_Xor32 2 2"] by simp_all

lemma emit_neq_Nil [simp]: "emit_mov_rr a b \<noteq> []" "emit_alu oc a b \<noteq> []" "length (emit_mov_rr a b) = 3" "length (emit_alu oc a b) = 3"
  by (simp_all add: emit_mov_rr_def emit_alu_def)

lemma alu_three_runs:
  assumes r: "rd < 16" "rn < 16" "rm < 16" and oc: "\<And>reg rm. decode_rr oc reg rm = Some (I_Alu f rm reg)"
    and f: "comm \<Longrightarrow> \<forall>a b. alu_value f a b = alu_value f b a" "\<not> comm \<Longrightarrow> f = SUB"
  shows "\<exists>s'. run und (emit_alu_three oc rd rn rm comm) s = Some s'
    \<and> writes rd (alu_value f (st_regs s rn) (st_regs s rm)) {} (length (emit_alu_three oc rd rn rm comm)) s s'"
proof -
  consider "rd = rn" | "rd \<noteq> rn" "rd = rm" comm | "rd \<noteq> rn" "rd = rm" "\<not> comm" | "rd \<noteq> rn" "rd \<noteq> rm" by blast
  then show ?thesis
  proof cases
    case 1
    then show ?thesis using r oc by (simp add: emit_alu_three_def alu_runs writes_def set_reg_def)
  next
    case 2
    then show ?thesis using r oc f(1) by (simp add: emit_alu_three_def alu_runs writes_def set_reg_def)
  next
    case 3
    then show ?thesis using r oc f(2) by (simp add: emit_alu_three_def alu_runs group_runs[where i = "I_Neg rm"] decode_ext_def writes_def set_reg_def)
  next
    case 4
    then show ?thesis using r oc by (simp add: emit_alu_three_def move_runs alu_runs writes_def set_reg_def)
  qed
qed

lemma mul_runs:
  assumes r: "rd < 16" "rn < 16" "rm < 16"
  shows "\<exists>s'. run und (emit_mul rd rn rm) s = Some s'
    \<and> writes rd (st_regs s rn * st_regs s rm) {} (length (emit_mul rd rn rm)) s s'"
proof -
  have imul: "decode ([rex True (8 \<le> a) False (8 \<le> b), 0x0f, 0xaf, modrm 3 (low3 a) (low3 b)] @ rest) = Some (I_Imul a b, rest)"
    if "a < 16" "b < 16" for a b rest using decode_imul(1)[OF that] by simp
  show ?thesis using r
    by (auto simp: emit_mul_def Let_def move_runs run_append[OF imul] run_append(2)[OF imul, simplified] writes_def set_reg_def mult.commute)
qed

text \<open>The expansions through \<open>rax\<close> and \<open>rdx\<close>.\<close>

lemma emit_group3_runs:
  assumes "b < 16" "ext AND 7 = ext" "decode_ext 0xf7 ext b = Some i"
  shows "run und (emit_group3 ext b @ rest) s = Option.bind (exec und i (s\<lparr>st_rip := st_rip s + 3\<rparr>)) (run und rest)"
  using group_runs(1)[OF assms] by (simp add: emit_group3_def)

lemma length_group3 [simp]: "length (emit_group3 ext b) = 3"
  by (simp add: emit_group3_def)

lemma umulh_runs:
  assumes r: "rd < 16" "rn < 16" "rm < 16" and "emit_wide rd rn rm [] 4 RDX = Inr bytes"
  shows "\<exists>s'. run und bytes s = Some s'
    \<and> writes rd (of_nat (unat (st_regs s rn) * unat (st_regs s rm) div 2 ^ 64)) {0, 2} (length bytes) s s'"
proof -
  have b: "bytes = emit_mov_rr 0 rn @ emit_group3 4 rm @ emit_mov_rr rd 2" and ne: "rm \<noteq> 0" "rm \<noteq> 2" "rd \<noteq> 0" "rd \<noteq> 2"
    using assms(4) by (auto simp: emit_wide_def check_expansion_operands_def RAX_def RDX_def split: if_splits)
  show ?thesis using r ne
    by (simp add: b move_runs emit_group3_runs[where i = "I_Mul rm"] decode_ext_def writes_def set_reg_def set_rdx_rax_def Let_def)
qed

lemma udiv_runs:
  assumes r: "rd < 16" "rn < 16" "rm < 16" and "emit_wide rd rn rm [0x31, 0xd2] 6 RAX = Inr bytes"
  shows "if st_regs s rm = 0 then run und bytes s = None
    else \<exists>s'. run und bytes s = Some s' \<and> writes rd (st_regs s rn div st_regs s rm) {0, 2} (length bytes) s s'"
proof -
  have b: "bytes = emit_mov_rr 0 rn @ [0x31, 0xd2] @ emit_group3 6 rm @ emit_mov_rr rd 0" and ne: "rm \<noteq> 0" "rm \<noteq> 2" "rd \<noteq> 0" "rd \<noteq> 2"
    using assms(4) by (auto simp: emit_wide_def check_expansion_operands_def RAX_def RDX_def split: if_splits)
  have "unat (a div d) < 2 ^ 64" for a d :: u64 by (rule order.strict_trans2[OF unsigned_less]) simp
  then have q: "unat a div unat d < 2 ^ 64" "of_nat (unat a div unat d) = a div d" for a d :: u64
    unfolding unat_div[symmetric] by simp_all
  show ?thesis using r ne q[of "st_regs s rn" "st_regs s rm"]
    by (auto simp: b move_runs small_runs emit_group3_runs[where i = "I_Div rm"] decode_ext_def writes_def set_reg_def
        set_rdx_rax_def Let_def div_result_def rdx_rax_def)
qed

lemma sdiv_bound:
  fixes a b :: int
  assumes "- (2 ^ 63) \<le> a" "a < 2 ^ 63" "b \<noteq> 0"
  shows "(a sdiv b < - (2 ^ 63) \<or> 2 ^ 63 \<le> a sdiv b) \<longleftrightarrow> a = - (2 ^ 63) \<and> b = - 1"
proof (cases "a = - (2 ^ 63)")
  case False
  then show ?thesis using sdiv_int_range[of a b] assms(1,2) by auto
next
  case True
  have s: "a sdiv b = - sgn b * (2 ^ 63 div \<bar>b\<bar>)" by (simp add: signed_divide_int_def True)
  show ?thesis
  proof (cases "\<bar>b\<bar> = 1")
    case True
    then show ?thesis using \<open>a = - (2 ^ 63)\<close> s by (auto simp: abs_if split: if_splits)
  next
    case False
    then have "2 \<le> \<bar>b\<bar>" using assms(3) by linarith
    then have "2 ^ 63 div \<bar>b\<bar> \<le> 2 ^ 63 div 2" by (intro zdiv_mono2) simp_all
    moreover have "0 \<le> 2 ^ 63 div \<bar>b\<bar>" using \<open>2 \<le> \<bar>b\<bar>\<close> by (simp add: pos_imp_zdiv_nonneg_iff)
    ultimately have "\<bar>a sdiv b\<bar> < 2 ^ 63" unfolding s by (simp add: abs_mult)
    then show ?thesis using False by auto
  qed
qed

lemma cqo_value: "sint (if a <s 0 then - 1 else 0 :: u64) * 2 ^ 64 + uint a = sint (a :: u64)"
proof -
  have u: "uint a = sint a mod 2 ^ 64" by (simp add: uint_sint take_bit_eq_mod)
  have "- (2 ^ 63) \<le> sint a" "sint a < 2 ^ 63" using sint_ge[of a] sint_lt[of a] by simp_all
  then have "sint a < 0 \<Longrightarrow> (sint a + 2 ^ 64) mod 2 ^ 64 = sint a + 2 ^ 64" "0 \<le> sint a \<Longrightarrow> sint a mod 2 ^ 64 = sint a"
    by (intro mod_pos_pos_trivial; simp)+
  then show ?thesis unfolding u word_sless_alt by (auto simp: not_less)
qed

lemma sdiv_runs:
  assumes r: "rd < 16" "rn < 16" "rm < 16" and "emit_wide rd rn rm [0x48, 0x99] 7 RAX = Inr bytes"
  shows "let a = sint (st_regs s rn); b = sint (st_regs s rm) in
    if b = 0 \<or> a = - (2 ^ 63) \<and> b = - 1 then run und bytes s = None
    else \<exists>s'. run und bytes s = Some s' \<and> writes rd (of_int (a sdiv b)) {0, 2} (length bytes) s s'"
proof -
  have b: "bytes = emit_mov_rr 0 rn @ [0x48, 0x99] @ emit_group3 7 rm @ emit_mov_rr rd 0" and ne: "rm \<noteq> 0" "rm \<noteq> 2" "rd \<noteq> 0" "rd \<noteq> 2"
    using assms(4) by (auto simp: emit_wide_def check_expansion_operands_def RAX_def RDX_def split: if_splits)
  let ?a = "st_regs s rn" and ?b = "st_regs s rm"
  let ?s = "s\<lparr>st_regs := (st_regs s)(0 := ?a, 2 := if ?a <s 0 then - 1 else 0), st_rip := 8 + st_rip s\<rparr>"
  have "signed_rdx_rax ?s = sint ?a" using cqo_value[of ?a] by (simp add: signed_rdx_rax_def)
  then have res: "idiv_result ?s ?b = (if ?b = 0 \<or> sint ?a sdiv sint ?b < - (2 ^ 63) \<or> 2 ^ 63 \<le> sint ?a sdiv sint ?b then None
      else Some (of_int (sint ?a sdiv sint ?b), of_int (sint ?a smod sint ?b)))"
    by (simp add: idiv_result_def Let_def)
  have bound: "?b \<noteq> 0 \<Longrightarrow> (sint ?a sdiv sint ?b < - (2 ^ 63) \<or> 2 ^ 63 \<le> sint ?a sdiv sint ?b) \<longleftrightarrow> sint ?a = - (2 ^ 63) \<and> sint ?b = - 1"
    using sint_ge[of ?a] sint_lt[of ?a] by (intro sdiv_bound) (auto simp: signed_eq_0_iff)
  have "run und bytes s = Option.bind (exec und (I_Idiv rm) ?s) (run und (emit_mov_rr rd 0))"
    using r ne by (simp add: b move_runs small_runs emit_group3_runs[where i = "I_Idiv rm"] decode_ext_def set_reg_def)
  then show ?thesis using r ne res bound
    by (auto simp: b move_runs writes_def set_reg_def set_rdx_rax_def Let_def signed_eq_0_iff)
qed

lemma shift_runs:
  assumes r: "rd < 16" "rn < 16" "rm < 16" and "emit_shift ext rd rn rm = Inr bytes"
    and ext: "ext AND 7 = ext" "decode_ext 0xd3 ext rd = Some i"
    and i: "\<And>t. exec und i t = Some ((set_reg rd (f (unat (st_regs t 1 AND 63)) (st_regs t rd)) t)\<lparr>st_flags := und i t\<rparr>)"
  shows "\<exists>s'. run und bytes s = Some s'
    \<and> writes rd (f (unat (st_regs s rm) mod 64) (st_regs s rn)) {1} (length bytes) s s'"
proof -
  have b: "bytes = emit_mov_rr 1 rm @ (if rd \<noteq> rn then emit_mov_rr rd rn else []) @ [rex True False False (8 \<le> rd), 0xd3, modrm 3 ext (low3 rd)]"
    and ne: "rm \<noteq> 1" "rn \<noteq> 1" "rd \<noteq> 1"
    using assms(4) by (auto simp: emit_shift_def check_expansion_operands_def RCX_def split: if_splits)
  have count: "unat (c AND 63) = unat c mod 64" for c :: u64
  proof -
    have "c AND 63 = take_bit 6 c" by (simp add: take_bit_eq_mask mask_eq_exp_minus_1)
    then show ?thesis by (simp add: take_bit_eq_mod unat_mod)
  qed
  note last = group_runs(2)[OF r(1) ext]
  show ?thesis
  proof (cases "rn = rd")
    case True
    then show ?thesis using r ne by (simp add: b move_runs last i writes_def set_reg_def count)
  next
    case False
    then show ?thesis using r ne by (simp add: b move_runs last i writes_def set_reg_def count)
  qed
qed

lemma cset_runs:
  assumes r: "rd < 16" and "encode_reg_op X_Cset i = Inr bytes" "parse_gpr Rd i = Inr rd" "x_cond i = Some c"
  shows "\<exists>s'. run und bytes s = Some s'
    \<and> writes rd (of_bool (cond_holds (st_flags s) c)) {} (length bytes) s s' \<and> st_flags s' = st_flags s"
proof -
  let ?set = "[rex False False False (8 \<le> rd), 0x0f, 0x90 + cond_encoding c, modrm 3 0 (low3 rd)]"
  let ?ext = "[rex True (8 \<le> rd) False (8 \<le> rd), 0x0f, 0xb6, modrm 3 (low3 rd) (low3 rd)]"
  have b: "bytes = ?set @ ?ext" using assms(2-4) by (simp add: get_cond_def)
  have d: "decode (?set @ rest) = Some (I_Setcc (cond_encoding c) rd, rest)" "decode (?ext @ rest) = Some (I_Movzx rd rd, rest)" for rest
    using decode_setcc[OF r] decode_imul(2)[OF r r] by simp_all
  have v: "take_bit 8 (push_bit 8 x) = (0 :: u64)" for x by (rule bit_word_eqI) (auto simp: bit_simps)
  show ?thesis unfolding b
    by (simp add: run_append(1)[OF d(1)] run_append(2)[OF d(2)] writes_def set_reg_def cond_holds_def v del: append_Cons append_Nil)
qed

lemma mov_imm_runs:
  assumes r: "rd < 16"
  shows "run und ([rex True False False (8 \<le> rd), 0xb8 + low3 rd] @ le_bytes 8 (v :: u64)) s =
    Some (set_reg rd v (s\<lparr>st_rip := st_rip s + 10\<rparr>))"
proof -
  have num: "of_nat (le_number (le_bytes 8 v)) = v" by (simp add: le_number_full)
  have d: "decode (([rex True False False (8 \<le> rd), 0xb8 + low3 rd] @ le_bytes 8 v) @ rest) = Some (I_MovImm rd v, rest)" for rest
    using opcode_register[OF r] by (simp add: decode_rex_prefix decode_rex_def num)
  show ?thesis using run_append(2)[OF d] by simp
qed

lemma three_Inr:
  assumes "three i f = Inr bytes" "gprs i"
  obtains rd rn rm where "f rd rn rm = Inr bytes" "rd < 16" "rn < 16" "rm < 16" "operand Rd i = Some (gpr rd)"
    "\<And>s. reg_value s (x_rn i) = st_regs s rn" "\<And>s. reg_value s (x_rm i) = st_regs s rm"
proof -
  obtain rd rn rm where p: "parse_gpr Rd i = Inr rd" "parse_gpr Rn i = Inr rn" "parse_gpr Rm i = Inr rm" "f rd rn rm = Inr bytes"
    using assms(1) by (auto simp: three_def)
  show ?thesis
    by (rule that[OF p(4)])
      (use parse_gpr_value[OF p(1) assms(2)] parse_gpr_value[OF p(2) assms(2)] parse_gpr_value[OF p(3) assms(2)] parse_gpr_Inr[OF p(1)]
        in \<open>simp_all add: gpr_def\<close>)
qed

definition executes :: "(insn \<Rightarrow> x86_state \<Rightarrow> rflags) \<Rightarrow> x86_reg_op \<Rightarrow> x86_inst \<Rightarrow> u8 list \<Rightarrow> x86_state \<Rightarrow> bool" where
  "executes und x i bytes s \<longleftrightarrow> (\<exists>rd. operand Rd i = Some (gpr rd) \<and>
     (case op_result x i s of
        None \<Rightarrow> run und bytes s = None
      | Some v \<Rightarrow> \<exists>s'. run und bytes s = Some s' \<and> writes rd v (clobbers x) (length bytes) s s'
          \<and> (keeps_flags x \<longrightarrow> st_flags s' = st_flags s)))"

lemma executes_alu:
  assumes t: "three i (\<lambda>rd rn rm. Inr (emit_alu_three oc rd rn rm comm)) = Inr bytes" "gprs i"
    and oc: "\<And>reg rm. decode_rr oc reg rm = Some (I_Alu f rm reg)"
    and f: "comm \<Longrightarrow> \<forall>a b. alu_value f a b = alu_value f b a" "\<not> comm \<Longrightarrow> f = SUB"
    and x: "op_result x i s = Some (alu_value f (reg_value s (x_rn i)) (reg_value s (x_rm i)))" "clobbers x = {}" "\<not> keeps_flags x"
  shows "executes und x i bytes s"
proof (rule three_Inr[OF t])
  fix rd rn rm assume r: "Inr (emit_alu_three oc rd rn rm comm) = Inr bytes" "rd < 16" "rn < 16" "rm < 16" "operand Rd i = Some (gpr rd)"
    and v: "\<And>s. reg_value s (x_rn i) = st_regs s rn" "\<And>s. reg_value s (x_rm i) = st_regs s rm"
  have "\<exists>s'. run und (emit_alu_three oc rd rn rm comm) s = Some s'
    \<and> writes rd (alu_value f (st_regs s rn) (st_regs s rm)) {} (length (emit_alu_three oc rd rn rm comm)) s s'"
    using alu_three_runs r(2-4) oc f by blast
  then show ?thesis using r(1,5) x by (auto simp: executes_def v)
qed

lemma executes_alus:
  assumes "encode_reg_op x i = Inr bytes" "x \<in> {X_Add, X_Sub, X_And, X_Or, X_Xor}" "gprs i"
  shows "executes und x i bytes s"
proof -
  define f where "f = (case x of X_Sub \<Rightarrow> SUB | X_And \<Rightarrow> AND' | X_Or \<Rightarrow> OR' | X_Xor \<Rightarrow> XOR' | _ \<Rightarrow> ADD)"
  define oc :: u8 where "oc = (case x of X_Sub \<Rightarrow> 0x29 | X_And \<Rightarrow> 0x21 | X_Or \<Rightarrow> 0x09 | X_Xor \<Rightarrow> 0x31 | _ \<Rightarrow> 0x01)"
  have t: "three i (\<lambda>rd rn rm. Inr (emit_alu_three oc rd rn rm (x \<noteq> X_Sub))) = Inr bytes"
    using assms(1,2) by (auto simp: oc_def)
  show ?thesis
  proof (rule executes_alu[OF t assms(3), of f])
    show "decode_rr oc reg rm = Some (I_Alu f rm reg)" for reg rm using assms(2) by (auto simp: oc_def f_def decode_rr_def)
    show "\<forall>a b. alu_value f a b = alu_value f b a" if "x \<noteq> X_Sub" using assms(2) that by (auto simp: f_def ac_simps)
    show "f = SUB" if "\<not> x \<noteq> X_Sub" using that by (simp add: f_def)
    show "op_result x i s = Some (alu_value f (reg_value s (x_rn i)) (reg_value s (x_rm i)))" using assms(2) by (auto simp: f_def)
    show "clobbers x = {}" "\<not> keeps_flags x" using assms(2) by (auto simp: clobbers_def keeps_flags_def)
  qed
qed

lemma executes_three:
  assumes t: "three i f = Inr bytes" "gprs i" and x: "\<not> keeps_flags x"
    and f: "\<And>rd rn rm. \<lbrakk>f rd rn rm = Inr bytes; rd < 16; rn < 16; rm < 16; reg_value s (x_rn i) = st_regs s rn; reg_value s (x_rm i) = st_regs s rm\<rbrakk> \<Longrightarrow>
      (case op_result x i s of None \<Rightarrow> run und bytes s = None
       | Some v \<Rightarrow> \<exists>s'. run und bytes s = Some s' \<and> writes rd v (clobbers x) (length bytes) s s')"
  shows "executes und x i bytes s"
proof (rule three_Inr[OF t])
  fix rd rn rm assume r: "f rd rn rm = Inr bytes" "rd < 16" "rn < 16" "rm < 16" "operand Rd i = Some (gpr rd)"
    and v: "\<And>s. reg_value s (x_rn i) = st_regs s rn" "\<And>s. reg_value s (x_rm i) = st_regs s rm"
  show ?thesis using f[OF r(1-4) v] r(5) x by (auto simp: executes_def split: option.splits)
qed

text \<open>
  (C5) The encoder's expansions of three-address instructions into two-address ones are right: whatever registers an
  instruction has, running the bytes that the encoder writes puts the result into the destination, changes
  no other register but the documented scratch ones, and no memory; a division faults exactly when the division has no result.
\<close>

theorem x86_register_ops_execute:
  assumes "encode_reg_op x i = Inr bytes" "computes x" "gprs i"
  shows "executes und x i bytes s"
proof (cases x)
  case X_MovImm
  then obtain rd imm where e: "parse_gpr Rd i = Inr rd" "x_imm i = Some imm"
    "bytes = [rex True False False (8 \<le> rd), 0xb8 + low3 rd] @ le_bytes 8 (of_nat imm :: u64)"
    using assms(1) by (auto simp: get_imm_def split: option.splits)
  then show ?thesis using X_MovImm mov_imm_runs[where rd = rd and v = "of_nat imm"] parse_gpr_value(1)[OF e(1) assms(3)] parse_gpr_Inr[OF e(1)]
    by (simp add: executes_def writes_def set_reg_def gpr_def)
next
  case X_Mov
  then obtain rd rm where e: "parse_gpr Rd i = Inr rd" "parse_gpr Rm i = Inr rm" "bytes = emit_mov_rr rd rm" using assms(1) by auto
  then show ?thesis using X_Mov parse_gpr_value(1)[OF e(1) assms(3)] parse_gpr_value[OF e(2) assms(3)] parse_gpr_Inr[OF e(1)]
    by (simp add: executes_def writes_def set_reg_def gpr_def move_runs)
next
  case X_Cset
  then obtain rd c where e: "parse_gpr Rd i = Inr rd" "x_cond i = Some c" using assms(1) by (auto simp: get_cond_def split: option.splits)
  have enc: "encode_reg_op X_Cset i = Inr bytes" using assms(1) X_Cset by simp
  obtain s' where "run und bytes s = Some s'" "writes rd (of_bool (cond_holds (st_flags s) c)) {} (length bytes) s s'" "st_flags s' = st_flags s"
    using cset_runs[OF parse_gpr_value(1)[OF e(1) assms(3)] enc e] by blast
  then show ?thesis using X_Cset parse_gpr_Inr[OF e(1)] e(2) by (simp add: executes_def gpr_def clobbers_def)
next
  case X_Mul
  then show ?thesis using assms(1,3) mul_runs by (intro executes_three[of i _ bytes]) (auto simp: keeps_flags_def clobbers_def)
next
  case X_Umulh
  then show ?thesis using assms(1,3) umulh_runs by (intro executes_three[of i _ bytes]) (auto simp: keeps_flags_def clobbers_def)
next
  case X_Sdiv
  then show ?thesis using assms(1,3) sdiv_runs by (intro executes_three[of i _ bytes]) (auto simp: keeps_flags_def clobbers_def Let_def)
next
  case X_Udiv
  then show ?thesis using assms(1,3) udiv_runs by (intro executes_three[of i _ bytes]) (auto simp: keeps_flags_def clobbers_def)
next
  case X_Shl
  have "\<exists>s'. run und bytes s = Some s' \<and> writes rd (push_bit (unat (st_regs s rm) mod 64) (st_regs s rn)) {1} (length bytes) s s'"
    if "emit_shift 4 rd rn rm = Inr bytes" "rd < 16" "rn < 16" "rm < 16" for rd rn rm
    by (rule shift_runs[where f = push_bit and i = "I_ShlCl rd" and ext = 4]) (use that in \<open>simp_all add: decode_ext_def\<close>)
  then show ?thesis using X_Shl assms(1,3) by (intro executes_three[of i _ bytes]) (auto simp: keeps_flags_def clobbers_def)
next
  case X_Lsr
  have "\<exists>s'. run und bytes s = Some s' \<and> writes rd (drop_bit (unat (st_regs s rm) mod 64) (st_regs s rn)) {1} (length bytes) s s'"
    if "emit_shift 5 rd rn rm = Inr bytes" "rd < 16" "rn < 16" "rm < 16" for rd rn rm
    by (rule shift_runs[where f = drop_bit and i = "I_ShrCl rd" and ext = 5]) (use that in \<open>simp_all add: decode_ext_def\<close>)
  then show ?thesis using X_Lsr assms(1,3) by (intro executes_three[of i _ bytes]) (auto simp: keeps_flags_def clobbers_def)
qed (use assms executes_alus in \<open>auto simp: computes_def\<close>)

theorem x86_register_ops_execute_witness:
  "\<forall>und s. \<exists>s'. run und [0x49, 0x29, 0xdc, 0x49, 0xf7, 0xdc] s = Some s' \<and> st_regs s' 12 = st_regs s 3 - st_regs s 12
     \<and> (\<forall>r. r \<noteq> 12 \<longrightarrow> st_regs s' r = st_regs s r)"
proof (intro allI)
  fix und s
  define i where "i = no_fields\<lparr>x_rd := Some (gpr 12), x_rn := Some (gpr 3), x_rm := Some (gpr 12)\<rparr>"
  have e: "encode_reg_op X_Sub i = Inr [0x49, 0x29, 0xdc, 0x49, 0xf7, 0xdc]"
    by (simp add: i_def no_fields_def three_def parse_gpr_def gpr_def emit_alu_three_def emit_alu_def rex_def modrm_def low3_def)
  have "gprs i"
    unfolding gprs_def
  proof (intro allI impI)
    fix key n assume "operand key i = Some (Physical (PGpr64 n))"
    then show "n < 16" by (cases key) (auto simp: i_def gpr_def)
  qed
  then have "executes und X_Sub i [0x49, 0x29, 0xdc, 0x49, 0xf7, 0xdc] s" using x86_register_ops_execute[OF e] by (simp add: computes_def)
  then show "\<exists>s'. run und [0x49, 0x29, 0xdc, 0x49, 0xf7, 0xdc] s = Some s' \<and> st_regs s' 12 = st_regs s 3 - st_regs s 12
     \<and> (\<forall>r. r \<noteq> 12 \<longrightarrow> st_regs s' r = st_regs s r)"
    by (auto simp: executes_def i_def gpr_def reg_value_def clobbers_def writes_def)
qed

subsection \<open>Comparisons, the stack, and memory\<close>

lemma decode_operand:
  assumes "reg < 16" "base < 16" "- (2 ^ 31) \<le> d" "d < 2 ^ 31"
  obtains m tail where "\<And>rest. emit_mem_operand reg base d @ rest = m # tail @ rest" "length tail \<le> 5" "length (emit_mem_operand reg base d) = Suc (length tail)"
    "drop_bit 6 m = 2" "\<And>w x b. reg_field (rex w (8 \<le> reg) x b) m = reg"
    "\<And>w r rest. decode_mem (rex w r False (8 \<le> base)) m (tail @ rest) = Some (base, of_int d, rest)"
proof (cases "low3 base = 4")
  case True
  have "unat (low3 base) = 4" unfolding True by simp
  then have b: "4 + (if 8 \<le> base then 8 else 0) = base" using gpr_number[OF assms(2)] by simp
  have "rm_field (rex w r x (8 \<le> base)) 0x24 = base" for w r x using b by (simp add: rm_field_def)
  then show ?thesis using True assms read_i32_bytes[OF assms(3,4)]
    by (intro that[of "modrm 2 (low3 reg) 4" "0x24 # i32_bytes d"])
      (simp_all add: emit_mem_operand_def modrm_fields modrm_reg_fields decode_mem_def)
next
  case False
  then show ?thesis using assms read_i32_bytes[OF assms(3,4)]
    by (intro that[of "modrm 2 (low3 reg) (low3 base)" "i32_bytes d"])
      (simp_all add: emit_mem_operand_def modrm_fields modrm_reg_fields decode_mem_def)
qed

lemma decode_store:
  assumes "sz \<in> {1, 2, 4, 8}" "rt < 16" "base < 16" "- (2 ^ 31) \<le> d" "d < 2 ^ 31"
  shows "decode (emit_store sz rt base d @ rest) = Some (I_Store sz rt base (of_int d), rest)"
proof -
  obtain m tail where m: "\<And>rest. emit_mem_operand rt base d @ rest = m # tail @ rest" "drop_bit 6 m = 2"
    "\<And>w x b. reg_field (rex w (8 \<le> rt) x b) m = rt" "\<And>w r rest. decode_mem (rex w r False (8 \<le> base)) m (tail @ rest) = Some (base, of_int d, rest)"
    using decode_operand[OF assms(2-5)] by metis
  show ?thesis using assms(1) m
    by (auto simp: emit_store_def decode_def decode_after_rex)
qed

lemma decode_load:
  assumes "sz \<in> {1, 2, 4, 8}" "rt < 16" "base < 16" "- (2 ^ 31) \<le> d" "d < 2 ^ 31"
  shows "decode (emit_load sz rt base d @ rest) = Some (I_Load sz rt base (of_int d), rest)"
proof -
  obtain m tail where m: "\<And>rest. emit_mem_operand rt base d @ rest = m # tail @ rest" "drop_bit 6 m = 2"
    "\<And>w x b. reg_field (rex w (8 \<le> rt) x b) m = rt" "\<And>w r rest. decode_mem (rex w r False (8 \<le> base)) m (tail @ rest) = Some (base, of_int d, rest)"
    using decode_operand[OF assms(2-5)] by metis
  show ?thesis using assms(1) m
    by (auto simp: emit_load_def decode_rex_prefix decode_after_rex) (simp_all add: decode_rex_def decode_0f_def)
qed

lemma decode_lea:
  assumes "rt < 16" "base < 16" "- (2 ^ 31) \<le> d" "d < 2 ^ 31" "\<not> 8 \<le> base"
  shows "decode (([rex True (8 \<le> rt) False False, 0x8d] @ emit_mem_operand rt base d) @ rest) = Some (I_Lea rt base (of_int d), rest)"
proof -
  obtain m tail where m: "\<And>rest. emit_mem_operand rt base d @ rest = m # tail @ rest" "drop_bit 6 m = 2"
    "\<And>w x b. reg_field (rex w (8 \<le> rt) x b) m = rt" "\<And>w r rest. decode_mem (rex w r False (8 \<le> base)) m (tail @ rest) = Some (base, of_int d, rest)"
    using decode_operand[OF assms(1-4)] by metis
  show ?thesis using m assms(5) by (simp add: decode_rex_prefix decode_after_rex)
qed

lemma decode_sp_imm:
  assumes "- (2 ^ 31) \<le> d" "d < 2 ^ 31"
  shows "decode (([0x48, 0x81, 0xec] @ i32_bytes d) @ rest) = Some (I_SubImm 4 (of_int d), rest)"
    "decode (([0x48, 0x81, 0xc4] @ i32_bytes d) @ rest) = Some (I_AddImm 4 (of_int d), rest)"
  using read_i32_bytes[OF assms] by (simp_all add: decode_def decode_after_rex rm_field_def)

definition imm_value :: "x86_inst \<Rightarrow> u64" where
  "imm_value i = (case x_imm i of Some n \<Rightarrow> of_nat n | None \<Rightarrow> 0)"

definition sp_address :: "x86_inst \<Rightarrow> x86_state \<Rightarrow> u64" where
  "sp_address i s = st_regs s 4 + imm_value i"

definition reg_address :: "x86_inst \<Rightarrow> x86_state \<Rightarrow> u64" where
  "reg_address i s = reg_value s (x_rn i) + imm_value i"

definition set_rd :: "x86_inst \<Rightarrow> u64 \<Rightarrow> x86_state \<Rightarrow> x86_state" where
  "set_rd i v s = (case x_rd i of Some (Physical (PGpr64 n)) \<Rightarrow> set_reg n v s | _ \<Rightarrow> s)"

definition load_rd :: "nat \<Rightarrow> u64 \<Rightarrow> x86_inst \<Rightarrow> x86_state \<Rightarrow> x86_state" where
  "load_rd n a i s = set_rd i (load (st_mem s) n a) s"

definition store_rd :: "nat \<Rightarrow> u64 \<Rightarrow> x86_inst \<Rightarrow> x86_state \<Rightarrow> x86_state" where
  "store_rd n a i s = s\<lparr>st_mem := store_bytes (st_mem s) a (le_bytes n (reg_value s (x_rd i)))\<rparr>"

text \<open>The incoming stack arguments are above the return address.\<close>

primrec mem_result :: "x86_mem_op \<Rightarrow> x86_inst \<Rightarrow> x86_state \<Rightarrow> x86_state" where
  "mem_result X_SubSpImm i s = set_reg 4 (st_regs s 4 - imm_value i) s"
| "mem_result X_AddSpImm i s = set_reg 4 (st_regs s 4 + imm_value i) s"
| "mem_result X_AddSpOffset i s = set_rd i (sp_address i s) s"
| "mem_result X_StrSpOffset i s = store_rd 8 (sp_address i s) i s"
| "mem_result X_LdrSpOffset i s = load_rd 8 (sp_address i s) i s"
| "mem_result X_StrwSpOffset i s = store_rd 4 (sp_address i s) i s"
| "mem_result X_LdrwSpOffset i s = load_rd 4 (sp_address i s) i s"
| "mem_result X_StrhSpOffset i s = store_rd 2 (sp_address i s) i s"
| "mem_result X_LdrhSpOffset i s = load_rd 2 (sp_address i s) i s"
| "mem_result X_StrbSpOffset i s = store_rd 1 (sp_address i s) i s"
| "mem_result X_LdrbSpOffset i s = load_rd 1 (sp_address i s) i s"
| "mem_result X_LdrStackArg i s = load_rd 8 (sp_address i s + 8) i s"
| "mem_result X_StrRegOffset i s = store_rd 8 (reg_address i s) i s"
| "mem_result X_LdrRegOffset i s = load_rd 8 (reg_address i s) i s"
| "mem_result X_StrwRegOffset i s = store_rd 4 (reg_address i s) i s"
| "mem_result X_LdrwRegOffset i s = load_rd 4 (reg_address i s) i s"
| "mem_result X_StrhRegOffset i s = store_rd 2 (reg_address i s) i s"
| "mem_result X_LdrhRegOffset i s = load_rd 2 (reg_address i s) i s"
| "mem_result X_StrbRegOffset i s = store_rd 1 (reg_address i s) i s"
| "mem_result X_LdrbRegOffset i s = load_rd 1 (reg_address i s) i s"

text \<open>The bytes turn \<open>s\<close> into \<open>t\<close>, but for flags, and go on behind themselves.\<close>

definition runs_to :: "(insn \<Rightarrow> x86_state \<Rightarrow> rflags) \<Rightarrow> u8 list \<Rightarrow> x86_state \<Rightarrow> x86_state \<Rightarrow> bool" where
  "runs_to und bytes s t \<longleftrightarrow> (\<exists>s'. run und bytes s = Some s' \<and> st_regs s' = st_regs t \<and> st_mem s' = st_mem t
     \<and> st_rip s' = st_rip s + of_nat (length bytes))"

lemma disp32_Inr: "disp32 n = Inr d \<Longrightarrow> d = int n \<and> - (2 ^ 31) \<le> d \<and> d < 2 ^ 31"
  by (auto simp: disp32_def split: if_splits)

lemma get_imm_Inr: "get_imm i = Inr n \<Longrightarrow> imm_value i = of_nat n"
  by (auto simp: get_imm_def imm_value_def split: option.splits)

lemma rd_values:
  assumes "parse_gpr Rd i = Inr rd"
  shows "set_rd i v s = set_reg rd v s" "reg_value s (x_rd i) = st_regs s rd"
  using parse_gpr_Inr[OF assms] by (simp_all add: set_rd_def reg_value_def)

lemma sp_access_runs:
  assumes "sp_access emit i = Inr bytes" "gprs i"
    and dec: "\<And>rd d rest. \<lbrakk>rd < 16; - (2 ^ 31) \<le> d; d < 2 ^ 31\<rbrakk> \<Longrightarrow> decode (emit rd 4 d @ rest) = Some (f rd d, rest)"
    and ne: "\<And>rd d. emit rd 4 d \<noteq> []"
    and ex: "\<And>rd d s. parse_gpr Rd i = Inr rd \<Longrightarrow> of_int d = imm_value i \<Longrightarrow> exec und (f rd d) s = Some (g s)"
    and g: "\<And>s x. g (s\<lparr>st_rip := x\<rparr>) = (g s)\<lparr>st_rip := x\<rparr>"
  shows "runs_to und bytes s (g s)"
proof -
  obtain rd n d where p: "parse_gpr Rd i = Inr rd" "get_imm i = Inr n" "disp32 n = Inr d" "bytes = emit rd RSP d"
    using assms(1) by (auto simp: sp_access_def)
  have d: "d = int n" "- (2 ^ 31) \<le> d" "d < 2 ^ 31" using disp32_Inr[OF p(3)] by blast+
  have "decode (bytes @ rest) = Some (f rd d, rest)" for rest
    using dec[OF parse_gpr_value(1)[OF p(1) assms(2)] d(2,3)] p(4) by (simp add: RSP_def)
  then have "run und bytes s = exec und (f rd d) (s\<lparr>st_rip := st_rip s + of_nat (length bytes)\<rparr>)"
    using ne p(4) by (intro run_append(2)) (simp_all add: RSP_def)
  moreover have "of_int d = imm_value i" using d(1) get_imm_Inr[OF p(2)] by simp
  ultimately show ?thesis using ex[OF p(1)] g by (simp add: runs_to_def)
qed

lemma reg_access_runs:
  assumes "reg_access emit i = Inr bytes" "gprs i"
    and dec: "\<And>rd rn d rest. \<lbrakk>rd < 16; rn < 16; - (2 ^ 31) \<le> d; d < 2 ^ 31\<rbrakk> \<Longrightarrow> decode (emit rd rn d @ rest) = Some (f rd rn d, rest)"
    and ne: "\<And>rd rn d. emit rd rn d \<noteq> []"
    and ex: "\<And>rd rn d s. \<lbrakk>parse_gpr Rd i = Inr rd; parse_gpr Rn i = Inr rn; of_int d = imm_value i\<rbrakk> \<Longrightarrow> exec und (f rd rn d) s = Some (g s)"
    and g: "\<And>s x. g (s\<lparr>st_rip := x\<rparr>) = (g s)\<lparr>st_rip := x\<rparr>"
  shows "runs_to und bytes s (g s)"
proof -
  obtain rd rn n d where p: "parse_gpr Rd i = Inr rd" "parse_gpr Rn i = Inr rn" "get_imm i = Inr n" "disp32 n = Inr d" "bytes = emit rd rn d"
    using assms(1) by (auto simp: reg_access_def)
  have d: "d = int n" "- (2 ^ 31) \<le> d" "d < 2 ^ 31" using disp32_Inr[OF p(4)] by blast+
  have "decode (bytes @ rest) = Some (f rd rn d, rest)" for rest
    using dec[OF parse_gpr_value(1)[OF p(1) assms(2)] parse_gpr_value(1)[OF p(2) assms(2)] d(2,3)] p(5) by simp
  then have "run und bytes s = exec und (f rd rn d) (s\<lparr>st_rip := st_rip s + of_nat (length bytes)\<rparr>)"
    using ne p(5) by (intro run_append(2)) simp_all
  moreover have "of_int d = imm_value i" using d(1) get_imm_Inr[OF p(3)] by simp
  ultimately show ?thesis using ex[OF p(1,2)] g by (simp add: runs_to_def)
qed

lemma emit_access_neq_Nil [simp]: "emit_store sz rt base d \<noteq> []" "emit_load sz rt base d \<noteq> []"
  by (simp_all add: emit_store_def emit_load_def)

lemma reg_value_rip [simp]: "reg_value (s\<lparr>st_rip := x\<rparr>) r = reg_value s r"
  by (simp add: reg_value_def split: option.splits register.splits physical_register.splits)

lemma result_rip:
  "store_rd n a i (s\<lparr>st_rip := x\<rparr>) = (store_rd n a i s)\<lparr>st_rip := x\<rparr>"
  "load_rd n a i (s\<lparr>st_rip := x\<rparr>) = (load_rd n a i s)\<lparr>st_rip := x\<rparr>"
  "set_rd i v (s\<lparr>st_rip := x\<rparr>) = (set_rd i v s)\<lparr>st_rip := x\<rparr>"
  "sp_address i (s\<lparr>st_rip := x\<rparr>) = sp_address i s" "reg_address i (s\<lparr>st_rip := x\<rparr>) = reg_address i s"
  by (simp_all add: store_rd_def load_rd_def set_rd_def sp_address_def reg_address_def set_reg_def reg_value_def
      split: option.splits register.splits physical_register.splits)

lemma sp_store_runs: "sp_access (emit_store sz) i = Inr bytes \<Longrightarrow> gprs i \<Longrightarrow> sz \<in> {1, 2, 4, 8} \<Longrightarrow>
    runs_to und bytes s (store_rd sz (sp_address i s) i s)"
  by (erule sp_access_runs[where f = "\<lambda>rd d. I_Store sz rd 4 (of_int d)" and g = "\<lambda>s. store_rd sz (sp_address i s) i s"])
    (auto simp: decode_store store_rd_def sp_address_def rd_values result_rip)

lemma sp_load_runs: "sp_access (emit_load sz) i = Inr bytes \<Longrightarrow> gprs i \<Longrightarrow> sz \<in> {1, 2, 4, 8} \<Longrightarrow>
    runs_to und bytes s (load_rd sz (sp_address i s) i s)"
  by (erule sp_access_runs[where f = "\<lambda>rd d. I_Load sz rd 4 (of_int d)" and g = "\<lambda>s. load_rd sz (sp_address i s) i s"])
    (auto simp: decode_load load_rd_def sp_address_def rd_values result_rip)

lemma reg_value_parsed: "parse_gpr key i = Inr n \<Longrightarrow> reg_value s (operand key i) = st_regs s n"
  using parse_gpr_Inr[of key i n] by (simp add: reg_value_def)

lemma reg_store_runs: "reg_access (emit_store sz) i = Inr bytes \<Longrightarrow> gprs i \<Longrightarrow> sz \<in> {1, 2, 4, 8} \<Longrightarrow>
    runs_to und bytes s (store_rd sz (reg_address i s) i s)"
  by (erule reg_access_runs[where f = "\<lambda>rd rn d. I_Store sz rd rn (of_int d)" and g = "\<lambda>s. store_rd sz (reg_address i s) i s"])
    (auto simp: decode_store store_rd_def reg_address_def rd_values result_rip reg_value_parsed[of Rn, simplified])

lemma reg_load_runs: "reg_access (emit_load sz) i = Inr bytes \<Longrightarrow> gprs i \<Longrightarrow> sz \<in> {1, 2, 4, 8} \<Longrightarrow>
    runs_to und bytes s (load_rd sz (reg_address i s) i s)"
  by (erule reg_access_runs[where f = "\<lambda>rd rn d. I_Load sz rd rn (of_int d)" and g = "\<lambda>s. load_rd sz (reg_address i s) i s"])
    (auto simp: decode_load load_rd_def reg_address_def rd_values result_rip reg_value_parsed[of Rn, simplified])

lemma lea_runs:
  assumes "encode_mem_op X_AddSpOffset i = Inr bytes" "gprs i"
  shows "runs_to und bytes s (set_rd i (sp_address i s) s)"
  using assms(1) unfolding encode_mem_op.simps
  by (rule sp_access_runs[where f = "\<lambda>rd d. I_Lea rd 4 (of_int d)" and g = "\<lambda>s. set_rd i (sp_address i s) s"])
    (use assms(2) decode_lea in \<open>auto simp: sp_address_def rd_values result_rip\<close>)

lemma sp_imm_runs:
  assumes "encode_mem_op x i = Inr bytes" "x = X_SubSpImm \<or> x = X_AddSpImm"
  shows "runs_to und bytes s (mem_result x i s)"
proof -
  obtain n d where p: "get_imm i = Inr n" "disp32 n = Inr d" using assms by auto
  then have d: "d = int n" "- (2 ^ 31) \<le> d" "d < 2 ^ 31" and v: "imm_value i = of_nat n" using disp32_Inr get_imm_Inr by blast+
  show ?thesis using assms p d(1) v run_append(2)[OF decode_sp_imm(1)[OF d(2,3)]] run_append(2)[OF decode_sp_imm(2)[OF d(2,3)]]
    by (auto simp: runs_to_def set_reg_def)
qed

lemma stack_arg_runs:
  assumes "encode_mem_op X_LdrStackArg i = Inr bytes" "gprs i"
  shows "runs_to und bytes s (mem_result X_LdrStackArg i s)"
proof -
  obtain rd n d where p: "parse_gpr Rd i = Inr rd" "get_imm i = Inr n" "disp32 ((n + 8) mod 2 ^ 64) = Inr d" "bytes = emit_load 8 rd RSP d"
    using assms(1) by auto
  have d: "d = int ((n + 8) mod 2 ^ 64)" "- (2 ^ 31) \<le> d" "d < 2 ^ 31" using disp32_Inr[OF p(3)] by blast+
  have "of_nat ((n + 8) mod 2 ^ 64) = (of_nat (n + 8) :: u64)" by (simp only: word_of_nat_eq_iff) (simp add: take_bit_eq_mod)
  then have v: "of_int d = imm_value i + 8" using d(1) get_imm_Inr[OF p(2)] by simp
  have "decode (bytes @ rest) = Some (I_Load 8 rd 4 (of_int d), rest)" for rest
    using decode_load[of 8 rd 4 d] parse_gpr_value(1)[OF p(1) assms(2)] d(2,3) p(4) by (simp add: RSP_def)
  from run_append(2)[OF this] show ?thesis using p(4) v rd_values[OF p(1)]
    by (simp add: runs_to_def load_rd_def sp_address_def set_reg_def add.assoc)
qed

text \<open>
  (C12) Memory instructions: the bytes access the address the instruction names, with its width, zero-extend what they load, and
  change nothing else but the destination or the bytes stored.
\<close>

theorem x86_memory_ops_execute:
  assumes "encode_mem_op x i = Inr bytes" "gprs i"
  shows "runs_to und bytes s (mem_result x i s)"
  using assms sp_imm_runs[OF assms(1)] stack_arg_runs lea_runs sp_store_runs sp_load_runs reg_store_runs reg_load_runs
  by (cases x) simp_all

theorem x86_memory_ops_execute_witness:
  "\<forall>und s. \<exists>s'. run und [0x49, 0x0f, 0xb6, 0x9c, 0x24, 0x01, 0, 0, 0] s = Some s'
     \<and> st_regs s' 3 = load (st_mem s) 1 (st_regs s 12 + 1) \<and> st_mem s' = st_mem s"
proof (intro allI)
  fix und s
  define i where "i = no_fields\<lparr>x_rd := Some (gpr 3), x_rn := Some (gpr 12), x_imm := Some 1\<rparr>"
  have e: "encode_mem_op X_LdrbRegOffset i = Inr [0x49, 0x0f, 0xb6, 0x9c, 0x24, 0x01, 0, 0, 0]"
    by (simp add: i_def no_fields_def reg_access_def parse_gpr_def gpr_def get_imm_def disp32_def emit_load_def emit_mem_operand_def
        rex_def modrm_def low3_def i32_bytes_def le_bytes_def upt_rec)
  have "gprs i"
    unfolding gprs_def
  proof (intro allI impI)
    fix key n assume "operand key i = Some (Physical (PGpr64 n))"
    then show "n < 16" by (cases key) (auto simp: i_def gpr_def no_fields_def)
  qed
  from x86_memory_ops_execute[OF e this, of und s]
  show "\<exists>s'. run und [0x49, 0x0f, 0xb6, 0x9c, 0x24, 0x01, 0, 0, 0] s = Some s'
     \<and> st_regs s' 3 = load (st_mem s) 1 (st_regs s 12 + 1) \<and> st_mem s' = st_mem s"
    by (auto simp: runs_to_def i_def gpr_def load_rd_def reg_address_def reg_value_def imm_value_def set_rd_def set_reg_def)
qed

text \<open>What the condition codes mean after a comparison of \<open>a\<close> with \<open>b\<close>; the other codes test single flags.\<close>

primrec comparison :: "condition_code \<Rightarrow> u64 \<Rightarrow> u64 \<Rightarrow> bool" where
  "comparison CC_O a b = (sint (a - b) \<noteq> sint a - sint b)"
| "comparison CC_No a b = (sint (a - b) = sint a - sint b)"
| "comparison CC_B a b = (a < b)"
| "comparison CC_Ae a b = (b \<le> a)"
| "comparison CC_E a b = (a = b)"
| "comparison CC_Ne a b = (a \<noteq> b)"
| "comparison CC_Be a b = (a \<le> b)"
| "comparison CC_A a b = (b < a)"
| "comparison CC_S a b = (a - b <s 0)"
| "comparison CC_Ns a b = (\<not> a - b <s 0)"
| "comparison CC_P a b = parity (a - b)"
| "comparison CC_Np a b = (\<not> parity (a - b))"
| "comparison CC_L a b = (sint a < sint b)"
| "comparison CC_Ge a b = (sint b \<le> sint a)"
| "comparison CC_Le a b = (sint a \<le> sint b)"
| "comparison CC_G a b = (sint b < sint a)"

lemma sint_sub: "((sint (a - b) < 0) \<noteq> (sint (a - b) \<noteq> sint a - sint b)) \<longleftrightarrow> sint a < sint (b :: u64)"
proof -
  have m: "sint (a - b) mod 2 ^ 64 = (sint a - sint b) mod 2 ^ 64"
  proof -
    have u: "sint x mod 2 ^ 64 = uint x" for x :: u64 by (simp add: uint_sint take_bit_eq_mod)
    have "(sint a - sint b) mod 2 ^ 64 = (uint a - uint b) mod 2 ^ 64" unfolding u[symmetric] by (rule mod_diff_eq[symmetric])
    also have "\<dots> = uint (a - b)" by (simp add: uint_word_ariths)
    finally show ?thesis by (simp only: u)
  qed
  then have "2 ^ 64 dvd sint (a - b) - (sint a - sint b)" by (simp only: mod_eq_dvd_iff)
  then obtain k where "sint (a - b) - (sint a - sint b) = 2 ^ 64 * k" by (rule dvdE)
  then have k: "sint (a - b) = sint a - sint b + k * 2 ^ 64" by (simp add: algebra_simps)
  have "- (2 ^ 63) \<le> sint x" "sint x < 2 ^ 63" for x :: u64 using sint_ge[of x] sint_lt[of x] by simp_all
  note r = this[of "a - b"] this[of a] this[of b]
  have "k < 2" "- 2 < k" using k r by simp_all
  then consider "k = 0" | "k = 1" | "k = - 1" by fastforce
  then show ?thesis by cases (use k r in simp_all)
qed

lemma cond_after_cmp: "cond_holds (sub_flags a b) c = comparison c a b"
  using sint_sub[of a b] signed_word_eqI[of a b] less_linear[of "sint a" "sint b"]
  by (cases c) (auto simp: cond_holds_def cc_holds_def sub_flags_def result_flags_def word_sless_alt word_le_less_eq)

text \<open>
  Comparisons and the stack: after \<open>cmp\<close> each condition code tests the comparison it is named after, signed or unsigned; \<open>push\<close>
  stores its register below the stack pointer, and \<open>pop\<close> loads from there.
\<close>

theorem x86_compare_push_pop:
  assumes "encode_reg_op x i = Inr bytes" "gprs i"
  shows "(x = X_Cmp \<longrightarrow> (\<exists>s'. run und bytes s = Some s' \<and> writes 0 (st_regs s 0) {} (length bytes) s s'
      \<and> (\<forall>c. cond_holds (st_flags s') c = comparison c (reg_value s (x_rn i)) (reg_value s (x_rm i)))))
    \<and> (x = X_Push \<longrightarrow> runs_to und bytes s (push_value (reg_value s (x_rd i)) s))
    \<and> (x = X_Pop \<longrightarrow> runs_to und bytes s (set_rd i (load (st_mem s) 8 (st_regs s 4)) (set_reg 4 (st_regs s 4 + 8) s)))"
proof (intro conjI impI)
  assume "x = X_Cmp"
  then obtain rn rm where p: "parse_gpr Rn i = Inr rn" "parse_gpr Rm i = Inr rm"
    "bytes = [rex True (8 \<le> rm) False (8 \<le> rn), 0x39, modrm 3 (low3 rm) (low3 rn)]" using assms(1) by auto
  have "decode (bytes @ rest) = Some (I_Alu CMP rn rm, rest)" for rest
    using decode_two_regs[OF parse_gpr_value(1)[OF p(2) assms(2)] parse_gpr_value(1)[OF p(1) assms(2)]]
    by (simp add: p(3) decode_rr_def)
  from run_append(2)[OF this] show "\<exists>s'. run und bytes s = Some s' \<and> writes 0 (st_regs s 0) {} (length bytes) s s'
      \<and> (\<forall>c. cond_holds (st_flags s') c = comparison c (reg_value s (x_rn i)) (reg_value s (x_rm i)))"
    using p(3) reg_value_parsed[OF p(1)] reg_value_parsed[OF p(2)] by (simp add: writes_def set_reg_def cond_after_cmp)
next
  assume "x = X_Push"
  then obtain rt where p: "parse_gpr Rd i = Inr rt" "bytes = [rex False False False (8 \<le> rt), 0x50 + low3 rt]" using assms(1) by auto
  have "decode (bytes @ rest) = Some (I_Push rt, rest)" for rest
    using opcode_register[OF parse_gpr_value(1)[OF p(1) assms(2)]] by (simp add: p(2) decode_rex_prefix decode_rex_def)
  from run_append(2)[OF this] show "runs_to und bytes s (push_value (reg_value s (x_rd i)) s)"
    using p(2) rd_values[OF p(1)] by (simp add: runs_to_def push_value_def Let_def set_reg_def)
next
  assume "x = X_Pop"
  then obtain rt where p: "parse_gpr Rd i = Inr rt" "bytes = [rex False False False (8 \<le> rt), 0x58 + low3 rt]" using assms(1) by auto
  have "decode (bytes @ rest) = Some (I_Pop rt, rest)" for rest
    using opcode_register[OF parse_gpr_value(1)[OF p(1) assms(2)]] by (simp add: p(2) decode_rex_prefix decode_rex_def)
  from run_append(2)[OF this] show "runs_to und bytes s (set_rd i (load (st_mem s) 8 (st_regs s 4)) (set_reg 4 (st_regs s 4 + 8) s))"
    using p(2) rd_values[OF p(1)] by (simp add: runs_to_def set_reg_def)
qed

theorem x86_compare_push_pop_witness:
  "\<forall>und s. \<exists>s'. run und [0x4c, 0x39, 0xe3] s = Some s' \<and> (cond_holds (st_flags s') CC_B \<longleftrightarrow> st_regs s 3 < st_regs s 12)"
proof (intro allI)
  fix und s
  define i where "i = no_fields\<lparr>x_rn := Some (gpr 3), x_rm := Some (gpr 12)\<rparr>"
  have e: "encode_reg_op X_Cmp i = Inr [0x4c, 0x39, 0xe3]"
    by (simp add: i_def no_fields_def parse_gpr_def gpr_def rex_def modrm_def low3_def)
  have "gprs i"
    unfolding gprs_def
  proof (intro allI impI)
    fix key n assume "operand key i = Some (Physical (PGpr64 n))"
    then show "n < 16" by (cases key) (auto simp: i_def gpr_def no_fields_def)
  qed
  from x86_compare_push_pop[OF e this, of und s]
  show "\<exists>s'. run und [0x4c, 0x39, 0xe3] s = Some s' \<and> (cond_holds (st_flags s') CC_B \<longleftrightarrow> st_regs s 3 < st_regs s 12)"
    by (auto simp: i_def gpr_def reg_value_def)
qed

subsection \<open>Transfers of control and addresses\<close>

lemma rel32_Inr:
  assumes "rel32 tgt pc len = Inr d"
  shows "- (2 ^ 31) \<le> d" "d < 2 ^ 31" "base + of_nat pc + of_nat len + of_int d = (base + of_nat tgt :: u64)"
  using assms by (auto simp: rel32_def Let_def split: if_splits)

lemma decode_transfers:
  assumes "- (2 ^ 31) \<le> d" "d < 2 ^ 31"
  shows "decode ((0xe8 # i32_bytes d) @ rest) = Some (I_Call (of_int d), rest)"
    "decode ((0xe9 # i32_bytes d) @ rest) = Some (I_Jmp (of_int d), rest)"
    "decode (([0x0f, 0x80 + cond_encoding c] @ i32_bytes d) @ rest) = Some (I_Jcc (cond_encoding c) (of_int d), rest)"
    "rd < 16 \<Longrightarrow> decode (([rex True (8 \<le> rd) False False, 0x8d, modrm 0 (low3 rd) 5] @ i32_bytes d) @ rest) = Some (I_LeaRip rd (of_int d), rest)"
  using read_i32_bytes[OF assms]
  by (simp_all add: decode_def decode_plain_def decode_0f_def cond_nibble decode_after_rex modrm_fields modrm_reg_fields)

text \<open>The block a branch takes control to in a state; \<open>None\<close> when it falls through.\<close>

definition taken :: "x86_ctl_op \<Rightarrow> x86_inst \<Rightarrow> x86_state \<Rightarrow> bool" where
  "taken x i s \<longleftrightarrow> x = X_Jmp \<or> x = X_Jcc \<and> (\<exists>c. x_cond i = Some c \<and> cond_holds (st_flags s) c)
     \<or> x = X_TestJnz \<and> reg_value s (x_rn i) \<noteq> 0"

lemma branch_target_Inr: "branch_target i (Some refs) = Inr off \<Longrightarrow> Option.bind (x_target i) (block_offsets refs) = Some off"
  by (auto simp: branch_target_def split: option.splits)

lemma plain_Inr: "plain r = Inr e \<longleftrightarrow> (\<exists>bytes. r = Inr bytes \<and> e = \<lparr>be_bytes = bytes, be_fixups = []\<rparr>)"
  by (auto simp: plain_def)

lemma jmp_runs:
  assumes "encode_ctl_op X_Jmp i pc (Some refs) = Some (Inr e)" "st_rip s = base + of_nat pc"
  shows "\<exists>off. Option.bind (x_target i) (block_offsets refs) = Some off \<and> run und (be_bytes e) s = Some (s\<lparr>st_rip := base + of_nat off\<rparr>)"
proof -
  obtain off d where p: "branch_target i (Some refs) = Inr off" "rel32 off pc 5 = Inr d" "be_bytes e = 0xe9 # i32_bytes d"
    using assms(1) by (auto simp: plain_Inr)
  note d = rel32_Inr[OF p(2)]
  have "run und (be_bytes e) s = Some (s\<lparr>st_rip := base + of_nat pc + of_nat 5 + of_int d\<rparr>)"
    unfolding p(3) using run_append(2)[OF decode_transfers(2)[OF d(1,2)]] assms(2) by simp
  then show ?thesis unfolding d(3) using branch_target_Inr[OF p(1)] by blast
qed

lemma jcc_runs:
  assumes "encode_ctl_op X_Jcc i pc (Some refs) = Some (Inr e)" "st_rip s = base + of_nat pc"
  shows "\<exists>off c. Option.bind (x_target i) (block_offsets refs) = Some off \<and> x_cond i = Some c
    \<and> run und (be_bytes e) s = Some (s\<lparr>st_rip := base + of_nat (if cond_holds (st_flags s) c then off else pc + length (be_bytes e))\<rparr>)"
proof -
  obtain off c d where p: "branch_target i (Some refs) = Inr off" "get_cond i = Inr c" "rel32 off pc 6 = Inr d"
    "be_bytes e = [0x0f, 0x80 + cond_encoding c] @ i32_bytes d"
    using assms(1) by (auto simp: plain_Inr)
  note d = rel32_Inr[OF p(3)]
  have "run und (be_bytes e) s = Some (s\<lparr>st_rip := (if cond_holds (st_flags s) c then base + of_nat pc + of_nat 6 + of_int d
      else base + of_nat (pc + length (be_bytes e)))\<rparr>)"
    unfolding p(4) using run_append(2)[OF decode_transfers(3)[OF d(1,2)]] assms(2) by (simp add: cond_holds_def add.assoc)
  then show ?thesis unfolding d(3) using branch_target_Inr[OF p(1)] p(2)
    by (auto simp: get_cond_def split: option.splits if_splits)
qed

lemma test_jnz_runs:
  assumes "encode_ctl_op X_TestJnz i pc (Some refs) = Some (Inr e)" "st_rip s = base + of_nat pc" "gprs i"
  shows "\<exists>off f. Option.bind (x_target i) (block_offsets refs) = Some off
    \<and> run und (be_bytes e) s = Some (s\<lparr>st_flags := f, st_rip := base + of_nat (if reg_value s (x_rn i) \<noteq> 0 then off else pc + length (be_bytes e))\<rparr>)"
proof -
  obtain rn off d where p: "parse_gpr Rn i = Inr rn" "branch_target i (Some refs) = Inr off" "rel32 off pc 9 = Inr d"
    "be_bytes e = [rex True (8 \<le> rn) False (8 \<le> rn), 0x85, modrm 3 (low3 rn) (low3 rn)] @ [0x0f, 0x80 + cond_encoding CC_Ne] @ i32_bytes d"
    using assms(1) by (auto simp: plain_Inr)
  note d = rel32_Inr[OF p(3)] and rn = parse_gpr_value(1)[OF p(1) assms(3)]
  have t: "decode ([rex True (8 \<le> rn) False (8 \<le> rn), 0x85, modrm 3 (low3 rn) (low3 rn)] @ rest) = Some (I_Test rn rn, rest)" for rest
    using decode_two_regs[OF rn rn] by (simp add: decode_rr_def)
  have v: "reg_value s (x_rn i) = st_regs s rn" using reg_value_parsed[OF p(1)] by simp
  have ne: "cc_holds fl (cond_encoding CC_Ne) \<longleftrightarrow> \<not> fl_z fl" for fl by (simp add: cc_holds_def)
  have j: "run und ([0x0f, 0x80 + cond_encoding CC_Ne] @ i32_bytes d) t =
      Some (if \<not> fl_z (st_flags t) then t\<lparr>st_rip := st_rip t + 6 + of_int d\<rparr> else t\<lparr>st_rip := st_rip t + 6\<rparr>)" for t
    using run_append(2)[OF decode_transfers(3)[OF d(1,2)], of CC_Ne und t] by (simp add: ne del: cond_encoding.simps)
  have "run und (be_bytes e) s = Some (s\<lparr>st_flags := result_flags (st_regs s rn) False False,
      st_rip := (if st_regs s rn \<noteq> 0 then base + of_nat pc + of_nat 9 + of_int d else base + of_nat (pc + length (be_bytes e)))\<rparr>)"
    unfolding p(4) run_append(1)[OF t list.simps(3)]
    by (simp add: j assms(2) result_flags_def add.assoc del: cond_encoding.simps append_Cons)
  then show ?thesis unfolding d(3) v using branch_target_Inr[OF p(2)] by auto
qed

lemma call_runs:
  assumes "encode_ctl_op X_Call i pc (Some refs) = Some (Inr e)" "st_rip s = base + of_nat pc"
  shows "\<exists>callee. x_callee i = Some callee \<and> (case function_offsets refs callee of
      Some off \<Rightarrow> run und (be_bytes e) s = Some ((push_value (base + of_nat (pc + length (be_bytes e))) s)\<lparr>st_rip := base + of_nat off\<rparr>)
    | None \<Rightarrow> be_bytes e = 0xe8 # i32_bytes 0 \<and> be_fixups e = [\<lparr>fx_offset = of_nat pc + 1, fx_symbol = callee, fx_kind = Branch32\<rparr>])"
proof -
  obtain callee where c: "x_callee i = Some callee" "encode_call callee pc (Some refs) = Inr e" using assms(1) by auto
  show ?thesis
  proof (cases "function_offsets refs callee")
    case (Some off)
    then obtain d where p: "rel32 off pc 5 = Inr d" "be_bytes e = 0xe8 # i32_bytes d" using c(2) by (auto simp: encode_call_def)
    note d = rel32_Inr[OF p(1)]
    have "run und (be_bytes e) s = Some ((push_value (base + of_nat (pc + 5)) s)\<lparr>st_rip := base + of_nat pc + of_nat 5 + of_int d\<rparr>)"
      unfolding p(2) using run_append(2)[OF decode_transfers(1)[OF d(1,2)]] assms(2)
      by (simp add: push_value_def set_reg_def Let_def add.assoc)
    then show ?thesis unfolding d(3) using Some c(1) p(2) by simp
  qed (use c in \<open>auto simp: encode_call_def\<close>)
qed

lemma lea_rip_runs:
  assumes "parse_gpr Rd i = Inr rd" "gprs i" "emit_lea_rip rd tgt pc = Inr bytes" "st_rip s = base + of_nat pc"
  shows "runs_to und bytes s (set_rd i (base + of_nat tgt) s)"
proof -
  obtain d where p: "rel32 tgt pc 7 = Inr d" "bytes = [rex True (8 \<le> rd) False False, 0x8d, modrm 0 (low3 rd) 5] @ i32_bytes d"
    using assms(3) by (auto simp: emit_lea_rip_def)
  note d = rel32_Inr[OF p(1)]
  have "run und bytes s = Some (set_reg rd (base + of_nat pc + of_nat 7 + of_int d) (s\<lparr>st_rip := st_rip s + 7\<rparr>))"
    unfolding p(2) using run_append(2)[OF decode_transfers(4)[OF d(1,2) parse_gpr_value(1)[OF assms(1,2)]]] assms(4) by (simp add: add.assoc)
  then show ?thesis unfolding d(3) using p(2) rd_values[OF assms(1)] by (simp add: runs_to_def set_reg_def)
qed

lemma adr_runs:
  assumes "encode_ctl_op x i pc (Some refs) = Some (Inr e)" "gprs i" "st_rip s = base + of_nat pc" "x = X_AdrLiteral \<or> x = X_AdrFunction"
  shows "\<exists>off. (if x = X_AdrLiteral then Option.bind (x_label i) (literal_offsets refs) else Option.bind (x_callee i) (function_offsets refs)) = Some off
    \<and> runs_to und (be_bytes e) s (set_rd i (base + of_nat off) s)"
proof -
  obtain rd where rd: "parse_gpr Rd i = Inr rd" using assms(1,4) by (auto split: sum.splits)
  have res: "resolve (Some f) k = Inr off \<Longrightarrow> f k = Some off" for f k off by (simp add: resolve_def split: option.splits)
  obtain key tbl off where k: "emit_lea_rip rd off pc = Inr (be_bytes e)" "resolve (Some tbl) key = Inr off"
    "if x = X_AdrLiteral then x_label i = Some key \<and> tbl = literal_offsets refs else x_callee i = Some key \<and> tbl = function_offsets refs"
    using assms(4)
  proof
    assume "x = X_AdrLiteral"
    then show ?thesis using assms(1) rd that by (auto simp: plain_Inr)
  next
    assume "x = X_AdrFunction"
    then show ?thesis using assms(1) rd that by (auto simp: plain_Inr)
  qed
  have "(if x = X_AdrLiteral then Option.bind (x_label i) (literal_offsets refs) else Option.bind (x_callee i) (function_offsets refs)) = Some off"
    using k(3) res[OF k(2)] by (simp split: if_splits)
  with k(1) show ?thesis using lea_rip_runs[OF rd assms(2) _ assms(3)] by blast
qed

text \<open>
  Transfers of control and addresses: in a module loaded at \<open>base\<close>, the branches an instruction at offset \<open>pc\<close>
  is encoded to go to the offset of the target block exactly when they are taken and behind themselves otherwise; a call of a function of the module pushes
  the address behind it and goes to the function, any other call leaves a fixup on its displacement; and the address
  instructions load the address of their literal or function. Registers and memory are otherwise untouched.
\<close>

lemma x86_transfers_reach:
  assumes "encode_ctl_op x i pc (Some refs) = Some (Inr e)" "gprs i" "st_rip s = base + of_nat pc"
  shows "(x \<in> {X_Jmp, X_Jcc, X_TestJnz} \<longrightarrow> (\<exists>off f. Option.bind (x_target i) (block_offsets refs) = Some off
      \<and> run und (be_bytes e) s = Some (s\<lparr>st_flags := f, st_rip := base + of_nat (if taken x i s then off else pc + length (be_bytes e))\<rparr>)))
    \<and> (x = X_Call \<longrightarrow> (\<exists>callee. x_callee i = Some callee \<and> (case function_offsets refs callee of
        Some off \<Rightarrow> run und (be_bytes e) s = Some ((push_value (base + of_nat (pc + length (be_bytes e))) s)\<lparr>st_rip := base + of_nat off\<rparr>)
      | None \<Rightarrow> be_bytes e = 0xe8 # i32_bytes 0 \<and> be_fixups e = [\<lparr>fx_offset = of_nat pc + 1, fx_symbol = callee, fx_kind = Branch32\<rparr>])))
    \<and> (x = X_AdrLiteral \<longrightarrow> (\<exists>off. Option.bind (x_label i) (literal_offsets refs) = Some off
      \<and> runs_to und (be_bytes e) s (set_rd i (base + of_nat off) s)))
    \<and> (x = X_AdrFunction \<longrightarrow> (\<exists>off. Option.bind (x_callee i) (function_offsets refs) = Some off
      \<and> runs_to und (be_bytes e) s (set_rd i (base + of_nat off) s)))"
proof (intro conjI impI)
  assume "x \<in> {X_Jmp, X_Jcc, X_TestJnz}"
  then consider "x = X_Jmp" | "x = X_Jcc" | "x = X_TestJnz" by blast
  then show "\<exists>off f. Option.bind (x_target i) (block_offsets refs) = Some off
      \<and> run und (be_bytes e) s = Some (s\<lparr>st_flags := f, st_rip := base + of_nat (if taken x i s then off else pc + length (be_bytes e))\<rparr>)"
  proof cases
    case 1
    then have "taken x i s" by (simp add: taken_def)
    moreover obtain off where "Option.bind (x_target i) (block_offsets refs) = Some off"
      "run und (be_bytes e) s = Some (s\<lparr>st_rip := base + of_nat off\<rparr>)"
      using jmp_runs[OF assms(1)[unfolded 1] assms(3), of und] by blast
    ultimately show ?thesis by (intro exI[of _ off] exI[of _ "st_flags s"]) simp
  next
    case 2
    obtain off c where "Option.bind (x_target i) (block_offsets refs) = Some off" "x_cond i = Some c"
      "run und (be_bytes e) s = Some (s\<lparr>st_rip := base + of_nat (if cond_holds (st_flags s) c then off else pc + length (be_bytes e))\<rparr>)"
      using jcc_runs[OF assms(1)[unfolded 2] assms(3), of und] by blast
    then show ?thesis using 2 by (intro exI[of _ off] exI[of _ "st_flags s"]) (simp add: taken_def)
  next
    case 3
    then show ?thesis using test_jnz_runs[OF assms(1)[unfolded 3] assms(3,2), of und] by (simp add: taken_def)
  qed
next
  assume c: "x = X_Call"
  show "\<exists>callee. x_callee i = Some callee \<and> (case function_offsets refs callee of
        Some off \<Rightarrow> run und (be_bytes e) s = Some ((push_value (base + of_nat (pc + length (be_bytes e))) s)\<lparr>st_rip := base + of_nat off\<rparr>)
      | None \<Rightarrow> be_bytes e = 0xe8 # i32_bytes 0 \<and> be_fixups e = [\<lparr>fx_offset = of_nat pc + 1, fx_symbol = callee, fx_kind = Branch32\<rparr>])"
    by (rule call_runs[OF assms(1)[unfolded c] assms(3)])
next
  assume x: "x = X_AdrLiteral"
  show "\<exists>off. Option.bind (x_label i) (literal_offsets refs) = Some off \<and> runs_to und (be_bytes e) s (set_rd i (base + of_nat off) s)"
    using adr_runs[OF assms, of und] unfolding x by simp
next
  assume x: "x = X_AdrFunction"
  show "\<exists>off. Option.bind (x_callee i) (function_offsets refs) = Some off \<and> runs_to und (be_bytes e) s (set_rd i (base + of_nat off) s)"
    using adr_runs[OF assms, of und] unfolding x by simp
qed

end
