(* ===== verification/X86_Layout.thy ===== *)
theory X86_Layout
  imports X86_Encode_Correct Code_Literals
begin

text \<open>
  The encoding of a module: \<^verbatim>\<open>crates/pliron-ll/src/passes/x86_64_darwin/x86_64_encode.rs\<close>.

  As on AArch64 the pass sizes everything, places functions, blocks and literals, and then encodes.
  Here instructions have different lengths and sizing one runs its encoder, which panics
  on an instruction that cannot be encoded; \<open>None\<close> is that panic.  The theorems put the bytes of every instruction
  where the tables say, and execute transfers of control from there.
\<close>

subsection \<open>Sizes and offsets\<close>

definition coded_len :: "x86_coded \<Rightarrow> nat option" where
  "coded_len ci = inst_len (fst ci) (fst (snd ci))"

text \<open>A sum of sizes.\<close>

fun total_len :: "nat option list \<Rightarrow> nat option" where
  "total_len [] = Some 0"
| "total_len (l # ls) = Option.bind l (\<lambda>n. map_option ((+) n) (total_len ls))"

definition block_size :: "x86_block \<Rightarrow> nat option" where
  "block_size b = total_len (map coded_len (xb_insts b))"

definition code_size :: "x86_func \<Rightarrow> nat option" where
  "code_size f = total_len (map block_size (xf_blocks f))"

fun offsets_from :: "nat \<Rightarrow> x86_block list \<Rightarrow> (nat \<rightharpoonup> nat) \<Rightarrow> (nat \<rightharpoonup> nat) option" where
  "offsets_from next_offset [] offsets = Some offsets"
| "offsets_from next_offset (b # bs) offsets =
     Option.bind (block_size b) (\<lambda>n. offsets_from (next_offset + n) bs (offsets(xb_id b \<mapsto> next_offset)))"

definition func_block_offsets :: "x86_func \<Rightarrow> nat \<Rightarrow> (nat \<rightharpoonup> nat) option" where
  "func_block_offsets f function_offset = offsets_from function_offset (xf_blocks f) Map.empty"

subsection \<open>Literals\<close>

definition coded_literal :: "x86_coded \<Rightarrow> (string \<times> u8 list) option" where
  "coded_literal ci = literal_for_inst (fst ci) (fst (snd ci)) (snd (snd ci))"

definition note_literal :: "x86_coded \<Rightarrow> (string \<times> u8 list) list \<Rightarrow> (string \<times> u8 list) list" where
  "note_literal ci literals = enter_literal (coded_literal ci) literals"

definition collect_literals :: "x86_func \<Rightarrow> (string \<times> u8 list) list \<Rightarrow> (string \<times> u8 list) list" where
  "collect_literals f literals = fold note_literal (concat (map xb_insts (xf_blocks f))) literals"

text \<open>The first pass: function offsets, literals, and the offset after the last function.\<close>

fun plan_funcs :: "x86_func list \<Rightarrow> (string \<rightharpoonup> nat) \<times> (string \<times> u8 list) list \<times> nat \<Rightarrow>
    ((string \<rightharpoonup> nat) \<times> (string \<times> u8 list) list \<times> nat) option" where
  "plan_funcs [] plan = Some plan"
| "plan_funcs (f # fs) (offsets, literals, next_offset) =
     Option.bind (code_size f) (\<lambda>n. plan_funcs fs (offsets(xf_name f \<mapsto> next_offset), collect_literals f literals, next_offset + n))"

subsection \<open>Encoding\<close>

type_synonym emitted = "u8 list \<times> binary_fixup list"

fun emit_insts :: "serialization_context \<Rightarrow> nat \<Rightarrow> x86_coded list \<Rightarrow> emitted \<Rightarrow> emitted crabbit_result option" where
  "emit_insts refs function_offset [] st = Some (Inr st)"
| "emit_insts refs function_offset (ci # cis) st =
     (case encode_inst (fst ci) (fst (snd ci)) (function_offset + length (fst st)) (Some refs) of
        None \<Rightarrow> None
      | Some (Inl e) \<Rightarrow> Some (Inl e)
      | Some (Inr enc) \<Rightarrow> emit_insts refs function_offset cis (fst st @ be_bytes enc, snd st @ be_fixups enc))"

text \<open>The instructions of a function's blocks, one block after the other.\<close>

definition func_insts :: "x86_func \<Rightarrow> x86_coded list" where
  "func_insts f = concat (map xb_insts (xf_blocks f))"

record encoded_module =
  en_code :: "u8 list list"
  en_literals :: "u8 list"
  en_fixups :: "binary_fixup list"

definition func_refs :: "(string \<rightharpoonup> nat) \<Rightarrow> (string \<rightharpoonup> nat) \<Rightarrow> (nat \<rightharpoonup> nat) \<Rightarrow> serialization_context" where
  "func_refs offsets literal_offs block_offs =
     \<lparr>function_offsets = offsets, block_offsets = block_offs, literal_offsets = literal_offs\<rparr>"

fun emit_funcs :: "(string \<rightharpoonup> nat) \<Rightarrow> (string \<rightharpoonup> nat) \<Rightarrow> nat \<Rightarrow> x86_func list \<Rightarrow> binary_fixup list \<Rightarrow>
    (u8 list list \<times> binary_fixup list) crabbit_result option" where
  "emit_funcs offsets literal_offs function_offset [] fixups = Some (Inr ([], fixups))"
| "emit_funcs offsets literal_offs function_offset (f # fs) fixups =
     Option.bind (func_block_offsets f function_offset) (\<lambda>block_offs.
       (case emit_insts (func_refs offsets literal_offs block_offs) function_offset (func_insts f) ([], fixups) of
          None \<Rightarrow> None
        | Some (Inl e) \<Rightarrow> Some (Inl e)
        | Some (Inr (bytes, fixups')) \<Rightarrow>
            map_option (map_sum id (\<lambda>(code, fx). (bytes # code, fx)))
              (emit_funcs offsets literal_offs (function_offset + length bytes) fs fixups')))"

definition encode_module :: "x86_func list \<Rightarrow> encoded_module crabbit_result option" where
  "encode_module funcs = Option.bind (plan_funcs funcs (Map.empty, [], 0)) (\<lambda>(offsets, literals, next_offset).
     (case place_literals next_offset literals of
        (literal_offs, literal_bytes) \<Rightarrow>
          map_option (map_sum id (\<lambda>(code, fixups).
            \<lparr>en_code = code, en_literals = literal_bytes, en_fixups = fixups\<rparr>))
            (emit_funcs offsets literal_offs 0 funcs [])))"

text \<open>The bytes of the text section: the functions, and the literals behind them.\<close>

definition image :: "encoded_module \<Rightarrow> u8 list" where
  "image e = concat (en_code e) @ en_literals e"

subsection \<open>Positions\<close>

definition len_of :: "x86_coded \<Rightarrow> nat" where
  "len_of ci = (case coded_len ci of Some n \<Rightarrow> n | None \<Rightarrow> 0)"

definition insts_len :: "x86_coded list \<Rightarrow> nat" where
  "insts_len cis = sum_list (map len_of cis)"

definition funcs_len :: "x86_func list \<Rightarrow> nat" where
  "funcs_len fs = insts_len (concat (map func_insts fs))"

text \<open>Where instruction \<open>n\<close> of block \<open>j\<close> is in its function, and in the code when the function is number \<open>k\<close>.\<close>

definition inst_pos :: "x86_func \<Rightarrow> nat \<Rightarrow> nat \<Rightarrow> nat" where
  "inst_pos f j n = insts_len (concat (map xb_insts (take j (xf_blocks f))) @ take n (xb_insts (xf_blocks f ! j)))"

definition code_position :: "x86_func list \<Rightarrow> nat \<Rightarrow> nat \<Rightarrow> nat \<Rightarrow> nat" where
  "code_position fs k j n = funcs_len (take k fs) + inst_pos (fs ! k) j n"

definition code_inst :: "x86_func list \<Rightarrow> nat \<Rightarrow> nat \<Rightarrow> nat \<Rightarrow> x86_coded" where
  "code_inst fs k j n = xb_insts (xf_blocks (fs ! k) ! j) ! n"

definition code_index :: "x86_func list \<Rightarrow> nat \<Rightarrow> nat \<Rightarrow> nat \<Rightarrow> bool" where
  "code_index fs k j n \<longleftrightarrow> k < length fs \<and> j < length (xf_blocks (fs ! k)) \<and> n < length (xb_insts (xf_blocks (fs ! k) ! j))"

lemma x86_len_simps [simp]:
  "insts_len [] = 0" "insts_len (ci # cis) = len_of ci + insts_len cis" "insts_len (xs @ ys) = insts_len xs + insts_len ys"
  "funcs_len [] = 0" "funcs_len (f # fs) = insts_len (func_insts f) + funcs_len fs"
  by (simp_all add: insts_len_def funcs_len_def)

lemma total_len_Some: "total_len (map g xs) = Some n \<Longrightarrow> n = sum_list (map (\<lambda>x. case g x of Some n \<Rightarrow> n | None \<Rightarrow> 0) xs)"
  by (induction xs arbitrary: n) (auto simp: bind_eq_Some_conv)

lemma block_size_Some: "block_size b = Some n \<Longrightarrow> n = insts_len (xb_insts b)"
  unfolding insts_len_def by (drule total_len_Some[of coded_len "xb_insts b" n, folded block_size_def]) (simp add: len_of_def[abs_def])

lemma code_size_Some: "code_size f = Some n \<Longrightarrow> n = insts_len (func_insts f)"
proof -
  assume n: "code_size f = Some n"
  have "n = insts_len (concat (map xb_insts bs))" if "total_len (map block_size bs) = Some n" for bs n
    using that by (induction bs arbitrary: n) (auto simp: bind_eq_Some_conv block_size_Some)
  then show ?thesis using n by (simp add: code_size_def func_insts_def)
qed

lemma concat_nth_split:
  assumes "j < length xss" "n < length (xss ! j)"
  shows "\<exists>m < length (concat xss). concat xss ! m = xss ! j ! n \<and> take m (concat xss) = concat (take j xss) @ take n (xss ! j)"
proof -
  have c: "concat xss = concat (take j xss) @ xss ! j @ concat (drop (Suc j) xss)"
    using assms(1) by (metis append.assoc concat.simps(2) concat_append id_take_nth_drop)
  show ?thesis using assms(2) by (intro exI[of _ "length (concat (take j xss)) + n"]) (subst (1 2 3) c, simp add: nth_append)
qed

subsection \<open>Everything is where the offsets say\<close>

text \<open>\<open>ci\<close> was encoded for \<open>pc\<close>, and its bytes are at \<open>pos\<close>.\<close>

definition encoded_at :: "serialization_context \<Rightarrow> x86_coded \<Rightarrow> nat \<Rightarrow> u8 list \<Rightarrow> nat \<Rightarrow> bool" where
  "encoded_at refs ci pc img pos \<longleftrightarrow>
     (\<exists>enc. encode_inst (fst ci) (fst (snd ci)) pc (Some refs) = Some (Inr enc) \<and> length (be_bytes enc) = len_of ci \<and> located img pos (be_bytes enc))"

lemma x86_encoded_at_append: "encoded_at refs ci pc ys pos \<Longrightarrow> encoded_at refs ci pc (xs @ ys @ zs) (length xs + pos)"
  unfolding encoded_at_def using located_append by blast

lemma x86_emit_insts_located:
  assumes "emit_insts refs base cis (bs, fx) = Some (Inr (bs', fx'))"
  shows "\<exists>chunk. bs' = bs @ chunk \<and> length chunk = insts_len cis \<and>
    (\<forall>m < length cis. encoded_at refs (cis ! m) (base + length bs + insts_len (take m cis)) chunk (insts_len (take m cis)))"
  using assms
proof (induction cis arbitrary: bs fx)
  case (Cons ci cis)
  obtain enc where enc: "encode_inst (fst ci) (fst (snd ci)) (base + length bs) (Some refs) = Some (Inr enc)"
    "emit_insts refs base cis (bs @ be_bytes enc, fx @ be_fixups enc) = Some (Inr (bs', fx'))"
    using Cons.prems by (auto split: option.splits sum.splits)
  have len: "length (be_bytes enc) = len_of ci" using x86_encoded_length[OF enc(1)] by (simp add: len_of_def coded_len_def)
  obtain chunk where c: "bs' = bs @ be_bytes enc @ chunk" "length chunk = insts_len cis"
    "\<And>m. m < length cis \<Longrightarrow> encoded_at refs (cis ! m) (base + (length bs + len_of ci) + insts_len (take m cis)) chunk (insts_len (take m cis))"
    using Cons.IH[OF enc(2)] len by auto
  have "encoded_at refs ((ci # cis) ! m) (base + length bs + insts_len (take m (ci # cis))) (be_bytes enc @ chunk) (insts_len (take m (ci # cis)))"
    if "m < length (ci # cis)" for m
  proof (cases m)
    case 0
    then show ?thesis using enc(1) len by (force simp: encoded_at_def located_def)
  next
    case (Suc k)
    then show ?thesis using x86_encoded_at_append[OF c(3)[of k], of "be_bytes enc" "[]"] that len by (simp add: add.assoc)
  qed
  then show ?case using c(1,2) len by (intro exI[of _ "be_bytes enc @ chunk"]) simp
qed simp

lemma x86_emit_func_located:
  assumes "emit_insts refs base (func_insts f) ([], fx) = Some (Inr (bytes, fx'))"
  shows "length bytes = insts_len (func_insts f)"
    and "\<lbrakk>j < length (xf_blocks f); n < length (xb_insts (xf_blocks f ! j))\<rbrakk> \<Longrightarrow>
      encoded_at refs (xb_insts (xf_blocks f ! j) ! n) (base + inst_pos f j n) bytes (inst_pos f j n)"
proof -
  have e: "length bytes = insts_len (func_insts f)"
    "\<forall>m < length (func_insts f). encoded_at refs (func_insts f ! m) (base + insts_len (take m (func_insts f))) bytes (insts_len (take m (func_insts f)))"
    using x86_emit_insts_located[OF assms] by auto
  then show "length bytes = insts_len (func_insts f)" by simp
  assume i: "j < length (xf_blocks f)" "n < length (xb_insts (xf_blocks f ! j))"
  have l: "j < length (map xb_insts (xf_blocks f))" "n < length (map xb_insts (xf_blocks f) ! j)" using i by simp_all
  obtain m where "m < length (func_insts f)" "func_insts f ! m = xb_insts (xf_blocks f ! j) ! n" "insts_len (take m (func_insts f)) = inst_pos f j n"
    using concat_nth_split[OF l] i(1) unfolding func_insts_def inst_pos_def by (auto simp: take_map)
  with e(2) show "encoded_at refs (xb_insts (xf_blocks f ! j) ! n) (base + inst_pos f j n) bytes (inst_pos f j n)" by metis
qed

text \<open>Every function with its own table of blocks.\<close>

definition func_tables :: "(string \<rightharpoonup> nat) \<Rightarrow> (string \<rightharpoonup> nat) \<Rightarrow> x86_func \<Rightarrow> nat \<Rightarrow> serialization_context" where
  "func_tables offs lits f base = func_refs offs lits (the (func_block_offsets f base))"

lemma x86_emit_funcs_located:
  assumes "emit_funcs offs lits base fs fx = Some (Inr (codes, fx'))"
  shows "length (concat codes) = funcs_len fs \<and>
    (\<forall>k < length fs. func_block_offsets (fs ! k) (base + funcs_len (take k fs)) \<noteq> None) \<and>
    (\<forall>k j n. code_index fs k j n \<longrightarrow>
       encoded_at (func_tables offs lits (fs ! k) (base + funcs_len (take k fs))) (code_inst fs k j n)
         (base + code_position fs k j n) (concat codes) (code_position fs k j n))"
  using assms
proof (induction fs arbitrary: base fx codes)
  case (Cons f fs)
  obtain boffs where b: "func_block_offsets f base = Some boffs" using Cons.prems by (cases "func_block_offsets f base") auto
  obtain bytes fx1 codes' where e: "emit_insts (func_tables offs lits f base) base (func_insts f) ([], fx) = Some (Inr (bytes, fx1))"
    "emit_funcs offs lits (base + length bytes) fs fx1 = Some (Inr (codes', fx'))" and codes: "codes = bytes # codes'"
    using Cons.prems b by (auto simp: func_tables_def map_sum_is_Inr split: option.splits sum.splits)
  note f = x86_emit_func_located[OF e(1)]
  have IH: "length (concat codes') = funcs_len fs"
    "\<And>k. k < length fs \<Longrightarrow> func_block_offsets (fs ! k) (base + length bytes + funcs_len (take k fs)) \<noteq> None"
    "\<And>k j n. code_index fs k j n \<Longrightarrow>
       encoded_at (func_tables offs lits (fs ! k) (base + length bytes + funcs_len (take k fs))) (code_inst fs k j n)
         (base + length bytes + code_position fs k j n) (concat codes') (code_position fs k j n)"
    using Cons.IH[OF e(2)] by blast+
  have "encoded_at (func_tables offs lits ((f # fs) ! k) (base + funcs_len (take k (f # fs)))) (code_inst (f # fs) k j n)
      (base + code_position (f # fs) k j n) (concat codes) (code_position (f # fs) k j n)" if i: "code_index (f # fs) k j n" for k j n
  proof (cases k)
    case 0
    then have "encoded_at (func_tables offs lits f base) (code_inst (f # fs) k j n) (base + inst_pos f j n) bytes (inst_pos f j n)"
      using f(2)[of j n] i by (simp add: code_index_def code_inst_def)
    then show ?thesis using 0 x86_encoded_at_append[of _ _ _ bytes _ "[]" "concat codes'"] by (simp add: codes code_position_def)
  next
    case (Suc k')
    then have i': "code_index fs k' j n" using i by (simp add: code_index_def)
    show ?thesis using IH(3)[OF i', THEN x86_encoded_at_append, of bytes "[]"] Suc f(1)
      by (simp add: codes code_position_def code_inst_def add.assoc)
  qed
  moreover have "func_block_offsets ((f # fs) ! k) (base + funcs_len (take k (f # fs))) \<noteq> None" if "k < length (f # fs)" for k
    using that b IH(2) f(1) by (cases k) (auto simp: add.assoc)
  ultimately show ?case using IH(1) f(1) codes by simp
qed (simp add: code_index_def)

subsection \<open>The tables\<close>

lemma x86_plan_tables:
  "plan_funcs fs (offs, lits, off) = Some (offs', lits', off') \<Longrightarrow>
     off' = off + funcs_len fs \<and> lits' = fold collect_literals fs lits \<and>
     (\<forall>g. g \<notin> xf_name ` set fs \<longrightarrow> offs' g = offs g) \<and>
     (distinct (map xf_name fs) \<longrightarrow> (\<forall>k < length fs. offs' (xf_name (fs ! k)) = Some (off + funcs_len (take k fs))))"
proof (induction fs arbitrary: offs lits off)
  case (Cons f fs)
  obtain n where n: "code_size f = Some n"
    "plan_funcs fs (offs(xf_name f \<mapsto> off), collect_literals f lits, off + n) = Some (offs', lits', off')"
    using Cons.prems by (auto simp: bind_eq_Some_conv)
  note IH = Cons.IH[OF n(2)] and sz = code_size_Some[OF n(1)]
  have "offs' (xf_name ((f # fs) ! k)) = Some (off + funcs_len (take k (f # fs)))"
    if "distinct (map xf_name (f # fs))" "k < length (f # fs)" for k
    using that IH sz by (cases k) (auto simp: add.assoc)
  then show ?case using IH sz by (simp add: add.assoc)
qed simp

lemma x86_offsets_from:
  "offsets_from off bs offs = Some offs' \<Longrightarrow>
     (\<forall>b. b \<notin> xb_id ` set bs \<longrightarrow> offs' b = offs b) \<and>
     (distinct (map xb_id bs) \<longrightarrow> (\<forall>j < length bs. offs' (xb_id (bs ! j)) = Some (off + insts_len (concat (map xb_insts (take j bs))))))"
proof (induction bs arbitrary: off offs)
  case (Cons b bs)
  obtain n where n: "block_size b = Some n" "offsets_from (off + n) bs (offs(xb_id b \<mapsto> off)) = Some offs'"
    using Cons.prems by (auto simp: bind_eq_Some_conv)
  note IH = Cons.IH[OF n(2)] and sz = block_size_Some[OF n(1)]
  have "offs' (xb_id ((b # bs) ! j)) = Some (off + insts_len (concat (map xb_insts (take j (b # bs)))))"
    if "distinct (map xb_id (b # bs))" "j < length (b # bs)" for j
    using that IH sz by (cases j) (auto simp: add.assoc)
  then show ?case using IH by simp
qed simp

text \<open>What the instructions of function \<open>k\<close> are encoded against.\<close>

definition module_tables :: "x86_func list \<Rightarrow> nat \<Rightarrow> serialization_context" where
  "module_tables fs k = func_tables (fst (the (plan_funcs fs (Map.empty, [], 0))))
     (fst (place_literals (funcs_len fs) (fold collect_literals fs []))) (fs ! k) (funcs_len (take k fs))"

lemma x86_encode_module_emits:
  assumes "encode_module fs = Some (Inr e)"
  obtains offs where "plan_funcs fs (Map.empty, [], 0) = Some (offs, fold collect_literals fs [], funcs_len fs)"
    "emit_funcs offs (fst (place_literals (funcs_len fs) (fold collect_literals fs []))) 0 fs [] = Some (Inr (en_code e, en_fixups e))"
    "en_literals e = snd (place_literals (funcs_len fs) (fold collect_literals fs []))"
proof -
  obtain offs lits off where p: "plan_funcs fs (Map.empty, [], 0) = Some (offs, lits, off)"
    using assms by (auto simp: encode_module_def bind_eq_Some_conv)
  then have t: "off = funcs_len fs" "lits = fold collect_literals fs []" using x86_plan_tables[OF p] by simp_all
  obtain loffs bytes where l: "place_literals (funcs_len fs) (fold collect_literals fs []) = (loffs, bytes)" by fastforce
  show ?thesis using that[of offs] assms p l by (auto simp: encode_module_def t map_sum_is_Inr)
qed

lemma x86_module_encoded:
  assumes m: "encode_module fs = Some (Inr e)" and i: "code_index fs k j n"
  shows "encoded_at (module_tables fs k) (code_inst fs k j n) (code_position fs k j n) (image e) (code_position fs k j n)"
proof -
  obtain offs where o: "plan_funcs fs (Map.empty, [], 0) = Some (offs, fold collect_literals fs [], funcs_len fs)"
    "emit_funcs offs (fst (place_literals (funcs_len fs) (fold collect_literals fs []))) 0 fs [] = Some (Inr (en_code e, en_fixups e))"
    using x86_encode_module_emits[OF m] by blast
  show ?thesis using x86_emit_funcs_located[OF o(2)] i x86_encoded_at_append[of _ _ _ "concat (en_code e)" _ "[]" "en_literals e"]
    by (simp add: module_tables_def o(1) image_def)
qed

lemma x86_module_function_offset:
  assumes m: "encode_module fs = Some (Inr e)" and d: "distinct (map xf_name fs)" "k' < length fs"
  shows "function_offsets (module_tables fs k) (xf_name (fs ! k')) = Some (code_position fs k' 0 0)"
proof -
  obtain offs where o: "plan_funcs fs (Map.empty, [], 0) = Some (offs, fold collect_literals fs [], funcs_len fs)"
    using x86_encode_module_emits[OF m] by blast
  show ?thesis using x86_plan_tables[OF o] d by (simp add: module_tables_def o func_tables_def func_refs_def code_position_def inst_pos_def)
qed

lemma x86_module_block_table:
  assumes m: "encode_module fs = Some (Inr e)" and k: "k < length fs"
  obtains boffs where "offsets_from (funcs_len (take k fs)) (xf_blocks (fs ! k)) Map.empty = Some boffs" "block_offsets (module_tables fs k) = boffs"
proof -
  obtain offs where o: "plan_funcs fs (Map.empty, [], 0) = Some (offs, fold collect_literals fs [], funcs_len fs)"
    "emit_funcs offs (fst (place_literals (funcs_len fs) (fold collect_literals fs []))) 0 fs [] = Some (Inr (en_code e, en_fixups e))"
    using x86_encode_module_emits[OF m] by blast
  show ?thesis using x86_emit_funcs_located[OF o(2)] k that
    by (auto simp: module_tables_def func_tables_def func_refs_def func_block_offsets_def)
qed

lemma x86_module_block_offset:
  assumes m: "encode_module fs = Some (Inr e)" and k: "k < length fs" and d: "distinct (map xb_id (xf_blocks (fs ! k)))"
  shows "j < length (xf_blocks (fs ! k)) \<Longrightarrow> block_offsets (module_tables fs k) (xb_id (xf_blocks (fs ! k) ! j)) = Some (code_position fs k j 0)"
    and "block_offsets (module_tables fs k) b = Some off \<Longrightarrow> \<exists>j < length (xf_blocks (fs ! k)). b = xb_id (xf_blocks (fs ! k) ! j) \<and> off = code_position fs k j 0"
proof -
  obtain boffs where o: "offsets_from (funcs_len (take k fs)) (xf_blocks (fs ! k)) Map.empty = Some boffs" "block_offsets (module_tables fs k) = boffs"
    using x86_module_block_table[OF m k] by blast
  note t = x86_offsets_from[OF o(1)]
  show at: "block_offsets (module_tables fs k) (xb_id (xf_blocks (fs ! k) ! j)) = Some (code_position fs k j 0)" if "j < length (xf_blocks (fs ! k))" for j
    using t d that by (simp add: o(2) code_position_def inst_pos_def)
  assume b: "block_offsets (module_tables fs k) b = Some off"
  then have "b \<in> xb_id ` set (xf_blocks (fs ! k))" using t by (auto simp: o(2))
  then obtain j where "j < length (xf_blocks (fs ! k))" "b = xb_id (xf_blocks (fs ! k) ! j)" by (auto simp: in_set_conv_nth)
  then show "\<exists>j < length (xf_blocks (fs ! k)). b = xb_id (xf_blocks (fs ! k) ! j) \<and> off = code_position fs k j 0" using at b by auto
qed

text \<open>Function \<open>k\<close>'s instructions follow each other, block after block.\<close>

lemma x86_code_position_Suc:
  "n < length (xb_insts (xf_blocks (fs ! k) ! j)) \<Longrightarrow> code_position fs k j (Suc n) = code_position fs k j n + len_of (code_inst fs k j n)"
  by (simp add: code_position_def inst_pos_def code_inst_def take_Suc_conv_app_nth)

lemma x86_code_position_block:
  "j < length (xf_blocks (fs ! k)) \<Longrightarrow> code_position fs k (Suc j) 0 = code_position fs k j (length (xb_insts (xf_blocks (fs ! k) ! j)))"
  by (simp add: code_position_def inst_pos_def take_Suc_conv_app_nth)

lemma x86_collect_all: "fold collect_literals fs lits = fold enter_literal (map coded_literal (concat (map func_insts fs))) lits"
  by (induction fs arbitrary: lits) (simp_all add: collect_literals_def func_insts_def note_literal_def[abs_def] fold_map comp_def)

lemma x86_all_insts: "ci \<in> set (concat (map func_insts fs)) \<longleftrightarrow> (\<exists>k j n. code_index fs k j n \<and> ci = code_inst fs k j n)"
proof
  assume "ci \<in> set (concat (map func_insts fs))"
  then obtain f b where "f \<in> set fs" "b \<in> set (xf_blocks f)" "ci \<in> set (xb_insts b)" by (auto simp: func_insts_def)
  then show "\<exists>k j n. code_index fs k j n \<and> ci = code_inst fs k j n"
    unfolding in_set_conv_nth code_index_def code_inst_def by blast
qed (auto simp: code_index_def code_inst_def func_insts_def intro!: bexI[OF _ nth_mem])

lemma x86_module_literal:
  assumes m: "encode_module fs = Some (Inr e)" and i: "code_index fs k j n" "coded_literal (code_inst fs k j n) = Some (l, b)"
    and same: "\<And>k j n b'. code_index fs k j n \<Longrightarrow> coded_literal (code_inst fs k j n) = Some (l, b') \<Longrightarrow> b' = b"
  shows "\<exists>p. literal_offsets (module_tables fs k) l = Some p \<and> located (image e) p b"
proof -
  let ?os = "map coded_literal (concat (map func_insts fs))"
  obtain offs where o: "emit_funcs offs (fst (place_literals (funcs_len fs) (fold collect_literals fs []))) 0 fs [] = Some (Inr (en_code e, en_fixups e))"
    and l: "en_literals e = snd (place_literals (funcs_len fs) (fold collect_literals fs []))"
    using x86_encode_module_emits[OF m] by blast
  have "code_inst fs k j n \<in> set (concat (map func_insts fs))" using i(1) x86_all_insts by blast
  then have lit: "Some (l, b) \<in> set ?os" unfolding list.set_map by (rule rev_image_eqI) (simp add: i(2))
  have only: "b' = b" if mem: "Some (l, b') \<in> set ?os" for b'
  proof -
    obtain ci where ci: "ci \<in> set (concat (map func_insts fs))" "Some (l, b') = coded_literal ci" using mem unfolding list.set_map by (rule imageE)
    then obtain k j n where "code_index fs k j n" "ci = code_inst fs k j n" using x86_all_insts by blast
    then show ?thesis using same ci(2) by simp
  qed
  obtain p where p: "fst (place_literals (funcs_len fs) (fold collect_literals fs [])) l = Some (funcs_len fs + p)" "located (en_literals e) p b"
    using literal_table[OF lit only, of "funcs_len fs"] unfolding x86_collect_all l by blast
  have "length (concat (en_code e)) = funcs_len fs" using x86_emit_funcs_located[OF o] by blast
  then have "located (image e) (funcs_len fs + p) b" using located_post[OF p(2), of "concat (en_code e)"] by (simp add: image_def)
  then show ?thesis using p(1) by (auto simp: module_tables_def func_tables_def func_refs_def)
qed

subsection \<open>Properties\<close>

text \<open>
  (C11) The layout is exact: in a module with distinct function names and block ids, every instruction was encoded for the
  address at which its bytes are in the image, against tables that hold the address of every function and of every block of its
  function; the next instruction is right behind it, and the next block behind a block's last.
\<close>

theorem x86_module_layout_exact:
  assumes "encode_module fs = Some (Inr e)" "distinct (map xf_name fs)" "list_all (\<lambda>f. distinct (map xb_id (xf_blocks f))) fs"
    and "code_index fs k j n"
  shows "\<exists>enc refs. encode_inst (fst (code_inst fs k j n)) (fst (snd (code_inst fs k j n))) (code_position fs k j n) (Some refs) = Some (Inr enc)
    \<and> located (image e) (code_position fs k j n) (be_bytes enc)
    \<and> (\<forall>k' < length fs. function_offsets refs (xf_name (fs ! k')) = Some (code_position fs k' 0 0))
    \<and> (\<forall>j' < length (xf_blocks (fs ! k)). block_offsets refs (xb_id (xf_blocks (fs ! k) ! j')) = Some (code_position fs k j' 0))
    \<and> (if Suc n = length (xb_insts (xf_blocks (fs ! k) ! j)) then code_position fs k (Suc j) 0 else code_position fs k j (Suc n))
        = code_position fs k j n + length (be_bytes enc)"
proof -
  have k: "k < length fs" "j < length (xf_blocks (fs ! k))" "n < length (xb_insts (xf_blocks (fs ! k) ! j))"
    using assms(4) by (simp_all add: code_index_def)
  have d: "distinct (map xb_id (xf_blocks (fs ! k)))" using assms(3) k(1) by (simp add: list_all_length)
  obtain enc where enc: "encode_inst (fst (code_inst fs k j n)) (fst (snd (code_inst fs k j n))) (code_position fs k j n) (Some (module_tables fs k)) = Some (Inr enc)"
    "length (be_bytes enc) = len_of (code_inst fs k j n)" "located (image e) (code_position fs k j n) (be_bytes enc)"
    using x86_module_encoded[OF assms(1,4)] by (auto simp: encoded_at_def)
  have step: "(if Suc n = length (xb_insts (xf_blocks (fs ! k) ! j)) then code_position fs k (Suc j) 0 else code_position fs k j (Suc n))
      = code_position fs k j n + length (be_bytes enc)"
    unfolding enc(2) x86_code_position_Suc[OF k(3), symmetric] x86_code_position_block[OF k(2)] by simp
  show ?thesis
    using enc(1,3) step x86_module_function_offset[OF assms(1,2)] x86_module_block_offset(1)[OF assms(1) k(1) d]
    by (intro exI[of _ enc] exI[of _ "module_tables fs k"]) simp
qed

text \<open>
  (C10) Transfers of control in an encoded module that is loaded at \<open>base\<close>: running the bytes of a branch, from its place in the
  image, ends at the first byte of the block it names, or behind it when it is not taken; a call of a function of the module
  pushes the address behind it and goes to the function's first byte; and the address instruction of a literal loads
  the address at which the literal's bytes are, when the module's instructions agree on what they are.
\<close>

theorem x86_module_transfers_reach:
  assumes m: "encode_module fs = Some (Inr e)" and d: "distinct (map xf_name fs)" "list_all (\<lambda>f. distinct (map xb_id (xf_blocks f))) fs"
    and i: "code_index fs k j n" "code_inst fs k j n = (CtlOp x, i, lit)" "gprs i" and s: "st_rip s = base + of_nat (code_position fs k j n)"
  shows "\<exists>bytes. located (image e) (code_position fs k j n) bytes
    \<and> (x \<in> {X_Jmp, X_Jcc, X_TestJnz} \<longrightarrow> (\<exists>j' f. j' < length (xf_blocks (fs ! k)) \<and> x_target i = Some (xb_id (xf_blocks (fs ! k) ! j'))
        \<and> run und bytes s = Some (s\<lparr>st_flags := f,
            st_rip := base + of_nat (if taken x i s then code_position fs k j' 0 else code_position fs k j n + length bytes)\<rparr>)))
    \<and> (\<forall>k' < length fs. x = X_Call \<and> x_callee i = Some (xf_name (fs ! k')) \<longrightarrow>
        run und bytes s = Some ((push_value (base + of_nat (code_position fs k j n + length bytes)) s)\<lparr>st_rip := base + of_nat (code_position fs k' 0 0)\<rparr>))
    \<and> (\<forall>l b. x = X_AdrLiteral \<and> coded_literal (code_inst fs k j n) = Some (l, b)
          \<and> (\<forall>k j n b'. code_index fs k j n \<and> coded_literal (code_inst fs k j n) = Some (l, b') \<longrightarrow> b' = b) \<longrightarrow>
        (\<exists>p. located (image e) p b \<and> runs_to und bytes s (set_rd i (base + of_nat p) s)))"
proof -
  have k: "k < length fs" using i(1) by (simp add: code_index_def)
  have dk: "distinct (map xb_id (xf_blocks (fs ! k)))" using d(2) k by (simp add: list_all_length)
  obtain enc where enc: "encode_ctl_op x i (code_position fs k j n) (Some (module_tables fs k)) = Some (Inr enc)"
    "located (image e) (code_position fs k j n) (be_bytes enc)"
    using x86_module_encoded[OF m i(1)] by (auto simp: encoded_at_def i(2) encode_inst_def)
  note r = x86_transfers_reach[OF enc(1) i(3) s, of und]
  have branch: "\<exists>j' f. j' < length (xf_blocks (fs ! k)) \<and> x_target i = Some (xb_id (xf_blocks (fs ! k) ! j'))
        \<and> run und (be_bytes enc) s = Some (s\<lparr>st_flags := f,
            st_rip := base + of_nat (if taken x i s then code_position fs k j' 0 else code_position fs k j n + length (be_bytes enc))\<rparr>)"
    if br: "x \<in> {X_Jmp, X_Jcc, X_TestJnz}"
  proof -
    obtain off f where o: "Option.bind (x_target i) (block_offsets (module_tables fs k)) = Some off"
      "run und (be_bytes enc) s = Some (s\<lparr>st_flags := f, st_rip := base + of_nat (if taken x i s then off else code_position fs k j n + length (be_bytes enc))\<rparr>)"
      using r br by blast
    obtain t where t: "x_target i = Some t" "block_offsets (module_tables fs k) t = Some off" using o(1) by (auto simp: bind_eq_Some_conv)
    then show ?thesis using x86_module_block_offset(2)[OF m k dk t(2)] o(2) by blast
  qed
  have call: "run und (be_bytes enc) s = Some ((push_value (base + of_nat (code_position fs k j n + length (be_bytes enc))) s)\<lparr>st_rip := base + of_nat (code_position fs k' 0 0)\<rparr>)"
    if "k' < length fs" "x = X_Call" "x_callee i = Some (xf_name (fs ! k'))" for k'
    using r that(2,3) x86_module_function_offset[OF m d(1) that(1), of k] by auto
  have literal: "\<exists>p. located (image e) p b \<and> runs_to und (be_bytes enc) s (set_rd i (base + of_nat p) s)"
    if l: "x = X_AdrLiteral" "coded_literal (code_inst fs k j n) = Some (l, b)"
      "\<forall>k j n b'. code_index fs k j n \<and> coded_literal (code_inst fs k j n) = Some (l, b') \<longrightarrow> b' = b" for l b
  proof -
    have "x_label i = Some l" using l(1,2) by (auto simp: coded_literal_def i(2) literal_for_inst_def bind_eq_Some_conv)
    moreover obtain p where "literal_offsets (module_tables fs k) l = Some p" "located (image e) p b"
      using x86_module_literal[OF m i(1) l(2)] l(3) by blast
    ultimately show ?thesis using r l(1) by auto
  qed
  show ?thesis using enc(2) branch call literal by (intro exI[of _ "be_bytes enc"]) blast
qed

subsubsection \<open>An example\<close>

text \<open>A loop that calls another function, and then loads the address of a literal.\<close>

definition example_module :: "x86_func list" where
  "example_module =
    [\<lparr>xf_name = ''f'', xf_stack_size = 0, xf_blocks =
       [\<lparr>xb_id = 0, xb_insts = [(CtlOp X_Call, no_fields\<lparr>x_callee := Some ''g''\<rparr>, None),
           (CtlOp X_TestJnz, no_fields\<lparr>x_rn := Some (gpr 2), x_target := Some 0\<rparr>, None)]\<rparr>,
        \<lparr>xb_id = 1, xb_insts = [(CtlOp X_AdrLiteral, no_fields\<lparr>x_rd := Some (gpr 0), x_label := Some ''l''\<rparr>, Some [1, 2]),
           (CtlOp X_Ret, no_fields, None)]\<rparr>]\<rparr>,
     \<lparr>xf_name = ''g'', xf_stack_size = 0, xf_blocks = [\<lparr>xb_id = 0, xb_insts = [(CtlOp X_Ret, no_fields, None)]\<rparr>]\<rparr>]"

definition example_encoded :: encoded_module where
  "example_encoded = \<lparr>en_code = [[0xe8, 17, 0, 0, 0, 0x48, 0x85, 0xd2, 0x0f, 0x85, 0xf2, 0xff, 0xff, 0xff,
     0x48, 0x8d, 5, 2, 0, 0, 0, 0xc3], [0xc3]], en_literals = [1, 2], en_fixups = []\<rparr>"

lemma x86_example_lens [simp]:
  "inst_len (CtlOp X_Call) (no_fields\<lparr>x_callee := Some ''g''\<rparr>) = Some 5"
  "inst_len (CtlOp X_TestJnz) (no_fields\<lparr>x_rn := Some (gpr 2), x_target := Some 0\<rparr>) = Some 9"
  "inst_len (CtlOp X_AdrLiteral) (no_fields\<lparr>x_rd := Some (gpr 0), x_label := Some ''l''\<rparr>) = Some 7"
  "inst_len (CtlOp X_Ret) no_fields = Some 1"
  by (simp_all add: inst_len_def encode_inst_def encode_call_def plain_def rel32_def no_fields_def parse_gpr_def gpr_def branch_target_def
      resolve_def emit_lea_rip_def)

lemma x86_example_insts:
  "function_offsets refs ''g'' = Some 22 \<Longrightarrow> encode_inst (CtlOp X_Call) (no_fields\<lparr>x_callee := Some ''g''\<rparr>) 0 (Some refs) =
     Some (Inr \<lparr>be_bytes = [0xe8, 17, 0, 0, 0], be_fixups = []\<rparr>)"
  "\<lbrakk>pc = 5; block_offsets refs 0 = Some 0\<rbrakk> \<Longrightarrow> encode_inst (CtlOp X_TestJnz) (no_fields\<lparr>x_rn := Some (gpr 2), x_target := Some 0\<rparr>) pc (Some refs) =
     Some (Inr \<lparr>be_bytes = [0x48, 0x85, 0xd2, 0x0f, 0x85, 0xf2, 0xff, 0xff, 0xff], be_fixups = []\<rparr>)"
  "\<lbrakk>pc = 14; literal_offsets refs ''l'' = Some 23\<rbrakk> \<Longrightarrow>
     encode_inst (CtlOp X_AdrLiteral) (no_fields\<lparr>x_rd := Some (gpr 0), x_label := Some ''l''\<rparr>) pc (Some refs) =
     Some (Inr \<lparr>be_bytes = [0x48, 0x8d, 5, 2, 0, 0, 0], be_fixups = []\<rparr>)"
  "encode_inst (CtlOp X_Ret) no_fields pc (Some refs) = Some (Inr \<lparr>be_bytes = [0xc3], be_fixups = []\<rparr>)"
  by (simp_all add: encode_inst_def encode_call_def plain_def rel32_def no_fields_def parse_gpr_def gpr_def branch_target_def
      resolve_def emit_lea_rip_def rex_def modrm_def low3_def i32_bytes_def le_bytes_def upt_rec)

lemma x86_example_encodes: "encode_module example_module = Some (Inr example_encoded)"
proof -
  have lits: "place_literals 23 [(''l'', [1, 2])] = ([''l'' \<mapsto> 23], [1, 2])" by (simp add: place_literals_def)
  have plan: "plan_funcs example_module (Map.empty, [], 0) = Some ([''f'' \<mapsto> 0, ''g'' \<mapsto> 22], [(''l'', [1, 2])], 23)"
    by (simp add: example_module_def code_size_def block_size_def coded_len_def collect_literals_def note_literal_def coded_literal_def
        literal_for_inst_def enter_literal_def)
  show ?thesis
    unfolding encode_module_def plan
    by (simp add: lits example_module_def example_encoded_def func_block_offsets_def block_size_def coded_len_def func_insts_def func_refs_def
        x86_example_insts)
qed

lemma x86_example_position: "code_position example_module 0 0 (Suc 0) = 5" "code_index example_module 0 0 (Suc 0)"
  "code_inst example_module 0 0 (Suc 0) = (CtlOp X_TestJnz, no_fields\<lparr>x_rn := Some (gpr 2), x_target := Some 0\<rparr>, None)"
  "distinct (map xf_name example_module)" "list_all (\<lambda>f. distinct (map xb_id (xf_blocks f))) example_module"
  by (simp_all add: code_position_def inst_pos_def len_of_def coded_len_def code_index_def code_inst_def example_module_def)

theorem x86_module_layout_exact_witness:
  "\<exists>enc refs. encode_inst (CtlOp X_TestJnz) (no_fields\<lparr>x_rn := Some (gpr 2), x_target := Some 0\<rparr>) 5 (Some refs) = Some (Inr enc)
    \<and> located (image example_encoded) 5 (be_bytes enc) \<and> function_offsets refs ''g'' = Some 22 \<and> block_offsets refs 1 = Some 14
    \<and> 5 + length (be_bytes enc) = 14"
proof -
  have p: "code_position example_module 0 (Suc 0) 0 = 14" "code_position example_module (Suc 0) 0 0 = 22"
    by (simp_all add: code_position_def inst_pos_def len_of_def coded_len_def func_insts_def example_module_def)
  obtain enc refs where e: "encode_inst (fst (code_inst example_module 0 0 (Suc 0))) (fst (snd (code_inst example_module 0 0 (Suc 0))))
      (code_position example_module 0 0 (Suc 0)) (Some refs) = Some (Inr enc)"
    "located (image example_encoded) (code_position example_module 0 0 (Suc 0)) (be_bytes enc)"
    and f: "\<forall>k' < length example_module. function_offsets refs (xf_name (example_module ! k')) = Some (code_position example_module k' 0 0)"
    and b: "\<forall>j' < length (xf_blocks (example_module ! 0)). block_offsets refs (xb_id (xf_blocks (example_module ! 0) ! j')) = Some (code_position example_module 0 j' 0)"
    and n: "(if Suc (Suc 0) = length (xb_insts (xf_blocks (example_module ! 0) ! 0)) then code_position example_module 0 (Suc 0) 0
        else code_position example_module 0 0 (Suc (Suc 0))) = code_position example_module 0 0 (Suc 0) + length (be_bytes enc)"
    using x86_module_layout_exact[OF x86_example_encodes x86_example_position(4,5,2)] by blast
  have "function_offsets refs ''g'' = Some 22" using f[rule_format, of "Suc 0"] p(2) by (simp add: example_module_def)
  moreover have "block_offsets refs 1 = Some 14" using b[rule_format, of "Suc 0"] p(1) by (simp add: example_module_def)
  moreover have "5 + length (be_bytes enc) = 14" using n p(1) by (simp add: x86_example_position(1)) (simp add: example_module_def)
  ultimately show ?thesis using e by (intro exI[of _ enc] exI[of _ refs]) (simp add: x86_example_position(1,3))
qed

theorem x86_module_transfers_reach_witness:
  "\<forall>und s. \<exists>bytes f. located (image example_encoded) 5 bytes \<and> run und bytes (s\<lparr>st_rip := 0x1005\<rparr>) =
     Some (s\<lparr>st_flags := f, st_rip := (if st_regs s 2 \<noteq> 0 then 0x1000 else 0x1005 + of_nat (length bytes))\<rparr>)"
proof (intro allI)
  fix und :: "insn \<Rightarrow> x86_state \<Rightarrow> rflags" and s :: x86_state
  let ?i = "no_fields\<lparr>x_rn := Some (gpr 2), x_target := Some 0\<rparr>"
  have g: "gprs ?i"
    unfolding gprs_def
  proof (intro allI impI)
    fix key n assume "operand key ?i = Some (Physical (PGpr64 n))"
    then show "n < 16" by (cases key) (auto simp: gpr_def no_fields_def)
  qed
  have r: "st_rip (s\<lparr>st_rip := 0x1005\<rparr>) = 0x1000 + of_nat (code_position example_module 0 0 (Suc 0))" by (simp add: x86_example_position(1))
  obtain bytes j' f where b: "located (image example_encoded) (code_position example_module 0 0 (Suc 0)) bytes"
    "j' < length (xf_blocks (example_module ! 0))" "x_target ?i = Some (xb_id (xf_blocks (example_module ! 0) ! j'))"
    "run und bytes (s\<lparr>st_rip := 0x1005\<rparr>) = Some (s\<lparr>st_rip := 0x1005, st_flags := f, st_rip := 0x1000 + of_nat
       (if taken X_TestJnz ?i (s\<lparr>st_rip := 0x1005\<rparr>) then code_position example_module 0 j' 0
        else code_position example_module 0 0 (Suc 0) + length bytes)\<rparr>)"
    using x86_module_transfers_reach[OF x86_example_encodes x86_example_position(4,5,2,3) g r, of und] by blast
  have "j' = 0" using b(2,3) by (cases j') (auto simp: example_module_def no_fields_def less_Suc_eq)
  moreover have "code_position example_module 0 0 0 = 0" by (simp add: code_position_def inst_pos_def)
  ultimately show "\<exists>bytes f. located (image example_encoded) 5 bytes \<and> run und bytes (s\<lparr>st_rip := 0x1005\<rparr>) =
     Some (s\<lparr>st_flags := f, st_rip := (if st_regs s 2 \<noteq> 0 then 0x1000 else 0x1005 + of_nat (length bytes))\<rparr>)"
    using b(1,4) by (intro exI[of _ bytes] exI[of _ f]) (simp add: x86_example_position(1) taken_def reg_value_def gpr_def)
qed

end
