(* ===== verification/X86_Alloc.thy ===== *)
theory X86_Alloc
  imports X86_Encode Live_Flow "HOL-Library.Product_Lexorder" "HOL-Library.Multiset"
begin

text \<open>
  Register allocation for x86-64:
  \<^verbatim>\<open>crates/pliron-ll/src/passes/x86_64_darwin/x86_64_register_allocate.rs\<close>.  Four callee-saved registers are handed out;
  values live across a call always go to a slot of the frame.  The slots are addressed from the stack pointer as it is behind
  the prologue.
\<close>

subsection \<open>Registers\<close>

definition ALLOCATABLE_GPRS :: "register list" where
  "ALLOCATABLE_GPRS = [gpr 3, gpr 12, gpr 13, gpr 14]"

definition SPILL_SCRATCH_GPRS :: "register list" where
  "SPILL_SCRATCH_GPRS = [gpr 10, gpr 11, gpr 15]"

definition SPILL_SLOT_BYTES :: nat where "SPILL_SLOT_BYTES = 8"

definition virtual_operands_with_kind :: "x86_coded \<Rightarrow> operand_kind \<Rightarrow> (operand_key \<times> nat) list" where
  "virtual_operands_with_kind ci kind =
     List.map_filter (\<lambda>(key, reg, k). if k = kind then (case reg of Virtual v Gpr64 \<Rightarrow> Some (key, v) | _ \<Rightarrow> None) else None)
       (register_operands (fst ci) (fst (snd ci)))"

definition virtual_uses :: "x86_coded \<Rightarrow> nat list" where
  "virtual_uses ci = map snd (virtual_operands_with_kind ci Use)"

definition virtual_defs :: "x86_coded \<Rightarrow> nat list" where
  "virtual_defs ci = map snd (virtual_operands_with_kind ci Def)"

subsection \<open>Successors\<close>

definition block_index :: "x86_block list \<Rightarrow> nat \<rightharpoonup> nat" where
  "block_index blocks = map_of (rev (zip (map xb_id blocks) [0..<length blocks]))"

definition branches :: "x86_coded \<Rightarrow> bool" where
  "branches ci \<longleftrightarrow> fst ci \<in> {CtlOp X_Jmp, CtlOp X_Jcc, CtlOp X_TestJnz}"

text \<open>An unconditional branch or the end of the function.\<close>

definition leaves :: "x86_coded \<Rightarrow> bool" where
  "leaves ci \<longleftrightarrow> fst ci \<in> {CtlOp X_Jmp, CtlOp X_Ret, CtlOp X_Ud2}"

definition successor_set :: "(nat \<rightharpoonup> nat) \<Rightarrow> nat \<Rightarrow> nat \<Rightarrow> x86_coded list \<Rightarrow> nat set" where
  "successor_set idx n index insts =
     set (List.map_filter (\<lambda>ci. Option.bind (x_target (fst (snd ci))) idx) (filter branches insts)) \<union>
     (if \<not> list_ex leaves insts \<and> index + 1 < n then {index + 1} else {})"

definition block_successors :: "x86_block list \<Rightarrow> nat list list" where
  "block_successors blocks =
     map (\<lambda>(index, b). sorted_list_of_set (successor_set (block_index blocks) (length blocks) index (xb_insts b)))
       (zip [0..<length blocks] blocks)"

subsection \<open>Live intervals\<close>

text \<open>What a block reads before it writes, and what it writes.\<close>

fun note_inst :: "x86_coded \<Rightarrow> nat set \<times> nat set \<Rightarrow> nat set \<times> nat set" where
  "note_inst ci (uses, defs) = (uses \<union> (set (virtual_uses ci) - defs), defs \<union> set (virtual_defs ci))"

definition block_uses_defs :: "x86_coded list \<Rightarrow> nat set \<times> nat set" where
  "block_uses_defs insts = fold note_inst insts ({}, {})"

definition flow_of :: "x86_block list \<Rightarrow> nat flow" where
  "flow_of blocks = zip (block_successors blocks) (map (block_uses_defs \<circ> xb_insts) blocks)"

fun point_step :: "nat \<times> x86_coded \<Rightarrow> nat set \<times> nat points \<Rightarrow> nat set \<times> nat points" where
  "point_step (index, ci) (live, points) =
     ((live - set (virtual_defs ci)) \<union> set (virtual_uses ci),
      fold (touch index) (sorted_list_of_set live @ virtual_uses ci @ virtual_defs ci) points)"

definition block_points :: "nat \<Rightarrow> x86_coded list \<Rightarrow> nat set \<Rightarrow> nat points \<Rightarrow> nat points" where
  "block_points next_index insts out points = snd (fold point_step (rev (enumerate next_index insts)) (out, points))"

fun collect_points :: "nat \<Rightarrow> (x86_coded list \<times> nat set) list \<Rightarrow> nat points \<Rightarrow> nat points" where
  "collect_points next_index [] points = points"
| "collect_points next_index ((insts, out) # bs) points =
     collect_points (next_index + length insts) bs (block_points next_index insts out points)"

record live_interval =
  li_vreg :: nat
  li_start :: nat
  li_end :: nat

definition intervals_of :: "nat points \<Rightarrow> live_interval list" where
  "intervals_of points = sort_key (\<lambda>i. (li_start i, li_end i, li_vreg i))
     (map (\<lambda>(v, (s, e)). \<lparr>li_vreg = v, li_start = s, li_end = e\<rparr>) points)"

definition collect_live_intervals :: "x86_block list \<Rightarrow> (x86_coded list \<times> live_interval list) option" where
  "collect_live_intervals blocks =
     map_option (\<lambda>ls. (concat (map xb_insts blocks), intervals_of (collect_points 0 (zip (map xb_insts blocks) (ls_out ls)) [])))
       (flow_loop (flow_of blocks))"

definition is_call :: "x86_coded \<Rightarrow> bool" where
  "is_call ci \<longleftrightarrow> fst ci = CtlOp X_Call \<or> fst ci = CtlOp X_CallReg"

definition values_live_across_calls :: "x86_coded list \<Rightarrow> live_interval list \<Rightarrow> nat set" where
  "values_live_across_calls insts ivs =
     li_vreg ` set (filter (\<lambda>i. list_ex (\<lambda>c. li_start i < c \<and> c < li_end i) (map fst (filter (is_call \<circ> snd) (enumerate 0 insts)))) ivs)"

subsection \<open>Linear scan\<close>

record active_interval =
  ai_interval :: live_interval
  ai_phys :: nat

datatype allocation = Phys nat | Spill nat

record scan_state =
  sc_active :: "active_interval list"
  sc_free :: "nat list"
  sc_assignments :: "nat \<rightharpoonup> allocation"
  sc_spill_slots :: nat

definition expire_old_intervals :: "nat \<Rightarrow> active_interval list \<Rightarrow> nat list \<Rightarrow> active_interval list \<times> nat list" where
  "expire_old_intervals current_start active free =
     (filter (\<lambda>a. \<not> li_end (ai_interval a) < current_start) active,
      free @ map ai_phys (filter (\<lambda>a. li_end (ai_interval a) < current_start) active))"

definition active_key :: "active_interval \<Rightarrow> nat \<times> nat" where
  "active_key a = (li_end (ai_interval a), ai_phys a)"

text \<open>\<open>Iterator::max_by\<close>: the last of equal elements.\<close>

fun last_active :: "active_interval list \<Rightarrow> active_interval option" where
  "last_active [] = None"
| "last_active (a # as) = (case last_active as of
     None \<Rightarrow> Some a
   | Some b \<Rightarrow> Some (if active_key b < active_key a then a else b))"

definition spill_at_interval :: "live_interval \<Rightarrow> active_interval list \<Rightarrow> (active_interval \<times> active_interval list) option" where
  "spill_at_interval current active = Option.bind (last_active active) (\<lambda>a.
     if li_end (ai_interval a) > li_end current then Some (a, remove1 a active) else None)"

definition spill_vreg :: "nat \<Rightarrow> scan_state \<Rightarrow> scan_state" where
  "spill_vreg v st = st\<lparr>sc_assignments := (sc_assignments st)(v \<mapsto> Spill (sc_spill_slots st)), sc_spill_slots := sc_spill_slots st + 1\<rparr>"

definition occupy :: "live_interval \<Rightarrow> nat \<Rightarrow> scan_state \<Rightarrow> scan_state" where
  "occupy i p st = st\<lparr>sc_assignments := (sc_assignments st)(li_vreg i \<mapsto> Phys p),
     sc_active := sort_key active_key (sc_active st @ [\<lparr>ai_interval = i, ai_phys = p\<rparr>])\<rparr>"

definition scan_interval :: "nat set \<Rightarrow> live_interval \<Rightarrow> scan_state \<Rightarrow> scan_state" where
  "scan_interval forced_spills i st =
     (if li_vreg i \<in> forced_spills then spill_vreg (li_vreg i) st
      else case expire_old_intervals (li_start i) (sc_active st) (sc_free st) of (active, free) \<Rightarrow>
        (case sort free of
           p # free' \<Rightarrow> occupy i p (st\<lparr>sc_active := active, sc_free := free'\<rparr>)
         | [] \<Rightarrow>
             (case spill_at_interval i active of
                Some (a, active') \<Rightarrow>
                  occupy i (ai_phys a) (spill_vreg (li_vreg (ai_interval a)) (st\<lparr>sc_active := active', sc_free := []\<rparr>))
              | None \<Rightarrow> spill_vreg (li_vreg i) (st\<lparr>sc_active := active, sc_free := []\<rparr>))))"

definition linear_scan :: "live_interval list \<Rightarrow> nat set \<Rightarrow> scan_state" where
  "linear_scan ivs forced_spills = fold (scan_interval forced_spills) ivs
     \<lparr>sc_active = [], sc_free = [0..<length ALLOCATABLE_GPRS], sc_assignments = Map.empty, sc_spill_slots = 0\<rparr>"

subsection \<open>Rewriting\<close>

definition mk :: "x86_opcode \<Rightarrow> x86_inst \<Rightarrow> x86_coded" where
  "mk opcode i = (opcode, i, None)"

definition ldr_sp_offset :: "register \<Rightarrow> nat \<Rightarrow> x86_coded" where
  "ldr_sp_offset rt offset = mk (MemOp X_LdrSpOffset) (no_fields\<lparr>x_rd := Some rt, x_imm := Some offset\<rparr>)"

definition str_sp_offset :: "register \<Rightarrow> nat \<Rightarrow> x86_coded" where
  "str_sp_offset rt offset = mk (MemOp X_StrSpOffset) (no_fields\<lparr>x_rd := Some rt, x_imm := Some offset\<rparr>)"

fun rewrite_register_operand :: "operand_key \<Rightarrow> register \<Rightarrow> x86_inst \<Rightarrow> x86_inst" where
  "rewrite_register_operand Rd r i = i\<lparr>x_rd := Some r\<rparr>"
| "rewrite_register_operand Rn r i = i\<lparr>x_rn := Some r\<rparr>"
| "rewrite_register_operand Rm r i = i\<lparr>x_rm := Some r\<rparr>"

definition next_spill_scratch :: "nat \<Rightarrow> register crabbit_result" where
  "next_spill_scratch scratch_index =
     (if scratch_index < length SPILL_SCRATCH_GPRS then Inr (SPILL_SCRATCH_GPRS ! scratch_index)
      else Inl ''instruction needs more spill scratch registers than are reserved'')"

record rewrite_state =
  rw_before :: "x86_coded list"
  rw_inst :: x86_inst
  rw_after :: "x86_coded list"
  rw_scratch :: nat
  rw_spilled :: "(operand_key \<times> nat) \<rightharpoonup> register"

fun rewrite_use :: "(nat \<rightharpoonup> allocation) \<Rightarrow> nat \<Rightarrow> operand_key \<times> nat \<Rightarrow> rewrite_state \<Rightarrow> rewrite_state crabbit_result" where
  "rewrite_use assignments spill_base (key, v) st = (case assignments v of
     Some (Phys p) \<Rightarrow> Inr (st\<lparr>rw_inst := rewrite_register_operand key (ALLOCATABLE_GPRS ! p) (rw_inst st)\<rparr>)
   | Some (Spill slot) \<Rightarrow> sum_bind (next_spill_scratch (rw_scratch st)) (\<lambda>scratch.
       Inr (st\<lparr>rw_before := rw_before st @ [ldr_sp_offset scratch (spill_base + slot * SPILL_SLOT_BYTES)],
         rw_inst := rewrite_register_operand key scratch (rw_inst st), rw_scratch := rw_scratch st + 1,
         rw_spilled := (rw_spilled st)((key, v) \<mapsto> scratch)\<rparr>))
   | None \<Rightarrow> Inr st)"

fun rewrite_def :: "(nat \<rightharpoonup> allocation) \<Rightarrow> nat \<Rightarrow> operand_key \<times> nat \<Rightarrow> rewrite_state \<Rightarrow> rewrite_state crabbit_result" where
  "rewrite_def assignments spill_base (key, v) st = (case assignments v of
     Some (Phys p) \<Rightarrow> Inr (st\<lparr>rw_inst := rewrite_register_operand key (ALLOCATABLE_GPRS ! p) (rw_inst st)\<rparr>)
   | Some (Spill slot) \<Rightarrow>
       sum_bind (case rw_spilled st (key, v) of
           Some scratch \<Rightarrow> Inr (scratch, rw_scratch st)
         | None \<Rightarrow> sum_bind (next_spill_scratch (rw_scratch st)) (\<lambda>scratch. Inr (scratch, rw_scratch st + 1)))
         (\<lambda>(scratch, n). Inr (st\<lparr>rw_inst := rewrite_register_operand key scratch (rw_inst st), rw_scratch := n,
            rw_after := str_sp_offset scratch (spill_base + slot * SPILL_SLOT_BYTES) # rw_after st\<rparr>))
   | None \<Rightarrow> Inr st)"

text \<open>A fallible step for every element, in order.\<close>

fun try_fold :: "('a \<Rightarrow> 's \<Rightarrow> 's crabbit_result) \<Rightarrow> 'a list \<Rightarrow> 's \<Rightarrow> 's crabbit_result" where
  "try_fold f [] st = Inr st"
| "try_fold f (x # xs) st = sum_bind (f x st) (try_fold f xs)"

definition rewrite_inst :: "(nat \<rightharpoonup> allocation) \<Rightarrow> nat \<Rightarrow> x86_coded \<Rightarrow> x86_coded list crabbit_result" where
  "rewrite_inst assignments spill_base ci = (case ci of (opcode, i, lit) \<Rightarrow>
     sum_bind (try_fold (rewrite_use assignments spill_base) (virtual_operands_with_kind ci Use)
         \<lparr>rw_before = [], rw_inst = i, rw_after = [], rw_scratch = 0, rw_spilled = Map.empty\<rparr>) (\<lambda>st.
     sum_bind (try_fold (rewrite_def assignments spill_base) (virtual_operands_with_kind ci Def) st) (\<lambda>st.
     Inr (rw_before st @ (opcode, rw_inst st, lit) # rw_after st))))"

definition rewrite_block :: "(nat \<rightharpoonup> allocation) \<Rightarrow> nat \<Rightarrow> x86_block \<Rightarrow> x86_block crabbit_result" where
  "rewrite_block assignments spill_base b = map_sum id (\<lambda>insts. b\<lparr>xb_insts := insts\<rparr>)
     (try_fold (\<lambda>ci insts. map_sum id (\<lambda>new. insts @ new) (rewrite_inst assignments spill_base ci)) (xb_insts b) [])"

definition rewrite_allocated_registers :: "(nat \<rightharpoonup> allocation) \<Rightarrow> nat \<Rightarrow> x86_block list \<Rightarrow> x86_block list crabbit_result" where
  "rewrite_allocated_registers assignments spill_base blocks =
     try_fold (\<lambda>b bs. map_sum id (\<lambda>b'. bs @ [b']) (rewrite_block assignments spill_base b)) blocks []"

definition align_to_16 :: "nat \<Rightarrow> nat" where
  "align_to_16 bytes = (bytes + 15) div 16 * 16"

text \<open>\<open>None\<close> if the iteration over the live sets did not end.\<close>

definition allocate_function :: "x86_func \<Rightarrow> x86_func crabbit_result option" where
  "allocate_function f = map_option (\<lambda>(insts, ivs).
     let allocation = linear_scan ivs (values_live_across_calls insts ivs) in
     map_sum id (\<lambda>blocks. f\<lparr>xf_blocks := blocks,
         xf_stack_size := align_to_16 (xf_stack_size f + sc_spill_slots allocation * SPILL_SLOT_BYTES)\<rparr>)
       (rewrite_allocated_registers (sc_assignments allocation) (xf_stack_size f) (xf_blocks f)))
     (collect_live_intervals (xf_blocks f))"

subsection \<open>The scan keeps registers apart\<close>

definition apart :: "live_interval \<Rightarrow> live_interval \<Rightarrow> bool" where
  "apart i j \<longleftrightarrow> li_end i < li_start j \<or> li_end j < li_start i"

text \<open>
  The state after the intervals \<open>P\<close>, the last of which starts at \<open>t\<close>: no register is twice with an active interval, free or
  in \<open>held\<close>; an interval with a register is active or has ended; intervals with the same register are apart; and
  no two values share a slot.
\<close>

definition pool_ok :: "nat list \<Rightarrow> scan_state \<Rightarrow> bool" where
  "pool_ok held st \<longleftrightarrow> distinct (map ai_phys (sc_active st) @ sc_free st @ held) \<and> set (map ai_phys (sc_active st) @ sc_free st @ held) \<subseteq> {..<4}"

definition active_ok :: "live_interval set \<Rightarrow> scan_state \<Rightarrow> bool" where
  "active_ok P st \<longleftrightarrow> (\<forall>a \<in> set (sc_active st). ai_interval a \<in> P \<and> sc_assignments st (li_vreg (ai_interval a)) = Some (Phys (ai_phys a)))"

definition assigned_ok :: "nat set \<Rightarrow> nat \<Rightarrow> live_interval set \<Rightarrow> scan_state \<Rightarrow> bool" where
  "assigned_ok forced t P st \<longleftrightarrow> (\<forall>i \<in> P. sc_assignments st (li_vreg i) \<noteq> None \<and>
     (\<forall>p. sc_assignments st (li_vreg i) = Some (Phys p) \<longrightarrow> p < 4 \<and> li_vreg i \<notin> forced \<and>
        (\<lparr>ai_interval = i, ai_phys = p\<rparr> \<in> set (sc_active st) \<or> li_end i < t)))"

definition apart_ok :: "live_interval set \<Rightarrow> scan_state \<Rightarrow> bool" where
  "apart_ok P st \<longleftrightarrow> (\<forall>i \<in> P. \<forall>j \<in> P. \<forall>p. i \<noteq> j \<longrightarrow> sc_assignments st (li_vreg i) = Some (Phys p) \<longrightarrow>
     sc_assignments st (li_vreg j) = Some (Phys p) \<longrightarrow> apart i j)"

definition slots_ok :: "scan_state \<Rightarrow> bool" where
  "slots_ok st \<longleftrightarrow> (\<forall>v n. sc_assignments st v = Some (Spill n) \<longrightarrow> n < sc_spill_slots st) \<and>
     (\<forall>v w n. sc_assignments st v = Some (Spill n) \<longrightarrow> sc_assignments st w = Some (Spill n) \<longrightarrow> v = w)"

definition scan_ok :: "nat list \<Rightarrow> nat set \<Rightarrow> nat \<Rightarrow> live_interval set \<Rightarrow> scan_state \<Rightarrow> bool" where
  "scan_ok held forced t P st \<longleftrightarrow> pool_ok held st \<and> active_ok P st \<and> assigned_ok forced t P st \<and> apart_ok P st \<and> slots_ok st \<and> inj_on li_vreg P"

lemmas scan_ok_defs = scan_ok_def pool_ok_def active_ok_def assigned_ok_def apart_ok_def slots_ok_def

lemma scan_ok_expire:
  assumes "scan_ok [] forced t P st" "t \<le> t'" "expire_old_intervals t' (sc_active st) (sc_free st) = (active, free)"
  shows "scan_ok [] forced t' P (st\<lparr>sc_active := active, sc_free := free\<rparr>)"
proof -
  have a: "active = filter (\<lambda>a. \<not> li_end (ai_interval a) < t') (sc_active st)"
    "free = sc_free st @ map ai_phys (filter (\<lambda>a. li_end (ai_interval a) < t') (sc_active st))"
    using assms(3) by (simp_all add: expire_old_intervals_def)
  have "distinct (map ai_phys (filter Q xs)) \<and> distinct (map ai_phys (filter (\<lambda>a. \<not> Q a) xs)) \<and>
      ai_phys ` set (filter Q xs) \<inter> ai_phys ` set (filter (\<lambda>a. \<not> Q a) xs) = {}" if "distinct (map ai_phys xs)" for Q xs
    using that by (induction xs) auto
  from this[of "sc_active st" "\<lambda>a. li_end (ai_interval a) < t'"]
  have "pool_ok [] (st\<lparr>sc_active := active, sc_free := free\<rparr>)"
    using assms(1) by (auto simp: scan_ok_def pool_ok_def a)
  moreover have "assigned_ok forced t' P (st\<lparr>sc_active := active, sc_free := free\<rparr>)"
    using assms(1,2) unfolding scan_ok_def assigned_ok_def a by fastforce
  ultimately show ?thesis using assms(1) by (simp add: scan_ok_def active_ok_def apart_ok_def slots_ok_def a)
qed

lemma scan_ok_spill_new:
  assumes "scan_ok [] forced t P st" "li_vreg i \<notin> li_vreg ` P"
  shows "scan_ok [] forced t (insert i P) (spill_vreg (li_vreg i) st)"
proof -
  have n: "j \<in> P \<Longrightarrow> li_vreg j \<noteq> li_vreg i" for j using assms(2) by (metis imageI)
  show ?thesis
    using assms(1) n unfolding scan_ok_defs spill_vreg_def
    by (simp add: less_Suc_eq fun_upd_def del: not_None_eq) (use less_irrefl in fastforce)
qed

lemma scan_ok_take_free:
  assumes "scan_ok [] forced t P st" "sort (sc_free st) = p # free"
  shows "scan_ok [p] forced t P (st\<lparr>sc_free := free\<rparr>)"
proof -
  have "distinct (sc_free st) \<longleftrightarrow> distinct (p # free)" "set (sc_free st) = set (p # free)"
    unfolding assms(2)[symmetric] by simp_all
  then show ?thesis using assms(1) by (auto simp: scan_ok_defs)
qed

lemma scan_ok_victim:
  assumes ok: "scan_ok [] forced t P st" and a: "a \<in> set (sc_active st)"
  shows "scan_ok [ai_phys a] forced t P (spill_vreg (li_vreg (ai_interval a)) (st\<lparr>sc_active := remove1 a (sc_active st)\<rparr>))"
proof -
  let ?v = "li_vreg (ai_interval a)"
  have aP: "ai_interval a \<in> P" "sc_assignments st ?v = Some (Phys (ai_phys a))" using ok a by (auto simp: scan_ok_def active_ok_def)
  have d: "distinct (map ai_phys (sc_active st))" using ok by (simp add: scan_ok_def pool_ok_def)
  have "distinct (map ai_phys (remove1 x xs)) \<and> ai_phys x \<notin> ai_phys ` set (remove1 x xs) \<and> set (remove1 x xs) \<subseteq> set xs"
    if "distinct (map ai_phys xs)" "x \<in> set xs" for x xs
    using that by (induction xs) (auto dest: image_eqI)
  note rem = this[OF d a]
  then have pool: "pool_ok [ai_phys a] (st\<lparr>sc_active := remove1 a (sc_active st)\<rparr>)"
    using ok a image_mono[of "set (remove1 a (sc_active st))" "set (sc_active st)" ai_phys]
    by (simp add: scan_ok_def pool_ok_def) blast
  have other: "b \<in> set (sc_active st) \<Longrightarrow> b \<noteq> a \<Longrightarrow> li_vreg (ai_interval b) \<noteq> ?v" for b
    using ok a d unfolding scan_ok_def active_ok_def distinct_map inj_on_def by (metis allocation.inject(1) option.inject)
  have sub: "set (remove1 a (sc_active st)) \<subseteq> set (sc_active st)" by (rule set_remove1_subset)
  have act: "active_ok P (spill_vreg ?v (st\<lparr>sc_active := remove1 a (sc_active st)\<rparr>))"
    unfolding active_ok_def
  proof
    fix b assume "b \<in> set (sc_active (spill_vreg ?v (st\<lparr>sc_active := remove1 a (sc_active st)\<rparr>)))"
    then have b: "b \<in> set (remove1 a (sc_active st))" by (simp add: spill_vreg_def)
    have "b \<noteq> a" using b rem by auto
    then show "ai_interval b \<in> P \<and> sc_assignments (spill_vreg ?v (st\<lparr>sc_active := remove1 a (sc_active st)\<rparr>)) (li_vreg (ai_interval b)) = Some (Phys (ai_phys b))"
      using other[of b] b sub ok by (auto simp: spill_vreg_def scan_ok_def active_ok_def)
  qed
  have inP: "i \<in> P \<Longrightarrow> li_vreg i = ?v \<Longrightarrow> i = ai_interval a" for i using ok aP(1) by (auto simp: scan_ok_def inj_on_def)
  have ne: "li_vreg i \<noteq> ?v \<Longrightarrow> \<lparr>ai_interval = i, ai_phys = p\<rparr> \<in> set (remove1 a (sc_active st)) \<longleftrightarrow> \<lparr>ai_interval = i, ai_phys = p\<rparr> \<in> set (sc_active st)" for i p
    by (rule in_set_remove1) auto
  have asg: "assigned_ok forced t P (spill_vreg ?v (st\<lparr>sc_active := remove1 a (sc_active st)\<rparr>))"
    using ok unfolding scan_ok_def assigned_ok_def spill_vreg_def by (auto simp: ne)
  show ?thesis using ok pool act asg unfolding scan_ok_def
    by (auto simp: pool_ok_def apart_ok_def slots_ok_def spill_vreg_def less_Suc_eq split: if_splits)
qed

lemma scan_ok_occupy:
  assumes ok: "scan_ok [p] forced (li_start i) P st" and i: "li_vreg i \<notin> li_vreg ` P" "li_vreg i \<notin> forced"
  shows "scan_ok [] forced (li_start i) (insert i P) (occupy i p st)"
proof -
  have n: "j \<in> P \<Longrightarrow> li_vreg j \<noteq> li_vreg i" for j using i(1) by (metis imageI)
  have p: "p < 4" and notact: "a \<in> set (sc_active st) \<Longrightarrow> ai_phys a \<noteq> p" for a
    using ok by (auto simp: scan_ok_def pool_ok_def)
  have pool: "pool_ok [] (occupy i p st)"
    using ok notact[of "\<lparr>ai_interval = i, ai_phys = p\<rparr>"] unfolding scan_ok_def pool_ok_def occupy_def by (auto simp: distinct_map)
  have act: "active_ok (insert i P) (occupy i p st)"
    using ok n unfolding scan_ok_def active_ok_def occupy_def by auto
  have asg: "assigned_ok forced (li_start i) (insert i P) (occupy i p st)"
    using ok n p i(2) unfolding scan_ok_def assigned_ok_def occupy_def by auto
  have new: "li_end j < li_start i" if "j \<in> P" "sc_assignments st (li_vreg j) = Some (Phys p)" for j
    using ok that notact[of "\<lparr>ai_interval = j, ai_phys = p\<rparr>"] unfolding scan_ok_def assigned_ok_def by fastforce
  have "apart_ok (insert i P) (occupy i p st)"
    unfolding apart_ok_def
  proof (intro ballI allI impI)
    fix x y q assume "x \<in> insert i P" "y \<in> insert i P" and xy: "x \<noteq> y"
      "sc_assignments (occupy i p st) (li_vreg x) = Some (Phys q)" "sc_assignments (occupy i p st) (li_vreg y) = Some (Phys q)"
    then consider "x = i" "y \<in> P" | "y = i" "x \<in> P" | "x \<in> P" "y \<in> P" by blast
    then show "apart x y"
    proof cases
      case 3
      then show ?thesis using ok n xy unfolding scan_ok_def apart_ok_def occupy_def by simp
    qed (use n xy new[of x] new[of y] in \<open>auto simp: occupy_def apart_def\<close>)
  qed
  moreover have "slots_ok (occupy i p st)"
    using ok unfolding scan_ok_def slots_ok_def occupy_def by auto
  moreover have "inj_on li_vreg (insert i P)" using ok i(1) n by (auto simp: scan_ok_def)
  ultimately show ?thesis using pool act asg by (simp add: scan_ok_def)
qed

lemma scan_ok_step:
  assumes ok: "scan_ok [] forced t P st" and i: "li_vreg i \<notin> li_vreg ` P" "t \<le> li_start i"
  shows "scan_ok [] forced (li_start i) (insert i P) (scan_interval forced i st)"
proof (cases "li_vreg i \<in> forced")
  case True
  have "scan_ok [] forced (li_start i) P st"
    using ok i(2) by (fastforce simp: scan_ok_def assigned_ok_def)
  then show ?thesis using scan_ok_spill_new[OF _ i(1)] True by (simp add: scan_interval_def)
next
  case False
  obtain active free where e: "expire_old_intervals (li_start i) (sc_active st) (sc_free st) = (active, free)" by fastforce
  let ?st = "st\<lparr>sc_active := active, sc_free := free\<rparr>"
  note ok' = scan_ok_expire[OF ok i(2) e]
  show ?thesis
  proof (cases "sort free")
    case (Cons p free')
    then show ?thesis using scan_ok_occupy[OF scan_ok_take_free[OF ok', of p free'] i(1) False] False e
      by (simp add: scan_interval_def)
  next
    case Nil
    then have f: "free = []" by (metis length_0_conv length_sort)
    show ?thesis
    proof (cases "spill_at_interval i active")
      case None
      then show ?thesis using scan_ok_spill_new[OF ok' i(1)] False e f by (simp add: scan_interval_def)
    next
      case (Some r)
      then obtain a where a: "last_active active = Some a" "r = (a, remove1 a active)"
        by (auto simp: spill_at_interval_def bind_eq_Some_conv split: if_splits)
      have "last_active xs = Some x \<Longrightarrow> x \<in> set xs" for x xs
        by (induction xs arbitrary: x) (auto split: option.splits if_splits)
      then have mem: "a \<in> set (sc_active ?st)" using a(1) by simp
      have eq: "?st\<lparr>sc_active := remove1 a (sc_active ?st)\<rparr> = st\<lparr>sc_active := remove1 a active, sc_free := []\<rparr>" using f by simp
      show ?thesis using scan_ok_occupy[OF scan_ok_victim[OF ok' mem, unfolded eq] i(1) False]
        using False e f Some a(2) by (simp add: scan_interval_def)
    qed
  qed
qed

definition intervals_ok :: "live_interval list \<Rightarrow> bool" where
  "intervals_ok ivs \<longleftrightarrow> distinct (map li_vreg ivs) \<and> sorted (map li_start ivs)"

lemma scan_ok_fold:
  "\<lbrakk>scan_ok [] forced t P st; intervals_ok ivs; li_vreg ` set ivs \<inter> li_vreg ` P = {}; \<forall>i \<in> set ivs. t \<le> li_start i\<rbrakk> \<Longrightarrow>
     \<exists>t'. scan_ok [] forced t' (P \<union> set ivs) (fold (scan_interval forced) ivs st)"
proof (induction ivs arbitrary: t P st)
  case (Cons i ivs)
  have "scan_ok [] forced (li_start i) (insert i P) (scan_interval forced i st)"
    using Cons.prems by (intro scan_ok_step) auto
  from Cons.IH[OF this] Cons.prems show ?case by (auto simp: intervals_ok_def)
qed auto

lemma linear_scan_ok: "intervals_ok ivs \<Longrightarrow> \<exists>t. scan_ok [] forced t (set ivs) (linear_scan ivs forced)"
  unfolding linear_scan_def
  using scan_ok_fold[of forced 0 "{}" "\<lparr>sc_active = [], sc_free = [0..<length ALLOCATABLE_GPRS], sc_assignments = Map.empty, sc_spill_slots = 0\<rparr>" ivs]
  by (simp add: scan_ok_defs ALLOCATABLE_GPRS_def)

subsection \<open>Every function: liveness, intervals and the scan together\<close>

definition bodies :: "x86_block list \<Rightarrow> x86_coded list list" where
  "bodies blocks = map xb_insts blocks"

text \<open>
  The values an instruction's registers must keep apart: those it reads or writes, and those some path from the point after it
  reads before it writes them.
\<close>

definition busy_at :: "x86_block list \<Rightarrow> nat \<Rightarrow> nat \<Rightarrow> nat \<Rightarrow> bool" where
  "busy_at blocks = busy_path virtual_uses virtual_defs (block_successors blocks) (bodies blocks)"

interpretation x86_walk: backward_walk virtual_uses virtual_defs note_inst point_step collect_points
  by unfold_locales (simp_all add: block_points_def)

lemma x86_flow_of_for: "flow_of blocks = x86_walk.flow_for (block_successors blocks) (bodies blocks)"
  by (simp add: flow_of_def x86_walk.flow_for_def block_uses_defs_def bodies_def comp_def)

lemma block_index_in_range: "block_index blocks t = Some s \<Longrightarrow> s < length blocks"
  unfolding block_index_def by (drule map_of_SomeD) (auto simp: set_zip)

lemma successors_in_range:
  "finite (successor_set (block_index blocks) (length blocks) b ms)"
  "successor_set (block_index blocks) (length blocks) b ms \<subseteq> {..<length blocks}"
proof -
  show sub: "successor_set (block_index blocks) (length blocks) b ms \<subseteq> {..<length blocks}"
    by (auto simp: successor_set_def map_filter_def split: Option.bind_splits intro: block_index_in_range)
  show "finite (successor_set (block_index blocks) (length blocks) b ms)" by (rule finite_subset[OF sub]) simp
qed

lemma block_successors_ok:
  "length (block_successors blocks) = length (bodies blocks)"
  "\<forall>ss \<in> set (block_successors blocks). set ss \<subseteq> {..<length (bodies blocks)}"
  using successors_in_range by (auto simp: block_successors_def bodies_def set_zip)

lemma distinct_sorted_intervals:
  assumes "distinct (map fst points)"
  shows "intervals_ok (intervals_of points)"
proof -
  have "mset (map li_vreg (intervals_of points)) = mset (map fst points)"
    by (simp add: intervals_of_def case_prod_unfold image_mset.compositionality comp_def)
  then have d: "distinct (map li_vreg (intervals_of points))" using assms by (metis mset_eq_imp_distinct_iff)
  have "sorted (map (\<lambda>i. (li_start i, li_end i, li_vreg i)) (intervals_of points))" by (simp add: intervals_of_def)
  then have "sorted (map fst (map (\<lambda>i. (li_start i, li_end i, li_vreg i)) (intervals_of points)))"
    unfolding sorted_map sorted_wrt_map by (rule sorted_wrt_mono_rel[rotated]) (auto simp: less_eq_prod_def)
  then show ?thesis using d by (simp add: intervals_ok_def comp_def)
qed

lemma collected:
  obtains ivs where "collect_live_intervals blocks = Some (concat (bodies blocks), ivs)" "intervals_ok ivs"
    "\<forall>b k v. busy_at blocks b k v \<longrightarrow>
       (\<exists>i \<in> set ivs. li_vreg i = v \<and> li_start i \<le> body_position (bodies blocks) b k \<and> body_position (bodies blocks) b k \<le> li_end i)"
proof (rule x86_walk.points_sound[OF block_successors_ok])
  fix ls :: "nat live_sets"
  let ?points = "collect_points 0 (zip (bodies blocks) (ls_out ls)) []"
  assume ls: "flow_loop (x86_walk.flow_for (block_successors blocks) (bodies blocks)) = Some ls" and d: "distinct (map fst ?points)"
    and cov: "\<And>b k v. busy_path virtual_uses virtual_defs (block_successors blocks) (bodies blocks) b k v \<Longrightarrow>
       covers ?points (body_position (bodies blocks) b k) v"
  have run: "collect_live_intervals blocks = Some (concat (bodies blocks), intervals_of ?points)"
    using ls by (simp add: collect_live_intervals_def x86_flow_of_for flip: bodies_def)
  have "\<exists>i \<in> set (intervals_of ?points). li_vreg i = v \<and> li_start i \<le> body_position (bodies blocks) b k \<and>
      body_position (bodies blocks) b k \<le> li_end i" if busy: "busy_at blocks b k v" for b k v
  proof -
    obtain s e where se: "map_of ?points v = Some (s, e)" "s \<le> body_position (bodies blocks) b k" "body_position (bodies blocks) b k \<le> e"
      using cov[OF busy[unfolded busy_at_def]] by (auto simp: covers_def)
    then have "\<lparr>li_vreg = v, li_start = s, li_end = e\<rparr> \<in> set (intervals_of ?points)"
      using map_of_SomeD[OF se(1)] by (force simp: intervals_of_def)
    then show ?thesis using se by force
  qed
  then show thesis using that[OF run distinct_sorted_intervals[OF d]] by blast
qed

text \<open>
  (C8) The x86-64 allocator's assignment is sound for every function: the liveness iteration ends; every value an instruction
  reads or writes, or that some path still reads after it, has a register of the pool or a slot; two different such values never
  share either; and a value the allocator forces to the stack because it lives across a call has no register.
\<close>

theorem x86_allocation_interference_free:
  "\<exists>insts ivs. collect_live_intervals blocks = Some (insts, ivs) \<and>
     (let forced = values_live_across_calls insts ivs; found = linear_scan ivs forced in
      (\<forall>b k v. busy_at blocks b k v \<longrightarrow>
         (case sc_assignments found v of
            None \<Rightarrow> False
          | Some (Phys p) \<Rightarrow> p < length ALLOCATABLE_GPRS \<and> v \<notin> forced
          | Some (Spill n) \<Rightarrow> n < sc_spill_slots found)) \<and>
      (\<forall>b k v w. busy_at blocks b k v \<and> busy_at blocks b k w \<and> v \<noteq> w \<longrightarrow>
         sc_assignments found v \<noteq> sc_assignments found w))"
proof (rule collected[of blocks])
  fix ivs
  assume run: "collect_live_intervals blocks = Some (concat (bodies blocks), ivs)" and ok: "intervals_ok ivs"
    and cov: "\<forall>b k v. busy_at blocks b k v \<longrightarrow> (\<exists>i \<in> set ivs. li_vreg i = v \<and> li_start i \<le> body_position (bodies blocks) b k \<and>
      body_position (bodies blocks) b k \<le> li_end i)"
  let ?forced = "values_live_across_calls (concat (bodies blocks)) ivs"
  let ?found = "linear_scan ivs ?forced"
  obtain t where scan: "scan_ok [] ?forced t (set ivs) ?found" using linear_scan_ok[OF ok] by blast
  have placed: "case sc_assignments ?found v of None \<Rightarrow> False | Some (Phys p) \<Rightarrow> p < length ALLOCATABLE_GPRS \<and> v \<notin> ?forced
      | Some (Spill n) \<Rightarrow> n < sc_spill_slots ?found" if busy: "busy_at blocks b k v" for b k v
  proof -
    obtain i where i: "i \<in> set ivs" "li_vreg i = v" using cov busy by blast
    then show ?thesis using scan
      by (auto simp: scan_ok_defs ALLOCATABLE_GPRS_def split: option.splits allocation.splits)
  qed
  have "sc_assignments ?found v \<noteq> sc_assignments ?found w"
    if busy: "busy_at blocks b k v" "busy_at blocks b k w" "v \<noteq> w" for b k v w
  proof
    assume eq: "sc_assignments ?found v = sc_assignments ?found w"
    obtain i j where i: "i \<in> set ivs" "li_vreg i = v" "li_start i \<le> body_position (bodies blocks) b k"
        "body_position (bodies blocks) b k \<le> li_end i"
      and j: "j \<in> set ivs" "li_vreg j = w" "li_start j \<le> body_position (bodies blocks) b k"
        "body_position (bodies blocks) b k \<le> li_end j"
      using cov busy(1,2) by metis
    have "\<not> apart i j" using i j by (simp add: apart_def)
    moreover have "i \<noteq> j" using i(2) j(2) busy(3) by blast
    ultimately have "sc_assignments ?found v \<noteq> Some (Phys p)" for p
      using scan i(1,2) j(1,2) eq unfolding scan_ok_def apart_ok_def by metis
    moreover have "sc_assignments ?found v \<noteq> Some (Spill n)" for n
      using scan busy(3) eq unfolding scan_ok_def slots_ok_def by metis
    ultimately show False using placed[OF busy(1)] by (auto split: option.splits allocation.splits)
  qed
  then show ?thesis using run placed by (auto simp: Let_def)
qed

text \<open>Two values that are compared.\<close>

definition compare_example :: "x86_block list" where
  "compare_example = [\<lparr>xb_id = 0, xb_insts =
     [mk (RegOp X_MovImm) (no_fields\<lparr>x_rd := Some (virtual_gpr 0), x_imm := Some 5\<rparr>),
      mk (RegOp X_MovImm) (no_fields\<lparr>x_rd := Some (virtual_gpr 7), x_imm := Some 6\<rparr>),
      mk (RegOp X_Cmp) (no_fields\<lparr>x_rn := Some (virtual_gpr 0), x_rm := Some (virtual_gpr 7)\<rparr>), mk (CtlOp X_Ret) no_fields]\<rparr>]"

theorem x86_allocation_interference_free_witness:
  "\<exists>insts ivs. collect_live_intervals compare_example = Some (insts, ivs) \<and>
     sc_assignments (linear_scan ivs (values_live_across_calls insts ivs)) 0 \<noteq>
     sc_assignments (linear_scan ivs (values_live_across_calls insts ivs)) 7"
proof -
  have "busy_at compare_example 0 2 0" "busy_at compare_example 0 2 7"
    by (simp_all add: busy_at_def busy_path_def bodies_def compare_example_def virtual_uses_def virtual_operands_with_kind_def
        register_operands_def map_filter_def mk_def virtual_gpr_def)
  moreover obtain insts ivs where "collect_live_intervals compare_example = Some (insts, ivs)"
    "\<forall>b k v w. busy_at compare_example b k v \<and> busy_at compare_example b k w \<and> v \<noteq> w \<longrightarrow>
       sc_assignments (linear_scan ivs (values_live_across_calls insts ivs)) v \<noteq>
       sc_assignments (linear_scan ivs (values_live_across_calls insts ivs)) w"
    using x86_allocation_interference_free[of compare_example] unfolding Let_def by (elim exE conjE) (rule that)
  ultimately show ?thesis by (metis zero_neq_numeral)
qed

end
