(* ===== verification/X86_Frame.thy ===== *)
theory X86_Frame
  imports X86_Alloc X86_Encode_Correct Code_Literals
begin

text \<open>
  The x86-64 frame: \<^verbatim>\<open>crates/pliron-ll/src/passes/x86_64_darwin/x86_64_frame_lower.rs\<close>.

  Every function saves the callee-saved registers the allocator uses and lowers \<open>rsp\<close> by its frame after the loads of its
  stack arguments, and undoes both before each return.  What the inserted instructions do is stated of their bytes, run on
  the machine of \<open>X86_Machine\<close>.
\<close>

subsection \<open>The code\<close>

definition CALLEE_SAVED_GPRS :: "register list" where
  "CALLEE_SAVED_GPRS = [gpr 3, gpr 12, gpr 13, gpr 14, gpr 15]"

definition push :: "register \<Rightarrow> x86_coded" where
  "push rt = mk (RegOp X_Push) (no_fields\<lparr>x_rd := Some rt\<rparr>)"

definition pop :: "register \<Rightarrow> x86_coded" where
  "pop rt = mk (RegOp X_Pop) (no_fields\<lparr>x_rd := Some rt\<rparr>)"

definition sub_sp_imm :: "nat \<Rightarrow> x86_coded" where
  "sub_sp_imm bytes = mk (MemOp X_SubSpImm) (no_fields\<lparr>x_imm := Some bytes\<rparr>)"

definition add_sp_imm :: "nat \<Rightarrow> x86_coded" where
  "add_sp_imm bytes = mk (MemOp X_AddSpImm) (no_fields\<lparr>x_imm := Some bytes\<rparr>)"

text \<open>What is inserted on entry, and before a return.\<close>

definition frame_enter :: "nat \<Rightarrow> x86_coded list" where
  "frame_enter stack_size = map push CALLEE_SAVED_GPRS @ (if 0 < stack_size then [sub_sp_imm stack_size] else [])"

definition frame_leave :: "nat \<Rightarrow> x86_coded list" where
  "frame_leave stack_size = (if 0 < stack_size then [add_sp_imm stack_size] else []) @ map pop (rev CALLEE_SAVED_GPRS)"

definition insert_prologue :: "nat \<Rightarrow> x86_coded list \<Rightarrow> x86_coded list" where
  "insert_prologue stack_size insts =
     takeWhile (\<lambda>ci. fst ci = MemOp X_LdrStackArg) insts @ frame_enter stack_size @
     dropWhile (\<lambda>ci. fst ci = MemOp X_LdrStackArg) insts"

definition insert_block_epilogues :: "nat \<Rightarrow> x86_coded list \<Rightarrow> x86_coded list" where
  "insert_block_epilogues stack_size insts =
     concat (map (\<lambda>ci. if fst ci = CtlOp X_Ret then frame_leave stack_size @ [ci] else [ci]) insts)"

text \<open>The first block of a function is its entry.\<close>

definition lower_function_frame :: "x86_func \<Rightarrow> x86_func" where
  "lower_function_frame f =
     (let stack_size = xf_stack_size f;
          prologue = (case xf_blocks f of [] \<Rightarrow> [] | b # bs \<Rightarrow> b\<lparr>xb_insts := insert_prologue stack_size (xb_insts b)\<rparr> # bs)
      in f\<lparr>xf_blocks := map (\<lambda>b. b\<lparr>xb_insts := insert_block_epilogues stack_size (xb_insts b)\<rparr>) prologue\<rparr>)"

subsection \<open>Bytes one after the other\<close>

text \<open>The bytes of instructions that do not depend on where they are.\<close>

fun code_of :: "x86_coded list \<Rightarrow> u8 list option" where
  "code_of [] = Some []"
| "code_of ((opcode, i, lit) # ms) = (case encode_inst opcode i 0 None of
     Some (Inr e) \<Rightarrow> map_option ((@) (be_bytes e)) (code_of ms)
   | _ \<Rightarrow> None)"

lemma code_of_append:
  "code_of (xs @ ys) = Option.bind (code_of xs) (\<lambda>a. map_option ((@) a) (code_of ys))"
proof (induction xs rule: code_of.induct)
  case 1
  then show ?case by (cases "code_of ys") simp_all
next
  case (2 opcode i lit ms)
  then show ?case by (cases "code_of ms"; cases "code_of ys") (auto split: option.splits sum.splits)
qed

text \<open>
  More bytes behind an instruction do not change it.  \<open>more ys x y\<close>: what \<open>x\<close> decodes, \<open>y\<close> decodes with \<open>ys\<close> left in addition.
\<close>

definition more :: "u8 list \<Rightarrow> ('a \<times> u8 list) option \<Rightarrow> ('a \<times> u8 list) option \<Rightarrow> bool" where
  "more ys x y \<longleftrightarrow> (\<forall>i rest. x = Some (i, rest) \<longrightarrow> y = Some (i, rest @ ys))"

definition more_mem :: "u8 list \<Rightarrow> ('a \<times> 'b \<times> u8 list) option \<Rightarrow> ('a \<times> 'b \<times> u8 list) option \<Rightarrow> bool" where
  "more_mem ys x y \<longleftrightarrow> (\<forall>b d rest. x = Some (b, d, rest) \<longrightarrow> y = Some (b, d, rest @ ys))"

lemma more_leaf: "more ys None y" "more ys (Some (i, rest)) (Some (i, rest @ ys))" "more_mem ys None z"
  by (simp_all add: more_def more_mem_def)

lemma more_if: "(c \<Longrightarrow> more ys a a') \<Longrightarrow> (\<not> c \<Longrightarrow> more ys b b') \<Longrightarrow> more ys (if c then a else b) (if c then a' else b')"
  by simp

lemma more_list:
  "(\<And>b r. bs = b # r \<Longrightarrow> more ys (f b r) (f' b (r @ ys))) \<Longrightarrow>
     more ys (case bs of [] \<Rightarrow> None | b # r \<Rightarrow> f b r) (case bs @ ys of [] \<Rightarrow> z | b # r \<Rightarrow> f' b r)"
  by (cases bs) (simp_all add: more_leaf)

lemma more_map: "more ys a a' \<Longrightarrow> more ys (map_option (\<lambda>(d, r). (g d, r)) a) (map_option (\<lambda>(d, r). (g d, r)) a')"
  by (auto simp: more_def)

lemma more_map_mem:
  "more_mem ys a a' \<Longrightarrow> more ys (map_option (\<lambda>(b, d, r). (g b d, r)) a) (map_option (\<lambda>(b, d, r). (g b d, r)) a')"
  by (auto simp: more_def more_mem_def)

lemma more_case_mem:
  "more_mem ys a a' \<Longrightarrow> (\<And>b d r. more ys (f b d r) (f' b d (r @ ys))) \<Longrightarrow>
     more ys (case a of None \<Rightarrow> None | Some (b, d, r) \<Rightarrow> f b d r) (case a' of None \<Rightarrow> z | Some (b, d, r) \<Rightarrow> f' b d r)"
  by (auto simp: more_mem_def more_leaf split: option.splits)

lemma more_case: "more ys (case x of None \<Rightarrow> a | Some j \<Rightarrow> Some (j, r)) (case x of None \<Rightarrow> a' | Some j \<Rightarrow> Some (j, r @ ys))"
  if "more ys a a'"
  using that by (simp add: more_leaf split: option.splits)

lemma more_const: "more ys (map_option (\<lambda>i. (i, r)) x) (map_option (\<lambda>i. (i, r @ ys)) x)"
  by (cases x) (simp_all add: more_def)

lemma more_guard: "(c \<Longrightarrow> c' \<and> more ys a a') \<Longrightarrow> more ys (if c then a else None) (if c' then a' else z)"
  by (simp add: more_leaf)

lemma read_i32_more: "more ys (read_i32 bs) (read_i32 (bs @ ys))"
  by (simp add: more_def read_i32_def)

lemma decode_mem_more: "more_mem ys (decode_mem rx m bs) (decode_mem rx m (bs @ ys))"
  using read_i32_more[of ys bs] read_i32_more[of ys "tl bs"]
  by (cases bs) (auto simp: decode_mem_def more_def more_mem_def)

lemmas more_rules = more_leaf(1,2) more_if more_list more_map more_map_mem more_case_mem more_case more_const read_i32_more decode_mem_more

lemma decode_0f_some: "decode_0f (Some rx) bs = (case bs of
     [] \<Rightarrow> None
   | opcode # bs \<Rightarrow>
       if opcode = 0x0b then Some (I_Ud2, bs)
       else if opcode AND 0xf0 = 0x80 then map_option (\<lambda>(d, rest). (I_Jcc (opcode AND 0xf) d, rest)) (read_i32 bs)
       else case bs of
         [] \<Rightarrow> None
       | m # rest \<Rightarrow>
           if opcode AND 0xf0 = 0x90 \<and> drop_bit 6 m = 3 then Some (I_Setcc (opcode AND 0xf) (rm_field rx m), rest)
           else if opcode = 0xaf \<and> drop_bit 6 m = 3 \<and> bit rx 3 then Some (I_Imul (reg_field rx m) (rm_field rx m), rest)
           else if opcode = 0xb6 \<and> drop_bit 6 m = 3 \<and> bit rx 3 then Some (I_Movzx (reg_field rx m) (rm_field rx m), rest)
           else if opcode = 0xb6 \<and> bit rx 3 then
             map_option (\<lambda>(base, d, rest). (I_Load 1 (reg_field rx m) base d, rest)) (decode_mem rx m rest)
           else if opcode = 0xb7 \<and> bit rx 3 then
             map_option (\<lambda>(base, d, rest). (I_Load 2 (reg_field rx m) base d, rest)) (decode_mem rx m rest)
           else None)"
  unfolding decode_0f_def by (simp split: list.split)

lemma decode_0f_none: "decode_0f None bs = (case bs of
     [] \<Rightarrow> None
   | opcode # bs \<Rightarrow>
       if opcode = 0x0b then Some (I_Ud2, bs)
       else if opcode AND 0xf0 = 0x80 then map_option (\<lambda>(d, rest). (I_Jcc (opcode AND 0xf) d, rest)) (read_i32 bs) else None)"
  unfolding decode_0f_def by (simp split: list.split)

lemma decode_0f_more: "more ys (decode_0f rx bs) (decode_0f rx (bs @ ys))"
proof (cases rx)
  case None
  show ?thesis unfolding None decode_0f_none by (rule more_rules | assumption)+
next
  case (Some r)
  show ?thesis unfolding Some decode_0f_some by (rule more_rules | assumption)+
qed

lemma decode_rex_more: "more ys (decode_rex p rx bs) (decode_rex p rx (bs @ ys))"
  unfolding decode_rex_def
  by (rule more_rules decode_0f_more | (rule more_guard, simp add: more_def) | assumption)+

lemma decode_plain_more: "more ys (decode_plain bs) (decode_plain (bs @ ys))"
  unfolding decode_plain_def by (rule more_rules decode_0f_more | assumption)+

lemma decode_more: "decode bs = Some (i, rest) \<Longrightarrow> decode (bs @ ys) = Some (i, rest @ ys)"
proof -
  have "more ys (decode bs) (decode (bs @ ys))"
    using decode_plain_more[of ys bs] unfolding decode_def
    by (cases bs) (auto intro!: more_if more_list decode_rex_more more_leaf)
  then show "decode bs = Some (i, rest) \<Longrightarrow> decode (bs @ ys) = Some (i, rest @ ys)" unfolding more_def by blast
qed

lemma run_more: "run und xs s = Some t \<Longrightarrow> run und (xs @ ys) s = run und ys t"
proof (induction und xs s rule: run.induct)
  case (1 und bs s)
  show ?case
  proof (cases "bs = []")
    case True
    then show ?thesis using 1 by simp
  next
    case False
    then obtain i rest where d: "decode bs = Some (i, rest)" "length rest < length bs"
      "Option.bind (exec und i (s\<lparr>st_rip := st_rip s + of_nat (length bs - length rest)\<rparr>)) (run und rest) = Some t"
      using "1.prems" by (subst (asm) run.simps) (auto split: option.splits if_splits)
    then obtain u where u: "exec und i (s\<lparr>st_rip := st_rip s + of_nat (length bs - length rest)\<rparr>) = Some u" "run und rest u = Some t"
      by (auto simp: bind_eq_Some_conv)
    have "run und (rest @ ys) u = run und ys t" using "1.IH"[OF False d(1) refl d(2) u] .
    then show ?thesis using run_step[OF decode_more[OF d(1)]] d(2) u(1) by simp
  qed
qed

subsection \<open>Stores and loads\<close>

lemma store_bytes_at:
  fixes mem :: "u64 \<Rightarrow> u8"
  assumes "length bs < 2 ^ 64"
  shows "store_bytes mem a bs x = (if unat (x - a) < length bs then bs ! unat (x - a) else mem x)"
  using assms
proof (induction bs arbitrary: mem a)
  case (Cons b bs)
  have IH: "store_bytes (mem(a := b)) (a + 1) bs x =
      (if unat (x - (a + 1)) < length bs then bs ! unat (x - (a + 1)) else (mem(a := b)) x)"
    using Cons by simp
  show ?case
  proof (cases "x = a")
    case True
    have "unat (- (1 :: u64)) = 2 ^ 64 - 1" by (simp add: unsigned_minus_1_eq_mask mask_eq_exp_minus_1)
    then show ?thesis using True IH Cons.prems by simp
  next
    case False
    then have "x - a \<noteq> 0" by simp
    then have "unat (x - a) = Suc (unat (x - a - 1))" using unat_minus_one[of "x - a"] by (metis Suc_pred' unat_gt_0)
    then have "unat (x - a) = Suc (unat (x - (a + 1)))" by (simp add: algebra_simps)
    then show ?thesis using False IH by simp
  qed
qed simp

lemma load_cong: "(\<And>k. k < n \<Longrightarrow> m (a + of_nat k) = m' (a + of_nat k)) \<Longrightarrow> load m n a = load m' n a"
  unfolding load_def by (metis (no_types, lifting) map_eq_conv atLeastLessThan_iff set_upt)

lemma load_stored: "load (store_bytes mem a (le_bytes 8 v)) 8 a = (v :: u64)"
proof -
  have u: "unat (of_nat k :: u64) = k" if "k < 8" for k using that by (simp add: unat_of_nat)
  have "map (\<lambda>k. store_bytes mem a (le_bytes 8 v) (a + of_nat k)) [0..<8] = map (\<lambda>k. le_bytes 8 v ! k) [0..<8]"
    by (rule map_cong) (simp_all add: store_bytes_at u)
  also have "\<dots> = le_bytes 8 v" by (metis length_le_i32_bytes(1) map_nth)
  finally show ?thesis by (simp add: load_def le_number_full)
qed

subsection \<open>Pushes and pops\<close>

definition push_code :: "nat \<Rightarrow> u8 list" where
  "push_code rt = [rex False False False (8 \<le> rt), 0x50 + low3 rt]"

definition pop_code :: "nat \<Rightarrow> u8 list" where
  "pop_code rt = [rex False False False (8 \<le> rt), 0x58 + low3 rt]"

lemma decode_push_pop:
  assumes "rt < 16"
  shows "decode (push_code rt @ rest) = Some (I_Push rt, rest)" "decode (pop_code rt @ rest) = Some (I_Pop rt, rest)"
  using opcode_register[OF assms] by (simp_all add: push_code_def pop_code_def decode_rex_prefix decode_rex_def)

text \<open>The bytes at \<open>a\<close>, \<open>n\<close> of them, are below the stack pointer \<open>sp\<close>: \<open>x\<close> is none of them.\<close>

definition outside :: "u64 \<Rightarrow> nat \<Rightarrow> u64 \<Rightarrow> bool" where
  "outside a n x \<longleftrightarrow> n \<le> unat (x - a)"

lemma outside_upper: "n + k < 2 ^ 64 \<Longrightarrow> outside a n (a + of_nat n + of_nat k)"
proof -
  assume "n + k < 2 ^ 64"
  then have "unat (of_nat (n + k) :: u64) = n + k" by (simp only: unat_of_nat) simp
  moreover have "a + of_nat n + of_nat k - a = of_nat (n + k)" by simp
  ultimately show ?thesis unfolding outside_def by simp
qed

lemma pushes_run:
  assumes "\<forall>r \<in> set rs. r < 16 \<and> r \<noteq> 4" "length rs < 100"
  shows "\<exists>t. run und (concat (map push_code rs)) s = Some t \<and>
     st_regs t = (st_regs s)(4 := st_regs s 4 - of_nat (8 * length rs)) \<and>
     (\<forall>x. outside (st_regs s 4 - of_nat (8 * length rs)) (8 * length rs) x \<longrightarrow> st_mem t x = st_mem s x) \<and>
     (\<forall>k < length rs. load (st_mem t) 8 (st_regs s 4 - of_nat (8 * Suc k)) = st_regs s (rs ! k)) \<and>
     st_rip t = st_rip s + of_nat (2 * length rs)"
  using assms
proof (induction rs arbitrary: s)
  case (Cons r rs)
  let ?sp = "st_regs s 4" and ?n = "8 * length rs"
  define u where "u = push_value (st_regs s r) (s\<lparr>st_rip := st_rip s + 2\<rparr>)"
  have u: "st_regs u = (st_regs s)(4 := ?sp - 8)" "st_mem u = store_bytes (st_mem s) (?sp - 8) (le_bytes 8 (st_regs s r))"
    "st_rip u = st_rip s + 2"
    by (simp_all add: u_def push_value_def Let_def set_reg_def)
  have step: "run und (concat (map push_code (r # rs))) s = run und (concat (map push_code rs)) u"
    using run_append(1)[OF decode_push_pop(1)[of r], of und "concat (map push_code rs)" s] Cons.prems
    by (simp add: push_code_def u_def)
  have h: "\<forall>r \<in> set rs. r < 16 \<and> r \<noteq> 4" "length rs < 100" using Cons.prems by simp_all
  from Cons.IH[OF h, of u] obtain t where t: "run und (concat (map push_code rs)) u = Some t"
    "st_regs t = (st_regs u)(4 := st_regs u 4 - of_nat ?n)"
    "\<forall>x. outside (st_regs u 4 - of_nat ?n) ?n x \<longrightarrow> st_mem t x = st_mem u x"
    "\<forall>k < length rs. load (st_mem t) 8 (st_regs u 4 - of_nat (8 * Suc k)) = st_regs u (rs ! k)"
    "st_rip t = st_rip u + of_nat (2 * length rs)"
    by (elim exE conjE) (rule that)
  have addr: "?sp - of_nat (8 * length (r # rs)) = ?sp - 8 - of_nat ?n" by simp
  have far: "st_mem t x = st_mem s x" if "outside (?sp - 8 - of_nat ?n) (8 + ?n) x" for x
  proof -
    have o: "8 + ?n \<le> unat (x - (?sp - 8 - of_nat ?n))" using that by (simp add: outside_def)
    have n: "unat (of_nat ?n :: u64) = ?n" unfolding unat_of_nat using Cons.prems by simp
    define y where "y = x - (?sp - 8 - of_nat ?n)"
    have y: "8 + ?n \<le> unat y" "x - (?sp - 8) = y - of_nat ?n" using o by (simp_all add: y_def)
    have "(of_nat ?n :: u64) \<le> y" unfolding word_le_nat_alt n using y(1) by simp
    then have "unat (x - (?sp - 8)) = unat y - ?n" unfolding y(2) by (simp only: unat_sub n)
    then have "\<not> unat (x - (?sp - 8)) < 8" using y(1) by simp
    then have "st_mem u x = st_mem s x" by (simp add: u(2) store_bytes_at)
    moreover have "outside (st_regs u 4 - of_nat ?n) ?n x" using o by (simp add: u(1) outside_def)
    ultimately show ?thesis using t(3) by simp
  qed
  have first: "load (st_mem t) 8 (?sp - 8) = st_regs s r"
  proof -
    have "load (st_mem t) 8 (?sp - 8) = load (st_mem u) 8 (?sp - 8)"
    proof (rule load_cong)
      fix k :: nat assume "k < 8"
      then have "outside (?sp - 8 - of_nat ?n) ?n (?sp - 8 - of_nat ?n + of_nat ?n + of_nat k)"
        using Cons.prems by (intro outside_upper) simp
      then show "st_mem t (?sp - 8 + of_nat k) = st_mem u (?sp - 8 + of_nat k)" using t(3) by (simp add: u(1))
    qed
    then show ?thesis by (simp add: u(2) load_stored)
  qed
  have "load (st_mem t) 8 (?sp - of_nat (8 * Suc k)) = st_regs s ((r # rs) ! k)" if "k < length (r # rs)" for k
  proof (cases k)
    case (Suc j)
    then have "load (st_mem t) 8 (?sp - 8 - of_nat (8 * Suc j)) = st_regs s (rs ! j)"
      using t(4) that Cons.prems nth_mem[of j rs] by (auto simp: u(1))
    then show ?thesis using Suc by (simp add: algebra_simps)
  qed (use first in simp)
  then show ?case using t(1,2,5) far u step addr by (intro exI[of _ t]) (auto simp: diff_diff_eq)
qed simp

lemma pops_run:
  assumes "\<forall>r \<in> set rs. r < 16 \<and> r \<noteq> 4" "distinct rs"
  shows "\<exists>t. run und (concat (map pop_code rs)) s = Some t \<and> st_mem t = st_mem s \<and>
     st_regs t 4 = st_regs s 4 + of_nat (8 * length rs) \<and> (\<forall>r. r \<notin> insert 4 (set rs) \<longrightarrow> st_regs t r = st_regs s r) \<and>
     (\<forall>k < length rs. st_regs t (rs ! k) = load (st_mem s) 8 (st_regs s 4 + of_nat (8 * k))) \<and>
     st_rip t = st_rip s + of_nat (2 * length rs)"
  using assms
proof (induction rs arbitrary: s)
  case (Cons r rs)
  let ?sp = "st_regs s 4"
  define u where "u = set_reg r (load (st_mem s) 8 ?sp) (set_reg 4 (?sp + 8) (s\<lparr>st_rip := st_rip s + 2\<rparr>))"
  have r: "r < 16" "r \<noteq> 4" "r \<notin> set rs" using Cons.prems by auto
  have u: "st_regs u = (st_regs s)(4 := ?sp + 8, r := load (st_mem s) 8 ?sp)" "st_mem u = st_mem s" "st_rip u = st_rip s + 2"
    by (simp_all add: u_def set_reg_def)
  have step: "run und (concat (map pop_code (r # rs))) s = run und (concat (map pop_code rs)) u"
    using run_append(1)[OF decode_push_pop(2)[OF r(1)], of und "concat (map pop_code rs)" s]
    by (simp add: pop_code_def u_def)
  obtain t where t: "run und (concat (map pop_code rs)) u = Some t" "st_mem t = st_mem u"
    "st_regs t 4 = st_regs u 4 + of_nat (8 * length rs)" "\<forall>r. r \<notin> insert 4 (set rs) \<longrightarrow> st_regs t r = st_regs u r"
    "\<forall>k < length rs. st_regs t (rs ! k) = load (st_mem u) 8 (st_regs u 4 + of_nat (8 * k))"
    "st_rip t = st_rip u + of_nat (2 * length rs)"
    using Cons.IH[of u] Cons.prems by auto
  have "st_regs t ((r # rs) ! k) = load (st_mem s) 8 (?sp + of_nat (8 * k))" if "k < length (r # rs)" for k
  proof (cases k)
    case 0
    then show ?thesis using t(4) r u by simp
  next
    case (Suc j)
    then show ?thesis using t(5) that r(2) u by (simp add: algebra_simps)
  qed
  then show ?case using t(1-4,6) u r step by (intro exI[of _ t]) auto
qed simp

subsection \<open>Entering and leaving\<close>

abbreviation saved_numbers :: "nat list" where
  "saved_numbers \<equiv> [3, 12, 13, 14, 15]"

definition sp_code :: "u8 \<Rightarrow> nat \<Rightarrow> u8 list" where
  "sp_code modrm_byte n = (if 0 < n then [0x48, 0x81, modrm_byte] @ i32_bytes (int n) else [])"

lemma code_of_push: "code_of (map push (map gpr rs)) = Some (concat (map push_code rs))"
  by (induction rs)
    (simp_all add: push_def mk_def no_fields_def gpr_def push_code_def encode_inst_def plain_def parse_gpr_def)

lemma code_of_pop: "code_of (map pop (map gpr rs)) = Some (concat (map pop_code rs))"
  by (induction rs)
    (simp_all add: pop_def mk_def no_fields_def gpr_def pop_code_def encode_inst_def plain_def parse_gpr_def)

lemma saved_gprs: "CALLEE_SAVED_GPRS = map gpr saved_numbers"
  by (simp add: CALLEE_SAVED_GPRS_def)

lemma code_of_enter:
  assumes "n < 2 ^ 31"
  shows "code_of (frame_enter n) = Some (concat (map push_code saved_numbers) @ sp_code 0xec n)"
proof -
  have "code_of (if 0 < n then [sub_sp_imm n] else []) = Some (sp_code 0xec n)"
    using assms by (simp add: sub_sp_imm_def mk_def no_fields_def sp_code_def encode_inst_def plain_def get_imm_def disp32_def)
  then show ?thesis unfolding frame_enter_def code_of_append saved_gprs code_of_push by simp
qed

lemma code_of_leave:
  assumes "n < 2 ^ 31"
  shows "code_of (frame_leave n) = Some (sp_code 0xc4 n @ concat (map pop_code (rev saved_numbers)))"
proof -
  have "code_of (if 0 < n then [add_sp_imm n] else []) = Some (sp_code 0xc4 n)"
    using assms by (simp add: add_sp_imm_def mk_def no_fields_def sp_code_def encode_inst_def plain_def get_imm_def disp32_def)
  then show ?thesis unfolding frame_leave_def code_of_append saved_gprs rev_map code_of_pop by simp
qed

lemma step_runs:
  assumes "\<And>rest. decode (xs @ rest) = Some (i, rest)" "xs \<noteq> []"
    and "\<exists>t. exec und i (s\<lparr>st_rip := st_rip s + of_nat (length xs)\<rparr>) = Some t \<and> P t"
  shows "\<exists>t. run und (xs @ rest) s = run und rest t \<and> P t"
  using assms(3) run_append(1)[OF assms(1,2), of und rest s] by auto

lemma sp_code_runs:
  assumes "n < 2 ^ 31"
  shows "\<exists>t. run und (sp_code 0xec n @ rest) s = run und rest t \<and> st_regs t = (st_regs s)(4 := st_regs s 4 - of_nat n) \<and> st_mem t = st_mem s"
    "\<exists>t. run und (sp_code 0xc4 n @ rest) s = run und rest t \<and> st_regs t = (st_regs s)(4 := st_regs s 4 + of_nat n) \<and> st_mem t = st_mem s"
proof -
  have d: "- (2 ^ 31) \<le> int n" "int n < 2 ^ 31" using assms by simp_all
  have "\<exists>t. run und (([0x48, 0x81, 0xec] @ i32_bytes (int n)) @ rest) s = run und rest t \<and>
      st_regs t = (st_regs s)(4 := st_regs s 4 - of_nat n) \<and> st_mem t = st_mem s"
    by (rule step_runs[OF decode_sp_imm(1)[OF d]]) (simp_all add: set_reg_def)
  then show "\<exists>t. run und (sp_code 0xec n @ rest) s = run und rest t \<and> st_regs t = (st_regs s)(4 := st_regs s 4 - of_nat n) \<and> st_mem t = st_mem s"
    by (cases "n = 0") (auto simp: sp_code_def)
  have "\<exists>t. run und (([0x48, 0x81, 0xc4] @ i32_bytes (int n)) @ rest) s = run und rest t \<and>
      st_regs t = (st_regs s)(4 := st_regs s 4 + of_nat n) \<and> st_mem t = st_mem s"
    by (rule step_runs[OF decode_sp_imm(2)[OF d]]) (simp_all add: set_reg_def)
  then show "\<exists>t. run und (sp_code 0xc4 n @ rest) s = run und rest t \<and> st_regs t = (st_regs s)(4 := st_regs s 4 + of_nat n) \<and> st_mem t = st_mem s"
    by (cases "n = 0") (auto simp: sp_code_def)
qed

text \<open>
  The state after the entry sequence: \<open>rsp\<close> is below the five saved registers and the frame, each saved register is in its
  place above the frame, and no other register and no memory above the old \<open>rsp\<close> has changed.
\<close>

definition entered :: "nat \<Rightarrow> x86_state \<Rightarrow> x86_state \<Rightarrow> bool" where
  "entered n s t \<longleftrightarrow> st_regs t = (st_regs s)(4 := st_regs s 4 - 40 - of_nat n) \<and>
     (\<forall>x. outside (st_regs s 4 - 40) 40 x \<longrightarrow> st_mem t x = st_mem s x) \<and>
     (\<forall>k < 5. load (st_mem t) 8 (st_regs s 4 - of_nat (8 * Suc k)) = st_regs s (saved_numbers ! k))"

text \<open>The state before the exit sequence: \<open>rsp\<close> and the saved registers' memory, with the return address above it, are as on entry.\<close>

definition ready_to_leave :: "x86_state \<Rightarrow> x86_state \<Rightarrow> x86_state \<Rightarrow> bool" where
  "ready_to_leave s t u \<longleftrightarrow> st_regs u 4 = st_regs t 4 \<and>
     (\<forall>x. \<not> outside (st_regs s 4 - 40) 48 x \<longrightarrow> st_mem u x = st_mem t x)"

text \<open>The state after the return.\<close>

definition returned :: "x86_state \<Rightarrow> x86_state \<Rightarrow> x86_state \<Rightarrow> bool" where
  "returned s u v \<longleftrightarrow> st_mem v = st_mem u \<and> st_rip v = load (st_mem s) 8 (st_regs s 4) \<and>
     (\<forall>r. st_regs v r = (if r = 4 then st_regs s 4 + 8 else if r \<in> {3, 12, 13, 14, 15} then st_regs s r else st_regs u r))"

lemma enter_runs:
  assumes "n < 2 ^ 31" "code_of (frame_enter n) = Some code"
  shows "\<exists>t. run und (code @ rest) s = run und rest t \<and> entered n s t"
proof -
  have h: "\<forall>r \<in> set saved_numbers. r < 16 \<and> r \<noteq> 4" "length saved_numbers < 100" by simp_all
  from pushes_run[OF h, of und s] obtain t where t: "run und (concat (map push_code saved_numbers)) s = Some t"
    "st_regs t = (st_regs s)(4 := st_regs s 4 - of_nat (8 * length saved_numbers))"
    "\<forall>x. outside (st_regs s 4 - of_nat (8 * length saved_numbers)) (8 * length saved_numbers) x \<longrightarrow> st_mem t x = st_mem s x"
    "\<forall>k < length saved_numbers. load (st_mem t) 8 (st_regs s 4 - of_nat (8 * Suc k)) = st_regs s (saved_numbers ! k)"
    by (elim exE conjE) (rule that)
  obtain v where v: "run und (sp_code 0xec n @ rest) t = run und rest v" "st_regs v = (st_regs t)(4 := st_regs t 4 - of_nat n)"
    "st_mem v = st_mem t" using sp_code_runs(1)[OF assms(1)] by blast
  have c: "code = concat (map push_code saved_numbers) @ sp_code 0xec n" using code_of_enter[OF assms(1)] assms(2) by simp
  have "run und (code @ rest) s = run und rest v"
    unfolding c append_assoc run_more[OF t(1)] by (rule v(1))
  moreover have "entered n s v" using t(2-4) v(2,3) by (simp add: entered_def del: of_nat_Suc of_nat_mult)
  ultimately show ?thesis by blast
qed

lemma kept_word:
  assumes "ready_to_leave s t u" "k < 6"
  shows "load (st_mem u) 8 (st_regs s 4 - 40 + of_nat (8 * k)) = load (st_mem t) 8 (st_regs s 4 - 40 + of_nat (8 * k))"
proof (rule load_cong)
  fix j :: nat assume "j < 8"
  then have "unat (of_nat (8 * k + j) :: u64) = 8 * k + j" unfolding unat_of_nat using assms(2) by simp
  then have "\<not> outside (st_regs s 4 - 40) 48 (st_regs s 4 - 40 + of_nat (8 * k) + of_nat j)"
    using \<open>j < 8\<close> assms(2) unfolding outside_def by (simp only: add.assoc add_diff_cancel_left' flip: of_nat_add)
  then show "st_mem u (st_regs s 4 - 40 + of_nat (8 * k) + of_nat j) = st_mem t (st_regs s 4 - 40 + of_nat (8 * k) + of_nat j)"
    using assms(1) unfolding ready_to_leave_def by blast
qed

lemma kept_return_address:
  assumes "entered n s t" "ready_to_leave s t u"
  shows "load (st_mem u) 8 (st_regs s 4) = load (st_mem s) 8 (st_regs s 4)"
proof -
  have "load (st_mem u) 8 (st_regs s 4) = load (st_mem t) 8 (st_regs s 4)" using kept_word[OF assms(2), of 5] by simp
  also have "\<dots> = load (st_mem s) 8 (st_regs s 4)"
  proof (rule load_cong)
    fix k :: nat assume "k < 8"
    then have "outside (st_regs s 4 - 40) 40 (st_regs s 4 - 40 + of_nat 40 + of_nat k)" by (intro outside_upper) simp
    then show "st_mem t (st_regs s 4 + of_nat k) = st_mem s (st_regs s 4 + of_nat k)" using assms(1) by (simp add: entered_def)
  qed
  finally show ?thesis .
qed

lemma kept_register:
  assumes "entered n s t" "ready_to_leave s t u" "k < 5"
  shows "load (st_mem u) 8 (st_regs s 4 - 40 + of_nat (8 * (4 - k))) = st_regs s (saved_numbers ! k)"
proof -
  have "8 * (4 - k) + 8 * Suc k = 40" using assms(3) by simp
  then have "(40 :: u64) = of_nat (8 * (4 - k)) + of_nat (8 * Suc k)" by (metis of_nat_add of_nat_numeral)
  then have addr: "st_regs s 4 - 40 + of_nat (8 * (4 - k)) = st_regs s 4 - of_nat (8 * Suc k)" by (simp only:) simp
  have "load (st_mem u) 8 (st_regs s 4 - 40 + of_nat (8 * (4 - k))) = load (st_mem t) 8 (st_regs s 4 - of_nat (8 * Suc k))"
    using kept_word[OF assms(2), of "4 - k"] unfolding addr by simp
  also have "\<dots> = st_regs s (saved_numbers ! k)" using assms(1,3) unfolding entered_def by blast
  finally show ?thesis .
qed

lemma leave_runs:
  assumes "n < 2 ^ 31" "code_of (frame_leave n) = Some code" "entered n s t" "ready_to_leave s t u"
  shows "\<exists>v. run und (code @ [0xc3]) u = Some v \<and> returned s u v"
proof -
  let ?rs = "rev saved_numbers"
  obtain a where a: "run und (sp_code 0xc4 n @ concat (map pop_code ?rs) @ [0xc3]) u = run und (concat (map pop_code ?rs) @ [0xc3]) a"
    "st_regs a = (st_regs u)(4 := st_regs u 4 + of_nat n)" "st_mem a = st_mem u"
    using sp_code_runs(2)[OF assms(1)] by blast
  have sp: "st_regs a 4 = st_regs s 4 - 40" using assms(3,4) a(2) by (simp add: entered_def ready_to_leave_def)
  have h: "\<forall>r \<in> set ?rs. r < 16 \<and> r \<noteq> 4" "distinct ?rs" by simp_all
  from pops_run[OF h, of und a] obtain b where b: "run und (concat (map pop_code ?rs)) a = Some b" "st_mem b = st_mem a"
    "st_regs b 4 = st_regs a 4 + of_nat (8 * length ?rs)" "\<forall>r. r \<notin> insert 4 (set ?rs) \<longrightarrow> st_regs b r = st_regs a r"
    "\<forall>k < length ?rs. st_regs b (?rs ! k) = load (st_mem a) 8 (st_regs a 4 + of_nat (8 * k))"
    by (elim exE conjE) (rule that)
  have c: "code = sp_code 0xc4 n @ concat (map pop_code ?rs)" using code_of_leave[OF assms(1)] assms(2) by simp
  have saved: "st_regs b (saved_numbers ! k) = st_regs s (saved_numbers ! k)" if k: "k < 5" for k
  proof -
    have "k = 0 \<or> k = 1 \<or> k = 2 \<or> k = 3 \<or> k = 4" using k by arith
    then have i: "?rs ! (4 - k) = saved_numbers ! k" "4 - k < length ?rs" by auto
    have "st_regs b (saved_numbers ! k) = load (st_mem u) 8 (st_regs s 4 - 40 + of_nat (8 * (4 - k)))"
      using b(5) i a(3) sp by metis
    then show ?thesis using kept_register[OF assms(3,4) k] by simp
  qed
  have four: "st_regs b 4 = st_regs s 4" using b(3) sp by simp
  define v where "v = (set_reg 4 (st_regs b 4 + 8) b)\<lparr>st_rip := load (st_mem b) 8 (st_regs b 4)\<rparr>"
  have "run und (code @ [0xc3]) u = run und [0xc3] b"
    unfolding c append_assoc a(1) by (rule run_more[OF b(1)])
  also have "\<dots> = Some v"
    using run_append(2)[of "[0xc3]" I_Ret und b] by (simp add: v_def decode_def decode_plain_def set_reg_def)
  finally have "run und (code @ [0xc3]) u = Some v" .
  moreover have "st_regs v r = (if r = 4 then st_regs s 4 + 8 else if r \<in> {3, 12, 13, 14, 15} then st_regs s r else st_regs u r)" for r
    using saved[of 0] saved[of 1] saved[of 2] saved[of 3] saved[of 4] b(4) a(2) four
    by (auto simp: v_def set_reg_def)
  ultimately show ?thesis using a(3) b(2) four kept_return_address[OF assms(3,4)] by (intro exI[of _ v]) (simp add: v_def set_reg_def returned_def)
qed

text \<open>A function of one block: a body of register and memory instructions, and a return.\<close>

definition single_block :: "x86_func \<Rightarrow> x86_coded list \<Rightarrow> bool" where
  "single_block f body \<longleftrightarrow> (\<exists>b i lit. xf_blocks f = [b] \<and> xb_insts b = body @ [(CtlOp X_Ret, i, lit)]) \<and>
     (\<forall>ci \<in> set body. \<forall>x. fst ci \<noteq> CtlOp x) \<and> (body \<noteq> [] \<longrightarrow> fst (hd body) \<noteq> MemOp X_LdrStackArg)"

lemma no_epilogue: "\<forall>ci \<in> set xs. fst ci \<noteq> CtlOp X_Ret \<Longrightarrow> insert_block_epilogues n xs = xs"
  by (induction xs) (simp_all add: insert_block_epilogues_def)

lemma lowered_single_block:
  assumes "single_block f body"
  obtains i lit where "map xb_insts (xf_blocks (lower_function_frame f)) =
    [frame_enter (xf_stack_size f) @ body @ frame_leave (xf_stack_size f) @ [(CtlOp X_Ret, i, lit)]]"
proof -
  let ?n = "xf_stack_size f"
  obtain b i lit where b: "xf_blocks f = [b]" "xb_insts b = body @ [(CtlOp X_Ret, i, lit)]"
    "\<forall>ci \<in> set body. \<forall>x. fst ci \<noteq> CtlOp x" "body \<noteq> [] \<longrightarrow> fst (hd body) \<noteq> MemOp X_LdrStackArg"
    using assms by (auto simp: single_block_def)
  have "insert_prologue ?n (xb_insts b) = frame_enter ?n @ xb_insts b"
    using b(2,4) by (cases body) (simp_all add: insert_prologue_def)
  moreover have "insert_block_epilogues ?n (frame_enter ?n @ body) = frame_enter ?n @ body"
    by (rule no_epilogue) (use b(3) in \<open>auto simp: frame_enter_def push_def sub_sp_imm_def mk_def\<close>)
  then have "insert_block_epilogues ?n (frame_enter ?n @ body @ [(CtlOp X_Ret, i, lit)]) =
      frame_enter ?n @ body @ frame_leave ?n @ [(CtlOp X_Ret, i, lit)]"
    by (simp add: insert_block_epilogues_def)
  ultimately show ?thesis using that b(1,2) by (simp add: lower_function_frame_def Let_def)
qed

lemma aligned_stack:
  assumes "uint (sp :: u64) mod 16 = 8" "16 dvd n"
  shows "uint (sp - 40 - of_nat n) mod 16 = 0"
proof -
  have "uint (sp - 40 - of_nat n) = (uint sp - 40 - int n) mod 2 ^ 64"
    by (simp add: uint_word_ariths unsigned_of_nat take_bit_eq_mod of_nat_mod mod_simps)
  then have "uint (sp - 40 - of_nat n) mod 16 = (uint sp - 40 - int n) mod 16" by (simp add: mod_mod_cancel)
  also have "\<dots> = 0" using assms by (elim dvdE) presburger
  finally show ?thesis .
qed

text \<open>
  (C9) Frame lowering of a function of one block, whose body has register and memory instructions only, does not begin with
  the load of a stack argument (see \<open>x86_stack_arg_clobbers_rbx\<close>), and ends in the only return: its code saves, and
  restores before it returns, every callee-saved register the allocator uses.  If the body leaves \<open>rsp\<close> and the saved area with the return address
  alone, the callee-saved registers have their old values on return, \<open>rsp\<close> is above the return address, which is
  where control goes; every other register is as the body left it.  The body runs with \<open>rsp\<close> on a multiple of 16.
\<close>

theorem x86_frame_restores:
  assumes "single_block f body" "xf_stack_size f < 2 ^ 31" "code_of body = Some bytes"
  shows "\<exists>insts code. map xb_insts (xf_blocks (lower_function_frame f)) = [insts] \<and> code_of insts = Some code \<and>
    (\<forall>s. \<exists>t. entered (xf_stack_size f) s t \<and>
      (uint (st_regs s 4) mod 16 = 8 \<and> 16 dvd xf_stack_size f \<longrightarrow> uint (st_regs t 4) mod 16 = 0) \<and>
      (\<forall>u. run und bytes t = Some u \<and> ready_to_leave s t u \<longrightarrow>
        (\<exists>v. run und code s = Some v \<and> returned s u v)))"
proof -
  let ?n = "xf_stack_size f"
  obtain i lit where insts: "map xb_insts (xf_blocks (lower_function_frame f)) =
      [frame_enter ?n @ body @ frame_leave ?n @ [(CtlOp X_Ret, i, lit)]]"
    using lowered_single_block[OF assms(1)] .
  obtain enter leave where c: "code_of (frame_enter ?n) = Some enter" "code_of (frame_leave ?n) = Some leave"
    using code_of_enter[OF assms(2)] code_of_leave[OF assms(2)] by blast
  have code: "code_of (frame_enter ?n @ body @ frame_leave ?n @ [(CtlOp X_Ret, i, lit)]) = Some (enter @ bytes @ leave @ [0xc3])"
    unfolding code_of_append c assms(3) by (simp add: encode_inst_def plain_def)
  have "\<exists>t. entered ?n s t \<and> (uint (st_regs s 4) mod 16 = 8 \<and> 16 dvd ?n \<longrightarrow> uint (st_regs t 4) mod 16 = 0) \<and>
      (\<forall>u. run und bytes t = Some u \<and> ready_to_leave s t u \<longrightarrow>
        (\<exists>v. run und (enter @ bytes @ leave @ [0xc3]) s = Some v \<and> returned s u v))" for s
  proof -
    obtain t where t: "run und (enter @ bytes @ leave @ [0xc3]) s = run und (bytes @ leave @ [0xc3]) t" "entered ?n s t"
      using enter_runs[OF assms(2) c(1)] by blast
    have align: "uint (st_regs s 4) mod 16 = 8 \<and> 16 dvd ?n \<longrightarrow> uint (st_regs t 4) mod 16 = 0"
      using aligned_stack t(2) by (simp add: entered_def)
    have ends: "\<exists>v. run und (enter @ bytes @ leave @ [0xc3]) s = Some v \<and> returned s u v"
      if u: "run und bytes t = Some u" "ready_to_leave s t u" for u
      using leave_runs[OF assms(2) c(2) t(2) u(2), of und] unfolding t(1) run_more[OF u(1)] .
    show ?thesis by (rule exI[of _ t], intro conjI allI t(2) align) (use ends in blast)
  qed
  then show ?thesis using insts code by (intro exI[of _ "frame_enter ?n @ body @ frame_leave ?n @ [(CtlOp X_Ret, i, lit)]"]
      exI[of _ "enter @ bytes @ leave @ [0xc3]"]) simp
qed

text \<open>\<open>mov rbx, rdi\<close> in a frame of 16 bytes.\<close>

definition frame_example :: x86_func where
  "frame_example = \<lparr>xf_name = ''f'', xf_stack_size = 16, xf_blocks = [\<lparr>xb_id = 0, xb_insts =
     [mk (RegOp X_Mov) (no_fields\<lparr>x_rd := Some (gpr 3), x_rm := Some (gpr 7)\<rparr>), mk (CtlOp X_Ret) no_fields]\<rparr>]\<rparr>"

theorem x86_frame_restores_witness:
  "\<forall>und s. \<exists>insts code v. map xb_insts (xf_blocks (lower_function_frame frame_example)) = [insts] \<and> code_of insts = Some code \<and>
     run und code s = Some v \<and> st_regs v 3 = st_regs s 3 \<and> st_regs v 4 = st_regs s 4 + 8"
proof (intro allI)
  fix und :: "insn \<Rightarrow> x86_state \<Rightarrow> rflags" and s :: x86_state
  let ?body = "[mk (RegOp X_Mov) (no_fields\<lparr>x_rd := Some (gpr 3), x_rm := Some (gpr 7)\<rparr>)]"
  have f: "single_block frame_example ?body" "xf_stack_size frame_example < 2 ^ 31"
    by (simp_all add: single_block_def frame_example_def mk_def)
  have c: "code_of ?body = Some (emit_mov_rr 3 7)"
    by (simp add: mk_def no_fields_def gpr_def encode_inst_def plain_def parse_gpr_def)
  from x86_frame_restores[OF f c, of und] obtain insts code where
    code: "map xb_insts (xf_blocks (lower_function_frame frame_example)) = [insts]" "code_of insts = Some code"
    and all: "\<forall>s. \<exists>t. entered (xf_stack_size frame_example) s t \<and>
      (uint (st_regs s 4) mod 16 = 8 \<and> 16 dvd xf_stack_size frame_example \<longrightarrow> uint (st_regs t 4) mod 16 = 0) \<and>
      (\<forall>u. run und (emit_mov_rr 3 7) t = Some u \<and> ready_to_leave s t u \<longrightarrow> (\<exists>v. run und code s = Some v \<and> returned s u v))"
    by (elim exE conjE) (rule that)
  from spec[OF all, of s] obtain t where
    t: "\<forall>u. run und (emit_mov_rr 3 7) t = Some u \<and> ready_to_leave s t u \<longrightarrow> (\<exists>v. run und code s = Some v \<and> returned s u v)"
    by (elim exE conjE) (rule that)
  have "\<exists>u. run und (emit_mov_rr 3 7) t = Some u \<and> ready_to_leave s t u"
    using move_runs(2)[of 3 7 und t] by (simp add: ready_to_leave_def set_reg_def)
  then obtain u v where "run und code s = Some v" "returned s u v" using t by blast
  then show "\<exists>insts code v. map xb_insts (xf_blocks (lower_function_frame frame_example)) = [insts] \<and> code_of insts = Some code \<and>
      run und code s = Some v \<and> st_regs v 3 = st_regs s 3 \<and> st_regs v 4 = st_regs s 4 + 8"
    using code by (intro exI[of _ insts] exI[of _ code] exI[of _ v]) (simp add: returned_def)
qed

subsection \<open>Where lowering goes wrong\<close>

text \<open>A function that returns its first stack argument, as instruction selection writes it.\<close>

definition stack_arg_example :: x86_func where
  "stack_arg_example = \<lparr>xf_name = ''f'', xf_stack_size = 0, xf_blocks = [\<lparr>xb_id = 0, xb_insts =
     [mk (MemOp X_LdrStackArg) (no_fields\<lparr>x_rd := Some (virtual_gpr 0), x_imm := Some 0\<rparr>),
      mk (RegOp X_Mov) (no_fields\<lparr>x_rd := Some (gpr 0), x_rm := Some (virtual_gpr 0)\<rparr>), mk (CtlOp X_Ret) no_fields]\<rparr>]\<rparr>"

lemma stack_arg_allocated:
  "allocate_function stack_arg_example = Some (Inr (stack_arg_example\<lparr>xf_blocks := [\<lparr>xb_id = 0, xb_insts =
     [mk (MemOp X_LdrStackArg) (no_fields\<lparr>x_rd := Some (gpr 3), x_imm := Some 0\<rparr>),
      mk (RegOp X_Mov) (no_fields\<lparr>x_rd := Some (gpr 0), x_rm := Some (gpr 3)\<rparr>), mk (CtlOp X_Ret) no_fields]\<rparr>]\<rparr>))"
  by code_simp



text \<open>Single instructions of the examples.\<close>

lemma example_code:
  "code_of [mk (MemOp X_LdrStackArg) (no_fields\<lparr>x_rd := Some (gpr r), x_imm := Some 0\<rparr>)] = Some (emit_load 8 r 4 8)"
  "code_of [mk (RegOp X_Mov) (no_fields\<lparr>x_rd := Some (gpr r), x_rm := Some (gpr q)\<rparr>)] = Some (emit_mov_rr r q)"
  "code_of [str_sp_offset (gpr r) 0] = Some (emit_store 8 r 4 0)" "code_of [ldr_sp_offset (gpr r) 0] = Some (emit_load 8 r 4 0)"
  "code_of [sub_sp_imm 16] = Some (sp_code 0xec 16)" "code_of [mk (CtlOp X_Ret) no_fields] = Some [0xc3]"
  by (simp_all add: mk_def no_fields_def gpr_def encode_inst_def plain_def parse_gpr_def get_imm_def disp32_def RSP_def
      sp_access_def str_sp_offset_def ldr_sp_offset_def sub_sp_imm_def sp_code_def)

lemma load_runs:
  assumes "r < 16" "n < 2 ^ 31"
  shows "\<exists>t. run und (emit_load 8 r 4 (int n) @ rest) s = run und rest t \<and>
    st_regs t = (st_regs s)(r := load (st_mem s) 8 (st_regs s 4 + of_nat n)) \<and> st_mem t = st_mem s"
  by (rule step_runs[OF decode_load[of 8 r 4 "int n"]]) (use assms in \<open>simp_all add: set_reg_def\<close>)

lemma mov_runs:
  assumes "r < 16" "q < 16"
  shows "\<exists>t. run und (emit_mov_rr r q @ rest) s = run und rest t \<and> st_regs t = (st_regs s)(r := st_regs s q) \<and> st_mem t = st_mem s"
  by (rule step_runs[OF decode_moves(1)[OF assms]]) (simp_all add: set_reg_def)


text \<open>
  (C39) A stack argument in a callee-saved register is not what the caller finds there again: the loads of stack arguments come
  before the registers are saved, so a function that keeps its first stack argument in \<open>rbx\<close> saves the argument, not the
  caller's \<open>rbx\<close>, and returns with the argument in it.
\<close>

theorem x86_stack_arg_clobbers_rbx:
  "\<exists>f insts code. allocate_function stack_arg_example = Some (Inr f) \<and>
     map xb_insts (xf_blocks (lower_function_frame f)) = [insts] \<and> code_of insts = Some code \<and>
     (\<forall>und s. \<exists>v. run und code s = Some v \<and> st_regs v 4 = st_regs s 4 + 8 \<and> st_rip v = load (st_mem s) 8 (st_regs s 4) \<and>
        st_regs v 3 = load (st_mem s) 8 (st_regs s 4 + 8))"
proof -
  define ldr where "ldr = mk (MemOp X_LdrStackArg) (no_fields\<lparr>x_rd := Some (gpr 3), x_imm := Some 0\<rparr>)"
  define mov where "mov = mk (RegOp X_Mov) (no_fields\<lparr>x_rd := Some (gpr 0), x_rm := Some (gpr 3)\<rparr>)"
  define ret where "ret = mk (CtlOp X_Ret) no_fields"
  define f where "f = stack_arg_example\<lparr>xf_blocks := [\<lparr>xb_id = 0, xb_insts = [ldr, mov, ret]\<rparr>]\<rparr>"
  have alloc: "allocate_function stack_arg_example = Some (Inr f)"
    unfolding f_def ldr_def mov_def ret_def by (rule stack_arg_allocated)
  have "insert_block_epilogues 0 ([ldr] @ frame_enter 0 @ [mov]) = [ldr] @ frame_enter 0 @ [mov]"
    by (rule no_epilogue) (auto simp: frame_enter_def push_def mk_def ldr_def mov_def)
  then have "insert_block_epilogues 0 (([ldr] @ frame_enter 0 @ [mov]) @ [ret]) = ([ldr] @ frame_enter 0 @ [mov]) @ frame_leave 0 @ [ret]"
    unfolding insert_block_epilogues_def map_append concat_append by (simp add: ret_def mk_def)
  then have low: "map xb_insts (xf_blocks (lower_function_frame f)) = [[ldr] @ frame_enter 0 @ [mov] @ frame_leave 0 @ [ret]]"
    by (simp add: lower_function_frame_def f_def stack_arg_example_def insert_prologue_def) (simp add: ldr_def mov_def mk_def)
  obtain enter leave where c: "code_of (frame_enter 0) = Some enter" "code_of (frame_leave 0) = Some leave"
    using code_of_enter[of 0] code_of_leave[of 0] by auto
  define code where "code = emit_load 8 3 4 8 @ enter @ emit_mov_rr 0 3 @ leave @ [0xc3]"
  have code: "code_of ([ldr] @ frame_enter 0 @ [mov] @ frame_leave 0 @ [ret]) = Some code"
    unfolding code_of_append c ldr_def mov_def ret_def example_code code_def by simp
  have "\<exists>v. run und code s = Some v \<and> st_regs v 4 = st_regs s 4 + 8 \<and> st_rip v = load (st_mem s) 8 (st_regs s 4) \<and>
      st_regs v 3 = load (st_mem s) 8 (st_regs s 4 + 8)" for und :: "insn \<Rightarrow> x86_state \<Rightarrow> rflags" and s
  proof -
    obtain a where a: "run und code s = run und (enter @ emit_mov_rr 0 3 @ leave @ [0xc3]) a"
      "st_regs a = (st_regs s)(3 := load (st_mem s) 8 (st_regs s 4 + 8))" "st_mem a = st_mem s"
      using load_runs[of 3 8 und "enter @ emit_mov_rr 0 3 @ leave @ [0xc3]" s] unfolding code_def by auto
    obtain b where b: "run und (enter @ emit_mov_rr 0 3 @ leave @ [0xc3]) a = run und (emit_mov_rr 0 3 @ leave @ [0xc3]) b" "entered 0 a b"
      using enter_runs[OF _ c(1)] by force
    obtain d where d: "run und (emit_mov_rr 0 3 @ leave @ [0xc3]) b = run und (leave @ [0xc3]) d"
      "st_regs d = (st_regs b)(0 := st_regs b 3)" "st_mem d = st_mem b" using mov_runs[of 0 3 und _ b] by auto
    have "ready_to_leave a b d" using d by (simp add: ready_to_leave_def)
    from leave_runs[OF _ c(2) b(2) this, of und] obtain v where v: "run und (leave @ [0xc3]) d = Some v" "returned a d v" by auto
    show ?thesis using a b(1) d(1) v by (intro exI[of _ v]) (simp add: returned_def)
  qed
  then show ?thesis using alloc low code
    by (intro exI[of _ f] exI[of _ "[ldr] @ frame_enter 0 @ [mov] @ frame_leave 0 @ [ret]"] exI[of _ code]) simp
qed


end
