(* ===== verification/X86_Edges.thy ===== *)
theory X86_Edges
  imports X86_Ops Edge_Copies
begin

text \<open>
  Block arguments on x86-64: \<^verbatim>\<open>passes/x86_64_darwin/isel_control_flow.rs\<close>, with the instructions and register
  numbers of \<^verbatim>\<open>llvm_to_x86_64_isel.rs\<close>.
\<close>

definition mov_imm :: "register \<Rightarrow> nat \<Rightarrow> x86_coded" where
  "mov_imm dst n = (RegOp X_MovImm, no_fields\<lparr>x_rd := Some dst, x_imm := Some n\<rparr>, None)"

definition mov :: "register \<Rightarrow> register \<Rightarrow> x86_coded" where
  "mov dst src = (RegOp X_Mov, no_fields\<lparr>x_rd := Some dst, x_rm := Some src\<rparr>, None)"

text \<open>Register numbers are 32 bits wide.\<close>

definition fresh_vreg :: "nat \<Rightarrow> register \<times> nat" where
  "fresh_vreg next_vreg = (virtual_gpr (next_vreg mod 2 ^ 32), next_vreg + 1)"

definition x86_copies :: "(register, x86_coded) copy_ops" where
  "x86_copies = \<lparr>emit_move = (\<lambda>dst src. Inr [mov dst src]), emit_undef = (\<lambda>dst n. Inr ([mov_imm dst 0], n)), fresh_like = (\<lambda>dst. fresh_vreg)\<rparr>"

definition x86_block_arg_copies :: "register list list \<Rightarrow> register option list list \<Rightarrow> nat \<Rightarrow> (nat \<times> x86_coded list) crabbit_result option" where
  "x86_block_arg_copies = emit_block_arg_copies x86_copies"

subsection \<open>What the code does\<close>

fun run_copy :: "x86_coded \<Rightarrow> (register \<Rightarrow> u64) \<Rightarrow> register \<Rightarrow> u64" where
  "run_copy (opcode, i, lit) R =
     (if opcode = RegOp X_Mov then (case (x_rd i, x_rm i) of (Some d, Some s) \<Rightarrow> R(d := R s) | _ \<Rightarrow> R)
      else if opcode = RegOp X_MovImm then (case (x_rd i, x_imm i) of (Some d, Some n) \<Rightarrow> R(d := of_nat n) | _ \<Rightarrow> R)
      else R)"

definition run_copies :: "x86_coded list \<Rightarrow> (register \<Rightarrow> u64) \<Rightarrow> register \<Rightarrow> u64" where
  "run_copies = fold run_copy"

text \<open>The registers in use: those with a number below \<open>n\<close>.\<close>

fun in_use :: "nat \<Rightarrow> register \<Rightarrow> bool" where
  "in_use n (Virtual i c) \<longleftrightarrow> i < n"
| "in_use n (Physical p) \<longleftrightarrow> True"

fun copy_class :: "register \<Rightarrow> register_class option" where
  "copy_class (Virtual i c) = (if c = Gpr64 then Some Gpr64 else None)"
| "copy_class (Physical p) = (if physical_class p = Gpr64 then Some Gpr64 else None)"

interpretation x86_copying: copy_target x86_copies run_copies "0 :: u64" in_use copy_class "2 ^ 32"
proof
  fix n n' :: nat and r assume "in_use n r" "n \<le> n'"
  then show "in_use n' r" by (cases r) simp_all
next
  fix d r :: register and n n' :: nat
  assume "n < 2 ^ 32" "fresh_like x86_copies d n = (r, n')" "copy_class d \<noteq> None"
  then show "n' = n + 1 \<and> \<not> in_use n r \<and> in_use n' r \<and> copy_class r = copy_class d"
    by (cases d) (auto simp: x86_copies_def fresh_vreg_def virtual_gpr_def)
qed (auto simp: run_copies_def x86_copies_def mov_def mov_imm_def)

text \<open>
  (C7) The code for an edge of the control flow copies all values to the block arguments as if at once, whatever copies overlap: the
  loop that orders the moves ends, each argument gets the value its source had before any move (or 0 if it is undefined on this
  edge), and no other register in use changes.
\<close>

theorem x86_edge_copies_parallel:
  assumes "list_all2 (\<lambda>ds ss. length ds = length ss) dests args" "distinct (concat dests)"
    and "\<forall>r \<in> set (concat dests) \<union> (\<Union>s \<in> set (concat args). set_option s). in_use n r \<and> copy_class r = Some Gpr64"
    and "n + 2 * length (concat dests) + 1 \<le> 2 ^ 32"
  shows "\<exists>n' code. x86_block_arg_copies dests args n = Some (Inr (n', code)) \<and> n \<le> n' \<and>
    (\<forall>R. (\<forall>k < length (concat dests). run_copies code R (concat dests ! k) =
        (case concat args ! k of Some s \<Rightarrow> R s | None \<Rightarrow> 0)) \<and>
      (\<forall>r. in_use n r \<longrightarrow> r \<notin> set (concat dests) \<longrightarrow> run_copies code R r = R r))"
proof -
  have "in_use n d \<and> copy_class d \<noteq> None \<and> (case s of None \<Rightarrow> True | Some r \<Rightarrow> in_use n r \<and> copy_class r = copy_class d)"
    if m: "(d, s) \<in> set (zip (concat dests) (concat args))" for d s
  proof -
    have d: "in_use n d \<and> copy_class d = Some Gpr64" using set_zip_leftD[OF m] assms(3) by blast
    have "in_use n r \<and> copy_class r = Some Gpr64" if "s = Some r" for r
      using set_zip_rightD[OF m] assms(3) that by auto
    then show ?thesis using d by (cases s) simp_all
  qed
  then have "\<forall>(d, s) \<in> set (zip (concat dests) (concat args)).
      in_use n d \<and> copy_class d \<noteq> None \<and> (case s of None \<Rightarrow> True | Some r \<Rightarrow> in_use n r \<and> copy_class r = copy_class d)" by blast
  from x86_copying.emit_correct[OF assms(1,2) this assms(4)] show ?thesis
    by (auto simp: x86_block_arg_copies_def x86_copying.parallel_def source_value_def)
qed

text \<open>Two block arguments that swap their values on a back edge.\<close>

theorem x86_edge_copies_parallel_witness:
  "\<exists>n' code. x86_block_arg_copies [[virtual_gpr 7], [virtual_gpr 8]] [[Some (virtual_gpr 8)], [Some (virtual_gpr 7)]] 9 = Some (Inr (n', code)) \<and>
     (\<forall>R. run_copies code R (virtual_gpr 7) = R (virtual_gpr 8) \<and> run_copies code R (virtual_gpr 8) = R (virtual_gpr 7))"
proof -
  let ?ds = "[[virtual_gpr 7], [virtual_gpr 8]]" and ?ss = "[[Some (virtual_gpr 8)], [Some (virtual_gpr 7)]]"
  have "\<forall>r \<in> set (concat ?ds) \<union> (\<Union>s \<in> set (concat ?ss). set_option s). in_use 9 r \<and> copy_class r = Some Gpr64"
    by (simp add: virtual_gpr_def)
  from x86_edge_copies_parallel[OF _ _ this] obtain n' code where c: "x86_block_arg_copies ?ds ?ss 9 = Some (Inr (n', code))"
    "\<forall>R. \<forall>k < length (concat ?ds). run_copies code R (concat ?ds ! k) = (case concat ?ss ! k of Some s \<Rightarrow> R s | None \<Rightarrow> 0)"
    by (auto simp: virtual_gpr_def)
  have "run_copies code R (virtual_gpr 7) = R (virtual_gpr 8) \<and> run_copies code R (virtual_gpr 8) = R (virtual_gpr 7)" for R
    using c(2)[rule_format, of 0 R] c(2)[rule_format, of 1 R] by simp
  then show ?thesis using c(1) by blast
qed

end
