(* ===== verification/X86_Placement.thy ===== *)
theory X86_Placement
  imports Block_Placement X86_Ops
begin

text \<open>
  Block placement on x86-64: \<^verbatim>\<open>passes/x86_64_darwin/x86_64_block_placement.rs\<close>.  Fall-throughs are made explicit, the blocks are
  laid out in chain order (\<open>Block_Placement\<close>), and branches to the next block are removed or inverted.  The
  frequencies are functions of the model, as on AArch64.
\<close>

subsection \<open>The pass\<close>

text \<open>Control transfers; an operation is given by its position in the block.\<close>

datatype control_flow_op =
    Conditional (cf_op: nat) (cf_target: nat) (cf_weights: "(nat \<times> nat) option") | Unconditional (cf_op: nat) (cf_target: nat) | Exit

definition classify_control_flow :: "nat \<Rightarrow> x86_coded \<Rightarrow> control_flow_op option" where
  "classify_control_flow pos ci =
     (if fst ci = CtlOp X_Ret \<or> fst ci = CtlOp X_Ud2 then Some Exit
      else Option.bind (x_target (fst (snd ci))) (\<lambda>tgt.
        if fst ci = CtlOp X_Jmp then Some (Unconditional pos tgt)
        else if fst ci = CtlOp X_Jcc \<or> fst ci = CtlOp X_TestJnz then Some (Conditional pos tgt (branch_weights (fst (snd ci))))
        else None))"

text \<open>The conditional branches of a block, then how it ends.\<close>

fun flow_from :: "nat \<Rightarrow> x86_coded list \<Rightarrow> control_flow_op list \<times> control_flow_op option" where
  "flow_from pos [] = ([], None)"
| "flow_from pos (ci # cs) = (case classify_control_flow pos ci of
     Some (Conditional p t w) \<Rightarrow> (case flow_from (pos + 1) cs of (conditionals, end_op) \<Rightarrow> (Conditional p t w # conditionals, end_op))
   | Some end_op \<Rightarrow> ([], Some end_op)
   | None \<Rightarrow> flow_from (pos + 1) cs)"

definition block_control_flow :: "x86_block \<Rightarrow> control_flow_op list \<times> control_flow_op option" where
  "block_control_flow b = flow_from 0 (xb_insts b)"

definition jmp :: "nat \<Rightarrow> x86_coded" where
  "jmp tgt = (CtlOp X_Jmp, no_fields\<lparr>x_target := Some tgt\<rparr>, None)"

fun materialize_fallthrough_branches :: "x86_block list \<Rightarrow> x86_block list" where
  "materialize_fallthrough_branches (b # next_block # bs) =
     (if snd (block_control_flow b) = None then b\<lparr>xb_insts := xb_insts b @ [jmp (xb_id next_block)]\<rparr> else b)
     # materialize_fallthrough_branches (next_block # bs)"
| "materialize_fallthrough_branches bs = bs"

text \<open>Only the weights of a single conditional branch are used.\<close>

definition single_weights :: "control_flow_op list \<Rightarrow> (nat \<times> nat) option" where
  "single_weights conditionals = (case conditionals of [Conditional p t w] \<Rightarrow> w | _ \<Rightarrow> None)"

definition block_edges :: "(nat \<rightharpoonup> nat) \<Rightarrow> x86_block \<Rightarrow> cfg_edge list" where
  "block_edges block_index b = (case block_control_flow b of (conditionals, end_op) \<Rightarrow>
     List.map_filter (\<lambda>c. map_option (\<lambda>to. \<lparr>ce_to = to, ce_weight = map_option fst (single_weights conditionals)\<rparr>) (block_index (cf_target c)))
       conditionals @
     (case end_op of
        Some (Unconditional p tgt) \<Rightarrow>
          (case block_index tgt of Some to \<Rightarrow> [\<lparr>ce_to = to, ce_weight = map_option snd (single_weights conditionals)\<rparr>] | None \<Rightarrow> [])
      | _ \<Rightarrow> []))"

definition machine_cfg_edges :: "x86_block list \<Rightarrow> cfg_edge list list" where
  "machine_cfg_edges blocks = map (block_edges (block_indexes (map xb_id blocks))) blocks"

definition erase_at :: "nat \<Rightarrow> x86_block \<Rightarrow> x86_block" where
  "erase_at pos b = b\<lparr>xb_insts := take pos (xb_insts b) @ drop (pos + 1) (xb_insts b)\<rparr>"

text \<open>\<open>set_cond\<close>, \<open>set_target\<close> and \<open>set_branch_weights\<close>.\<close>

definition invert_branch :: "condition_code \<Rightarrow> nat \<Rightarrow> (nat \<times> nat) option \<Rightarrow> x86_coded \<Rightarrow> x86_coded" where
  "invert_branch c tgt weights ci = (case ci of (opcode, i, lit) \<Rightarrow>
     (opcode, i\<lparr>x_cond := Some (invert c), x_target := Some tgt,
        x_weights := (case weights of Some (taken, not_taken) \<Rightarrow> Some [not_taken, taken] | None \<Rightarrow> x_weights i)\<rparr>, lit))"

definition simplify_block :: "nat \<Rightarrow> x86_block \<Rightarrow> x86_block" where
  "simplify_block next_id b = (case block_control_flow b of
     (conditionals, Some (Unconditional branch_op branch_target)) \<Rightarrow>
       (if branch_target = next_id then erase_at branch_op b
        else (case conditionals of
          [Conditional cond_op cond_target weights] \<Rightarrow>
            (if cond_target = next_id \<and> fst (xb_insts b ! cond_op) = CtlOp X_Jcc then
               (case x_cond (fst (snd (xb_insts b ! cond_op))) of
                  None \<Rightarrow> b
                | Some c \<Rightarrow> erase_at branch_op
                    (b\<lparr>xb_insts := (xb_insts b)[cond_op := invert_branch c branch_target weights (xb_insts b ! cond_op)]\<rparr>))
             else b)
        | _ \<Rightarrow> b))
   | _ \<Rightarrow> b)"

fun simplify_branches_for_layout :: "x86_block list \<Rightarrow> x86_block list" where
  "simplify_branches_for_layout (b # next_block # bs) =
     simplify_block (xb_id next_block) b # simplify_branches_for_layout (next_block # bs)"
| "simplify_branches_for_layout bs = bs"

definition place_blocks :: "(hot_path_info \<Rightarrow> nat list) \<Rightarrow> (nat \<Rightarrow> nat \<Rightarrow> nat) \<Rightarrow> x86_block list \<Rightarrow> x86_block list option" where
  "place_blocks frequencies scaled blocks0 =
     (if length blocks0 < 2 then Some blocks0
      else let blocks = materialize_fallthrough_branches blocks0; successors = machine_cfg_edges blocks in
        Option.bind (from_edges successors) (\<lambda>info.
          map_option (\<lambda>order. simplify_branches_for_layout (fold (\<lambda>index. move_to_back (blocks ! index)) (tl order) blocks))
            (chain_order successors ((!) (frequencies info)) (edge_frequency scaled (frequencies info) info))))"

subsection \<open>Where control goes\<close>

text \<open>
  A run of a block: \<open>sem\<close> is what the other instructions do, \<open>flags\<close> and \<open>nonzero\<close> what a branch reads of a state.
\<close>

datatype exit = Goto nat | Leave | Fall

definition branch_taken :: "('s \<Rightarrow> rflags) \<Rightarrow> (register option \<Rightarrow> 's \<Rightarrow> bool) \<Rightarrow> x86_coded \<Rightarrow> 's \<Rightarrow> bool" where
  "branch_taken flags nonzero ci s =
     (if fst ci = CtlOp X_Jcc then (\<exists>c. x_cond (fst (snd ci)) = Some c \<and> cond_holds (flags s) c) else nonzero (x_rn (fst (snd ci))) s)"

fun run_control :: "(x86_coded \<Rightarrow> 's \<Rightarrow> 's) \<Rightarrow> (x86_coded \<Rightarrow> 's \<Rightarrow> bool) \<Rightarrow> x86_coded list \<Rightarrow> 's \<Rightarrow> 's \<times> exit" where
  "run_control sem taken [] s = (s, Fall)"
| "run_control sem taken (ci # cs) s = (case classify_control_flow 0 ci of
     Some Exit \<Rightarrow> (sem ci s, Leave)
   | Some (Unconditional p t) \<Rightarrow> (s, Goto t)
   | Some (Conditional p t w) \<Rightarrow>
       (if taken ci s then Pair (if fst ci = CtlOp X_Jcc then s else sem ci s) (Goto t)
        else run_control sem taken cs (if fst ci = CtlOp X_Jcc then s else sem ci s))
   | None \<Rightarrow> run_control sem taken cs (sem ci s))"

text \<open>A block that falls through goes on with the next one of the layout.\<close>

fun resolve :: "nat option \<Rightarrow> 's \<times> exit \<Rightarrow> 's \<times> exit" where
  "resolve (Some n) (s, Fall) = (s, Goto n)"
| "resolve next_id r = r"

fun layout_flow :: "(x86_coded \<Rightarrow> 's \<Rightarrow> 's) \<Rightarrow> (x86_coded \<Rightarrow> 's \<Rightarrow> bool) \<Rightarrow> x86_block list \<Rightarrow> nat \<Rightarrow> 's \<Rightarrow> ('s \<times> exit) option" where
  "layout_flow sem taken [] block s = None"
| "layout_flow sem taken (b # bs) block s =
     (if xb_id b = block then Some (resolve (case bs of [] \<Rightarrow> None | n # _ \<Rightarrow> Some (xb_id n)) (run_control sem taken (xb_insts b) s))
      else layout_flow sem taken bs block s)"

text \<open>
  Blocks as instruction selection leaves them: nothing follows an exit or a jump, and a single conditional branch comes right before the
  end.
\<close>

definition ends :: "x86_coded \<Rightarrow> bool" where
  "ends ci = (case classify_control_flow 0 ci of Some Exit \<Rightarrow> True | Some (Unconditional p t) \<Rightarrow> True | _ \<Rightarrow> False)"

definition is_conditional :: "x86_coded \<Rightarrow> bool" where
  "is_conditional ci = (case classify_control_flow 0 ci of Some (Conditional p t w) \<Rightarrow> True | _ \<Rightarrow> False)"

definition before_end :: "x86_coded list \<Rightarrow> x86_coded list" where
  "before_end insts = (if insts \<noteq> [] \<and> ends (last insts) then butlast insts else insts)"

definition tidy :: "x86_block \<Rightarrow> bool" where
  "tidy b \<longleftrightarrow> list_all (\<lambda>ci. \<not> ends ci) (before_end (xb_insts b)) \<and>
     (length (filter is_conditional (before_end (xb_insts b))) = 1 \<longrightarrow> is_conditional (last (before_end (xb_insts b))))"

definition ended :: "x86_block \<Rightarrow> bool" where
  "ended b \<longleftrightarrow> xb_insts b \<noteq> [] \<and> ends (last (xb_insts b))"

subsection \<open>The shape of a tidy block\<close>

lemma classify_at:
  "classify_control_flow pos ci = (case classify_control_flow 0 ci of
     Some (Conditional p t w) \<Rightarrow> Some (Conditional pos t w) | Some (Unconditional p t) \<Rightarrow> Some (Unconditional pos t)
   | Some Exit \<Rightarrow> Some Exit | None \<Rightarrow> None)"
  by (cases "x_target (fst (snd ci))") (auto simp: classify_control_flow_def)

lemma flow_from_append:
  assumes "list_all (\<lambda>ci. \<not> ends ci) xs"
  shows "flow_from pos (xs @ ys) = (fst (flow_from pos xs) @ fst (flow_from (pos + length xs) ys), snd (flow_from (pos + length xs) ys))"
  using assms
proof (induction xs arbitrary: pos)
  case (Cons ci cs)
  then show ?case
    by (auto simp: ends_def classify_at[of pos] split: option.splits control_flow_op.splits prod.splits)
qed simp

lemma flow_from_open:
  assumes "list_all (\<lambda>ci. \<not> ends ci) xs"
  shows "snd (flow_from pos xs) = None" "length (fst (flow_from pos xs)) = length (filter is_conditional xs)"
proof -
  show "snd (flow_from pos xs) = None"
    using flow_from_append[OF assms, of pos "[]"] by (metis append_Nil2 flow_from.simps(1) snd_conv)
  show "length (fst (flow_from pos xs)) = length (filter is_conditional xs)"
    using assms
  proof (induction xs arbitrary: pos)
    case (Cons ci cs)
    then have IH: "length (fst (flow_from (pos + 1) cs)) = length (filter is_conditional cs)" and e: "\<not> ends ci" by simp_all
    show ?case
    proof (cases "classify_control_flow 0 ci")
      case None
      then show ?thesis using IH by (simp add: classify_at[of pos] is_conditional_def[of ci])
    next
      case (Some op)
      then obtain p t w where "op = Conditional p t w" using e by (cases op) (simp_all add: ends_def)
      then show ?thesis using IH Some
        by (cases "flow_from (Suc pos) cs") (simp add: classify_at[of pos] is_conditional_def[of ci])
    qed
  qed simp
qed

lemma flow_of_end:
  assumes "ends e"
  shows "flow_from pos [e] = ([], classify_control_flow pos e)" "classify_control_flow pos e \<noteq> None"
  using assms by (auto simp: ends_def classify_at[of pos] split: option.splits control_flow_op.splits)

text \<open>A tidy block that does not fall through is its open part and one end.\<close>

lemma tidy_ended:
  assumes "tidy b" "ended b"
  obtains xs e where "xb_insts b = xs @ [e]" "ends e" "list_all (\<lambda>ci. \<not> ends ci) xs"
    "length (filter is_conditional xs) = 1 \<longrightarrow> is_conditional (last xs)"
    "block_control_flow b = (fst (flow_from 0 xs), classify_control_flow (length xs) e)"
proof -
  let ?xs = "butlast (xb_insts b)" and ?e = "last (xb_insts b)"
  have s: "xb_insts b = ?xs @ [?e]" "ends ?e" "before_end (xb_insts b) = ?xs" using assms(2) by (simp_all add: ended_def before_end_def)
  then have o: "list_all (\<lambda>ci. \<not> ends ci) ?xs" using assms(1) by (simp add: tidy_def)
  have "block_control_flow b = (fst (flow_from 0 ?xs), classify_control_flow (length ?xs) ?e)"
    unfolding block_control_flow_def
    by (subst s(1)) (simp add: flow_from_append[OF o] flow_of_end(1)[OF s(2)] del: flow_from.simps)
  then show ?thesis using that[of ?xs ?e] s o assms(1) unfolding tidy_def by simp
qed

lemma tidy_open:
  assumes "tidy b" "\<not> ended b"
  shows "list_all (\<lambda>ci. \<not> ends ci) (xb_insts b)" "snd (block_control_flow b) = None"
proof -
  have "before_end (xb_insts b) = xb_insts b" using assms(2) by (auto simp: ended_def before_end_def)
  then show o: "list_all (\<lambda>ci. \<not> ends ci) (xb_insts b)" using assms(1) by (simp add: tidy_def)
  show "snd (block_control_flow b) = None" unfolding block_control_flow_def by (rule flow_from_open(1)[OF o])
qed

lemma tidy_falls:
  assumes "tidy b"
  shows "snd (block_control_flow b) = None \<longleftrightarrow> \<not> ended b"
proof (cases "ended b")
  case True
  then obtain xs e where "block_control_flow b = (fst (flow_from 0 xs), classify_control_flow (length xs) e)" "ends e"
    using tidy_ended[OF assms] by metis
  then show ?thesis using True flow_of_end(2) by simp
next
  case False
  then show ?thesis using tidy_open[OF assms] by simp
qed

subsection \<open>A run of a block\<close>

lemma run_control_append:
  assumes "list_all (\<lambda>ci. \<not> ends ci) xs"
  shows "run_control sem taken (xs @ ys) s = (case run_control sem taken xs s of (s', Fall) \<Rightarrow> run_control sem taken ys s' | r \<Rightarrow> r)"
  using assms
  by (induction xs arbitrary: s) (auto simp: ends_def split: option.splits control_flow_op.splits)

lemma run_end_leaves: "ends e \<Longrightarrow> snd (run_control sem taken [e] s) \<noteq> Fall"
  by (auto simp: ends_def split: option.splits control_flow_op.splits)

lemma resolve_left [simp]: "snd r \<noteq> Fall \<Longrightarrow> resolve next_id r = r"
  by (cases r; cases "snd r"; cases next_id) auto

lemma ended_leaves:
  assumes "tidy b" "ended b"
  shows "snd (run_control sem taken (xb_insts b) s) \<noteq> Fall"
proof -
  obtain xs e where x: "xb_insts b = xs @ [e]" "ends e" "list_all (\<lambda>ci. \<not> ends ci) xs" using tidy_ended[OF assms] by metis
  show ?thesis unfolding x(1) run_control_append[OF x(3)]
    by (simp add: run_end_leaves[OF x(2)] del: run_control.simps split: prod.split exit.split)
qed

subsection \<open>Branches to the next block\<close>

lemma classify_unconditional:
  "classify_control_flow pos e = Some (Unconditional p t) \<Longrightarrow> classify_control_flow pos' e = Some (Unconditional pos' t)"
  by (auto simp: classify_control_flow_def split: if_splits bind_splits)

lemma erase_jump:
  assumes "list_all (\<lambda>ci. \<not> ends ci) xs" "classify_control_flow pos e = Some (Unconditional p n)"
  shows "resolve (Some n) (run_control sem taken xs s) = resolve (Some n) (run_control sem taken (xs @ [e]) s)"
proof -
  have "classify_control_flow 0 e = Some (Unconditional 0 n)"
    by (rule classify_unconditional[OF assms(2)])
  then show ?thesis unfolding run_control_append[OF assms(1)] by (auto split: prod.split exit.split)
qed

lemma invert_jcc:
  assumes "list_all (\<lambda>ci. \<not> ends ci) ys" "classify_control_flow pos ci = Some (Conditional p n w)" "fst ci = CtlOp X_Jcc"
    and "x_cond (fst (snd ci)) = Some c" "classify_control_flow pos' e = Some (Unconditional p' t)"
  shows "resolve (Some n) (run_control sem (branch_taken flags nonzero) (ys @ [invert_branch c t w ci]) s)
    = resolve (Some n) (run_control sem (branch_taken flags nonzero) (ys @ [ci, e]) s)"
proof -
  obtain opcode i lit where ci: "ci = (opcode, i, lit)" by (cases ci)
  have "classify_control_flow 0 (invert_branch c t w ci) = Some (Conditional 0 t (branch_weights (fst (snd (invert_branch c t w ci)))))"
    using assms(3) by (simp add: classify_control_flow_def invert_branch_def ci)
  moreover have "classify_control_flow 0 ci = Some (Conditional 0 n w)"
    using assms(2,3) by (auto simp: classify_control_flow_def split: bind_splits)
  moreover have "classify_control_flow 0 e = Some (Unconditional 0 t)"
    by (rule classify_unconditional[OF assms(5)])
  moreover have "branch_taken flags nonzero (invert_branch c t w ci) s' \<longleftrightarrow> \<not> branch_taken flags nonzero ci s'" for s'
    using assms(3,4) by (simp add: branch_taken_def invert_branch_def ci)
  moreover have "fst (invert_branch c t w ci) = CtlOp X_Jcc" using assms(3) by (simp add: invert_branch_def ci)
  ultimately show ?thesis unfolding run_control_append[OF assms(1)] using assms(3) by (auto split: prod.split exit.split)
qed

lemma single_conditional:
  assumes "list_all (\<lambda>ci. \<not> ends ci) xs" "fst (flow_from 0 xs) = [Conditional q t w]"
    and tidy: "length (filter is_conditional xs) = 1 \<longrightarrow> is_conditional (last xs)"
  obtains ys ci where "xs = ys @ [ci]" "list_all (\<lambda>ci. \<not> ends ci) ys" "q = length ys"
    "classify_control_flow (length ys) ci = Some (Conditional q t w)"
proof -
  have one: "length (filter is_conditional xs) = 1" using flow_from_open(2)[OF assms(1), of 0] assms(2) by simp
  then obtain ys ci where x: "xs = ys @ [ci]" by (metis append_butlast_last_id filter.simps(1) list.size(3) zero_neq_one)
  have o: "list_all (\<lambda>ci. \<not> ends ci) ys" and c: "is_conditional ci" using assms(1) tidy one x by simp_all
  then have "length (fst (flow_from 0 ys)) = 0" using one x flow_from_open(2)[OF o, of 0] by simp
  then have f: "fst (flow_from (length ys) [ci]) = [Conditional q t w]" using assms(2) unfolding x flow_from_append[OF o] by simp
  obtain p' t' w' where "classify_control_flow 0 ci = Some (Conditional p' t' w')"
    using c unfolding is_conditional_def by (auto split: option.splits control_flow_op.splits)
  then have l: "classify_control_flow (length ys) ci = Some (Conditional (length ys) t' w')" by (simp add: classify_at[of "length ys"])
  then have "q = length ys" "t = t'" "w = w'" using f by simp_all
  then show ?thesis using that[OF x o] l by simp
qed

lemma simplify_block_inverts:
  assumes "t \<noteq> n" "simplify_block n b \<noteq> b" "block_control_flow b = (conditionals, e)" "e = Some (Unconditional p t)"
  obtains q w where "conditionals = [Conditional q n w]" "fst (xb_insts b ! q) = CtlOp X_Jcc" "x_cond (fst (snd (xb_insts b ! q))) \<noteq> None"
proof -
  have "\<exists>q w. conditionals = [Conditional q n w] \<and> fst (xb_insts b ! q) = CtlOp X_Jcc \<and> x_cond (fst (snd (xb_insts b ! q))) \<noteq> None"
  proof (cases conditionals rule: remdups_adj.cases)
    case (2 c)
    show ?thesis
    proof (cases c)
      case (Conditional q t' w)
      then show ?thesis using assms 2 by (simp add: simplify_block_def split: if_splits option.splits)
    qed (use assms 2 in \<open>simp_all add: simplify_block_def\<close>)
  next
    case (3 c d cs)
    then show ?thesis using assms by (cases c) (simp_all add: simplify_block_def)
  qed (use assms in \<open>simp add: simplify_block_def\<close>)
  then show ?thesis using that by blast
qed

lemma simplify_block_run:
  assumes "tidy b"
  shows "resolve (Some n) (run_control sem (branch_taken flags nonzero) (xb_insts (simplify_block n b)) s)
    = resolve (Some n) (run_control sem (branch_taken flags nonzero) (xb_insts b) s)"
proof (cases "ended b")
  case False
  then have "snd (block_control_flow b) = None" using tidy_falls[OF assms] by simp
  then show ?thesis by (cases "block_control_flow b") (simp add: simplify_block_def)
next
  case True
  obtain xs e where x: "xb_insts b = xs @ [e]" "ends e" "list_all (\<lambda>ci. \<not> ends ci) xs"
    "length (filter is_conditional xs) = 1 \<longrightarrow> is_conditional (last xs)"
    "block_control_flow b = (fst (flow_from 0 xs), classify_control_flow (length xs) e)" by (rule tidy_ended[OF assms True])
  show ?thesis
  proof (cases "simplify_block n b = b")
    case False
    have "\<exists>p t. classify_control_flow (length xs) e = Some (Unconditional p t)"
    proof (rule ccontr)
      assume "\<nexists>p t. classify_control_flow (length xs) e = Some (Unconditional p t)"
      then have "simplify_block n b = b" using x(5) by (simp add: simplify_block_def split: option.split control_flow_op.split)
      then show False using False by simp
    qed
    then obtain t p where u: "classify_control_flow (length xs) e = Some (Unconditional p t)" by blast
    then have p: "p = length xs" by (auto simp: classify_control_flow_def split: if_splits bind_splits)
    show ?thesis
    proof (cases "t = n")
      case True
      then have "xb_insts (simplify_block n b) = xs" using x(1,5) u p by (simp add: simplify_block_def erase_at_def)
      then show ?thesis using erase_jump[OF x(3)] u x(1) True by metis
    next
      case other: False
      then obtain q w where f: "fst (flow_from 0 xs) = [Conditional q n w]" "fst (xb_insts b ! q) = CtlOp X_Jcc"
        "x_cond (fst (snd (xb_insts b ! q))) \<noteq> None"
        using False x(5) u by (rule simplify_block_inverts)
      then obtain c where c: "x_cond (fst (snd (xb_insts b ! q))) = Some c" by blast
      obtain ys ci where y: "xs = ys @ [ci]" "list_all (\<lambda>ci. \<not> ends ci) ys" "q = length ys"
        "classify_control_flow (length ys) ci = Some (Conditional q n w)" by (rule single_conditional[OF x(3) f(1) x(4)])
      have ci: "xb_insts b ! q = ci" using x(1) y(1,3) by (simp add: nth_append)
      have "xb_insts (simplify_block n b) = ys @ [invert_branch c t w ci]"
        using x(1,5) u p other f c ci y(1,3) by (simp add: simplify_block_def erase_at_def list_update_append)
      moreover have "xb_insts b = ys @ [ci, e]" using x(1) y(1) by simp
      ultimately show ?thesis using invert_jcc[OF y(2,4) _ _ u] f(2) c ci by metis
    qed
  qed simp
qed

lemma simplify_block_id [simp]: "xb_id (simplify_block n b) = xb_id b"
  by (simp add: simplify_block_def erase_at_def split: prod.split option.split control_flow_op.split list.split)

subsection \<open>The whole function\<close>

lemma simplified_flow:
  assumes "list_all tidy blocks"
  shows "layout_flow sem (branch_taken flags nonzero) (simplify_branches_for_layout blocks) block s
    = layout_flow sem (branch_taken flags nonzero) blocks block s"
  using assms
proof (induction blocks rule: simplify_branches_for_layout.induct)
  case (1 b n bs)
  moreover have "(case simplify_branches_for_layout (n # bs) of [] \<Rightarrow> None | m # _ \<Rightarrow> Some (xb_id m)) = Some (xb_id n)"
    by (cases bs) simp_all
  ultimately show ?case by (simp add: simplify_block_run)
qed simp_all

lemma simplified_ids [simp]: "map xb_id (simplify_branches_for_layout blocks) = map xb_id blocks"
  by (induction blocks rule: simplify_branches_for_layout.induct) simp_all

lemma jmp_ends: "classify_control_flow pos (jmp t) = Some (Unconditional pos t)"
  by (simp add: classify_control_flow_def jmp_def)

definition with_jump :: "nat \<Rightarrow> x86_block \<Rightarrow> x86_block" where
  "with_jump t b = b\<lparr>xb_insts := xb_insts b @ [jmp t]\<rparr>"

lemma with_jump:
  assumes "tidy b" "\<not> ended b"
  shows "tidy (with_jump t b)" "ended (with_jump t b)"
    and "resolve next_id (run_control sem taken (xb_insts (with_jump t b)) s) = resolve (Some t) (run_control sem taken (xb_insts b) s)"
proof -
  have e: "ends (jmp t)" by (simp add: ends_def jmp_ends)
  show "ended (with_jump t b)" using e by (simp add: ended_def with_jump_def)
  have "before_end (xb_insts b) = xb_insts b" using assms(2) by (auto simp: ended_def before_end_def)
  then show "tidy (with_jump t b)" using assms(1) e by (simp add: tidy_def with_jump_def before_end_def)
  have "run_control sem taken (xb_insts (with_jump t b)) s = resolve (Some t) (run_control sem taken (xb_insts b) s)"
    by (simp add: with_jump_def run_control_append[OF tidy_open(1)[OF assms]] jmp_ends split: prod.split exit.split)
  moreover have "snd (resolve (Some t) r) \<noteq> Fall" for r :: "'a \<times> exit" by (cases r; cases "snd r") auto
  ultimately show "resolve next_id (run_control sem taken (xb_insts (with_jump t b)) s) = resolve (Some t) (run_control sem taken (xb_insts b) s)"
    by simp
qed

lemma materialize_cons:
  "tidy b \<Longrightarrow> materialize_fallthrough_branches (b # n # bs)
    = (if ended b then b else with_jump (xb_id n) b) # materialize_fallthrough_branches (n # bs)"
  by (simp add: tidy_falls with_jump_def)

text \<open>After the first phase every block says where it goes on.\<close>

lemma materialized:
  assumes "list_all tidy blocks" "blocks \<noteq> []" "ended (last blocks)"
  shows "list_all tidy (materialize_fallthrough_branches blocks) \<and> list_all ended (materialize_fallthrough_branches blocks)
    \<and> map xb_id (materialize_fallthrough_branches blocks) = map xb_id blocks
    \<and> layout_flow sem taken (materialize_fallthrough_branches blocks) block s = layout_flow sem taken blocks block s"
  using assms
proof (induction blocks rule: materialize_fallthrough_branches.induct)
  case (1 b n bs)
  have IH: "list_all tidy (materialize_fallthrough_branches (n # bs)) \<and> list_all ended (materialize_fallthrough_branches (n # bs))
    \<and> map xb_id (materialize_fallthrough_branches (n # bs)) = map xb_id (n # bs)
    \<and> layout_flow sem taken (materialize_fallthrough_branches (n # bs)) block s = layout_flow sem taken (n # bs) block s"
    using 1 by simp
  have t: "tidy b" using 1 by simp
  let ?m = "if ended b then b else with_jump (xb_id n) b"
  have m: "tidy ?m" "ended ?m" "xb_id ?m = xb_id b" using t with_jump(1,2)[OF t] by (auto simp: with_jump_def)
  have "resolve next_id (run_control sem taken (xb_insts ?m) s) = resolve (Some (xb_id n)) (run_control sem taken (xb_insts b) s)" for next_id
    by (simp add: ended_leaves[OF t] with_jump(3)[OF t])
  then show ?case unfolding materialize_cons[OF t] using IH m by simp
qed simp_all

text \<open>Where no block falls through, the order of the blocks does not matter.\<close>

lemma layout_flow_ended:
  assumes "list_all tidy blocks" "list_all ended blocks" "distinct (map xb_id blocks)"
  shows "layout_flow sem taken blocks block s
    = map_option (\<lambda>b. run_control sem taken (xb_insts b) s) (map_of (map (\<lambda>b. (xb_id b, b)) blocks) block)"
  using assms by (induction blocks) (auto simp: ended_leaves)

lemma layout_flow_permuted:
  assumes "list_all tidy blocks" "list_all ended blocks" "distinct (map xb_id blocks)" "mset layout = mset blocks"
  shows "layout_flow sem taken layout block s = layout_flow sem taken blocks block s"
proof -
  have same: "set layout = set blocks" by (rule mset_eq_setD[OF assms(4)])
  have "mset (map xb_id layout) = mset (map xb_id blocks)" using assms(4) by simp
  then have d: "distinct (map xb_id layout)" using assms(3) by (rule mset_eq_imp_distinct_iff[THEN iffD2])
  have "mset (map (\<lambda>b. (xb_id b, b)) layout) = mset (map (\<lambda>b. (xb_id b, b)) blocks)" using assms(4) by simp
  then have "set (map (\<lambda>b. (xb_id b, b)) layout) = set (map (\<lambda>b. (xb_id b, b)) blocks)" by (rule mset_eq_setD)
  then have "map_of (map (\<lambda>b. (xb_id b, b)) layout) = map_of (map (\<lambda>b. (xb_id b, b)) blocks)"
    using d assms(3) by (intro map_of_inject_set[THEN iffD2]) (simp_all add: comp_def)
  moreover have "list_all tidy layout" "list_all ended layout" using assms(1,2) same by (simp_all add: list_all_iff)
  ultimately show ?thesis by (simp add: layout_flow_ended[OF assms(1-3)] layout_flow_ended[OF _ _ d])
qed

lemma x86_edges_in_range:
  assumes "distinct (map xb_id blocks)"
  shows "list_all (list_all (\<lambda>e. ce_to e < length blocks)) (machine_cfg_edges blocks)"
proof -
  have i: "to < length blocks" if "block_indexes (map xb_id blocks) tgt = Some to" for tgt to using block_indexes_at[OF assms] that by auto
  show ?thesis
    by (auto simp: machine_cfg_edges_def block_edges_def list_all_iff in_map_filter i[OF sym]
        split: option.splits control_flow_op.splits prod.splits dest: i)
qed

text \<open>The pass applies the chain order to the blocks with explicit ends.\<close>

lemma place_blocks_order:
  assumes "distinct (map xb_id blocks0)" "length blocks0 \<le> USIZE_MAX" "2 \<le> length blocks0"
    and b: "blocks = materialize_fallthrough_branches blocks0" "map xb_id blocks = map xb_id blocks0"
  obtains layout where "place_blocks frequencies scaled blocks0 = Some (simplify_branches_for_layout layout)"
    "mset layout = mset blocks" "hd layout = hd blocks"
proof -
  let ?s = "machine_cfg_edges blocks"
  have n: "length blocks = length blocks0" using b(2) by (metis length_map)
  have l: "length ?s = length blocks" "?s \<noteq> []" using assms(3) n by (auto simp: machine_cfg_edges_def)
  note range = x86_edges_in_range[of blocks, folded l(1)]
  obtain info where info: "from_edges ?s = Some info" using from_edges_total[OF l(2) range] assms(1) b(2) by auto
  let ?bf = "(!) (frequencies info)" and ?ef = "edge_frequency scaled (frequencies info) info"
  obtain rest where order: "chain_order ?s ?bf ?ef = Some (0 # rest)" "distinct (0 # rest)" "set (0 # rest) = {..<length blocks}"
    using chain_order_list[OF l(2) _ range, of ?bf ?ef] assms(1,2) b(2) n unfolding l(1) by metis
  have "distinct blocks" using assms(1) b(2) by (metis distinct_map)
  then have "place_blocks frequencies scaled blocks0 = Some (simplify_branches_for_layout (map ((!) blocks) (0 # rest)))"
    using layout_of_order[OF _ order(2,3) refl] assms(3) info order(1) by (simp add: place_blocks_def Let_def b(1)[symmetric])
  moreover have "hd (map ((!) blocks) (0 # rest)) = hd blocks" using assms(3) n by (cases blocks) auto
  ultimately show ?thesis using that layout_permutation[OF order(2,3)] by blast
qed

text \<open>
  (C4) Block placement on x86-64 keeps the program: the pass returns, the new layout holds the same blocks with the entry first, and from
  every block and state control goes to the same place with the same state, whatever the other instructions do.
\<close>

theorem x86_placement_preserves_flow:
  assumes "distinct (map xb_id blocks)" "length blocks \<le> USIZE_MAX" "list_all tidy blocks" "blocks \<noteq> []" "ended (last blocks)"
  shows "\<exists>layout. place_blocks frequencies scaled blocks = Some layout \<and> mset (map xb_id layout) = mset (map xb_id blocks)
    \<and> xb_id (hd layout) = xb_id (hd blocks)
    \<and> (\<forall>sem flags nonzero block (s :: 's).
         layout_flow sem (branch_taken flags nonzero) layout block s = layout_flow sem (branch_taken flags nonzero) blocks block s)"
proof (cases "length blocks < 2")
  case True
  then show ?thesis by (simp add: place_blocks_def)
next
  case False
  define explicit where "explicit = materialize_fallthrough_branches blocks"
  have t: "list_all tidy explicit" "list_all ended explicit" and ids: "map xb_id explicit = map xb_id blocks"
    and m: "layout_flow sem taken explicit block s = layout_flow sem taken blocks block s" for sem taken block and s :: 's
    by (simp_all add: explicit_def materialized[OF assms(3-5)])
  obtain layout where l: "place_blocks frequencies scaled blocks = Some (simplify_branches_for_layout layout)" "mset layout = mset explicit"
    "hd layout = hd explicit" using place_blocks_order[OF assms(1,2) _ explicit_def ids] False by (metis not_less)
  have "layout \<noteq> []" "explicit \<noteq> []" using l(2) ids assms(4) by auto
  then have "xb_id (hd (simplify_branches_for_layout layout)) = xb_id (hd blocks)"
    using l(3) ids assms(4) simplified_ids[of layout] by (metis hd_map map_is_Nil_conv)
  moreover have "mset (map xb_id (simplify_branches_for_layout layout)) = mset (map xb_id blocks)"
    unfolding simplified_ids using l(2) ids by (metis mset_map)
  moreover have "list_all tidy layout" using t(1) mset_eq_setD[OF l(2)] by (simp add: list_all_iff)
  then have "layout_flow sem (branch_taken flags nonzero) (simplify_branches_for_layout layout) block s
      = layout_flow sem (branch_taken flags nonzero) blocks block s" for sem flags nonzero block and s :: 's
    using simplified_flow layout_flow_permuted[OF t _ l(2)] m assms(1) ids by metis
  ultimately show ?thesis using l(1) by blast
qed

definition loop_blocks :: "x86_block list" where
  "loop_blocks =
    [\<lparr>xb_id = 7, xb_insts = [(CtlOp X_Jcc, no_fields\<lparr>x_cond := Some CC_E, x_target := Some 9\<rparr>, None)]\<rparr>,
     \<lparr>xb_id = 8, xb_insts = [(CtlOp X_Ud2, no_fields, None)]\<rparr>,
     \<lparr>xb_id = 9, xb_insts = [(CtlOp X_Ret, no_fields, None)]\<rparr>]"

theorem x86_placement_preserves_flow_witness:
  "\<exists>layout. place_blocks (\<lambda>_. [100, 1, 99]) (\<lambda>f p. f * p) loop_blocks = Some layout \<and> set (map xb_id layout) = {7, 8, 9}
    \<and> xb_id (hd layout) = 7
    \<and> (\<forall>flags. layout_flow (\<lambda>_ s. s) (branch_taken flags (\<lambda>_ _. False)) layout 7 (0 :: nat)
        = Some (0, Goto (if cond_holds (flags 0) CC_E then 9 else 8)))"
proof -
  have shape: "distinct (map xb_id loop_blocks)" "length loop_blocks \<le> USIZE_MAX" "loop_blocks \<noteq> []" "ended (last loop_blocks)"
    "list_all tidy loop_blocks"
    by (simp_all add: loop_blocks_def USIZE_MAX_def tidy_def before_end_def ended_def ends_def is_conditional_def classify_control_flow_def)
  have "layout_flow (\<lambda>_ s. s) (branch_taken flags (\<lambda>_ _. False)) loop_blocks 7 (0 :: nat)
      = Some (0, Goto (if cond_holds (flags 0) CC_E then 9 else 8))" for flags
    by (simp add: loop_blocks_def classify_control_flow_def branch_taken_def no_fields_def)
  moreover have "set (map xb_id loop_blocks) = {7, 8, 9}" "xb_id (hd loop_blocks) = 7" by (simp_all add: loop_blocks_def)
  moreover obtain layout where "place_blocks (\<lambda>_. [100, 1, 99]) (\<lambda>f p. f * p) loop_blocks = Some layout"
    "mset (map xb_id layout) = mset (map xb_id loop_blocks)" "xb_id (hd layout) = xb_id (hd loop_blocks)"
    "\<forall>sem flags nonzero block (s :: nat).
      layout_flow sem (branch_taken flags nonzero) layout block s = layout_flow sem (branch_taken flags nonzero) loop_blocks block s"
    using x86_placement_preserves_flow[OF shape(1,2,5,3,4), where frequencies = "\<lambda>_. [100, 1, 99]" and scaled = "\<lambda>f p. f * p"] by blast
  ultimately show ?thesis using mset_eq_setD by metis
qed

end
