(* ===== verification/Spec2Isabelle.thy ===== *)
theory Spec2Isabelle
  imports Div_Expand Simplify A64_Frame_Correct A64_Layout A64_Edges A64_Fmov Block_Placement X86_Layout X86_Frame X86_Edges X86_Placement
begin

text \<open>
  A verification library for \<^verbatim>\<open>crabbit\<close>, a code generation backend of rustc.

  \<^bold>\<open>The program.\<close>  \<^verbatim>\<open>crates/crabbit\<close> imports Rust's MIR into an intermediate representation of the pliron framework;
  \<^verbatim>\<open>crates/mir\<close> lowers it to an LLVM-like dialect, and \<^verbatim>\<open>crates/pliron-ll\<close> holds that dialect, the passes that optimise it
  (\<^verbatim>\<open>passes/llvm\<close>), and the back ends: instruction selection, register allocation, block placement, frame lowering and
  encoding for AArch64 (\<^verbatim>\<open>aarch64\<close>, \<^verbatim>\<open>passes/aarch64\<close>) and x86-64 (\<^verbatim>\<open>x86_64\<close>, \<^verbatim>\<open>passes/x86_64_darwin\<close>), and text
  output for NVPTX.  Passes share the functions of a module and communicate through them only.  The library
  models the parts of this pipeline whose correctness is a matter of algorithms, from the arithmetic of the middle end to the bytes of
  the object file.  File names below are relative to \<^verbatim>\<open>crates/pliron-ll/src\<close>.

  \<^bold>\<open>Conventions.\<close>  A definition has the name of the Rust item it models; a helper of the model that stands for a part of a
  function is named for what that part does.  A struct is a record, an enum a datatype.  \<open>Result\<close> is the sum type \<open>crabbit_result\<close>,
  error texts shortened; a panic (\<open>unwrap\<close>, an index out of range) is an outer \<open>None\<close>, and theorems that a pass
  returns exclude it.  A function that takes \<open>&mut\<close> returns the new value.  Blocks and values are numbers in place of the pointers
  of the framework, an IR operation of the middle end is a tree of the operations that define its operands.  Sizes and
  offsets (\<open>usize\<close>, \<open>u64\<close>) of code and frames are natural numbers; words of the instruction encoders and registers of the machines
  have their width.  A hash table is a map where its order cannot be seen, and a sorted list where the code sorts it.

  \<^bold>\<open>Shared parts.\<close>
  \<^item> \<open>Prelude\<close>: names of machine types, facts on bits, division and lists.  \<open>Text\<close>: numbers as Rust prints and parses them, and
    the locale \<open>spelling\<close> (a printer and the parser that undoes it), interpreted by the registers and condition codes of both targets.

  \<^bold>\<open>Middle end.\<close>
  \<^item> \<open>Apint\<close> (masks and sign extension of \<^verbatim>\<open>passes/llvm/simplify.rs\<close>), \<open>Llvm_Int\<close> (the values of LLVM's integer
    operations), \<open>Simplify\<close> (\<open>fold_op\<close> and what it calls): a fold preserves the value of an operation that has one, and
    makes the operation smaller.
  \<^item> \<open>Div_Magic\<close> (\<open>magic_unsigned\<close>, \<open>magic_signed\<close>) and \<open>Div_Expand\<close> (the rest of \<^verbatim>\<open>passes/llvm/div_strength_reduce.rs\<close>): the magic
    numbers satisfy the bounds of the division theorems, and the sequence that replaces a division computes it.

  \<^bold>\<open>Analyses of the control flow graph.\<close>
  \<^item> \<open>Cfg_Order\<close> (the depth-first search), \<open>Dominance\<close> and \<open>Dom_Frontier\<close> (\<^verbatim>\<open>passes/dominance_frontier.rs\<close>): the iteration of Cooper,
    Harvey and Kennedy ends and gives the immediate dominators and frontiers, as defined by paths, for
    irreducible graphs too.  The locales \<open>rpo_graph\<close>, \<open>region_graph\<close> and \<open>region_analysis\<close> state what is needed of an order and
    of its predecessor lists; they are interpreted on the search.
  \<^item> \<open>Hot_Path\<close> and \<open>Natural_Loops\<close> (\<^verbatim>\<open>passes/hot_path.rs\<close>): loop membership is that of the natural loops of the back edges, and
    the hot path ends and follows most probable edges.
  \<^item> \<open>Block_Placement\<close> (\<open>chain_order\<close>, and \<^verbatim>\<open>passes/aarch64/aarch64_block_placement.rs\<close>): the layout is a permutation with the entry first, in the order of
    the chains.  \<open>X86_Placement\<close> (\<^verbatim>\<open>passes/x86_64_darwin/x86_64_block_placement.rs\<close>): the new layout, with its branches
    removed and inverted, takes control from every block to the same place.

  \<^bold>\<open>AArch64.\<close>
  \<^item> \<open>A64_Registers\<close>, \<open>A64_Ops\<close> (\<^verbatim>\<open>aarch64/registers.rs\<close>, \<^verbatim>\<open>attributes.rs\<close>, \<^verbatim>\<open>ops.rs\<close>): registers, condition codes, opcodes and their operand
    tables.  \<open>A64_Encode\<close>, \<open>A64_Immediates\<close>, \<open>A64_Branch\<close> (\<^verbatim>\<open>aarch64/encoding.rs\<close>): the encoder; its words are read back by a
    disassembler and executed on a small processor model, from the architecture manual.  \<open>A64_Fmov\<close> (the same file): the search for a
    floating-point immediate, against the numbers that IEEE 754 patterns and FMOV immediates stand for.
  \<^item> \<open>A64_LinearScan\<close>, \<open>Live_Flow\<close>, \<open>Live_Exact\<close>, \<open>A64_Liveness\<close>, \<open>A64_Rewrite\<close>, \<open>A64_Rewrite_Correct\<close>
    (\<^verbatim>\<open>passes/aarch64/aarch64_register_allocate.rs\<close>): liveness
    along paths and its iteration (the locale \<open>backward_walk\<close>, shared with x86-64), whose intervals cover the positions a value is busy at
    and end at such positions, the scan for every victim policy that
    meets the locale \<open>spill_policy\<close>, and the rewriting.  It panics if an index is outside a bank's registers, which cannot be
    where each value keeps to one bank; with rematerialisation or without it preserves what the code computes along every path, if the layout
    shows every value that crosses a call at an earlier instruction.
  \<^item> \<open>A64_Edges\<close>, over \<open>Edge_Copies\<close> (\<open>emit_block_arg_copies\<close> of the two \<^verbatim>\<open>isel_control_flow.rs\<close>): the moves for an edge are a parallel
    copy.  What a target provides is the locale \<open>copy_target\<close>; \<open>X86_Edges\<close> interprets it too.
  \<^item> \<open>A64_Frame\<close>, \<open>A64_Frame_Correct\<close> (\<^verbatim>\<open>passes/aarch64/aarch64_frame_lower.rs\<close>): where there is a frame, and the scratch registers
    of large offsets are free, a run of the lowered function from its entry to a return is a run of its body inside the frame, with the callee-saved
    registers restored.
  \<^item> \<open>Code_Literals\<close> (shared with x86-64) and \<open>A64_Layout\<close> (\<^verbatim>\<open>passes/aarch64/aarch64_encode.rs\<close>): everything ends up where the tables of
    offsets say, so branches, calls and literal addresses reach what they name.

  \<^bold>\<open>x86-64.\<close>
  \<^item> \<open>X86_Ops\<close> (\<^verbatim>\<open>x86_64/registers.rs\<close>, \<^verbatim>\<open>attributes.rs\<close>, \<^verbatim>\<open>ops.rs\<close>), \<open>X86_Encode\<close> (\<^verbatim>\<open>x86_64/encoding.rs\<close>).  \<open>X86_Machine\<close> decodes and runs
    bytes as the architecture manual says; it is a specification and models no code of the repository.
    \<open>X86_Encode_Correct\<close>: the bytes of an instruction do what the instruction means, whatever the flags the architecture leaves open.
  \<^item> \<open>X86_Alloc\<close> (\<^verbatim>\<open>passes/x86_64_darwin/x86_64_register_allocate.rs\<close>): values that are live together never share a register or slot.
  \<^item> \<open>X86_Frame\<close> (\<^verbatim>\<open>x86_64_frame_lower.rs\<close>): the bytes of prologue and epilogue of a one-block function that does not begin with a stack
    argument restore the caller's registers, stack and return address.
  \<^item> \<open>X86_Layout\<close> (\<^verbatim>\<open>x86_64_encode.rs\<close>): as on AArch64, with instructions of different lengths.

  \<^bold>\<open>Bounds and fuel.\<close>  No loop has fuel.  Loops over numbers or lists are functions with a measure.  The searches for
  a fixed point (dominators, liveness, natural loops) and the ordering of the copies of an edge are \<open>while_option\<close> or partial
  functions whose \<open>None\<close> is divergence; theorems show that they end.  Bounds of the code that a
  theorem needs are its hypotheses: branch distances the encoders accept, at most \<open>USIZE_MAX\<close> blocks, register numbers of 32 bits,
  frames that fit the address space.  Division is proved at the widths the pass handles, 8, 16, 32 and 64.

  \<^bold>\<open>Findings.\<close>  Modelling showed six behaviours the code does not intend.  A pc-relative distance of \<open>-2^24\<close> is accepted
  and encoded as 0 (\<open>A64_Branch\<close>).  A value lives across calls, for the allocator, if a call lies in layout order strictly inside its
  interval; a value defined in a block laid out behind a call it lives across need not be seen to cross it (\<open>A64_Liveness\<close>).  The scratch register of large stack offsets may hold the target of an indirect call (\<open>A64_Frame_Correct\<close>).
  A function without a frame does not get its large stack-argument offsets legalised (\<open>A64_Frame\<close>).  On x86-64 a stack argument is loaded
  into a callee-saved register before that is saved, and reloads between the lowering of \<open>rsp\<close> for outgoing arguments and the call use
  the wrong offset (\<open>X86_Frame\<close>).

  \<^bold>\<open>Not modelled.\<close>
  \<^item> The importer and the driver: they read data structures of rustc and run its processes; neither is in the repository.
  \<^item> Passes that rewrite the graph of the IR in place (value numbering, scalar replacement, inlining, dead code, loop
    passes, alias analysis, CFG simplification) and instruction selection: they are written over operations, types, use
    lists and dictionaries of the pliron framework, a library whose code is not in the repository, so every definition would rest on an invented
    model of it.  What instruction selection shares with later passes (edge copies, legal operand shapes) enters as
    definitions or as hypotheses.
  \<^item> Block frequencies (\<^verbatim>\<open>passes/spectral_freq.rs\<close>, \<^verbatim>\<open>profile_freq.rs\<close>): floating point; they are parameters of placement, spill weights and
    edge frequencies, and the theorems hold for all values.
  \<^item> Object files, debug and profile attribution, tracing, configuration, target triples, NVPTX text: output formats and
    tables without a contract to prove, or effects on files.
  \<^item> The textual syntax of machine operations, which the framework parses and prints.
\<close>

end
